(* ===== verification/Prelude.thy ===== *)
theory Prelude
  imports Main "HOL-Library.Word" "HOL-Library.Monad_Syntax"
begin

unbundle bit_operations_syntax

text \<open>
  Shared ground of the development: the machine integer types of \<open>inc/SGDK/types.h\<close>, the
  representation of pointers, the collections of rewrite rules the component theories extend,
  and the generic lemmas on words and lists they use.

  Every integer of the library has a fixed width (\<open>u8\<close>, \<open>u16\<close>, \<open>u32\<close> and their signed
  variants), so each is a word of that width: arithmetic wraps as it does on the 68000. A signed
  type is the same word read with \<open>sint\<close>. The compiler's \<open>int\<close> has 32 bits, so an expression
  over \<open>u16\<close> operands that is stored back into a \<open>u16\<close> agrees with 16-bit arithmetic; where
  an intermediate 32-bit value matters the model writes the conversion out.
\<close>

type_synonym u8 = "8 word"
type_synonym u16 = "16 word"
type_synonym u32 = "32 word"
type_synonym s16 = "16 word"
type_synonym s32 = "32 word"

text \<open>
  A \<open>u16*\<close> is the index of a 16-bit word: the pointer \<open>p\<close> stands for the byte address
  \<open>2 * p\<close>, which is even as the 68000 requires for word accesses, and \<open>p += n\<close> is plain
  addition. The null pointer is index 0. Work RAM is a function from word indices to words.
\<close>

type_synonym ptr = nat
type_synonym ram = "nat \<Rightarrow> u16"

abbreviation (input) NULL :: ptr where
  "NULL \<equiv> 0"

named_theorems cfg "compile-time constants of the library (the #define values)"
named_theorems ops "definitions of the operations, for unfolding"

section \<open>Words\<close>

lemma unat_plus_small:
  fixes a b :: "'a::len word"
  assumes "unat a + unat b < 2 ^ LENGTH('a)"
  shows "unat (a + b) = unat a + unat b"
  using assms by (simp add: unat_word_ariths)

lemma unat_minus_le:
  fixes a b :: "'a::len word"
  assumes "b \<le> a"
  shows "unat (a - b) = unat a - unat b"
  using assms by (simp add: unat_sub)

lemma unat_u16_lt: "unat (x :: u16) < 65536"
proof -
  have "unat x < 2 ^ LENGTH(16)" by (rule unsigned_less)
  then show ?thesis by simp
qed

lemma unat_u8_lt: "unat (x :: u8) < 256"
proof -
  have "unat x < 2 ^ LENGTH(8)" by (rule unsigned_less)
  then show ?thesis by simp
qed

lemma unat_u32_lt: "unat (x :: u32) < 4294967296"
proof -
  have "unat x < 2 ^ LENGTH(32)" by (rule unsigned_less)
  then show ?thesis by simp
qed

lemma word_gt_0_unat: "(0 :: 'a::len word) < x \<longleftrightarrow> 0 < unat x"
  by (simp add: word_less_nat_alt)

lemma unat_drop_bit1: "unat (drop_bit 1 (x :: 'a::len word)) = unat x div 2"
  by (metis unsigned_drop_bit_eq drop_bit_eq_div power_one_right take_bit_drop_bit unat_drop_bit_eq)

lemma unat_drop_bit: "unat (drop_bit n (x :: 'a::len word)) = unat x div 2 ^ n"
  by (metis drop_bit_eq_div unat_drop_bit_eq)

lemma unat_and_1: "unat (x AND 1 :: 'a::len word) = unat x mod 2"
  by (metis unsigned_and_eq and_one_eq unsigned_1)

lemma and_1_eq_0_iff: "(x :: 'a::len word) AND 1 = 0 \<longleftrightarrow> even (unat x)"
  by (metis unat_and_1 unat_0 even_iff_mod_2_eq_zero unsigned_word_eqI)

lemma word_and_not_minus: "(x :: 'a::len word) AND NOT y = x - (x AND y)"
proof -
  have "NOT x AND (x AND y) = 0" "x AND NOT y = x AND NOT (x AND y)"
    by (rule bit_word_eqI, simp add: bit_simps, blast?)+
  then show ?thesis using disjunctive_diff_eq_and_not [of x "x AND y"] by simp
qed

lemma unat_push_drop1: "unat (push_bit 1 (drop_bit 1 (x :: 'a::len word))) = 2 * (unat x div 2)"
proof -
  have "push_bit 1 (drop_bit 1 x) = x AND NOT 1"
    by (rule bit_word_eqI)
      (auto simp only: bit_push_bit_iff bit_drop_bit_eq comp_apply bit_and_iff bit_not_iff
        bit_1_iff possible_bit_word le_add_diff_inverse)
  then have "push_bit 1 (drop_bit 1 x) = x - (x AND 1)"
    by (simp only: word_and_not_minus)
  moreover have "x AND 1 \<le> x" by (rule word_and_le2)
  ultimately show ?thesis
    by (simp add: unat_sub unat_and_1 minus_mod_eq_mult_div)
qed

lemma unat_ucast_mod: "unat (ucast (x :: 'a::len word) :: 'b::len word) = unat x mod 2 ^ LENGTH('b)"
  by (simp only: unsigned_ucast_eq take_bit_eq_mod)

lemma unat_ucast16: "unat (ucast (x :: u32) :: u16) = unat x mod 65536"
  by (simp only: unat_ucast_mod) simp

lemma unat_and_mask: "unat ((x :: 'a::len word) AND mask n) = unat x mod 2 ^ n"
proof -
  have "unat (take_bit n x) = take_bit n (unat x)" by (rule unsigned_take_bit_eq)
  then show ?thesis by (metis take_bit_eq_mask take_bit_eq_mod)
qed

lemma bit_unat_word: "bit (x :: 'a::len word) n \<longleftrightarrow> odd (unat x div 2 ^ n)"
  by (metis bit_iff_odd bit_unsigned_iff possible_bit_nat)

lemma bit15_unat: "bit (x :: u16) 15 \<longleftrightarrow> 32768 \<le> unat x"
proof -
  have "odd (unat x div 2 ^ 15) \<longleftrightarrow> 32768 \<le> unat x"
    using unat_u16_lt [of x] by (cases "32768 \<le> unat x") (auto simp: div_if)
  then show ?thesis by (simp only: bit_unat_word)
qed

lemma sint_nonneg_u16: "0 \<le> sint (x :: u16) \<longleftrightarrow> unat x < 32768"
  by (simp add: sint_uint bit_uint_iff bit15_unat not_le)

text \<open>A 16-bit word put together from a base whose low byte is zero and a byte.\<close>

lemma or_byte:
  fixes hi :: u16 and v :: u8
  shows "drop_bit 8 (hi OR ucast v) = drop_bit 8 hi"
    and "(ucast (hi OR ucast v) :: u8) = ucast hi OR v"
    and "(hi OR ucast v) AND 0xC000 = hi AND 0xC000"
proof -
  have v: "bit v n \<Longrightarrow> n < 8" for n using bit_imp_le_length [of v n] by simp
  show "drop_bit 8 (hi OR ucast v) = drop_bit 8 hi"
    by (rule bit_eqI) (auto simp: bit_drop_bit_eq bit_or_iff bit_unsigned_iff dest: v)
  show "(ucast (hi OR ucast v) :: u8) = ucast hi OR v"
    by (rule bit_eqI) (auto simp: bit_or_iff bit_unsigned_iff)
  have "(hi OR ucast v) AND NOT (mask 14) = hi AND NOT (mask 14)"
    by (rule bit_eqI) (auto simp: bit_and_iff bit_or_iff bit_not_iff bit_mask_iff bit_unsigned_iff dest: v)
  moreover have "NOT (mask 14) = (0xC000 :: u16)" by (simp add: mask_eq_exp_minus_1)
  ultimately show "(hi OR ucast v) AND 0xC000 = hi AND 0xC000" by simp
qed

text \<open>A table address stored as a register value and read back.\<close>

lemma addr_reg:
  fixes a :: u16
  assumes "2 ^ j dvd unat a" "8 \<le> j" "j < 16"
  shows "ucast (ucast (a div 2 ^ j) :: u8) * 2 ^ j = a"
proof -
  have "(2 :: nat) ^ j < 2 ^ 16" using assms(3) by (intro power_strict_increasing) auto
  then have "unat (of_nat (2 ^ j) :: u16) = 2 ^ j" by (simp only: unat_of_nat) simp
  then have j: "unat (2 ^ j :: u16) = 2 ^ j" by simp
  have "unat a div 2 ^ j < 2 ^ 8"
  proof -
    have "unat a < 2 ^ (16 - j) * 2 ^ j" using unat_u16_lt [of a] assms(3) by (simp flip: power_add)
    then have "unat a div 2 ^ j < 2 ^ (16 - j)" by (simp add: div_less_iff_less_mult)
    also have "(2 :: nat) ^ (16 - j) \<le> 2 ^ 8" using assms(2) by (intro power_increasing) auto
    finally show ?thesis .
  qed
  then have "unat (ucast (ucast (a div 2 ^ j) :: u8) :: u16) = unat a div 2 ^ j"
    using unat_u16_lt [of a] by (simp only: unat_ucast_mod unat_div j) simp
  then have "unat (ucast (ucast (a div 2 ^ j) :: u8) * 2 ^ j :: u16) = unat a"
    using assms(1) j unat_u16_lt [of a] by (simp add: unat_word_ariths)
  then show ?thesis by (rule unsigned_word_eqI)
qed

lemma dvd_and_not_mask: "j \<le> k \<Longrightarrow> 2 ^ j dvd unat ((x :: 'a::len word) AND NOT (mask k))"
proof -
  assume "j \<le> k"
  have "unat (x AND NOT (mask k)) = unat x - unat x mod 2 ^ k"
    by (simp only: word_and_not_minus unat_minus_le word_and_le2 unat_and_mask)
  then have "2 ^ k dvd unat (x AND NOT (mask k))" by (simp only: minus_mod_eq_mult_div dvd_triv_left)
  then show ?thesis using \<open>j \<le> k\<close> by (metis dvd_trans le_imp_power_dvd)
qed

lemma mask_keep:
  fixes x :: "'a::len word"
  assumes "m AND k = 0"
  shows "(x OR m) AND k = x AND k" "(x AND NOT m) AND k = x AND k"
proof -
  show "(x OR m) AND k = x AND k" using assms by (simp add: bit.conj_disj_distrib2)
  have "NOT m AND k = k"
  proof (rule bit_eqI)
    fix n show "bit (NOT m AND k) n = bit k n"
      using arg_cong [OF assms, of "\<lambda>w. bit w n"] by (auto simp: bit_and_iff bit_not_iff dest: bit_imp_le_length)
  qed
  then show "(x AND NOT m) AND k = x AND k" by (simp add: and.assoc)
qed

lemma mask_self: "((x :: 'a::len word) OR m) AND m = m" "(x AND NOT m) AND m = 0"
  by (rule bit_eqI, auto simp: bit_and_iff bit_or_iff bit_not_iff)+

lemma ucast_low_byte: "ucast (ucast (x :: u16) :: u8) = x AND 0xFF"
proof -
  have "ucast (ucast x :: u8) = x AND mask 8"
    by (rule bit_eqI) (auto simp: bit_and_iff bit_unsigned_iff bit_mask_iff)
  then show ?thesis by (simp add: mask_eq_exp_minus_1)
qed

section \<open>32-bit values and pointers in memory\<close>

text \<open>A 32-bit value in memory is two words, high word first.\<close>

definition store32 :: "ptr \<Rightarrow> u32 \<Rightarrow> ram \<Rightarrow> ram" where
  "store32 p v m = m(p := ucast (drop_bit 16 v), p + 1 := ucast v)"

definition load32 :: "ptr \<Rightarrow> ram \<Rightarrow> u32" where
  "load32 p m = push_bit 16 (ucast (m p)) OR ucast (m (p + 1))"

lemma load_store32 [simp]: "load32 p (store32 p v m) = v"
proof -
  have "push_bit 16 (ucast (ucast (drop_bit 16 v) :: u16)) OR ucast (ucast v :: u16) = v"
    by (rule bit_eqI) (auto simp: bit_or_iff bit_push_bit_iff bit_unsigned_iff bit_drop_bit_eq dest: bit_imp_le_length)
  then show ?thesis by (simp add: load32_def store32_def)
qed

lemma load32_words:
  "(ucast (drop_bit 16 (load32 p m)) :: u16) = m p" "(ucast (load32 p m) :: u16) = m (p + 1)"
proof -
  have b: "bit (m a) n \<Longrightarrow> n < 16" for a n using bit_imp_le_length [of "m a" n] by simp
  show "(ucast (drop_bit 16 (load32 p m)) :: u16) = m p" "(ucast (load32 p m) :: u16) = m (p + 1)"
    unfolding load32_def
    by (auto intro!: bit_eqI simp: bit_or_iff bit_push_bit_iff bit_unsigned_iff bit_drop_bit_eq dest: b)
qed


lemma load32_upd: "a \<noteq> p \<Longrightarrow> a \<noteq> p + 1 \<Longrightarrow> load32 p (m(a := v)) = load32 p m"
  by (simp add: load32_def)

lemma load32_cong: "m' p = m p \<Longrightarrow> m' (p + 1) = m (p + 1) \<Longrightarrow> load32 p m' = load32 p m"
  by (simp add: load32_def)

lemma store32_other [simp]: "a \<noteq> p \<Longrightarrow> a \<noteq> p + 1 \<Longrightarrow> store32 p v m a = m a"
  by (simp add: store32_def)

text \<open>A pointer in memory is the 32-bit byte address of a word.\<close>

definition load_ptr :: "ptr \<Rightarrow> ram \<Rightarrow> ptr" where
  "load_ptr p m = unat (load32 p m) div 2"

definition store_ptr :: "ptr \<Rightarrow> ptr \<Rightarrow> ram \<Rightarrow> ram" where
  "store_ptr p v m = store32 p (of_nat (2 * v)) m"

lemma load_store_ptr [simp]: "v < 2 ^ 31 \<Longrightarrow> load_ptr p (store_ptr p v m) = v"
proof -
  assume "v < 2 ^ 31"
  then have "2 * v < 2 ^ LENGTH(32)" by simp
  then have "unat (of_nat (2 * v) :: u32) = 2 * v" by (simp only: unat_of_nat mod_less)
  then show ?thesis unfolding load_ptr_def store_ptr_def load_store32 by simp
qed

lemma store_ptr_other [simp]: "a \<noteq> p \<Longrightarrow> a \<noteq> p + 1 \<Longrightarrow> store_ptr p v m a = m a"
  by (simp add: store_ptr_def)

lemma load_ptr_cong: "m' p = m p \<Longrightarrow> m' (p + 1) = m (p + 1) \<Longrightarrow> load_ptr p m' = load_ptr p m"
  by (simp add: load_ptr_def load32_def)

lemma load_ptr_0: "m p = 0 \<Longrightarrow> m (p + 1) = 0 \<Longrightarrow> load_ptr p m = 0"
  by (simp add: load_ptr_def load32_def)

section \<open>Signed values\<close>

lemma sint_of_int_16: "- 32768 \<le> k \<Longrightarrow> k < 32768 \<Longrightarrow> sint (word_of_int k :: s16) = k"
  by (simp add: sint_sbintrunc' signed_take_bit_int_eq_self)

lemma sint_of_int_32: "- 2147483648 \<le> k \<Longrightarrow> k < 2147483648 \<Longrightarrow> sint (word_of_int k :: s32) = k"
  by (simp add: sint_sbintrunc' signed_take_bit_int_eq_self)

lemma sint_small:
  assumes "unat (w :: u16) < 32768"
  shows "sint w = int (unat w)"
proof -
  have "sint (word_of_int (int (unat w)) :: u16) = int (unat w)" using assms by (intro sint_of_int_16) linarith+
  then show ?thesis by simp
qed

lemma sint_of_nat_16: "k < 32768 \<Longrightarrow> sint (of_nat k :: s16) = int k"
  using sint_of_int_16 [of "int k"] by (simp only: of_int_of_nat_eq)

lemma ucast_of_nat_8: "(ucast (of_nat k :: u16) :: u8) = of_nat k"
  by (auto intro!: bit_word_eqI simp: bit_simps)

end
