(* ===== verification/Blocks.thy ===== *)
theory Blocks
  imports Prelude
begin

text \<open>
  Memory managed as a chain of blocks, the layout both allocators of the library use
  (\<open>src/memory.c\<close> on work RAM, \<open>src/vram.c\<close> on the image of a VRAM region). A block starts
  with a header word that carries its size and a "used" flag; the next block starts right
  behind it and a zero header ends the chain. The two allocators differ only in how the header
  is read: \<open>used\<close> tells whether the flag is set and \<open>adv\<close> gives the distance, in words, to
  the next header.

  \<open>cseq adv m b hs e\<close> abstracts the words of \<open>m\<close> from address \<open>b\<close> to the end mark at \<open>e\<close>
  by the list \<open>hs\<close> of header words. The locale \<open>block_format\<close> states what an allocator's
  header format must satisfy; its extensions state the recursion equations of the loops that
  the allocators run over the chain (walk, skip, pack), and prove once that these loops
  return and what they compute on the abstract list.
\<close>

section \<open>Chains of blocks\<close>

fun cseq :: "(u16 \<Rightarrow> nat) \<Rightarrow> ram \<Rightarrow> nat \<Rightarrow> u16 list \<Rightarrow> nat \<Rightarrow> bool" where
  "cseq adv m b [] e \<longleftrightarrow> b = e \<and> m e = 0"
| "cseq adv m b (h # hs) e \<longleftrightarrow>
     m b = h \<and> h \<noteq> 0 \<and> 0 < adv h \<and> cseq adv m (b + adv h) hs e"

definition blen :: "(u16 \<Rightarrow> nat) \<Rightarrow> u16 list \<Rightarrow> nat" where
  "blen adv hs = sum_list (map adv hs)"

text \<open>The allocated blocks of a chain: address and header of each, in address order.\<close>

fun ublk :: "(u16 \<Rightarrow> bool) \<Rightarrow> (u16 \<Rightarrow> nat) \<Rightarrow> nat \<Rightarrow> u16 list \<Rightarrow> (nat \<times> u16) list" where
  "ublk used adv b [] = []"
| "ublk used adv b (h # hs) =
     (if used h then [(b, h)] else []) @ ublk used adv (b + adv h) hs"

text \<open>The words that belong to allocated blocks, headers included.\<close>

definition cells :: "(u16 \<Rightarrow> nat) \<Rightarrow> (nat \<times> u16) list \<Rightarrow> nat set" where
  "cells adv us = (\<Union>(p, h) \<in> set us. {p ..< p + adv h})"

text \<open>No two neighbouring free blocks.\<close>

fun packed :: "(u16 \<Rightarrow> bool) \<Rightarrow> u16 list \<Rightarrow> bool" where
  "packed used [] \<longleftrightarrow> True"
| "packed used [h] \<longleftrightarrow> True"
| "packed used (h # k # hs) \<longleftrightarrow> (used h \<or> used k) \<and> packed used (k # hs)"

text \<open>
  What packing does to the list: the sizes of neighbouring free blocks are added up. \<open>acc\<close> is
  the size of the free run that precedes the list. \<open>pk\<close> packs the whole chain; \<open>pkn n\<close>
  stops at the first packed free block of at least \<open>n\<close> and also returns the list in front of
  that block.
\<close>

fun pk :: "(u16 \<Rightarrow> bool) \<Rightarrow> u16 \<Rightarrow> u16 list \<Rightarrow> u16 list" where
  "pk used acc [] = (if acc \<noteq> 0 then [acc] else [])"
| "pk used acc (h # hs) =
     (if used h then (if acc \<noteq> 0 then [acc] else []) @ h # pk used 0 hs
      else pk used (acc + h) hs)"

fun pkn :: "(u16 \<Rightarrow> bool) \<Rightarrow> u16 \<Rightarrow> u16 \<Rightarrow> u16 list \<Rightarrow> u16 list \<times> u16 list option" where
  "pkn used n acc [] =
     (if acc \<noteq> 0 then ([acc], if n \<le> acc then Some [] else None) else ([], None))"
| "pkn used n acc (h # hs) =
     (if used h then
        (if acc \<noteq> 0 \<and> n \<le> acc then (acc # h # hs, Some [])
         else
           (let pre = (if acc \<noteq> 0 then [acc, h] else [h]); r = pkn used n 0 hs
            in (pre @ fst r, map_option (\<lambda>ys. pre @ ys) (snd r))))
      else pkn used n (acc + h) hs)"

lemma blen_simps [simp]:
  "blen adv [] = 0"
  "blen adv (h # hs) = adv h + blen adv hs"
  "blen adv (xs @ ys) = blen adv xs + blen adv ys"
  by (simp_all add: blen_def)

lemma cells_simps [simp]:
  "cells adv [] = {}"
  "cells adv ((p, h) # us) = {p ..< p + adv h} \<union> cells adv us"
  "cells adv (us @ vs) = cells adv us \<union> cells adv vs"
  by (auto simp: cells_def)

lemma ublk_append:
  "ublk used adv b (xs @ ys) = ublk used adv b xs @ ublk used adv (b + blen adv xs) ys"
  by (induction xs arbitrary: b) (auto simp: add.assoc)

lemma ublk_shift: "ublk used adv (b + d) hs = map (\<lambda>(p, h). (p + d, h)) (ublk used adv b hs)"
proof (induction hs arbitrary: b)
  case (Cons h hs)
  then show ?case using Cons.IH [of "b + adv h"] by (simp add: ac_simps)
qed simp

lemma ublk_base:
  assumes "ublk used adv b hs = ublk used adv b hs'"
  shows "ublk used adv c hs = ublk used adv c hs'"
proof -
  have "inj (\<lambda>(p, h). (p + b, h :: u16))" by (auto simp: inj_def)
  then have "ublk used adv 0 hs = ublk used adv 0 hs'"
    using assms ublk_shift [of used adv 0 b] by (simp add: inj_map_eq_map)
  then show ?thesis using ublk_shift [of used adv 0 c] by simp
qed

lemma cseq_end: "cseq adv m b hs e \<Longrightarrow> e = b + blen adv hs"
  by (induction hs arbitrary: b) (simp, fastforce)

lemma cseq_append:
  "cseq adv m b (xs @ ys) e \<longleftrightarrow>
     (\<forall>i < length xs. m (b + blen adv (take i xs)) = xs ! i \<and> xs ! i \<noteq> 0 \<and> 0 < adv (xs ! i))
     \<and> cseq adv m (b + blen adv xs) ys e"
  by (induction xs arbitrary: b) (auto simp: less_Suc_eq_0_disj add.assoc)

lemma cseq_cong:
  assumes "cseq adv m b hs e" "\<And>a. b \<le> a \<Longrightarrow> a \<le> e \<Longrightarrow> m' a = m a"
  shows "cseq adv m' b hs e"
  using assms
proof (induction hs arbitrary: b)
  case Nil
  then show ?case by auto
next
  case (Cons h hs)
  from Cons.prems(1) have e: "e = b + adv h + blen adv hs"
    using cseq_end by fastforce
  from Cons show ?case by (auto simp: e)
qed

lemma cseq_upd_below: "a < b \<Longrightarrow> cseq adv m b hs e \<Longrightarrow> cseq adv (m(a := v)) b hs e"
  by (rule cseq_cong) auto

lemma cseq_pos: "cseq adv m b hs e \<Longrightarrow> b \<le> e"
  by (drule cseq_end) simp

lemma ublk_bounds: "(p, h) \<in> set (ublk used adv b hs) \<Longrightarrow> b \<le> p \<and> p + adv h \<le> b + blen adv hs \<and> used h"
  by (induction hs arbitrary: b) (fastforce split: if_splits)+

lemma ublk_mem:
  "(p, h) \<in> set (ublk used adv b hs) \<Longrightarrow>
     \<exists>pre post. hs = pre @ h # post \<and> p = b + blen adv pre \<and> used h"
proof (induction hs arbitrary: b)
  case (Cons k hs)
  then consider "used k" "p = b" "h = k" | "(p, h) \<in> set (ublk used adv (b + adv k) hs)"
    by (auto split: if_splits)
  then show ?case
  proof cases
    case 1
    then show ?thesis by (intro exI [of _ "[]"] exI [of _ hs]) auto
  next
    case 2
    then obtain pre post where "hs = pre @ h # post" "p = b + adv k + blen adv pre" "used h"
      using Cons.IH by blast
    then show ?thesis by (intro exI [of _ "k # pre"] exI [of _ post]) auto
  qed
qed simp

lemma cells_ublk_bounds: "a \<in> cells adv (ublk used adv b hs) \<Longrightarrow> b \<le> a \<and> a < b + blen adv hs"
  by (auto simp: cells_def dest!: ublk_bounds)


lemma cseq_drop: "cseq adv m b (pre @ post) e \<Longrightarrow> cseq adv m (b + blen adv pre) post e"
  by (simp add: cseq_append)

lemma ublk_distinct: "cseq adv m b hs e \<Longrightarrow> distinct (map fst (ublk used adv b hs))"
proof (induction hs arbitrary: b)
  case (Cons h hs)
  then show ?case
    using ublk_bounds [of b _ used adv "b + adv h" hs] by fastforce
qed simp

lemma ublk_distinct_base:
  assumes "distinct (map fst (ublk used adv b hs))"
  shows "distinct (map fst (ublk used adv c hs))"
proof -
  have "map fst (ublk used adv (0 + d) hs) = map (\<lambda>p. p + d) (map fst (ublk used adv 0 hs))" for d
    by (simp only: ublk_shift) auto
  then show ?thesis using assms by (auto simp: distinct_map inj_on_def)
qed

lemma ublk_split:
  assumes "ublk used adv b hs = us @ (p, h) # vs"
  shows "(\<forall>(q, k) \<in> set us. q + adv k \<le> p) \<and> (\<forall>(q, k) \<in> set vs. p + adv h \<le> q)"
  using assms
proof (induction hs arbitrary: b us)
  case (Cons x hs)
  note bd = ublk_bounds [of _ _ used adv "b + adv x" hs]
  show ?case
  proof (cases "used x \<and> us = []")
    case True
    then have "p = b" "h = x" "vs = ublk used adv (b + adv x) hs" using Cons.prems by auto
    then show ?thesis using True bd by fastforce
  next
    case False
    then obtain us' where us': "ublk used adv (b + adv x) hs = us' @ (p, h) # vs"
        "us = (if used x then [(b, x)] else []) @ us'"
      using Cons.prems by (cases us) (auto split: if_splits)
    then show ?thesis using Cons.IH [OF us'(1)] bd [of p h] by auto
  qed
qed simp

lemma cells_split:
  assumes "ublk used adv b hs = us @ (p, h) # vs"
  shows "{p ..< p + adv h} \<inter> cells adv (us @ vs) = {}"
  using ublk_split [OF assms] by (fastforce simp: cells_def)

lemma cseq_subst:
  assumes "cseq adv m b (pre @ post) e" "\<And>a. b \<le> a \<Longrightarrow> a < b + blen adv pre \<Longrightarrow> m' a = m a"
    and "cseq adv m' (b + blen adv pre) post' e'"
  shows "cseq adv m' b (pre @ post') e'"
  using assms by (induction pre arbitrary: b) (auto simp: add.assoc)

lemma cseq_at: "cseq adv m b (pre @ k # post) e \<Longrightarrow> m (b + blen adv pre) = k"
  by (drule cseq_drop) simp

text \<open>The data words of a block are not part of the chain.\<close>

lemma cseq_data:
  assumes "cseq adv m b hs e" "(p, h) \<in> set (ublk used adv b hs)"
    and eq: "\<And>a. a \<notin> {p <..< p + adv h} \<Longrightarrow> m' a = m a"
  shows "cseq adv m' b hs e"
proof -
  obtain pre post where hs: "hs = pre @ h # post" "p = b + blen adv pre"
    using assms(2) by (auto dest!: ublk_mem)
  have "cseq adv m p (h # post) e"
    using assms(1) hs cseq_drop [of adv m b pre "h # post" e] by simp
  then have "cseq adv m' p (h # post) e"
    using eq cseq_cong [of adv m "p + adv h" post e m'] by auto
  then show ?thesis
    using assms(1) hs eq cseq_subst [of adv m b pre "h # post" e m' "h # post" e] by simp
qed

text \<open>
  Carving a block of size \<open>n\<close> out of the free block \<open>k\<close> at \<open>p\<close>: what remains becomes a free
  block behind the new one.
\<close>

definition carve :: "(u16 \<Rightarrow> u16) \<Rightarrow> u16 \<Rightarrow> u16 \<Rightarrow> u16 list" where
  "carve mk n k = mk n # (if k - n \<noteq> 0 then [k - n] else [])"

definition place :: "(u16 \<Rightarrow> nat) \<Rightarrow> (u16 \<Rightarrow> u16) \<Rightarrow> ram \<Rightarrow> nat \<Rightarrow> u16 \<Rightarrow> u16 \<Rightarrow> ram" where
  "place adv mk m p n k = (if k - n \<noteq> 0 then m(p + adv n := k - n) else m)(p := mk n)"

section \<open>Header formats\<close>

text \<open>
  The contract of a header format. \<open>mk n\<close> is the header of an allocated block of size \<open>n\<close> and
  \<open>un h\<close> the header of the block once released. Sizes are bounded by 32767 words, the most either allocator can manage.
\<close>

locale block_format =
  fixes used :: "u16 \<Rightarrow> bool" and adv :: "u16 \<Rightarrow> nat" and mk un :: "u16 \<Rightarrow> u16"
  assumes used_0: "\<not> used 0"
    and adv_0: "adv 0 = 0"
    and free_pos: "\<not> used a \<Longrightarrow> a \<noteq> 0 \<Longrightarrow> 0 < adv a"
    and free_le: "\<not> used a \<Longrightarrow> \<not> used b \<Longrightarrow> a \<le> b \<longleftrightarrow> adv a \<le> adv b"
    and merge_free: "\<not> used a \<Longrightarrow> \<not> used b \<Longrightarrow> adv a + adv b \<le> 32767 \<Longrightarrow> \<not> used (a + b)"
    and merge_adv: "\<not> used a \<Longrightarrow> \<not> used b \<Longrightarrow> adv a + adv b \<le> 32767 \<Longrightarrow>
      adv (a + b) = adv a + adv b"
    and split_free: "\<not> used k \<Longrightarrow> \<not> used n \<Longrightarrow> n \<le> k \<Longrightarrow> \<not> used (k - n)"
    and split_adv: "\<not> used k \<Longrightarrow> \<not> used n \<Longrightarrow> n \<le> k \<Longrightarrow> adv (k - n) = adv k - adv n"
    and mk_used: "\<not> used n \<Longrightarrow> used (mk n)"
    and mk_adv: "\<not> used n \<Longrightarrow> adv (mk n) = adv n"
    and un_free: "used h \<Longrightarrow> \<not> used (un h)"
    and un_adv: "used h \<Longrightarrow> adv (un h) = adv h"
begin

lemma adv_free_0_iff: "\<not> used a \<Longrightarrow> adv a = 0 \<longleftrightarrow> a = 0"
  using free_pos adv_0 by fastforce

lemma used_nz: "used h \<Longrightarrow> h \<noteq> 0"
  using used_0 by auto

lemma blen_pkn:
  "\<not> used acc \<Longrightarrow> adv acc + blen adv hs \<le> 32767 \<Longrightarrow>
     blen adv (fst (pkn used n acc hs)) = adv acc + blen adv hs"
proof (induction hs arbitrary: acc)
  case Nil
  then show ?case by (simp add: adv_0)
next
  case (Cons h hs)
  show ?case
  proof (cases "used h")
    case True
    then show ?thesis
      using Cons.IH [of 0] Cons.prems by (auto simp: Let_def used_0 adv_0)
  next
    case False
    then show ?thesis
      using Cons.IH [of "acc + h"] Cons.prems by (simp add: merge_free merge_adv)
  qed
qed

lemma ublk_pkn:
  "\<not> used acc \<Longrightarrow> adv acc + blen adv hs \<le> 32767 \<Longrightarrow>
     ublk used adv b (fst (pkn used n acc hs)) = ublk used adv (b + adv acc) hs"
proof (induction hs arbitrary: acc b)
  case Nil
  then show ?case by simp
next
  case (Cons h hs)
  show ?case
  proof (cases "used h")
    case True
    then show ?thesis
      using Cons.IH [of 0] Cons.prems
      by (auto simp: Let_def used_0 adv_0 add.assoc)
  next
    case False
    then show ?thesis
      using Cons.IH [of "acc + h"] Cons.prems by (simp add: merge_free merge_adv add.assoc)
  qed
qed

lemma pkn_Some:
  "\<not> used acc \<Longrightarrow> adv acc + blen adv hs \<le> 32767 \<Longrightarrow> snd (pkn used n acc hs) = Some pre \<Longrightarrow>
     \<exists>k post. fst (pkn used n acc hs) = pre @ k # post \<and> \<not> used k \<and> k \<noteq> 0 \<and> n \<le> k"
proof (induction hs arbitrary: acc pre)
  case Nil
  then show ?case by (auto split: if_splits)
next
  case (Cons h hs)
  show ?case
  proof (cases "used h")
    case True
    then show ?thesis
      using Cons.IH [of 0] Cons.prems by (auto simp: Let_def used_0 adv_0 split: if_splits)
  next
    case False
    then show ?thesis
      using Cons.IH [of "acc + h"] Cons.prems by (simp add: merge_free merge_adv)
  qed
qed

lemma pkn_None:
  "\<not> used acc \<Longrightarrow> adv acc + blen adv hs \<le> 32767 \<Longrightarrow> snd (pkn used n acc hs) = None \<Longrightarrow>
     fst (pkn used n acc hs) = pk used acc hs \<and> (\<forall>k \<in> set (pk used acc hs). used k \<or> k < n)"
proof (induction hs arbitrary: acc)
  case Nil
  then show ?case by (auto split: if_splits)
next
  case (Cons h hs)
  show ?case
  proof (cases "used h")
    case True
    then show ?thesis
      using Cons.IH [of 0] Cons.prems by (auto simp: Let_def used_0 adv_0 split: if_splits)
  next
    case False
    then show ?thesis
      using Cons.IH [of "acc + h"] Cons.prems by (simp add: merge_free merge_adv)
  qed
qed

lemma blen_pk:
  "\<not> used acc \<Longrightarrow> adv acc + blen adv hs \<le> 32767 \<Longrightarrow>
     blen adv (pk used acc hs) = adv acc + blen adv hs"
proof (induction hs arbitrary: acc)
  case (Cons h hs)
  then show ?case
    using Cons.IH [of 0] Cons.IH [of "acc + h"]
    by (auto simp: used_0 adv_0 merge_free merge_adv)
qed (simp add: adv_0)

lemma ublk_pk:
  "\<not> used acc \<Longrightarrow> adv acc + blen adv hs \<le> 32767 \<Longrightarrow>
     ublk used adv b (pk used acc hs) = ublk used adv (b + adv acc) hs"
proof (induction hs arbitrary: acc b)
  case (Cons h hs)
  then show ?case
    using Cons.IH [of 0] Cons.IH [of "acc + h"]
    by (auto simp: used_0 adv_0 merge_free merge_adv add.assoc)
qed simp

lemma packed_Cons_used: "used h \<Longrightarrow> packed used hs \<Longrightarrow> packed used (h # hs)"
  by (cases hs) auto

lemma packed_pk:
  "\<not> used acc \<Longrightarrow> adv acc + blen adv hs \<le> 32767 \<Longrightarrow> packed used (pk used acc hs)"
proof (induction hs arbitrary: acc)
  case (Cons h hs)
  then show ?case
    using Cons.IH [of 0] Cons.IH [of "acc + h"]
    by (auto simp: used_0 adv_0 merge_free merge_adv packed_Cons_used)
qed simp

lemma place_cseq:
  assumes m: "cseq adv m b (pre @ k # post) e"
    and k: "\<not> used k" "\<not> used n" "n \<noteq> 0" "n \<le> k"
  shows "cseq adv (place adv mk m (b + blen adv pre) n k) b (pre @ carve mk n k @ post) e"
proof (rule cseq_subst [OF m])
  let ?p = "b + blen adv pre" and ?m = "place adv mk m (b + blen adv pre) n k"
  from m have tl: "cseq adv m (?p + adv k) post e"
    using cseq_drop [of adv m b "pre @ [k]" post e] by (simp add: add.assoc)
  have n: "0 < adv n" "adv n \<le> adv k" using k free_pos free_le by auto
  have rest: "cseq adv ?m (?p + adv k) post e"
    by (rule cseq_cong [OF tl]) (use n k free_pos [of "k - n"] split_adv split_free in \<open>auto simp: place_def\<close>)
  show "cseq adv ?m ?p (carve mk n k @ post) e"
  proof (cases "k - n = 0")
    case True
    then have "n = k" by simp
    then show ?thesis
      using rest k n mk_used [of n] mk_adv [of n] used_nz by (auto simp: carve_def place_def)
  next
    case False
    then show ?thesis
      using rest k n mk_used [of n] mk_adv [of n] used_nz split_adv [of k n] split_free [of k n]
        free_pos [of "k - n"]
      by (auto simp: carve_def place_def add.assoc)
  qed
qed (auto simp: place_def)

lemma blen_carve:
  assumes "\<not> used k" "\<not> used n" "n \<le> k"
  shows "blen adv (carve mk n k) = adv k"
proof (cases "k - n = 0")
  case True
  then show ?thesis using assms mk_adv by (auto simp: carve_def)
next
  case False
  then show ?thesis
    using assms mk_adv split_adv [of k n] free_le [of n k] by (auto simp: carve_def)
qed

lemma ublk_carve:
  assumes "\<not> used k" "\<not> used n" "n \<le> k"
  shows "ublk used adv b (carve mk n k) = [(b, mk n)]"
  using assms mk_used split_free by (auto simp: carve_def)

lemma packed_carve:
  assumes "packed used (pre @ k # post)" "\<not> used k" "\<not> used n" "n \<le> k"
  shows "packed used (pre @ carve mk n k @ post)"
  using assms
proof (induction pre)
  case Nil
  then show ?case
    using mk_used split_free by (cases post) (auto simp: carve_def)
next
  case (Cons h pre)
  then show ?case
    using mk_used split_free by (cases pre) (auto simp: carve_def)
qed

lemma release_cseq:
  assumes m: "cseq adv m b (pre @ h # post) e" and h: "used h"
  shows "cseq adv (m(b + blen adv pre := un h)) b (pre @ un h # post) e"
proof (rule cseq_subst [OF m])
  from m have "cseq adv m (b + blen adv pre) (h # post) e" by (rule cseq_drop)
  then show "cseq adv (m(b + blen adv pre := un h)) (b + blen adv pre) (un h # post) e"
    using h un_free un_adv adv_0 by (fastforce intro: cseq_upd_below)
qed auto

lemma ublk_release: "used h \<Longrightarrow> ublk used adv b (un h # post) = ublk used adv (b + adv h) post"
  using un_free un_adv by simp

lemma pk_covers_acc:
  "\<not> used acc \<Longrightarrow> adv acc + blen adv hs \<le> 32767 \<Longrightarrow> acc \<noteq> 0 \<Longrightarrow>
     \<exists>k \<in> set (pk used acc hs). \<not> used k \<and> acc \<le> k"
proof (induction hs arbitrary: acc)
  case (Cons h hs)
  show ?case
  proof (cases "used h")
    case False
    then have "\<not> used (acc + h)" "adv (acc + h) = adv acc + adv h"
      using Cons.prems by (simp_all add: merge_free merge_adv)
    moreover from this have "acc \<le> acc + h" "acc + h \<noteq> 0"
      using free_le [of acc "acc + h"] free_pos [of acc] Cons.prems adv_0 by auto
    ultimately show ?thesis
      using Cons.IH [of "acc + h"] Cons.prems False by (auto intro: order_trans)
  qed (use Cons in auto)
qed simp

lemma pk_covers:
  "\<not> used acc \<Longrightarrow> adv acc + blen adv hs \<le> 32767 \<Longrightarrow> x \<in> set hs \<Longrightarrow> \<not> used x \<Longrightarrow> x \<noteq> 0 \<Longrightarrow>
     \<exists>k \<in> set (pk used acc hs). \<not> used k \<and> x \<le> k"
proof (induction hs arbitrary: acc)
  case (Cons h hs)
  show ?case
  proof (cases "used h")
    case True
    then show ?thesis using Cons.IH [of 0] Cons.prems by (auto simp: used_0 adv_0)
  next
    case False
    have a: "\<not> used (acc + h)" "adv (acc + h) = adv acc + adv h"
      using False Cons.prems by (simp_all add: merge_free merge_adv)
    show ?thesis
    proof (cases "x = h")
      case True
      then have "h \<le> acc + h" "acc + h \<noteq> 0"
        using free_le [of h "acc + h"] free_pos [of h] Cons.prems False a adv_0 by auto
      then show ?thesis
        using pk_covers_acc [OF a(1), of hs] a(2) Cons.prems True False by (auto intro: order_trans)
    qed (use Cons.IH [of "acc + h"] Cons.prems a False in auto)
  qed
qed simp

lemma pkn_id:
  "packed used hs \<Longrightarrow> 0 \<notin> set hs \<Longrightarrow> fst (pkn used n 0 hs) = hs"
proof (induction used hs rule: packed.induct)
  case (3 used h k hs)
  then show ?case by (cases "used h") (auto simp: Let_def)
qed (auto simp: Let_def)

lemma pk_id:
  "packed used hs \<Longrightarrow> 0 \<notin> set hs \<Longrightarrow> pk used 0 hs = hs"
proof (induction used hs rule: packed.induct)
  case (3 used h k hs)
  then show ?case by (cases "used h") auto
qed auto

end


section \<open>Loops over a chain\<close>

text \<open>
  The three loops the allocators run over a chain. Each locale assumes the recursion equation
  of the loop over its header format, which the definition of the loop provides, and shows
  that on a well-formed chain the loop returns and what it returns.
\<close>

locale block_walk =
  fixes adv :: "u16 \<Rightarrow> nat" and upd :: "u16 \<Rightarrow> 's \<Rightarrow> 's" and walk :: "ram \<Rightarrow> nat \<Rightarrow> 's \<Rightarrow> 's option"
  assumes walk_eq: "walk m b r = (if m b \<noteq> 0 then walk m (b + adv (m b)) (upd (m b) r) else Some r)"
begin

lemma walk_fold: "cseq adv m b hs e \<Longrightarrow> walk m b r = Some (fold upd hs r)"
proof (induction hs arbitrary: b r)
  case Nil
  then show ?case by (subst walk_eq) simp
next
  case (Cons h hs)
  then show ?case by (subst walk_eq) simp
qed

end

text \<open>
  An address inside a chain at which a free block, or the end mark, starts.
\<close>

definition fpos :: "(u16 \<Rightarrow> bool) \<Rightarrow> (u16 \<Rightarrow> nat) \<Rightarrow> nat \<Rightarrow> u16 list \<Rightarrow> nat \<Rightarrow> bool" where
  "fpos used adv b hs q \<longleftrightarrow>
     (\<exists>pre post. hs = pre @ post \<and> q = b + blen adv pre \<and> (post \<noteq> [] \<longrightarrow> \<not> used (hd post)))"

lemma fposI:
  "hs = pre @ post \<Longrightarrow> q = b + blen adv pre \<Longrightarrow> (post \<noteq> [] \<Longrightarrow> \<not> used (hd post)) \<Longrightarrow>
     fpos used adv b hs q"
  by (auto simp: fpos_def)

lemma cseq_nz: "cseq adv m b hs e \<Longrightarrow> 0 \<notin> set hs"
  by (induction hs arbitrary: b) auto

locale block_skip =
  fixes used :: "u16 \<Rightarrow> bool" and adv :: "u16 \<Rightarrow> nat" and skip :: "ram \<Rightarrow> nat \<Rightarrow> nat option"
  assumes skip_0: "\<not> used 0"
    and skip_eq: "skip m p = (if used (m p) then skip m (p + adv (m p)) else Some p)"
begin

lemma skip_takeWhile:
  "cseq adv m b hs e \<Longrightarrow> skip m b = Some (b + blen adv (takeWhile used hs))"
proof (induction hs arbitrary: b)
  case Nil
  then show ?case by (subst skip_eq) (simp add: skip_0)
next
  case (Cons h hs)
  then show ?case by (subst skip_eq) (simp add: add.assoc)
qed

lemma skip_fpos:
  assumes "cseq adv m b (pre @ post) e"
  shows "\<exists>q. skip m (b + blen adv pre) = Some q \<and> fpos used adv b (pre @ post) q"
proof -
  have "skip m (b + blen adv pre) = Some (b + blen adv (pre @ takeWhile used post))"
    using skip_takeWhile [OF cseq_drop [OF assms]] by (simp add: add.assoc)
  moreover have "fpos used adv b (pre @ post) (b + blen adv (pre @ takeWhile used post))"
    by (rule fposI [where pre = "pre @ takeWhile used post" and post = "dropWhile used post"])
      (auto simp: hd_dropWhile)
  ultimately show ?thesis by blast
qed

end

lemma fpos_Nil [simp]: "fpos used adv b [] q \<longleftrightarrow> q = b"
  by (auto simp: fpos_def)

lemma fpos_Cons [simp]:
  "fpos used adv b (h # hs) q \<longleftrightarrow> q = b \<and> \<not> used h \<or> fpos used adv (b + adv h) hs q"
  (is "?L \<longleftrightarrow> ?R")
proof
  assume ?L
  then obtain pre post where *: "h # hs = pre @ post" "q = b + blen adv pre" "post \<noteq> [] \<longrightarrow> \<not> used (hd post)"
    by (auto simp: fpos_def)
  then show ?R
    by (cases pre) (auto intro!: fposI [where pre = "tl pre" and post = post])
next
  assume ?R
  then show ?L
  proof
    assume "fpos used adv (b + adv h) hs q"
    then obtain pre post where "hs = pre @ post" "q = b + adv h + blen adv pre"
        "post \<noteq> [] \<longrightarrow> \<not> used (hd post)"
      by (auto simp: fpos_def)
    then show ?thesis by (intro fposI [where pre = "h # pre" and post = post]) auto
  qed (intro fposI [where pre = "[]" and post = "h # hs"], auto)
qed

lemma fpos_append:
  "fpos used adv (b + blen adv pre) post q \<Longrightarrow> fpos used adv b (pre @ post) q"
  by (induction pre arbitrary: b) (auto simp: add.assoc)

lemma fpos_free:
  "\<not> used h' \<Longrightarrow> adv h' = adv h \<Longrightarrow> fpos used adv b (pre @ h # post) q \<Longrightarrow>
     fpos used adv b (pre @ h' # post) q"
  by (induction pre arbitrary: b) auto

text \<open>
  Carving a block out of the free block at \<open>p\<close>, as both allocators do it: the rest of the block
  becomes the next free position, or, when there is no rest, the used blocks behind it are
  skipped.
\<close>

definition carve_out ::
  "(ram \<Rightarrow> nat \<Rightarrow> nat option) \<Rightarrow> (u16 \<Rightarrow> nat) \<Rightarrow> (u16 \<Rightarrow> u16) \<Rightarrow> ram \<Rightarrow> nat \<Rightarrow> u16 \<Rightarrow> (ram \<times> nat) option" where
  "carve_out skip adv mk m p n = do {
     (m', fr) \<leftarrow> (if m p - n > 0 then Some (m(p + adv n := m p - n), p + adv n)
                  else do { q \<leftarrow> skip m (p + adv n); Some (m, q) });
     Some (m'(p := mk n), fr)
   }"

locale block_take = block_format used adv mk un + block_skip used adv skip
  for used adv mk un skip
begin

lemma carve_out_ok:
  assumes m: "cseq adv m b (pre @ k # post) e"
    and k: "\<not> used k" "\<not> used n" "n \<le> k"
  shows "\<exists>fr. carve_out skip adv mk m (b + blen adv pre) n =
      Some (place adv mk m (b + blen adv pre) n k, fr)
    \<and> fpos used adv b (pre @ carve mk n k @ post) fr"
proof -
  let ?p = "b + blen adv pre"
  have p: "m ?p = k" using m by (rule cseq_at)
  show ?thesis
  proof (cases "k - n = 0")
    case True
    then have [simp]: "n = k" by simp
    obtain q where "skip m (?p + adv k) = Some q" "fpos used adv (?p + adv k) post q"
      using skip_fpos [of m "?p + adv k" "[]" post e] cseq_drop [of adv m b "pre @ [k]" post e] m
      by (auto simp: add.assoc)
    then show ?thesis
      using p k mk_adv [of k] by (auto simp: carve_out_def place_def carve_def intro: fpos_append)
  next
    case False
    then show ?thesis
      using p k mk_adv [of n] split_free [of k n]
      by (auto simp: carve_out_def place_def carve_def word_greater_zero_iff intro!: fpos_append)
  qed
qed

text \<open>Carving writes inside the free block only.\<close>

lemma place_outside:
  assumes "\<not> used k" "\<not> used n" "n \<noteq> 0" "n \<le> k" "a < p \<or> p + adv k \<le> a"
  shows "place adv mk m p n k a = m a"
proof (cases "k - n = 0")
  case False
  have "0 < adv n" using assms free_pos by blast
  then have "adv n < adv k"
    using assms False free_pos [of "k - n"] split_free [of k n] split_adv [of k n] by auto
  then show ?thesis using assms by (auto simp: place_def)
qed (use assms free_pos [of n] free_le [of n k] in \<open>auto simp: place_def\<close>)

end

locale block_pack = block_format +
  fixes pack_loop :: "ram \<Rightarrow> u16 \<Rightarrow> nat \<Rightarrow> nat \<Rightarrow> u16 \<Rightarrow> (ram \<times> ptr) option"
  assumes pack_eq: "pack_loop m n b best bsize =
    (if m b \<noteq> 0 then
       (if used (m b) then
          (if bsize \<noteq> 0 then
             (if n \<le> bsize then Some (m(best := bsize), best)
              else pack_loop (m(best := bsize)) n (b + adv (m b)) (b + adv (m b)) 0)
           else pack_loop m n (b + adv (m b)) (b + adv (m b)) bsize)
        else pack_loop (m(b := 0)) n (b + adv (m b)) best (bsize + m b))
     else if bsize \<noteq> 0 then
       (if n \<le> bsize then Some (m(best := bsize), best) else Some (m(best := bsize), NULL))
     else Some (m, NULL))"
begin

text \<open>The outcome of the loop on a chain, with a free run \<open>acc\<close> pending at \<open>best\<close>.\<close>

definition packs :: "ram \<Rightarrow> u16 \<Rightarrow> nat \<Rightarrow> nat \<Rightarrow> u16 \<Rightarrow> u16 list \<Rightarrow> nat \<Rightarrow> bool" where
  "packs m n b best acc hs e \<longleftrightarrow>
     (\<exists>m'. pack_loop m n b best acc =
        Some (m', case snd (pkn used n acc hs) of None \<Rightarrow> NULL | Some pre \<Rightarrow> best + blen adv pre)
      \<and> cseq adv m' best (fst (pkn used n acc hs)) e
      \<and> (\<forall>a. a < best \<or> e < a \<or> a \<in> cells adv (ublk used adv b hs) \<longrightarrow> m' a = m a))"

lemma packs_Nil:
  assumes "cseq adv m b [] e" "best + adv acc = b" "\<not> used acc"
  shows "packs m n b best acc [] e"
proof -
  have "pack_loop m n b best acc =
      Some (if acc \<noteq> 0 then m(best := acc) else m, if acc \<noteq> 0 \<and> n \<le> acc then best else NULL)"
    using assms by (subst pack_eq) auto
  then show ?thesis
    using assms free_pos [of acc] by (auto simp: packs_def adv_0)
qed

lemma packs_free:
  assumes "m b = h" "h \<noteq> 0" "0 < adv h" "\<not> used h" "e = b + adv h + blen adv hs" "best \<le> b"
    and IH: "packs (m(b := 0)) n (b + adv h) best (acc + h) hs e"
  shows "packs m n b best acc (h # hs) e"
proof -
  have eq: "pack_loop m n b best acc = pack_loop (m(b := 0)) n (b + adv h) best (acc + h)"
    using assms by (subst pack_eq) simp
  obtain m' where m': "pack_loop m n b best acc = Some (m',
        case snd (pkn used n (acc + h) hs) of None \<Rightarrow> NULL | Some pre \<Rightarrow> best + blen adv pre)"
      "cseq adv m' best (fst (pkn used n (acc + h) hs)) e"
      "\<forall>a. a < best \<or> e < a \<or> a \<in> cells adv (ublk used adv (b + adv h) hs) \<longrightarrow> m' a = (m(b := 0)) a"
    using IH unfolding packs_def eq by blast
  have "\<forall>a. a < best \<or> e < a \<or> a \<in> cells adv (ublk used adv b (h # hs)) \<longrightarrow> m' a = m a"
    using m'(3) cells_ublk_bounds [of b adv used "b + adv h" hs] assms by auto
  then show ?thesis using m'(1,2) assms by (auto simp: packs_def)
qed

lemma packs_used:
  assumes "m b = h" "used h" "0 < adv h" "e = b + adv h + blen adv hs"
    and IH: "packs m n (b + adv h) (b + adv h) 0 hs e"
  shows "packs m n b b 0 (h # hs) e"
proof -
  let ?r = "pkn used n 0 hs"
  have eq: "pack_loop m n b b 0 = pack_loop m n (b + adv h) (b + adv h) 0"
    using assms used_nz by (subst pack_eq) auto
  obtain m' where m': "pack_loop m n b b 0 = Some (m',
        case snd ?r of None \<Rightarrow> NULL | Some pre \<Rightarrow> b + adv h + blen adv pre)"
      "cseq adv m' (b + adv h) (fst ?r) e"
      "\<forall>a. a < b + adv h \<or> e < a \<or> a \<in> cells adv (ublk used adv (b + adv h) hs) \<longrightarrow> m' a = m a"
    using IH unfolding packs_def eq by blast
  have "cseq adv m' b (h # fst ?r) e" using m'(2,3) assms used_nz by auto
  moreover have "\<forall>a. a < b \<or> e < a \<or> a \<in> cells adv (ublk used adv b (h # hs)) \<longrightarrow> m' a = m a"
    using m'(3) assms by auto
  moreover have "pkn used n 0 (h # hs) = (h # fst ?r, map_option (\<lambda>ys. h # ys) (snd ?r))"
    using \<open>used h\<close> by (cases "snd ?r") (simp_all add: Let_def)
  ultimately show ?thesis
    using m'(1) by (auto simp: packs_def add.assoc split: option.splits)
qed

lemma packs_found:
  assumes "m b = h" "used h" "0 < adv h" "cseq adv m (b + adv h) hs e"
    and "\<not> used acc" "acc \<noteq> 0" "n \<le> acc" "best + adv acc = b"
  shows "packs m n b best acc (h # hs) e"
proof -
  let ?m = "m(best := acc)"
  have lt: "best < b" using assms free_pos [of acc] by auto
  have e: "e = b + adv h + blen adv hs" using assms(4) by (rule cseq_end)
  have "pack_loop m n b best acc = Some (?m, best)"
    using assms used_nz by (subst pack_eq) auto
  moreover have "cseq adv ?m best (acc # h # hs) e"
    using assms lt used_nz free_pos [of acc] cseq_upd_below [OF _ assms(4), of best acc] by auto
  moreover have "\<forall>a. a < best \<or> e < a \<or> a \<in> cells adv (ublk used adv b (h # hs)) \<longrightarrow> ?m a = m a"
    using cells_ublk_bounds [of best adv used "b + adv h" hs] lt \<open>used h\<close> by (auto simp: e)
  ultimately show ?thesis using assms by (simp add: packs_def)
qed

lemma packs_store:
  assumes "m b = h" "used h" "0 < adv h" "e = b + adv h + blen adv hs"
    and "\<not> used acc" "acc \<noteq> 0" "\<not> n \<le> acc" "best + adv acc = b"
    and IH: "packs (m(best := acc)) n (b + adv h) (b + adv h) 0 hs e"
  shows "packs m n b best acc (h # hs) e"
proof -
  let ?r = "pkn used n 0 hs" and ?m = "m(best := acc)"
  have lt: "best < b" using assms free_pos [of acc] by auto
  have eq: "pack_loop m n b best acc = pack_loop ?m n (b + adv h) (b + adv h) 0"
    using assms used_nz by (subst pack_eq) auto
  obtain m' where m': "pack_loop m n b best acc = Some (m',
        case snd ?r of None \<Rightarrow> NULL | Some pre \<Rightarrow> b + adv h + blen adv pre)"
      "cseq adv m' (b + adv h) (fst ?r) e"
      "\<forall>a. a < b + adv h \<or> e < a \<or> a \<in> cells adv (ublk used adv (b + adv h) hs) \<longrightarrow> m' a = ?m a"
    using IH unfolding packs_def eq by blast
  have "m' best = acc" "m' b = h" using m'(3) lt assms(1,3) by auto
  then have "cseq adv m' best (acc # h # fst ?r) e"
    using m'(2) assms used_nz free_pos [of acc] by auto
  moreover have "\<forall>a. a < best \<or> e < a \<or> a \<in> cells adv (ublk used adv b (h # hs)) \<longrightarrow> m' a = m a"
    using m'(3) lt cells_ublk_bounds [of best adv used "b + adv h" hs] assms by auto
  moreover have "pkn used n acc (h # hs) =
      (acc # h # fst ?r, map_option (\<lambda>ys. acc # h # ys) (snd ?r))"
    using assms by (cases "snd ?r") (simp_all add: Let_def)
  ultimately show ?thesis
    using m'(1) assms(8) by (auto simp: packs_def split: option.splits)
qed

lemma pack_loop_ok:
  assumes "cseq adv m b hs e" "best + adv acc = b" "\<not> used acc" "adv acc + blen adv hs \<le> 32767"
  shows "packs m n b best acc hs e"
  using assms
proof (induction hs arbitrary: m b best acc)
  case Nil
  then show ?case by (simp add: packs_Nil)
next
  case (Cons h hs)
  then have h: "m b = h" "h \<noteq> 0" "0 < adv h" and tl: "cseq adv m (b + adv h) hs e" by auto
  have e: "e = b + adv h + blen adv hs" using tl by (rule cseq_end)
  have IH0: "packs m' n (b + adv h) (b + adv h) 0 hs e" if "cseq adv m' (b + adv h) hs e" for m'
    using that Cons.prems(4) by (intro Cons.IH) (simp_all add: adv_0 used_0)
  have upd: "a < b + adv h \<Longrightarrow> cseq adv (m(a := v)) (b + adv h) hs e" for a v
    using tl by (rule cseq_upd_below [rotated])
  show ?case
  proof (cases "used h")
    case False
    have "packs (m(b := 0)) n (b + adv h) best (acc + h) hs e"
      using Cons.prems False h by (intro Cons.IH upd) (simp_all add: merge_free merge_adv)
    then show ?thesis using packs_free h e False Cons.prems(2) by auto
  next
    case True
    then show ?thesis
      using Cons.prems h e tl IH0 [OF tl] IH0 [OF upd [of best acc]]
      by (cases "acc = 0"; cases "n \<le> acc") (auto simp: adv_0 intro: packs_used packs_found packs_store)
  qed
qed

text \<open>
  A pointer to a free block, to the end mark, or to a zero word still is one of these after
  packing.
\<close>

lemma pack_keeps_fpos:
  assumes "cseq adv m b hs e" "best + adv acc = b" "\<not> used acc" "adv acc + blen adv hs \<le> 32767"
    and "pack_loop m n b best acc = Some (m', p)"
    and "a = best \<and> acc \<noteq> 0 \<or> m a = 0 \<or> fpos used adv b hs a"
  shows "m' a = 0 \<or> fpos used adv best (fst (pkn used n acc hs)) a"
  using assms
proof (induction hs arbitrary: m b best acc)
  case Nil
  note eq = trans [OF pack_eq [symmetric] Nil.prems(5)]
  from Nil show ?case using eq by (auto split: if_splits simp: adv_0)
next
  case (Cons h hs)
  then have h: "m b = h" "h \<noteq> 0" "0 < adv h" and tl: "cseq adv m (b + adv h) hs e" by auto
  have upd: "c < b + adv h \<Longrightarrow> cseq adv (m(c := v)) (b + adv h) hs e" for c v
    using tl by (rule cseq_upd_below [rotated])
  note eq = trans [OF pack_eq [symmetric] Cons.prems(5)]
  show ?case
  proof (cases "used h")
    case False
    have ah: "adv (acc + h) = adv acc + adv h" "\<not> used (acc + h)"
      using Cons.prems False by (simp_all add: merge_free merge_adv)
    then have "acc + h \<noteq> 0" using h(3) adv_0 by (metis add_is_0 less_numeral_extra(3))
    then have pre: "a = best \<and> acc + h \<noteq> 0 \<or> (m(b := 0)) a = 0 \<or> fpos used adv (b + adv h) hs a"
      using Cons.prems(6) by auto
    have loop: "pack_loop (m(b := 0)) n (b + adv h) best (acc + h) = Some (m', p)"
      using eq False h by simp
    have "m' a = 0 \<or> fpos used adv best (fst (pkn used n (acc + h) hs)) a"
      by (rule Cons.IH [OF upd _ ah(2) _ loop pre]) (use ah(1) h(3) Cons.prems(2,4) in simp_all)
    then show ?thesis using False by simp
  next
    case True
    have IH0: "m' a = 0 \<or> fpos used adv (b + adv h) (fst (pkn used n 0 hs)) a"
      if "cseq adv m1 (b + adv h) hs e" "pack_loop m1 n (b + adv h) (b + adv h) 0 = Some (m', p)"
        "m1 a = 0 \<or> fpos used adv (b + adv h) hs a" for m1
      using Cons.IH [OF that(1) _ used_0 _ that(2)] that(3) Cons.prems(4) adv_0 by auto
    have "best < b" if "acc \<noteq> 0" using that Cons.prems free_pos [of acc] by auto
    then show ?thesis
      using IH0 [OF tl] IH0 [OF upd [of best acc]] Cons.prems(2,3,6) eq True h
      by (cases "acc = 0"; cases "n \<le> acc"; cases "a = best") (auto simp add: Let_def adv_0)
  qed
qed

text \<open>
  Packing a whole chain for a block of size \<open>n\<close>: either it yields the first large enough free
  block, or the chain is packed and holds none. Allocated blocks keep their place and contents.
\<close>

lemma pack_cases:
  assumes m: "cseq adv m b hs e" "blen adv hs \<le> 32767"
  obtains (found) m' pre k post where "pack_loop m n b b 0 = Some (m', b + blen adv pre)"
      "cseq adv m' b (pre @ k # post) e" "\<not> used k" "k \<noteq> 0" "n \<le> k"
      "ublk used adv b (pre @ k # post) = ublk used adv b hs"
      "packed used hs \<Longrightarrow> hs = pre @ k # post"
      "\<And>a. a < b \<or> e < a \<or> a \<in> cells adv (ublk used adv b hs) \<Longrightarrow> m' a = m a"
    | (none) m' where "pack_loop m n b b 0 = Some (m', NULL)"
      "cseq adv m' b (pk used 0 hs) e" "\<forall>k \<in> set (pk used 0 hs). used k \<or> k < n"
      "\<And>a. m a = 0 \<or> fpos used adv b hs a \<Longrightarrow> m' a = 0 \<or> fpos used adv b (pk used 0 hs) a"
      "\<And>a. a < b \<or> e < a \<or> a \<in> cells adv (ublk used adv b hs) \<Longrightarrow> m' a = m a"
proof -
  have "packs m n b b 0 hs e"
    using m by (intro pack_loop_ok) (simp_all add: adv_0 used_0)
  then obtain m' where m': "pack_loop m n b b 0 =
      Some (m', case snd (pkn used n 0 hs) of None \<Rightarrow> NULL | Some pre \<Rightarrow> b + blen adv pre)"
      "cseq adv m' b (fst (pkn used n 0 hs)) e"
      "\<And>a. a < b \<or> e < a \<or> a \<in> cells adv (ublk used adv b hs) \<Longrightarrow> m' a = m a"
    unfolding packs_def by blast
  have "adv 0 + blen adv hs \<le> 32767" using m by (simp add: adv_0)
  note facts = pkn_None [OF used_0 this, of n] pkn_Some [OF used_0 this, of n]
    ublk_pkn [OF used_0 this, of b n]
  show thesis
  proof (cases "snd (pkn used n 0 hs)")
    case None
    then have "m' a = 0 \<or> fpos used adv b (pk used 0 hs) a" if "m a = 0 \<or> fpos used adv b hs a" for a
      using pack_keeps_fpos [OF m(1) _ used_0 _ m'(1), of a] facts(1) that m(2) adv_0 by auto
    then show thesis using m' facts(1) None none by auto
  next
    case (Some pre)
    then show thesis
      using m' facts(2) [of pre] facts(3) found pkn_id [of hs n] cseq_nz [OF m(1)]
      by (auto simp: adv_0)
  qed
qed

end

end
