(* ===== verification/Memory.thy ===== *)
theory Memory
  imports Blocks
begin

text \<open>
  The dynamic memory allocator of \<open>src/memory.c\<close>. The heap is a chain of blocks in work RAM;
  bit 0 of a header is the used flag and the header with that bit cleared is the size of the
  block in bytes, header included. The file's four static variables and the RAM words form the
  record \<open>heap_st\<close>; every other component that allocates extends this record. A pointer
  result \<open>NULL\<close> is the code's error value. A loop over the chain that meets a header of size 0
  that is not the end mark would not stop, so the operations return an \<open>option\<close>: \<open>None\<close>
  stands for "does not return".

  \<open>debug\<close> is the build switch \<open>LIB_LOG_LEVEL >= LOG_LEVEL_ERROR\<close> (on in debug builds), the
  only logging switch that changes the behaviour of this file.
\<close>

section \<open>State\<close>

record heap_st =
  ram :: ram
  free :: ptr
  heap :: ptr
  heapEnd :: ptr
  needPack :: bool

definition USED :: u16 where [cfg]: "USED = 1"

definition STACK_SIZE :: u32 where [cfg]: "STACK_SIZE = 0x0A00"

definition MEMORY_HIGH :: u32 where [cfg]: "MEMORY_HIGH = 0xE1000000 - STACK_SIZE"

section \<open>Operations\<close>

text \<open>\<open>bend\<close> is the linker symbol \<open>_bend\<close>, the end of the bss segment.\<close>

definition MEM_init :: "u32 \<Rightarrow> 'a heap_st_scheme \<Rightarrow> 'a heap_st_scheme" where
  "MEM_init bend s =
    (let h = push_bit 1 (drop_bit 1 (bend + 1));
         len = (ucast (MEMORY_HIGH - (h + 2)) :: u16);
         hp = unat h div 2;
         m = (ram s)(hp := len);
         he = hp + unat (drop_bit 1 len)
     in s\<lparr>heap := hp, free := hp, heapEnd := he, ram := m(he := 0), needPack := False\<rparr>)"

partial_function (option) MEM_getFree_loop :: "ram \<Rightarrow> ptr \<Rightarrow> u16 \<Rightarrow> u16 option" where
  "MEM_getFree_loop m b res =
    (let bsize = m b in
     if bsize \<noteq> 0 then
       MEM_getFree_loop m (b + unat (drop_bit 1 bsize)) (if bsize AND USED = 0 then res + bsize else res)
     else Some res)"

definition MEM_getFree :: "'a heap_st_scheme \<Rightarrow> u16 option" where
  "MEM_getFree s = MEM_getFree_loop (ram s) (heap s) 0"

partial_function (option) MEM_getLargestFreeBlock_loop ::
  "ram \<Rightarrow> ptr \<Rightarrow> u16 \<times> u16 \<Rightarrow> (u16 \<times> u16) option" where
  "MEM_getLargestFreeBlock_loop m b rc =
    (let bsize = m b in
     if bsize \<noteq> 0 then
       MEM_getLargestFreeBlock_loop m (b + unat (drop_bit 1 bsize))
         (case rc of (res, csize) \<Rightarrow>
            if bsize AND USED \<noteq> 0 then (res, 0)
            else (let csize = csize + bsize in (if csize > res then csize else res, csize)))
     else Some rc)"

definition MEM_getLargestFreeBlock :: "'a heap_st_scheme \<Rightarrow> u16 option" where
  "MEM_getLargestFreeBlock s =
     map_option fst (MEM_getLargestFreeBlock_loop (ram s) (heap s) (0, 0))"

partial_function (option) MEM_getAllocated_loop :: "ram \<Rightarrow> ptr \<Rightarrow> u16 \<Rightarrow> u16 option" where
  "MEM_getAllocated_loop m b res =
    (let bsize = m b in
     if bsize \<noteq> 0 then
       MEM_getAllocated_loop m (b + unat (drop_bit 1 bsize))
         (if bsize AND USED \<noteq> 0 then res + (bsize AND NOT USED) else res)
     else Some res)"

definition MEM_getAllocated :: "'a heap_st_scheme \<Rightarrow> u16 option" where
  "MEM_getAllocated s = MEM_getAllocated_loop (ram s) (heap s) 0"

text \<open>The loop of \<open>MEM_pack\<close>; \<open>nfree\<close> is the first packed free block, \<open>NULL\<close> while there is none.\<close>

partial_function (option) MEM_pack_loop ::
  "ram \<Rightarrow> ptr \<Rightarrow> ptr \<Rightarrow> u16 \<Rightarrow> ptr \<Rightarrow> (ram \<times> ptr) option" where
  "MEM_pack_loop m b best bsize nfree =
    (let psize = m b in
     if psize \<noteq> 0 then
       (let b' = b + unat (drop_bit 1 psize) in
        if psize AND USED \<noteq> 0 then
          (if bsize \<noteq> 0 then
             MEM_pack_loop (m(best := bsize)) b' b' 0 (if nfree = NULL then best else nfree)
           else MEM_pack_loop m b' b' bsize nfree)
        else MEM_pack_loop (m(b := 0)) b' best (bsize + psize) nfree)
     else if bsize \<noteq> 0 then Some (m(best := bsize), if nfree = NULL then best else nfree)
     else Some (m, nfree))"

definition MEM_pack :: "'a heap_st_scheme \<Rightarrow> 'a heap_st_scheme option" where
  "MEM_pack s = do {
     (m, nfree) \<leftarrow> MEM_pack_loop (ram s) (heap s) (heap s) 0 NULL;
     Some (s\<lparr>ram := m, free := (if nfree \<noteq> NULL then nfree else heapEnd s), needPack := False\<rparr>)
   }"

partial_function (option) pack_loop ::
  "ram \<Rightarrow> u16 \<Rightarrow> ptr \<Rightarrow> ptr \<Rightarrow> u16 \<Rightarrow> (ram \<times> ptr) option" where
  "pack_loop m nsize b best bsize =
    (let psize = m b in
     if psize \<noteq> 0 then
       (let b' = b + unat (drop_bit 1 psize) in
        if psize AND USED \<noteq> 0 then
          (if bsize \<noteq> 0 then
             (let m' = m(best := bsize) in
              if bsize \<ge> nsize then Some (m', best) else pack_loop m' nsize b' b' 0)
           else pack_loop m nsize b' b' bsize)
        else pack_loop (m(b := 0)) nsize b' best (bsize + psize))
     else if bsize \<noteq> 0 then
       (let m' = m(best := bsize) in
        if bsize \<ge> nsize then Some (m', best) else Some (m', NULL))
     else Some (m, NULL))"

definition pack :: "u16 \<Rightarrow> 'a heap_st_scheme \<Rightarrow> (ptr \<times> 'a heap_st_scheme) option" where
  "pack nsize s = do {
     (m, p) \<leftarrow> pack_loop (ram s) nsize (heap s) (heap s) 0;
     Some (p, s\<lparr>ram := m\<rparr>)
   }"

text \<open>\<open>while((bloc = *newfree) & USED) newfree += bloc >> 1;\<close>\<close>

partial_function (option) skip_used :: "ram \<Rightarrow> ptr \<Rightarrow> ptr option" where
  "skip_used m p =
    (if m p AND USED \<noteq> 0 then skip_used m (p + unat (drop_bit 1 (m p))) else Some p)"

text \<open>The search of \<open>MEM_alloc\<close> for the first big enough free block behind \<open>free\<close>.\<close>

partial_function (option) MEM_alloc_search :: "ram \<Rightarrow> u16 \<Rightarrow> ptr \<Rightarrow> ptr option" where
  "MEM_alloc_search m adjsize p =
    (if m p \<noteq> 0 \<and> adjsize > m p then do {
       p' \<leftarrow> skip_used m (p + unat (drop_bit 1 (m p)));
       MEM_alloc_search m adjsize p'
     } else Some p)"

text \<open>
  The part \<open>MEM_alloc\<close> and \<open>MEM_allocAt\<close> share: carve a block of \<open>adjsize\<close> bytes out of the
  free block \<open>p\<close>, move \<open>free\<close> to the next free block and return the word behind the header.
\<close>

definition MEM_take :: "ptr \<Rightarrow> u16 \<Rightarrow> 'a heap_st_scheme \<Rightarrow> (ptr \<times> 'a heap_st_scheme) option" where
  "MEM_take p adjsize s =
    (let fr = p + unat (drop_bit 1 adjsize);
         remaining = ram s p - adjsize
     in do {
       (m, fr') \<leftarrow> (if remaining > 0 then Some ((ram s)(fr := remaining), fr)
                    else do { newfree \<leftarrow> skip_used (ram s) fr; Some (ram s, newfree) });
       Some (p + 1, s\<lparr>ram := m(p := adjsize OR USED), free := fr'\<rparr>)
     })"

text \<open>The size of a block for \<open>sz\<close> bytes of data: room for the header, rounded up to a word.\<close>

definition adjsize :: "u16 \<Rightarrow> u16" where
  "adjsize sz = (sz + 2 + 1) AND 0xFFFE"

definition MEM_alloc :: "u16 \<Rightarrow> 'a heap_st_scheme \<Rightarrow> (ptr \<times> 'a heap_st_scheme) option" where
  "MEM_alloc sz s0 =
    (if sz = 0 then Some (NULL, s0)
     else do {
       s \<leftarrow> (if needPack s0 then MEM_pack s0 else Some s0);
       let n = adjsize sz;
       if n > ram s (free s) then do {
         p \<leftarrow> MEM_alloc_search (ram s) n (free s);
         if ram s p = 0 then do {
           (q, s') \<leftarrow> pack n s;
           if q = NULL then Some (NULL, s') else MEM_take q n s'
         } else MEM_take p n s
       } else MEM_take (free s) n s
     })"

definition MEM_free :: "bool \<Rightarrow> ptr \<Rightarrow> 'a heap_st_scheme \<Rightarrow> 'a heap_st_scheme" where
  "MEM_free debug p s =
    (if p \<noteq> NULL then
       (let block = p - 1 in
        if debug \<and> ram s block AND USED = 0 then s
        else s\<lparr>ram := (ram s)(block := ram s block AND NOT USED), needPack := True\<rparr>)
     else s)"

text \<open>
  \<open>MEM_allocAt\<close>. \<open>fit\<close> is the test on a packed free block \<open>best\<close> of size \<open>bsize\<close>, with the
  splitting that the code does when the wanted address lies inside the block: it returns the
  memory and the moved \<open>best\<close>. The loop returns the memory, \<open>best\<close>, \<open>bsize\<close> and \<open>found\<close> as
  they are when the C loop is left.
\<close>

definition allocAt_split :: "ram \<Rightarrow> ptr \<Rightarrow> u16 \<Rightarrow> u32 \<Rightarrow> ram \<times> ptr" where
  "allocAt_split m best bsize addr =
    (let delta = (ucast (addr - of_nat (2 * best)) :: u16) in
     if delta \<noteq> 0 then
       (let m' = m(best := delta); best' = best + unat (drop_bit 1 delta)
        in (m'(best' := bsize - delta), best'))
     else (m, best))"

partial_function (option) MEM_allocAt_loop ::
  "ram \<Rightarrow> u32 \<Rightarrow> u16 \<Rightarrow> ptr \<Rightarrow> ptr \<Rightarrow> u16 \<Rightarrow> (ram \<times> ptr \<times> u16 \<times> ptr) option" where
  "MEM_allocAt_loop m addr n b best bsize =
    (let psize = m b in
     if psize \<noteq> 0 then
       (let b' = b + unat (drop_bit 1 psize) in
        if psize AND USED \<noteq> 0 then
          (if bsize \<noteq> 0 then
             (let m1 = m(best := bsize); baddr = (of_nat (2 * best) :: u32) in
              if baddr \<le> addr then
                (if baddr + ucast bsize \<ge> addr + ucast n then
                   (let (m2, best') = allocAt_split m1 best bsize addr in Some (m2, best', bsize, best'))
                 else MEM_allocAt_loop m1 addr n b' b' 0)
              else Some (m1, best, bsize, NULL))
           else MEM_allocAt_loop m addr n b' b' bsize)
        else MEM_allocAt_loop (m(b := 0)) addr n b' best (bsize + psize))
     else Some (m, best, bsize, NULL))"

definition MEM_allocAt :: "u32 \<Rightarrow> u16 \<Rightarrow> 'a heap_st_scheme \<Rightarrow> (ptr \<times> 'a heap_st_scheme) option" where
  "MEM_allocAt addr sz s =
    (if sz = 0 then Some (NULL, s)
     else do {
       let n = adjsize sz;
       (m, best, bsize, found) \<leftarrow> MEM_allocAt_loop (ram s) addr n (heap s) (heap s) 0;
       let (m', found') =
         (if bsize \<noteq> 0 then
            (let m1 = m(best := bsize); baddr = (of_nat (2 * best) :: u32) in
             if found = NULL \<and> baddr \<le> addr \<and> baddr + ucast bsize \<ge> addr + ucast n
             then (let (m2, best') = allocAt_split m1 best bsize addr in (m2, best'))
             else (m1, found))
          else (m, found));
       if found' = NULL then Some (NULL, s\<lparr>ram := m'\<rparr>)
       else MEM_take found' n (s\<lparr>ram := m'\<rparr>)
     })"

text \<open>
  \<open>MEM_checkIntegrity\<close>: \<open>sp\<close> is the stack pointer \<open>SYS_getStackPointer()\<close> returns. The sum of
  two \<open>u16\<close> is taken in \<open>int\<close>, so it does not wrap.
\<close>

definition MEM_checkIntegrity :: "u32 \<Rightarrow> u32 \<Rightarrow> 'a heap_st_scheme \<Rightarrow> bool option" where
  "MEM_checkIntegrity bend sp s = do {
     let h = push_bit 1 (drop_bit 1 (bend + 1));
     let len = (ucast (MEMORY_HIGH - (h + 2)) :: u16);
     f \<leftarrow> MEM_getFree s;
     a \<leftarrow> MEM_getAllocated s;
     Some (unat f + unat a = unat len \<and> \<not> sp < MEMORY_HIGH \<and> \<not> sp \<ge> MEMORY_HIGH + STACK_SIZE)
   }"

text \<open>\<open>SGDK_memcmp\<close>: the first difference, truncated to a signed byte; \<open>m1\<close> and \<open>m2\<close> are the
  bytes from the two pointers on.\<close>

fun SGDK_memcmp :: "(nat \<Rightarrow> u8) \<Rightarrow> (nat \<Rightarrow> u8) \<Rightarrow> nat \<Rightarrow> u8" where
  "SGDK_memcmp m1 m2 0 = 0"
| "SGDK_memcmp m1 m2 (Suc len) =
     (let result = m1 0 - m2 0 in
      if result \<noteq> 0 then result else SGDK_memcmp (\<lambda>i. m1 (Suc i)) (\<lambda>i. m2 (Suc i)) len)"


section \<open>The header format\<close>

definition hused :: "u16 \<Rightarrow> bool" where
  "hused h \<longleftrightarrow> h AND USED \<noteq> 0"

definition hadv :: "u16 \<Rightarrow> nat" where
  "hadv h = unat (drop_bit 1 h)"

definition hmk :: "u16 \<Rightarrow> u16" where
  "hmk n = n OR USED"

definition hun :: "u16 \<Rightarrow> u16" where
  "hun h = h AND NOT USED"

lemma hused_odd: "hused h \<longleftrightarrow> odd (unat h)"
  by (simp add: hused_def USED_def and_1_eq_0_iff)

lemma hadv_div: "hadv h = unat h div 2"
  by (simp only: hadv_def unat_drop_bit1)

lemma unat_hmk: "\<not> hused n \<Longrightarrow> unat (hmk n) = unat n + 1"
proof -
  assume "\<not> hused n"
  moreover have "unat (n OR 1) = unat n OR 1"
    by (simp only: unsigned_or_eq unsigned_1)
  ultimately show ?thesis
    unfolding hmk_def USED_def by (simp only: or_one_eq hused_odd) simp
qed

lemma unat_hun: "unat (hun h) = 2 * (unat h div 2)"
proof -
  have "hun h = h - (h AND 1)"
    by (simp only: hun_def USED_def word_and_not_minus)
  moreover have "h AND 1 \<le> h" by (rule word_and_le2)
  ultimately show ?thesis
    by (simp add: unat_sub unat_and_1 minus_mod_eq_mult_div)
qed

interpretation mf: block_format hused hadv hmk hun
proof
  fix a b :: u16
  assume fr: "\<not> hused a" "\<not> hused b" and le: "hadv a + hadv b \<le> 32767"
  then have "unat (a + b) = unat a + unat b"
    by (intro unat_plus_small) (auto simp: hused_odd hadv_div elim!: evenE)
  then show "\<not> hused (a + b)" "hadv (a + b) = hadv a + hadv b"
    using fr by (auto simp: hused_odd hadv_div)
next
  fix k n :: u16
  assume fr: "\<not> hused k" "\<not> hused n" and le: "n \<le> k"
  then have "unat (k - n) = unat k - unat n" "unat n \<le> unat k"
    by (simp_all add: unat_sub word_le_nat_alt)
  then show "\<not> hused (k - n)" "hadv (k - n) = hadv k - hadv n"
    using fr by (auto simp: hused_odd hadv_div elim!: evenE)
next
  fix a b :: u16
  assume "\<not> hused a" "\<not> hused b"
  then show "a \<le> b \<longleftrightarrow> hadv a \<le> hadv b"
    by (auto simp: hused_odd hadv_div word_le_nat_alt elim!: evenE)
next
  fix a :: u16
  assume "\<not> hused a" "a \<noteq> 0"
  then show "0 < hadv a"
    using unat_eq_zero [of a] by (auto simp: hused_odd hadv_div elim!: evenE)
qed (auto simp: unat_hmk hused_odd hadv_div unat_hun elim!: oddE)


section \<open>The loops on a chain\<close>

lemma hadv_fold: "unat (drop_bit (Suc 0) h) = hadv h"
  by (simp add: hadv_def)

lemmas hdr_fold = hused_def [symmetric] hadv_def [symmetric] hadv_fold

interpretation getFree: block_walk hadv "\<lambda>h r. if hused h then r else r + h" MEM_getFree_loop
  by unfold_locales (subst MEM_getFree_loop.simps, simp add: Let_def hused_def hadv_def)

interpretation getAllocated: block_walk hadv "\<lambda>h r. if hused h then r + hun h else r"
  MEM_getAllocated_loop
  by unfold_locales (subst MEM_getAllocated_loop.simps, simp add: Let_def hused_def hadv_def hun_def)

interpretation getLargest: block_walk hadv
  "\<lambda>h (r, c). if hused h then (r, 0) else (max (c + h) r, c + h)" MEM_getLargestFreeBlock_loop
  by unfold_locales
    (subst MEM_getLargestFreeBlock_loop.simps,
      auto simp: Let_def hused_def hadv_def max_def split: prod.splits)

interpretation skip: block_skip hused hadv skip_used
  by unfold_locales (simp add: hused_def, subst skip_used.simps, simp add: hused_def hadv_def)

interpretation mt: block_take hused hadv hmk hun skip_used ..

interpretation mp: block_pack hused hadv hmk hun pack_loop
  by unfold_locales (subst pack_loop.simps, simp add: Let_def hused_def hadv_def)

fun first_free :: "ptr \<Rightarrow> u16 list \<Rightarrow> ptr" where
  "first_free b [] = NULL"
| "first_free b (h # hs) = (if hused h then first_free (b + hadv h) hs else b)"

lemma free_ne_max:
  assumes "\<not> hused k"
  shows "\<not> 0xFFFF \<le> k"
proof
  assume "0xFFFF \<le> k"
  with unat_u16_lt [of k] have "unat k = 65535" by (simp add: word_le_nat_alt)
  with assms show False by (simp add: hused_odd)
qed

text \<open>
  \<open>MEM_pack\<close> moves memory exactly as \<open>pack\<close> does when nothing is large enough for it, and
  reports the first free block of the packed chain.
\<close>

lemma MEM_pack_loop_eq:
  assumes "cseq hadv m b hs e" "best + hadv acc = b" "\<not> hused acc" "hadv acc + blen hadv hs \<le> 32767"
    "0 < best"
  shows "MEM_pack_loop m b best acc nf =
     map_option (\<lambda>(m', _). (m', if nf \<noteq> NULL then nf else first_free best (pk hused acc hs)))
       (pack_loop m 0xFFFF b best acc)"
  using assms
proof (induction hs arbitrary: m b best acc nf)
  case Nil
  then show ?case
    by (subst MEM_pack_loop.simps, subst mp.pack_eq) (simp add: Let_def free_ne_max)
next
  case (Cons h hs)
  then have h: "m b = h" "h \<noteq> 0" "0 < hadv h" and tl: "cseq hadv m (b + hadv h) hs e" by auto
  have IH0: "MEM_pack_loop m' (b + hadv h) (b + hadv h) 0 nf' =
      map_option (\<lambda>(m'', _). (m'', if nf' \<noteq> NULL then nf' else first_free (b + hadv h) (pk hused 0 hs)))
       (pack_loop m' 0xFFFF (b + hadv h) (b + hadv h) 0)"
    if "cseq hadv m' (b + hadv h) hs e" for m' nf'
    using that Cons.prems by (intro Cons.IH) (simp_all add: mf.adv_0 mf.used_0)
  have upd: "a < b + hadv h \<Longrightarrow> cseq hadv (m(a := v)) (b + hadv h) hs e" for a v
    using tl by (rule cseq_upd_below [rotated])
  show ?case
  proof (cases "hused h")
    case False
    have "MEM_pack_loop (m(b := 0)) (b + hadv h) best (acc + h) nf =
      map_option (\<lambda>(m', _). (m', if nf \<noteq> NULL then nf else first_free best (pk hused (acc + h) hs)))
       (pack_loop (m(b := 0)) 0xFFFF (b + hadv h) best (acc + h))"
      using Cons.prems False h by (intro Cons.IH upd) (simp_all add: mf.merge_free mf.merge_adv)
    then show ?thesis
      using False h by (subst MEM_pack_loop.simps, subst mp.pack_eq) (simp add: Let_def hdr_fold)
  next
    case True
    have "best < b" if "acc \<noteq> 0" using that Cons.prems mf.free_pos [of acc] by auto
    then show ?thesis
      using True h IH0 [OF tl] IH0 [OF upd [of best acc]] Cons.prems
      by (subst MEM_pack_loop.simps, subst mp.pack_eq)
        (auto simp: Let_def hdr_fold free_ne_max mf.adv_0 option.map_comp)
  qed
qed


section \<open>The heap invariant\<close>

text \<open>
  \<open>hs\<close> lists the headers of the heap. When no packing is pending, no two free blocks are
  neighbours and \<open>free\<close> points to a free block or to the end mark.
\<close>

definition heap_inv :: "'a heap_st_scheme \<Rightarrow> u16 list \<Rightarrow> bool" where
  "heap_inv s hs \<longleftrightarrow>
     cseq hadv (ram s) (heap s) hs (heapEnd s) \<and> blen hadv hs \<le> 32767 \<and> 0 < heap s \<and>
     (\<not> needPack s \<longrightarrow> packed hused hs \<and> fpos hused hadv (heap s) hs (free s))"

text \<open>The allocated blocks and the words they own.\<close>

definition live :: "'a heap_st_scheme \<Rightarrow> u16 list \<Rightarrow> (ptr \<times> u16) list" where
  "live s hs = ublk hused hadv (heap s) hs"

text \<open>Writing to the data words of an allocated block does not disturb the heap.\<close>

lemma heap_inv_data:
  assumes "heap_inv s hs" "(p, h) \<in> set (live s hs)"
    and "heap s' = heap s" "heapEnd s' = heapEnd s" "free s' = free s" "needPack s' = needPack s"
    and "\<And>a. a \<notin> {p <..< p + hadv h} \<Longrightarrow> ram s' a = ram s a"
  shows "heap_inv s' hs"
  using assms cseq_data [of hadv "ram s" "heap s" hs "heapEnd s" p h hused "ram s'"]
  by (simp add: heap_inv_def live_def)

text \<open>
  What every operation of the allocator guarantees about its surroundings: the heap stays where
  it is and no word of an allocated block, nor any word outside the heap, changes.
\<close>

definition keeps :: "'a heap_st_scheme \<Rightarrow> u16 list \<Rightarrow> 'a heap_st_scheme \<Rightarrow> bool" where
  "keeps s hs s' \<longleftrightarrow> heap s' = heap s \<and> heapEnd s' = heapEnd s \<and>
     (\<forall>a. a < heap s \<or> heapEnd s < a \<or> a \<in> cells hadv (live s hs) \<longrightarrow> ram s' a = ram s a)"

lemma keeps_refl: "keeps s hs s"
  by (simp add: keeps_def)

lemma keeps_trans:
  "keeps s hs s' \<Longrightarrow> keeps s' hs' s'' \<Longrightarrow> cells hadv (live s hs) \<subseteq> cells hadv (live s' hs') \<Longrightarrow>
     keeps s hs s''"
  by (auto simp: keeps_def)

lemma first_free_pos:
  assumes "first_free b hs \<noteq> NULL"
  shows "fpos hused hadv b hs (first_free b hs)"
  using assms
proof (induction hs arbitrary: b)
  case (Cons h hs)
  show ?case
  proof (cases "hused h")
    case True
    with Cons obtain pre post where
      "hs = pre @ post" "first_free (b + hadv h) hs = b + hadv h + blen hadv pre"
      "post \<noteq> [] \<longrightarrow> \<not> hused (hd post)"
      by (metis first_free.simps(2) fpos_def)
    with True show ?thesis
      by (intro fposI [where pre = "h # pre" and post = post]) auto
  next
    case False
    then show ?thesis by (intro fposI [where pre = "[]" and post = "h # hs"]) auto
  qed
qed simp

lemma fpos_end: "fpos hused hadv b hs (b + blen hadv hs)"
  by (intro fposI [where pre = hs and post = "[]"]) auto

lemma MEM_pack_ok:
  assumes inv: "heap_inv s hs"
  shows "\<exists>s'. MEM_pack s = Some s' \<and> heap_inv s' (pk hused 0 hs) \<and> \<not> needPack s'
    \<and> live s' (pk hused 0 hs) = live s hs \<and> keeps s hs s'"
proof -
  note m = inv [unfolded heap_inv_def, THEN conjunct1] and
    l = inv [unfolded heap_inv_def, THEN conjunct2, THEN conjunct1]
  have l0: "hadv 0 + blen hadv hs \<le> 32767" using l by (simp add: mf.adv_0)
  have eq: "MEM_pack_loop (ram s) (heap s) (heap s) 0 NULL =
      map_option (\<lambda>(m', _). (m', first_free (heap s) (pk hused 0 hs)))
       (pack_loop (ram s) 0xFFFF (heap s) (heap s) 0)"
    using MEM_pack_loop_eq [OF m _ mf.used_0 l0, of "heap s" NULL] inv
    by (simp add: heap_inv_def mf.adv_0)
  note pk = mf.blen_pk [OF mf.used_0 l0] mf.ublk_pk [OF mf.used_0 l0] mf.packed_pk [OF mf.used_0 l0]
  from m l show ?thesis
  proof (cases rule: mp.pack_cases [where n = "0xFFFF"])
    case (found m' pre k post)
    with free_ne_max show ?thesis by blast
  next
    case (none m')
    let ?f = "first_free (heap s) (pk hused 0 hs)"
    have "MEM_pack s = Some (s\<lparr>ram := m', free := (if ?f \<noteq> NULL then ?f else heapEnd s), needPack := False\<rparr>)"
      by (simp add: MEM_pack_def eq none)
    moreover have "heapEnd s = heap s + blen hadv (pk hused 0 hs)"
      using none(2) by (rule cseq_end)
    ultimately show ?thesis
      using none inv pk first_free_pos fpos_end [of "heap s" "pk hused 0 hs"]
      by (auto simp: heap_inv_def live_def keeps_def mf.adv_0)
  qed
qed

lemma MEM_alloc_search_ok:
  assumes "cseq hadv m b (pre @ post) e" "post \<noteq> [] \<longrightarrow> \<not> hused (hd post)"
  shows "\<exists>pre' post'. MEM_alloc_search m n (b + blen hadv pre) = Some (b + blen hadv pre')
    \<and> pre @ post = pre' @ post' \<and> (post' \<noteq> [] \<longrightarrow> \<not> hused (hd post') \<and> n \<le> hd post')"
  using assms
proof (induction "length post" arbitrary: pre post rule: less_induct)
  case less
  show ?case
  proof (cases post)
    case Nil
    with less.prems have "m (b + blen hadv pre) = 0"
      using cseq_drop [of hadv m b pre "[]" e] by auto
    with Nil show ?thesis by (subst MEM_alloc_search.simps) auto
  next
    case (Cons k ks)
    with less.prems have k: "m (b + blen hadv pre) = k" "k \<noteq> 0" "\<not> hused k"
      by (auto dest!: cseq_drop)
    show ?thesis
    proof (cases "n \<le> k")
      case True
      with k Cons show ?thesis
        by (subst MEM_alloc_search.simps) (rule exI [of _ pre], rule exI [of _ post], auto)
    next
      case False
      let ?pre = "pre @ k # takeWhile hused ks" and ?post = "dropWhile hused ks"
      have sk: "skip_used m (b + blen hadv (pre @ [k])) = Some (b + blen hadv ?pre)"
        using skip.skip_takeWhile [OF cseq_drop [of hadv m b "pre @ [k]" ks e]] less.prems(1) Cons
        by (simp add: add.assoc)
      have "MEM_alloc_search m n (b + blen hadv pre) = MEM_alloc_search m n (b + blen hadv ?pre)"
        using k False sk by (subst MEM_alloc_search.simps) (simp add: hdr_fold add.assoc not_le)
      moreover have "length ?post < length post"
        using Cons length_dropWhile_le [of hused ks] by simp
      moreover have "pre @ post = ?pre @ ?post" using Cons by simp
      ultimately show ?thesis
        using less.hyps [of ?post ?pre] less.prems(1) hd_dropWhile [of hused ks] by metis
    qed
  qed
qed

lemma MEM_take_eq:
  "MEM_take p n s =
     map_option (\<lambda>(m, fr). (p + 1, s\<lparr>ram := m, free := fr\<rparr>)) (carve_out skip_used hadv hmk (ram s) p n)"
  by (cases "skip_used (ram s) (p + hadv n)")
    (simp_all add: MEM_take_def carve_out_def Let_def hdr_fold hmk_def)

section \<open>Allocation\<close>

lemma adjsize_hun: "adjsize sz = hun (sz + 3)"
proof -
  have "(0xFFFE :: u16) = NOT 1" "sz + 2 + 1 = sz + 3" by simp_all
  then show ?thesis by (simp only: adjsize_def hun_def USED_def)
qed

lemma unat_adjsize: "unat sz \<le> 65532 \<Longrightarrow> unat (adjsize sz) = 2 * ((unat sz + 3) div 2)"
  using unat_plus_small [of sz 3] by (simp add: adjsize_hun unat_hun)

lemma adjsize_free: "\<not> hused (adjsize sz)"
  by (simp add: adjsize_hun hused_odd unat_hun)

lemma hadv_adjsize: "unat sz \<le> 65532 \<Longrightarrow> hadv (adjsize sz) = (unat sz + 3) div 2"
  by (simp add: hadv_div unat_adjsize)

lemma adjsize_nz: "unat sz \<le> 65532 \<Longrightarrow> adjsize sz \<noteq> 0"
  using unat_adjsize [of sz] by (intro notI) simp

text \<open>
  The outcome of an allocation of \<open>n\<close> bytes (header included). Either a block at \<open>p - 1\<close> joins
  the allocated blocks, or \<open>NULL\<close> is returned and even the packed heap has no free block of \<open>n\<close>.
\<close>

definition alloc_post ::
  "'a heap_st_scheme \<Rightarrow> u16 list \<Rightarrow> u16 \<Rightarrow> ptr \<Rightarrow> 'a heap_st_scheme \<Rightarrow> u16 list \<Rightarrow> bool" where
  "alloc_post s hs n p s' hs' \<longleftrightarrow>
     heap_inv s' hs' \<and> \<not> needPack s' \<and> keeps s hs s' \<and>
     (if p = NULL then live s' hs' = live s hs \<and> (\<forall>k \<in> set (pk hused 0 hs). hused k \<or> k < n)
      else (\<exists>k \<in> set (pk hused 0 hs). \<not> hused k \<and> n \<le> k) \<and>
        (\<exists>us vs. live s hs = us @ vs \<and> live s' hs' = us @ (p - 1, hmk n) # vs))"

lemma MEM_take_post:
  assumes m: "cseq hadv (ram s) (heap s) (pre @ k # post) (heapEnd s)"
    and k: "\<not> hused k" "\<not> hused n" "n \<noteq> 0" "n \<le> k"
    and s: "blen hadv (pre @ k # post) \<le> 32767" "0 < heap s" "\<not> needPack s"
      "packed hused (pre @ k # post)"
  shows "\<exists>s' hs'. MEM_take (heap s + blen hadv pre) n s = Some (heap s + blen hadv pre + 1, s')
    \<and> alloc_post s (pre @ k # post) n (heap s + blen hadv pre + 1) s' hs'"
proof -
  let ?p = "heap s + blen hadv pre" and ?hs' = "pre @ carve hmk n k @ post"
  obtain fr where fr: "MEM_take ?p n s =
      Some (?p + 1, s\<lparr>ram := place hadv hmk (ram s) ?p n k, free := fr\<rparr>)"
      "fpos hused hadv (heap s) ?hs' fr"
    using mt.carve_out_ok [OF m k(1,2,4)] by (auto simp: MEM_take_eq)
  let ?s' = "s\<lparr>ram := place hadv hmk (ram s) ?p n k, free := fr\<rparr>"
  have n: "0 < hadv n" "hadv n \<le> hadv k" using k mf.free_pos mf.free_le by auto
  have inv: "heap_inv ?s' ?hs'"
    using mf.place_cseq [OF m k] fr(2) s mf.blen_carve [OF k(1,2,4)] mf.packed_carve [OF s(4) k(1,2,4)]
    by (simp add: heap_inv_def)
  have e: "heapEnd s = ?p + hadv k + blen hadv post" using cseq_end [OF m] by simp
  have "a < ?p \<or> ?p + hadv k \<le> a"
    if "a < heap s \<or> heapEnd s < a \<or> a \<in> cells hadv (live s (pre @ k # post))" for a
    using that k(1) cells_ublk_bounds [of a hadv hused "heap s" pre]
      cells_ublk_bounds [of a hadv hused "?p + hadv k" post]
    by (auto simp: live_def ublk_append e)
  then have "place hadv hmk (ram s) ?p n k a = ram s a"
    if "a < heap s \<or> heapEnd s < a \<or> a \<in> cells hadv (live s (pre @ k # post))" for a
    using that mt.place_outside [OF k] by blast
  then have "keeps s (pre @ k # post) ?s'" by (auto simp: keeps_def)
  moreover have "live s (pre @ k # post) = ublk hused hadv (heap s) pre @ ublk hused hadv (?p + hadv k) post"
    "live ?s' ?hs' = ublk hused hadv (heap s) pre @ (?p, hmk n) # ublk hused hadv (?p + hadv k) post"
    using k by (simp_all add: live_def ublk_append mf.ublk_carve mf.blen_carve)
  moreover have "pk hused 0 (pre @ k # post) = pre @ k # post"
    using mf.pk_id [OF s(4) cseq_nz [OF m]] .
  ultimately show ?thesis
    using inv fr(1) s(3) k by (intro exI [of _ ?s'] exI [of _ ?hs']) (auto simp: alloc_post_def)
qed


lemma alloc_post_trans:
  assumes "keeps s hs s1" "live s1 hs1 = live s hs" "pk hused 0 hs1 = pk hused 0 hs"
    and "alloc_post s1 hs1 n p s' hs'"
  shows "alloc_post s hs n p s' hs'"
  using assms keeps_trans [of s hs s1 hs1 s'] by (auto simp: alloc_post_def)

text \<open>The fallback of \<open>MEM_alloc\<close> when the search from \<open>free\<close> on finds nothing.\<close>

definition pack_take :: "u16 \<Rightarrow> 'a heap_st_scheme \<Rightarrow> (ptr \<times> 'a heap_st_scheme) option" where
  "pack_take n s = do {
     (q, s') \<leftarrow> pack n s;
     if q = NULL then Some (NULL, s') else MEM_take q n s'
   }"

lemma pack_take_ok:
  assumes inv: "heap_inv s hs" "\<not> needPack s" and n: "\<not> hused n" "n \<noteq> 0"
  shows "\<exists>p s' hs'. pack_take n s = Some (p, s') \<and> alloc_post s hs n p s' hs'"
proof -
  from inv have m: "cseq hadv (ram s) (heap s) hs (heapEnd s)" and l: "blen hadv hs \<le> 32767"
    and h: "0 < heap s" "packed hused hs" "fpos hused hadv (heap s) hs (free s)"
    by (auto simp: heap_inv_def)
  have pk: "pk hused 0 hs = hs" using mf.pk_id h(2) cseq_nz [OF m] by blast
  from m l show ?thesis
  proof (cases rule: mp.pack_cases [where n = n])
    case (none m')
    then have "alloc_post s hs n NULL (s\<lparr>ram := m'\<rparr>) hs"
      using inv l h pk by (auto simp: alloc_post_def heap_inv_def keeps_def live_def)
    then show ?thesis using none by (auto simp: pack_take_def pack_def)
  next
    case (found m' pre k post)
    then have hs: "hs = pre @ k # post" using h(2) by blast
    let ?s = "s\<lparr>ram := m'\<rparr>" and ?p = "heap s + blen hadv pre"
    have keep: "keeps s hs ?s" using found by (auto simp: keeps_def live_def)
    obtain s' hs' where t: "MEM_take ?p n ?s = Some (?p + 1, s')" "alloc_post ?s hs n (?p + 1) s' hs'"
      using MEM_take_post [of ?s pre k post n] found(2,3,5) l h inv(2) n hs by simp blast
    have "pack_take n s = Some (?p + 1, s')"
      using found(1) h(1) t(1) by (simp add: pack_take_def pack_def)
    moreover have "alloc_post s hs n (?p + 1) s' hs'"
      by (rule alloc_post_trans [OF keep _ _ t(2)]) (simp_all add: live_def)
    ultimately show ?thesis by blast
  qed
qed

text \<open>Allocation from a heap on which no packing is pending.\<close>

lemma MEM_alloc_packed:
  assumes inv: "heap_inv s hs" "\<not> needPack s" and sz: "sz \<noteq> 0" "unat sz \<le> 65532"
  shows "\<exists>p s' hs'. MEM_alloc sz s = Some (p, s') \<and> alloc_post s hs (adjsize sz) p s' hs'"
proof -
  let ?n = "adjsize sz"
  note n = adjsize_free [of sz] adjsize_nz [OF sz(2)]
  from inv have m: "cseq hadv (ram s) (heap s) hs (heapEnd s)" and l: "blen hadv hs \<le> 32767"
    and h: "0 < heap s" "packed hused hs" "fpos hused hadv (heap s) hs (free s)"
    by (auto simp: heap_inv_def)
  have take_ok: "\<exists>p s' hs'. MEM_take (heap s + blen hadv pre) ?n s = Some (p, s') \<and> alloc_post s hs ?n p s' hs'"
    if "hs = pre @ k # post" "\<not> hused k" "?n \<le> k" for pre k post
    using MEM_take_post [of s pre k post ?n] m l h inv(2) n that by blast
  from h(3) obtain pre post where split: "hs = pre @ post" "free s = heap s + blen hadv pre"
      "post \<noteq> [] \<longrightarrow> \<not> hused (hd post)"
    by (auto simp: fpos_def)
  show ?thesis
  proof (cases "?n > ram s (free s)")
    case False
    then obtain k post' where "post = k # post'" "\<not> hused k" "?n \<le> k"
      using split m n(2) cseq_end [OF m] cseq_drop [of hadv "ram s" "heap s" pre post "heapEnd s"]
      by (cases post) (auto simp: not_less)
    then show ?thesis
      using take_ok [of pre k post'] split False sz(1) inv(2) by (simp add: MEM_alloc_def Let_def)
  next
    case True
    obtain pre' post' where se: "MEM_alloc_search (ram s) ?n (free s) = Some (heap s + blen hadv pre')"
        "hs = pre' @ post'" "post' \<noteq> [] \<longrightarrow> \<not> hused (hd post') \<and> ?n \<le> hd post'"
      using MEM_alloc_search_ok [of "ram s" "heap s" pre post "heapEnd s" ?n] m split by auto
    show ?thesis
    proof (cases post')
      case (Cons k ks)
      moreover have "ram s (heap s + blen hadv pre') = k" "k \<noteq> 0"
        using m se Cons by (auto dest: cseq_at cseq_nz)
      ultimately show ?thesis
        using take_ok [of pre' k ks] se True sz(1) inv(2) by (simp add: MEM_alloc_def Let_def)
    next
      case Nil
      have "ram s (heap s + blen hadv pre') = 0"
        using m se Nil cseq_drop [of hadv "ram s" "heap s" hs "[]" "heapEnd s"] by simp
      then have "MEM_alloc sz s = pack_take ?n s"
        using se True sz(1) inv(2) by (simp add: MEM_alloc_def pack_take_def Let_def)
      then show ?thesis using pack_take_ok [OF inv n] by simp
    qed
  qed
qed

text \<open>\<open>MEM_alloc\<close> on any heap that satisfies the invariant.\<close>

lemma MEM_alloc_ok:
  assumes inv: "heap_inv s hs" and sz: "sz \<noteq> 0" "unat sz \<le> 65532"
  shows "\<exists>p s' hs'. MEM_alloc sz s = Some (p, s') \<and> alloc_post s hs (adjsize sz) p s' hs'"
proof (cases "needPack s")
  case False
  then show ?thesis using MEM_alloc_packed assms by blast
next
  case True
  let ?hs = "pk hused 0 hs"
  obtain s1 where s1: "MEM_pack s = Some s1" "heap_inv s1 ?hs" "\<not> needPack s1"
      "live s1 ?hs = live s hs" "keeps s hs s1"
    using MEM_pack_ok [OF inv] by blast
  obtain p s' hs' where a: "MEM_alloc sz s1 = Some (p, s')" "alloc_post s1 ?hs (adjsize sz) p s' hs'"
    using MEM_alloc_packed [OF s1(2,3) sz] by blast
  have "MEM_alloc sz s = MEM_alloc sz s1" using True s1(1,3) sz(1) by (simp add: MEM_alloc_def)
  moreover have "alloc_post s hs (adjsize sz) p s' hs'"
  proof -
    have "pk hused 0 ?hs = ?hs"
      using mf.pk_id s1(2,3) cseq_nz [of hadv "ram s1" "heap s1" ?hs "heapEnd s1"]
      by (auto simp: heap_inv_def)
    then show ?thesis using alloc_post_trans [OF s1(5,4) _ a(2)] by simp
  qed
  ultimately show ?thesis using a(1) by auto
qed

section \<open>Release\<close>

text \<open>Releasing an allocated block removes it from the allocated blocks and touches its header only.\<close>

lemma MEM_free_ok:
  assumes inv: "heap_inv s hs" and p: "(p - 1, h) \<in> set (live s hs)" "p \<noteq> NULL"
  shows "\<exists>us vs hs'. live s hs = us @ (p - 1, h) # vs \<and> heap_inv (MEM_free dbg p s) hs'
    \<and> live (MEM_free dbg p s) hs' = us @ vs \<and> hun h \<in> set hs'
    \<and> heap (MEM_free dbg p s) = heap s \<and> heapEnd (MEM_free dbg p s) = heapEnd s
    \<and> ram (MEM_free dbg p s) = (ram s)(p - 1 := hun h) \<and> needPack (MEM_free dbg p s)"
proof -
  obtain pre post where hs: "hs = pre @ h # post" "p - 1 = heap s + blen hadv pre" "hused h"
    using p(1) by (auto simp: live_def dest!: ublk_mem)
  have m: "cseq hadv (ram s) (heap s) (pre @ h # post) (heapEnd s)"
    using inv hs by (simp add: heap_inv_def)
  have h: "ram s (p - 1) = h" using cseq_at [OF m] hs by simp
  let ?s = "s\<lparr>ram := (ram s)(p - 1 := hun h), needPack := True\<rparr>"
  have "MEM_free dbg p s = ?s"
    using hs(3) p(2) h by (simp add: MEM_free_def hun_def hused_def)
  moreover have "heap_inv ?s (pre @ hun h # post)"
    using inv hs mf.release_cseq [OF m hs(3)] mf.un_adv [OF hs(3)] by (simp add: heap_inv_def)
  moreover have "live s hs = ublk hused hadv (heap s) pre @ (p - 1, h)
      # ublk hused hadv (heap s + blen hadv pre + hadv h) post"
    "live ?s (pre @ hun h # post) = ublk hused hadv (heap s) pre
      @ ublk hused hadv (heap s + blen hadv pre + hadv h) post"
    using hs mf.un_free mf.un_adv by (simp_all add: live_def ublk_append)
  ultimately show ?thesis
    by (intro exI [of _ "ublk hused hadv (heap s) pre"]
      exI [of _ "ublk hused hadv (heap s + blen hadv pre + hadv h) post"]
      exI [of _ "pre @ hun h # post"]) simp
qed


section \<open>Accounting\<close>

lemma getFree_fold:
  "unat r + 2 * blen hadv hs < 65536 \<Longrightarrow>
     unat (fold (\<lambda>h r. if hused h then r else r + h) hs r) =
       unat r + 2 * blen hadv (filter (\<lambda>h. \<not> hused h) hs)"
proof (induction hs arbitrary: r)
  case (Cons h hs)
  show ?case
  proof (cases "hused h")
    case False
    then have "unat h = 2 * hadv h" by (auto simp: hused_odd hadv_div)
    then show ?thesis
      using Cons.IH [of "r + h"] Cons.prems False unat_plus_small [of r h] by simp
  qed (use Cons in simp)
qed simp

lemma getAllocated_fold:
  "unat r + 2 * blen hadv hs < 65536 \<Longrightarrow>
     unat (fold (\<lambda>h r. if hused h then r + hun h else r) hs r) =
       unat r + 2 * blen hadv (filter hused hs)"
proof (induction hs arbitrary: r)
  case (Cons h hs)
  show ?case
  proof (cases "hused h")
    case True
    then have "unat (hun h) = 2 * hadv h" by (simp add: unat_hun hadv_div)
    then show ?thesis
      using Cons.IH [of "r + hun h"] Cons.prems True unat_plus_small [of r "hun h"] by simp
  qed (use Cons in simp)
qed simp

lemma blen_filter: "blen adv (filter P hs) + blen adv (filter (\<lambda>h. \<not> P h) hs) = blen adv hs"
  by (induction hs) auto

lemma free_alloc_sum:
  assumes inv: "heap_inv s hs"
  shows "\<exists>f a. MEM_getFree s = Some f \<and> MEM_getAllocated s = Some a
    \<and> unat f = 2 * blen hadv (filter (\<lambda>h. \<not> hused h) hs) \<and> unat a = 2 * blen hadv (filter hused hs)
    \<and> unat f + unat a = 2 * (heapEnd s - heap s)"
proof -
  from inv have m: "cseq hadv (ram s) (heap s) hs (heapEnd s)" and l: "blen hadv hs \<le> 32767"
    by (auto simp: heap_inv_def)
  then show ?thesis
    using getFree.walk_fold [OF m, of 0] getAllocated.walk_fold [OF m, of 0]
      getFree_fold [of 0 hs] getAllocated_fold [of 0 hs] blen_filter [of hadv hused hs] cseq_end [OF m]
    by (simp add: MEM_getFree_def MEM_getAllocated_def)
qed

lemma getLargest_fold:
  assumes "\<not> hused c" "hadv c + blen hadv hs \<le> 32767" "c \<le> r"
    and "fold (\<lambda>h (r, c). if hused h then (r, 0) else (max (c + h) r, c + h)) hs (r, c) = (L, c')"
  shows "r \<le> L \<and> (\<forall>k \<in> set (pk hused c hs). hused k \<or> k \<le> L)
    \<and> (L = r \<or> (\<exists>k \<in> set (pk hused c hs). \<not> hused k \<and> L \<le> k))"
  using assms
proof (induction hs arbitrary: r c)
  case Nil
  then show ?case by auto
next
  case (Cons h hs)
  show ?case
  proof (cases "hused h")
    case True
    then show ?thesis
      using Cons.IH [of 0 r] Cons.prems by (auto simp: mf.used_0 mf.adv_0)
  next
    case False
    have c: "\<not> hused (c + h)" "hadv (c + h) = hadv c + hadv h"
      using Cons.prems False by (simp_all add: mf.merge_free mf.merge_adv)
    have top: "\<exists>k \<in> set (pk hused (c + h) hs). \<not> hused k \<and> c + h \<le> k" if "c + h \<noteq> 0"
      using mf.pk_covers_acc [OF c(1) _ that, of hs] c(2) Cons.prems by simp
    have "max (c + h) r \<le> L \<and> (\<forall>k \<in> set (pk hused (c + h) hs). hused k \<or> k \<le> L)
      \<and> (L = max (c + h) r \<or> (\<exists>k \<in> set (pk hused (c + h) hs). \<not> hused k \<and> L \<le> k))"
      using Cons.IH [of "c + h" "max (c + h) r"] Cons.prems False c by simp
    then show ?thesis using False top by (cases "c + h = 0") (auto simp: max_def split: if_splits)
  qed
qed

text \<open>The largest free block bounds exactly the allocations that can succeed.\<close>

lemma largest_iff:
  assumes inv: "heap_inv s hs"
  shows "\<exists>L. MEM_getLargestFreeBlock s = Some L \<and>
     (\<forall>n. n \<noteq> 0 \<longrightarrow> (n \<le> L \<longleftrightarrow> (\<exists>k \<in> set (pk hused 0 hs). \<not> hused k \<and> n \<le> k)))"
proof -
  from inv have m: "cseq hadv (ram s) (heap s) hs (heapEnd s)" and l: "blen hadv hs \<le> 32767"
    by (auto simp: heap_inv_def)
  obtain L c where L: "fold (\<lambda>h (r, c). if hused h then (r, 0) else (max (c + h) r, c + h)) hs (0, 0) = (L, c)"
    by fastforce
  have "MEM_getLargestFreeBlock s = Some L"
    using getLargest.walk_fold [OF m, of "(0, 0)"] L by (simp add: MEM_getLargestFreeBlock_def)
  then show ?thesis
    using getLargest_fold [OF mf.used_0 _ _ L] l by (auto simp: mf.adv_0 intro: order_trans)
qed


section \<open>Properties\<close>

text \<open>A small heap for the witnesses: 8 words from index 1 on, all free.\<close>

definition tiny :: heap_st where
  "tiny = \<lparr>ram = (\<lambda>_. 0)(1 := 16), free = 1, heap = 1, heapEnd = 9, needPack = False\<rparr>"

lemma tiny_inv: "heap_inv tiny [16]"
proof -
  have "fpos hused hadv 1 [16] 1"
    by (rule fposI [where pre = "[]" and post = "[16]"]) (auto simp: hused_odd)
  then show ?thesis by (simp add: tiny_def heap_inv_def hadv_div)
qed

text \<open>
  C2 An allocation returns, keeps the heap well-formed, and, when it succeeds, hands out a block
  with room for the requested bytes that lies inside the heap and overlaps no allocated block;
  no word of an allocated block changes.
\<close>

theorem MEM_alloc_safe:
  assumes "heap_inv s hs" "sz \<noteq> 0" "unat sz \<le> 65532"
  shows "\<exists>p s' hs'. MEM_alloc sz s = Some (p, s') \<and> heap_inv s' hs'
    \<and> (\<forall>a \<in> cells hadv (live s hs). ram s' a = ram s a)
    \<and> (p \<noteq> NULL \<longrightarrow> heap s < p \<and> p + (unat sz + 1) div 2 \<le> heapEnd s
        \<and> {p - 1 ..< p + (unat sz + 1) div 2} \<inter> cells hadv (live s hs) = {}
        \<and> (p - 1, hmk (adjsize sz)) \<in> set (live s' hs'))"
proof -
  obtain p s' hs' where a: "MEM_alloc sz s = Some (p, s')" "alloc_post s hs (adjsize sz) p s' hs'"
    using MEM_alloc_ok [OF assms] by blast
  then have inv: "heap_inv s' hs'" "heap s' = heap s" "heapEnd s' = heapEnd s"
    by (auto simp: alloc_post_def keeps_def)
  have e: "heapEnd s' = heap s' + blen hadv hs'"
    using inv(1) by (auto simp: heap_inv_def intro: cseq_end)
  have n: "hadv (hmk (adjsize sz)) = (unat sz + 1) div 2 + 1"
    using mf.mk_adv [OF adjsize_free] hadv_adjsize [OF assms(3)] by simp
  show ?thesis
  proof (cases "p = NULL")
    case True
    then show ?thesis using a inv(1) by (auto simp: alloc_post_def keeps_def)
  next
    case False
    then obtain us vs where l: "live s hs = us @ vs" "live s' hs' = us @ (p - 1, hmk (adjsize sz)) # vs"
      using a(2) by (auto simp: alloc_post_def)
    then have b: "heap s \<le> p - 1" "p - 1 + ((unat sz + 1) div 2 + 1) \<le> heapEnd s"
      using ublk_bounds [of "p - 1" "hmk (adjsize sz)" hused hadv "heap s'" hs'] inv e n
      by (auto simp: live_def)
    have "{p - 1 ..< p + (unat sz + 1) div 2} \<inter> cells hadv (live s hs) = {}"
      using cells_split [of hused hadv "heap s'" hs' us "p - 1" "hmk (adjsize sz)" vs] l n False
      by (simp add: live_def)
    then show ?thesis using a inv(1) l b False by (auto simp: alloc_post_def keeps_def)
  qed
qed

theorem MEM_alloc_safe_witness:
  "\<exists>p s' hs'. MEM_alloc 5 tiny = Some (p, s') \<and> heap_inv s' hs'
    \<and> (\<forall>a \<in> cells hadv (live tiny [16]). ram s' a = ram tiny a)
    \<and> (p \<noteq> NULL \<longrightarrow> heap tiny < p \<and> p + (unat (5 :: u16) + 1) div 2 \<le> heapEnd tiny
        \<and> {p - 1 ..< p + (unat (5 :: u16) + 1) div 2} \<inter> cells hadv (live tiny [16]) = {}
        \<and> (p - 1, hmk (adjsize 5)) \<in> set (live s' hs'))"
  by (rule MEM_alloc_safe [OF tiny_inv]) simp_all

text \<open>
  C3 An allocation of 1 to 65532 bytes fails exactly when the request, rounded up to words and with
  its header (\<open>adjsize\<close>), does not fit the largest free block that \<open>MEM_getLargestFreeBlock\<close> reports.
\<close>

theorem MEM_alloc_complete:
  assumes "heap_inv s hs" "sz \<noteq> 0" "unat sz \<le> 65532"
  shows "\<exists>L p s'. MEM_getLargestFreeBlock s = Some L \<and> MEM_alloc sz s = Some (p, s')
    \<and> (p = NULL \<longleftrightarrow> L < adjsize sz)"
proof -
  obtain p s' hs' where a: "MEM_alloc sz s = Some (p, s')" "alloc_post s hs (adjsize sz) p s' hs'"
    using MEM_alloc_ok [OF assms] by blast
  obtain L where L: "MEM_getLargestFreeBlock s = Some L"
      "adjsize sz \<le> L \<longleftrightarrow> (\<exists>k \<in> set (pk hused 0 hs). \<not> hused k \<and> adjsize sz \<le> k)"
    using largest_iff [OF assms(1)] adjsize_nz [OF assms(3)] by blast
  then have "p = NULL \<longleftrightarrow> L < adjsize sz"
    using a(2) unfolding alloc_post_def by (metis not_le)
  then show ?thesis using a(1) L(1) by blast
qed

theorem MEM_alloc_complete_witness:
  "\<exists>L p s'. MEM_getLargestFreeBlock tiny = Some L \<and> MEM_alloc 5 tiny = Some (p, s')
    \<and> (p = NULL \<longleftrightarrow> L < adjsize 5)"
  by (rule MEM_alloc_complete [OF tiny_inv]) simp_all

text \<open>
  C16 Memory is not lost: after a block is released, a request of its size is granted.
\<close>

theorem MEM_free_reuse:
  assumes "heap_inv s hs" "(p - 1, hmk (adjsize sz)) \<in> set (live s hs)" "p \<noteq> NULL"
    and "sz \<noteq> 0" "unat sz \<le> 65532"
  shows "\<exists>q s'. MEM_alloc sz (MEM_free dbg p s) = Some (q, s') \<and> q \<noteq> NULL"
proof -
  let ?s = "MEM_free dbg p s"
  obtain hs' where f: "heap_inv ?s hs'" "hun (hmk (adjsize sz)) \<in> set hs'"
    using MEM_free_ok [OF assms(1-3), of dbg] by blast
  have "hun (hmk (adjsize sz)) = adjsize sz"
    using adjsize_free [of sz] by (intro unsigned_word_eqI [where ?'a = nat]) (auto simp: unat_hun unat_hmk hused_odd)
  then have "\<exists>k \<in> set (pk hused 0 hs'). \<not> hused k \<and> adjsize sz \<le> k"
    using f mf.pk_covers [OF mf.used_0, of hs' "adjsize sz"] adjsize_free adjsize_nz [OF assms(5)]
    by (simp add: heap_inv_def mf.adv_0)
  moreover obtain q s' hs'' where "MEM_alloc sz ?s = Some (q, s')"
      "alloc_post ?s hs' (adjsize sz) q s' hs''"
    using MEM_alloc_ok [OF f(1) assms(4,5)] by blast
  ultimately show ?thesis unfolding alloc_post_def by (metis not_le)
qed

text \<open>A heap of 8 words whose first 4 words are an allocated block for 5 bytes.\<close>

definition tiny1 :: heap_st where
  "tiny1 = \<lparr>ram = (\<lambda>_. 0)(1 := 9, 5 := 8), free = 5, heap = 1, heapEnd = 9, needPack = False\<rparr>"

lemma tiny1_inv: "heap_inv tiny1 [9, 8]"
proof -
  have "fpos hused hadv 1 [9, 8] 5"
    by (rule fposI [where pre = "[9]" and post = "[8]"]) (auto simp: hused_odd hadv_div)
  then show ?thesis by (simp add: tiny1_def heap_inv_def hadv_div hused_odd)
qed

theorem MEM_free_reuse_witness:
  "\<exists>q s'. MEM_alloc 5 (MEM_free False 2 tiny1) = Some (q, s') \<and> q \<noteq> NULL"
proof (rule MEM_free_reuse [OF tiny1_inv])
  show "(2 - 1, hmk (adjsize 5)) \<in> set (live tiny1 [9, 8])"
    by (simp add: live_def tiny1_def hmk_def adjsize_def USED_def hused_odd)
qed simp_all

section \<open>The allocator and its client\<close>

text \<open>
  A run of the allocator with a client: \<open>A\<close> is the set of outstanding allocations, pointer and
  requested size. The client may allocate, release what it holds, ask for packing, and write
  any word of the data of a block it holds.
\<close>

inductive mem_reach :: "u32 \<Rightarrow> 'a heap_st_scheme \<Rightarrow> (ptr \<times> u16) set \<Rightarrow> bool" for bend where
  init: "mem_reach bend (MEM_init bend s) {}"
| alloc: "mem_reach bend s A \<Longrightarrow> unat sz \<le> 65532 \<Longrightarrow> MEM_alloc sz s = Some (p, s') \<Longrightarrow>
    mem_reach bend s' (if p = NULL then A else insert (p, sz) A)"
| free: "mem_reach bend s A \<Longrightarrow> (p, sz) \<in> A \<Longrightarrow> mem_reach bend (MEM_free dbg p s) (A - {(p, sz)})"
| pack: "mem_reach bend s A \<Longrightarrow> MEM_pack s = Some s' \<Longrightarrow> mem_reach bend s' A"
| store: "mem_reach bend s A \<Longrightarrow> (p, sz) \<in> A \<Longrightarrow> i < (unat sz + 1) div 2 \<Longrightarrow>
    mem_reach bend (s\<lparr>ram := (ram s)(p + i := v)\<rparr>) A"

text \<open>The allocated blocks are exactly the client's.\<close>

definition owns :: "'a heap_st_scheme \<Rightarrow> u16 list \<Rightarrow> (ptr \<times> u16) set \<Rightarrow> bool" where
  "owns s hs A \<longleftrightarrow> inj_on fst A \<and>
     (\<forall>(p, sz) \<in> A. p \<noteq> NULL \<and> sz \<noteq> 0 \<and> unat sz \<le> 65532) \<and>
     set (live s hs) = (\<lambda>(p, sz). (p - 1, hmk (adjsize sz))) ` A"

text \<open>The heap's bounds as \<open>MEM_init\<close> lays them out: first word and number of words.\<close>

definition heap_start :: "u32 \<Rightarrow> nat" where
  "heap_start bend = (unat bend + 1) div 2"

definition heap_words :: "u32 \<Rightarrow> nat" where
  "heap_words bend = 0x707FFB00 - heap_start bend - 1"

text \<open>A plausible end of the bss segment: inside work RAM, with room for at least one word.\<close>

definition bend_ok :: "u32 \<Rightarrow> bool" where
  "bend_ok bend \<longleftrightarrow> 0xE0FF0000 \<le> bend \<and> bend \<le> 0xE0FFF5FC"

lemma bend_len:
  assumes "bend_ok bend"
  shows "unat (push_bit 1 (drop_bit 1 (bend + 1))) = 2 * heap_start bend"
    and "unat (ucast (MEMORY_HIGH - (push_bit 1 (drop_bit 1 (bend + 1)) + 2)) :: u16) = 2 * heap_words bend"
    and "0 < heap_words bend" "heap_words bend \<le> 32767" "0 < heap_start bend"
proof -
  let ?h = "push_bit 1 (drop_bit 1 (bend + 1))"
  have b: "0xE0FF0000 \<le> unat bend" "unat bend \<le> 0xE0FFF5FC"
    using assms by (simp_all add: bend_ok_def word_le_nat_alt)
  then have "unat (bend + 1) = unat bend + 1"
    using unat_plus_small [of bend 1] by simp
  then show h: "unat ?h = 2 * heap_start bend"
    by (simp only: unat_push_drop1 heap_start_def)
  have st: "0x707F8000 \<le> heap_start bend" "heap_start bend \<le> 0x707FFAFE"
    using b by (auto simp: heap_start_def)
  then show "0 < heap_words bend" "heap_words bend \<le> 32767" "0 < heap_start bend"
    by (simp_all add: heap_words_def)
  have "unat (?h + 2) = 2 * heap_start bend + 2"
    using h st by (subst unat_plus_small) simp_all
  moreover have "?h + 2 \<le> MEMORY_HIGH"
    using calculation st by (simp add: word_le_nat_alt MEMORY_HIGH_def STACK_SIZE_def)
  ultimately have "unat (MEMORY_HIGH - (?h + 2)) = 2 * heap_words bend"
    using st by (simp only: unat_minus_le) (simp add: MEMORY_HIGH_def STACK_SIZE_def heap_words_def)
  then show "unat (ucast (MEMORY_HIGH - (?h + 2)) :: u16) = 2 * heap_words bend"
    using \<open>heap_words bend \<le> 32767\<close> by (simp only: unat_ucast16) simp
qed

lemma MEM_init_inv:
  assumes "bend_ok bend"
  shows "\<exists>len. heap_inv (MEM_init bend s) [len] \<and> \<not> hused len
    \<and> heap (MEM_init bend s) = heap_start bend
    \<and> heapEnd (MEM_init bend s) = heap_start bend + heap_words bend"
proof -
  let ?h = "push_bit 1 (drop_bit 1 (bend + 1))"
  define len where "len = (ucast (MEMORY_HIGH - (?h + 2)) :: u16)"
  note b = bend_len [OF assms, folded len_def]
  have len: "hadv len = heap_words bend" "\<not> hused len" "len \<noteq> 0" "unat ?h div 2 = heap_start bend"
    using b by (auto simp: hadv_div hused_odd)
  have "fpos hused hadv (heap_start bend) [len] (heap_start bend)"
    by (rule fposI [where pre = "[]" and post = "[len]"]) (use len in auto)
  then show ?thesis
    using len b(3-5)
    by (intro exI [of _ len])
      (simp only: MEM_init_def Let_def len_def [symmetric] hdr_fold, simp add: heap_inv_def)
qed


lemma owns_in_live: "owns s hs A \<Longrightarrow> (p, sz) \<in> A \<Longrightarrow> (p - 1, hmk (adjsize sz)) \<in> set (live s hs)"
  by (force simp: owns_def)

lemma owns_fst: "owns s hs A \<Longrightarrow> (p, m) \<in> A \<Longrightarrow> (q, n) \<in> A \<Longrightarrow> p - 1 = q - 1 \<Longrightarrow> p = q \<and> m = n"
proof -
  assume o: "owns s hs A" "(p, m) \<in> A" "(q, n) \<in> A" "p - 1 = q - 1"
  then have "p \<noteq> NULL" "q \<noteq> NULL" by (auto simp: owns_def)
  then have "p = q" using o(4) by simp
  then show ?thesis using o inj_onD [of fst A "(p, m)" "(q, n)"] by (auto simp: owns_def)
qed

lemma live_distinct: "heap_inv s hs \<Longrightarrow> distinct (map fst (live s hs))"
  by (auto simp: heap_inv_def live_def intro: ublk_distinct)

lemma owns_alloc:
  assumes o: "owns s hs A" and p: "p \<noteq> NULL" "sz \<noteq> 0" "unat sz \<le> 65532" and inv: "heap_inv s' hs'"
    and l: "live s hs = us @ vs" "live s' hs' = us @ (p - 1, hmk (adjsize sz)) # vs"
  shows "owns s' hs' (insert (p, sz) A)"
proof -
  have "p - 1 \<notin> fst ` set (live s hs)" using live_distinct [OF inv] l by auto
  then have "p \<notin> fst ` A" using owns_in_live [OF o] by force
  then show ?thesis using o p l by (auto simp: owns_def inj_on_def)
qed

lemma owns_free:
  assumes o: "owns s hs A" and p: "(p, sz) \<in> A" and inv: "heap_inv s hs"
    and l: "live s hs = us @ (p - 1, hmk (adjsize sz)) # vs" "live s' hs' = us @ vs"
  shows "owns s' hs' (A - {(p, sz)})"
proof -
  let ?f = "\<lambda>(p, sz). (p - 1 :: nat, hmk (adjsize sz))"
  have "inj_on ?f A" using owns_fst [OF o] by (fastforce simp: inj_on_def)
  then have "?f ` (A - {(p, sz)}) = set (live s hs) - {(p - 1, hmk (adjsize sz))}"
    using o p by (auto simp: owns_def inj_on_image_set_diff)
  also have "\<dots> = set (live s' hs')" using live_distinct [OF inv] l by (force simp: distinct_map)
  finally show ?thesis using o by (auto simp: owns_def inj_on_def)
qed

lemma MEM_store_ok:
  assumes inv: "heap_inv s hs" and o: "owns s hs A" and p: "(p, sz) \<in> A" "i < (unat sz + 1) div 2"
  shows "heap_inv (s\<lparr>ram := (ram s)(p + i := v)\<rparr>) hs"
proof -
  let ?h = "hmk (adjsize sz)"
  have sz: "unat sz \<le> 65532" "p \<noteq> NULL" using o p by (auto simp: owns_def)
  have "hadv ?h = (unat sz + 1) div 2 + 1"
    using mf.mk_adv [OF adjsize_free] hadv_adjsize [OF sz(1)] by simp
  moreover have "(p - 1, ?h) \<in> set (ublk hused hadv (heap s) hs)"
    using owns_in_live [OF o p(1)] by (simp add: live_def)
  ultimately show ?thesis
    using inv p(2) sz(2) by (intro heap_inv_data [OF inv, of "p - 1" ?h]) (auto simp: live_def)
qed

definition mem_ok :: "u32 \<Rightarrow> 'a heap_st_scheme \<Rightarrow> (ptr \<times> u16) set \<Rightarrow> u16 list \<Rightarrow> bool" where
  "mem_ok bend s A hs \<longleftrightarrow> heap_inv s hs \<and> owns s hs A \<and> heap s = heap_start bend
     \<and> heapEnd s = heap_start bend + heap_words bend"

lemma mem_ok_alloc:
  assumes "mem_ok bend s A hs" "unat sz \<le> 65532" "MEM_alloc sz s = Some (p, s')"
  shows "\<exists>hs'. mem_ok bend s' (if p = NULL then A else insert (p, sz) A) hs'"
proof (cases "sz = 0")
  case True
  then show ?thesis using assms by (auto simp: MEM_alloc_def)
next
  case False
  then obtain hs' where a: "alloc_post s hs (adjsize sz) p s' hs'"
    using MEM_alloc_ok [of s hs sz] assms by (auto simp: mem_ok_def)
  then have k: "heap_inv s' hs'" "heap s' = heap s" "heapEnd s' = heapEnd s"
    by (auto simp: alloc_post_def keeps_def)
  have "owns s' hs' (if p = NULL then A else insert (p, sz) A)"
  proof (cases "p = NULL")
    case True
    then show ?thesis using a assms(1) by (simp add: alloc_post_def mem_ok_def owns_def)
  next
    case p: False
    then obtain us vs where "live s hs = us @ vs" "live s' hs' = us @ (p - 1, hmk (adjsize sz)) # vs"
      using a by (auto simp: alloc_post_def)
    then show ?thesis using owns_alloc p False assms k(1) by (auto simp: mem_ok_def)
  qed
  then show ?thesis using k assms(1) by (auto simp: mem_ok_def)
qed

lemma mem_ok_free:
  assumes "mem_ok bend s A hs" "(p, sz) \<in> A"
  shows "\<exists>hs'. mem_ok bend (MEM_free dbg p s) (A - {(p, sz)}) hs'"
proof -
  have h: "heap_inv s hs" "owns s hs A" "p \<noteq> NULL" using assms by (auto simp: mem_ok_def owns_def)
  obtain us vs hs' where f: "live s hs = us @ (p - 1, hmk (adjsize sz)) # vs"
      "heap_inv (MEM_free dbg p s) hs'" "live (MEM_free dbg p s) hs' = us @ vs"
      "heap (MEM_free dbg p s) = heap s" "heapEnd (MEM_free dbg p s) = heapEnd s"
    using MEM_free_ok [OF h(1) owns_in_live [OF h(2) assms(2)] h(3)] by blast
  then have "owns (MEM_free dbg p s) hs' (A - {(p, sz)})"
    using owns_free h assms(2) by blast
  then show ?thesis using f assms(1) by (auto simp: mem_ok_def)
qed

lemma mem_reach_ok:
  assumes "mem_reach bend s A" "bend_ok bend"
  shows "\<exists>hs. mem_ok bend s A hs"
  using assms
proof (induction rule: mem_reach.induct)
  case (init s)
  then show ?case using MEM_init_inv [of bend s] by (auto simp: mem_ok_def owns_def live_def)
next
  case (alloc s A sz p s')
  then show ?case using mem_ok_alloc by blast
next
  case (free s A p sz dbg)
  then show ?case using mem_ok_free by blast
next
  case (pack s A s')
  then obtain hs where "mem_ok bend s A hs" by blast
  then have "mem_ok bend s' A (pk hused 0 hs)"
    using pack.hyps MEM_pack_ok [of s hs] by (auto simp: mem_ok_def owns_def keeps_def)
  then show ?case ..
next
  case (store s A p sz i v)
  then obtain hs where "mem_ok bend s A hs" by blast
  then have "mem_ok bend (s\<lparr>ram := (ram s)(p + i := v)\<rparr>) A hs"
    using store.hyps MEM_store_ok [of s hs A p sz i v] by (auto simp: mem_ok_def owns_def live_def)
  then show ?case ..
qed

lemma owns_disjoint:
  assumes "heap_inv s hs" "owns s hs A" "(p, m) \<in> A" "(q, n) \<in> A" "(p, m) \<noteq> (q, n)"
  shows "{p - 1 ..< p + (unat m + 1) div 2} \<inter> {q - 1 ..< q + (unat n + 1) div 2} = {}"
proof -
  have ne: "p \<noteq> NULL" "q \<noteq> NULL" "p - 1 \<noteq> q - 1" "unat m \<le> 65532" "unat n \<le> 65532"
    using assms owns_fst [OF assms(2-4)] by (auto simp: owns_def)
  have adv: "hadv (hmk (adjsize z)) = (unat z + 1) div 2 + 1" if "unat z \<le> 65532" for z
    using mf.mk_adv [OF adjsize_free] hadv_adjsize [OF that] by simp
  obtain us vs where l: "live s hs = us @ (p - 1, hmk (adjsize m)) # vs"
    using owns_in_live [OF assms(2,3)] by (auto dest: split_list)
  then have "(q - 1, hmk (adjsize n)) \<in> set (us @ vs)"
    using owns_in_live [OF assms(2,4)] ne by auto
  then have "{q - 1 ..< q - 1 + hadv (hmk (adjsize n))} \<subseteq> cells hadv (us @ vs)"
    by (force simp: cells_def)
  then show ?thesis
    using cells_split [of hused hadv "heap s" hs us "p - 1" _ vs] l adv ne by (fastforce simp: live_def)
qed

text \<open>
  C1 In every state that the program can reach by allocating, releasing, packing and writing to
  the data of blocks it holds, the blocks it holds lie inside the heap and do not overlap, and
  \<open>MEM_checkIntegrity\<close> returns true as long as the stack pointer is inside the stack area.
\<close>

theorem mem_reach_integrity:
  assumes "mem_reach bend s A" "bend_ok bend" "MEMORY_HIGH \<le> sp" "sp < MEMORY_HIGH + STACK_SIZE"
  shows "MEM_checkIntegrity bend sp s = Some True
    \<and> (\<forall>(p, m) \<in> A. heap s < p \<and> p + (unat m + 1) div 2 \<le> heapEnd s)
    \<and> (\<forall>(p, m) \<in> A. \<forall>(q, n) \<in> A. (p, m) \<noteq> (q, n) \<longrightarrow>
         {p - 1 ..< p + (unat m + 1) div 2} \<inter> {q - 1 ..< q + (unat n + 1) div 2} = {})"
proof -
  obtain hs where ok: "mem_ok bend s A hs" using mem_reach_ok [OF assms(1,2)] by blast
  then have i: "heap_inv s hs" "owns s hs A" by (auto simp: mem_ok_def)
  have "MEM_checkIntegrity bend sp s = Some True"
    using free_alloc_sum [OF i(1)] bend_len(2) [OF assms(2)] ok assms(3,4)
    by (auto simp: MEM_checkIntegrity_def mem_ok_def Let_def not_less simp del: push_bit_of_1)
  moreover have "heap s < p \<and> p + (unat m + 1) div 2 \<le> heapEnd s" if "(p, m) \<in> A" for p m
  proof -
    have "p \<noteq> NULL" "hadv (hmk (adjsize m)) = (unat m + 1) div 2 + 1"
      using i(2) that mf.mk_adv [OF adjsize_free, of m] hadv_adjsize [of m] by (auto simp: owns_def)
    moreover have "heapEnd s = heap s + blen hadv hs"
      using i(1) by (auto simp: heap_inv_def intro: cseq_end)
    ultimately show ?thesis
      using owns_in_live [OF i(2) that] ublk_bounds [of "p - 1" _ hused hadv "heap s" hs]
      by (fastforce simp: live_def)
  qed
  ultimately show ?thesis using owns_disjoint [OF i] by fast
qed


lemma run_reach: "\<exists>s :: heap_st. mem_reach 0xE0FFF5E0 s {(1887435505, 5)} \<and> heap s = 1887435504"
proof -
  let ?s = "MEM_init 0xE0FFF5E0 tiny"
  obtain s' where "MEM_alloc 5 ?s = Some (1887435505, s')" "heap s' = 1887435504"
    by (simp add: MEM_alloc_def MEM_init_def Let_def adjsize_def MEM_take_def MEMORY_HIGH_def STACK_SIZE_def)
  then show ?thesis
    using mem_reach.alloc [OF mem_reach.init, of 5 "0xE0FFF5E0" tiny 1887435505 s'] by auto
qed

theorem mem_reach_integrity_witness:
  "\<exists>s :: heap_st. mem_reach 0xE0FFF5E0 s {(1887435505, 5)} \<and> MEM_checkIntegrity 0xE0FFF5E0 0xE0FFF700 s = Some True
    \<and> heap s < 1887435505"
proof -
  obtain s :: heap_st where s: "mem_reach 0xE0FFF5E0 s {(1887435505, 5)}" using run_reach by blast
  from mem_reach_integrity [OF s, of "0xE0FFF700"] show ?thesis
    using s by (auto simp: bend_ok_def MEMORY_HIGH_def STACK_SIZE_def)
qed

text \<open>
  A heap with a free block of 8 words at index 1 and, behind it, an allocated block of 4 words.
\<close>

definition tiny2 :: heap_st where
  "tiny2 = \<lparr>ram = (\<lambda>_. 0)(1 := 16, 9 := 9), free = 1, heap = 1, heapEnd = 13, needPack = False\<rparr>"

lemma tiny2_inv: "heap_inv tiny2 [16, 9]"
proof -
  have "fpos hused hadv 1 [16, 9] 1"
    by (rule fposI [where pre = "[]" and post = "[16, 9]"]) (auto simp: hused_odd)
  then show ?thesis by (simp add: tiny2_def heap_inv_def hadv_div hused_odd)
qed

text \<open>
  \<open>MEM_allocAt\<close> does not keep the heap well-formed: when the wanted address lies inside a
  free block that is followed by an allocated one, the size of the split block's tail is
  overwritten by the size of the whole block. Here the block at word 9 is allocated; after
  \<open>MEM_allocAt\<close> has placed another block in front of it, the next \<open>MEM_alloc\<close> hands out the
  words 7 to 10, which overlap it.
\<close>

theorem MEM_allocAt_overlap:
  "heap_inv tiny2 [16, 9] \<and> live tiny2 [16, 9] = [(9, 9)] \<and>
   (\<exists>s1 s2. MEM_allocAt 6 5 tiny2 = Some (4, s1) \<and> MEM_alloc 5 s1 = Some (8, s2)
      \<and> ram s2 7 = hmk (adjsize 5) \<and> 9 \<in> {7 ..< 7 + hadv (hmk (adjsize 5))}
      \<and> 9 \<in> cells hadv (live tiny2 [16, 9]))"
proof -
  let ?s1 = "tiny2\<lparr>ram := (ram tiny2)(1 := 4, 3 := 9, 7 := 8), free := 7\<rparr>"
  have "MEM_allocAt 6 5 tiny2 = Some (4, ?s1)"
    by (simp add: MEM_allocAt_def adjsize_def Let_def tiny2_def fun_eq_iff USED_def
      MEM_allocAt_loop.simps [of _ _ _ "Suc 0"] MEM_allocAt_loop.simps [of _ _ _ 9]
      allocAt_split_def MEM_take_def)
  moreover have "live tiny2 [16, 9] = [(9, 9)]"
    by (simp add: live_def tiny2_def hused_odd hadv_div)
  moreover have "\<exists>s2. MEM_alloc 5 ?s1 = Some (8, s2) \<and> ram s2 7 = hmk (adjsize 5)"
    by (simp add: MEM_alloc_def adjsize_def Let_def tiny2_def MEM_take_def USED_def hmk_def
      skip_used.simps [of _ 11])
  ultimately show ?thesis
    using tiny2_inv by (auto simp: adjsize_def hmk_def USED_def hadv_div)
qed

text \<open>A walk that meets a header of size 0 other than the end mark does not return.\<close>

lemma getFree_stuck:
  assumes "hadv (m b) = 0" "m b \<noteq> 0"
  shows "MEM_getFree_loop m b r = None"
proof -
  have "hadv (m b) = 0 \<and> m b \<noteq> 0 \<longrightarrow> False" if "MEM_getFree_loop m b r = Some y" for m b r y
    by (rule MEM_getFree_loop.raw_induct
        [where P = "\<lambda>m b r y. hadv (m b) = 0 \<and> m b \<noteq> 0 \<longrightarrow> False", OF _ that])
      (force simp: Let_def hdr_fold split: if_splits)
  then show ?thesis using assms by (cases "MEM_getFree_loop m b r") blast+
qed

text \<open>
  The size arithmetic of \<open>MEM_alloc\<close> wraps for requests close to 64 KB: 65535 bytes are
  granted as a block without any room for data, and 65533 or 65534 bytes as a block of
  size 0, whose header is neither the end mark nor leads to a next block, so that the heap
  can no longer be walked.
\<close>

theorem MEM_alloc_wrap:
  "adjsize 0xFFFF = 2 \<and> adjsize 0xFFFE = 0 \<and> adjsize 0xFFFD = 0 \<and>
   (\<exists>s. MEM_alloc 0xFFFF tiny = Some (2, s) \<and> heap_inv s [3, 14]) \<and>
   (\<exists>s. MEM_alloc 0xFFFD tiny = Some (2, s) \<and> MEM_getFree s = None)"
proof -
  have "MEM_alloc 0xFFFF tiny = Some (2, tiny\<lparr>ram := (\<lambda>_. 0)(1 := 3, 2 := 14), free := 2\<rparr>)"
    by (simp add: MEM_alloc_def adjsize_def Let_def MEM_take_def USED_def tiny_def fun_eq_iff)
  moreover have "MEM_alloc 0xFFFD tiny = Some (2, tiny\<lparr>ram := (\<lambda>_. 0)(1 := 1), free := 1\<rparr>)"
    by (simp add: MEM_alloc_def adjsize_def Let_def MEM_take_def USED_def tiny_def fun_eq_iff)
  moreover have "fpos hused hadv 1 [3, 14] 2"
    by (rule fposI [where pre = "[3]" and post = "[14]"]) (auto simp: hused_odd hadv_div)
  then have "heap_inv (tiny\<lparr>ram := (\<lambda>_. 0)(1 := 3, 2 := 14), free := 2\<rparr>) [3, 14]"
    by (simp add: tiny_def heap_inv_def hadv_div hused_odd)
  moreover have "MEM_getFree (tiny\<lparr>ram := (\<lambda>_. 0)(1 := 1), free := 1\<rparr>) = None"
    by (simp add: MEM_getFree_def getFree_stuck hadv_div tiny_def)
  ultimately show ?thesis by (auto simp: adjsize_def)
qed

end
