(* ===== verification/Vram.thy ===== *)
theory Vram
  imports Memory
begin

text \<open>
  The allocator of video memory tiles of \<open>src/vram.c\<close>. A region of VRAM is managed through an
  image in work RAM, one word per tile and an end mark, that \<open>VRAM_createRegion\<close> allocates with
  \<open>MEM_alloc\<close>. The image is a chain of blocks as in the heap, with another header format: bit 15
  is the used flag and the other bits are the size in tiles. The record \<open>VRAMRegion\<close> is the C
  structure; its pointer \<open>free\<close> is called \<open>rfree\<close> here because the heap has a \<open>free\<close> of its own.
  The tile index that \<open>VRAM_alloc\<close> returns is an \<open>s16\<close>; its failure value \<open>-1\<close> is \<open>0xFFFF\<close>.
\<close>

section \<open>State\<close>

definition USED_MASK :: u16 where [cfg]: "USED_MASK = 0x8000"

definition SIZE_MASK :: u16 where [cfg]: "SIZE_MASK = 0x7FFF"

record VRAMRegion =
  startIndex :: u16
  endIndex :: u16
  rfree :: ptr
  vram :: ptr

section \<open>Operations\<close>

definition VRAM_clearRegion ::
  "VRAMRegion \<Rightarrow> 'a heap_st_scheme \<Rightarrow> VRAMRegion \<times> 'a heap_st_scheme" where
  "VRAM_clearRegion region s =
    (let sz = (endIndex region - startIndex region) + 1;
         m = (ram s)(vram region := sz)
     in (region\<lparr>rfree := vram region\<rparr>, s\<lparr>ram := m(vram region + unat sz := 0)\<rparr>))"

definition VRAM_createRegion ::
  "VRAMRegion \<Rightarrow> u16 \<Rightarrow> u16 \<Rightarrow> 'a heap_st_scheme \<Rightarrow> (VRAMRegion \<times> 'a heap_st_scheme) option" where
  "VRAM_createRegion region start sz s =
    (let region = region\<lparr>startIndex := start, endIndex := start + (sz - 1)\<rparr>
     in do {
       (p, s') \<leftarrow> MEM_alloc ((sz + 1) * 2) s;
       Some (VRAM_clearRegion (region\<lparr>vram := p\<rparr>) s')
     })"

definition VRAM_releaseRegion ::
  "bool \<Rightarrow> VRAMRegion \<Rightarrow> 'a heap_st_scheme \<Rightarrow> VRAMRegion \<times> 'a heap_st_scheme" where
  "VRAM_releaseRegion debug region s =
    (region\<lparr>vram := NULL\<rparr>, MEM_free debug (vram region) s)"

partial_function (option) VRAM_getFree_loop :: "ram \<Rightarrow> ptr \<Rightarrow> u16 \<Rightarrow> u16 option" where
  "VRAM_getFree_loop m b res =
    (let bsize = m b in
     if bsize \<noteq> 0 then
       (if bsize AND USED_MASK \<noteq> 0 then VRAM_getFree_loop m (b + unat (bsize AND SIZE_MASK)) res
        else VRAM_getFree_loop m (b + unat bsize) (res + bsize))
     else Some res)"

definition VRAM_getFree :: "VRAMRegion \<Rightarrow> 'a heap_st_scheme \<Rightarrow> u16 option" where
  "VRAM_getFree region s = VRAM_getFree_loop (ram s) (vram region) 0"

partial_function (option) VRAM_getLargestFreeBlock_loop :: "ram \<Rightarrow> ptr \<Rightarrow> u16 \<Rightarrow> u16 option" where
  "VRAM_getLargestFreeBlock_loop m b res =
    (let bsize = m b in
     if bsize \<noteq> 0 then
       (if bsize AND USED_MASK \<noteq> 0 then
          VRAM_getLargestFreeBlock_loop m (b + unat (bsize AND SIZE_MASK)) res
        else VRAM_getLargestFreeBlock_loop m (b + unat bsize) (if bsize > res then bsize else res))
     else Some res)"

definition VRAM_getLargestFreeBlock :: "VRAMRegion \<Rightarrow> 'a heap_st_scheme \<Rightarrow> u16 option" where
  "VRAM_getLargestFreeBlock region s = VRAM_getLargestFreeBlock_loop (ram s) (vram region) 0"

partial_function (option) VRAM_getAllocated_loop :: "ram \<Rightarrow> ptr \<Rightarrow> u16 \<Rightarrow> u16 option" where
  "VRAM_getAllocated_loop m b res =
    (let bsize = m b in
     if bsize \<noteq> 0 then
       (if bsize AND USED_MASK \<noteq> 0 then
          (let bsize = bsize AND SIZE_MASK in VRAM_getAllocated_loop m (b + unat bsize) (res + bsize))
        else VRAM_getAllocated_loop m (b + unat bsize) res)
     else Some res)"

definition VRAM_getAllocated :: "VRAMRegion \<Rightarrow> 'a heap_st_scheme \<Rightarrow> u16 option" where
  "VRAM_getAllocated region s = VRAM_getAllocated_loop (ram s) (vram region) 0"

text \<open>The static function \<open>pack\<close> of \<open>src/vram.c\<close>.\<close>

partial_function (option) vram_pack_loop ::
  "ram \<Rightarrow> u16 \<Rightarrow> ptr \<Rightarrow> ptr \<Rightarrow> u16 \<Rightarrow> (ram \<times> ptr) option" where
  "vram_pack_loop m nsize b best bsize =
    (let psize = m b in
     if psize \<noteq> 0 then
       (if psize AND USED_MASK \<noteq> 0 then
          (let b' = b + unat (psize AND SIZE_MASK) in
           if bsize \<noteq> 0 then
             (let m' = m(best := bsize) in
              if bsize \<ge> nsize then Some (m', best) else vram_pack_loop m' nsize b' b' 0)
           else vram_pack_loop m nsize b' b' bsize)
        else vram_pack_loop (m(b := 0)) nsize (b + unat psize) best (bsize + psize))
     else if bsize \<noteq> 0 then
       (let m' = m(best := bsize) in if bsize \<ge> nsize then Some (m', best) else Some (m', NULL))
     else Some (m, NULL))"

definition vram_pack :: "VRAMRegion \<Rightarrow> u16 \<Rightarrow> 'a heap_st_scheme \<Rightarrow> (ptr \<times> 'a heap_st_scheme) option" where
  "vram_pack region nsize s = do {
     (m, p) \<leftarrow> vram_pack_loop (ram s) nsize (vram region) (vram region) 0;
     Some (p, s\<lparr>ram := m\<rparr>)
   }"

partial_function (option) vram_skip_used :: "ram \<Rightarrow> ptr \<Rightarrow> ptr option" where
  "vram_skip_used m p =
    (if m p AND USED_MASK \<noteq> 0 then vram_skip_used m (p + unat (m p AND SIZE_MASK)) else Some p)"

text \<open>The part of \<open>VRAM_alloc\<close> behind the choice of the free block \<open>p\<close>.\<close>

definition vram_take :: "VRAMRegion \<Rightarrow> ptr \<Rightarrow> u16 \<Rightarrow> 'a heap_st_scheme \<Rightarrow> (u16 \<times> VRAMRegion \<times> 'a heap_st_scheme) option" where
  "vram_take region p sz s =
    (let fr = p + unat sz; remaining = ram s p - sz
     in do {
       (m, fr') \<leftarrow> (if remaining > 0 then Some ((ram s)(fr := remaining), fr)
                    else do { fr' \<leftarrow> vram_skip_used (ram s) fr; Some (ram s, fr') });
       Some (of_int (int p - int (vram region)) + startIndex region,
         region\<lparr>rfree := fr'\<rparr>, s\<lparr>ram := m(p := sz OR USED_MASK)\<rparr>)
     })"

definition VRAM_alloc :: "VRAMRegion \<Rightarrow> u16 \<Rightarrow> 'a heap_st_scheme \<Rightarrow> (u16 \<times> VRAMRegion \<times> 'a heap_st_scheme) option" where
  "VRAM_alloc region sz s =
    (if sz > ram s (rfree region) then do {
       (p, s') \<leftarrow> vram_pack region sz s;
       if p = NULL then Some (-1, region, s') else vram_take region p sz s'
     } else vram_take region (rfree region) sz s)"

definition VRAM_free :: "VRAMRegion \<Rightarrow> u16 \<Rightarrow> 'a heap_st_scheme \<Rightarrow> 'a heap_st_scheme" where
  "VRAM_free region index s =
    (let adjInd = index - startIndex region in
     if 0 \<le> sint adjInd \<and> index \<le> endIndex region then
       (let a = vram region + unat adjInd
        in s\<lparr>ram := (ram s)(a := ram s a AND NOT USED_MASK)\<rparr>)
     else s)"


section \<open>The header format\<close>

definition vused :: "u16 \<Rightarrow> bool" where
  "vused h \<longleftrightarrow> h AND USED_MASK \<noteq> 0"

definition vadv :: "u16 \<Rightarrow> nat" where
  "vadv h = unat (h AND SIZE_MASK)"

definition vmk :: "u16 \<Rightarrow> u16" where
  "vmk n = n OR USED_MASK"

definition vun :: "u16 \<Rightarrow> u16" where
  "vun h = h AND NOT USED_MASK"

lemma vadv_mod: "vadv h = unat h mod 32768"
proof -
  have "SIZE_MASK = mask 15" by (simp add: SIZE_MASK_def mask_eq_exp_minus_1)
  then show ?thesis using unat_and_mask [of h 15] by (simp add: vadv_def)
qed

lemma vused_ge: "vused h \<longleftrightarrow> 32768 \<le> unat h"
proof -
  have "USED_MASK = 2 ^ 15" by (simp add: USED_MASK_def)
  then show ?thesis
    using and_exp_eq_0_iff_not_bit [of h 15] bit15_unat [of h] by (simp add: vused_def)
qed

lemma vadv_free: "\<not> vused h \<Longrightarrow> vadv h = unat h"
  by (simp add: vadv_mod vused_ge)

lemma unat_vun: "unat (vun h) = unat h mod 32768"
proof -
  have "NOT USED_MASK = mask 15" by (simp add: USED_MASK_def mask_eq_exp_minus_1)
  then show ?thesis using unat_and_mask [of h 15] by (simp add: vun_def)
qed

lemma unat_vmk: "\<not> vused n \<Longrightarrow> unat (vmk n) = unat n + 32768"
proof -
  assume "\<not> vused n"
  then have "n AND USED_MASK = 0" "unat n + unat USED_MASK < 2 ^ LENGTH(16)"
    using vused_ge [of n] by (simp_all add: vused_def USED_MASK_def)
  then show ?thesis
    by (simp only: vmk_def disjunctive_add_eq_or [symmetric] unat_plus_small) (simp add: USED_MASK_def)
qed

interpretation vf: block_format vused vadv vmk vun
proof
  fix a b :: u16
  assume fr: "\<not> vused a" "\<not> vused b" and le: "vadv a + vadv b \<le> 32767"
  then have "unat (a + b) = unat a + unat b"
    by (intro unat_plus_small) (simp add: vadv_free)
  then show "\<not> vused (a + b)" "vadv (a + b) = vadv a + vadv b"
    using fr le by (auto simp: vused_ge vadv_mod)
next
  fix k n :: u16
  assume fr: "\<not> vused k" "\<not> vused n" and le: "n \<le> k"
  then have "unat (k - n) = unat k - unat n" "unat n \<le> unat k"
    by (simp_all add: unat_sub word_le_nat_alt)
  then show "\<not> vused (k - n)" "vadv (k - n) = vadv k - vadv n"
    using fr by (auto simp: vused_ge vadv_mod)
next
  fix a b :: u16
  assume "\<not> vused a" "\<not> vused b"
  then show "a \<le> b \<longleftrightarrow> vadv a \<le> vadv b" by (simp add: vadv_free word_le_nat_alt)
next
  fix a :: u16
  assume "\<not> vused a" "a \<noteq> 0"
  then show "0 < vadv a" by (simp add: vadv_free unat_gt_0)
qed (auto simp: unat_vmk unat_vun vused_ge vadv_mod)

section \<open>The loops on a region\<close>

text \<open>
  The code advances over a free block by its whole header, over a used one by the masked header;
  both are \<open>vadv\<close>.
\<close>

lemma vfree_step: "h AND USED_MASK = 0 \<Longrightarrow> unat h = vadv h"
  using vadv_free [of h] by (simp add: vused_def)

lemmas vhdr_fold = vused_def [symmetric] vadv_def [symmetric]

interpretation vgetFree: block_walk vadv "\<lambda>h r. if vused h then r else r + h" VRAM_getFree_loop
  by unfold_locales
    (subst VRAM_getFree_loop.simps, simp add: Let_def vused_def vadv_def [symmetric] vfree_step)

interpretation vgetLargest: block_walk vadv "\<lambda>h r. if vused h then r else max h r"
  VRAM_getLargestFreeBlock_loop
  by unfold_locales
    (subst VRAM_getLargestFreeBlock_loop.simps,
      auto simp: Let_def vused_def vadv_def [symmetric] vfree_step max_def)

interpretation vgetAllocated: block_walk vadv "\<lambda>h r. if vused h then r + (h AND SIZE_MASK) else r"
  VRAM_getAllocated_loop
  by unfold_locales
    (subst VRAM_getAllocated_loop.simps, simp add: Let_def vused_def vadv_def [symmetric] vfree_step)

interpretation vskip: block_skip vused vadv vram_skip_used
  by unfold_locales (simp add: vused_def, subst vram_skip_used.simps, simp add: vused_def vadv_def)

interpretation vp: block_pack vused vadv vmk vun vram_pack_loop
  by unfold_locales
    (subst vram_pack_loop.simps, simp add: Let_def vused_def vadv_def [symmetric] vfree_step)

interpretation vt: block_take vused vadv vmk vun vram_skip_used ..

section \<open>The region invariant\<close>

text \<open>
  The image of a region: a chain over all its tiles. \<open>rfree\<close> points to a free block, to the end
  mark, or, after a failed allocation has merged the block it pointed to into its predecessor,
  to a zero word.
\<close>

definition tiles :: "VRAMRegion \<Rightarrow> nat" where
  "tiles r = unat (endIndex r) + 1 - unat (startIndex r)"

definition region_inv :: "VRAMRegion \<Rightarrow> 'a heap_st_scheme \<Rightarrow> u16 list \<Rightarrow> bool" where
  "region_inv r s hs \<longleftrightarrow>
     cseq vadv (ram s) (vram r) hs (vram r + tiles r) \<and> startIndex r \<le> endIndex r \<and>
     unat (endIndex r) \<le> 32766 \<and> 0 < vram r \<and>
     (fpos vused vadv (vram r) hs (rfree r) \<or> ram s (rfree r) = 0)"

text \<open>The allocated blocks: index of the first tile and header.\<close>

definition vlive :: "VRAMRegion \<Rightarrow> u16 list \<Rightarrow> (nat \<times> u16) list" where
  "vlive r hs = ublk vused vadv (unat (startIndex r)) hs"

text \<open>What every operation on a region leaves alone.\<close>

definition vkeeps ::
  "VRAMRegion \<Rightarrow> 'a heap_st_scheme \<Rightarrow> VRAMRegion \<Rightarrow> 'a heap_st_scheme \<Rightarrow> bool" where
  "vkeeps r s r' s' \<longleftrightarrow> startIndex r' = startIndex r \<and> endIndex r' = endIndex r \<and> vram r' = vram r \<and>
     s' = s\<lparr>ram := ram s'\<rparr> \<and> (\<forall>a. a \<notin> {vram r .. vram r + tiles r} \<longrightarrow> ram s' a = ram s a)"

lemma region_inv_blen:
  assumes "region_inv r s hs"
  shows "blen vadv hs = tiles r" "blen vadv hs \<le> 32767" "0 < tiles r"
  using assms cseq_end [of vadv "ram s" "vram r" hs "vram r + tiles r"]
  by (auto simp: region_inv_def tiles_def word_le_nat_alt)

definition valloc_post ::
  "VRAMRegion \<Rightarrow> 'a heap_st_scheme \<Rightarrow> u16 list \<Rightarrow> u16 \<Rightarrow> u16 \<Rightarrow> VRAMRegion \<Rightarrow> 'a heap_st_scheme \<Rightarrow> u16 list \<Rightarrow> bool"
  where
  "valloc_post r s hs n i r' s' hs' \<longleftrightarrow>
     region_inv r' s' hs' \<and> vkeeps r s r' s' \<and>
     (if i = -1 then vlive r' hs' = vlive r hs \<and> (\<forall>k \<in> set (pk vused 0 hs). vused k \<or> k < n)
      else vadv (vmk n) = unat n \<and> unat i + unat n \<le> unat (endIndex r) + 1 \<and>
        (\<exists>us vs. vlive r hs = us @ vs \<and> vlive r' hs' = us @ (unat i, vmk n) # vs))"

lemma vram_take_eq:
  "vram_take r p n s =
     map_option (\<lambda>(m, fr). (of_int (int p - int (vram r)) + startIndex r, r\<lparr>rfree := fr\<rparr>, s\<lparr>ram := m\<rparr>))
       (carve_out vram_skip_used (\<lambda>n. unat n) vmk (ram s) p n)"
  by (cases "vram_skip_used (ram s) (p + unat n)")
    (simp_all add: vram_take_def carve_out_def Let_def vmk_def)

lemma carve_out_cong: "adv n = adv' n \<Longrightarrow> carve_out skip adv mk m p n = carve_out skip adv' mk m p n"
  by (simp add: carve_out_def)

lemma minus_one_not_small: "\<not> unat (-1 :: u16) < 32768"
  by (simp add: unsigned_minus_1_eq_mask mask_eq_exp_minus_1)

lemma vram_take_ok:
  assumes m: "cseq vadv (ram s) (vram r) (pre @ k # post) (vram r + tiles r)"
    and k: "\<not> vused k" "n \<noteq> 0" "n \<le> k"
    and r: "startIndex r \<le> endIndex r" "unat (endIndex r) \<le> 32766" "0 < vram r"
  shows "\<exists>i r' s' hs'. vram_take r (vram r + blen vadv pre) n s = Some (i, r', s')
    \<and> i \<noteq> -1 \<and> valloc_post r s (pre @ k # post) n i r' s' hs'"
proof -
  let ?p = "vram r + blen vadv pre" and ?hs' = "pre @ carve vmk n k @ post"
  have n: "\<not> vused n" using k by (simp add: vused_ge word_le_nat_alt)
  obtain fr where fr: "carve_out vram_skip_used vadv vmk (ram s) ?p n =
      Some (place vadv vmk (ram s) ?p n k, fr)" "fpos vused vadv (vram r) ?hs' fr"
    using vt.carve_out_ok [OF m k(1) n k(3)] by blast
  define i :: u16 where "i = of_nat (blen vadv pre) + startIndex r"
  let ?r' = "r\<lparr>rfree := fr\<rparr>" and ?s' = "s\<lparr>ram := place vadv vmk (ram s) ?p n k\<rparr>"
  have take: "vram_take r ?p n s = Some (i, ?r', ?s')"
    using fr(1) carve_out_cong [of unat n vadv] n by (simp add: vram_take_eq vadv_free i_def)
  have e: "tiles r = blen vadv pre + vadv k + blen vadv post" "tiles r + unat (startIndex r) \<le> 32767"
      "tiles r + unat (startIndex r) = unat (endIndex r) + 1"
    using cseq_end [OF m] r by (auto simp: tiles_def word_le_nat_alt)
  have nk: "0 < vadv n" "vadv n \<le> vadv k" using k n vf.free_pos vf.free_le by auto
  have i: "unat i = unat (startIndex r) + blen vadv pre"
    using e nk unat_plus_small [of "of_nat (blen vadv pre)" "startIndex r"]
    by (simp add: i_def unat_of_nat)
  have "unat i < 32768" using i e nk by simp
  then have ne: "i \<noteq> -1" by (metis minus_one_not_small)
  have inv: "region_inv ?r' ?s' ?hs'"
    using vf.place_cseq [OF m k(1) n k(2,3)] fr(2) r by (simp add: region_inv_def tiles_def)
  moreover have "vkeeps r s ?r' ?s'"
    using vt.place_outside [OF k(1) n k(2,3), of _ ?p] e nk by (auto simp: vkeeps_def)
  moreover have "vlive r (pre @ k # post) = ublk vused vadv (unat (startIndex r)) pre
      @ ublk vused vadv (unat i + vadv k) post"
    "vlive ?r' ?hs' = ublk vused vadv (unat (startIndex r)) pre
      @ (unat i, vmk n) # ublk vused vadv (unat i + vadv k) post"
    using k n i by (simp_all add: vlive_def ublk_append vf.ublk_carve vf.blen_carve)
  moreover have "vadv (vmk n) = unat n" "unat i + unat n \<le> unat (endIndex r) + 1"
    using i e nk n by (simp_all add: vf.mk_adv vadv_free)
  ultimately show ?thesis using take ne by (auto simp: valloc_post_def)
qed

lemma VRAM_alloc_ok:
  assumes inv: "region_inv r s hs" and n: "n \<noteq> 0"
  shows "\<exists>i r' s' hs'. VRAM_alloc r n s = Some (i, r', s') \<and> valloc_post r s hs n i r' s' hs'"
proof -
  note bl = region_inv_blen [OF inv]
  from inv have m: "cseq vadv (ram s) (vram r) hs (vram r + tiles r)"
    and r: "startIndex r \<le> endIndex r" "unat (endIndex r) \<le> 32766" "0 < vram r"
    and f: "fpos vused vadv (vram r) hs (rfree r) \<or> ram s (rfree r) = 0"
    by (auto simp: region_inv_def)
  show ?thesis
  proof (cases "n > ram s (rfree r)")
    case False
    then have "ram s (rfree r) \<noteq> 0" using n by (auto simp: word_gt_0)
    then obtain pre post where sp: "hs = pre @ post" "rfree r = vram r + blen vadv pre"
        "post \<noteq> [] \<longrightarrow> \<not> vused (hd post)" using f by (auto simp: fpos_def)
    with \<open>ram s (rfree r) \<noteq> 0\<close> obtain k ks where "post = k # ks" "ram s (rfree r) = k"
      using m cseq_drop [of vadv "ram s" "vram r" pre post "vram r + tiles r"] by (cases post) auto
    then show ?thesis
      using vram_take_ok [of s r pre k ks n] m r n sp False
      by (auto simp: VRAM_alloc_def not_less)
  next
    case True
    from m bl(2) show ?thesis
    proof (cases rule: vp.pack_cases [where n = n])
      case (none m')
      let ?hs = "pk vused 0 hs"
      have "vlive r ?hs = vlive r hs"
        using vf.ublk_pk [OF vf.used_0, of hs "unat (startIndex r)"] bl(2) by (simp add: vlive_def vf.adv_0)
      moreover have "VRAM_alloc r n s = Some (-1, r, s\<lparr>ram := m'\<rparr>)"
        using True none(1) by (simp add: VRAM_alloc_def vram_pack_def)
      moreover have "region_inv r (s\<lparr>ram := m'\<rparr>) ?hs"
        using none(2) none(4) [of "rfree r"] f r by (auto simp: region_inv_def)
      ultimately show ?thesis
        using none(3,5)
        by (intro exI [of _ "-1"] exI [of _ r] exI [of _ "s\<lparr>ram := m'\<rparr>"] exI [of _ ?hs])
          (auto simp: valloc_post_def vkeeps_def)
    next
      case (found m' pre k post)
      let ?s = "s\<lparr>ram := m'\<rparr>"
      obtain i r' s' hs' where t: "vram_take r (vram r + blen vadv pre) n ?s = Some (i, r', s')" "i \<noteq> -1"
          "valloc_post r ?s (pre @ k # post) n i r' s' hs'"
        using vram_take_ok [of ?s r pre k post n] found(2,3,5) n r by auto
      have "VRAM_alloc r n s = Some (i, r', s')"
        using True found(1) r(3) t(1) by (simp add: VRAM_alloc_def vram_pack_def)
      moreover have "vlive r (pre @ k # post) = vlive r hs"
        using found(6) ublk_base [of vused vadv "vram r" "pre @ k # post" hs] by (simp add: vlive_def)
      then have "valloc_post r s hs n i r' s' hs'"
        using t(2,3) found(8) by (auto simp: valloc_post_def vkeeps_def)
      ultimately show ?thesis by blast
    qed
  qed
qed

section \<open>Release and accounting\<close>

lemma VRAM_free_ok:
  assumes inv: "region_inv r s hs" and i: "(unat i, h) \<in> set (vlive r hs)"
  shows "\<exists>us vs hs'. vlive r hs = us @ (unat i, h) # vs \<and> region_inv r (VRAM_free r i s) hs'
    \<and> vlive r hs' = us @ vs \<and> vkeeps r s r (VRAM_free r i s)
    \<and> (\<exists>pre post. hs = pre @ h # post \<and> hs' = pre @ vun h # post)"
proof -
  obtain pre post where hs: "hs = pre @ h # post" "unat i = unat (startIndex r) + blen vadv pre" "vused h"
    using i by (auto simp: vlive_def dest!: ublk_mem)
  note bl = region_inv_blen [OF inv]
  let ?a = "vram r + blen vadv pre"
  have m: "cseq vadv (ram s) (vram r) (pre @ h # post) (vram r + tiles r)"
    using inv hs by (simp add: region_inv_def)
  then have h: "ram s ?a = h" "h \<noteq> 0" "0 < vadv h"
    using cseq_at [OF m] cseq_drop [OF m] by auto
  have t: "blen vadv pre < tiles r" "tiles r + unat (startIndex r) = unat (endIndex r) + 1"
      "unat (endIndex r) \<le> 32766"
    using bl hs h(3) inv by (auto simp: tiles_def region_inv_def word_le_nat_alt)
  have "startIndex r \<le> i" using hs(2) by (simp add: word_le_nat_alt)
  then have "unat (i - startIndex r) = blen vadv pre" using hs(2) by (simp add: unat_minus_le)
  moreover from this have "0 \<le> sint (i - startIndex r)" "i \<le> endIndex r"
    using t hs(2) by (simp_all add: sint_nonneg_u16 word_le_nat_alt)
  ultimately have eq: "VRAM_free r i s = s\<lparr>ram := (ram s)(?a := vun h)\<rparr>"
    using h(1) by (simp add: VRAM_free_def Let_def vun_def)
  have "fpos vused vadv (vram r) (pre @ vun h # post) (rfree r) \<or> ((ram s)(?a := vun h)) (rfree r) = 0"
    using inv hs h fpos_free [of vused "vun h" vadv h] vf.un_free [of h] vf.un_adv [of h]
    by (auto simp: region_inv_def)
  then have "region_inv r (VRAM_free r i s) (pre @ vun h # post)"
    using inv vf.release_cseq [OF m hs(3)] by (simp add: region_inv_def eq)
  moreover have "vlive r hs = ublk vused vadv (unat (startIndex r)) pre @ (unat i, h)
      # ublk vused vadv (unat i + vadv h) post"
    "vlive r (pre @ vun h # post) = ublk vused vadv (unat (startIndex r)) pre
      @ ublk vused vadv (unat i + vadv h) post"
    using hs vf.un_free vf.un_adv by (simp_all add: vlive_def ublk_append)
  ultimately show ?thesis
    using t hs(1) by (intro exI [of _ "ublk vused vadv (unat (startIndex r)) pre"]
      exI [of _ "ublk vused vadv (unat i + vadv h) post"] exI [of _ "pre @ vun h # post"])
      (auto simp: vkeeps_def eq)
qed

lemma vgetFree_fold:
  "unat r + blen vadv hs < 65536 \<Longrightarrow>
     unat (fold (\<lambda>h r. if vused h then r else r + h) hs r) =
       unat r + blen vadv (filter (\<lambda>h. \<not> vused h) hs)"
proof (induction hs arbitrary: r)
  case (Cons h hs)
  have "unat (r + h) = unat r + vadv h" if "\<not> vused h"
    using that Cons.prems unat_plus_small [of r h] by (simp add: vadv_free)
  then show ?case using Cons.IH [of "r + h"] Cons.IH [of r] Cons.prems by simp
qed simp

lemma vgetAllocated_fold:
  "unat r + blen vadv hs < 65536 \<Longrightarrow>
     unat (fold (\<lambda>h r. if vused h then r + (h AND SIZE_MASK) else r) hs r) =
       unat r + blen vadv (filter vused hs)"
proof (induction hs arbitrary: r)
  case (Cons h hs)
  have "unat (r + (h AND SIZE_MASK)) = unat r + vadv h"
    using Cons.prems unat_plus_small [of r "h AND SIZE_MASK"] by (simp add: vadv_def)
  then show ?case
    using Cons.IH [of "r + (h AND SIZE_MASK)"] Cons.IH [of r] Cons.prems by simp
qed simp

lemma VRAM_counts:
  assumes inv: "region_inv r s hs"
  shows "\<exists>f a. VRAM_getFree r s = Some f \<and> VRAM_getAllocated r s = Some a
    \<and> unat f = blen vadv (filter (\<lambda>h. \<not> vused h) hs) \<and> unat a = blen vadv (filter vused hs)
    \<and> unat f + unat a = tiles r"
proof -
  from inv have m: "cseq vadv (ram s) (vram r) hs (vram r + tiles r)" by (simp add: region_inv_def)
  then show ?thesis
    using region_inv_blen [OF inv] vgetFree.walk_fold [OF m, of 0] vgetAllocated.walk_fold [OF m, of 0]
      vgetFree_fold [of 0 hs] vgetAllocated_fold [of 0 hs] blen_filter [of vadv vused hs]
    by (simp add: VRAM_getFree_def VRAM_getAllocated_def)
qed

lemma blen_vlive: "blen vadv (filter vused hs) = blen vadv (map snd (ublk vused vadv b hs))"
  by (induction hs arbitrary: b) auto

section \<open>Properties\<close>

text \<open>The image of the region is the data of a block of the heap.\<close>

definition region_in_heap :: "VRAMRegion \<Rightarrow> 'a heap_st_scheme \<Rightarrow> u16 list \<Rightarrow> bool" where
  "region_in_heap r s hs \<longleftrightarrow> 0 < vram r \<and>
     (vram r - 1, hmk (adjsize ((of_nat (tiles r) + 1) * 2))) \<in> set (live s hs)"

lemma image_size: "t \<le> 32765 \<Longrightarrow> hadv (hmk (adjsize ((of_nat t + 1) * 2))) = t + 2"
proof -
  assume t: "t \<le> 32765"
  have "((of_nat t + 1) * 2 :: u16) = of_nat (2 * t + 2)" by simp
  then have "unat ((of_nat t + 1) * 2 :: u16) = 2 * t + 2" using t by (simp only: unat_of_nat) simp
  then show ?thesis using mf.mk_adv [OF adjsize_free] hadv_adjsize [of "(of_nat t + 1) * 2"] t by simp
qed

lemma vkeeps_heap:
  assumes k: "vkeeps r s r' s'" and inv: "heap_inv s hs" and r: "region_in_heap r s hs" and t: "tiles r \<le> 32765"
  shows "heap_inv s' hs \<and> region_in_heap r' s' hs"
proof -
  let ?h = "hmk (adjsize ((of_nat (tiles r) + 1) * 2))"
  obtain m where "s' = s\<lparr>ram := m\<rparr>" using k by (auto simp: vkeeps_def)
  then have eq: "heap s' = heap s" "heapEnd s' = heapEnd s" "free s' = free s" "needPack s' = needPack s"
    by simp_all
  have "ram s' a = ram s a" if "a \<notin> {vram r - 1 <..< vram r - 1 + hadv ?h}" for a
  proof -
    have "0 < vram r" using r by (simp add: region_in_heap_def)
    then have "a \<notin> {vram r .. vram r + tiles r}"
      using that unfolding image_size [OF t] greaterThanLessThan_iff atLeastAtMost_iff by linarith
    then show ?thesis using k by (simp add: vkeeps_def)
  qed
  then have "heap_inv s' hs"
    using r eq by (intro heap_inv_data [OF inv, of "vram r - 1" ?h]) (auto simp: region_in_heap_def)
  then show ?thesis using k r eq by (auto simp: vkeeps_def region_in_heap_def live_def tiles_def)
qed

text \<open>A region of 8 tiles from tile 16 on, its image in a heap block.\<close>

definition vtiny :: heap_st where
  "vtiny = \<lparr>ram = (\<lambda>_. 0)(1 := 21, 2 := 8, 11 := 10), free = 11, heap = 1, heapEnd = 16, needPack = False\<rparr>"

definition vtiny_region :: VRAMRegion where
  "vtiny_region = \<lparr>startIndex = 16, endIndex = 23, rfree = 2, vram = 2\<rparr>"

lemma vtiny_inv:
  "region_inv vtiny_region vtiny [8]" "heap_inv vtiny [21, 10]"
  "region_in_heap vtiny_region vtiny [21, 10]"
  by (simp_all add: region_inv_def vtiny_region_def vtiny_def tiles_def vadv_mod vused_ge heap_inv_def
    hadv_div hused_odd region_in_heap_def live_def hmk_def adjsize_def USED_def)

text \<open>
  C4 An allocation of tiles returns. It fails (-1) exactly when no run of free blocks is long
  enough; otherwise the tiles it grants lie inside the region and none of them was allocated.
  In both cases the region stays well-formed, so does the heap its image lives in, and the
  tiles allocated before stay allocated.
\<close>

theorem VRAM_alloc_safe:
  assumes "region_inv r s hs" "n \<noteq> 0" "heap_inv s ks" "region_in_heap r s ks" "tiles r \<le> 32765"
  shows "\<exists>i r' s' hs'. VRAM_alloc r n s = Some (i, r', s') \<and> region_inv r' s' hs'
    \<and> heap_inv s' ks \<and> region_in_heap r' s' ks
    \<and> (i = -1 \<longrightarrow> vlive r' hs' = vlive r hs \<and> (\<forall>k \<in> set (pk vused 0 hs). vused k \<or> k < n))
    \<and> (i \<noteq> -1 \<longrightarrow> set (vlive r' hs') = insert (unat i, vmk n) (set (vlive r hs))
        \<and> unat (startIndex r) \<le> unat i \<and> unat i + unat n \<le> unat (endIndex r) + 1
        \<and> {unat i ..< unat i + unat n} \<inter> cells vadv (vlive r hs) = {})"
proof -
  obtain i r' s' hs' where a: "VRAM_alloc r n s = Some (i, r', s')" "valloc_post r s hs n i r' s' hs'"
    using VRAM_alloc_ok [OF assms(1,2)] by blast
  then have inv: "region_inv r' s' hs'" "vkeeps r s r' s'" by (auto simp: valloc_post_def)
  have h: "heap_inv s' ks" "region_in_heap r' s' ks"
    using vkeeps_heap [OF inv(2) assms(3-5)] by auto
  show ?thesis
  proof (cases "i = -1")
    case True
    then show ?thesis using a inv h by (auto simp: valloc_post_def)
  next
    case False
    then obtain us vs where l: "vlive r hs = us @ vs" "vlive r' hs' = us @ (unat i, vmk n) # vs"
        and e: "vadv (vmk n) = unat n" "unat i + unat n \<le> unat (endIndex r) + 1"
      using a(2) by (auto simp: valloc_post_def)
    have st: "startIndex r' = startIndex r" using inv(2) by (simp add: vkeeps_def)
    have "unat (startIndex r) \<le> unat i"
      using ublk_bounds [of "unat i" "vmk n" vused vadv "unat (startIndex r')" hs'] l(2) st
      by (auto simp: vlive_def)
    moreover have "{unat i ..< unat i + unat n} \<inter> cells vadv (vlive r hs) = {}"
      using cells_split [of vused vadv "unat (startIndex r')" hs' us "unat i" "vmk n" vs] l e(1)
      by (simp add: vlive_def)
    ultimately show ?thesis using a(1) inv(1) h l e(2) False by auto
  qed
qed

theorem VRAM_alloc_safe_witness:
  "\<exists>i r' s' hs'. VRAM_alloc vtiny_region 3 vtiny = Some (i, r', s') \<and> region_inv r' s' hs'
    \<and> heap_inv s' [21, 10] \<and> region_in_heap r' s' [21, 10]
    \<and> (i = -1 \<longrightarrow> vlive r' hs' = vlive vtiny_region [8] \<and> (\<forall>k \<in> set (pk vused 0 [8]). vused k \<or> k < 3))
    \<and> (i \<noteq> -1 \<longrightarrow> set (vlive r' hs') = insert (unat i, vmk 3) (set (vlive vtiny_region [8]))
        \<and> unat (startIndex vtiny_region) \<le> unat i \<and> unat i + unat (3 :: u16) \<le> unat (endIndex vtiny_region) + 1
        \<and> {unat i ..< unat i + unat (3 :: u16)} \<inter> cells vadv (vlive vtiny_region [8]) = {})"
  by (rule VRAM_alloc_safe [OF vtiny_inv(1) _ vtiny_inv(2,3)]) (simp_all add: tiles_def vtiny_region_def)

text \<open>
  C13 Allocating and releasing tiles is neutral: after \<open>VRAM_free\<close> of a block that \<open>VRAM_alloc\<close>
  returned, the region is well-formed, the same tiles are allocated as before the allocation
  and \<open>VRAM_getFree\<close> reports the same number; in between it reports \<open>n\<close> less, and free and
  allocated tiles always add up to the size of the region.
\<close>

theorem VRAM_alloc_free:
  assumes "region_inv r s hs" "n \<noteq> 0" "VRAM_alloc r n s = Some (i, r', s')" "i \<noteq> -1"
  shows "\<exists>f a f' hs''. VRAM_getFree r s = Some f \<and> VRAM_getAllocated r s = Some a
    \<and> unat f + unat a = tiles r \<and> VRAM_getFree r' s' = Some f' \<and> unat f' + unat n = unat f
    \<and> region_inv r' (VRAM_free r' i s') hs'' \<and> vlive r' hs'' = vlive r hs
    \<and> VRAM_getFree r' (VRAM_free r' i s') = Some f"
proof -
  obtain hs' where a: "valloc_post r s hs n i r' s' hs'" using VRAM_alloc_ok [OF assms(1,2)] assms(3) by auto
  then have inv: "region_inv r' s' hs'" "vkeeps r s r' s'" and sz: "vadv (vmk n) = unat n"
    using assms(4) by (auto simp: valloc_post_def)
  obtain us vs where l: "vlive r hs = us @ vs" "vlive r' hs' = us @ (unat i, vmk n) # vs"
    using a assms(4) by (auto simp: valloc_post_def)
  have t: "tiles r' = tiles r" using inv(2) by (simp add: vkeeps_def tiles_def)
  obtain us' vs' hs'' where f: "vlive r' hs' = us' @ (unat i, vmk n) # vs'"
      "region_inv r' (VRAM_free r' i s') hs''" "vlive r' hs'' = us' @ vs'"
    using VRAM_free_ok [OF inv(1), of i "vmk n"] l(2) by auto
  have "distinct (map fst (vlive r' hs'))"
    using inv(1) ublk_distinct_base [OF ublk_distinct] by (auto simp: region_inv_def vlive_def)
  then have "unat i \<notin> fst ` set us" "unat i \<notin> fst ` set vs" using l(2) by auto
  then have "(unat i, vmk n) \<notin> set us" "(unat i, vmk n) \<notin> set vs" by force+
  then have same: "vlive r' hs'' = vlive r hs"
    using f(1,3) l append_Cons_eq_iff [of "(unat i, vmk n)" us vs us' vs'] by simp
  have b: "blen vadv (filter vused hs') = blen vadv (filter vused hs) + unat n"
    "blen vadv (filter vused hs'') = blen vadv (filter vused hs)"
    using l same sz by (simp_all add: vlive_def blen_vlive [of hs "unat (startIndex r)"]
      blen_vlive [of hs' "unat (startIndex r')"] blen_vlive [of hs'' "unat (startIndex r')"])
  obtain fr al where c: "VRAM_getFree r s = Some fr" "VRAM_getAllocated r s = Some al"
      "unat fr + unat al = tiles r" "unat al = blen vadv (filter vused hs)"
    using VRAM_counts [OF assms(1)] by blast
  obtain fr' al' where c': "VRAM_getFree r' s' = Some fr'" "unat fr' + unat al' = tiles r"
      "unat (al' :: u16) = blen vadv (filter vused hs')"
    using VRAM_counts [OF inv(1)] unfolding t by blast
  obtain fr'' al'' where c'': "VRAM_getFree r' (VRAM_free r' i s') = Some fr''"
      "unat fr'' + unat al'' = tiles r" "unat (al'' :: u16) = blen vadv (filter vused hs'')"
    using VRAM_counts [OF f(2)] unfolding t by blast
  have "unat fr'' = unat fr" "unat fr' + unat n = unat fr" using b c c' c'' by linarith+
  moreover from this have "fr'' = fr" by (intro unsigned_word_eqI [where ?'a = nat]) simp
  ultimately show ?thesis using f(2) same c c' c'' by auto
qed

lemma vtiny_run:
  "VRAM_alloc vtiny_region 3 vtiny =
     Some (16, vtiny_region\<lparr>rfree := 5\<rparr>, vtiny\<lparr>ram := (ram vtiny)(5 := 5, 2 := 0x8003)\<rparr>)"
  by (simp add: VRAM_alloc_def vram_take_def vtiny_region_def vtiny_def Let_def USED_MASK_def)

theorem VRAM_alloc_free_witness:
  "\<exists>i r' s' f a f' hs''. VRAM_alloc vtiny_region 3 vtiny = Some (i, r', s')
    \<and> VRAM_getFree vtiny_region vtiny = Some f \<and> VRAM_getAllocated vtiny_region vtiny = Some a
    \<and> unat f + unat a = tiles vtiny_region \<and> VRAM_getFree r' s' = Some f' \<and> unat f' + unat (3 :: u16) = unat f
    \<and> region_inv r' (VRAM_free r' i s') hs'' \<and> vlive r' hs'' = vlive vtiny_region [8]
    \<and> VRAM_getFree r' (VRAM_free r' i s') = Some f"
  using VRAM_alloc_free [OF vtiny_inv(1) _ vtiny_run] vtiny_run by fastforce

text \<open>
  C26 Creating a region takes a block of the heap for its image; when the heap has room, the
  region is well-formed, all of it is free, and the heap stays well-formed.
\<close>

theorem VRAM_createRegion_ok:
  assumes "heap_inv s ks" "sz \<noteq> 0" "unat start + unat sz \<le> 32765"
    and "MEM_getLargestFreeBlock s = Some L" "adjsize ((sz + 1) * 2) \<le> L"
  shows "\<exists>r' s' ks'. VRAM_createRegion r start sz s = Some (r', s') \<and> heap_inv s' ks'
    \<and> region_inv r' s' [sz] \<and> region_in_heap r' s' ks' \<and> vlive r' [sz] = []
    \<and> startIndex r' = start \<and> tiles r' = unat sz
    \<and> (\<forall>a \<in> cells hadv (live s ks). ram s' a = ram s a)"
proof -
  let ?n = "(sz + 1) * 2 :: u16"
  have n: "?n = of_nat (2 * unat sz + 2)" by simp
  then have un: "unat ?n = 2 * unat sz + 2" using assms(3) by (simp only: unat_of_nat) simp
  then have "?n \<noteq> 0" "unat ?n \<le> 65532" using assms(3) by auto
  then obtain p s1 ks' where a: "MEM_alloc ?n s = Some (p, s1)" "alloc_post s ks (adjsize ?n) p s1 ks'"
    using MEM_alloc_ok [OF assms(1)] by blast
  have p: "p \<noteq> NULL"
  proof
    assume "p = NULL"
    then have "\<forall>k \<in> set (pk hused 0 ks). hused k \<or> k < adjsize ?n" using a(2) by (simp add: alloc_post_def)
    moreover have "adjsize ?n \<noteq> 0" using adjsize_nz [of ?n] un assms(3) by simp
    ultimately show False using largest_iff [OF assms(1)] assms(4,5) by (metis not_le option.inject)
  qed
  define r1 where "r1 = r\<lparr>startIndex := start, endIndex := start + (sz - 1), vram := p, rfree := p\<rparr>"
  let ?s' = "s1\<lparr>ram := (ram s1)(p := sz, p + unat sz := 0)\<rparr>"
  have "unat (sz - 1) = unat sz - 1" using assms(2) by (simp add: unat_minus_one)
  moreover have pos: "0 < unat sz" using assms(2) by (simp add: unat_gt_0)
  ultimately have t: "tiles r1 = unat sz" "unat (endIndex r1) \<le> 32766" "startIndex r1 \<le> endIndex r1"
    using assms(3) unat_plus_small [of start "sz - 1"] by (auto simp: r1_def tiles_def word_le_nat_alt)
  have "VRAM_createRegion r start sz s = Some (r1, ?s')"
    using a(1) by (simp add: VRAM_createRegion_def VRAM_clearRegion_def Let_def r1_def)
  moreover have "region_inv r1 ?s' [sz]"
    using t p assms(2,3) pos by (auto simp: region_inv_def r1_def vadv_mod vused_ge)
  moreover obtain us vs where l: "live s ks = us @ vs" "live s1 ks' = us @ (p - 1, hmk (adjsize ?n)) # vs"
    using a(2) p by (auto simp: alloc_post_def)
  have h1: "heap_inv s1 ks'" using a(2) by (simp add: alloc_post_def)
  moreover have in1: "region_in_heap r1 s1 ks'"
    using l(2) p t(1) by (simp add: region_in_heap_def r1_def)
  have "heap_inv ?s' ks' \<and> region_in_heap r1 ?s' ks'"
    by (rule vkeeps_heap [OF _ h1 in1]) (use t assms(3) in \<open>auto simp: vkeeps_def r1_def\<close>)
  moreover have "ram ?s' c = ram s c" if "c \<in> cells hadv (live s ks)" for c
  proof -
    have "{p - 1 ..< p - 1 + hadv (hmk (adjsize ?n))} \<inter> cells hadv (live s ks) = {}"
      using cells_split [of hused hadv "heap s1" ks' us "p - 1" _ vs] l by (simp add: live_def)
    moreover have "hadv (hmk (adjsize ?n)) = unat sz + 2"
      using image_size [of "unat sz"] assms(3) by simp
    ultimately have "c \<noteq> p" "c \<noteq> p + unat sz" using that p by (fastforce simp: disjoint_iff)+
    then show ?thesis using a(2) that by (simp add: alloc_post_def keeps_def)
  qed
  moreover have "vlive r1 [sz] = []" "startIndex r1 = start"
    using assms(3) by (auto simp: vlive_def vused_ge r1_def)
  ultimately show ?thesis using t(1) by blast
qed

theorem VRAM_createRegion_ok_witness:
  "\<exists>r' s' ks'. VRAM_createRegion vtiny_region 16 4 tiny = Some (r', s') \<and> heap_inv s' ks'
    \<and> region_inv r' s' [4] \<and> region_in_heap r' s' ks' \<and> vlive r' [4] = []
    \<and> startIndex r' = 16 \<and> tiles r' = unat (4 :: u16)
    \<and> (\<forall>a \<in> cells hadv (live tiny [16]). ram s' a = ram tiny a)"
proof (rule VRAM_createRegion_ok [OF tiny_inv])
  show "MEM_getLargestFreeBlock tiny = Some 16"
    using getLargest.walk_fold [of "ram tiny" 1 "[16]" 9 "(0, 0)"]
    by (simp add: MEM_getLargestFreeBlock_def tiny_def hadv_div hused_odd)
qed (simp_all add: adjsize_def)

text \<open>A walk over a region that meets a used block of size 0 does not return.\<close>

lemma vgetFree_stuck:
  assumes "m b = USED_MASK"
  shows "VRAM_getFree_loop m b r = None"
proof -
  have "m b \<noteq> USED_MASK" if "VRAM_getFree_loop m b r = Some y" for m b r y
    by (rule VRAM_getFree_loop.raw_induct [where P = "\<lambda>m b r y. m b \<noteq> USED_MASK", OF _ that])
      (auto simp: Let_def USED_MASK_def SIZE_MASK_def split: if_splits)
  then show ?thesis using assms by (cases "VRAM_getFree_loop m b r") blast+
qed

text \<open>
  \<open>VRAM_alloc\<close> does not reject a request for 0 tiles: it succeeds and leaves a used block of
  size 0 in the region, on which \<open>VRAM_getFree\<close> loops forever.
\<close>

theorem VRAM_alloc_zero:
  "\<exists>r' s'. region_inv vtiny_region vtiny [8] \<and> VRAM_alloc vtiny_region 0 vtiny = Some (16, r', s')
     \<and> VRAM_getFree r' s' = None"
proof -
  have "VRAM_alloc vtiny_region 0 vtiny =
      Some (16, vtiny_region, vtiny\<lparr>ram := (ram vtiny)(2 := 0x8000)\<rparr>)"
    by (simp add: VRAM_alloc_def vram_take_def vtiny_region_def vtiny_def Let_def USED_MASK_def fun_eq_iff)
  moreover have "VRAM_getFree vtiny_region (vtiny\<lparr>ram := (ram vtiny)(2 := 0x8000)\<rparr>) = None"
    by (simp add: VRAM_getFree_def vtiny_region_def vgetFree_stuck USED_MASK_def)
  ultimately show ?thesis using vtiny_inv(1) by blast
qed

end
