(* ===== verification/HeapClient.thy ===== *)
theory HeapClient
  imports Memory
begin

text \<open>
  What the components that keep their data in the heap use of the allocator: allocation touches
  only the heap fields of their state, keeps the blocks they own and adds the new one.
\<close>

definition heap_frame :: "'a heap_st_scheme \<Rightarrow> 'a heap_st_scheme \<Rightarrow> bool" where
  "heap_frame s s' \<longleftrightarrow> (\<exists>m f b. s' = s\<lparr>ram := m, free := f, needPack := b\<rparr>)"

lemma heap_frameI: "s' = s\<lparr>ram := m, free := f, needPack := b\<rparr> \<Longrightarrow> heap_frame s s'"
  by (auto simp: heap_frame_def)

lemma heap_frame_refl [simp]: "heap_frame s s"
  by (rule heap_frameI [where m = "ram s" and f = "free s" and b = "needPack s"]) simp

lemma heap_frame_trans [trans]: "heap_frame s s' \<Longrightarrow> heap_frame s' s'' \<Longrightarrow> heap_frame s s''"
  unfolding heap_frame_def by auto blast

lemma heap_frame_upd:
  "heap_frame s (s\<lparr>ram := m, free := f, needPack := b\<rparr>)" "heap_frame s (s\<lparr>ram := m, free := f\<rparr>)"
  "heap_frame s (s\<lparr>ram := m\<rparr>)" "heap_frame s (s\<lparr>ram := m, needPack := b\<rparr>)"
proof -
  show "heap_frame s (s\<lparr>ram := m, free := f, needPack := b\<rparr>)" by (rule heap_frameI) simp
  show "heap_frame s (s\<lparr>ram := m, free := f\<rparr>)" by (rule heap_frameI [where m = m and f = f and b = "needPack s"]) simp
  show "heap_frame s (s\<lparr>ram := m\<rparr>)" by (rule heap_frameI [where m = m and f = "free s" and b = "needPack s"]) simp
  show "heap_frame s (s\<lparr>ram := m, needPack := b\<rparr>)" by (rule heap_frameI [where m = m and f = "free s" and b = b]) simp
qed

lemma MEM_pack_heap_frame: "MEM_pack s = Some s' \<Longrightarrow> heap_frame s s'"
  by (auto simp: MEM_pack_def heap_frame_upd split: bind_splits)

lemma MEM_take_heap_frame: "MEM_take p n s = Some (q, s') \<Longrightarrow> heap_frame s s'"
  by (auto simp: MEM_take_def heap_frame_upd Let_def split: bind_splits if_splits)

lemma MEM_alloc_heap_frame: "MEM_alloc n s = Some (q, s') \<Longrightarrow> heap_frame s s'"
proof -
  assume a: "MEM_alloc n s = Some (q, s')"
  have take: "heap_frame s1 s'" if "MEM_take p k s1 = Some (q, s')" for p k s1 using MEM_take_heap_frame that .
  have take': "heap_frame s1 s'" if "MEM_take p k (s1\<lparr>ram := m\<rparr>) = Some (q, s')" for p k s1 m
    using heap_frame_trans [OF heap_frame_upd(3) take [OF that]] .
  show ?thesis
    using a by (auto simp: MEM_alloc_def Let_def pack_def heap_frame_upd split: bind_splits if_splits
        dest!: MEM_pack_heap_frame elim!: heap_frame_trans dest: take take')
qed

lemma MEM_free_heap_frame: "heap_frame s (MEM_free debug p s)"
  by (simp add: MEM_free_def heap_frame_upd Let_def)

text \<open>A block the client holds: data at \<open>p\<close> for \<open>n\<close> bytes.\<close>

definition holds :: "'a heap_st_scheme \<Rightarrow> u16 list \<Rightarrow> ptr \<Rightarrow> u16 \<Rightarrow> bool" where
  "holds s hs p n \<longleftrightarrow> p \<noteq> NULL \<and> (p - 1, hmk (adjsize n)) \<in> set (live s hs)"

lemma MEM_alloc_client:
  assumes inv: "heap_inv s hs" and n: "unat n \<le> 65532"
  shows "\<exists>p s' hs'. MEM_alloc n s = Some (p, s') \<and> heap_frame s s' \<and> heap_inv s' hs'
    \<and> set (live s hs) \<subseteq> set (live s' hs') \<and> (p \<noteq> NULL \<longrightarrow> holds s' hs' p n) \<and> keeps s hs s'"
proof (cases "n = 0")
  case True
  then show ?thesis using inv keeps_refl [of s hs] by (auto simp: MEM_alloc_def)
next
  case False
  then obtain p s' hs' where a: "MEM_alloc n s = Some (p, s')" "alloc_post s hs (adjsize n) p s' hs'"
    using MEM_alloc_ok [OF inv _ n] by blast
  then have "heap_inv s' hs' \<and> set (live s hs) \<subseteq> set (live s' hs') \<and> (p \<noteq> NULL \<longrightarrow> holds s' hs' p n) \<and> keeps s hs s'"
    by (auto simp: alloc_post_def holds_def split: if_splits)
  then show ?thesis using a(1) MEM_alloc_heap_frame [OF a(1)] by blast
qed

lemma MEM_pack_client:
  assumes "heap_inv s hs"
  shows "\<exists>s' hs'. MEM_pack s = Some s' \<and> heap_frame s s' \<and> heap_inv s' hs' \<and> live s' hs' = live s hs \<and> keeps s hs s'"
  using MEM_pack_ok [OF assms] MEM_pack_heap_frame by blast

text \<open>A block owned alone covers its words, and no word of another block.\<close>

lemma holds_mono: "holds s hs p n \<Longrightarrow> set (live s hs) \<subseteq> set (live s' hs') \<Longrightarrow> holds s' hs' p n"
  by (auto simp: holds_def)

lemma holds_words: "unat n \<le> 65532 \<Longrightarrow> hadv (hmk (adjsize n)) = (unat n + 3) div 2"
  using mf.mk_adv [OF adjsize_free, of n] hadv_adjsize [of n] by simp

text \<open>Writing inside a block the client holds does not disturb the heap.\<close>

lemma holds_write:
  assumes "heap_inv s hs" "holds s hs p n" "unat n \<le> 65532"
    and "\<And>a. a \<notin> {p ..< p + (unat n + 1) div 2} \<Longrightarrow> m a = ram s a"
  shows "heap_inv (s\<lparr>ram := m\<rparr>) hs"
proof (rule heap_inv_data [OF assms(1), of "p - 1" "hmk (adjsize n)"])
  show "(p - 1, hmk (adjsize n)) \<in> set (live s hs)" using assms(2) by (simp add: holds_def)
  fix a
  assume "a \<notin> {p - 1 <..< p - 1 + hadv (hmk (adjsize n))}"
  then have "a \<notin> {p ..< p + (unat n + 1) div 2}"
    using assms(2) unfolding holds_words [OF assms(3)] by (auto simp: holds_def)
  then show "ram (s\<lparr>ram := m\<rparr>) a = ram s a" using assms(4) by simp
qed simp_all

section \<open>The allocator as an interface\<close>

text \<open>The data words of a block.\<close>

definition block_words :: "ptr \<times> u16 \<Rightarrow> nat set" where
  "block_words b = {fst b ..< fst b + (unat (snd b) + 1) div 2}"

text \<open>
  What a client of the allocator may rely on: \<open>valid A s\<close> says that the blocks \<open>A\<close> (address and
  size in bytes) are allocated in \<open>s\<close>; \<open>mem\<close> reads the memory and \<open>put\<close> replaces it.
\<close>

locale block_heap =
  fixes alloc :: "u16 \<Rightarrow> 's \<Rightarrow> (ptr \<times> 's) option"
    and release :: "ptr \<Rightarrow> 's \<Rightarrow> 's"
    and mem :: "'s \<Rightarrow> ram"
    and put :: "ram \<Rightarrow> 's \<Rightarrow> 's"
    and valid :: "(ptr \<times> u16) set \<Rightarrow> 's \<Rightarrow> bool"
  assumes alloc_law: "valid A s \<Longrightarrow> unat n \<le> 65532 \<Longrightarrow>
      \<exists>p s'. alloc n s = Some (p, s') \<and> valid (if p = NULL then A else insert (p, n) A) s'
        \<and> (p \<noteq> NULL \<longrightarrow> (p, n) \<notin> A) \<and> (\<forall>b \<in> A. \<forall>a \<in> block_words b. mem s' a = mem s a)"
    and release_law: "valid A s \<Longrightarrow> (p, n) \<in> A \<Longrightarrow> valid (A - {(p, n)}) (release p s)
        \<and> (\<forall>b \<in> A. \<forall>a \<in> block_words b. mem (release p s) a = mem s a)"
    and put_law: "valid A s \<Longrightarrow> (\<And>a. a \<notin> \<Union> (block_words ` A) \<Longrightarrow> m a = mem s a) \<Longrightarrow> valid A (put m s)"
    and mem_put: "mem (put m s) = m"
    and disjoint_law: "valid A s \<Longrightarrow> b \<in> A \<Longrightarrow> c \<in> A \<Longrightarrow> b \<noteq> c \<Longrightarrow> block_words b \<inter> block_words c = {}"
    and bounds_law: "valid A s \<Longrightarrow> b \<in> A \<Longrightarrow> 0 < fst b \<and> fst b + (unat (snd b) + 1) div 2 < 2 ^ 31"
begin

text \<open>A new block overlaps none of those held before.\<close>

lemma alloc_fresh:
  assumes "valid A s" "unat n \<le> 65532" "alloc n s = Some (p, s')" "p \<noteq> NULL" "b \<in> A"
  shows "block_words (p, n) \<inter> block_words b = {}"
proof -
  have "valid (insert (p, n) A) s'" "(p, n) \<notin> A" using alloc_law [OF assms(1,2)] assms(3,4) by auto
  then show ?thesis using disjoint_law assms(5) by blast
qed

text \<open>Writing inside blocks one holds keeps them, and the contents of all others.\<close>

lemma put_blocks:
  assumes "valid A s" "B \<subseteq> A" "\<And>a. a \<notin> \<Union> (block_words ` B) \<Longrightarrow> m a = mem s a"
  shows "valid A (put m s) \<and> (\<forall>c \<in> A - B. \<forall>a \<in> block_words c. mem (put m s) a = mem s a)"
proof -
  have "valid A (put m s)" using assms by (intro put_law) auto
  moreover have "mem (put m s) a = mem s a" if "c \<in> A - B" "a \<in> block_words c" for a c
    unfolding mem_put using that assms(2) disjoint_law [OF assms(1), of c] by (intro assms(3)) blast
  ultimately show ?thesis by blast
qed

text \<open>Releasing what was just allocated gives back the blocks there were.\<close>

lemma alloc_release:
  assumes "valid A s" "unat n \<le> 65532" "alloc n s = Some (p, s')" "p \<noteq> NULL"
  shows "valid A (release p s')"
proof -
  have v: "valid (insert (p, n) A) s'" "(p, n) \<notin> A" using alloc_law [OF assms(1,2)] assms(3,4) by auto
  then show ?thesis using release_law [OF v(1), of p n] by simp
qed

end

text \<open>The allocator of \<open>src/memory.c\<close> is such a heap, as long as it lies in the address space.\<close>

definition heap_valid :: "(ptr \<times> u16) set \<Rightarrow> 'a heap_st_scheme \<Rightarrow> bool" where
  "heap_valid A s \<longleftrightarrow> heapEnd s < 2 ^ 31 \<and> (\<exists>hs. heap_inv s hs \<and> owns s hs A)"

lemma owned_words:
  assumes "owns s hs A" "b \<in> A"
  shows "block_words b \<subseteq> cells hadv (live s hs)"
proof -
  obtain q z where q: "b = (q, z)" by fastforce
  have z: "unat z \<le> 65532" "q \<noteq> NULL" using assms q by (auto simp: owns_def)
  have "{q ..< q + (unat z + 1) div 2} \<subseteq> {q - 1 ..< q - 1 + hadv (hmk (adjsize z))}"
    unfolding holds_words [OF z(1)] using z(2) by auto
  moreover have "(q - 1, hmk (adjsize z)) \<in> set (live s hs)" using owns_in_live [OF assms(1)] assms(2) q by simp
  then have "{q - 1 ..< q - 1 + hadv (hmk (adjsize z))} \<subseteq> cells hadv (live s hs)" by (force simp: cells_def)
  ultimately show ?thesis unfolding q block_words_def fst_conv snd_conv by (rule subset_trans)
qed

lemma heap_valid_alloc:
  assumes "heap_valid A s" "unat n \<le> 65532"
  shows "\<exists>p s'. MEM_alloc n s = Some (p, s') \<and> heap_valid (if p = NULL then A else insert (p, n) A) s'
    \<and> (p \<noteq> NULL \<longrightarrow> (p, n) \<notin> A) \<and> (\<forall>b \<in> A. \<forall>a \<in> block_words b. ram s' a = ram s a)"
proof (cases "n = 0")
  case True
  then show ?thesis using assms by (auto simp: MEM_alloc_def)
next
  case False
  obtain hs where h: "heap_inv s hs" "owns s hs A" "heapEnd s < 2 ^ 31" using assms by (auto simp: heap_valid_def)
  obtain p s' hs' where a: "MEM_alloc n s = Some (p, s')" "alloc_post s hs (adjsize n) p s' hs'"
    using MEM_alloc_ok [OF h(1) False assms(2)] by blast
  then have k: "heap_inv s' hs'" "heapEnd s' = heapEnd s" "keeps s hs s'" by (auto simp: alloc_post_def keeps_def)
  have m: "\<forall>b \<in> A. \<forall>a \<in> block_words b. ram s' a = ram s a"
    using k(3) owned_words [OF h(2)] unfolding keeps_def by blast
  show ?thesis
  proof (cases "p = NULL")
    case True
    then have "owns s' hs' A" using a(2) h(2) by (simp add: alloc_post_def owns_def)
    then show ?thesis using a(1) True k h(3) m by (auto simp: heap_valid_def)
  next
    case p: False
    then obtain us vs where l: "live s hs = us @ vs" "live s' hs' = us @ (p - 1, hmk (adjsize n)) # vs"
      using a(2) by (auto simp: alloc_post_def)
    have "owns s' hs' (insert (p, n) A)" using owns_alloc [OF h(2) p False assms(2) k(1) l] .
    moreover have "(p, n) \<notin> A" using live_distinct [OF k(1)] l owns_in_live [OF h(2), of p n] by force
    ultimately show ?thesis using a(1) p k h(3) m by (auto simp: heap_valid_def)
  qed
qed

lemma heap_valid_free:
  assumes "heap_valid A s" "(p, n) \<in> A"
  shows "heap_valid (A - {(p, n)}) (MEM_free debug p s)
    \<and> (\<forall>b \<in> A. \<forall>a \<in> block_words b. ram (MEM_free debug p s) a = ram s a)"
proof -
  obtain hs where h: "heap_inv s hs" "owns s hs A" "heapEnd s < 2 ^ 31" using assms(1) by (auto simp: heap_valid_def)
  have p: "p \<noteq> NULL" "unat n \<le> 65532" using h(2) assms(2) by (auto simp: owns_def)
  obtain us vs hs' where f: "live s hs = us @ (p - 1, hmk (adjsize n)) # vs"
      "heap_inv (MEM_free debug p s) hs'" "live (MEM_free debug p s) hs' = us @ vs"
      "heapEnd (MEM_free debug p s) = heapEnd s" "ram (MEM_free debug p s) = (ram s)(p - 1 := hun (hmk (adjsize n)))"
    using MEM_free_ok [OF h(1) owns_in_live [OF h(2) assms(2)] p(1)] by metis
  have "owns (MEM_free debug p s) hs' (A - {(p, n)})" by (rule owns_free [OF h(2) assms(2) h(1) f(1,3)])
  moreover have "p - 1 \<notin> block_words b" if b: "b \<in> A" for b
  proof (cases "b = (p, n)")
    case True
    then show ?thesis using p(1) by (auto simp: block_words_def)
  next
    case False
    obtain q z where q: "b = (q, z)" by fastforce
    then show ?thesis using owns_disjoint [OF h(1,2) assms(2), of q z] b False p(1) by (fastforce simp: block_words_def)
  qed
  ultimately show ?thesis using f h(3) by (auto simp: heap_valid_def)
qed

lemma heap_valid_put:
  assumes "heap_valid A s" "\<And>a. a \<notin> \<Union> (block_words ` A) \<Longrightarrow> m a = ram s a"
  shows "heap_valid A (s\<lparr>ram := m\<rparr>)"
proof -
  obtain hs where h: "heap_inv s hs" "owns s hs A" "heapEnd s < 2 ^ 31" using assms(1) by (auto simp: heap_valid_def)
  have fin: "finite B" if "B \<subseteq> A" for B
  proof -
    have "set (live s hs) = (\<lambda>(p, sz). (p - 1 :: nat, hmk (adjsize sz))) ` A" using h(2) unfolding owns_def by blast
    then have "finite ((\<lambda>(p, sz). (p - 1 :: nat, hmk (adjsize sz))) ` A)" by (metis List.finite_set)
    moreover have "inj_on (\<lambda>(p, sz). (p - 1 :: nat, hmk (adjsize sz))) A"
      using owns_fst [OF h(2)] by (fastforce simp: inj_on_def)
    ultimately show ?thesis using finite_imageD finite_subset that by blast
  qed
  have "heap_inv (s\<lparr>ram := \<lambda>a. if a \<in> \<Union> (block_words ` B) then m a else ram s a\<rparr>) hs" if "B \<subseteq> A" for B
    using fin [OF that] that
  proof (induction B rule: finite_induct)
    case empty
    then show ?case using h(1) by simp
  next
    case (insert b B)
    obtain q z where q: "b = (q, z)" by fastforce
    have z: "unat z \<le> 65532" "q \<noteq> NULL" using h(2) insert.prems q by (auto simp: owns_def)
    let ?s = "s\<lparr>ram := \<lambda>a. if a \<in> \<Union> (block_words ` B) then m a else ram s a\<rparr>"
    have "heap_inv ?s hs" using insert by simp
    moreover have "holds ?s hs q z" using owns_in_live [OF h(2), of q z] insert.prems q z by (simp add: holds_def live_def)
    ultimately have "heap_inv (?s\<lparr>ram := \<lambda>a. if a \<in> \<Union> (block_words ` insert b B) then m a else ram s a\<rparr>) hs"
      by (rule holds_write) (auto simp: z q block_words_def)
    then show ?case by simp
  qed
  from this [of A] have "heap_inv (s\<lparr>ram := \<lambda>a. if a \<in> \<Union> (block_words ` A) then m a else ram s a\<rparr>) hs" by simp
  moreover have "(\<lambda>a. if a \<in> \<Union> (block_words ` A) then m a else ram s a) = m" using assms(2) by auto
  ultimately show ?thesis using h by (auto simp: heap_valid_def owns_def live_def)
qed

lemma heap_valid_block:
  assumes "heap_valid A s" "b \<in> A"
  shows "0 < fst b \<and> fst b + (unat (snd b) + 1) div 2 < 2 ^ 31"
proof -
  obtain hs where h: "heap_inv s hs" "owns s hs A" "heapEnd s < 2 ^ 31" using assms(1) by (auto simp: heap_valid_def)
  obtain q z where q: "b = (q, z)" by fastforce
  have z: "unat z \<le> 65532" "q \<noteq> NULL" using h(2) assms(2) q by (auto simp: owns_def)
  have "heapEnd s = heap s + blen hadv hs" using h(1) by (auto simp: heap_inv_def intro: cseq_end)
  moreover have "(q - 1, hmk (adjsize z)) \<in> set (live s hs)" using owns_in_live [OF h(2)] assms(2) q by simp
  ultimately have "q - 1 + (unat z + 3) div 2 \<le> heapEnd s"
    using ublk_bounds [of "q - 1" _ hused hadv "heap s" hs] holds_words [OF z(1)] by (fastforce simp: live_def)
  then show ?thesis using h(3) z(2) q by auto
qed

interpretation mh: block_heap MEM_alloc "MEM_free debug" ram "\<lambda>m s. s\<lparr>ram := m\<rparr>" heap_valid for debug
proof
  fix A and s :: "'a heap_st_scheme" and b c
  assume v: "heap_valid A s" "b \<in> A" "c \<in> A" "b \<noteq> c"
  then obtain hs where h: "heap_inv s hs" "owns s hs A" by (auto simp: heap_valid_def)
  have "{fst b - 1 ..< fst b + (unat (snd b) + 1) div 2} \<inter> {fst c - 1 ..< fst c + (unat (snd c) + 1) div 2} = {}"
    using owns_disjoint [OF h, of "fst b" "snd b" "fst c" "snd c"] v by simp
  moreover have "block_words b \<subseteq> {fst b - 1 ..< fst b + (unat (snd b) + 1) div 2}" for b
    by (auto simp: block_words_def)
  ultimately show "block_words b \<inter> block_words c = {}" by blast
qed (assumption | rule heap_valid_alloc heap_valid_free heap_valid_put heap_valid_block | simp)+

text \<open>
  The steps of a client that keeps at most one block behind a pointer: packing, releasing the block if
  there is one, allocating it. \<open>opt_block\<close> is the block, or nothing for NULL.
\<close>

definition opt_block :: "ptr \<Rightarrow> u16 \<Rightarrow> (ptr \<times> u16) set" where
  "opt_block p n = (if p = NULL then {} else {(p, n)})"

lemma heap_valid_cong:
  "ram s' = ram s \<Longrightarrow> free s' = free s \<Longrightarrow> heap s' = heap s \<Longrightarrow> heapEnd s' = heapEnd s \<Longrightarrow> needPack s' = needPack s \<Longrightarrow>
    heap_valid A s' = heap_valid A s"
  by (simp add: heap_valid_def heap_inv_def owns_def live_def)

lemma pack_step:
  assumes "heap_valid A s"
  shows "\<exists>s'. MEM_pack s = Some s' \<and> heap_frame s s' \<and> heap_valid A s' \<and> (\<forall>b \<in> A. \<forall>a \<in> block_words b. ram s' a = ram s a)"
proof -
  obtain hs where h: "heap_inv s hs" "owns s hs A" "heapEnd s < 2 ^ 31" using assms by (auto simp: heap_valid_def)
  obtain s' hs' where p: "MEM_pack s = Some s'" "heap_frame s s'" "heap_inv s' hs'" "live s' hs' = live s hs" "keeps s hs s'"
    using MEM_pack_client [OF h(1)] by blast
  have "owns s' hs' A" using h(2) p(4) by (simp add: owns_def)
  moreover have "heapEnd s' = heapEnd s" using p(5) by (simp add: keeps_def)
  ultimately have "heap_valid A s'" using p(3) h(3) by (auto simp: heap_valid_def)
  moreover have "\<forall>b \<in> A. \<forall>a \<in> block_words b. ram s' a = ram s a"
    using p(5) owned_words [OF h(2)] unfolding keeps_def by blast
  ultimately show ?thesis using p(1,2) by blast
qed

lemma free_step:
  assumes "heap_valid (A \<union> opt_block p n) s" "A \<inter> opt_block p n = {}" "s' = (if p \<noteq> NULL then MEM_free debug p s else s)"
  shows "heap_frame s s' \<and> heap_valid A s' \<and> (\<forall>b \<in> A. \<forall>a \<in> block_words b. ram s' a = ram s a)"
proof (cases "p = NULL")
  case False
  have "A \<union> opt_block p n - {(p, n)} = A" using assms(2) False by (auto simp: opt_block_def)
  then show ?thesis
    using mh.release_law [OF assms(1), of p n debug] False assms(3) MEM_free_heap_frame by (simp add: opt_block_def)
qed (use assms in \<open>simp add: opt_block_def\<close>)

lemma alloc_step:
  assumes "heap_valid A s" "unat n \<le> 65532"
  shows "\<exists>p s'. MEM_alloc n s = Some (p, s') \<and> heap_frame s s' \<and> heap_valid (A \<union> opt_block p n) s' \<and> A \<inter> opt_block p n = {}
    \<and> (\<forall>b \<in> A. \<forall>a \<in> block_words b. ram s' a = ram s a)"
proof -
  obtain p s' where a: "MEM_alloc n s = Some (p, s')" "heap_valid (if p = NULL then A else insert (p, n) A) s'"
      "p \<noteq> NULL \<longrightarrow> (p, n) \<notin> A" "\<forall>b \<in> A. \<forall>a \<in> block_words b. ram s' a = ram s a"
    using mh.alloc_law [OF assms] by blast
  then show ?thesis using MEM_alloc_heap_frame [OF a(1)]
    by (intro exI [of _ p] exI [of _ s']) (auto simp: opt_block_def split: if_splits)
qed

end
