(* ===== verification/Pool.thy ===== *)
theory Pool
  imports HeapClient
begin

text \<open>
  Object pools, \<open>src/pool.c\<close>. A pool is a structure in a heap block with pointers to two further
  blocks: the bank, where every object follows a word that holds its index, and the allocation
  stack, an array of pointers to the objects. The entries of the stack below \<open>free\<close> are the free
  objects, those from \<open>free\<close> on the allocated ones. The model keeps all of this in RAM.

  The abstract pool is the list of the objects in stack order together with the number of free
  ones. The lemmas show how each operation changes it, that the index word of every object is its
  position in the stack, and that a client can never be handed an object twice.
\<close>

section \<open>The structure\<close>

text \<open>Offsets, in words, of \<open>bank\<close>, \<open>allocStack\<close>, \<open>free\<close>, \<open>objectSize\<close> and \<open>size\<close> in \<open>Pool\<close>.\<close>

definition pool_bank :: "ptr \<Rightarrow> ram \<Rightarrow> ptr" where
  "pool_bank pool m = load_ptr pool m"

definition pool_allocStack :: "ptr \<Rightarrow> ram \<Rightarrow> ptr" where
  "pool_allocStack pool m = load_ptr (pool + 2) m"

definition pool_free :: "ptr \<Rightarrow> ram \<Rightarrow> ptr" where
  "pool_free pool m = load_ptr (pool + 4) m"

definition pool_objectSize :: "ptr \<Rightarrow> ram \<Rightarrow> u16" where
  "pool_objectSize pool m = m (pool + 6)"

definition pool_size :: "ptr \<Rightarrow> ram \<Rightarrow> u16" where
  "pool_size pool m = m (pool + 7)"

definition sizeof_Pool :: u16 where [cfg]: "sizeof_Pool = 16"

section \<open>Operations\<close>

text \<open>\<open>memset(p, 0, len)\<close> for an even address and length; \<open>len\<close> is a \<open>u16\<close>.\<close>

definition memset0 :: "ptr \<Rightarrow> u16 \<Rightarrow> ram \<Rightarrow> ram" where
  "memset0 p len m = (\<lambda>a. if p \<le> a \<and> a < p + unat len div 2 then 0 else m a)"

text \<open>
  The loop of \<open>POOL_reset\<close>, \<open>i\<close> turns: \<open>d\<close> walks over the bank, \<open>p\<close> over the stack. It returns
  the memory and the final \<open>p\<close>.
\<close>

fun POOL_reset_loop :: "nat \<Rightarrow> u16 \<Rightarrow> ptr \<Rightarrow> ptr \<Rightarrow> u16 \<Rightarrow> ram \<Rightarrow> ram \<times> ptr" where
  "POOL_reset_loop 0 ind d p os m = (m, p)"
| "POOL_reset_loop (Suc i) ind d p os m =
    (let m = m(d := ind);
         d = d + 1;
         m = store_ptr p d m
     in POOL_reset_loop i (ind + 1) (d + unat os) (p + 2) os m)"

definition POOL_reset :: "ptr \<Rightarrow> bool \<Rightarrow> ram \<Rightarrow> ram" where
  "POOL_reset pool clear m =
    (let m = (if clear then memset0 (pool_bank pool m) (pool_size pool m * (pool_objectSize pool m + 2)) m else m);
         os = drop_bit 1 (pool_objectSize pool m);
         (m, p) = POOL_reset_loop (unat (pool_size pool m)) 0 (pool_bank pool m) (pool_allocStack pool m) os m
     in store_ptr (pool + 4) p m)"

definition POOL_create ::
  "bool \<Rightarrow> u16 \<Rightarrow> u16 \<Rightarrow> 'a heap_st_scheme \<Rightarrow> (ptr \<times> 'a heap_st_scheme) option" where
  "POOL_create debug sz objectSize s =
    (let adjObjectSize = (objectSize + 1) AND 0xFFFE in do {
       (result, s) \<leftarrow> MEM_alloc sizeof_Pool s;
       if result = NULL then Some (NULL, s)
       else do {
         (bank, s) \<leftarrow> MEM_alloc (sz * (adjObjectSize + 2)) s;
         let s = s\<lparr>ram := store_ptr result bank (ram s)\<rparr>;
         if bank = NULL then Some (NULL, MEM_free debug result s)
         else do {
           (stack, s) \<leftarrow> MEM_alloc (sz * 4) s;
           let s = s\<lparr>ram := store_ptr (result + 2) stack (ram s)\<rparr>;
           if stack = NULL then
             Some (NULL, MEM_free debug result (MEM_free debug (pool_bank result (ram s)) s))
           else
             Some (result, s\<lparr>ram := POOL_reset result True
               ((ram s)(result + 7 := sz, result + 6 := adjObjectSize))\<rparr>)
         }
       }
     })"

definition POOL_destroy :: "bool \<Rightarrow> ptr \<Rightarrow> 'a heap_st_scheme \<Rightarrow> 'a heap_st_scheme" where
  "POOL_destroy debug pool s =
    (if pool \<noteq> NULL then
       (let s = (if pool_allocStack pool (ram s) \<noteq> NULL then
                   (let s = MEM_free debug (pool_allocStack pool (ram s)) s
                    in s\<lparr>ram := store_ptr (pool + 2) NULL (ram s)\<rparr>)
                 else s);
            s = (if pool_bank pool (ram s) \<noteq> NULL then
                   (let s = MEM_free debug (pool_bank pool (ram s)) s
                    in s\<lparr>ram := store_ptr pool NULL (ram s)\<rparr>)
                 else s)
        in MEM_free debug pool s)
     else s)"

definition POOL_allocate :: "ptr \<Rightarrow> ram \<Rightarrow> ptr \<times> ram" where
  "POOL_allocate pool m =
    (if pool_free pool m = pool_allocStack pool m then (NULL, m)
     else
       (let m = store_ptr (pool + 4) (pool_free pool m - 2) m
        in (load_ptr (pool_free pool m) m, m)))"

definition POOL_release :: "ptr \<Rightarrow> ptr \<Rightarrow> bool \<Rightarrow> ram \<Rightarrow> ram" where
  "POOL_release pool object maintainCoherency m =
    (let prevObject = load_ptr (pool_free pool m) m;
         m = store_ptr (pool_free pool m) object m;
         m = store_ptr (pool + 4) (pool_free pool m + 2) m
     in if maintainCoherency \<and> prevObject \<noteq> object then
          (let objectIndexP = object - 1;
               objectIndex = m objectIndexP;
               m = store_ptr (pool_allocStack pool m + 2 * unat objectIndex) prevObject m;
               prevObjectIndexP = prevObject - 1;
               prevObjectIndex = m prevObjectIndexP;
               m = m(prevObjectIndexP := objectIndex)
           in m(objectIndexP := prevObjectIndex))
        else m)"

text \<open>The difference of two \<open>void**\<close> counts pointers.\<close>

definition POOL_getFree :: "ptr \<Rightarrow> ram \<Rightarrow> u16" where
  "POOL_getFree pool m = of_int ((int (pool_free pool m) - int (pool_allocStack pool m)) div 2)"

definition POOL_getNumAllocated :: "ptr \<Rightarrow> ram \<Rightarrow> u16" where
  "POOL_getNumAllocated pool m = pool_size pool m - POOL_getFree pool m"

definition POOL_getFirst :: "ptr \<Rightarrow> ram \<Rightarrow> ptr" where
  "POOL_getFirst pool m = pool_free pool m"

fun POOL_find_loop :: "nat \<Rightarrow> ptr \<Rightarrow> ptr \<Rightarrow> ptr \<Rightarrow> ram \<Rightarrow> s16" where
  "POOL_find_loop 0 p pool object m = -1"
| "POOL_find_loop (Suc i) p pool object m =
    (if load_ptr p m = object
     then (pool_size pool m - 1) - of_int ((int p - int (pool_allocStack pool m)) div 2)
     else POOL_find_loop i (p + 2) pool object m)"

definition POOL_find :: "ptr \<Rightarrow> ptr \<Rightarrow> ram \<Rightarrow> s16" where
  "POOL_find pool object m =
    POOL_find_loop (unat (POOL_getNumAllocated pool m)) (pool_free pool m) pool object m"

lemmas pool_fields = pool_bank_def pool_allocStack_def pool_free_def pool_objectSize_def pool_size_def

section \<open>The abstract pool\<close>

text \<open>
  Where the parts of a pool are: the structure, the bank, the stack, the number of objects and the
  size of an object in words.
\<close>

record pgeo =
  g_pool :: ptr
  g_bank :: ptr
  g_stack :: ptr
  g_n :: nat
  g_w :: nat

definition obj_at :: "pgeo \<Rightarrow> nat \<Rightarrow> ptr" where
  "obj_at g k = g_bank g + 1 + k * (g_w g + 1)"

definition bank_words :: "pgeo \<Rightarrow> nat set" where
  "bank_words g = {g_bank g ..< g_bank g + g_n g * (g_w g + 1)}"

definition stack_words :: "pgeo \<Rightarrow> nat set" where
  "stack_words g = {g_stack g ..< g_stack g + 2 * g_n g}"

definition pool_words :: "pgeo \<Rightarrow> nat set" where
  "pool_words g = {g_pool g ..< g_pool g + 8}"

definition geo_ok :: "pgeo \<Rightarrow> bool" where
  "geo_ok g \<longleftrightarrow> 0 < g_bank g \<and> g_n g < 65536 \<and> g_w g < 32768 \<and>
     bank_words g \<inter> stack_words g = {} \<and> bank_words g \<inter> pool_words g = {} \<and> stack_words g \<inter> pool_words g = {} \<and>
     g_pool g + 8 < 2 ^ 31 \<and> g_bank g + g_n g * (g_w g + 1) < 2 ^ 31 \<and> g_stack g + 2 * g_n g < 2 ^ 31"

text \<open>
  The pool holds the objects \<open>xs\<close> in stack order, the first \<open>f\<close> of them free; every object of the
  bank is in the stack exactly once and its index word is its position.
\<close>

definition pool_hdr0 :: "pgeo \<Rightarrow> ram \<Rightarrow> bool" where
  "pool_hdr0 g m \<longleftrightarrow> pool_bank (g_pool g) m = g_bank g \<and> pool_allocStack (g_pool g) m = g_stack g \<and>
     pool_objectSize (g_pool g) m = of_nat (2 * g_w g) \<and> pool_size (g_pool g) m = of_nat (g_n g)"

definition pool_hdr :: "pgeo \<Rightarrow> nat \<Rightarrow> ram \<Rightarrow> bool" where
  "pool_hdr g f m \<longleftrightarrow> pool_hdr0 g m \<and> pool_free (g_pool g) m = g_stack g + 2 * f"

definition stack_rep :: "pgeo \<Rightarrow> ptr list \<Rightarrow> ram \<Rightarrow> bool" where
  "stack_rep g xs m \<longleftrightarrow> (\<forall>i < g_n g. load_ptr (g_stack g + 2 * i) m = xs ! i)"

definition index_rep :: "pgeo \<Rightarrow> ptr list \<Rightarrow> ram \<Rightarrow> bool" where
  "index_rep g xs m \<longleftrightarrow> (\<forall>i < g_n g. m (xs ! i - 1) = of_nat i)"

definition all_objs :: "pgeo \<Rightarrow> ptr list \<Rightarrow> bool" where
  "all_objs g xs \<longleftrightarrow> length xs = g_n g \<and> distinct xs \<and> set xs = obj_at g ` {..< g_n g}"

definition pool_inv :: "pgeo \<Rightarrow> nat \<Rightarrow> ptr list \<Rightarrow> ram \<Rightarrow> bool" where
  "pool_inv g f xs m \<longleftrightarrow>
     f \<le> g_n g \<and> pool_hdr g f m \<and> stack_rep g xs m \<and> index_rep g xs m \<and> all_objs g xs"

lemma obj_at_inj: "obj_at g j = obj_at g k \<longleftrightarrow> j = k"
  by (simp only: obj_at_def add_left_cancel mult_cancel2) simp

lemma obj_at_words:
  assumes "k < g_n g" "j \<le> g_w g"
  shows "obj_at g k - 1 + j \<in> bank_words g"
proof -
  have "k * (g_w g + 1) + j < (k + 1) * (g_w g + 1)" using assms(2) by simp
  also have "\<dots> \<le> g_n g * (g_w g + 1)" using assms(1) by (intro mult_le_mono1) simp
  finally show ?thesis by (simp add: obj_at_def bank_words_def)
qed

lemma all_objs_obj:
  assumes "all_objs g xs" "x \<in> set xs"
  shows "x - 1 \<in> bank_words g" "0 < x" "geo_ok g \<Longrightarrow> x < 2 ^ 31"
proof -
  obtain k where k: "k < g_n g" "x = obj_at g k" using assms by (auto simp: all_objs_def)
  show b: "x - 1 \<in> bank_words g" using obj_at_words [of k g 0] k by simp
  show "0 < x" using k(2) by (simp add: obj_at_def)
  show "x < 2 ^ 31" if "geo_ok g"
  proof -
    have "x - 1 < g_bank g + g_n g * (g_w g + 1)" using b by (simp add: bank_words_def)
    then show ?thesis using that unfolding geo_ok_def by linarith
  qed
qed

lemma words_disjoint:
  assumes "geo_ok g"
  shows "a \<in> bank_words g \<Longrightarrow> a \<notin> stack_words g" "a \<in> bank_words g \<Longrightarrow> a \<notin> pool_words g"
    "a \<in> stack_words g \<Longrightarrow> a \<notin> pool_words g" "a \<in> stack_words g \<Longrightarrow> a \<notin> bank_words g"
    "a \<in> pool_words g \<Longrightarrow> a \<notin> bank_words g" "a \<in> pool_words g \<Longrightarrow> a \<notin> stack_words g"
  using assms by (auto simp: geo_ok_def)

lemma stack_word: "i < g_n g \<Longrightarrow> g_stack g + 2 * i \<in> stack_words g" "i < g_n g \<Longrightarrow> g_stack g + 2 * i + 1 \<in> stack_words g"
  by (simp_all add: stack_words_def)

lemma pool_word: "g_pool g + 4 \<in> pool_words g" "g_pool g + 4 + 1 \<in> pool_words g"
  by (simp_all add: pool_words_def)

section \<open>Effects of single writes\<close>

lemma hdr0_cong: "pool_hdr0 g m \<Longrightarrow> (\<And>a. a \<in> pool_words g \<Longrightarrow> m' a = m a) \<Longrightarrow> pool_hdr0 g m'"
  by (simp add: pool_hdr0_def pool_fields pool_words_def load_ptr_def load32_def)

lemma hdr_cong: "pool_hdr g f m \<Longrightarrow> (\<And>a. a \<in> pool_words g \<Longrightarrow> m' a = m a) \<Longrightarrow> pool_hdr g f m'"
  by (simp add: pool_hdr_def pool_hdr0_def pool_fields pool_words_def load_ptr_def load32_def)

lemma stack_cong: "stack_rep g xs m \<Longrightarrow> (\<And>a. a \<in> stack_words g \<Longrightarrow> m' a = m a) \<Longrightarrow> stack_rep g xs m'"
  using stack_word by (simp add: stack_rep_def load_ptr_def load32_def)

lemma index_cong:
  assumes "index_rep g xs m" "all_objs g xs" "\<And>a. a \<in> bank_words g \<Longrightarrow> m' a = m a"
  shows "index_rep g xs m'"
proof -
  have "xs ! i - 1 \<in> bank_words g" if "i < g_n g" for i
    using that assms(2) by (intro all_objs_obj(1) [OF assms(2)] nth_mem) (simp add: all_objs_def)
  then show ?thesis using assms(1,3) by (simp add: index_rep_def)
qed

lemma hdr_free:
  assumes "pool_hdr0 g m" "g_stack g + 2 * f' < 2 ^ 31"
  shows "pool_hdr g f' (store_ptr (g_pool g + 4) (g_stack g + 2 * f') m)"
proof -
  let ?m = "store_ptr (g_pool g + 4) (g_stack g + 2 * f') m"
  have "load_ptr (g_pool g + 4) ?m = g_stack g + 2 * f'" using assms(2) by (rule load_store_ptr)
  moreover have "load_ptr (g_pool g) ?m = load_ptr (g_pool g) m" "load_ptr (g_pool g + 2) ?m = load_ptr (g_pool g + 2) m"
    by (rule load_ptr_cong; simp)+
  ultimately show ?thesis using assms(1) by (simp add: pool_hdr_def pool_hdr0_def pool_fields)
qed

lemma stack_store:
  assumes "stack_rep g xs m" "length xs = g_n g" "i < g_n g" "v < 2 ^ 31"
  shows "stack_rep g (xs[i := v]) (store_ptr (g_stack g + 2 * i) v m)"
proof -
  have "load_ptr (g_stack g + 2 * j) (store_ptr (g_stack g + 2 * i) v m) = xs[i := v] ! j" if "j < g_n g" for j
  proof (cases "j = i")
    case True
    then show ?thesis using assms by simp
  next
    case False
    then have "load_ptr (g_stack g + 2 * j) (store_ptr (g_stack g + 2 * i) v m) = load_ptr (g_stack g + 2 * j) m"
      by (intro load_ptr_cong store_ptr_other) presburger+
    then show ?thesis using assms that False by (simp add: stack_rep_def)
  qed
  then show ?thesis by (simp add: stack_rep_def)
qed

lemma store_outside: "p \<notin> W \<Longrightarrow> p + 1 \<notin> W \<Longrightarrow> a \<in> W \<Longrightarrow> store_ptr p v m a = m a"
  by (auto intro!: store_ptr_other)

section \<open>Allocation\<close>

lemma POOL_allocate_ok:
  assumes inv: "pool_inv g f xs m" and g: "geo_ok g"
  shows "if f = 0 then POOL_allocate (g_pool g) m = (NULL, m)
    else \<exists>m'. POOL_allocate (g_pool g) m = (xs ! (f - 1), m') \<and> pool_inv g (f - 1) xs m'
      \<and> (\<forall>a. a \<notin> pool_words g \<longrightarrow> m' a = m a)"
proof (cases "f = 0")
  case True
  then show ?thesis using inv by (simp add: pool_inv_def pool_hdr_def pool_hdr0_def POOL_allocate_def)
next
  case False
  let ?m = "store_ptr (g_pool g + 4) (g_stack g + 2 * (f - 1)) m"
  have h: "pool_hdr g f m" "f \<le> g_n g" "stack_rep g xs m" "index_rep g xs m" "all_objs g xs"
    using inv by (simp_all add: pool_inv_def)
  have b: "g_stack g + 2 * (f - 1) < 2 ^ 31" using g h(2) unfolding geo_ok_def by linarith
  have o: "?m a = m a" if "a \<notin> pool_words g" for a
    using that pool_word [of g] by (intro store_ptr_other) auto
  have h': "pool_hdr g (f - 1) ?m" using hdr_free [OF _ b] h(1) by (simp only: pool_hdr_def)
  moreover have st: "stack_rep g xs ?m" using h(3) by (rule stack_cong) (use o words_disjoint [OF g] in blast)
  moreover have "index_rep g xs ?m" using h(4,5) by (rule index_cong) (use o words_disjoint [OF g] in blast)
  ultimately have "pool_inv g (f - 1) xs ?m" using h by (simp add: pool_inv_def)
  moreover have "load_ptr (g_stack g + 2 * (f - 1)) ?m = xs ! (f - 1)" using st False h(2) by (simp add: stack_rep_def)
  moreover have "g_stack g + 2 * f - 2 = g_stack g + 2 * (f - 1)" using False by simp
  ultimately show ?thesis
    using False h(1) h' o by (simp add: POOL_allocate_def pool_hdr_def pool_hdr0_def Let_def)
qed

section \<open>Release\<close>

definition swapped :: "nat \<Rightarrow> nat \<Rightarrow> 'a list \<Rightarrow> 'a list" where
  "swapped f k xs = xs[f := xs ! k, k := xs ! f]"

lemma swapped_same [simp]: "swapped f f xs = xs"
  by (simp add: swapped_def)

lemma length_swapped [simp]: "length (swapped f k xs) = length xs"
  by (simp add: swapped_def)

lemma swapped_nth:
  "f < length xs \<Longrightarrow> k < length xs \<Longrightarrow> i < length xs \<Longrightarrow>
    swapped f k xs ! i = (if i = k then xs ! f else if i = f then xs ! k else xs ! i)"
  by (simp add: swapped_def nth_list_update)

lemma swapped_objs:
  assumes "all_objs g xs" "f < g_n g" "k < g_n g"
  shows "all_objs g (swapped f k xs)"
  using assms by (simp add: all_objs_def swapped_def distinct_swap set_swap)

lemma swapped_take: "f \<le> k \<Longrightarrow> k < length xs \<Longrightarrow> take (f + 1) (swapped f k xs) = take f xs @ [xs ! k]"
  by (rule nth_equalityI) (auto simp: swapped_nth nth_append less_Suc_eq)

lemma swapped_drop:
  assumes "f \<le> k" "k < length xs" "distinct xs"
  shows "set (drop (f + 1) (swapped f k xs)) = set (drop f xs) - {xs ! k}"
proof -
  let ?ys = "swapped f k xs"
  have f: "f < length xs" using assms by simp
  have d: "distinct ?ys" "set ?ys = set xs"
    using f assms by (simp_all add: swapped_def distinct_swap set_swap)
  have "set (drop (f + 1) ?ys) = set ?ys - set (take (f + 1) ?ys)"
    using d(1) by (metis append_take_drop_id distinct_append Un_Diff set_append Diff_cancel Un_empty_left Diff_triv inf_commute)
  also have "\<dots> = set xs - insert (xs ! k) (set (take f xs))"
    using swapped_take [OF assms(1,2)] d(2) by simp
  also have "\<dots> = set (drop f xs) - {xs ! k}"
    using assms(3) set_take_disj_set_drop_if_distinct [of xs f f] append_take_drop_id [of f xs]
    by (metis (no_types, lifting) Diff_insert Diff_insert2 Un_Diff set_append Diff_cancel Un_empty_left Diff_triv inf_commute order_refl)
  finally show ?thesis .
qed

lemma POOL_release_ok:
  assumes inv: "pool_inv g f xs m" and g: "geo_ok g" and k: "f \<le> k" "k < g_n g"
  shows "pool_inv g (f + 1) (swapped f k xs) (POOL_release (g_pool g) (xs ! k) True m)
    \<and> (\<forall>a. a \<notin> pool_words g \<union> stack_words g \<union> (\<lambda>x. x - 1) ` set xs \<longrightarrow>
         POOL_release (g_pool g) (xs ! k) True m a = m a)"
proof -
  let ?x = "xs ! k" and ?p = "xs ! f"
  have h: "pool_hdr g f m" "f < g_n g" "stack_rep g xs m" "index_rep g xs m" "all_objs g xs"
    using inv k by (simp_all add: pool_inv_def)
  have len: "length xs = g_n g" and di: "distinct xs" using h(5) by (simp_all add: all_objs_def)
  have mem: "?x \<in> set xs" "?p \<in> set xs" using len k h(2) by simp_all
  note ob = all_objs_obj [OF h(5)]
  define m1 where "m1 = store_ptr (g_stack g + 2 * f) ?x m"
  define m2 where "m2 = store_ptr (g_pool g + 4) (g_stack g + 2 * (f + 1)) m1"
  have b: "g_stack g + 2 * (f + 1) < 2 ^ 31" using g h(2) by (simp add: geo_ok_def)
  have o1: "m1 a = m a" if "a \<notin> stack_words g" for a
    using that stack_word [OF h(2)] unfolding m1_def by (intro store_ptr_other) auto
  have o2: "m2 a = m1 a" if "a \<notin> pool_words g" for a
    using that pool_word [of g] unfolding m2_def by (intro store_ptr_other) auto
  have h1: "pool_hdr g f m1" using h(1) by (rule hdr_cong) (use o1 words_disjoint [OF g] in blast)
  have h2: "pool_hdr g (f + 1) m2" unfolding m2_def using hdr_free [OF _ b] h1 by (simp only: pool_hdr_def)
  have st1: "stack_rep g (xs[f := ?x]) m1"
    unfolding m1_def by (rule stack_store [OF h(3) len h(2)]) (use ob(3) [OF mem(1)] g in blast)
  have st2: "stack_rep g (xs[f := ?x]) m2" using st1 by (rule stack_cong) (use o2 words_disjoint [OF g] in blast)
  have ix2: "m2 a = m a" if "a \<in> bank_words g" for a using o1 o2 that words_disjoint [OF g] by metis
  have prev: "load_ptr (g_stack g + 2 * f) m = ?p" using h(2,3) by (simp add: stack_rep_def)
  have hd: "pool_free (g_pool g) m = g_stack g + 2 * f" "pool_free (g_pool g) m1 = g_stack g + 2 * f"
    using h(1) h1 by (simp_all add: pool_hdr_def pool_hdr0_def)
  have m2_eq: "m2 = store_ptr (g_pool g + 4) (g_stack g + 2 * f + 2) m1" by (simp add: m2_def)
  have hd3: "pool_allocStack (g_pool g) m2 = g_stack g" using h2 by (simp add: pool_hdr_def pool_hdr0_def)
  have rel: "POOL_release (g_pool g) ?x True m =
      (if ?p \<noteq> ?x then
         (let oi = m2 (?x - 1); m3 = store_ptr (g_stack g + 2 * unat oi) ?p m2; pi = m3 (?p - 1)
          in m3(?p - 1 := oi, ?x - 1 := pi))
       else m2)"
    unfolding POOL_release_def Let_def hd(1) prev m1_def [symmetric] hd(2) m2_eq [symmetric] hd3 by simp
  have sub: "x - 1 \<in> (\<lambda>x. x - 1) ` set xs" if "x \<in> set xs" for x using that by simp
  show ?thesis
  proof (cases "?p = ?x")
    case True
    then have kf: "k = f" using di k h(2) len by (simp add: nth_eq_iff_index_eq)
    have "index_rep g xs m2" using h(4,5) ix2 by (rule index_cong)
    then have "pool_inv g (f + 1) (swapped f k xs) m2" using h h2 st2 kf by (simp add: pool_inv_def)
    moreover have "POOL_release (g_pool g) ?x True m = m2" unfolding rel using True by (simp only: if_False not_True_eq_False refl)
    moreover have "m2 a = m a" if "a \<notin> pool_words g \<union> stack_words g" for a using that o1 o2 by (metis UnCI)
    ultimately show ?thesis by blast
  next
    case False
    then have kf: "k \<noteq> f" by auto
    have oi: "m2 (?x - 1) = of_nat k" using ix2 [OF ob(1) [OF mem(1)]] h(4) k(2) by (simp add: index_rep_def)
    have uk: "unat (of_nat k :: u16) = k" using k(2) g by (simp add: geo_ok_def unat_of_nat)
    define m3 where "m3 = store_ptr (g_stack g + 2 * k) ?p m2"
    have o3: "m3 a = m2 a" if "a \<notin> stack_words g" for a
      using that stack_word [OF k(2)] unfolding m3_def by (intro store_ptr_other) auto
    have o32: "m3 a = m a" if "a \<in> bank_words g" for a
      using o3 [OF words_disjoint(1) [OF g that]] ix2 [OF that] by (rule trans)
    have ix3: "m3 (xs ! i - 1) = of_nat i" if "i < g_n g" for i
    proof -
      have "xs ! i \<in> set xs" using that len by simp
      from o32 [OF ob(1) [OF this]] show ?thesis using h(4) that by (simp add: index_rep_def)
    qed
    have pi: "m3 (?p - 1) = of_nat f" by (rule ix3 [OF h(2)])
    let ?m5 = "m3(?p - 1 := of_nat k, ?x - 1 := of_nat f)"
    have rel': "POOL_release (g_pool g) ?x True m = ?m5" using rel False oi uk pi by (simp add: m3_def Let_def)
    have o5: "?m5 a = m3 a" if "a \<notin> bank_words g" for a using that ob(1) [OF mem(1)] ob(1) [OF mem(2)] by auto
    have "pool_hdr g (f + 1) ?m5" using h2 by (rule hdr_cong) (use o5 o3 words_disjoint [OF g] in metis)
    moreover have "stack_rep g (swapped f k xs) ?m5"
    proof -
      have "stack_rep g (xs[f := ?x, k := ?p]) m3"
        unfolding m3_def by (rule stack_store [OF st2]) (use len k(2) ob(3) [OF mem(2)] g in simp_all)
      then show ?thesis unfolding swapped_def by (rule stack_cong) (use o5 words_disjoint [OF g] in metis)
    qed
    moreover have "index_rep g (swapped f k xs) ?m5"
    proof -
      have "?m5 (swapped f k xs ! i - 1) = of_nat i" if i: "i < g_n g" for i
      proof -
        have ne: "xs ! i - 1 \<noteq> ?x - 1 \<and> xs ! i - 1 \<noteq> ?p - 1" if "i \<noteq> f" "i \<noteq> k"
          using that i k h(2) len di ob(2) [OF nth_mem, of i] ob(2) [OF mem(1)] ob(2) [OF mem(2)]
          by (metis One_nat_def Suc_pred nth_eq_iff_index_eq)
        have "m3 (xs ! i - 1) = of_nat i" by (rule ix3 [OF i])
        moreover have "?p - 1 \<noteq> ?x - 1" using False ob(2) [OF mem(1)] ob(2) [OF mem(2)] by (metis One_nat_def Suc_pred)
        ultimately show ?thesis using ne i len h(2) k(2) by (simp add: swapped_nth)
      qed
      then show ?thesis by (simp add: index_rep_def)
    qed
    ultimately have "pool_inv g (f + 1) (swapped f k xs) ?m5"
      using h(2,5) k(2) swapped_objs by (simp add: pool_inv_def)
    moreover have "?m5 a = m a" if "a \<notin> pool_words g \<union> stack_words g \<union> (\<lambda>x. x - 1) ` set xs" for a
      using that sub [OF mem(1)] sub [OF mem(2)] o1 o2 o3 by auto
    ultimately show ?thesis using rel' by simp
  qed
qed

section \<open>Reset\<close>

lemma POOL_reset_loop_ok:
  assumes g: "geo_ok g"
  shows "j + i = g_n g \<Longrightarrow>
    \<exists>m'. POOL_reset_loop i (of_nat j) (g_bank g + j * (g_w g + 1)) (g_stack g + 2 * j) (of_nat (g_w g)) m
        = (m', g_stack g + 2 * g_n g)
      \<and> (\<forall>k. j \<le> k \<and> k < g_n g \<longrightarrow> load_ptr (g_stack g + 2 * k) m' = obj_at g k \<and> m' (obj_at g k - 1) = of_nat k)
      \<and> (\<forall>a. a \<notin> {g_stack g + 2 * j ..< g_stack g + 2 * g_n g} \<union> (\<lambda>k. obj_at g k - 1) ` {j ..< g_n g} \<longrightarrow> m' a = m a)"
proof (induction i arbitrary: j m)
  case 0
  then show ?case by auto
next
  case (Suc i)
  let ?d = "g_bank g + j * (g_w g + 1)" and ?p = "g_stack g + 2 * j"
  let ?m = "store_ptr ?p (?d + 1) (m(?d := of_nat j))"
  have j: "j < g_n g" using Suc.prems by simp
  have u: "unat (of_nat (g_w g) :: u16) = g_w g" using g by (simp add: geo_ok_def unat_of_nat)
  have d: "?d + 1 = obj_at g j" "?d = obj_at g j - 1" by (simp_all add: obj_at_def)
  have dw: "?d \<in> bank_words g" using obj_at_words [OF j, of 0] d by simp
  have lt: "?d + 1 < 2 ^ 31" using g dw unfolding geo_ok_def bank_words_def by (auto simp: algebra_simps)
  have n: "?d + 1 + g_w g = g_bank g + (j + 1) * (g_w g + 1)" by simp
  obtain m' where e: "POOL_reset_loop i (of_nat (j + 1)) (g_bank g + (j + 1) * (g_w g + 1)) (g_stack g + 2 * (j + 1)) (of_nat (g_w g)) ?m
        = (m', g_stack g + 2 * g_n g)"
      "\<And>k. j + 1 \<le> k \<Longrightarrow> k < g_n g \<Longrightarrow> load_ptr (g_stack g + 2 * k) m' = obj_at g k \<and> m' (obj_at g k - 1) = of_nat k"
      "\<And>a. a \<notin> {g_stack g + 2 * (j + 1) ..< g_stack g + 2 * g_n g} \<union> (\<lambda>k. obj_at g k - 1) ` {j + 1 ..< g_n g} \<Longrightarrow> m' a = ?m a"
    using Suc.IH [of "j + 1" ?m] Suc.prems by auto
  have ib: "(\<lambda>k. obj_at g k - 1) ` {i ..< g_n g} \<subseteq> bank_words g" for i using obj_at_words [of _ g 0] by fastforce
  have ps: "?p \<in> stack_words g" "?p + 1 \<in> stack_words g" using stack_word [OF j] by simp_all
  have pb: "?p \<notin> bank_words g" "?p + 1 \<notin> bank_words g" using ps words_disjoint(4) [OF g] by blast+
  have keep: "m' a = ?m a" if "a \<in> {?p, ?p + 1, ?d}" for a
  proof (rule e(3))
    have sd: "?d \<notin> stack_words g" using dw words_disjoint(1) [OF g] by blast
    have dj: "?d \<notin> (\<lambda>k. obj_at g k - 1) ` {j + 1 ..< g_n g}"
      unfolding d(2) by (auto simp: obj_at_def simp del: mult_Suc_right)
    show "a \<notin> {g_stack g + 2 * (j + 1) ..< g_stack g + 2 * g_n g} \<union> (\<lambda>k. obj_at g k - 1) ` {j + 1 ..< g_n g}"
      using that sd pb ib [of "j + 1"] dj by (auto simp: stack_words_def)
  qed
  have "load_ptr ?p m' = load_ptr ?p ?m" using keep by (intro load_ptr_cong) simp_all
  also have "\<dots> = obj_at g j" using lt d(1) by simp
  finally have r1: "load_ptr (g_stack g + 2 * j) m' = obj_at g j" .
  have "?d \<noteq> ?p" "?d \<noteq> ?p + 1" using dw pb by metis+
  then have r2: "m' (obj_at g j - 1) = of_nat j" using keep [of ?d] d(2) by simp
  have "m' a = m a" if "a \<notin> {g_stack g + 2 * j ..< g_stack g + 2 * g_n g} \<union> (\<lambda>k. obj_at g k - 1) ` {j ..< g_n g}" for a
  proof -
    have "m' a = ?m a" using that by (intro e(3)) auto
    moreover have "a \<noteq> ?p" "a \<noteq> ?p + 1" using that j by auto
    moreover have "a \<noteq> ?d" using that j unfolding d(2) by auto
    ultimately show ?thesis by simp
  qed
  moreover have "load_ptr (g_stack g + 2 * k) m' = obj_at g k \<and> m' (obj_at g k - 1) = of_nat k"
    if "j \<le> k" "k < g_n g" for k
    using that r1 r2 e(2) [of k] by (cases "k = j") auto
  moreover have "POOL_reset_loop (Suc i) (of_nat j) ?d ?p (of_nat (g_w g)) m = (m', g_stack g + 2 * g_n g)"
    using e(1) u by (simp add: Let_def ac_simps)
  ultimately show ?case by (intro exI [of _ m']) blast
qed

lemma all_objs_initial: "all_objs g (map (obj_at g) [0 ..< g_n g])"
  by (auto simp: all_objs_def distinct_map inj_on_def obj_at_inj)

lemma unat_mult_le: "unat ((a :: 'a::len word) * b) \<le> unat a * unat b"
  by (simp add: unat_word_ariths)

lemma obj_data:
  assumes "k < g_n g" "i < g_w g"
  shows "obj_at g k + i \<in> bank_words g" "obj_at g k + i \<noteq> obj_at g l - 1"
proof -
  show "obj_at g k + i \<in> bank_words g" using obj_at_words [OF assms(1), of "i + 1"] assms(2) by (simp add: obj_at_def)
  have "(k * (g_w g + 1) + (i + 1)) mod (g_w g + 1) = (i + 1) mod (g_w g + 1)" by (rule mod_mult_self3)
  also have "\<dots> = i + 1" using assms(2) by (intro mod_less) simp
  finally have "(k * (g_w g + 1) + (i + 1)) mod (g_w g + 1) = i + 1" .
  moreover have "(l * (g_w g + 1)) mod (g_w g + 1) = 0" by (rule mod_mult_self2_is_0)
  ultimately have "k * (g_w g + 1) + (i + 1) \<noteq> l * (g_w g + 1)" by (metis add_is_0 one_neq_zero)
  then show "obj_at g k + i \<noteq> obj_at g l - 1" by (simp add: obj_at_def del: mult_Suc_right)
qed

lemma len_exact:
  assumes "n < 65536" "v < 32768" "n * (2 * v + 2) < (65536 :: nat)"
  shows "unat (of_nat n * (of_nat (2 * v) + 2) :: u16) = n * (2 * v + 2)"
proof -
  have "(of_nat n * (of_nat (2 * v) + 2) :: u16) = of_nat (n * (2 * v + 2))" by (simp add: algebra_simps)
  then show ?thesis using assms(3) by (simp only: unat_of_nat) simp
qed

lemma POOL_reset_ok:
  assumes g: "geo_ok g" and h: "pool_hdr0 g m"
  shows "pool_inv g (g_n g) (map (obj_at g) [0 ..< g_n g]) (POOL_reset (g_pool g) clear m)
    \<and> (\<forall>a. a \<notin> pool_words g \<union> stack_words g \<union> bank_words g \<longrightarrow> POOL_reset (g_pool g) clear m a = m a)
    \<and> (clear \<and> g_n g * (2 * g_w g + 2) < 65536 \<longrightarrow>
         (\<forall>k < g_n g. \<forall>i < g_w g. POOL_reset (g_pool g) clear m (obj_at g k + i) = 0))"
proof -
  let ?len = "pool_size (g_pool g) m * (pool_objectSize (g_pool g) m + 2)"
  define m1 where "m1 = (if clear then memset0 (pool_bank (g_pool g) m) ?len m else m)"
  have fl: "pool_bank (g_pool g) m = g_bank g" "pool_allocStack (g_pool g) m = g_stack g"
      "pool_objectSize (g_pool g) m = of_nat (2 * g_w g)" "pool_size (g_pool g) m = of_nat (g_n g)"
    using h by (simp_all add: pool_hdr_def pool_hdr0_def)
  have un: "unat (of_nat (g_n g) :: u16) = g_n g" "unat (of_nat (2 * g_w g) :: u16) = 2 * g_w g"
    using g by (simp_all only: geo_ok_def unat_of_nat) simp_all
  have "unat (of_nat (2 * g_w g) + 2 :: u16) \<le> 2 * g_w g + 2" using un(2) by (simp add: unat_word_ariths)
  then have "g_n g * unat (of_nat (2 * g_w g) + 2 :: u16) \<le> g_n g * (2 * g_w g + 2)" by (rule mult_le_mono2)
  with unat_mult_le [of "of_nat (g_n g) :: u16" "of_nat (2 * g_w g) + 2"]
  have "unat ?len \<le> g_n g * (2 * g_w g + 2)" unfolding fl un(1) by (rule le_trans)
  then have len: "unat ?len div 2 \<le> g_n g * (g_w g + 1)" by (simp add: algebra_simps)
  have o1: "m1 a = m a" if "a \<notin> bank_words g" for a
    using that len unfolding m1_def memset0_def fl bank_words_def by auto
  have h1: "pool_hdr0 g m1" using h by (rule hdr0_cong) (use o1 words_disjoint [OF g] in blast)
  then have fl1: "pool_bank (g_pool g) m1 = g_bank g" "pool_allocStack (g_pool g) m1 = g_stack g"
      "pool_objectSize (g_pool g) m1 = of_nat (2 * g_w g)" "pool_size (g_pool g) m1 = of_nat (g_n g)"
    by (simp_all add: pool_hdr_def pool_hdr0_def)
  have os: "drop_bit 1 (of_nat (2 * g_w g) :: u16) = of_nat (g_w g)"
  proof -
    have "unat (drop_bit 1 (of_nat (2 * g_w g) :: u16)) = g_w g" by (simp only: unat_drop_bit1 un(2))
    moreover have "unat (of_nat (g_w g) :: u16) = g_w g" using g by (simp add: geo_ok_def unat_of_nat)
    ultimately show ?thesis by (metis unsigned_word_eqI)
  qed
  obtain m2 where l: "POOL_reset_loop (g_n g) 0 (g_bank g) (g_stack g) (of_nat (g_w g)) m1 = (m2, g_stack g + 2 * g_n g)"
      "\<And>k. k < g_n g \<Longrightarrow> load_ptr (g_stack g + 2 * k) m2 = obj_at g k \<and> m2 (obj_at g k - 1) = of_nat k"
      "\<And>a. a \<notin> stack_words g \<union> (\<lambda>k. obj_at g k - 1) ` {0 ..< g_n g} \<Longrightarrow> m2 a = m1 a"
    using POOL_reset_loop_ok [OF g, of 0 "g_n g" m1] unfolding stack_words_def by auto
  have ib: "(\<lambda>k. obj_at g k - 1) ` {0 ..< g_n g} \<subseteq> bank_words g" using obj_at_words [of _ g 0] by fastforce
  define m3 where "m3 = store_ptr (g_pool g + 4) (g_stack g + 2 * g_n g) m2"
  have r: "POOL_reset (g_pool g) clear m = m3"
    unfolding POOL_reset_def Let_def m1_def [symmetric] fl1 os un(1) l(1) m3_def by simp
  have o3: "m3 a = m2 a" if "a \<notin> pool_words g" for a
    using that pool_word [of g] unfolding m3_def by (intro store_ptr_other) auto
  have l3: "m2 a = m1 a" if "a \<notin> stack_words g \<union> bank_words g" for a using that ib by (intro l(3)) blast
  have "pool_hdr0 g m2" using h1 by (rule hdr0_cong) (use l3 words_disjoint [OF g] in blast)
  then have "pool_hdr g (g_n g) m3" unfolding m3_def by (rule hdr_free) (use g in \<open>simp add: geo_ok_def\<close>)
  moreover have "stack_rep g (map (obj_at g) [0 ..< g_n g]) m3"
  proof -
    have "stack_rep g (map (obj_at g) [0 ..< g_n g]) m2" using l(2) by (simp add: stack_rep_def)
    then show ?thesis by (rule stack_cong) (use o3 words_disjoint [OF g] in blast)
  qed
  moreover have "index_rep g (map (obj_at g) [0 ..< g_n g]) m3"
  proof -
    have "index_rep g (map (obj_at g) [0 ..< g_n g]) m2" using l(2) by (simp add: index_rep_def)
    then show ?thesis by (rule index_cong [OF _ all_objs_initial]) (use o3 words_disjoint [OF g] in blast)
  qed
  ultimately have "pool_inv g (g_n g) (map (obj_at g) [0 ..< g_n g]) m3"
    using all_objs_initial by (simp add: pool_inv_def)
  moreover have "m3 (obj_at g k + i) = 0" if c: "clear" "g_n g * (2 * g_w g + 2) < 65536" and k: "k < g_n g" "i < g_w g" for k i
  proof -
    let ?a = "obj_at g k + i"
    have b: "?a \<in> bank_words g" "?a \<notin> (\<lambda>k. obj_at g k - 1) ` {0 ..< g_n g}" using obj_data [OF k] by auto
    have "m3 ?a = m2 ?a" using o3 b(1) words_disjoint(2) [OF g] by blast
    also have "m2 ?a = m1 ?a" using b words_disjoint(1) [OF g] by (intro l(3)) blast
    also have "m1 ?a = 0"
    proof -
      have "unat ?len = g_n g * (2 * g_w g + 2)"
        using c(2) g unfolding fl by (intro len_exact) (simp_all add: geo_ok_def)
      then have "unat ?len div 2 = g_n g * (g_w g + 1)" by (simp add: algebra_simps)
      then show ?thesis using b(1) c(1) unfolding m1_def memset0_def fl bank_words_def by simp
    qed
    finally show ?thesis .
  qed
  ultimately show ?thesis unfolding r using o1 o3 l3 by auto
qed

section \<open>Counting and finding\<close>

lemma POOL_counts:
  assumes "pool_inv g f xs m" "geo_ok g"
  shows "POOL_getFree (g_pool g) m = of_nat f" "POOL_getNumAllocated (g_pool g) m = of_nat (g_n g - f)"
proof -
  have h: "pool_free (g_pool g) m = g_stack g + 2 * f" "pool_allocStack (g_pool g) m = g_stack g"
      "pool_size (g_pool g) m = of_nat (g_n g)" "f \<le> g_n g"
    using assms(1) by (simp_all add: pool_inv_def pool_hdr_def pool_hdr0_def)
  show fr: "POOL_getFree (g_pool g) m = of_nat f" by (simp add: POOL_getFree_def h)
  show "POOL_getNumAllocated (g_pool g) m = of_nat (g_n g - f)"
    using h(4) by (simp add: POOL_getNumAllocated_def fr h(3) of_nat_diff)
qed

lemma POOL_find_loop_ok:
  assumes "pool_allocStack pool m = g_stack g" "pool_size pool m = of_nat (g_n g)"
    and "\<And>i. j \<le> i \<Longrightarrow> i < j + n \<Longrightarrow> load_ptr (g_stack g + 2 * i) m = xs ! i" "j + n \<le> g_n g"
  shows "POOL_find_loop n (g_stack g + 2 * j) pool x m =
    (case find (\<lambda>i. xs ! i = x) [j ..< j + n] of None \<Rightarrow> -1 | Some i \<Rightarrow> of_nat (g_n g - 1 - i))"
  using assms(3,4)
proof (induction n arbitrary: j)
  case (Suc n)
  have u: "[j ..< j + Suc n] = j # [j + 1 ..< j + 1 + n]" by (simp add: upt_rec)
  have l: "load_ptr (g_stack g + 2 * j) m = xs ! j" using Suc.prems by simp
  have p: "g_stack g + 2 * j + 2 = g_stack g + 2 * (j + 1)" by simp
  have "POOL_find_loop n (g_stack g + 2 * (j + 1)) pool x m =
      (case find (\<lambda>i. xs ! i = x) [j + 1 ..< j + 1 + n] of None \<Rightarrow> -1 | Some i \<Rightarrow> of_nat (g_n g - 1 - i))"
    using Suc.IH [of "j + 1"] Suc.prems by simp
  moreover have "of_nat (g_n g) - 1 - of_nat j = (of_nat (g_n g - 1 - j) :: u16)"
    using Suc.prems(2) by (simp add: of_nat_diff)
  ultimately show ?case using l assms(1,2) unfolding u POOL_find_loop.simps p by simp
qed simp

section \<open>Creation and destruction\<close>

lemma unat_even_size:
  assumes "unat (x :: u16) \<le> 65534"
  shows "unat ((x + 1) AND 0xFFFE) = 2 * ((unat x + 1) div 2)"
proof -
  have "(0xFFFE :: u16) = NOT 1" by simp
  then have "(x + 1) AND 0xFFFE = hun (x + 1)" by (simp only: hun_def USED_def)
  then show ?thesis using assms unat_plus_small [of x 1] by (simp add: unat_hun)
qed

text \<open>The three blocks of a pool.\<close>

definition pool_blocks :: "pgeo \<Rightarrow> (ptr \<times> u16) set" where
  "pool_blocks g = {(g_pool g, sizeof_Pool), (g_bank g, of_nat (g_n g * (2 * g_w g + 2))),
     (g_stack g, of_nat (g_n g * 4))}"

definition sizes_ok :: "nat \<Rightarrow> nat \<Rightarrow> bool" where
  "sizes_ok n w \<longleftrightarrow> 0 < n \<and> n * (2 * w + 2) \<le> 65532 \<and> n * 4 \<le> 65532"

lemma pool_block_words:
  assumes "sizes_ok (g_n g) (g_w g)"
  shows "block_words (g_pool g, sizeof_Pool) = pool_words g"
    "block_words (g_bank g, of_nat (g_n g * (2 * g_w g + 2))) = bank_words g"
    "block_words (g_stack g, of_nat (g_n g * 4)) = stack_words g"
proof -
  let ?b = "g_n g * (2 * g_w g + 2)"
  have "unat (of_nat ?b :: u16) = ?b" "unat (of_nat (g_n g * 4) :: u16) = g_n g * 4"
    using assms by (simp_all only: sizes_ok_def unat_of_nat) simp_all
  moreover have "(?b + 1) div 2 = g_n g * (g_w g + 1)" "(g_n g * 4 + 1) div 2 = 2 * g_n g"
    by (simp_all add: algebra_simps)
  ultimately show "block_words (g_pool g, sizeof_Pool) = pool_words g"
      "block_words (g_bank g, of_nat ?b) = bank_words g" "block_words (g_stack g, of_nat (g_n g * 4)) = stack_words g"
    by (simp_all only: block_words_def pool_words_def bank_words_def stack_words_def fst_conv snd_conv)
      (simp_all add: cfg)
qed

lemma geo_of_blocks:
  assumes v: "heap_valid A s" "pool_blocks g \<subseteq> A" and sz: "sizes_ok (g_n g) (g_w g)"
    and ne: "g_pool g \<noteq> g_bank g" "g_pool g \<noteq> g_stack g" "g_bank g \<noteq> g_stack g"
  shows "geo_ok g"
proof -
  note w = pool_block_words [OF sz]
  have m: "(g_pool g, sizeof_Pool) \<in> A" "(g_bank g, of_nat (g_n g * (2 * g_w g + 2))) \<in> A" "(g_stack g, of_nat (g_n g * 4)) \<in> A"
    using v(2) by (simp_all add: pool_blocks_def)
  have "bank_words g \<inter> stack_words g = {}" "bank_words g \<inter> pool_words g = {}" "stack_words g \<inter> pool_words g = {}"
    unfolding w [symmetric] by (rule mh.disjoint_law [OF v(1)]; use m ne in simp)+
  moreover have "g_pool g + 8 < 2 ^ 31" "g_bank g + g_n g * (g_w g + 1) < 2 ^ 31" "g_stack g + 2 * g_n g < 2 ^ 31" "0 < g_bank g"
  proof -
    have u: "unat (of_nat (g_n g * (2 * g_w g + 2)) :: u16) = g_n g * (2 * g_w g + 2)" "unat (of_nat (g_n g * 4) :: u16) = g_n g * 4"
      using sz by (simp_all only: sizes_ok_def unat_of_nat) simp_all
    have d: "(g_n g * (2 * g_w g + 2) + 1) div 2 = g_n g * (g_w g + 1)" "(g_n g * 4 + 1) div 2 = 2 * g_n g"
      by (simp_all add: algebra_simps)
    show "g_pool g + 8 < 2 ^ 31" using heap_valid_block [OF v(1) m(1)] by (simp add: cfg)
    show "g_bank g + g_n g * (g_w g + 1) < 2 ^ 31" "0 < g_bank g"
      using heap_valid_block [OF v(1) m(2)] unfolding fst_conv snd_conv u d by simp_all
    show "g_stack g + 2 * g_n g < 2 ^ 31"
      using heap_valid_block [OF v(1) m(3)] unfolding fst_conv snd_conv u d by simp
  qed
  moreover have "g_n g < 65536" "g_w g < 32768"
  proof -
    have n: "g_n g * (2 * g_w g + 2) \<le> 65532" "0 < g_n g" using sz by (simp_all add: sizes_ok_def)
    have "1 * (2 * g_w g + 2) \<le> g_n g * (2 * g_w g + 2)" using n(2) by (intro mult_le_mono1) simp
    then have "2 * g_w g + 2 \<le> 65532" using n(1) by simp
    then show "g_w g < 32768" by simp
    have "g_n g * 1 \<le> g_n g * (2 * g_w g + 2)" by (intro mult_le_mono2) simp
    then show "g_n g < 65536" using n(1) by simp
  qed
  ultimately show ?thesis by (simp add: geo_ok_def)
qed

text \<open>The last part of the creation: all three blocks are there.\<close>

lemma POOL_create_setup:
  assumes v: "heap_valid A s" "pool_blocks g \<subseteq> A" and sz: "sizes_ok (g_n g) (g_w g)" and g: "geo_ok g"
    and b: "load_ptr (g_pool g) (ram s) = g_bank g"
    and m: "m = (store_ptr (g_pool g + 2) (g_stack g) (ram s))
      (g_pool g + 7 := of_nat (g_n g), g_pool g + 6 := of_nat (2 * g_w g))"
  shows "pool_inv g (g_n g) (map (obj_at g) [0 ..< g_n g]) (POOL_reset (g_pool g) True m)
    \<and> heap_valid A (s\<lparr>ram := POOL_reset (g_pool g) True m\<rparr>)
    \<and> (\<forall>c \<in> A - pool_blocks g. \<forall>a \<in> block_words c. POOL_reset (g_pool g) True m a = ram s a)"
proof -
  note w = pool_block_words [OF sz]
  have lt: "g_stack g < 2 ^ 31" using g unfolding geo_ok_def by linarith
  have "pool_hdr0 g m"
  proof -
    have "load_ptr (g_pool g + 2) m = load_ptr (g_pool g + 2) (store_ptr (g_pool g + 2) (g_stack g) (ram s))"
      unfolding m by (rule load_ptr_cong) simp_all
    moreover have "load_ptr (g_pool g) m = load_ptr (g_pool g) (ram s)" unfolding m by (rule load_ptr_cong) simp_all
    ultimately show ?thesis using lt b by (simp add: pool_hdr0_def pool_fields m)
  qed
  note r = POOL_reset_ok [OF g this, of True]
  have um: "\<Union> (block_words ` pool_blocks g) = pool_words g \<union> stack_words g \<union> bank_words g"
    using w by (auto simp: pool_blocks_def)
  have o: "POOL_reset (g_pool g) True m a = ram s a" if "a \<notin> \<Union> (block_words ` pool_blocks g)" for a
  proof -
    have "POOL_reset (g_pool g) True m a = m a" using r that um by blast
    also have "a \<notin> {g_pool g ..< g_pool g + 8}" using that um by (simp add: pool_words_def)
    then have "m a = ram s a" unfolding m by (auto intro!: store_ptr_other)
    finally show ?thesis .
  qed
  show ?thesis using r mh.put_blocks [OF v o] by auto
qed

lemma fresh_block:
  assumes "heap_valid A s" "unat n \<le> 65532" "MEM_alloc n s = Some (p, s')" "p \<noteq> NULL" "n \<noteq> 0" "b \<in> A"
  shows "p \<notin> block_words b"
proof -
  have "0 < unat n" using assms(5) by (simp add: unat_gt_0)
  then have "p \<in> block_words (p, n)" by (simp add: block_words_def)
  then show ?thesis using mh.alloc_fresh [OF assms(1-4,6)] by blast
qed

lemma store_in_block:
  assumes "heap_valid A s" "(p, n) \<in> A" "i + 1 < (unat n + 1) div 2"
  shows "heap_valid A (s\<lparr>ram := store_ptr (p + i) v (ram s)\<rparr>)
    \<and> (\<forall>c \<in> A - {(p, n)}. \<forall>a \<in> block_words c. store_ptr (p + i) v (ram s) a = ram s a)"
proof -
  have o: "store_ptr (p + i) v (ram s) a = ram s a" if "a \<notin> \<Union> (block_words ` {(p, n)})" for a
    using that assms(3) by (intro store_ptr_other) (auto simp: block_words_def)
  have sub: "{(p, n)} \<subseteq> A" using assms(2) by simp
  show ?thesis using mh.put_blocks [OF assms(1) sub o] by simp
qed

lemma POOL_create_post:
  assumes v: "heap_valid A s" and os: "unat objectSize \<le> 65534"
    and sz: "sizes_ok (unat sz) ((unat objectSize + 1) div 2)"
  shows "\<exists>p s'. POOL_create debug sz objectSize s = Some (p, s')
    \<and> (\<forall>b \<in> A. \<forall>a \<in> block_words b. ram s' a = ram s a)
    \<and> (if p = NULL then heap_valid A s'
       else \<exists>g. g_pool g = p \<and> g_n g = unat sz \<and> g_w g = (unat objectSize + 1) div 2 \<and> geo_ok g
         \<and> pool_blocks g \<inter> A = {} \<and> heap_valid (A \<union> pool_blocks g) s'
         \<and> pool_inv g (g_n g) (map (obj_at g) [0 ..< g_n g]) (ram s'))"
proof -
  let ?n = "unat sz" and ?w = "(unat objectSize + 1) div 2" and ?adj = "(objectSize + 1) AND 0xFFFE"
  have adj: "unat ?adj = 2 * ?w" by (rule unat_even_size [OF os])
  have "1 * (2 * ?w + 2) \<le> ?n * (2 * ?w + 2)" using sz by (intro mult_le_mono1) (simp add: sizes_ok_def)
  then have "2 * ?w + 2 < 65536" using sz by (simp add: sizes_ok_def)
  then have "unat (?adj + 2) = 2 * ?w + 2" using unat_plus_small [of ?adj 2] adj by simp
  then have bz: "unat (sz * (?adj + 2)) = ?n * (2 * ?w + 2)" using sz by (simp add: unat_word_ariths sizes_ok_def)
  have kz: "unat (sz * 4) = ?n * 4" using sz by (simp add: unat_word_ariths sizes_ok_def)
  have of_u: "of_nat (unat x) = x" for x :: u16 by simp
  have sz': "of_nat (?n * (2 * ?w + 2)) = sz * (?adj + 2)" "of_nat (?n * 4) = sz * 4" "of_nat (2 * ?w) = ?adj" "of_nat ?n = sz"
    by (metis bz of_u, metis kz of_u, metis adj of_u, rule of_u)
  have lim: "unat (sz * (?adj + 2)) \<le> 65532" "unat (sz * 4) \<le> 65532" "unat sizeof_Pool \<le> 65532"
    unfolding bz kz using sz by (simp_all add: sizes_ok_def cfg)
  have nz: "sz * (?adj + 2) \<noteq> 0" "sz * 4 \<noteq> 0" using bz kz sz by (auto simp: sizes_ok_def)
  define A1 where "A1 r = insert (r, sizeof_Pool) A" for r
  obtain r s1 where a1: "MEM_alloc sizeof_Pool s = Some (r, s1)" "heap_valid (if r = NULL then A else A1 r) s1"
      "r \<noteq> NULL \<longrightarrow> (r, sizeof_Pool) \<notin> A" "\<forall>b \<in> A. \<forall>a \<in> block_words b. ram s1 a = ram s a"
    using mh.alloc_law [OF v lim(3)] unfolding A1_def by blast
  show ?thesis
  proof (cases "r = NULL")
    case True
    then show ?thesis using a1 by (simp add: POOL_create_def Let_def)
  next
    case r: False
    then have v1: "heap_valid (A1 r) s1" using a1(2) by simp
    define A2 where "A2 b = insert (b, sz * (?adj + 2)) (A1 r)" for b
    obtain b s2 where a2: "MEM_alloc (sz * (?adj + 2)) s1 = Some (b, s2)" "heap_valid (if b = NULL then A1 r else A2 b) s2"
        "b \<noteq> NULL \<longrightarrow> (b, sz * (?adj + 2)) \<notin> A1 r" "\<forall>c \<in> A1 r. \<forall>a \<in> block_words c. ram s2 a = ram s1 a"
      using mh.alloc_law [OF v1 lim(1)] unfolding A2_def by blast
    have rA: "(r, sizeof_Pool) \<in> A1 r" "(r, sizeof_Pool) \<in> (if b = NULL then A1 r else A2 b)" by (simp_all add: A1_def A2_def)
    define s2' where "s2' = s2\<lparr>ram := store_ptr r b (ram s2)\<rparr>"
    have st2: "heap_valid (if b = NULL then A1 r else A2 b) s2'" "\<forall>c \<in> A. \<forall>a \<in> block_words c. ram s2' a = ram s2 a"
      using store_in_block [OF a2(2) rA(2), of 0 b] r a1(3) unfolding s2'_def A1_def A2_def
      by (auto simp: cfg split: if_splits)
    have k2: "\<forall>c \<in> A. \<forall>a \<in> block_words c. ram s2' a = ram s a" using st2(2) a2(4) a1(4) by (simp add: A1_def)
    show ?thesis
    proof (cases "b = NULL")
      case True
      then have v2: "heap_valid (A1 r) s2'" using st2(1) by simp
      have "heap_valid A (MEM_free debug r s2')" "\<forall>c \<in> A. \<forall>a \<in> block_words c. ram (MEM_free debug r s2') a = ram s2' a"
        using mh.release_law [OF v2 rA(1), of debug] r a1(3) by (simp_all add: A1_def)
      then show ?thesis using a1(1) a2(1) r True k2 by (simp add: POOL_create_def Let_def s2'_def)
    next
      case b: False
      then have v2: "heap_valid (A2 b) s2'" using st2(1) by simp
      define A3 where "A3 t = insert (t, sz * 4) (A2 b)" for t
      obtain t s3 where a3: "MEM_alloc (sz * 4) s2' = Some (t, s3)" "heap_valid (if t = NULL then A2 b else A3 t) s3"
          "t \<noteq> NULL \<longrightarrow> (t, sz * 4) \<notin> A2 b" "\<forall>c \<in> A2 b. \<forall>a \<in> block_words c. ram s3 a = ram s2' a"
        using mh.alloc_law [OF v2 lim(2)] unfolding A3_def by blast
      have b31: "b < 2 ^ 31" using heap_valid_block [OF v2, of "(b, sz * (?adj + 2))"] by (simp add: A2_def)
      have "load_ptr r (ram s3) = load_ptr r (ram s2')"
        using a3(4) rA(1) by (intro load_ptr_cong) (force simp: A2_def block_words_def cfg)+
      then have lb: "load_ptr r (ram s3) = b" using b31 by (simp add: s2'_def)
      have k3: "\<forall>c \<in> A. \<forall>a \<in> block_words c. ram s3 a = ram s a" using k2 a3(4) by (simp add: A1_def A2_def)
      show ?thesis
      proof (cases "t = NULL")
        case True
        then have v3: "heap_valid (A2 b) s3" using a3(2) by simp
        define s3' where "s3' = s3\<lparr>ram := store_ptr (r + 2) t (ram s3)\<rparr>"
        have "heap_valid (A2 b) s3'" and k3': "\<forall>c \<in> A. \<forall>a \<in> block_words c. ram s3' a = ram s3 a"
          using store_in_block [OF v3, of r sizeof_Pool 2 t] a1(3) r by (auto simp: A1_def A2_def s3'_def cfg)
        from mh.release_law [OF this(1), of b "sz * (?adj + 2)" debug]
        have f1: "heap_valid (A1 r) (MEM_free debug b s3')" "\<forall>c \<in> A1 r. \<forall>a \<in> block_words c. ram (MEM_free debug b s3') a = ram s3' a"
          using a2(3) b by (simp_all add: A2_def)
        have f2: "heap_valid A (MEM_free debug r (MEM_free debug b s3'))"
            "\<forall>c \<in> A. \<forall>a \<in> block_words c. ram (MEM_free debug r (MEM_free debug b s3')) a = ram (MEM_free debug b s3') a"
          using mh.release_law [OF f1(1), of r sizeof_Pool debug] a1(3) r by (simp_all add: A1_def)
        have "load_ptr r (ram s3') = load_ptr r (ram s3)" unfolding s3'_def by (rule load_ptr_cong) simp_all
        then have "pool_bank r (ram s3') = b" using lb by (simp add: pool_bank_def)
        then have "POOL_create debug sz objectSize s = Some (NULL, MEM_free debug r (MEM_free debug b s3'))"
          using a1(1) a2(1) a3(1) r b True unfolding POOL_create_def Let_def by (simp add: s2'_def s3'_def)
        moreover have "\<forall>c \<in> A. \<forall>a \<in> block_words c. ram (MEM_free debug r (MEM_free debug b s3')) a = ram s a"
          using f1(2) f2(2) k3' k3 by (simp add: A1_def)
        ultimately show ?thesis using f2(1) by simp
      next
        case t: False
        then have v3: "heap_valid (A3 t) s3" using a3(2) by simp
        define g where "g = \<lparr>g_pool = r, g_bank = b, g_stack = t, g_n = ?n, g_w = ?w\<rparr>"
        have gs: "g_pool g = r" "g_bank g = b" "g_stack g = t" "g_n g = ?n" "g_w g = ?w" by (simp_all add: g_def)
        have pb: "pool_blocks g = {(r, sizeof_Pool), (b, sz * (?adj + 2)), (t, sz * 4)}"
          unfolding pool_blocks_def gs sz' ..
        then have A3: "A3 t = A \<union> pool_blocks g" by (auto simp: A1_def A2_def A3_def)
        have "b \<notin> block_words (r, sizeof_Pool)" "t \<notin> block_words (r, sizeof_Pool)" "t \<notin> block_words (b, sz * (?adj + 2))"
          by (rule fresh_block [OF v1 lim(1) a2(1) b nz(1)], simp add: A1_def)
            (rule fresh_block [OF v2 lim(2) a3(1) t nz(2)], simp add: A1_def A2_def)+
        moreover have "0 < unat (sz * (?adj + 2))" using nz(1) by (simp add: unat_gt_0)
        ultimately have ne: "r \<noteq> b" "r \<noteq> t" "b \<noteq> t" by (auto simp: block_words_def cfg)
        have sg: "sizes_ok (g_n g) (g_w g)" using sz by (simp add: gs)
        have gk: "geo_ok g" by (rule geo_of_blocks [OF v3 _ sg]) (use ne gs A3 in auto)
        have dj: "pool_blocks g \<inter> A = {}" using a1(3) a2(3) a3(3) r b t unfolding pb by (auto simp: A1_def A2_def)
        let ?m = "(store_ptr (r + 2) t (ram s3))(r + 7 := sz, r + 6 := ?adj)"
        have P: "pool_inv g (g_n g) (map (obj_at g) [0 ..< g_n g]) (POOL_reset r True ?m)
            \<and> heap_valid (A3 t) (s3\<lparr>ram := POOL_reset r True ?m\<rparr>)
            \<and> (\<forall>c \<in> A3 t - pool_blocks g. \<forall>a \<in> block_words c. POOL_reset r True ?m a = ram s3 a)"
          using POOL_create_setup [OF v3 _ sg gk _ refl] lb unfolding A3 gs sz' by simp
        have "POOL_create debug sz objectSize s = Some (r, s3\<lparr>ram := POOL_reset r True ?m\<rparr>)"
          using a1(1) a2(1) a3(1) r b t unfolding POOL_create_def Let_def by (simp add: s2'_def)
        moreover have "\<forall>c \<in> A. \<forall>a \<in> block_words c. POOL_reset r True ?m a = ram s a"
          using P k3 dj unfolding A3 by fastforce
        moreover have "\<exists>g. g_pool g = r \<and> g_n g = ?n \<and> g_w g = ?w \<and> geo_ok g \<and> pool_blocks g \<inter> A = {}
            \<and> heap_valid (A \<union> pool_blocks g) (s3\<lparr>ram := POOL_reset r True ?m\<rparr>)
            \<and> pool_inv g (g_n g) (map (obj_at g) [0 ..< g_n g]) (POOL_reset r True ?m)"
          using P gk dj gs unfolding A3 by blast
        ultimately show ?thesis using r by (intro exI [of _ r] exI [of _ "s3\<lparr>ram := POOL_reset r True ?m\<rparr>"]) simp
      qed
    qed
  qed
qed

text \<open>Releasing the block behind a pointer field of the pool and clearing the field.\<close>

lemma destroy_field:
  assumes v: "heap_valid (insert (q, n) A) s" "(q, n) \<notin> A" "(p, sizeof_Pool) \<in> A" "i + 1 < 8"
    and s': "s' = MEM_free debug q s"
  shows "heap_valid A (s'\<lparr>ram := store_ptr (p + i) NULL (ram s')\<rparr>)
    \<and> (\<forall>c \<in> A - {(p, sizeof_Pool)}. \<forall>a \<in> block_words c. store_ptr (p + i) NULL (ram s') a = ram s a)
    \<and> (\<forall>a \<in> block_words (p, sizeof_Pool). a \<noteq> p + i \<and> a \<noteq> p + i + 1 \<longrightarrow> store_ptr (p + i) NULL (ram s') a = ram s a)"
proof -
  have f: "heap_valid A s'" "\<forall>b \<in> A. \<forall>a \<in> block_words b. ram s' a = ram s a"
    using mh.release_law [OF v(1), of q n debug] v(2) by (simp_all add: s')
  then show ?thesis using store_in_block [OF f(1) v(3), of i NULL] v(3,4) by (auto simp: cfg)
qed

lemma POOL_destroy_ok:
  assumes v: "heap_valid (A \<union> pool_blocks g) s" "pool_blocks g \<inter> A = {}"
    and g: "geo_ok g" "sizes_ok (g_n g) (g_w g)" "pool_hdr0 g (ram s)" "g_stack g \<noteq> NULL"
  shows "heap_valid A (POOL_destroy debug (g_pool g) s)
    \<and> (\<forall>b \<in> A. \<forall>a \<in> block_words b. ram (POOL_destroy debug (g_pool g) s) a = ram s a)"
proof -
  let ?p = "g_pool g"
  define bn where "bn = (of_nat (g_n g * (2 * g_w g + 2)) :: u16)"
  define sn where "sn = (of_nat (g_n g * 4) :: u16)"
  let ?P = "(?p, sizeof_Pool)" and ?B = "(g_bank g, bn)" and ?S = "(g_stack g, sn)"
  have pb: "pool_blocks g = {?P, ?B, ?S}" by (simp only: pool_blocks_def bn_def sn_def)
  note w = pool_block_words [OF g(2)]
  have "0 < g_n g" using g(2) by (simp add: sizes_ok_def)
  then have "g_pool g \<in> pool_words g" "g_bank g \<in> bank_words g" "g_stack g \<in> stack_words g"
    by (simp_all add: pool_words_def bank_words_def stack_words_def)
  then have "g_pool g \<noteq> g_bank g" "g_pool g \<noteq> g_stack g" "g_bank g \<noteq> g_stack g"
    using words_disjoint [OF g(1)] by metis+
  then have ne: "?P \<noteq> ?B" "?P \<noteq> ?S" "?B \<noteq> ?S" by simp_all
  have nA: "?P \<notin> A" "?B \<notin> A" "?S \<notin> A" using v(2) by (auto simp: pb)
  have vs: "heap_valid (insert ?S (insert ?B (insert ?P A))) s" using v(1) by (simp add: pb insert_commute)
  have nz: "?p \<noteq> NULL" "g_bank g \<noteq> NULL"
    using heap_valid_block [OF v(1), of ?P] g(1) by (simp_all add: pb geo_ok_def)
  define s1 where "s1 = MEM_free debug (g_stack g) s"
  define s1' where "s1' = s1\<lparr>ram := store_ptr (?p + 2) NULL (ram s1)\<rparr>"
  have d1: "heap_valid (insert ?B (insert ?P A)) s1'"
      "\<forall>c \<in> A. \<forall>a \<in> block_words c. ram s1' a = ram s a"
      "\<forall>a \<in> block_words ?P. a \<noteq> ?p + 2 \<and> a \<noteq> ?p + 2 + 1 \<longrightarrow> ram s1' a = ram s a"
  proof -
    have c: "?S \<notin> insert ?B (insert ?P A)" "?P \<in> insert ?B (insert ?P A)" using ne nA by auto
    have A: "c \<in> insert ?B (insert ?P A) - {?P}" if "c \<in> A" for c using that nA by auto
    note d = destroy_field [OF vs c _ s1_def, of 2]
    show "heap_valid (insert ?B (insert ?P A)) s1'"
      "\<forall>a \<in> block_words ?P. a \<noteq> ?p + 2 \<and> a \<noteq> ?p + 2 + 1 \<longrightarrow> ram s1' a = ram s a"
      using d by (simp_all add: s1'_def)
    have "\<forall>c \<in> insert ?B (insert ?P A) - {?P}. \<forall>a \<in> block_words c. ram s1' a = ram s a" using d by (simp add: s1'_def)
    then show "\<forall>c \<in> A. \<forall>a \<in> block_words c. ram s1' a = ram s a" using A by blast
  qed
  have "load_ptr ?p (ram s1') = load_ptr ?p (ram s)"
    using d1(3) by (intro load_ptr_cong) (simp_all add: w pool_words_def)
  then have b1: "pool_bank ?p (ram s1') = g_bank g" using g(3) by (simp add: pool_hdr0_def pool_bank_def)
  define s2 where "s2 = MEM_free debug (g_bank g) s1'"
  define s2' where "s2' = s2\<lparr>ram := store_ptr (?p + 0) NULL (ram s2)\<rparr>"
  have d2: "heap_valid (insert ?P A) s2'" "\<forall>c \<in> A. \<forall>a \<in> block_words c. ram s2' a = ram s1' a"
  proof -
    have c: "?B \<notin> insert ?P A" "?P \<in> insert ?P A" using ne nA by auto
    have A: "c \<in> insert ?P A - {?P}" if "c \<in> A" for c using that nA by auto
    note d = destroy_field [OF d1(1) c _ s2_def, of 0]
    show "heap_valid (insert ?P A) s2'" using d by (simp add: s2'_def)
    have "\<forall>c \<in> insert ?P A - {?P}. \<forall>a \<in> block_words c. ram s2' a = ram s1' a" using d by (simp add: s2'_def)
    then show "\<forall>c \<in> A. \<forall>a \<in> block_words c. ram s2' a = ram s1' a" using A by blast
  qed
  have d3: "heap_valid A (MEM_free debug ?p s2')" "\<forall>c \<in> A. \<forall>a \<in> block_words c. ram (MEM_free debug ?p s2') a = ram s2' a"
    using mh.release_law [OF d2(1), of ?p sizeof_Pool debug] nA by simp_all
  have "POOL_destroy debug ?p s = MEM_free debug ?p s2'"
    using g(3,4) nz b1 by (simp add: POOL_destroy_def Let_def pool_hdr0_def s1_def s1'_def s2_def s2'_def)
  then show ?thesis using d1(2) d2(2) d3 by simp
qed

text \<open>
  C32 Creating a pool whose sizes do not wrap around 16 bits, with objects of at least a byte, always
  returns. Either there is not enough memory: then the result is NULL
  and every block allocated on the way has been released again; or the pool has three new blocks
  of its own, large enough and apart from each other and from all blocks held before, all its
  objects are free, no word of the other blocks has changed, and destroying the pool gives all
  its memory back.
\<close>

theorem POOL_create_ok:
  assumes v: "heap_valid A s" and os: "unat objectSize \<le> 65534"
    and sz: "sizes_ok (unat sz) ((unat objectSize + 1) div 2)"
  shows "\<exists>p s'. POOL_create debug sz objectSize s = Some (p, s')
    \<and> (\<forall>b \<in> A. \<forall>a \<in> block_words b. ram s' a = ram s a)
    \<and> (if p = NULL then heap_valid A s'
       else heap_valid A (POOL_destroy debug p s') \<and>
         (\<exists>g. g_pool g = p \<and> g_n g = unat sz \<and> g_w g = (unat objectSize + 1) div 2 \<and> geo_ok g
           \<and> pool_blocks g \<inter> A = {} \<and> heap_valid (A \<union> pool_blocks g) s'
           \<and> pool_inv g (g_n g) (map (obj_at g) [0 ..< g_n g]) (ram s')))"
proof -
  obtain p s' where c: "POOL_create debug sz objectSize s = Some (p, s')"
      "\<forall>b \<in> A. \<forall>a \<in> block_words b. ram s' a = ram s a"
      "if p = NULL then heap_valid A s'
       else \<exists>g. g_pool g = p \<and> g_n g = unat sz \<and> g_w g = (unat objectSize + 1) div 2 \<and> geo_ok g
         \<and> pool_blocks g \<inter> A = {} \<and> heap_valid (A \<union> pool_blocks g) s'
         \<and> pool_inv g (g_n g) (map (obj_at g) [0 ..< g_n g]) (ram s')"
    using POOL_create_post [OF assms] by blast
  have "heap_valid A (POOL_destroy debug (g_pool g) s')"
    if g: "geo_ok g" "g_n g = unat sz" "g_w g = (unat objectSize + 1) div 2" "pool_blocks g \<inter> A = {}"
      "heap_valid (A \<union> pool_blocks g) s'" "pool_inv g (g_n g) (map (obj_at g) [0 ..< g_n g]) (ram s')" for g
  proof -
    have "pool_hdr0 g (ram s')" using g(6) by (simp add: pool_inv_def pool_hdr_def)
    moreover have "g_stack g \<noteq> NULL"
      using heap_valid_block [OF g(5), of "(g_stack g, of_nat (g_n g * 4))"] by (simp add: pool_blocks_def)
    ultimately show ?thesis using POOL_destroy_ok [OF g(5,4,1)] sz g(2,3) by simp
  qed
  then show ?thesis using c by (cases "p = NULL") auto
qed

lemma tiny_valid: "heap_valid {} tiny"
  using tiny_inv by (auto simp: heap_valid_def owns_def live_def tiny_def hused_odd)

theorem POOL_create_ok_witness:
  "\<exists>p s'. POOL_create True 2 3 tiny = Some (p, s') \<and> (p = NULL \<longrightarrow> heap_valid {} s')"
proof -
  have "sizes_ok (unat (2 :: u16)) ((unat (3 :: u16) + 1) div 2)" by (simp add: sizes_ok_def)
  from POOL_create_ok [OF tiny_valid _ this, of True] show ?thesis by fastforce
qed

section \<open>The pool as its clients see it\<close>

text \<open>
  What a program can do with a pool: reset it, allocate, release (keeping coherency) an object it
  holds, and write to the words of an object it holds. The set is that of the objects it holds.
\<close>

inductive pool_reach :: "pgeo \<Rightarrow> ram \<Rightarrow> ptr set \<Rightarrow> bool" for g where
  reset: "pool_hdr0 g m \<Longrightarrow> pool_reach g (POOL_reset (g_pool g) clear m) {}"
| alloc: "pool_reach g m U \<Longrightarrow> POOL_allocate (g_pool g) m = (x, m') \<Longrightarrow>
    pool_reach g m' (if x = NULL then U else insert x U)"
| release: "pool_reach g m U \<Longrightarrow> x \<in> U \<Longrightarrow> pool_reach g (POOL_release (g_pool g) x True m) (U - {x})"
| store: "pool_reach g m U \<Longrightarrow> x \<in> U \<Longrightarrow> i < g_w g \<Longrightarrow> pool_reach g (m(x + i := v)) U"

lemma pool_inv_store:
  assumes inv: "pool_inv g f xs m" and g: "geo_ok g" and x: "x \<in> set xs" "i < g_w g"
  shows "pool_inv g f xs (m(x + i := v))"
proof -
  have h: "pool_hdr g f m" "stack_rep g xs m" "index_rep g xs m" "all_objs g xs" "f \<le> g_n g"
    using inv by (simp_all add: pool_inv_def)
  obtain k where k: "k < g_n g" "x = obj_at g k" using x(1) h(4) by (auto simp: all_objs_def)
  have b: "x + i \<in> bank_words g" using obj_data(1) [OF k(1) x(2)] k(2) by simp
  have n: "x + i \<notin> pool_words g" "x + i \<notin> stack_words g" using b words_disjoint [OF g] by blast+
  have "pool_hdr g f (m(x + i := v))" using h(1) by (rule hdr_cong) (metis fun_upd_other n(1))
  moreover have "stack_rep g xs (m(x + i := v))" using h(2) by (rule stack_cong) (metis fun_upd_other n(2))
  moreover have "index_rep g xs (m(x + i := v))"
  proof -
    have "xs ! j - 1 \<noteq> x + i" if "j < g_n g" for j
    proof -
      have "xs ! j \<in> set xs" using that h(4) by (intro nth_mem) (simp add: all_objs_def)
      then obtain l where "xs ! j = obj_at g l" using h(4) by (auto simp: all_objs_def)
      then show ?thesis using obj_data(2) [OF k(1) x(2), of l] k(2) by auto
    qed
    then show ?thesis using h(3) by (simp add: index_rep_def)
  qed
  ultimately show ?thesis using h by (simp add: pool_inv_def)
qed

lemma pool_reach_inv:
  assumes "pool_reach g m U" and g: "geo_ok g"
  shows "\<exists>f xs. pool_inv g f xs m \<and> set (drop f xs) = U"
  using assms(1)
proof (induction rule: pool_reach.induct)
  case (reset m clear)
  then show ?case using POOL_reset_ok [OF g reset, of clear] by fastforce
next
  case (alloc m U x m')
  then obtain f xs where i: "pool_inv g f xs m" "set (drop f xs) = U" by blast
  have len: "f \<le> length xs" "all_objs g xs" using i(1) by (auto simp: pool_inv_def all_objs_def)
  show ?case
  proof (cases "f = 0")
    case True
    then have "x = NULL" "m' = m" using POOL_allocate_ok [OF i(1) g] alloc.hyps(2) by auto
    then show ?thesis using i by auto
  next
    case False
    then have x: "x = xs ! (f - 1)" "pool_inv g (f - 1) xs m'"
      using POOL_allocate_ok [OF i(1) g] alloc.hyps(2) by auto
    have "x \<in> set xs" using x(1) len False by simp
    then have "x \<noteq> NULL" using all_objs_obj(2) [OF len(2)] by auto
    moreover have "drop (f - 1) xs = x # drop f xs"
      using x(1) len(1) False Cons_nth_drop_Suc [of "f - 1" xs] by simp
    ultimately show ?thesis using x(2) i(2) by (intro exI [of _ "f - 1"] exI [of _ xs]) simp
  qed
next
  case (release m U x)
  then obtain f xs where i: "pool_inv g f xs m" "set (drop f xs) = U" by blast
  obtain j where "j < length (drop f xs)" "drop f xs ! j = x" using release.hyps(2) i(2) by (metis in_set_conv_nth)
  then obtain k where k: "f \<le> k" "k < length xs" "xs ! k = x" by (intro that [of "f + j"]) auto
  have len: "length xs = g_n g" "distinct xs" using i(1) by (simp_all add: pool_inv_def all_objs_def)
  have "pool_inv g (f + 1) (swapped f k xs) (POOL_release (g_pool g) x True m)"
    using POOL_release_ok [OF i(1) g k(1)] k len by simp
  moreover have "set (drop (f + 1) (swapped f k xs)) = U - {x}" using swapped_drop [OF k(1,2) len(2)] k(3) i(2) by simp
  ultimately show ?case by blast
next
  case (store m U x i v)
  then obtain f xs where "pool_inv g f xs m" "set (drop f xs) = U" by blast
  moreover from this have "x \<in> set xs" using store.hyps(2) by (auto dest: in_set_dropD)
  ultimately show ?case using pool_inv_store [OF _ g _ store.hyps(3)] by blast
qed

lemma inv_counts:
  assumes "pool_inv g f xs m" "set (drop f xs) = U"
  shows "card U = g_n g - f" "f \<le> g_n g" "finite U" "U \<subseteq> obj_at g ` {..< g_n g}"
proof -
  have x: "length xs = g_n g" "distinct xs" "set xs = obj_at g ` {..< g_n g}"
    using assms(1) by (simp_all add: pool_inv_def all_objs_def)
  show "f \<le> g_n g" using assms(1) by (simp add: pool_inv_def)
  show "card U = g_n g - f" using distinct_card [of "drop f xs"] x assms(2) by simp
  show "finite U" using assms(2) by (metis List.finite_set)
  show "U \<subseteq> obj_at g ` {..< g_n g}" using assms(2) x(3) set_drop_subset by metis
qed

text \<open>
  C14 The pool never hands out an object twice. After any sequence of resets, allocations, coherent
  releases and writes to the objects: an allocation fails exactly when the client holds all
  objects; otherwise it returns an object of the bank that the client does not hold. The counters
  are exact, and the entries from \<open>POOL_getFirst\<close> on are exactly the objects held.
\<close>

theorem POOL_objects:
  assumes "pool_reach g m U" "geo_ok g" "POOL_allocate (g_pool g) m = (x, m')"
  shows "(x = NULL \<longleftrightarrow> card U = g_n g) \<and> (x \<noteq> NULL \<longrightarrow> x \<in> obj_at g ` {..< g_n g} - U)
    \<and> unat (POOL_getNumAllocated (g_pool g) m) = card U \<and> unat (POOL_getFree (g_pool g) m) = g_n g - card U
    \<and> (\<lambda>i. load_ptr (POOL_getFirst (g_pool g) m + 2 * i) m) ` {..< card U} = U"
proof -
  obtain f xs where i: "pool_inv g f xs m" "set (drop f xs) = U" using pool_reach_inv [OF assms(1,2)] by blast
  note c = inv_counts [OF i]
  have x: "length xs = g_n g" "distinct xs" "set xs = obj_at g ` {..< g_n g}" "all_objs g xs"
    using i(1) by (simp_all add: pool_inv_def all_objs_def)
  have n: "g_n g < 65536" using assms(2) by (simp add: geo_ok_def)
  have u: "unat (of_nat k :: u16) = k" if "k \<le> g_n g" for k using that n by (simp add: unat_of_nat)
  have cnt: "unat (POOL_getNumAllocated (g_pool g) m) = card U" "unat (POOL_getFree (g_pool g) m) = g_n g - card U"
    using c(1,2) u [of f] u [of "g_n g - f"] unfolding POOL_counts [OF i(1) assms(2)] by simp_all
  have al: "(x = NULL \<longleftrightarrow> card U = g_n g) \<and> (x \<noteq> NULL \<longrightarrow> x \<in> obj_at g ` {..< g_n g} - U)"
  proof (cases "f = 0")
    case True
    then show ?thesis using POOL_allocate_ok [OF i(1) assms(2)] assms(3) c(1) by simp
  next
    case False
    then have xf: "x = xs ! (f - 1)" using POOL_allocate_ok [OF i(1) assms(2)] assms(3) by auto
    have l: "f - 1 < length xs" using False c(2) x(1) by simp
    then have "x \<in> set xs" unfolding xf by (rule nth_mem)
    moreover have "xs ! (f - 1) \<notin> set (drop f xs)"
    proof
      assume "xs ! (f - 1) \<in> set (drop f xs)"
      then obtain j where j: "j < length xs - f" "xs ! (f + j) = xs ! (f - 1)" by (auto simp: in_set_conv_nth)
      then have "f + j = f - 1" using x(2) l by (subst (asm) nth_eq_iff_index_eq) auto
      then show False using False by simp
    qed
    moreover from calculation(1) have "x \<noteq> NULL" using all_objs_obj(2) [OF x(4)] by blast
    ultimately show ?thesis using c False x(3) i(2) xf by auto
  qed
  have "(\<lambda>i. load_ptr (POOL_getFirst (g_pool g) m + 2 * i) m) ` {..< card U} = (\<lambda>i. drop f xs ! i) ` {..< card U}"
  proof (rule image_cong [OF refl])
    fix k assume k: "k \<in> {..< card U}"
    have "POOL_getFirst (g_pool g) m + 2 * k = g_stack g + 2 * (f + k)"
      using i(1) by (simp add: POOL_getFirst_def pool_inv_def pool_hdr_def)
    moreover have "load_ptr (g_stack g + 2 * (f + k)) m = xs ! (f + k)"
    proof -
      have "f + k < g_n g" using k c(1,2) by simp
      then show ?thesis using i(1) unfolding pool_inv_def stack_rep_def by blast
    qed
    ultimately show "load_ptr (POOL_getFirst (g_pool g) m + 2 * k) m = drop f xs ! k"
      using c(2) x(1) by (simp only: nth_drop)
  qed
  also have "\<dots> = U" using i(2) c(1) x(1) nth_image [of "card U" "drop f xs"] by (simp add: lessThan_atLeast0)
  finally show ?thesis using al cnt by blast
qed

text \<open>An example: a pool of two objects of one word.\<close>

definition pool0 :: pgeo where
  "pool0 = \<lparr>g_pool = 100, g_bank = 300, g_stack = 200, g_n = 2, g_w = 1\<rparr>"

definition pool0_ram :: ram where
  "pool0_ram = store_ptr 100 300 (store_ptr 102 200 ((\<lambda>_. 0)(106 := 2, 107 := 2)))"

lemma pool0_ok: "geo_ok pool0" "pool_hdr0 pool0 pool0_ram"
proof -
  show "geo_ok pool0" by (auto simp: geo_ok_def pool0_def bank_words_def stack_words_def pool_words_def)
  have "load_ptr 100 pool0_ram = 300" unfolding pool0_ram_def by simp
  moreover have "load_ptr 102 pool0_ram = load_ptr 102 (store_ptr 102 200 ((\<lambda>_. 0)(106 := 2, 107 := 2)))"
    unfolding pool0_ram_def by (rule load_ptr_cong) simp_all
  ultimately show "pool_hdr0 pool0 pool0_ram"
    by (simp add: pool_hdr0_def pool_fields pool0_def) (simp add: pool0_ram_def)
qed

theorem POOL_objects_witness:
  "\<exists>x m'. POOL_allocate 100 (POOL_reset 100 True pool0_ram) = (x, m') \<and> x \<in> {301, 303}"
proof -
  let ?m = "POOL_reset (g_pool pool0) True pool0_ram"
  obtain x m' where a: "POOL_allocate (g_pool pool0) ?m = (x, m')" by fastforce
  have o: "obj_at pool0 ` {..< g_n pool0} = {301, 303}"
    by (auto simp: pool0_def obj_at_def lessThan_nat_numeral lessThan_Suc)
  have "pool_reach pool0 ?m {}" by (rule pool_reach.reset [OF pool0_ok(2)])
  from POOL_objects [OF this pool0_ok(1) a] have "x \<in> {301, 303}" unfolding o by (auto simp: pool0_def)
  then show ?thesis using a by (auto simp: pool0_def)
qed

text \<open>
  \<open>POOL_find\<close> reports -1 exactly for the objects that are not allocated, and for an allocated one
  the position from which its stack entry can be read back.
\<close>

theorem POOL_find_ok:
  assumes "pool_reach g m U" "geo_ok g" "r = POOL_find (g_pool g) x m"
  shows "(r = -1 \<longleftrightarrow> x \<notin> U) \<and> (x \<in> U \<longrightarrow> unat r < card U \<and> load_ptr (g_stack g + 2 * (g_n g - 1 - unat r)) m = x)"
proof -
  obtain f xs where i: "pool_inv g f xs m" "set (drop f xs) = U" using pool_reach_inv [OF assms(1,2)] by blast
  note c = inv_counts [OF i]
  have x: "length xs = g_n g" "distinct xs" using i(1) by (simp_all add: pool_inv_def all_objs_def)
  have n: "g_n g < 65536" using assms(2) by (simp add: geo_ok_def)
  have h: "pool_free (g_pool g) m = g_stack g + 2 * f" "pool_allocStack (g_pool g) m = g_stack g"
      "pool_size (g_pool g) m = of_nat (g_n g)" "\<And>i. i < g_n g \<Longrightarrow> load_ptr (g_stack g + 2 * i) m = xs ! i"
    using i(1) by (simp_all add: pool_inv_def pool_hdr_def pool_hdr0_def stack_rep_def)
  have na: "unat (POOL_getNumAllocated (g_pool g) m) = g_n g - f"
    using POOL_counts(2) [OF i(1) assms(2)] n by (simp add: unat_of_nat)
  have r: "r = (case find (\<lambda>i. xs ! i = x) [f ..< g_n g] of None \<Rightarrow> -1 | Some i \<Rightarrow> of_nat (g_n g - 1 - i))"
    using POOL_find_loop_ok [OF h(2,3), of f "g_n g - f" xs x] h(4) c(2) assms(3)
    by (simp add: POOL_find_def na h(1))
  have U: "U = (\<lambda>i. xs ! i) ` {f ..< g_n g}"
  proof -
    have "set (drop f xs) = (\<lambda>i. drop f xs ! i) ` {..< g_n g - f}"
      using nth_image [of "g_n g - f" "drop f xs"] x(1) by (simp add: lessThan_atLeast0)
    also have "\<dots> = (\<lambda>i. xs ! i) ` (\<lambda>i. f + i) ` {..< g_n g - f}" using x(1) c(2) by (simp add: image_image)
    also have "(\<lambda>i. f + i) ` {..< g_n g - f} = {f ..< g_n g}"
      using c(2) by (simp add: image_add_atLeastLessThan lessThan_atLeast0)
    finally show ?thesis using i(2) by simp
  qed
  show ?thesis
  proof (cases "find (\<lambda>i. xs ! i = x) [f ..< g_n g]")
    case None
    then have "x \<notin> U" unfolding U by (auto simp: find_None_iff)
    then show ?thesis using r None by simp
  next
    case (Some k)
    then have k: "f \<le> k" "k < g_n g" "xs ! k = x" by (auto simp: find_Some_iff)
    have rk: "r = of_nat (g_n g - 1 - k)" using r Some by simp
    then have ur: "unat r = g_n g - 1 - k" using n by (simp add: unat_of_nat)
    have "unat (r + 1) = unat r + 1" using unat_plus_small [of r 1] ur n k(2) by simp
    then have "r \<noteq> -1" by auto
    then show ?thesis using ur k h(4) [OF k(2)] c(1) U by auto
  qed
qed

theorem POOL_find_ok_witness: "POOL_find 100 301 (POOL_reset 100 True pool0_ram) = -1"
proof -
  have "pool_reach pool0 (POOL_reset (g_pool pool0) True pool0_ram) {}" by (rule pool_reach.reset [OF pool0_ok(2)])
  from POOL_find_ok [OF this pool0_ok(1) refl, of 301] show ?thesis by (simp add: pool0_def)
qed

end
