(* ===== verification/Object.thy ===== *)
theory Object
  imports Pool
begin

text \<open>
  Objects with callbacks on top of the pools, \<open>src/object.c\<close>. An \<open>Object\<close> is the state word, a
  type and three code pointers; the library calls \<open>update\<close> of every allocated object.

  The code of a callback is not part of the library: \<open>call\<close> is a parameter that runs the code at
  an address on an object.
\<close>

definition OBJ_ALLOCATED :: u16 where [cfg]: "OBJ_ALLOCATED = 0x8000"

text \<open>Offsets, in words, of \<open>internalState\<close>, \<open>type\<close>, \<open>init\<close>, \<open>update\<close> and \<open>end\<close>.\<close>

definition obj_internalState :: "ptr \<Rightarrow> ram \<Rightarrow> u16" where
  "obj_internalState obj m = m obj"

definition obj_init :: "ptr \<Rightarrow> ram \<Rightarrow> u32" where
  "obj_init obj m = load32 (obj + 2) m"

definition obj_update :: "ptr \<Rightarrow> ram \<Rightarrow> u32" where
  "obj_update obj m = load32 (obj + 4) m"

definition obj_end :: "ptr \<Rightarrow> ram \<Rightarrow> u32" where
  "obj_end obj m = load32 (obj + 6) m"

text \<open>With error logging (\<open>debug\<close>) the state word is tested; without, every object passes.\<close>

definition isAllocated :: "ptr \<Rightarrow> ram \<Rightarrow> bool" where
  "isAllocated obj m \<longleftrightarrow> obj_internalState obj m AND OBJ_ALLOCATED \<noteq> 0"

definition checkValid :: "bool \<Rightarrow> ptr \<Rightarrow> ram \<Rightarrow> bool" where
  "checkValid debug obj m \<longleftrightarrow> \<not> (debug \<and> \<not> isAllocated obj m)"

definition OBJ_createObjectPool ::
  "bool \<Rightarrow> u16 \<Rightarrow> u16 \<Rightarrow> 'a heap_st_scheme \<Rightarrow> (ptr \<times> 'a heap_st_scheme) option" where
  "OBJ_createObjectPool debug sz objectSize s = POOL_create debug sz objectSize s"

text \<open>\<open>dummy\<close> is the address of \<open>dummyObjectMethod\<close>.\<close>

definition OBJ_create :: "u32 \<Rightarrow> ptr \<Rightarrow> ram \<Rightarrow> ptr \<times> ram" where
  "OBJ_create dummy pool m =
    (let (result, m) = POOL_allocate pool m in
     if result = NULL then (NULL, m)
     else
       (let m = m(result := OBJ_ALLOCATED);
            m = m(result + 1 := 0);
            m = store32 (result + 2) dummy m;
            m = store32 (result + 4) dummy m;
            m = store32 (result + 6) dummy m
        in (result, m)))"

definition OBJ_release :: "bool \<Rightarrow> ptr \<Rightarrow> ptr \<Rightarrow> bool \<Rightarrow> ram \<Rightarrow> ram" where
  "OBJ_release debug pool object maintainCoherency m =
    (if \<not> checkValid debug object m then m
     else
       (let m = POOL_release pool object maintainCoherency m
        in m(object := 0)))"

text \<open>A method of 0 (NULL) stands for the empty method.\<close>

definition OBJ_setInitMethod :: "bool \<Rightarrow> u32 \<Rightarrow> ptr \<Rightarrow> u32 \<Rightarrow> ram \<Rightarrow> ram" where
  "OBJ_setInitMethod debug dummy object method m =
    (if \<not> checkValid debug object m then m
     else if method \<noteq> 0 then store32 (object + 2) method m else store32 (object + 2) dummy m)"

definition OBJ_setUpdateMethod :: "bool \<Rightarrow> u32 \<Rightarrow> ptr \<Rightarrow> u32 \<Rightarrow> ram \<Rightarrow> ram" where
  "OBJ_setUpdateMethod debug dummy object method m =
    (if \<not> checkValid debug object m then m
     else if method \<noteq> 0 then store32 (object + 4) method m else store32 (object + 4) dummy m)"

definition OBJ_setEndMethod :: "bool \<Rightarrow> u32 \<Rightarrow> ptr \<Rightarrow> u32 \<Rightarrow> ram \<Rightarrow> ram" where
  "OBJ_setEndMethod debug dummy object method m =
    (if \<not> checkValid debug object m then m
     else if method \<noteq> 0 then store32 (object + 6) method m else store32 (object + 6) dummy m)"

fun OBJ_updateAll_loop :: "(u32 \<Rightarrow> ptr \<Rightarrow> 'a heap_st_scheme \<Rightarrow> 'a heap_st_scheme) \<Rightarrow> nat \<Rightarrow> ptr \<Rightarrow> 'a heap_st_scheme \<Rightarrow> 'a heap_st_scheme" where
  "OBJ_updateAll_loop call 0 objects s = s"
| "OBJ_updateAll_loop call (Suc num) objects s =
    (let object = load_ptr objects (ram s)
     in OBJ_updateAll_loop call num (objects + 2) (call (obj_update object (ram s)) object s))"

definition OBJ_updateAll ::
  "(u32 \<Rightarrow> ptr \<Rightarrow> 'a heap_st_scheme \<Rightarrow> 'a heap_st_scheme) \<Rightarrow> ptr \<Rightarrow> 'a heap_st_scheme \<Rightarrow> 'a heap_st_scheme" where
  "OBJ_updateAll call pool s =
    OBJ_updateAll_loop call (unat (POOL_getNumAllocated pool (ram s))) (POOL_getFirst pool (ram s)) s"

section \<open>Pools of objects\<close>

text \<open>
  A pool whose objects are \<open>Object\<close>s: at least 8 words each, and the state word says whether an
  object is allocated.
\<close>

definition obj_pool :: "pgeo \<Rightarrow> nat \<Rightarrow> ptr list \<Rightarrow> ram \<Rightarrow> bool" where
  "obj_pool g f xs m \<longleftrightarrow> pool_inv g f xs m \<and> 8 \<le> g_w g \<and>
     (\<forall>i < g_n g. isAllocated (xs ! i) m \<longleftrightarrow> f \<le> i)"

text \<open>Words of different objects are different.\<close>

lemma obj_words_apart:
  assumes "all_objs g xs" "x \<in> set xs" "y \<in> set xs" "x \<noteq> y" "i < g_w g" "j < g_w g"
  shows "x + i \<noteq> y + j"
proof -
  obtain k l where k: "k < g_n g" "x = obj_at g k" "y = obj_at g l" using assms(1-3) by (auto simp: all_objs_def)
  have "(k * (g_w g + 1) + i) div (g_w g + 1) = k" "(l * (g_w g + 1) + j) div (g_w g + 1) = l"
    using assms(5,6) by (intro div_nat_eqI; simp)+
  then have "k * (g_w g + 1) + i \<noteq> l * (g_w g + 1) + j" using assms(4) k by metis
  then show ?thesis unfolding k obj_at_def by simp
qed

lemma pool_inv_stores:
  assumes "pool_inv g f xs m" "geo_ok g" "x \<in> set xs" "i + 1 < g_w g"
  shows "pool_inv g f xs (store32 (x + i) v m)"
proof -
  have "pool_inv g f xs (m(x + i := ucast (drop_bit 16 v)))" using assms by (intro pool_inv_store) auto
  then have "pool_inv g f xs ((m(x + i := ucast (drop_bit 16 v)))(x + (i + 1) := ucast v))"
    using assms by (intro pool_inv_store) auto
  then show ?thesis by (simp add: store32_def add.assoc)
qed

lemma join32: "push_bit 16 (ucast (ucast (drop_bit 16 v) :: u16)) OR ucast (ucast v :: u16) = (v :: u32)"
  using load_store32 [of 0 v "\<lambda>_. 0"] by (simp add: load32_def store32_def)

lemma obj_pool_parts:
  assumes "obj_pool g f xs m"
  shows "pool_inv g f xs m" "all_objs g xs" "length xs = g_n g" "distinct xs" "8 \<le> g_w g" "f \<le> g_n g"
  using assms by (simp_all add: obj_pool_def pool_inv_def all_objs_def)

text \<open>The state words of the objects are no words of the pool's own data.\<close>

lemma state_word:
  assumes "obj_pool g f xs m" "geo_ok g" "x \<in> set xs"
  shows "x \<notin> pool_words g \<union> stack_words g \<union> (\<lambda>y. y - 1) ` set xs"
proof -
  note p = obj_pool_parts [OF assms(1)]
  obtain k where k: "k < g_n g" "x = obj_at g k" using assms(3) p(2) by (auto simp: all_objs_def)
  have w: "0 < g_w g" using p(5) by simp
  have "x \<in> bank_words g" using obj_data(1) [OF k(1) w] k(2) by simp
  moreover have "x \<noteq> y - 1" if "y \<in> set xs" for y
    using that p(2) obj_data(2) [OF k(1) w] k(2) by (auto simp: all_objs_def)
  ultimately show ?thesis using words_disjoint [OF assms(2)] by blast
qed

text \<open>
  C33 \<open>OBJ_create\<close> returns NULL and changes nothing when no object is free; otherwise it returns a
  free object of the pool, now marked as allocated, of type 0 and with all three methods set to the
  empty method, and all other objects keep their state.
\<close>

theorem OBJ_create_ok:
  assumes "obj_pool g f xs m" "geo_ok g" "OBJ_create dummy (g_pool g) m = (x, m')"
  shows "if f = 0 then x = NULL \<and> m' = m
    else x = xs ! (f - 1) \<and> x \<noteq> NULL \<and> obj_pool g (f - 1) xs m' \<and> m' (x + 1) = 0
      \<and> obj_init x m' = dummy \<and> obj_update x m' = dummy \<and> obj_end x m' = dummy
      \<and> (\<forall>y \<in> set xs - {x}. \<forall>i < g_w g. m' (y + i) = m (y + i))"
proof (cases "f = 0")
  case True
  then show ?thesis
    using POOL_allocate_ok [OF obj_pool_parts(1) [OF assms(1)] assms(2)] assms(3) by (simp add: OBJ_create_def)
next
  case False
  note p = obj_pool_parts [OF assms(1)]
  obtain m1 where a: "POOL_allocate (g_pool g) m = (xs ! (f - 1), m1)" "pool_inv g (f - 1) xs m1"
      "\<And>a. a \<notin> pool_words g \<Longrightarrow> m1 a = m a"
    using POOL_allocate_ok [OF p(1) assms(2)] False by auto
  let ?x = "xs ! (f - 1)"
  have mem: "?x \<in> set xs" using False p(3,6) by (intro nth_mem) simp
  then have nz: "?x \<noteq> NULL" using all_objs_obj(2) [OF p(2)] by blast
  define m2 where "m2 = m1(?x := OBJ_ALLOCATED, ?x + 1 := 0)"
  define m3 where "m3 = store32 (?x + 6) dummy (store32 (?x + 4) dummy (store32 (?x + 2) dummy m2))"
  have e: "x = ?x" "m' = m3" using assms(3) a(1) nz by (auto simp: OBJ_create_def m2_def m3_def Let_def)
  have "pool_inv g (f - 1) xs (m1(?x + 0 := OBJ_ALLOCATED))" by (rule pool_inv_store [OF a(2) assms(2) mem]) (use p(5) in simp)
  then have "pool_inv g (f - 1) xs (m1(?x + 0 := OBJ_ALLOCATED, ?x + 1 := 0))"
    by (rule pool_inv_store [OF _ assms(2) mem]) (use p(5) in simp)
  then have "pool_inv g (f - 1) xs m2" by (simp add: m2_def)
  then have i3: "pool_inv g (f - 1) xs m3"
    unfolding m3_def by (intro pool_inv_stores [OF _ assms(2) mem]) (use p(5) in simp_all)
  have st: "m3 ?x = OBJ_ALLOCATED" "m3 (?x + 1) = 0" by (simp_all add: m3_def m2_def)
  have cb: "obj_init ?x m3 = dummy" "obj_update ?x m3 = dummy" "obj_end ?x m3 = dummy"
    unfolding obj_init_def obj_update_def obj_end_def m3_def
    by (simp_all add: load32_def store32_def join32)
  have other: "m3 (y + i) = m (y + i)" if "y \<in> set xs - {?x}" "i < g_w g" for y i
  proof -
    have "y + i \<noteq> ?x + j" if "j < 8" for j
      using obj_words_apart [OF p(2) _ mem, of y i j] \<open>y \<in> set xs - {?x}\<close> \<open>i < g_w g\<close> p(5) that by auto
    from this [of 0] this [of 1] this [of 2] this [of 3] this [of 4] this [of 5] this [of 6] this [of 7]
    have "m3 (y + i) = m1 (y + i)" by (simp add: m3_def m2_def store32_def)
    moreover obtain k where "k < g_n g" "y = obj_at g k"
      using \<open>y \<in> set xs - {?x}\<close> p(2) by (auto simp: all_objs_def)
    then have "y + i \<in> bank_words g" using obj_data(1) [OF _ that(2)] by simp
    then have "m1 (y + i) = m (y + i)" using a(3) words_disjoint(2) [OF assms(2)] by blast
    ultimately show ?thesis by simp
  qed
  have "isAllocated (xs ! i) m3 \<longleftrightarrow> f - 1 \<le> i" if i: "i < g_n g" for i
  proof (cases "i = f - 1")
    case True
    then show ?thesis using st(1) by (simp add: isAllocated_def obj_internalState_def cfg)
  next
    case ne: False
    then have "xs ! i \<noteq> ?x" using i p(3,4,6) False by (simp add: nth_eq_iff_index_eq)
    then have "m3 (xs ! i) = m (xs ! i)" using other [of "xs ! i" 0] i p(3,5) by simp
    then have "isAllocated (xs ! i) m3 = isAllocated (xs ! i) m" by (simp add: isAllocated_def obj_internalState_def)
    then show ?thesis using assms(1) i ne False by (auto simp: obj_pool_def)
  qed
  then have "obj_pool g (f - 1) xs m3" using i3 p(5) by (simp add: obj_pool_def)
  then show ?thesis using False e nz st(2) cb other by simp
qed

text \<open>A cleared pool has no allocated object.\<close>

lemma obj_pool_reset:
  assumes "geo_ok g" "pool_hdr0 g m" "g_n g * (2 * g_w g + 2) < 65536" "8 \<le> g_w g"
  shows "obj_pool g (g_n g) (map (obj_at g) [0 ..< g_n g]) (POOL_reset (g_pool g) True m)"
proof -
  have r: "pool_inv g (g_n g) (map (obj_at g) [0 ..< g_n g]) (POOL_reset (g_pool g) True m)"
      "\<forall>k < g_n g. \<forall>i < g_w g. POOL_reset (g_pool g) True m (obj_at g k + i) = 0"
    using POOL_reset_ok [OF assms(1,2), of True] assms(3) by simp_all
  have "POOL_reset (g_pool g) True m (obj_at g k) = 0" if "k < g_n g" for k
    using r(2) that assms(4) by (metis add.right_neutral less_le_trans zero_less_numeral)
  then show ?thesis using r(1) assms(4) by (simp add: obj_pool_def isAllocated_def obj_internalState_def)
qed

text \<open>A pool of two objects of 8 words.\<close>

definition opool0 :: pgeo where
  "opool0 = \<lparr>g_pool = 100, g_bank = 300, g_stack = 200, g_n = 2, g_w = 8\<rparr>"

definition opool0_ram :: ram where
  "opool0_ram = store_ptr 100 300 (store_ptr 102 200 ((\<lambda>_. 0)(106 := 16, 107 := 2)))"

lemma opool0_ok: "geo_ok opool0" "pool_hdr0 opool0 opool0_ram"
proof -
  show "geo_ok opool0" by (auto simp: geo_ok_def opool0_def bank_words_def stack_words_def pool_words_def)
  have "load_ptr 100 opool0_ram = 300" unfolding opool0_ram_def by simp
  moreover have "load_ptr 102 opool0_ram = load_ptr 102 (store_ptr 102 200 ((\<lambda>_. 0)(106 := 16, 107 := 2)))"
    unfolding opool0_ram_def by (rule load_ptr_cong) simp_all
  ultimately show "pool_hdr0 opool0 opool0_ram"
    by (simp add: pool_hdr0_def pool_fields opool0_def) (simp add: opool0_ram_def)
qed

lemma opool0_pool: "obj_pool opool0 2 [301, 310] (POOL_reset 100 True opool0_ram)"
  using obj_pool_reset [OF opool0_ok] by (simp add: opool0_def obj_at_def upt_rec)

theorem OBJ_create_ok_witness:
  "\<exists>m'. OBJ_create 0x1234 100 (POOL_reset 100 True opool0_ram) = (310, m') \<and> obj_update 310 m' = 0x1234"
proof -
  let ?m = "POOL_reset 100 True opool0_ram"
  obtain x m' where c: "OBJ_create 0x1234 (g_pool opool0) ?m = (x, m')" by fastforce
  from OBJ_create_ok [OF opool0_pool opool0_ok(1) c] have "x = 310 \<and> obj_update x m' = 0x1234" by auto
  then show ?thesis using c by (auto simp: opool0_def)
qed

text \<open>
  C34 With error checking on, releasing an object that is not allocated (a double release) changes
  nothing; releasing an allocated one (keeping coherency) takes exactly this object out of the
  allocated ones, marks it as free and keeps the pool consistent.
\<close>

theorem OBJ_release_ok:
  assumes "obj_pool g f xs m" "geo_ok g" "x \<in> set xs" "m' = OBJ_release True (g_pool g) x True m"
  shows "if x \<in> set (drop f xs)
    then \<exists>ys. obj_pool g (f + 1) ys m' \<and> set (drop (f + 1) ys) = set (drop f xs) - {x} \<and> \<not> isAllocated x m'
    else m' = m"
proof -
  note p = obj_pool_parts [OF assms(1)]
  obtain k where k: "k < length xs" "xs ! k = x" using assms(3) by (auto simp: in_set_conv_nth)
  have al: "isAllocated x m \<longleftrightarrow> f \<le> k" using assms(1) k p(3) by (auto simp: obj_pool_def)
  have dr: "x \<in> set (drop f xs) \<longleftrightarrow> f \<le> k"
  proof
    assume "x \<in> set (drop f xs)"
    then obtain j where "j < length xs - f" "xs ! (f + j) = x" by (auto simp: in_set_conv_nth)
    then show "f \<le> k" using k p(4) nth_eq_iff_index_eq [of xs k "f + j"] by simp
  next
    assume "f \<le> k"
    then have "drop f xs ! (k - f) = x" "k - f < length (drop f xs)" using k by simp_all
    then show "x \<in> set (drop f xs)" by (metis nth_mem)
  qed
  show ?thesis
  proof (cases "f \<le> k")
    case False
    then show ?thesis using al dr assms(4) by (simp add: OBJ_release_def checkValid_def)
  next
    case True
    let ?ys = "swapped f k xs"
    define m1 where "m1 = POOL_release (g_pool g) x True m"
    have m': "m' = m1(x + 0 := 0)" using assms(4) al True by (simp add: OBJ_release_def checkValid_def m1_def)
    have r: "pool_inv g (f + 1) ?ys m1"
        "\<And>a. a \<notin> pool_words g \<union> stack_words g \<union> (\<lambda>y. y - 1) ` set xs \<Longrightarrow> m1 a = m a"
      using POOL_release_ok [OF p(1) assms(2) True] k p(3) by (auto simp: m1_def)
    have fl: "f < length xs" using True k by simp
    have "set ?ys = set xs" unfolding swapped_def by (rule set_swap [OF fl k(1)])
    then have ys: "x \<in> set ?ys" "set ?ys = set xs" "length ?ys = g_n g" using assms(3) p(3) by simp_all
    have i': "pool_inv g (f + 1) ?ys m'" unfolding m' by (rule pool_inv_store [OF r(1) assms(2) ys(1)]) (use p(5) in simp)
    have "isAllocated (?ys ! i) m' \<longleftrightarrow> f + 1 \<le> i" if i: "i < g_n g" for i
    proof (cases "?ys ! i = x")
      case e: True
      have "swapped f k xs ! i = xs ! k" using e k by simp
      then have "i = f" using i fl k p(3,4) by (auto simp: swapped_nth nth_eq_iff_index_eq split: if_splits)
      then show ?thesis using e m' by (simp add: isAllocated_def obj_internalState_def)
    next
      case ne: False
      have mem: "?ys ! i \<in> set xs" using i ys by (metis nth_mem)
      have "m' (?ys ! i) = m1 (?ys ! i)" using ne m' by simp
      also have "\<dots> = m (?ys ! i)" by (rule r(2) [OF state_word [OF assms(1,2) mem]])
      finally have "isAllocated (?ys ! i) m' = isAllocated (?ys ! i) m" by (simp add: isAllocated_def obj_internalState_def)
      also have "\<dots> \<longleftrightarrow> f + 1 \<le> i"
        using assms(1) i fl k p(3) ne True by (auto simp: swapped_nth obj_pool_def split: if_splits)
      finally show ?thesis .
    qed
    then have "obj_pool g (f + 1) ?ys m'" using i' p(5) by (simp add: obj_pool_def)
    moreover have "set (drop (f + 1) ?ys) = set (drop f xs) - {x}" using swapped_drop [OF True k(1) p(4)] k(2) by simp
    moreover have "\<not> isAllocated x m'" using m' by (simp add: isAllocated_def obj_internalState_def)
    ultimately show ?thesis using dr True by auto
  qed
qed

theorem OBJ_release_ok_witness:
  "OBJ_release True 100 310 True (POOL_reset 100 True opool0_ram) = POOL_reset 100 True opool0_ram"
  using OBJ_release_ok [OF opool0_pool opool0_ok(1), of 310, OF _ refl] by (simp add: opool0_def)

text \<open>Running the update method of the objects of a list, one after the other.\<close>

definition run_updates ::
  "(u32 \<Rightarrow> ptr \<Rightarrow> 'a heap_st_scheme \<Rightarrow> 'a heap_st_scheme) \<Rightarrow> ptr list \<Rightarrow> 'a heap_st_scheme \<Rightarrow> 'a heap_st_scheme" where
  "run_updates call xs s = fold (\<lambda>x s. call (obj_update x (ram s)) x s) xs s"

text \<open>
  The entries of the stack behind position \<open>j\<close> are the same in two memories. A method that releases
  the object it is called for leaves them alone, and so does one that does not touch the pool.
\<close>

definition same_rest :: "pgeo \<Rightarrow> nat \<Rightarrow> ram \<Rightarrow> ram \<Rightarrow> bool" where
  "same_rest g j m m' \<longleftrightarrow> (\<forall>i. j < i \<and> i < g_n g \<longrightarrow> load_ptr (g_stack g + 2 * i) m' = load_ptr (g_stack g + 2 * i) m)"

lemma release_same_rest:
  assumes "pool_inv g f xs m" "geo_ok g" "f \<le> j" "j < g_n g" "0 < g_w g"
  shows "same_rest g j m (OBJ_release debug (g_pool g) (xs ! j) True m)"
proof (cases "checkValid debug (xs ! j) m")
  case True
  have p: "length xs = g_n g" "all_objs g xs" "stack_rep g xs m" using assms(1) by (simp_all add: pool_inv_def all_objs_def)
  define m1 where "m1 = POOL_release (g_pool g) (xs ! j) True m"
  have st: "stack_rep g (swapped f j xs) m1"
    using POOL_release_ok [OF assms(1,2,3,4)] by (simp add: pool_inv_def m1_def)
  have "load_ptr (g_stack g + 2 * i) m1 = load_ptr (g_stack g + 2 * i) m" if "j < i" "i < g_n g" for i
    using that st p(1,3) assms(3,4) by (simp add: stack_rep_def swapped_nth)
  moreover have "load_ptr (g_stack g + 2 * i) (m1(xs ! j := 0)) = load_ptr (g_stack g + 2 * i) m1" if "i < g_n g" for i
  proof (rule load_ptr_cong)
    have "xs ! j \<in> set xs" using p(1) assms(4) by simp
    then obtain k where k: "k < g_n g" "xs ! j = obj_at g k" using p(2) by (auto simp: all_objs_def)
    have "obj_at g k \<notin> stack_words g" using obj_data(1) [OF k(1) assms(5)] words_disjoint(1) [OF assms(2)] by simp
    then have n: "xs ! j \<notin> stack_words g" using k(2) by simp
    show "(m1(xs ! j := 0)) (g_stack g + 2 * i) = m1 (g_stack g + 2 * i)"
      "(m1(xs ! j := 0)) (g_stack g + 2 * i + 1) = m1 (g_stack g + 2 * i + 1)"
      using n stack_word [OF that] by auto
  qed
  ultimately show ?thesis using True by (simp add: OBJ_release_def m1_def same_rest_def)
qed (simp add: OBJ_release_def same_rest_def)

text \<open>
  C35 \<open>OBJ_updateAll\<close> calls the update method of every object that is allocated when it starts exactly
  once, in the order of the allocation stack, as long as the methods it calls, in the states it calls them in, leave the
  part of the stack alone that is still to be visited. They may change everything else, and may release
  the object they are called for.
\<close>

theorem OBJ_updateAll_ok:
  assumes "pool_inv g f xs (ram s)" "geo_ok g"
    and keep: "\<And>j t. f \<le> j \<Longrightarrow> j < g_n g \<Longrightarrow> t = run_updates call (take (j - f) (drop f xs)) s \<Longrightarrow>
      same_rest g j (ram t) (ram (call (obj_update (xs ! j) (ram t)) (xs ! j) t))"
  shows "OBJ_updateAll call (g_pool g) s = run_updates call (drop f xs) s"
proof -
  have len: "length xs = g_n g" "f \<le> g_n g" using assms(1) by (simp_all add: pool_inv_def all_objs_def)
  let ?t = "\<lambda>j. run_updates call (take (j - f) (drop f xs)) s"
  have stp: "?t (Suc j) = call (obj_update (xs ! j) (ram (?t j))) (xs ! j) (?t j)" if "f \<le> j" "j < g_n g" for j
    using that len by (simp add: run_updates_def Suc_diff_le take_Suc_conv_app_nth)
  have rest: "\<forall>i. j \<le> i \<and> i < g_n g \<longrightarrow> load_ptr (g_stack g + 2 * i) (ram (?t j)) = xs ! i" if "f \<le> j" "j \<le> g_n g" for j
    using that
  proof (induction j rule: dec_induct)
    case base
    then show ?case using assms(1) by (simp add: run_updates_def pool_inv_def stack_rep_def)
  next
    case (step j)
    have "same_rest g j (ram (?t j)) (ram (?t (Suc j)))"
      using keep [OF step.hyps(1) _ refl] stp [OF step.hyps(1)] step.prems by simp
    then show ?case using step by (simp add: same_rest_def)
  qed
  have "OBJ_updateAll_loop call n (g_stack g + 2 * j) (?t j) = ?t (g_n g)" if "f \<le> j" "j + n = g_n g" for n j
    using that
  proof (induction n arbitrary: j)
    case (Suc n)
    then show ?case using rest [of j] stp [of j] Suc.IH [of "Suc j"] by (simp add: Let_def)
  qed simp
  from this [of f "g_n g - f"] have "OBJ_updateAll_loop call (g_n g - f) (g_stack g + 2 * f) s = run_updates call (drop f xs) s"
    using len by (simp add: run_updates_def)
  moreover have "unat (POOL_getNumAllocated (g_pool g) (ram s)) = g_n g - f"
  proof -
    have "g_n g - f < 65536" using assms(2) unfolding geo_ok_def by linarith
    then show ?thesis unfolding POOL_counts(2) [OF assms(1,2)] by (simp add: unat_of_nat)
  qed
  moreover have "POOL_getFirst (g_pool g) (ram s) = g_stack g + 2 * f"
    using assms(1) by (simp add: pool_inv_def pool_hdr_def POOL_getFirst_def)
  ultimately show ?thesis by (simp add: OBJ_updateAll_def)
qed

text \<open>
  Both objects of the small pool allocated, with the update methods 1 and 2; method 1 releases its
  object, method 2 writes to the type field of its object.
\<close>

definition opool2_ram :: ram where
  "opool2_ram = (\<lambda>_. 0)(101 := 600, 103 := 400, 105 := 400, 106 := 16, 107 := 2, 201 := 602, 203 := 620,
     309 := 1, 301 := 0x8000, 306 := 1, 310 := 0x8000, 315 := 2)"

lemma opool2_ok: "pool_inv opool0 0 [301, 310] opool2_ram"
proof -
  have "load_ptr 100 opool2_ram = 300" "load_ptr 102 opool2_ram = 200" "load_ptr 104 opool2_ram = 200"
    "load_ptr 200 opool2_ram = 301" "load_ptr 202 opool2_ram = 310"
    by (simp_all add: load_ptr_def load32_def opool2_ram_def)
  note l = this
  have "pool_hdr opool0 0 opool2_ram"
    by (simp add: pool_hdr_def pool_hdr0_def pool_fields opool0_def l) (simp add: opool2_ram_def)
  moreover have "stack_rep opool0 [301, 310] opool2_ram" using l(4,5) by (simp add: stack_rep_def opool0_def less_2_cases_iff)
  moreover have "index_rep opool0 [301, 310] opool2_ram"
    by (auto simp: index_rep_def opool0_def less_2_cases_iff) (simp_all add: opool2_ram_def)
  moreover have "all_objs opool0 [301, 310]"
    by (auto simp: all_objs_def opool0_def obj_at_def lessThan_nat_numeral)
  ultimately show ?thesis by (simp add: pool_inv_def)
qed

definition call0 :: "u32 \<Rightarrow> ptr \<Rightarrow> heap_st \<Rightarrow> heap_st" where
  "call0 c x s = (if c = 1 then s\<lparr>ram := OBJ_release True 100 x True (ram s)\<rparr> else s\<lparr>ram := (ram s)(x + 1 := 7)\<rparr>)"

theorem OBJ_updateAll_ok_witness:
  "ram (OBJ_updateAll call0 100 (tiny\<lparr>ram := opool2_ram\<rparr>)) 301 = 0 \<and> ram (OBJ_updateAll call0 100 (tiny\<lparr>ram := opool2_ram\<rparr>)) 311 = 7"
proof -
  let ?s = "tiny\<lparr>ram := opool2_ram\<rparr>"
  have u: "obj_update 301 opool2_ram = 1" by (simp add: obj_update_def load32_def opool2_ram_def)
  define m where "m = OBJ_release True 100 301 True opool2_ram"
  have s1: "same_rest opool0 0 opool2_ram m"
    using release_same_rest [OF opool2_ok opool0_ok(1), of 0 True] by (simp add: m_def opool0_def)
  have w: "m 301 = 0" "obj_update 310 m = 2"
    unfolding m_def OBJ_release_def
    by (simp_all add: checkValid_def isAllocated_def obj_internalState_def OBJ_ALLOCATED_def opool2_ram_def POOL_release_def
        pool_fields load_ptr_def store_ptr_def load32_def store32_def obj_update_def)
  have r: "run_updates call0 [301] ?s = ?s\<lparr>ram := m\<rparr>" "run_updates call0 [301, 310] ?s = ?s\<lparr>ram := m(311 := 7)\<rparr>"
    using u w by (simp_all add: run_updates_def call0_def m_def)
  have "OBJ_updateAll call0 (g_pool opool0) ?s = run_updates call0 (drop 0 [301, 310]) ?s"
  proof (rule OBJ_updateAll_ok [OF _ opool0_ok(1)])
    show "pool_inv opool0 0 [301, 310] (ram ?s)" using opool2_ok by simp
    fix j t
    assume "j < g_n opool0" "t = run_updates call0 (take (j - 0) (drop 0 [301, 310])) ?s"
    then have "j = 0 \<and> t = ?s \<or> j = 1 \<and> t = ?s\<lparr>ram := m\<rparr>" using r(1) by (auto simp: opool0_def less_2_cases_iff run_updates_def)
    then show "same_rest opool0 j (ram t) (ram (call0 (obj_update ([301, 310] ! j) (ram t)) ([301, 310] ! j) t))"
      using s1 u by (auto simp: call0_def m_def same_rest_def opool0_def)
  qed
  then show ?thesis using r(2) w(1) by (simp add: opool0_def)
qed

end
