(* ===== verification/Vdp.thy ===== *)
theory Vdp
  imports Memory
begin

text \<open>
  The register layer of the video processor driver, \<open>src/vdp.c\<close>. The driver keeps a copy of
  the write-only registers (\<open>regValues\<close>) and variables derived from them (table addresses,
  screen and plane size). Its effects on the hardware are writes to the control port, the data
  port and the Z80 bus ports; the model records them in order in the list \<open>io\<close>.

  Changing a table address may move the font and the sprite tiles: \<open>updateMapsAddress\<close> then
  calls \<open>VDP_loadDefaultFont\<close>, \<open>MEM_pack\<close> and the sprite engine's \<open>SPR_isInitialized\<close> and
  \<open>SPR_defragVRAM\<close>. The font loader and the sprite engine are the fields of the record
  \<open>hooks\<close>, a parameter of the operations that reach them.

  The second half of the theory states what the chip's control port does with the words written
  to it (\<open>chip\<close>), and shows that the driver's copy of the registers agrees with the chip and
  that the derived variables agree with the registers.
\<close>

section \<open>State\<close>

datatype io =
    CtrlW u16
  | CtrlL u32
  | DataW u16
  | DataL u32
  | BusW u16
  | ResetW u16

record vdp_st = heap_st +
  regValues :: "nat \<Rightarrow> u8"
  window_addr :: u16
  bga_addr :: u16
  bgb_addr :: u16
  hscrl_addr :: u16
  slist_addr :: u16
  maps_addr :: u16
  userTileMaxIndex :: u16
  screenWidth :: u16
  screenHeight :: u16
  planeWidth :: u16
  planeHeight :: u16
  windowWidth :: u16
  planeWidthSft :: u16
  planeHeightSft :: u16
  windowWidthSft :: u16
  spriteVramSize :: u16
  isPal :: bool
  z80bus :: bool
  io :: "io list"

text \<open>
  The operations outside this file that \<open>updateMapsAddress\<close> calls. \<open>isPal\<close> above is the
  console type \<open>IS_PAL_SYSTEM\<close> reads from the hardware and \<open>z80bus\<close> whether the 68000 holds
  the Z80 bus.
\<close>

datatype TransferMethod = CPU | DMA | DMA_QUEUE | DMA_QUEUE_COPY

record 's hooks =
  loadDefaultFont :: "TransferMethod \<Rightarrow> 's \<Rightarrow> 's option"
  SPR_isInitialized :: "'s \<Rightarrow> bool"
  SPR_defragVRAM :: "'s \<Rightarrow> 's option"

section \<open>Ports and registers\<close>

definition ctrl_w :: "u16 \<Rightarrow> 'a vdp_st_scheme \<Rightarrow> 'a vdp_st_scheme" where
  "ctrl_w v s = s\<lparr>io := io s @ [CtrlW v]\<rparr>"

definition ctrl_l :: "u32 \<Rightarrow> 'a vdp_st_scheme \<Rightarrow> 'a vdp_st_scheme" where
  "ctrl_l v s = s\<lparr>io := io s @ [CtrlL v]\<rparr>"

definition data_w :: "u16 \<Rightarrow> 'a vdp_st_scheme \<Rightarrow> 'a vdp_st_scheme" where
  "data_w v s = s\<lparr>io := io s @ [DataW v]\<rparr>"

definition data_l :: "u32 \<Rightarrow> 'a vdp_st_scheme \<Rightarrow> 'a vdp_st_scheme" where
  "data_l v s = s\<lparr>io := io s @ [DataL v]\<rparr>"

definition set_reg :: "nat \<Rightarrow> u8 \<Rightarrow> 'a vdp_st_scheme \<Rightarrow> 'a vdp_st_scheme" where
  "set_reg r v s = s\<lparr>regValues := (regValues s)(r := v)\<rparr>"

text \<open>\<open>regValues[r] = v; *pw = (0x8000 | (r << 8)) | regValues[r];\<close> with \<open>base\<close> the constant.\<close>

definition write_reg :: "u16 \<Rightarrow> nat \<Rightarrow> u8 \<Rightarrow> 'a vdp_st_scheme \<Rightarrow> 'a vdp_st_scheme" where
  "write_reg base r v s = ctrl_w (base OR ucast v) (set_reg r v s)"

text \<open>\<open>if (value) regValues[r] |= m; else regValues[r] &= ~m;\<close> and the write of the register.\<close>

definition flag_reg :: "u16 \<Rightarrow> nat \<Rightarrow> u8 \<Rightarrow> bool \<Rightarrow> 'a vdp_st_scheme \<Rightarrow> 'a vdp_st_scheme" where
  "flag_reg base r m value s =
     write_reg base r (if value then regValues s r OR m else regValues s r AND NOT m) s"

definition VDP_getReg :: "u16 \<Rightarrow> 'a vdp_st_scheme \<Rightarrow> u8" where
  "VDP_getReg reg s = (if reg < 0x13 then regValues s (unat reg) else 0)"

definition VDP_getEnable :: "'a vdp_st_scheme \<Rightarrow> bool" where
  "VDP_getEnable s \<longleftrightarrow> regValues s 1 AND 0x40 \<noteq> 0"

definition VDP_isEnable :: "'a vdp_st_scheme \<Rightarrow> bool" where
  "VDP_isEnable s = VDP_getEnable s"

definition VDP_setEnable :: "bool \<Rightarrow> 'a vdp_st_scheme \<Rightarrow> 'a vdp_st_scheme" where
  "VDP_setEnable value s = flag_reg 0x8100 1 0x40 value s"

definition VDP_getScanlineNumber :: "'a vdp_st_scheme \<Rightarrow> u16" where
  "VDP_getScanlineNumber s = (if isPal s then 312 else 262)"

definition VDP_setScreenHeight224 :: "'a vdp_st_scheme \<Rightarrow> 'a vdp_st_scheme" where
  "VDP_setScreenHeight224 s = (flag_reg 0x8100 1 0x08 False s)\<lparr>screenHeight := 224\<rparr>"

definition VDP_setScreenHeight240 :: "'a vdp_st_scheme \<Rightarrow> 'a vdp_st_scheme" where
  "VDP_setScreenHeight240 s =
     (if isPal s then (flag_reg 0x8100 1 0x08 True s)\<lparr>screenHeight := 240\<rparr> else s)"

definition VDP_setScreenWidth256 :: "'a vdp_st_scheme \<Rightarrow> 'a vdp_st_scheme" where
  "VDP_setScreenWidth256 s =
     (flag_reg 0x8C00 0xC 0x81 False s)\<lparr>screenWidth := 256, windowWidth := 32, windowWidthSft := 5\<rparr>"

definition VDP_setScreenWidth320 :: "'a vdp_st_scheme \<Rightarrow> 'a vdp_st_scheme" where
  "VDP_setScreenWidth320 s =
     (flag_reg 0x8C00 0xC 0x81 True s)\<lparr>screenWidth := 320, windowWidth := 64, windowWidthSft := 6\<rparr>"

definition VDP_getVerticalScrollingMode :: "'a vdp_st_scheme \<Rightarrow> u8" where
  "VDP_getVerticalScrollingMode s = drop_bit 2 (regValues s 0xB) AND 1"

definition VDP_getHorizontalScrollingMode :: "'a vdp_st_scheme \<Rightarrow> u8" where
  "VDP_getHorizontalScrollingMode s = regValues s 0xB AND 3"

definition VDP_setScrollingMode :: "u16 \<Rightarrow> u16 \<Rightarrow> 'a vdp_st_scheme \<Rightarrow> 'a vdp_st_scheme" where
  "VDP_setScrollingMode hscroll vscroll s =
     write_reg 0x8B00 0xB ((regValues s 0xB AND NOT 0x07)
       OR ucast (push_bit 2 (vscroll AND 1) OR (hscroll AND 3))) s"

definition VDP_setBackgroundColor :: "u8 \<Rightarrow> 'a vdp_st_scheme \<Rightarrow> 'a vdp_st_scheme" where
  "VDP_setBackgroundColor value s = write_reg 0x8700 7 (value AND 0x3F) s"

definition VDP_getAutoInc :: "'a vdp_st_scheme \<Rightarrow> u8" where
  "VDP_getAutoInc s = regValues s 0xF"

definition VDP_setAutoInc :: "u8 \<Rightarrow> 'a vdp_st_scheme \<Rightarrow> 'a vdp_st_scheme" where
  "VDP_setAutoInc value s = write_reg 0x8F00 0xF value s"

definition VDP_getDMAEnabled :: "'a vdp_st_scheme \<Rightarrow> u8" where
  "VDP_getDMAEnabled s = regValues s 1 AND 0x10"

definition VDP_setDMAEnabled :: "bool \<Rightarrow> 'a vdp_st_scheme \<Rightarrow> 'a vdp_st_scheme" where
  "VDP_setDMAEnabled value s = flag_reg 0x8100 1 0x10 value s"

definition VDP_getHVLatching :: "'a vdp_st_scheme \<Rightarrow> u8" where
  "VDP_getHVLatching s = regValues s 0 AND 0x02"

definition VDP_setHVLatching :: "bool \<Rightarrow> 'a vdp_st_scheme \<Rightarrow> 'a vdp_st_scheme" where
  "VDP_setHVLatching value s = flag_reg 0x8000 0 0x02 value s"

definition VDP_setVInterrupt :: "bool \<Rightarrow> 'a vdp_st_scheme \<Rightarrow> 'a vdp_st_scheme" where
  "VDP_setVInterrupt value s = flag_reg 0x8100 1 0x20 value s"

definition VDP_setHInterrupt :: "bool \<Rightarrow> 'a vdp_st_scheme \<Rightarrow> 'a vdp_st_scheme" where
  "VDP_setHInterrupt value s = flag_reg 0x8000 0 0x10 value s"

definition VDP_setExtInterrupt :: "bool \<Rightarrow> 'a vdp_st_scheme \<Rightarrow> 'a vdp_st_scheme" where
  "VDP_setExtInterrupt value s = flag_reg 0x8B00 0xB 0x08 value s"

definition VDP_setHilightShadow :: "bool \<Rightarrow> 'a vdp_st_scheme \<Rightarrow> 'a vdp_st_scheme" where
  "VDP_setHilightShadow value s = flag_reg 0x8C00 0xC 0x08 value s"

definition VDP_setHIntCounter :: "u8 \<Rightarrow> 'a vdp_st_scheme \<Rightarrow> 'a vdp_st_scheme" where
  "VDP_setHIntCounter value s = write_reg 0x8A00 0xA value s"

definition VDP_setScanMode :: "u16 \<Rightarrow> 'a vdp_st_scheme \<Rightarrow> 'a vdp_st_scheme" where
  "VDP_setScanMode value s =
     write_reg 0x8C00 0xC
       (if value = 0 then regValues s 0xC AND NOT 0x06
        else if value = 1 then (regValues s 0xC AND NOT 0x04) OR 0x02
        else regValues s 0xC OR 0x06) s"

definition VDP_setWindowHPos :: "bool \<Rightarrow> u16 \<Rightarrow> 'a vdp_st_scheme \<Rightarrow> 'a vdp_st_scheme" where
  "VDP_setWindowHPos right pos s =
    (let v = pos AND 0x7F; v = (if right then v OR 0x80 else v)
     in ctrl_w (0x9100 OR v) (set_reg 0x11 (ucast v) s))"

definition VDP_setWindowVPos :: "bool \<Rightarrow> u16 \<Rightarrow> 'a vdp_st_scheme \<Rightarrow> 'a vdp_st_scheme" where
  "VDP_setWindowVPos down pos s =
    (let v = pos AND 0x7F; v = (if down then v OR 0x80 else v)
     in ctrl_w (0x9200 OR v) (set_reg 0x12 (ucast v) s))"

definition VDP_setWindowOff :: "'a vdp_st_scheme \<Rightarrow> 'a vdp_st_scheme" where
  "VDP_setWindowOff s = VDP_setWindowHPos False 0 (VDP_setWindowVPos False 0 s)"

definition VDP_setWindowOnTop :: "u16 \<Rightarrow> 'a vdp_st_scheme \<Rightarrow> 'a vdp_st_scheme" where
  "VDP_setWindowOnTop rows s = VDP_setWindowVPos False rows s"

definition VDP_setWindowOnBottom :: "u16 \<Rightarrow> 'a vdp_st_scheme \<Rightarrow> 'a vdp_st_scheme" where
  "VDP_setWindowOnBottom rows s = VDP_setWindowVPos True (screenHeight s div 8 - rows) s"

definition VDP_setWindowOnLeft :: "u16 \<Rightarrow> 'a vdp_st_scheme \<Rightarrow> 'a vdp_st_scheme" where
  "VDP_setWindowOnLeft cols s = VDP_setWindowHPos False cols s"

definition VDP_setWindowOnRight :: "u16 \<Rightarrow> 'a vdp_st_scheme \<Rightarrow> 'a vdp_st_scheme" where
  "VDP_setWindowOnRight cols s = VDP_setWindowHPos True (screenWidth s div 16 - cols) s"

definition VDP_setWindowFullScreen :: "'a vdp_st_scheme \<Rightarrow> 'a vdp_st_scheme" where
  "VDP_setWindowFullScreen s = VDP_setWindowVPos False (screenHeight s div 8) s"

definition getAdjustedVCounterInternal :: "u16 \<Rightarrow> u16 \<Rightarrow> 'a vdp_st_scheme \<Rightarrow> u16" where
  "getAdjustedVCounterInternal blank vcnt s =
    (if isPal s then
       (if blank \<noteq> 0 \<and> (vcnt \<ge> 0xCA \<or> vcnt \<le> 0x0A) then 8
        else if vcnt \<ge> screenHeight s then 8
        else vcnt + 16)
     else
       (if blank \<noteq> 0 \<and> vcnt \<ge> 0xDF then 16
        else if vcnt \<ge> 224 then 16
        else vcnt + 32))"

definition VDP_getScreenHeight :: "'a vdp_st_scheme \<Rightarrow> u16" where
  "VDP_getScreenHeight s = screenHeight s"

definition VDP_getScreenWidth :: "'a vdp_st_scheme \<Rightarrow> u16" where
  "VDP_getScreenWidth s = screenWidth s"

definition VDP_getPlaneWidth :: "'a vdp_st_scheme \<Rightarrow> u16" where
  "VDP_getPlaneWidth s = planeWidth s"

definition VDP_getPlaneHeight :: "'a vdp_st_scheme \<Rightarrow> u16" where
  "VDP_getPlaneHeight s = planeHeight s"

definition VDP_getBGAAddress :: "'a vdp_st_scheme \<Rightarrow> u16" where
  "VDP_getBGAAddress s = bga_addr s"

definition VDP_getBGBAddress :: "'a vdp_st_scheme \<Rightarrow> u16" where
  "VDP_getBGBAddress s = bgb_addr s"

definition VDP_getWindowAddress :: "'a vdp_st_scheme \<Rightarrow> u16" where
  "VDP_getWindowAddress s = window_addr s"

definition VDP_getSpriteListAddress :: "'a vdp_st_scheme \<Rightarrow> u16" where
  "VDP_getSpriteListAddress s = slist_addr s"

definition VDP_getHScrollTableAddress :: "'a vdp_st_scheme \<Rightarrow> u16" where
  "VDP_getHScrollTableAddress s = hscrl_addr s"

definition VDP_getBackgroundColor :: "'a vdp_st_scheme \<Rightarrow> u8" where
  "VDP_getBackgroundColor s = regValues s 7"

definition VDP_getHIntCounter :: "'a vdp_st_scheme \<Rightarrow> u8" where
  "VDP_getHIntCounter s = regValues s 0xA"

section \<open>Table addresses\<close>

text \<open>\<open>TILE_FONT_INDEX\<close> is \<open>(maps_addr / 32) - FONT_LEN\<close>.\<close>

definition TILE_SIZE :: u16 where [cfg]: "TILE_SIZE = 32"

definition FONT_LEN :: u16 where [cfg]: "FONT_LEN = 96"

definition TILE_FONT_INDEX :: "'a vdp_st_scheme \<Rightarrow> u16" where
  "TILE_FONT_INDEX s = maps_addr s div TILE_SIZE - FONT_LEN"

definition updateUserTileMaxIndex :: "'a vdp_st_scheme \<Rightarrow> 'a vdp_st_scheme" where
  "updateUserTileMaxIndex s = s\<lparr>userTileMaxIndex := TILE_FONT_INDEX s - spriteVramSize s\<rparr>"

definition min_addr :: "'a vdp_st_scheme \<Rightarrow> u16" where
  "min_addr s =
    (let m = window_addr s;
         m = (if bgb_addr s < m then bgb_addr s else m);
         m = (if bga_addr s < m then bga_addr s else m);
         m = (if hscrl_addr s < m then hscrl_addr s else m)
     in if slist_addr s < m then slist_addr s else m)"

definition updateMapsAddress ::
  "'a vdp_st_scheme hooks \<Rightarrow> bool \<Rightarrow> 'a vdp_st_scheme \<Rightarrow> 'a vdp_st_scheme option" where
  "updateMapsAddress hk initializing s =
    (if min_addr s \<noteq> maps_addr s then do {
       let s = updateUserTileMaxIndex (s\<lparr>maps_addr := min_addr s\<rparr>);
       s \<leftarrow> (if \<not> initializing then do { s \<leftarrow> loadDefaultFont hk CPU s; MEM_pack s } else Some s);
       if SPR_isInitialized hk s then SPR_defragVRAM hk s else Some s
     } else Some s)"

definition VDP_setBGAAddress ::
  "'a vdp_st_scheme hooks \<Rightarrow> u16 \<Rightarrow> 'a vdp_st_scheme \<Rightarrow> 'a vdp_st_scheme option" where
  "VDP_setBGAAddress hk value s = do {
     s \<leftarrow> updateMapsAddress hk False (s\<lparr>bga_addr := value AND 0xE000\<rparr>);
     Some (write_reg 0x8200 2 (ucast (bga_addr s div 0x400)) s)
   }"

definition VDP_setBGBAddress ::
  "'a vdp_st_scheme hooks \<Rightarrow> u16 \<Rightarrow> 'a vdp_st_scheme \<Rightarrow> 'a vdp_st_scheme option" where
  "VDP_setBGBAddress hk value s = do {
     s \<leftarrow> updateMapsAddress hk False (s\<lparr>bgb_addr := value AND 0xE000\<rparr>);
     Some (write_reg 0x8400 4 (ucast (bgb_addr s div 0x2000)) s)
   }"

definition VDP_setWindowAddress ::
  "'a vdp_st_scheme hooks \<Rightarrow> u16 \<Rightarrow> 'a vdp_st_scheme \<Rightarrow> 'a vdp_st_scheme option" where
  "VDP_setWindowAddress hk value s = do {
     s \<leftarrow> updateMapsAddress hk False
       (s\<lparr>window_addr := (if regValues s 0xC AND 0x81 \<noteq> 0 then value AND 0xF000 else value AND 0xF800)\<rparr>);
     Some (write_reg 0x8300 3 (ucast (window_addr s div 0x400)) s)
   }"

definition VDP_setSpriteListAddress ::
  "'a vdp_st_scheme hooks \<Rightarrow> u16 \<Rightarrow> 'a vdp_st_scheme \<Rightarrow> 'a vdp_st_scheme option" where
  "VDP_setSpriteListAddress hk value s = do {
     s \<leftarrow> updateMapsAddress hk False
       (s\<lparr>slist_addr := (if regValues s 0xC AND 0x81 \<noteq> 0 then value AND 0xFC00 else value AND 0xFE00)\<rparr>);
     Some (write_reg 0x8500 5 (ucast (slist_addr s div 0x200)) s)
   }"

definition VDP_setHScrollTableAddress ::
  "'a vdp_st_scheme hooks \<Rightarrow> u16 \<Rightarrow> 'a vdp_st_scheme \<Rightarrow> 'a vdp_st_scheme option" where
  "VDP_setHScrollTableAddress hk value s = do {
     s \<leftarrow> updateMapsAddress hk False (s\<lparr>hscrl_addr := value AND 0xFC00\<rparr>);
     Some (write_reg 0x8D00 0xD (ucast (hscrl_addr s div 0x400)) s)
   }"

section \<open>Registers by number, plane size and initialisation\<close>

text \<open>
  The \<open>switch\<close> of \<open>VDP_setReg\<close>: the value to store and the update of the derived variables.
\<close>

definition setReg_plane :: "u8 \<Rightarrow> 'a vdp_st_scheme \<Rightarrow> 'a vdp_st_scheme" where
  "setReg_plane v s =
    (let s = (if v AND 0x02 \<noteq> 0 then s\<lparr>planeWidth := 128, planeWidthSft := 7\<rparr>
              else if v AND 0x01 \<noteq> 0 then s\<lparr>planeWidth := 64, planeWidthSft := 6\<rparr>
              else s\<lparr>planeWidth := 32, planeWidthSft := 5\<rparr>)
     in if v AND 0x20 \<noteq> 0 then s\<lparr>planeHeight := 128, planeHeightSft := 7\<rparr>
        else if v AND 0x10 \<noteq> 0 then s\<lparr>planeHeight := 64, planeHeightSft := 6\<rparr>
        else s\<lparr>planeHeight := 32, planeHeightSft := 5\<rparr>)"

definition setReg_screen :: "u8 \<Rightarrow> 'a vdp_st_scheme \<Rightarrow> 'a vdp_st_scheme" where
  "setReg_screen v s =
    (if v AND 0x81 \<noteq> 0 then s\<lparr>screenWidth := 320, windowWidth := 64, windowWidthSft := 6\<rparr>
     else s\<lparr>screenWidth := 256, windowWidth := 32, windowWidthSft := 5\<rparr>)"

definition setReg_update ::
  "'a vdp_st_scheme hooks \<Rightarrow> u16 \<Rightarrow> u8 \<Rightarrow> 'a vdp_st_scheme \<Rightarrow> (u8 \<times> 'a vdp_st_scheme) option" where
  "setReg_update hk r value s =
    (if r = 0x01 then
       (if isPal s then
          Some (value, s\<lparr>screenHeight := (if value AND 0x08 \<noteq> 0 then 240 else 224)\<rparr>)
        else Some (value AND 0xF7, s))
     else if r = 0x02 then
       (let v = value AND 0x38 in
        map_option (Pair v) (updateMapsAddress hk False (s\<lparr>bga_addr := ucast v * 0x400\<rparr>)))
     else if r = 0x03 then
       (let v = (if regValues s 0xC AND 0x81 \<noteq> 0 then value AND 0x3C else value AND 0x3E) in
        map_option (Pair v) (updateMapsAddress hk False (s\<lparr>window_addr := ucast v * 0x400\<rparr>)))
     else if r = 0x04 then
       (let v = value AND 0x7 in
        map_option (Pair v) (updateMapsAddress hk False (s\<lparr>bgb_addr := ucast v * 0x2000\<rparr>)))
     else if r = 0x05 then
       (let v = (if regValues s 0xC AND 0x81 \<noteq> 0 then value AND 0x7E else value AND 0x7F) in
        map_option (Pair v) (updateMapsAddress hk False (s\<lparr>slist_addr := ucast v * 0x200\<rparr>)))
     else if r = 0x0C then Some (value, setReg_screen value s)
     else if r = 0x0D then
       (let v = value AND 0x3F in
        map_option (Pair v) (updateMapsAddress hk False (s\<lparr>hscrl_addr := ucast v * 0x400\<rparr>)))
     else if r = 0x10 then Some (value, setReg_plane value s)
     else Some (value, s))"

definition VDP_setReg ::
  "'a vdp_st_scheme hooks \<Rightarrow> u16 \<Rightarrow> u8 \<Rightarrow> 'a vdp_st_scheme \<Rightarrow> 'a vdp_st_scheme option" where
  "VDP_setReg hk reg value s = do {
     (v, s) \<leftarrow> setReg_update hk (reg AND 0x1F) value s;
     let s = (if reg < 0x13 then set_reg (unat reg) v s else s);
     Some (ctrl_w ((0x8000 OR push_bit 8 reg) OR ucast v) s)
   }"

text \<open>The plane size and the value of register 16 that \<open>VDP_setPlaneSize\<close> chooses for \<open>w\<close> and \<open>h\<close>.\<close>

definition plane_dims :: "u16 \<Rightarrow> u16 \<Rightarrow> 'a vdp_st_scheme \<Rightarrow> u8 \<times> 'a vdp_st_scheme" where
  "plane_dims w h s =
    (if w AND 0x80 \<noteq> 0 then
       (0x03, s\<lparr>planeWidth := 128, planeWidthSft := 7, planeHeight := 32, planeHeightSft := 5\<rparr>)
     else if w AND 0x40 \<noteq> 0 then
       (let s = s\<lparr>planeWidth := 64, planeWidthSft := 6\<rparr> in
        if h AND 0x40 \<noteq> 0 then (0x11, s\<lparr>planeHeight := 64, planeHeightSft := 6\<rparr>)
        else (0x01, s\<lparr>planeHeight := 32, planeHeightSft := 5\<rparr>))
     else
       (let s = s\<lparr>planeWidth := 32, planeWidthSft := 5\<rparr> in
        if h AND 0x80 \<noteq> 0 then (0x30, s\<lparr>planeHeight := 128, planeHeightSft := 7\<rparr>)
        else if h AND 0x40 \<noteq> 0 then (0x10, s\<lparr>planeHeight := 64, planeHeightSft := 6\<rparr>)
        else (0x00, s\<lparr>planeHeight := 32, planeHeightSft := 5\<rparr>)))"

definition setup_vram :: "'a vdp_st_scheme hooks \<Rightarrow> 'a vdp_st_scheme \<Rightarrow> 'a vdp_st_scheme option" where
  "setup_vram hk s =
    (let sft = unat (planeWidthSft s) + unat (planeHeightSft s) in
     if sft = 10 then do {
       s \<leftarrow> VDP_setBGBAddress hk 0xC000 s;
       s \<leftarrow> VDP_setWindowAddress hk 0xC800 s;
       s \<leftarrow> VDP_setBGAAddress hk 0xE000 s;
       s \<leftarrow> VDP_setSpriteListAddress hk 0xE800 s;
       VDP_setHScrollTableAddress hk 0xEC00 s
     } else if sft = 11 then do {
       s \<leftarrow> VDP_setBGBAddress hk 0xC000 s;
       s \<leftarrow> VDP_setWindowAddress hk 0xD000 s;
       s \<leftarrow> VDP_setBGAAddress hk 0xE000 s;
       s \<leftarrow> VDP_setHScrollTableAddress hk 0xF000 s;
       VDP_setSpriteListAddress hk 0xF400 s
     } else do {
       s \<leftarrow> VDP_setSpriteListAddress hk 0xAC00 s;
       s \<leftarrow> VDP_setHScrollTableAddress hk 0xA800 s;
       s \<leftarrow> VDP_setWindowAddress hk 0xB000 s;
       s \<leftarrow> VDP_setBGBAddress hk 0xC000 s;
       VDP_setBGAAddress hk 0xE000 s
     })"

definition VDP_setPlaneSize ::
  "'a vdp_st_scheme hooks \<Rightarrow> u16 \<Rightarrow> u16 \<Rightarrow> bool \<Rightarrow> 'a vdp_st_scheme \<Rightarrow> 'a vdp_st_scheme option" where
  "VDP_setPlaneSize hk w h setupVram s =
    (let (v, s) = plane_dims w h s; s = write_reg 0x9000 0x10 v s in
     if setupVram then do { s \<leftarrow> setup_vram hk s; updateMapsAddress hk False s } else Some s)"

text \<open>
  \<open>VDP_init\<close> up to the call of \<open>VDP_resetScreen\<close>: variables, register values, the write of all
  registers and the first \<open>updateMapsAddress\<close>. \<open>lastVCnt\<close> only serves the display of the CPU
  load and is left out.
\<close>

definition init_vars :: "'a vdp_st_scheme \<Rightarrow> 'a vdp_st_scheme" where
  "init_vars s = s\<lparr>window_addr := 0xD000, bga_addr := 0xE000, bgb_addr := 0xC000, slist_addr := 0xF400,
     hscrl_addr := 0xF000, screenWidth := 320, screenHeight := 224, planeWidth := 64, planeHeight := 32,
     windowWidth := 64, planeWidthSft := 6, planeHeightSft := 5, windowWidthSft := 6\<rparr>"

definition init_regs :: "'a vdp_st_scheme \<Rightarrow> 'a vdp_st_scheme" where
  "init_regs s = s\<lparr>regValues := (regValues s)(0x00 := 0x04, 0x01 := 0x74, 0x02 := ucast (bga_addr s div 0x400),
     0x03 := ucast (window_addr s div 0x400), 0x04 := ucast (bgb_addr s div 0x2000),
     0x05 := ucast (slist_addr s div 0x200), 0x06 := 0, 0x07 := 0, 0x08 := 0, 0x09 := 0, 0x0A := 0x01,
     0x0B := 0, 0x0C := 0x81, 0x0D := ucast (hscrl_addr s div 0x400), 0x0E := 0, 0x0F := 0x02,
     0x10 := 0x01, 0x11 := 0, 0x12 := 0)\<rparr>"

text \<open>\<open>for (i = 0x00; i < 0x13; i++) *pw = 0x8000 | (i << 8) | regValues[i];\<close>, from \<open>i\<close> on.\<close>

function write_regs :: "nat \<Rightarrow> 'a vdp_st_scheme \<Rightarrow> 'a vdp_st_scheme" where
  "write_regs i s =
    (if i < 0x13 then
       write_regs (Suc i) (ctrl_w ((0x8000 OR push_bit 8 (of_nat i)) OR ucast (regValues s i)) s)
     else s)"
  by pat_completeness auto
termination by (relation "measure (\<lambda>(i, _). 0x13 - i)") auto

definition VDP_init_registers ::
  "'a vdp_st_scheme hooks \<Rightarrow> 'a vdp_st_scheme \<Rightarrow> 'a vdp_st_scheme option" where
  "VDP_init_registers hk s =
     updateMapsAddress hk True ((write_regs 0 (init_regs (init_vars s)))\<lparr>maps_addr := 0\<rparr>)"

declare write_regs.simps [simp del]

section \<open>The control port\<close>

text \<open>
  What the chip does with the words written to its control port. A word \<open>10xrrrrr dddddddd\<close>
  sets register \<open>r\<close> to \<open>d\<close>. Any other word is the first half of a command, and the next word
  its second half. A 32-bit write is two 16-bit writes, high word first; writing to the data
  port ends a pending command. A command whose second half has bit 7 set starts the DMA that
  registers 19 to 23 describe; \<open>dmas\<close> lists the DMAs started: the two command words and
  the values of registers 15 and 19 to 23 at that moment.
\<close>

record dma_op =
  op_cmd :: "u16 \<times> u16"
  op_inc :: u8
  op_len :: "u8 \<times> u8"
  op_src :: "u8 \<times> u8 \<times> u8"

record chip =
  regs :: "nat \<Rightarrow> u8"
  pend :: "u16 option"
  dmas :: "dma_op list"

definition chip_word :: "u16 \<Rightarrow> chip \<Rightarrow> chip" where
  "chip_word w c =
    (case pend c of
       None \<Rightarrow>
         if w AND 0xC000 = 0x8000
         then c\<lparr>regs := (regs c)(unat (drop_bit 8 w AND 0x1F) := ucast w)\<rparr>
         else c\<lparr>pend := Some w\<rparr>
     | Some hi \<Rightarrow>
         let c = c\<lparr>pend := None\<rparr> in
         if w AND 0x80 \<noteq> 0 then
           c\<lparr>dmas := dmas c @ [\<lparr>op_cmd = (hi, w), op_inc = regs c 0xF, op_len = (regs c 0x13, regs c 0x14),
             op_src = (regs c 0x15, regs c 0x16, regs c 0x17)\<rparr>]\<rparr>
         else c)"

fun chip_io :: "io \<Rightarrow> chip \<Rightarrow> chip" where
  "chip_io (CtrlW w) c = chip_word w c"
| "chip_io (CtrlL l) c = chip_word (ucast l) (chip_word (ucast (drop_bit 16 l)) c)"
| "chip_io (DataW w) c = c\<lparr>pend := None\<rparr>"
| "chip_io (DataL l) c = c\<lparr>pend := None\<rparr>"
| "chip_io (BusW w) c = c"
| "chip_io (ResetW w) c = c"

definition chip0 :: chip where
  "chip0 = \<lparr>regs = (\<lambda>_. 0), pend = None, dmas = []\<rparr>"

definition chip_of :: "'a vdp_st_scheme \<Rightarrow> chip" where
  "chip_of s = fold chip_io (io s) chip0"

section \<open>The copy of the registers\<close>

text \<open>The driver's copy agrees with the chip, and no command is half written.\<close>

definition coherent :: "'a vdp_st_scheme \<Rightarrow> bool" where
  "coherent s \<longleftrightarrow> pend (chip_of s) = None \<and> (\<forall>r < 0x13. regs (chip_of s) r = regValues s r)"

lemma chip_of_io [simp]:
  "chip_of (s\<lparr>io := io s @ es\<rparr>) = fold chip_io es (chip_of s)"
  by (simp add: chip_of_def)

lemma chip_of_upd [simp]:
  "chip_of (regValues_update f s) = chip_of s" "chip_of (window_addr_update g s) = chip_of s"
  "chip_of (bga_addr_update g s) = chip_of s" "chip_of (bgb_addr_update g s) = chip_of s"
  "chip_of (hscrl_addr_update g s) = chip_of s" "chip_of (slist_addr_update g s) = chip_of s"
  "chip_of (maps_addr_update g s) = chip_of s" "chip_of (userTileMaxIndex_update g s) = chip_of s"
  "chip_of (screenWidth_update g s) = chip_of s" "chip_of (screenHeight_update g s) = chip_of s"
  "chip_of (planeWidth_update g s) = chip_of s" "chip_of (planeHeight_update g s) = chip_of s"
  "chip_of (windowWidth_update g s) = chip_of s" "chip_of (planeWidthSft_update g s) = chip_of s"
  "chip_of (planeHeightSft_update g s) = chip_of s" "chip_of (windowWidthSft_update g s) = chip_of s"
  "chip_of (ram_update rf s) = chip_of s" "chip_of (free_update nf s) = chip_of s"
  "chip_of (needPack_update bf s) = chip_of s" "chip_of (z80bus_update bf s) = chip_of s"
  "chip_of (vdp_st.more_update mf s) = chip_of s"
  by (simp_all add: chip_of_def)

text \<open>A register write on the control port.\<close>

definition reg_base :: "u16 \<Rightarrow> nat \<Rightarrow> bool" where
  "reg_base base r \<longleftrightarrow> base AND 0xC000 = 0x8000 \<and> unat (drop_bit 8 base AND 0x1F) = r \<and> (ucast base :: u8) = 0"

lemma chip_word_reg:
  assumes "pend c = None" "reg_base base r"
  shows "chip_word (base OR ucast v) c = c\<lparr>regs := (regs c)(r := v)\<rparr>"
  using assms by (simp add: chip_word_def or_byte reg_base_def del: drop_bit_or)

lemma reg_bases:
  "reg_base 0x8000 0" "reg_base 0x8100 1" "reg_base 0x8200 2" "reg_base 0x8300 3" "reg_base 0x8400 4"
  "reg_base 0x8500 5" "reg_base 0x8700 7" "reg_base 0x8A00 0xA" "reg_base 0x8B00 0xB"
  "reg_base 0x8C00 0xC" "reg_base 0x8D00 0xD" "reg_base 0x8F00 0xF" "reg_base 0x9000 0x10"
  "reg_base 0x9100 0x11" "reg_base 0x9200 0x12"
  by (simp_all add: reg_base_def)

lemma chip_ctrl_w:
  "pend (chip_of s) = None \<Longrightarrow> reg_base base r \<Longrightarrow>
     chip_of (ctrl_w (base OR ucast v) s) = (chip_of s)\<lparr>regs := (regs (chip_of s))(r := v)\<rparr>"
  by (simp add: ctrl_w_def chip_word_reg)

lemma coherent_write_reg: "coherent s \<Longrightarrow> reg_base base r \<Longrightarrow> coherent (write_reg base r v s)"
  by (simp add: coherent_def write_reg_def set_reg_def chip_ctrl_w) (simp add: ctrl_w_def)

lemma coherent_flag_reg: "coherent s \<Longrightarrow> reg_base base r \<Longrightarrow> coherent (flag_reg base r m v s)"
  by (simp add: flag_reg_def coherent_write_reg)

text \<open>The number of a register as \<open>VDP_setReg\<close> and the loop of \<open>VDP_init\<close> form it.\<close>

lemma reg_base_num: "reg < 0x20 \<Longrightarrow> reg_base (0x8000 OR push_bit 8 reg) (unat reg)"
proof -
  assume "reg < 0x20"
  then have "unat reg \<in> set [0 ..< 32]" by (simp add: word_less_nat_alt)
  moreover have "\<forall>r \<in> set [0 ..< 32]. reg_base (0x8000 OR push_bit 8 (of_nat r)) r"
    by (simp add: upt_conv_Cons reg_base_def)
  ultimately show ?thesis by fastforce
qed

section \<open>The derived variables\<close>

definition screen_ok :: "'a vdp_st_scheme \<Rightarrow> bool" where
  "screen_ok s \<longleftrightarrow>
     (if regValues s 0xC AND 0x81 \<noteq> 0
      then screenWidth s = 320 \<and> windowWidth s = 64 \<and> windowWidthSft s = 6
      else screenWidth s = 256 \<and> windowWidth s = 32 \<and> windowWidthSft s = 5) \<and>
     screenHeight s = (if regValues s 1 AND 8 \<noteq> 0 then 240 else 224) \<and>
     (\<not> isPal s \<longrightarrow> regValues s 1 AND 8 = 0)"

definition plane_ok :: "'a vdp_st_scheme \<Rightarrow> bool" where
  "plane_ok s \<longleftrightarrow>
     (if regValues s 0x10 AND 2 \<noteq> 0 then planeWidth s = 128 \<and> planeWidthSft s = 7
      else if regValues s 0x10 AND 1 \<noteq> 0 then planeWidth s = 64 \<and> planeWidthSft s = 6
      else planeWidth s = 32 \<and> planeWidthSft s = 5) \<and>
     (if regValues s 0x10 AND 0x20 \<noteq> 0 then planeHeight s = 128 \<and> planeHeightSft s = 7
      else if regValues s 0x10 AND 0x10 \<noteq> 0 then planeHeight s = 64 \<and> planeHeightSft s = 6
      else planeHeight s = 32 \<and> planeHeightSft s = 5)"

text \<open>\<open>addr_ok R s\<close>: the address variables agree with their registers, those in \<open>R\<close> excepted.\<close>

definition addr_ok :: "nat set \<Rightarrow> 'a vdp_st_scheme \<Rightarrow> bool" where
  "addr_ok R s \<longleftrightarrow>
     (2 \<notin> R \<longrightarrow> bga_addr s = ucast (regValues s 2) * 0x400) \<and>
     (3 \<notin> R \<longrightarrow> window_addr s = ucast (regValues s 3) * 0x400) \<and>
     (4 \<notin> R \<longrightarrow> bgb_addr s = ucast (regValues s 4) * 0x2000) \<and>
     (5 \<notin> R \<longrightarrow> slist_addr s = ucast (regValues s 5) * 0x200) \<and>
     (0xD \<notin> R \<longrightarrow> hscrl_addr s = ucast (regValues s 0xD) * 0x400)"

definition vdp_inv :: "'a vdp_st_scheme \<Rightarrow> bool" where
  "vdp_inv s \<longleftrightarrow> coherent s \<and> screen_ok s \<and> plane_ok s \<and> addr_ok {} s \<and> maps_addr s = min_addr s"

definition heap_ok :: "'a heap_st_scheme \<Rightarrow> bool" where
  "heap_ok s \<longleftrightarrow> (\<exists>hs. heap_inv s hs)"

text \<open>What stays the same when tiles are moved: everything but the auto increment register.\<close>

definition same_vars :: "'a vdp_st_scheme \<Rightarrow> 'a vdp_st_scheme \<Rightarrow> bool" where
  "same_vars s s' \<longleftrightarrow> (\<forall>r. r \<noteq> 0xF \<longrightarrow> regValues s' r = regValues s r) \<and>
     window_addr s' = window_addr s \<and> bga_addr s' = bga_addr s \<and> bgb_addr s' = bgb_addr s \<and>
     hscrl_addr s' = hscrl_addr s \<and> slist_addr s' = slist_addr s \<and> maps_addr s' = maps_addr s \<and>
     screenWidth s' = screenWidth s \<and> screenHeight s' = screenHeight s \<and>
     planeWidth s' = planeWidth s \<and> planeHeight s' = planeHeight s \<and>
     windowWidth s' = windowWidth s \<and> planeWidthSft s' = planeWidthSft s \<and>
     planeHeightSft s' = planeHeightSft s \<and> windowWidthSft s' = windowWidthSft s \<and> isPal s' = isPal s"

text \<open>What the driver relies on when it calls the font loader and the sprite engine.\<close>

definition hooks_ok :: "'a vdp_st_scheme hooks \<Rightarrow> bool" where
  "hooks_ok hk \<longleftrightarrow>
     (\<forall>s. heap_ok s \<and> coherent s \<longrightarrow>
        (\<exists>s'. loadDefaultFont hk CPU s = Some s' \<and> heap_ok s' \<and> coherent s' \<and> same_vars s s') \<and>
        (\<exists>s'. SPR_defragVRAM hk s = Some s' \<and> heap_ok s' \<and> coherent s' \<and> same_vars s s'))"

lemma same_vars_refl [simp]: "same_vars s s"
  by (simp add: same_vars_def)

lemma same_vars_trans: "same_vars s s' \<Longrightarrow> same_vars s' s'' \<Longrightarrow> same_vars s s''"
  by (simp add: same_vars_def)

lemma MEM_pack_frame:
  assumes "heap_ok s"
  shows "\<exists>m f. MEM_pack s = Some (s\<lparr>ram := m, free := f, needPack := False\<rparr>)
    \<and> heap_ok (s\<lparr>ram := m, free := f, needPack := False\<rparr>)"
proof -
  obtain hs s' where "MEM_pack s = Some s'" "heap_inv s' (pk hused 0 hs)"
    using assms MEM_pack_ok unfolding heap_ok_def by blast
  then show ?thesis
    by (auto simp: MEM_pack_def heap_ok_def split: bind_splits)
qed

lemma updateMapsAddress_ok:
  assumes "hooks_ok hk" "heap_ok s" "coherent s"
  shows "\<exists>s'. updateMapsAddress hk i s = Some s' \<and> heap_ok s' \<and> coherent s'
    \<and> same_vars (s\<lparr>maps_addr := min_addr s\<rparr>) s'"
proof (cases "min_addr s = maps_addr s")
  case True
  then show ?thesis using assms by (simp add: updateMapsAddress_def)
next
  case False
  let ?s = "updateUserTileMaxIndex (s\<lparr>maps_addr := min_addr s\<rparr>)"
  have s0: "heap_ok ?s" "coherent ?s" "same_vars (s\<lparr>maps_addr := min_addr s\<rparr>) ?s"
    using assms(2,3) by (simp_all add: updateUserTileMaxIndex_def heap_ok_def heap_inv_def coherent_def same_vars_def)
  have "\<exists>s1. (if \<not> i then do { s \<leftarrow> loadDefaultFont hk CPU ?s; MEM_pack s } else Some ?s) = Some s1
      \<and> heap_ok s1 \<and> coherent s1 \<and> same_vars ?s s1"
  proof (cases i)
    case False
    obtain s' where s': "loadDefaultFont hk CPU ?s = Some s'" "heap_ok s'" "coherent s'" "same_vars ?s s'"
      using assms(1) s0(1,2) unfolding hooks_ok_def by blast
    obtain m f where "MEM_pack s' = Some (s'\<lparr>ram := m, free := f, needPack := False\<rparr>)"
        "heap_ok (s'\<lparr>ram := m, free := f, needPack := False\<rparr>)"
      using MEM_pack_frame [OF s'(2)] by blast
    then show ?thesis using False s' by (simp add: coherent_def same_vars_def)
  qed (use s0 in simp)
  then obtain s1 where s1: "(if \<not> i then do { s \<leftarrow> loadDefaultFont hk CPU ?s; MEM_pack s } else Some ?s) = Some s1"
      "heap_ok s1" "coherent s1" "same_vars ?s s1" by blast
  obtain s2 where s2: "SPR_defragVRAM hk s1 = Some s2" "heap_ok s2" "coherent s2" "same_vars s1 s2"
    using assms(1) s1(2,3) unfolding hooks_ok_def by blast
  have "updateMapsAddress hk i s = (if SPR_isInitialized hk s1 then SPR_defragVRAM hk s1 else Some s1)"
    using False s1(1) by (simp add: updateMapsAddress_def)
  then show ?thesis
    using s0(3) s1 s2 by (auto intro: same_vars_trans)
qed

section \<open>The table addresses\<close>

definition tabs :: "'a vdp_st_scheme \<Rightarrow> u16 \<times> u16 \<times> u16 \<times> u16 \<times> u16" where
  "tabs s = (bgb_addr s, window_addr s, bga_addr s, slist_addr s, hscrl_addr s)"

definition geo :: "'a vdp_st_scheme \<Rightarrow> u8 \<times> u16 \<times> u16 \<times> bool" where
  "geo s = (regValues s 0xC, planeWidthSft s, planeHeightSft s, isPal s)"

lemma min_addr_tabs:
  "min_addr s = (case tabs s of (b, w, a, l, h) \<Rightarrow> min l (min h (min a (min b w))))"
proof -
  have "(if a < m then a else m) = min a m" for a m :: u16 by (auto simp: min_def)
  then show ?thesis by (simp add: min_addr_def tabs_def Let_def)
qed

lemma same_vars_ok:
  assumes "same_vars s s'"
  shows "screen_ok s \<Longrightarrow> screen_ok s'" "plane_ok s \<Longrightarrow> plane_ok s'" "tabs s' = tabs s" "geo s' = geo s"
    "maps_addr s' = maps_addr s"
  using assms by (simp_all add: same_vars_def screen_ok_def plane_ok_def tabs_def geo_def)

lemma write_reg_sel [simp]:
  "regValues (write_reg base r v s) = (regValues s)(r := v)"
  "tabs (write_reg base r v s) = tabs s" "min_addr (write_reg base r v s) = min_addr s"
  "maps_addr (write_reg base r v s) = maps_addr s" "heap_ok (write_reg base r v s) = heap_ok s"
  "chip_of (ctrl_w w s) = chip_word w (chip_of s)"
  "bga_addr (write_reg base r v s) = bga_addr s" "bgb_addr (write_reg base r v s) = bgb_addr s"
  "window_addr (write_reg base r v s) = window_addr s" "slist_addr (write_reg base r v s) = slist_addr s"
  "hscrl_addr (write_reg base r v s) = hscrl_addr s"
  by (simp_all add: write_reg_def set_reg_def ctrl_w_def tabs_def min_addr_tabs heap_ok_def heap_inv_def)

lemma maps_update [simp]:
  "tabs (s\<lparr>maps_addr := x\<rparr>) = tabs s" "geo (s\<lparr>maps_addr := x\<rparr>) = geo s"
  "screen_ok (s\<lparr>maps_addr := x\<rparr>) = screen_ok s" "plane_ok (s\<lparr>maps_addr := x\<rparr>) = plane_ok s"
  by (simp_all add: tabs_def geo_def screen_ok_def plane_ok_def)

lemma write_reg_ok:
  "r \<noteq> 1 \<Longrightarrow> r \<noteq> 0xC \<Longrightarrow> screen_ok (write_reg base r v s) = screen_ok s"
  "r \<noteq> 0x10 \<Longrightarrow> plane_ok (write_reg base r v s) = plane_ok s"
  "r \<notin> {2, 3, 4, 5, 0xD} \<Longrightarrow> addr_ok R (write_reg base r v s) = addr_ok R s"
  "r \<noteq> 0xC \<Longrightarrow> geo (write_reg base r v s) = geo s"
  by (auto simp: write_reg_def set_reg_def ctrl_w_def screen_ok_def plane_ok_def addr_ok_def geo_def)

text \<open>
  The common shape of the address setters: the variable changes, the tables are moved, then the
  register is written.
\<close>

lemma addr_set:
  assumes hk: "hooks_ok hk" and s: "heap_ok s" "coherent s" "screen_ok s" "plane_ok s"
    and r: "r \<in> {2, 3, 4, 5, 0xD}" "reg_base base r"
    and v: "\<And>s2. same_vars (s\<lparr>maps_addr := min_addr s\<rparr>) s2 \<Longrightarrow> addr_ok {} (write_reg base r (f s2) s2)"
  shows "\<exists>s'. updateMapsAddress hk False s \<bind> (\<lambda>s2. Some (write_reg base r (f s2) s2)) = Some s'
    \<and> heap_ok s' \<and> vdp_inv s' \<and> tabs s' = tabs s \<and> geo s' = geo s"
proof -
  obtain s2 where u: "updateMapsAddress hk False s = Some s2" "heap_ok s2" "coherent s2"
      "same_vars (s\<lparr>maps_addr := min_addr s\<rparr>) s2"
    using updateMapsAddress_ok [OF hk s(1,2)] by blast
  have eq: "tabs s2 = tabs s" "geo s2 = geo s" "maps_addr s2 = min_addr s" "screen_ok s2" "plane_ok s2"
    using same_vars_ok [OF u(4)] s(3,4) by simp_all
  then have "min_addr s2 = min_addr s" by (simp add: min_addr_tabs)
  then have "vdp_inv (write_reg base r (f s2) s2)"
    using u(3) eq r v [OF u(4)] coherent_write_reg [OF u(3) r(2)]
    by (auto simp: vdp_inv_def write_reg_ok)
  moreover have "geo (write_reg base r (f s2) s2) = geo s" using eq(2) r(1) by (auto simp: write_reg_ok)
  ultimately show ?thesis using u eq by simp
qed

lemma vdp_inv_parts:
  assumes "vdp_inv s" "heap_ok s"
  shows "coherent s" "screen_ok s" "plane_ok s" "addr_ok {} s" "heap_ok s"
  using assms by (auto simp: vdp_inv_def)

lemma addr_update:
  "coherent (s\<lparr>bga_addr := a\<rparr>) = coherent s" "coherent (s\<lparr>bgb_addr := a\<rparr>) = coherent s"
  "coherent (s\<lparr>window_addr := a\<rparr>) = coherent s" "coherent (s\<lparr>slist_addr := a\<rparr>) = coherent s"
  "coherent (s\<lparr>hscrl_addr := a\<rparr>) = coherent s"
  "screen_ok (s\<lparr>bga_addr := a\<rparr>) = screen_ok s" "screen_ok (s\<lparr>bgb_addr := a\<rparr>) = screen_ok s"
  "screen_ok (s\<lparr>window_addr := a\<rparr>) = screen_ok s" "screen_ok (s\<lparr>slist_addr := a\<rparr>) = screen_ok s"
  "screen_ok (s\<lparr>hscrl_addr := a\<rparr>) = screen_ok s"
  "plane_ok (s\<lparr>bga_addr := a\<rparr>) = plane_ok s" "plane_ok (s\<lparr>bgb_addr := a\<rparr>) = plane_ok s"
  "plane_ok (s\<lparr>window_addr := a\<rparr>) = plane_ok s" "plane_ok (s\<lparr>slist_addr := a\<rparr>) = plane_ok s"
  "plane_ok (s\<lparr>hscrl_addr := a\<rparr>) = plane_ok s"
  "heap_ok (s\<lparr>bga_addr := a\<rparr>) = heap_ok s" "heap_ok (s\<lparr>bgb_addr := a\<rparr>) = heap_ok s"
  "heap_ok (s\<lparr>window_addr := a\<rparr>) = heap_ok s" "heap_ok (s\<lparr>slist_addr := a\<rparr>) = heap_ok s"
  "heap_ok (s\<lparr>hscrl_addr := a\<rparr>) = heap_ok s"
  by (simp_all add: coherent_def screen_ok_def plane_ok_def heap_ok_def heap_inv_def)

lemma addr_masks:
  fixes x :: u16
  shows "ucast (ucast ((x AND 0xE000) div 0x400) :: u8) * 0x400 = x AND 0xE000"
    "ucast (ucast ((x AND 0xE000) div 0x2000) :: u8) * 0x2000 = x AND 0xE000"
    "ucast (ucast ((x AND 0xF000) div 0x400) :: u8) * 0x400 = x AND 0xF000"
    "ucast (ucast ((x AND 0xF800) div 0x400) :: u8) * 0x400 = x AND 0xF800"
    "ucast (ucast ((x AND 0xFC00) div 0x200) :: u8) * 0x200 = x AND 0xFC00"
    "ucast (ucast ((x AND 0xFE00) div 0x200) :: u8) * 0x200 = x AND 0xFE00"
    "ucast (ucast ((x AND 0xFC00) div 0x400) :: u8) * 0x400 = x AND 0xFC00"
proof -
  have m: "NOT (mask 13) = (0xE000 :: u16)" "NOT (mask 12) = (0xF000 :: u16)" "NOT (mask 11) = (0xF800 :: u16)"
    "NOT (mask 10) = (0xFC00 :: u16)" "NOT (mask 9) = (0xFE00 :: u16)"
    by (simp_all add: mask_eq_exp_minus_1)
  show "ucast (ucast ((x AND 0xE000) div 0x400) :: u8) * 0x400 = x AND 0xE000"
    using addr_reg [OF dvd_and_not_mask [of 10 13 x]] m by simp
  show "ucast (ucast ((x AND 0xE000) div 0x2000) :: u8) * 0x2000 = x AND 0xE000"
    using addr_reg [OF dvd_and_not_mask [of 13 13 x]] m by simp
  show "ucast (ucast ((x AND 0xF000) div 0x400) :: u8) * 0x400 = x AND 0xF000"
    using addr_reg [OF dvd_and_not_mask [of 10 12 x]] m by simp
  show "ucast (ucast ((x AND 0xF800) div 0x400) :: u8) * 0x400 = x AND 0xF800"
    using addr_reg [OF dvd_and_not_mask [of 10 11 x]] m by simp
  show "ucast (ucast ((x AND 0xFC00) div 0x200) :: u8) * 0x200 = x AND 0xFC00"
    using addr_reg [OF dvd_and_not_mask [of 9 10 x]] m by simp
  show "ucast (ucast ((x AND 0xFE00) div 0x200) :: u8) * 0x200 = x AND 0xFE00"
    using addr_reg [OF dvd_and_not_mask [of 9 9 x]] m by simp
  show "ucast (ucast ((x AND 0xFC00) div 0x400) :: u8) * 0x400 = x AND 0xFC00"
    using addr_reg [OF dvd_and_not_mask [of 10 10 x]] m by simp
qed

lemma same_vars_sel:
  assumes "same_vars (s\<lparr>maps_addr := x\<rparr>) s'"
  shows "r \<noteq> 0xF \<Longrightarrow> regValues s' r = regValues s r" "bga_addr s' = bga_addr s" "bgb_addr s' = bgb_addr s"
    "window_addr s' = window_addr s" "slist_addr s' = slist_addr s" "hscrl_addr s' = hscrl_addr s"
  using assms by (simp_all add: same_vars_def)

lemma addr_ok_write:
  "addr_ok {} (write_reg base 2 v s) \<longleftrightarrow> addr_ok {2} s \<and> bga_addr s = ucast v * 0x400"
  "addr_ok {} (write_reg base 3 v s) \<longleftrightarrow> addr_ok {3} s \<and> window_addr s = ucast v * 0x400"
  "addr_ok {} (write_reg base 4 v s) \<longleftrightarrow> addr_ok {4} s \<and> bgb_addr s = ucast v * 0x2000"
  "addr_ok {} (write_reg base 5 v s) \<longleftrightarrow> addr_ok {5} s \<and> slist_addr s = ucast v * 0x200"
  "addr_ok {} (write_reg base 0xD v s) \<longleftrightarrow> addr_ok {0xD} s \<and> hscrl_addr s = ucast v * 0x400"
  by (auto simp: addr_ok_def write_reg_def set_reg_def ctrl_w_def)

text \<open>
  The contract of an address variable: \<open>upd\<close> sets it, \<open>sel\<close> reads it, register \<open>r\<close> holds it
  in units of \<open>step\<close> bytes, and no other part of the invariant depends on it.
\<close>

locale addr_var =
  fixes upd :: "u16 \<Rightarrow> 'a vdp_st_scheme \<Rightarrow> 'a vdp_st_scheme" and sel :: "'a vdp_st_scheme \<Rightarrow> u16"
    and r :: nat and step :: u16
  assumes r_addr: "r \<in> {2, 3, 4, 5, 0xD}"
    and upd_inv: "coherent (upd a s) = coherent s" "screen_ok (upd a s) = screen_ok s"
      "plane_ok (upd a s) = plane_ok s" "heap_ok (upd a s) = heap_ok s" "geo (upd a s) = geo s"
    and sel_upd: "same_vars ((upd a s)\<lparr>maps_addr := x\<rparr>) s2 \<Longrightarrow> sel s2 = a"
    and addr_step: "addr_ok {} s \<Longrightarrow> same_vars ((upd a s)\<lparr>maps_addr := x\<rparr>) s2 \<Longrightarrow> ucast v * step = a \<Longrightarrow>
      addr_ok {} (write_reg base r v s2)"
begin

lemma set_ok:
  assumes hk: "hooks_ok hk" and s: "vdp_inv s" "heap_ok s" and b: "reg_base base r"
    and f: "\<And>s2. sel s2 = a \<Longrightarrow> ucast (f s2) * step = a"
  shows "\<exists>s'. updateMapsAddress hk False (upd a s) \<bind> (\<lambda>s2. Some (write_reg base r (f s2) s2)) = Some s'
    \<and> heap_ok s' \<and> vdp_inv s' \<and> tabs s' = tabs (upd a s) \<and> geo s' = geo s"
  using addr_set [OF hk, of "upd a s" r base f] r_addr b upd_inv vdp_inv_parts [OF s] sel_upd f
  by (simp add: addr_step)

end

lemmas addr_var_simps = addr_update geo_def addr_ok_write addr_ok_def

interpretation bga: addr_var "\<lambda>a s. s\<lparr>bga_addr := a\<rparr>" bga_addr "2" "0x400"
  by unfold_locales (auto simp: addr_var_simps same_vars_sel)

interpretation window: addr_var "\<lambda>a s. s\<lparr>window_addr := a\<rparr>" window_addr "3" "0x400"
  by unfold_locales (auto simp: addr_var_simps same_vars_sel)

interpretation bgb: addr_var "\<lambda>a s. s\<lparr>bgb_addr := a\<rparr>" bgb_addr "4" "0x2000"
  by unfold_locales (auto simp: addr_var_simps same_vars_sel)

interpretation slist: addr_var "\<lambda>a s. s\<lparr>slist_addr := a\<rparr>" slist_addr "5" "0x200"
  by unfold_locales (auto simp: addr_var_simps same_vars_sel)

interpretation hscrl: addr_var "\<lambda>a s. s\<lparr>hscrl_addr := a\<rparr>" hscrl_addr "0xD" "0x400"
  by unfold_locales (auto simp: addr_var_simps same_vars_sel)

lemma VDP_setAddress_ok:
  assumes hk: "hooks_ok hk" and s: "vdp_inv s" "heap_ok s"
  shows "\<exists>s'. VDP_setBGAAddress hk x s = Some s' \<and> heap_ok s' \<and> vdp_inv s'
      \<and> tabs s' = tabs (s\<lparr>bga_addr := x AND 0xE000\<rparr>) \<and> geo s' = geo s"
    "\<exists>s'. VDP_setBGBAddress hk x s = Some s' \<and> heap_ok s' \<and> vdp_inv s'
      \<and> tabs s' = tabs (s\<lparr>bgb_addr := x AND 0xE000\<rparr>) \<and> geo s' = geo s"
    "\<exists>s'. VDP_setHScrollTableAddress hk x s = Some s' \<and> heap_ok s' \<and> vdp_inv s'
      \<and> tabs s' = tabs (s\<lparr>hscrl_addr := x AND 0xFC00\<rparr>) \<and> geo s' = geo s"
    "\<exists>s'. VDP_setWindowAddress hk x s = Some s' \<and> heap_ok s' \<and> vdp_inv s' \<and> tabs s' =
        tabs (s\<lparr>window_addr := if regValues s 0xC AND 0x81 \<noteq> 0 then x AND 0xF000 else x AND 0xF800\<rparr>)
      \<and> geo s' = geo s"
    "\<exists>s'. VDP_setSpriteListAddress hk x s = Some s' \<and> heap_ok s' \<and> vdp_inv s' \<and> tabs s' =
        tabs (s\<lparr>slist_addr := if regValues s 0xC AND 0x81 \<noteq> 0 then x AND 0xFC00 else x AND 0xFE00\<rparr>)
      \<and> geo s' = geo s"
  using bga.set_ok [OF hk s reg_bases(3)] bgb.set_ok [OF hk s reg_bases(5)] hscrl.set_ok [OF hk s reg_bases(11)]
    window.set_ok [OF hk s reg_bases(4)] slist.set_ok [OF hk s reg_bases(6)]
  by (simp_all add: VDP_setBGAAddress_def VDP_setBGBAddress_def VDP_setHScrollTableAddress_def
    VDP_setWindowAddress_def VDP_setSpriteListAddress_def addr_masks)

section \<open>All setters\<close>

definition both_ok :: "'a vdp_st_scheme \<Rightarrow> bool" where
  "both_ok s \<longleftrightarrow> vdp_inv s \<and> heap_ok s"

lemma both_ok_write_reg:
  assumes "both_ok s" "reg_base base r" "r \<notin> {2, 3, 4, 5, 0xD, 0x10}"
    and "r = 1 \<Longrightarrow> v AND 8 = regValues s 1 AND 8" "r = 0xC \<Longrightarrow> v AND 0x81 = regValues s 0xC AND 0x81"
  shows "both_ok (write_reg base r v s)"
proof -
  have "screen_ok (write_reg base r v s)"
    using assms(1,4,5) unfolding both_ok_def vdp_inv_def
    by (cases "r = 1"; cases "r = 0xC")
      (auto simp: screen_ok_def write_reg_def set_reg_def ctrl_w_def)
  then show ?thesis
    using assms(1-3) by (simp add: both_ok_def vdp_inv_def coherent_write_reg write_reg_ok)
qed

text \<open>The setters that only change registers.\<close>

lemma both_ok_flag_reg:
  assumes "both_ok s" "reg_base base r" "r \<notin> {2, 3, 4, 5, 0xD, 0x10}"
    and "r = 1 \<Longrightarrow> m AND 8 = 0" "r = 0xC \<Longrightarrow> m AND 0x81 = 0"
  shows "both_ok (flag_reg base r m v s)"
  unfolding flag_reg_def by (rule both_ok_write_reg) (use assms mask_keep in auto)

text \<open>The window position fits the low byte of the register word.\<close>

lemma window_pos:
  "base OR (if b then (p AND 0x7F) OR 0x80 else p AND 0x7F) =
     base OR ucast (ucast (if b then (p AND 0x7F) OR 0x80 else p AND 0x7F :: u16) :: u8)"
  by (simp add: ucast_low_byte bit.conj_disj_distrib2 and.assoc)

lemma simple_setters_ok:
  assumes "both_ok s"
  shows "both_ok (VDP_setEnable b s)" "both_ok (VDP_setDMAEnabled b s)" "both_ok (VDP_setHVLatching b s)"
    "both_ok (VDP_setVInterrupt b s)" "both_ok (VDP_setHInterrupt b s)" "both_ok (VDP_setExtInterrupt b s)"
    "both_ok (VDP_setHilightShadow b s)" "both_ok (VDP_setHIntCounter c s)" "both_ok (VDP_setAutoInc c s)"
    "both_ok (VDP_setBackgroundColor c s)" "both_ok (VDP_setScrollingMode h v s)"
  unfolding VDP_setEnable_def VDP_setDMAEnabled_def VDP_setHVLatching_def VDP_setVInterrupt_def
    VDP_setHInterrupt_def VDP_setExtInterrupt_def VDP_setHilightShadow_def VDP_setHIntCounter_def
    VDP_setAutoInc_def VDP_setBackgroundColor_def VDP_setScrollingMode_def
  by (intro both_ok_flag_reg both_ok_write_reg assms reg_bases; simp)+

lemma VDP_setScanMode_ok: "both_ok s \<Longrightarrow> both_ok (VDP_setScanMode m s)"
  unfolding VDP_setScanMode_def
  by (rule both_ok_write_reg [OF _ reg_bases(10)])
    (use mask_keep [of 6 "0x81 :: u8" "regValues s 0xC"] mask_keep [of 4 "0x81 :: u8" "regValues s 0xC"]
      in \<open>simp_all add: bit.conj_disj_distrib2\<close>)

lemma VDP_setWindowPos_ok:
  "both_ok s \<Longrightarrow> both_ok (VDP_setWindowHPos b p s)" "both_ok s \<Longrightarrow> both_ok (VDP_setWindowVPos b p s)"
  unfolding VDP_setWindowHPos_def VDP_setWindowVPos_def Let_def
  by (subst window_pos, fold write_reg_def, intro both_ok_write_reg reg_bases; simp)+

lemma window_setters_ok:
  assumes "both_ok s"
  shows "both_ok (VDP_setWindowOff s)" "both_ok (VDP_setWindowOnTop n s)" "both_ok (VDP_setWindowOnBottom n s)"
    "both_ok (VDP_setWindowOnLeft n s)" "both_ok (VDP_setWindowOnRight n s)" "both_ok (VDP_setWindowFullScreen s)"
  using assms
  by (simp_all add: VDP_setWindowOff_def VDP_setWindowOnTop_def VDP_setWindowOnBottom_def
    VDP_setWindowOnLeft_def VDP_setWindowOnRight_def VDP_setWindowFullScreen_def VDP_setWindowPos_ok)

text \<open>The part of the invariant the screen variables and the plane variables do not touch.\<close>

definition base_ok :: "'a vdp_st_scheme \<Rightarrow> bool" where
  "base_ok s \<longleftrightarrow> coherent s \<and> addr_ok {} s \<and> maps_addr s = min_addr s \<and> heap_ok s"

lemma both_ok_base: "both_ok s \<longleftrightarrow> base_ok s \<and> screen_ok s \<and> plane_ok s"
  by (auto simp: both_ok_def base_ok_def vdp_inv_def)

lemma base_ok_update [simp]:
  "base_ok (screenWidth_update f s) = base_ok s" "base_ok (screenHeight_update f s) = base_ok s"
  "base_ok (windowWidth_update f s) = base_ok s" "base_ok (windowWidthSft_update f s) = base_ok s"
  "base_ok (planeWidth_update f s) = base_ok s" "base_ok (planeHeight_update f s) = base_ok s"
  "base_ok (planeWidthSft_update f s) = base_ok s" "base_ok (planeHeightSft_update f s) = base_ok s"
  by (simp_all add: base_ok_def coherent_def addr_ok_def min_addr_tabs tabs_def heap_ok_def heap_inv_def)

lemma plane_ok_update [simp]:
  "plane_ok (screenWidth_update f s) = plane_ok s" "plane_ok (screenHeight_update f s) = plane_ok s"
  "plane_ok (windowWidth_update f s) = plane_ok s" "plane_ok (windowWidthSft_update f s) = plane_ok s"
  by (simp_all add: plane_ok_def)

lemma base_ok_write_reg:
  "base_ok s \<Longrightarrow> reg_base base r \<Longrightarrow> r \<notin> {2, 3, 4, 5, 0xD} \<Longrightarrow> base_ok (write_reg base r v s)"
  by (simp add: base_ok_def coherent_write_reg write_reg_ok)

lemma screen_setters_ok:
  assumes "both_ok s"
  shows "both_ok (VDP_setScreenHeight224 s)" "both_ok (VDP_setScreenHeight240 s)"
    "both_ok (VDP_setScreenWidth256 s)" "both_ok (VDP_setScreenWidth320 s)"
proof -
  have b: "base_ok (flag_reg 0x8100 1 m v s)" "base_ok (flag_reg 0x8C00 0xC m v s)" for m v
    using assms unfolding both_ok_base flag_reg_def by (intro base_ok_write_reg reg_bases; simp)+
  have s: "screen_ok s" "plane_ok s" using assms by (simp_all add: both_ok_base)
  have p: "plane_ok (flag_reg 0x8100 1 m v s)" "plane_ok (flag_reg 0x8C00 0xC m v s)" for m v
    using s(2) by (simp_all add: flag_reg_def write_reg_ok)
  note defs = screen_ok_def flag_reg_def write_reg_def set_reg_def ctrl_w_def
  have "screen_ok (VDP_setScreenHeight224 s)" "screen_ok (VDP_setScreenHeight240 s)"
    using s(1) mask_self [of "regValues s 1" 8]
    by (simp_all add: defs VDP_setScreenHeight224_def VDP_setScreenHeight240_def del: One_nat_def)
  then show "both_ok (VDP_setScreenHeight224 s)" "both_ok (VDP_setScreenHeight240 s)"
    using assms b(1) p(1)
    by (simp_all add: both_ok_base VDP_setScreenHeight224_def VDP_setScreenHeight240_def del: One_nat_def)
  have "screen_ok (VDP_setScreenWidth256 s)" "screen_ok (VDP_setScreenWidth320 s)"
    using s(1) mask_self [of "regValues s 0xC" "0x81"]
    by (simp_all add: defs VDP_setScreenWidth256_def VDP_setScreenWidth320_def)
  then show "both_ok (VDP_setScreenWidth256 s)" "both_ok (VDP_setScreenWidth320 s)"
    using b(2) p(2) by (simp_all add: both_ok_base VDP_setScreenWidth256_def VDP_setScreenWidth320_def)
qed

lemma setReg_num:
  "reg < 0x13 \<Longrightarrow> ctrl_w ((0x8000 OR push_bit 8 reg) OR ucast v) (set_reg (unat reg) v s) =
     write_reg (0x8000 OR push_bit 8 reg) (unat reg) v s"
  by (simp add: write_reg_def)

lemma reg_high_ok:
  fixes v :: u8
  assumes "both_ok s" "\<not> reg < 0x13" "reg < 0x20"
  shows "both_ok (ctrl_w ((0x8000 OR push_bit 8 reg) OR ucast v) s)"
proof -
  have "chip_of (ctrl_w ((0x8000 OR push_bit 8 reg) OR ucast v) s) =
      (chip_of s)\<lparr>regs := (regs (chip_of s))(unat reg := v)\<rparr>"
    using assms reg_base_num by (intro chip_ctrl_w) (auto simp: both_ok_def vdp_inv_def coherent_def)
  moreover have "\<not> unat reg < 0x13" using assms(2) by (simp add: word_less_nat_alt)
  ultimately show ?thesis
    using assms(1)
    by (auto simp: both_ok_base base_ok_def coherent_def screen_ok_def plane_ok_def addr_ok_def
      min_addr_tabs tabs_def heap_ok_def heap_inv_def ctrl_w_def)
qed

lemma setReg_address:
  fixes v :: u8
  assumes hk: "hooks_ok hk" and s: "both_ok s"
  shows "\<exists>s'. updateMapsAddress hk False (s\<lparr>bga_addr := ucast v * 0x400\<rparr>) \<bind>
      (\<lambda>s. Some (write_reg 0x8200 2 v s)) = Some s' \<and> both_ok s'"
    "\<exists>s'. updateMapsAddress hk False (s\<lparr>window_addr := ucast v * 0x400\<rparr>) \<bind>
      (\<lambda>s. Some (write_reg 0x8300 3 v s)) = Some s' \<and> both_ok s'"
    "\<exists>s'. updateMapsAddress hk False (s\<lparr>bgb_addr := ucast v * 0x2000\<rparr>) \<bind>
      (\<lambda>s. Some (write_reg 0x8400 4 v s)) = Some s' \<and> both_ok s'"
    "\<exists>s'. updateMapsAddress hk False (s\<lparr>slist_addr := ucast v * 0x200\<rparr>) \<bind>
      (\<lambda>s. Some (write_reg 0x8500 5 v s)) = Some s' \<and> both_ok s'"
    "\<exists>s'. updateMapsAddress hk False (s\<lparr>hscrl_addr := ucast v * 0x400\<rparr>) \<bind>
      (\<lambda>s. Some (write_reg 0x8D00 0xD v s)) = Some s' \<and> both_ok s'"
proof -
  have i: "vdp_inv s" "heap_ok s" using s by (simp_all add: both_ok_def)
  note sets = bga.set_ok [OF hk i reg_bases(3), where f = "\<lambda>_. v"] window.set_ok [OF hk i reg_bases(4), where f = "\<lambda>_. v"]
    bgb.set_ok [OF hk i reg_bases(5), where f = "\<lambda>_. v"] slist.set_ok [OF hk i reg_bases(6), where f = "\<lambda>_. v"]
    hscrl.set_ok [OF hk i reg_bases(11), where f = "\<lambda>_. v"]
  from sets show "\<exists>s'. updateMapsAddress hk False (s\<lparr>bga_addr := ucast v * 0x400\<rparr>) \<bind>
      (\<lambda>s. Some (write_reg 0x8200 2 v s)) = Some s' \<and> both_ok s'"
    "\<exists>s'. updateMapsAddress hk False (s\<lparr>window_addr := ucast v * 0x400\<rparr>) \<bind>
      (\<lambda>s. Some (write_reg 0x8300 3 v s)) = Some s' \<and> both_ok s'"
    "\<exists>s'. updateMapsAddress hk False (s\<lparr>bgb_addr := ucast v * 0x2000\<rparr>) \<bind>
      (\<lambda>s. Some (write_reg 0x8400 4 v s)) = Some s' \<and> both_ok s'"
    "\<exists>s'. updateMapsAddress hk False (s\<lparr>slist_addr := ucast v * 0x200\<rparr>) \<bind>
      (\<lambda>s. Some (write_reg 0x8500 5 v s)) = Some s' \<and> both_ok s'"
    "\<exists>s'. updateMapsAddress hk False (s\<lparr>hscrl_addr := ucast v * 0x400\<rparr>) \<bind>
      (\<lambda>s. Some (write_reg 0x8D00 0xD v s)) = Some s' \<and> both_ok s'"
    unfolding both_ok_def by blast+
qed

lemma screen_ok_plane_update [simp]:
  "screen_ok (planeWidth_update f s) = screen_ok s" "screen_ok (planeHeight_update f s) = screen_ok s"
  "screen_ok (planeWidthSft_update f s) = screen_ok s" "screen_ok (planeHeightSft_update f s) = screen_ok s"
  by (simp_all add: screen_ok_def)

lemma setReg_plane_ok:
  assumes "both_ok s"
  shows "both_ok (write_reg 0x9000 0x10 v (setReg_plane v s))"
proof -
  have b: "base_ok (setReg_plane v s)" "screen_ok (setReg_plane v s)"
    using assms by (simp_all add: both_ok_base setReg_plane_def Let_def)
  have "plane_ok (write_reg 0x9000 0x10 v (setReg_plane v s))"
    by (simp add: plane_ok_def write_reg_def set_reg_def ctrl_w_def setReg_plane_def Let_def)
  then show ?thesis
    using b base_ok_write_reg [OF b(1) reg_bases(13)] by (simp add: both_ok_base write_reg_ok)
qed

lemma setReg_screen_ok:
  assumes "both_ok s"
  shows "both_ok (write_reg 0x8C00 0xC v (setReg_screen v s))"
proof -
  have b: "base_ok (setReg_screen v s)" "plane_ok (setReg_screen v s)"
    using assms by (simp_all add: both_ok_base setReg_screen_def)
  have "screen_ok (write_reg 0x8C00 0xC v (setReg_screen v s))"
    using assms
    by (auto simp: both_ok_base screen_ok_def write_reg_def set_reg_def ctrl_w_def setReg_screen_def)
  then show ?thesis
    using b base_ok_write_reg [OF b(1) reg_bases(10)] by (simp add: both_ok_base write_reg_ok)
qed

lemma setReg_height_ok:
  assumes "both_ok s" "isPal s \<or> v AND 8 = 0"
  shows "both_ok (write_reg 0x8100 1 v
    (if isPal s then s\<lparr>screenHeight := (if v AND 8 \<noteq> 0 then 240 else 224)\<rparr> else s))" (is "both_ok (write_reg _ _ _ ?s)")
proof -
  have b: "base_ok ?s" "plane_ok ?s" using assms(1) by (simp_all add: both_ok_base)
  have "screen_ok (write_reg 0x8100 1 v ?s)"
    using assms
    by (auto simp: both_ok_base screen_ok_def write_reg_def set_reg_def ctrl_w_def simp del: One_nat_def)
  then show ?thesis
    using b base_ok_write_reg [OF b(1) reg_bases(2)] by (simp add: both_ok_base write_reg_ok del: One_nat_def)
qed

lemma VDP_setReg_ok:
  assumes hk: "hooks_ok hk" and s: "both_ok s" and reg: "reg < 0x20"
  shows "\<exists>s'. VDP_setReg hk reg value s = Some s' \<and> both_ok s'"
proof -
  have "reg AND mask 5 = reg"
    by (rule unsigned_word_eqI [where ?'a = nat]) (use reg in \<open>simp add: unat_and_mask word_less_nat_alt\<close>)
  then have r: "reg AND 0x1F = reg" by (simp add: mask_eq_exp_minus_1)
  have eq: "VDP_setReg hk reg value s = setReg_update hk reg value s \<bind>
      (\<lambda>(v, s). Some (if reg < 0x13 then write_reg (0x8000 OR push_bit 8 reg) (unat reg) v s
                      else ctrl_w ((0x8000 OR push_bit 8 reg) OR ucast v) s))"
    using r setReg_num [of reg]
    by (cases "setReg_update hk reg value s") (auto simp: VDP_setReg_def)
  consider "reg \<in> {2, 3, 4, 5, 0xD}" | "reg = 1" | "reg = 0xC" | "reg = 0x10"
    | "reg \<notin> {1, 2, 3, 4, 5, 0xC, 0xD, 0x10}" by blast
  then show ?thesis
  proof cases
    case 1
    then show ?thesis
      using setReg_address [OF hk s]
      by (auto simp: eq setReg_update_def Let_def map_conv_bind_option)
  next
    case 2
    then show ?thesis
      using setReg_height_ok [OF s, of "value"] setReg_height_ok [OF s, of "value AND 0xF7"]
      unfolding eq by (cases "isPal s") (simp_all add: setReg_update_def and.assoc)
  next
    case 3
    then show ?thesis using setReg_screen_ok [OF s] unfolding eq by (simp add: setReg_update_def)
  next
    case 4
    then show ?thesis using setReg_plane_ok [OF s] unfolding eq by (simp add: setReg_update_def)
  next
    case 5
    then have n: "unat reg \<notin> {1, 2, 3, 4, 5, 0xC, 0xD, 0x10}"
      by (auto dest!: arg_cong [where f = "of_nat :: nat \<Rightarrow> u16"])
    have u: "setReg_update hk reg value s = Some (value, s)" using 5 by (simp add: setReg_update_def)
    show ?thesis
    proof (cases "reg < 0x13")
      case True
      then show ?thesis
        using both_ok_write_reg [OF s reg_base_num [OF reg], of "value"] n by (simp add: eq u)
    next
      case False
      then show ?thesis using reg_high_ok [OF s False reg] by (simp add: eq u)
    qed
  qed
qed


lemma plane_dims_ok:
  assumes "both_ok s" "plane_dims w h s = (v, s1)"
  shows "both_ok (write_reg 0x9000 0x10 v s1)"
proof -
  have "v \<in> {0x03, 0x11, 0x01, 0x30, 0x10, 0x00}" using assms(2) by (auto simp: plane_dims_def Let_def split: if_splits)
  moreover have "s1 = setReg_plane v s"
    using assms(2) by (auto simp: plane_dims_def setReg_plane_def Let_def split: if_splits)
  ultimately show ?thesis using setReg_plane_ok [OF assms(1)] by simp
qed

lemma updateMapsAddress_id: "vdp_inv s \<Longrightarrow> updateMapsAddress hk i s = Some s"
  by (simp add: updateMapsAddress_def vdp_inv_def)

text \<open>
  The addresses that \<open>setup_vram\<close> chooses. In H40 mode the window address loses bit 11.
\<close>

definition layout :: "bool \<Rightarrow> nat \<Rightarrow> u16 \<times> u16 \<times> u16 \<times> u16 \<times> u16" where
  "layout h40 sft =
    (if sft = 10 then (0xC000, if h40 then 0xC000 else 0xC800, 0xE000, 0xE800, 0xEC00)
     else if sft = 11 then (0xC000, 0xD000, 0xE000, 0xF400, 0xF000)
     else (0xC000, 0xB000, 0xE000, 0xAC00, 0xA800))"

definition placed :: "u8 \<times> u16 \<times> u16 \<times> bool \<Rightarrow> u16 \<times> u16 \<times> u16 \<times> u16 \<times> u16 \<Rightarrow> 'a vdp_st_scheme \<Rightarrow> bool" where
  "placed g t s \<longleftrightarrow> both_ok s \<and> geo s = g \<and> tabs s = t"

lemma place_step:
  assumes hk: "hooks_ok hk" and s: "placed g (b, w, a, l, h) s"
  shows "\<exists>s'. VDP_setBGBAddress hk x s = Some s' \<and> placed g (x AND 0xE000, w, a, l, h) s'"
    "\<exists>s'. VDP_setBGAAddress hk x s = Some s' \<and> placed g (b, w, x AND 0xE000, l, h) s'"
    "\<exists>s'. VDP_setHScrollTableAddress hk x s = Some s' \<and> placed g (b, w, a, l, x AND 0xFC00) s'"
    "\<exists>s'. VDP_setWindowAddress hk x s = Some s' \<and>
      placed g (b, if fst g AND 0x81 \<noteq> 0 then x AND 0xF000 else x AND 0xF800, a, l, h) s'"
    "\<exists>s'. VDP_setSpriteListAddress hk x s = Some s' \<and>
      placed g (b, w, a, if fst g AND 0x81 \<noteq> 0 then x AND 0xFC00 else x AND 0xFE00, h) s'"
proof -
  have i: "vdp_inv s" "heap_ok s" and g: "fst g = regValues s 0xC"
    using s by (auto simp: placed_def both_ok_def geo_def)
  note ok = VDP_setAddress_ok [OF hk i, of x]
  show "\<exists>s'. VDP_setBGBAddress hk x s = Some s' \<and> placed g (x AND 0xE000, w, a, l, h) s'"
    "\<exists>s'. VDP_setBGAAddress hk x s = Some s' \<and> placed g (b, w, x AND 0xE000, l, h) s'"
    "\<exists>s'. VDP_setHScrollTableAddress hk x s = Some s' \<and> placed g (b, w, a, l, x AND 0xFC00) s'"
    "\<exists>s'. VDP_setWindowAddress hk x s = Some s' \<and>
      placed g (b, if fst g AND 0x81 \<noteq> 0 then x AND 0xF000 else x AND 0xF800, a, l, h) s'"
    "\<exists>s'. VDP_setSpriteListAddress hk x s = Some s' \<and>
      placed g (b, w, a, if fst g AND 0x81 \<noteq> 0 then x AND 0xFC00 else x AND 0xFE00, h) s'"
    using ok s g by (auto simp: placed_def both_ok_def tabs_def)
qed

lemma bind_ex:
  "\<exists>s1. f = Some s1 \<and> P s1 \<Longrightarrow> (\<And>s1. P s1 \<Longrightarrow> \<exists>s'. k s1 = Some s' \<and> Q s') \<Longrightarrow>
     \<exists>s'. f \<bind> k = Some s' \<and> Q s'"
  by auto

lemma setup_sequences:
  assumes hk: "hooks_ok hk" and s: "placed g (b, w, a, l, h) s"
  shows "\<exists>s'. VDP_setBGBAddress hk 0xC000 s \<bind> (\<lambda>s. VDP_setWindowAddress hk 0xC800 s \<bind>
      (\<lambda>s. VDP_setBGAAddress hk 0xE000 s \<bind> (\<lambda>s. VDP_setSpriteListAddress hk 0xE800 s \<bind>
      VDP_setHScrollTableAddress hk 0xEC00))) = Some s' \<and> placed g (layout (fst g AND 0x81 \<noteq> 0) 10) s'"
    "\<exists>s'. VDP_setBGBAddress hk 0xC000 s \<bind> (\<lambda>s. VDP_setWindowAddress hk 0xD000 s \<bind>
      (\<lambda>s. VDP_setBGAAddress hk 0xE000 s \<bind> (\<lambda>s. VDP_setHScrollTableAddress hk 0xF000 s \<bind>
      VDP_setSpriteListAddress hk 0xF400))) = Some s' \<and> placed g (layout (fst g AND 0x81 \<noteq> 0) 11) s'"
    "\<exists>s'. VDP_setSpriteListAddress hk 0xAC00 s \<bind> (\<lambda>s. VDP_setHScrollTableAddress hk 0xA800 s \<bind>
      (\<lambda>s. VDP_setWindowAddress hk 0xB000 s \<bind> (\<lambda>s. VDP_setBGBAddress hk 0xC000 s \<bind>
      VDP_setBGAAddress hk 0xE000))) = Some s' \<and> placed g (layout (fst g AND 0x81 \<noteq> 0) 12) s'"
proof -
  note step = place_step [OF hk]
  show "\<exists>s'. VDP_setBGBAddress hk 0xC000 s \<bind> (\<lambda>s. VDP_setWindowAddress hk 0xC800 s \<bind>
      (\<lambda>s. VDP_setBGAAddress hk 0xE000 s \<bind> (\<lambda>s. VDP_setSpriteListAddress hk 0xE800 s \<bind>
      VDP_setHScrollTableAddress hk 0xEC00))) = Some s' \<and> placed g (layout (fst g AND 0x81 \<noteq> 0) 10) s'"
    by (rule bind_ex [OF step(1) [OF s]], rule bind_ex [OF step(4)], assumption,
      rule bind_ex [OF step(2)], assumption, rule bind_ex [OF step(5)], assumption, drule step(3))
      (auto simp: layout_def split: if_splits)
  show "\<exists>s'. VDP_setBGBAddress hk 0xC000 s \<bind> (\<lambda>s. VDP_setWindowAddress hk 0xD000 s \<bind>
      (\<lambda>s. VDP_setBGAAddress hk 0xE000 s \<bind> (\<lambda>s. VDP_setHScrollTableAddress hk 0xF000 s \<bind>
      VDP_setSpriteListAddress hk 0xF400))) = Some s' \<and> placed g (layout (fst g AND 0x81 \<noteq> 0) 11) s'"
    by (rule bind_ex [OF step(1) [OF s]], rule bind_ex [OF step(4)], assumption,
      rule bind_ex [OF step(2)], assumption, rule bind_ex [OF step(3)], assumption, drule step(5))
      (auto simp: layout_def split: if_splits)
  show "\<exists>s'. VDP_setSpriteListAddress hk 0xAC00 s \<bind> (\<lambda>s. VDP_setHScrollTableAddress hk 0xA800 s \<bind>
      (\<lambda>s. VDP_setWindowAddress hk 0xB000 s \<bind> (\<lambda>s. VDP_setBGBAddress hk 0xC000 s \<bind>
      VDP_setBGAAddress hk 0xE000))) = Some s' \<and> placed g (layout (fst g AND 0x81 \<noteq> 0) 12) s'"
    by (rule bind_ex [OF step(5) [OF s]], rule bind_ex [OF step(3)], assumption,
      rule bind_ex [OF step(4)], assumption, rule bind_ex [OF step(1)], assumption, drule step(2))
      (auto simp: layout_def split: if_splits)
qed

lemma setup_vram_ok:
  assumes hk: "hooks_ok hk" and s: "placed g t s"
  shows "\<exists>s'. setup_vram hk s = Some s' \<and> placed g
    (layout (fst g AND 0x81 \<noteq> 0) (unat (fst (snd g)) + unat (fst (snd (snd g))))) s'"
proof -
  have sft: "planeWidthSft s = fst (snd g)" "planeHeightSft s = fst (snd (snd g))"
    using s by (auto simp: placed_def geo_def)
  obtain b w a l h where t: "t = (b, w, a, l, h)" by (cases t) auto
  let ?n = "unat (fst (snd g)) + unat (fst (snd (snd g)))"
  note seqs = setup_sequences [OF hk s [unfolded t]]
  have n12: "layout z n = layout z 12" if "n \<noteq> 10" "n \<noteq> 11" for z n using that by (simp add: layout_def)
  show ?thesis
  proof (cases "?n = 10")
    case True
    show ?thesis unfolding setup_vram_def Let_def sft if_P [OF True] unfolding True by (rule seqs(1))
  next
    case n10: False
    show ?thesis
    proof (cases "?n = 11")
      case True
      show ?thesis
        unfolding setup_vram_def Let_def sft if_not_P [OF n10] if_P [OF True] unfolding True by (rule seqs(2))
    next
      case False
      show ?thesis
        unfolding setup_vram_def Let_def sft if_not_P [OF n10] if_not_P [OF False] n12 [OF n10 False]
        by (rule seqs(3))
    qed
  qed
qed

lemma plane_sft:
  assumes "plane_dims w h s = (v, s1)"
  shows "unat (planeWidthSft s1) + unat (planeHeightSft s1) \<in> {10, 11, 12}"
  using assms by (auto simp: plane_dims_def Let_def split: if_splits)

lemma VDP_setPlaneSize_ok:
  assumes hk: "hooks_ok hk" and s: "both_ok s"
  shows "\<exists>s'. VDP_setPlaneSize hk w h b s = Some s' \<and> both_ok s'
    \<and> (b \<longrightarrow> tabs s' = layout (regValues s' 0xC AND 0x81 \<noteq> 0)
          (unat (planeWidthSft s') + unat (planeHeightSft s')))
    \<and> regValues s' 0xC = regValues s 0xC
    \<and> unat (planeWidthSft s') + unat (planeHeightSft s') \<in> {10, 11, 12}"
proof -
  obtain v s1 where d: "plane_dims w h s = (v, s1)" by fastforce
  let ?s = "write_reg 0x9000 0x10 v s1"
  have p: "both_ok ?s" using plane_dims_ok [OF s d] .
  have r: "regValues ?s 0xC = regValues s 0xC"
    "unat (planeWidthSft ?s) + unat (planeHeightSft ?s) \<in> {10, 11, 12}"
    using d plane_sft [OF d]
    by (auto simp: plane_dims_def Let_def write_reg_def set_reg_def ctrl_w_def split: if_splits)
  show ?thesis
  proof (cases b)
    case False
    then show ?thesis using p r d by (simp add: VDP_setPlaneSize_def)
  next
    case True
    have "placed (geo ?s) (tabs ?s) ?s" using p by (simp add: placed_def)
    then obtain s' where s': "setup_vram hk ?s = Some s'" "placed (geo ?s) (layout (fst (geo ?s) AND 0x81 \<noteq> 0)
        (unat (fst (snd (geo ?s))) + unat (fst (snd (snd (geo ?s)))))) s'"
      using setup_vram_ok [OF hk] by blast
    then have i: "both_ok s'" "vdp_inv s'" "geo s' = geo ?s" by (simp_all add: placed_def both_ok_def)
    then have "VDP_setPlaneSize hk w h b s = Some s'"
      using True d s'(1) updateMapsAddress_id [OF i(2)] by (simp add: VDP_setPlaneSize_def)
    moreover have "regValues s' 0xC = regValues s 0xC"
      "unat (planeWidthSft s') + unat (planeHeightSft s') \<in> {10, 11, 12}"
      using i(3) r by (simp_all add: geo_def)
    ultimately show ?thesis using i s'(2) by (auto simp: placed_def geo_def)
  qed
qed

section \<open>Properties\<close>

text \<open>The operations of this file as a data type, so that a program's use of them is a list.\<close>

datatype vdp_call =
    SetReg u16 u8 | SetEnable bool | SetScreenHeight224 | SetScreenHeight240 | SetScreenWidth256
  | SetScreenWidth320 | SetPlaneSize u16 u16 bool | SetScrollingMode u16 u16 | SetBackgroundColor u8
  | SetAutoInc u8 | SetDMAEnabled bool | SetHVLatching bool | SetVInterrupt bool | SetHInterrupt bool
  | SetExtInterrupt bool | SetHilightShadow bool | SetHIntCounter u8 | SetBGAAddress u16
  | SetBGBAddress u16 | SetWindowAddress u16 | SetSpriteListAddress u16 | SetHScrollTableAddress u16
  | SetScanMode u16 | SetWindowHPos bool u16 | SetWindowVPos bool u16 | SetWindowOff
  | SetWindowOnTop u16 | SetWindowOnBottom u16 | SetWindowOnLeft u16 | SetWindowOnRight u16
  | SetWindowFullScreen

fun exec_call :: "'a vdp_st_scheme hooks \<Rightarrow> vdp_call \<Rightarrow> 'a vdp_st_scheme \<Rightarrow> 'a vdp_st_scheme option" where
  "exec_call hk (SetReg r v) s = VDP_setReg hk r v s"
| "exec_call hk (SetEnable b) s = Some (VDP_setEnable b s)"
| "exec_call hk SetScreenHeight224 s = Some (VDP_setScreenHeight224 s)"
| "exec_call hk SetScreenHeight240 s = Some (VDP_setScreenHeight240 s)"
| "exec_call hk SetScreenWidth256 s = Some (VDP_setScreenWidth256 s)"
| "exec_call hk SetScreenWidth320 s = Some (VDP_setScreenWidth320 s)"
| "exec_call hk (SetPlaneSize w h b) s = VDP_setPlaneSize hk w h b s"
| "exec_call hk (SetScrollingMode h v) s = Some (VDP_setScrollingMode h v s)"
| "exec_call hk (SetBackgroundColor c) s = Some (VDP_setBackgroundColor c s)"
| "exec_call hk (SetAutoInc v) s = Some (VDP_setAutoInc v s)"
| "exec_call hk (SetDMAEnabled b) s = Some (VDP_setDMAEnabled b s)"
| "exec_call hk (SetHVLatching b) s = Some (VDP_setHVLatching b s)"
| "exec_call hk (SetVInterrupt b) s = Some (VDP_setVInterrupt b s)"
| "exec_call hk (SetHInterrupt b) s = Some (VDP_setHInterrupt b s)"
| "exec_call hk (SetExtInterrupt b) s = Some (VDP_setExtInterrupt b s)"
| "exec_call hk (SetHilightShadow b) s = Some (VDP_setHilightShadow b s)"
| "exec_call hk (SetHIntCounter v) s = Some (VDP_setHIntCounter v s)"
| "exec_call hk (SetBGAAddress a) s = VDP_setBGAAddress hk a s"
| "exec_call hk (SetBGBAddress a) s = VDP_setBGBAddress hk a s"
| "exec_call hk (SetWindowAddress a) s = VDP_setWindowAddress hk a s"
| "exec_call hk (SetSpriteListAddress a) s = VDP_setSpriteListAddress hk a s"
| "exec_call hk (SetHScrollTableAddress a) s = VDP_setHScrollTableAddress hk a s"
| "exec_call hk (SetScanMode m) s = Some (VDP_setScanMode m s)"
| "exec_call hk (SetWindowHPos b p) s = Some (VDP_setWindowHPos b p s)"
| "exec_call hk (SetWindowVPos b p) s = Some (VDP_setWindowVPos b p s)"
| "exec_call hk SetWindowOff s = Some (VDP_setWindowOff s)"
| "exec_call hk (SetWindowOnTop n) s = Some (VDP_setWindowOnTop n s)"
| "exec_call hk (SetWindowOnBottom n) s = Some (VDP_setWindowOnBottom n s)"
| "exec_call hk (SetWindowOnLeft n) s = Some (VDP_setWindowOnLeft n s)"
| "exec_call hk (SetWindowOnRight n) s = Some (VDP_setWindowOnRight n s)"
| "exec_call hk SetWindowFullScreen s = Some (VDP_setWindowFullScreen s)"

fun exec_calls :: "'a vdp_st_scheme hooks \<Rightarrow> vdp_call list \<Rightarrow> 'a vdp_st_scheme \<Rightarrow> 'a vdp_st_scheme option" where
  "exec_calls hk [] s = Some s"
| "exec_calls hk (c # cs) s = exec_call hk c s \<bind> exec_calls hk cs"

text \<open>Registers have 5-bit numbers.\<close>

fun call_ok :: "vdp_call \<Rightarrow> bool" where
  "call_ok (SetReg r v) \<longleftrightarrow> r < 0x20"
| "call_ok _ \<longleftrightarrow> True"

lemma exec_call_ok:
  assumes hk: "hooks_ok hk" and s: "both_ok s" and c: "call_ok c"
  shows "\<exists>s'. exec_call hk c s = Some s' \<and> both_ok s'"
proof -
  have i: "vdp_inv s" "heap_ok s" using s by (simp_all add: both_ok_def)
  have a: "\<exists>s'. VDP_setBGAAddress hk x s = Some s' \<and> both_ok s'" "\<exists>s'. VDP_setBGBAddress hk x s = Some s' \<and> both_ok s'"
    "\<exists>s'. VDP_setHScrollTableAddress hk x s = Some s' \<and> both_ok s'"
    "\<exists>s'. VDP_setWindowAddress hk x s = Some s' \<and> both_ok s'"
    "\<exists>s'. VDP_setSpriteListAddress hk x s = Some s' \<and> both_ok s'" for x
    using VDP_setAddress_ok [OF hk i, of x] unfolding both_ok_def by blast+
  have p: "\<exists>s'. VDP_setPlaneSize hk w h b s = Some s' \<and> both_ok s'" for w h b
    using VDP_setPlaneSize_ok [OF hk s] by blast
  note set = a p VDP_setReg_ok [OF hk s] simple_setters_ok [OF s] VDP_setScanMode_ok [OF s]
    VDP_setWindowPos_ok [OF s] window_setters_ok [OF s] screen_setters_ok [OF s]
  show ?thesis using c by (cases c) (simp_all add: set)
qed

lemma exec_calls_ok:
  assumes "hooks_ok hk" "both_ok s" "\<forall>c \<in> set cs. call_ok c"
  shows "\<exists>s'. exec_calls hk cs s = Some s' \<and> both_ok s'"
  using assms
proof (induction cs arbitrary: s)
  case (Cons c cs)
  then obtain s1 where "exec_call hk c s = Some s1" "both_ok s1"
    using exec_call_ok [of hk s c] by auto
  then show ?case using Cons.IH [of s1] Cons.prems by auto
qed simp

text \<open>After \<open>VDP_init\<close> has written the registers.\<close>

lemma write_regs_ok:
  assumes "pend (chip_of s) = None" "\<And>r. r < i \<Longrightarrow> regs (chip_of s) r = regValues s r"
  shows "\<exists>es. write_regs i s = s\<lparr>io := io s @ es\<rparr> \<and> coherent (write_regs i s)"
  using assms
proof (induction i s rule: write_regs.induct)
  case (1 i s)
  show ?case
  proof (cases "i < 0x13")
    case False
    then show ?thesis
      using "1.prems" by (intro exI [of _ "[]"]) (simp add: write_regs.simps [of i] coherent_def)
  next
    case True
    let ?w = "(0x8000 OR push_bit 8 (of_nat i)) OR ucast (regValues s i)"
    have "unat (of_nat i :: u16) = i" using True by (simp add: unat_of_nat)
    then have b: "reg_base (0x8000 OR push_bit 8 (of_nat i)) i"
      using True reg_base_num [of "of_nat i"] by (simp add: word_less_nat_alt)
    have c: "chip_of (ctrl_w ?w s) = (chip_of s)\<lparr>regs := (regs (chip_of s))(i := regValues s i)\<rparr>"
      by (rule chip_ctrl_w [OF "1.prems"(1) b])
    have r: "regValues (ctrl_w ?w s) = regValues s" by (simp add: ctrl_w_def)
    have p: "pend (chip_of (ctrl_w ?w s)) = None" using "1.prems"(1) by (simp only: c) simp
    have q: "regs (chip_of (ctrl_w ?w s)) k = regValues (ctrl_w ?w s) k" if "k < Suc i" for k
      using that "1.prems"(2) [of k] by (simp only: c r) (cases "k = i", simp_all)
    obtain es where "write_regs (Suc i) (ctrl_w ?w s) = (ctrl_w ?w s)\<lparr>io := io (ctrl_w ?w s) @ es\<rparr>"
        "coherent (write_regs (Suc i) (ctrl_w ?w s))"
      using "1.IH" [OF True p q] by blast
    then show ?thesis
      using True by (intro exI [of _ "CtrlW ?w # es"]) (simp add: write_regs.simps [of i] ctrl_w_def)
  qed
qed

lemma VDP_init_registers_ok:
  assumes hk: "hooks_ok hk" and s: "pend (chip_of s) = None" "heap_ok s"
  shows "\<exists>s'. VDP_init_registers hk s = Some s' \<and> both_ok s' \<and> regValues s' 0xC = 0x81"
proof -
  let ?s = "init_regs (init_vars s)"
  have pn: "pend (chip_of ?s) = None" using s(1) by (simp add: init_regs_def init_vars_def)
  then obtain es where w: "write_regs 0 ?s = ?s\<lparr>io := io ?s @ es\<rparr>" "coherent (write_regs 0 ?s)"
    using write_regs_ok [of ?s 0] by auto
  let ?w = "(write_regs 0 ?s)\<lparr>maps_addr := 0\<rparr>"
  have h: "heap_ok ?w" "coherent ?w" "min_addr ?w = 0xC000"
    using s(2) w by (simp_all add: heap_ok_def heap_inv_def coherent_def init_regs_def init_vars_def min_addr_def)
  obtain s' where u: "updateMapsAddress hk True ?w = Some s'" "heap_ok s'" "coherent s'"
      "same_vars (?w\<lparr>maps_addr := min_addr ?w\<rparr>) s'"
    using updateMapsAddress_ok [OF hk h(1,2)] by blast
  have v: "same_vars (?s\<lparr>maps_addr := 0xC000\<rparr>) s'"
    using u(4) w(1) h(3) by (simp add: same_vars_def)
  have "screen_ok ?s" "plane_ok ?s"
    by (simp_all add: init_regs_def init_vars_def screen_ok_def plane_ok_def)
  then have "screen_ok s'" "plane_ok s'" using same_vars_ok [OF v] by simp_all
  moreover have "addr_ok {} s'" "maps_addr s' = min_addr s'"
    using v by (simp_all add: same_vars_def addr_ok_def init_regs_def init_vars_def min_addr_def)
  moreover have "regValues s' 0xC = 0x81" using v by (simp add: same_vars_def init_regs_def)
  ultimately show ?thesis using u by (auto simp: VDP_init_registers_def both_ok_def vdp_inv_def)
qed

text \<open>A console right after the heap is set up, and a font loader and sprite engine that do nothing.\<close>

definition console0 :: vdp_st where
  "console0 = \<lparr>ram = (\<lambda>_. 0)(1 := 16), free = 1, heap = 1, heapEnd = 9, needPack = False,
     regValues = (\<lambda>_. 0), window_addr = 0, bga_addr = 0, bgb_addr = 0, hscrl_addr = 0, slist_addr = 0,
     maps_addr = 0, userTileMaxIndex = 0, screenWidth = 0, screenHeight = 0, planeWidth = 0, planeHeight = 0,
     windowWidth = 0, planeWidthSft = 0, planeHeightSft = 0, windowWidthSft = 0, spriteVramSize = 0,
     isPal = False, z80bus = False, io = []\<rparr>"

definition hooks0 :: "'s hooks" where
  "hooks0 = \<lparr>loadDefaultFont = (\<lambda>_. Some), SPR_isInitialized = (\<lambda>_. False), SPR_defragVRAM = Some\<rparr>"

lemma hooks0_ok: "hooks_ok hooks0"
  by (simp add: hooks_ok_def hooks0_def)

lemma console0_ok: "pend (chip_of console0) = None" "heap_ok console0"
proof -
  have "heap_inv console0 [16]" by (simp add: console0_def heap_inv_def hadv_div hused_odd)
  then show "heap_ok console0" by (auto simp: heap_ok_def)
qed (simp add: console0_def chip_of_def chip0_def)

text \<open>
  C8 From initialisation on, whatever setters a program calls and in whatever order, the
  driver's copy of every register (as \<open>VDP_getReg\<close> reports it) is what the chip holds, and the
  screen size, the plane size and the addresses of all tables that the driver reports are those
  the registers select. The code of other parts that the setters call (the font loader and the
  sprite engine) is taken to leave the registers and their copies alone (\<open>hooks_ok\<close>).
\<close>

theorem vdp_registers:
  assumes "hooks_ok hk" "pend (chip_of s) = None" "heap_ok s" "\<forall>c \<in> set cs. call_ok c"
  shows "\<exists>s1 s2. VDP_init_registers hk s = Some s1 \<and> exec_calls hk cs s1 = Some s2
    \<and> (\<forall>reg < 0x13. VDP_getReg reg s2 = regs (chip_of s2) (unat reg))
    \<and> bga_addr s2 = ucast (regs (chip_of s2) 2) * 0x400
    \<and> window_addr s2 = ucast (regs (chip_of s2) 3) * 0x400
    \<and> bgb_addr s2 = ucast (regs (chip_of s2) 4) * 0x2000
    \<and> slist_addr s2 = ucast (regs (chip_of s2) 5) * 0x200
    \<and> hscrl_addr s2 = ucast (regs (chip_of s2) 0xD) * 0x400
    \<and> maps_addr s2 = Min {bga_addr s2, bgb_addr s2, window_addr s2, slist_addr s2, hscrl_addr s2}
    \<and> screenWidth s2 = (if regs (chip_of s2) 0xC AND 0x81 \<noteq> 0 then 320 else 256)
    \<and> screenHeight s2 = (if regs (chip_of s2) 1 AND 8 \<noteq> 0 then 240 else 224)
    \<and> unat (planeWidth s2) = 2 ^ unat (planeWidthSft s2) \<and> unat (planeHeight s2) = 2 ^ unat (planeHeightSft s2)"
proof -
  obtain s1 where s1: "VDP_init_registers hk s = Some s1" "both_ok s1"
    using VDP_init_registers_ok [OF assms(1-3)] by blast
  obtain s2 where s2: "exec_calls hk cs s1 = Some s2" "both_ok s2"
    using exec_calls_ok [OF assms(1) s1(2) assms(4)] by blast
  then have i: "coherent s2" "screen_ok s2" "plane_ok s2" "addr_ok {} s2" "maps_addr s2 = min_addr s2"
    by (simp_all add: both_ok_def vdp_inv_def)
  have r: "regs (chip_of s2) k = regValues s2 k" if "k < 0x13" for k using i(1) that by (simp add: coherent_def)
  have "unat (planeWidth s2) = 2 ^ unat (planeWidthSft s2)" "unat (planeHeight s2) = 2 ^ unat (planeHeightSft s2)"
    using i(3) by (auto simp: plane_ok_def split: if_splits)
  moreover have "maps_addr s2 = Min {bga_addr s2, bgb_addr s2, window_addr s2, slist_addr s2, hscrl_addr s2}"
    using i(5) by (simp add: min_addr_tabs tabs_def ac_simps)
  moreover have "\<forall>reg < 0x13. VDP_getReg reg s2 = regs (chip_of s2) (unat reg)"
    using r by (simp add: VDP_getReg_def word_less_nat_alt)
  ultimately show ?thesis
    using s1(1) s2(1) i(2,4) r [of 2] r [of 3] r [of 4] r [of 5] r [of "0xD"] r [of "0xC"] r [of 1]
    by (auto simp: screen_ok_def addr_ok_def)
qed

text \<open>
  The areas of VRAM the chip reads as tables: the two planes, the window (4 KB in H40 mode, 2 KB in
  H32 mode), the sprite list and the horizontal scroll table.
\<close>

definition area :: "u16 \<Rightarrow> nat \<Rightarrow> nat set" where
  "area a n = {unat a ..< unat a + n}"

definition plane_bytes :: "'a vdp_st_scheme \<Rightarrow> nat" where
  "plane_bytes s = 2 * 2 ^ (unat (planeWidthSft s) + unat (planeHeightSft s))"

definition window_bytes :: "'a vdp_st_scheme \<Rightarrow> nat" where
  "window_bytes s = 2 * 2 ^ unat (windowWidthSft s) * 32"

definition tables :: "'a vdp_st_scheme \<Rightarrow> nat set list" where
  "tables s = [area (bgb_addr s) (plane_bytes s), area (bga_addr s) (plane_bytes s),
     area (window_addr s) (window_bytes s), area (slist_addr s) 640, area (hscrl_addr s) 960]"

fun pairwise_disjoint :: "nat set list \<Rightarrow> bool" where
  "pairwise_disjoint [] \<longleftrightarrow> True"
| "pairwise_disjoint (A # As) \<longleftrightarrow> (\<forall>B \<in> set As. A \<inter> B = {}) \<and> pairwise_disjoint As"

theorem vdp_registers_witness:
  "\<exists>s1 s2. VDP_init_registers hooks0 console0 = Some s1
    \<and> exec_calls hooks0 [SetPlaneSize 64 64 True, SetReg 0x0C 0] s1 = Some s2
    \<and> (\<forall>reg < 0x13. VDP_getReg reg s2 = regs (chip_of s2) (unat reg))
    \<and> bga_addr s2 = ucast (regs (chip_of s2) 2) * 0x400"
  using vdp_registers [OF hooks0_ok console0_ok, of "[SetPlaneSize 64 64 True, SetReg 0x0C 0]"]
  by (simp del: exec_calls.simps) blast

text \<open>
  C27 \<open>VDP_setPlaneSize\<close> with VRAM setup lays the planes, the window, the sprite list and the
  horizontal scroll table out in VRAM without overlap, for every plane size in H32 mode and for
  every size but 32x32 in H40 mode. As in the property of the registers, the font loader and the sprite engine
  are taken to leave them alone.
\<close>

theorem plane_layout:
  assumes "hooks_ok hk" "both_ok s" "VDP_setPlaneSize hk w h True s = Some s'"
    and "regValues s 0xC AND 0x81 = 0 \<or> unat (planeWidthSft s') + unat (planeHeightSft s') \<noteq> 10"
  shows "pairwise_disjoint (tables s') \<and> (\<forall>A \<in> set (tables s'). A \<subseteq> {unat (maps_addr s') ..< 0x10000})"
proof -
  have p: "both_ok s'" "tabs s' = layout (regValues s' 0xC AND 0x81 \<noteq> 0)
        (unat (planeWidthSft s') + unat (planeHeightSft s'))"
      "regValues s' 0xC = regValues s 0xC" "unat (planeWidthSft s') + unat (planeHeightSft s') \<in> {10, 11, 12}"
    using VDP_setPlaneSize_ok [OF assms(1,2), of w h True] assms(3) by auto
  have w: "windowWidthSft s' = (if regValues s' 0xC AND 0x81 \<noteq> 0 then 6 else 5)" "maps_addr s' = min_addr s'"
    using p(1) by (auto simp: both_ok_def vdp_inv_def screen_ok_def split: if_splits)
  let ?n = "unat (planeWidthSft s') + unat (planeHeightSft s')"
  consider "?n = 10" "regValues s' 0xC AND 0x81 = 0" | "?n = 11" | "?n = 12" using p(3,4) assms(4) by auto
  then show ?thesis
  proof cases
    case 1
    with p(2) w show ?thesis
      by (auto simp: layout_def tabs_def tables_def area_def plane_bytes_def window_bytes_def min_addr_def)
  next
    case 2
    with p(2) w show ?thesis
      by (auto simp: layout_def tabs_def tables_def area_def plane_bytes_def window_bytes_def min_addr_def)
  next
    case 3
    with p(2) w show ?thesis
      by (auto simp: layout_def tabs_def tables_def area_def plane_bytes_def window_bytes_def min_addr_def)
  qed
qed

lemma dims_32: "VDP_setPlaneSize hk 32 32 True s = Some s' \<Longrightarrow> hooks_ok hk \<Longrightarrow> both_ok s \<Longrightarrow>
  unat (planeWidthSft s') + unat (planeHeightSft s') = 10"
proof -
  assume a: "VDP_setPlaneSize hk 32 32 True s = Some s'" "hooks_ok hk" "both_ok s"
  let ?s1 = "s\<lparr>planeWidth := 32, planeWidthSft := 5, planeHeight := 32, planeHeightSft := 5\<rparr>"
  let ?s = "write_reg 0x9000 0x10 0 ?s1"
  have d: "plane_dims 32 32 s = (0, ?s1)" by (simp add: plane_dims_def)
  have "placed (geo ?s) (tabs ?s) ?s" using plane_dims_ok [OF a(3) d] by (simp add: placed_def)
  then obtain s2 where s2: "setup_vram hk ?s = Some s2" "both_ok s2" "geo s2 = geo ?s"
    using setup_vram_ok [OF a(2)] unfolding placed_def by blast
  then have "s' = s2"
    using a(1) d updateMapsAddress_id [of s2 hk] by (simp add: VDP_setPlaneSize_def both_ok_def)
  moreover have "planeWidthSft ?s = 5" "planeHeightSft ?s = 5"
    by (simp_all add: write_reg_def set_reg_def ctrl_w_def)
  ultimately show ?thesis using s2(3) by (simp add: geo_def)
qed

lemma init_console0:
  obtains s1 where "VDP_init_registers hooks0 console0 = Some s1" "both_ok s1" "regValues s1 0xC = 0x81"
  using VDP_init_registers_ok [OF hooks0_ok console0_ok] by blast

theorem plane_layout_witness:
  "\<exists>s1 s2. VDP_init_registers hooks0 console0 = Some s1 \<and> VDP_setPlaneSize hooks0 32 32 True (VDP_setScreenWidth256 s1) = Some s2
    \<and> pairwise_disjoint (tables s2)"
proof -
  obtain s1 where s1: "VDP_init_registers hooks0 console0 = Some s1" "both_ok s1" "regValues s1 0xC = 0x81"
    by (rule init_console0)
  let ?s = "VDP_setScreenWidth256 s1"
  have s: "both_ok ?s" using screen_setters_ok(3) [OF s1(2)] .
  have "regValues ?s 0xC AND 0x81 = 0"
    using s1(3) by (simp add: VDP_setScreenWidth256_def flag_reg_def)
  then show ?thesis
    using s1(1) VDP_setPlaneSize_ok [OF hooks0_ok s, of 32 32 True] plane_layout [OF hooks0_ok s, of 32 32] by blast
qed

text \<open>
  In H40 mode, the mode after initialisation, the same call for a plane of 32x32 cells puts the
  window table on top of plane B: the wanted address 0xC800 is not a multiple of 0x1000, and
  \<open>VDP_setWindowAddress\<close> rounds it down to the address of plane B.
\<close>

theorem plane_layout_h40:
  "\<exists>s1 s2. VDP_init_registers hooks0 console0 = Some s1 \<and> VDP_setPlaneSize hooks0 32 32 True s1 = Some s2
    \<and> screenWidth s2 = 320 \<and> window_addr s2 = bgb_addr s2"
proof -
  obtain s1 where s1: "VDP_init_registers hooks0 console0 = Some s1" "both_ok s1" "regValues s1 0xC = 0x81"
    by (rule init_console0)
  obtain s2 where s2: "VDP_setPlaneSize hooks0 32 32 True s1 = Some s2" "both_ok s2" "regValues s2 0xC = 0x81"
      "tabs s2 = layout (regValues s2 0xC AND 0x81 \<noteq> 0) (unat (planeWidthSft s2) + unat (planeHeightSft s2))"
    using VDP_setPlaneSize_ok [OF hooks0_ok s1(2), of 32 32 True] s1(3) by auto
  have "tabs s2 = layout True 10" using s2(3,4) dims_32 [OF s2(1) hooks0_ok s1(2)] by simp
  moreover have "screenWidth s2 = 320" using s2(2,3) by (simp add: both_ok_def vdp_inv_def screen_ok_def)
  ultimately show ?thesis using s1(1) s2(1) by (auto simp: layout_def tabs_def)
qed

end
