(* ===== verification/Dma.thy ===== *)
theory Dma
  imports Vdp
begin

text \<open>
  DMA transfers and the DMA queue, \<open>src/dma.c\<close> with the flush loop of \<open>src/dma_a.s\<close>. The
  queue is an array of 16-byte entries in a heap block: the operations below read and write the
  words of that block in RAM. \<open>DMA_queueDmaFast\<close> appends an entry, \<open>DMA_flushQueue\<close> writes all
  entries to the control port, which starts the transfers. A second heap block is a buffer for
  data that must not change before the flush; \<open>DMA_allocateTemp\<close> takes from it. Source addresses
  are byte addresses; where the code reads through them they are even.

  The lemmas at the end say which words the register writes of a transfer are made of; what
  queueing and flushing do is in \<open>DmaQueue\<close>.
\<close>

section \<open>State\<close>

record dma_st = vdp_st +
  dmaQueues :: ptr
  dmaDataBuffer :: ptr
  nextDataBuffer :: ptr
  queueSize :: u16
  maxTransferPerFrame :: u16
  dmaFlag :: u16
  dataBufferSize :: u16
  queueIndex :: u16
  queueIndexLimit :: u16
  queueTransferSize :: u16
  VBlankProcess :: u16

definition DMA_AUTOFLUSH :: u16 where [cfg]: "DMA_AUTOFLUSH = 1"
definition DMA_OVERCAPACITY_IGNORE :: u16 where [cfg]: "DMA_OVERCAPACITY_IGNORE = 2"
definition PROCESS_DMA_TASK :: u16 where [cfg]: "PROCESS_DMA_TASK = 4"
definition DMA_QUEUE_SIZE_DEFAULT :: u16 where [cfg]: "DMA_QUEUE_SIZE_DEFAULT = 80"
definition DMA_QUEUE_SIZE_MIN :: u16 where [cfg]: "DMA_QUEUE_SIZE_MIN = 32"
definition DMA_TRANSFER_CAPACITY_NTSC :: u16 where [cfg]: "DMA_TRANSFER_CAPACITY_NTSC = 7200"
definition DMA_TRANSFER_CAPACITY_PAL_LOW :: u16 where [cfg]: "DMA_TRANSFER_CAPACITY_PAL_LOW = 8000"
definition DMA_BUFFER_SIZE_NTSC :: u16 where [cfg]: "DMA_BUFFER_SIZE_NTSC = 8192"
definition DMA_BUFFER_SIZE_PAL_LOW :: u16 where [cfg]: "DMA_BUFFER_SIZE_PAL_LOW = 8192"
definition DMA_BUFFER_SIZE_MIN :: u16 where [cfg]: "DMA_BUFFER_SIZE_MIN = 2048"

text \<open>The locations a transfer can go to.\<close>

definition DMA_VRAM :: u8 where [cfg]: "DMA_VRAM = 0"
definition DMA_CRAM :: u8 where [cfg]: "DMA_CRAM = 1"
definition DMA_VSRAM :: u8 where [cfg]: "DMA_VSRAM = 2"

section \<open>Commands and the Z80 bus\<close>

definition VDP_WRITE_VRAM_ADDR :: "u32 \<Rightarrow> u32" where
  "VDP_WRITE_VRAM_ADDR adr = push_bit 16 (0x4000 + (adr AND 0x3FFF)) + (drop_bit 14 adr OR 0x00)"

definition VDP_WRITE_CRAM_ADDR :: "u32 \<Rightarrow> u32" where
  "VDP_WRITE_CRAM_ADDR adr = push_bit 16 (0xC000 + (adr AND 0x7F)) + 0x00"

definition VDP_WRITE_VSRAM_ADDR :: "u32 \<Rightarrow> u32" where
  "VDP_WRITE_VSRAM_ADDR adr = push_bit 16 (0x4000 + (adr AND 0x7F)) + 0x10"

definition VDP_DMA_VRAM_ADDR :: "u32 \<Rightarrow> u32" where
  "VDP_DMA_VRAM_ADDR adr = push_bit 16 (0x4000 + (adr AND 0x3FFF)) + (drop_bit 14 adr OR 0x80)"

definition VDP_DMA_CRAM_ADDR :: "u32 \<Rightarrow> u32" where
  "VDP_DMA_CRAM_ADDR adr = push_bit 16 (0xC000 + (adr AND 0x7F)) + 0x80"

definition VDP_DMA_VSRAM_ADDR :: "u32 \<Rightarrow> u32" where
  "VDP_DMA_VSRAM_ADDR adr = push_bit 16 (0x4000 + (adr AND 0x7F)) + 0x90"

definition VDP_DMA_VRAMCOPY_ADDR :: "u32 \<Rightarrow> u32" where
  "VDP_DMA_VRAMCOPY_ADDR adr = push_bit 16 (0x4000 + (adr AND 0x3FFF)) + (drop_bit 14 adr OR 0xC0)"

definition Z80_isBusTaken :: "'a vdp_st_scheme \<Rightarrow> bool" where
  "Z80_isBusTaken s = z80bus s"

text \<open>\<open>Z80_requestBus(FALSE)\<close>, without waiting for the bus.\<close>

definition Z80_requestBus :: "'a vdp_st_scheme \<Rightarrow> 'a vdp_st_scheme" where
  "Z80_requestBus s = s\<lparr>io := io s @ [BusW 0x0100, ResetW 0x0100], z80bus := True\<rparr>"

definition Z80_getAndRequestBus :: "'a vdp_st_scheme \<Rightarrow> bool \<times> 'a vdp_st_scheme" where
  "Z80_getAndRequestBus s =
    (if z80bus s then (True, s)
     else (False, s\<lparr>io := io s @ [BusW 0x0100, ResetW 0x0100], z80bus := True\<rparr>))"

definition Z80_releaseBus :: "'a vdp_st_scheme \<Rightarrow> 'a vdp_st_scheme" where
  "Z80_releaseBus s = s\<lparr>io := io s @ [BusW 0x0000], z80bus := False\<rparr>"

section \<open>Settings\<close>

definition DMA_clearQueue :: "'a dma_st_scheme \<Rightarrow> 'a dma_st_scheme" where
  "DMA_clearQueue s = s\<lparr>queueIndex := 0, queueIndexLimit := 0, queueTransferSize := 0,
     nextDataBuffer := dmaDataBuffer s\<rparr>"

definition DMA_getAutoFlush :: "'a dma_st_scheme \<Rightarrow> bool" where
  "DMA_getAutoFlush s \<longleftrightarrow> dmaFlag s AND DMA_AUTOFLUSH \<noteq> 0"

definition DMA_setAutoFlush :: "bool \<Rightarrow> 'a dma_st_scheme \<Rightarrow> 'a dma_st_scheme" where
  "DMA_setAutoFlush value s =
    (if value then s\<lparr>dmaFlag := dmaFlag s OR DMA_AUTOFLUSH, VBlankProcess := VBlankProcess s OR PROCESS_DMA_TASK\<rparr>
     else s\<lparr>dmaFlag := dmaFlag s AND NOT DMA_AUTOFLUSH,
            VBlankProcess := VBlankProcess s AND NOT PROCESS_DMA_TASK\<rparr>)"

definition DMA_getMaxQueueSize :: "'a dma_st_scheme \<Rightarrow> u16" where
  "DMA_getMaxQueueSize s = queueSize s"

text \<open>\<open>if (p) MEM_free(p); p = MEM_alloc(n);\<close> with \<open>debug\<close> as in \<open>MEM_free\<close>.\<close>

definition DMA_setMaxQueueSize :: "bool \<Rightarrow> u16 \<Rightarrow> 'a dma_st_scheme \<Rightarrow> 'a dma_st_scheme option" where
  "DMA_setMaxQueueSize debug value s = do {
     let s = s\<lparr>queueSize := max DMA_QUEUE_SIZE_MIN value\<rparr>;
     let s = (if dmaQueues s \<noteq> NULL then MEM_free debug (dmaQueues s) s else s);
     (p, s) \<leftarrow> MEM_alloc (queueSize s * 16) s;
     Some (DMA_clearQueue (s\<lparr>dmaQueues := p\<rparr>))
   }"

definition DMA_setMaxQueueSizeToDefault :: "bool \<Rightarrow> 'a dma_st_scheme \<Rightarrow> 'a dma_st_scheme option" where
  "DMA_setMaxQueueSizeToDefault debug s = DMA_setMaxQueueSize debug DMA_QUEUE_SIZE_DEFAULT s"

definition DMA_getMaxTransferSize :: "'a dma_st_scheme \<Rightarrow> u16" where
  "DMA_getMaxTransferSize s = (if maxTransferPerFrame s = -1 then 0 else maxTransferPerFrame s)"

definition DMA_setMaxTransferSize :: "u16 \<Rightarrow> 'a dma_st_scheme \<Rightarrow> 'a dma_st_scheme" where
  "DMA_setMaxTransferSize value s =
     (if value \<noteq> 0 then s\<lparr>maxTransferPerFrame := value\<rparr> else s\<lparr>maxTransferPerFrame := -1\<rparr>)"

definition DMA_setMaxTransferSizeToDefault :: "'a dma_st_scheme \<Rightarrow> 'a dma_st_scheme" where
  "DMA_setMaxTransferSizeToDefault s =
     DMA_setMaxTransferSize (if isPal s then DMA_TRANSFER_CAPACITY_PAL_LOW else DMA_TRANSFER_CAPACITY_NTSC) s"

definition DMA_getBufferSize :: "'a dma_st_scheme \<Rightarrow> u16" where
  "DMA_getBufferSize s = dataBufferSize s * 2"

definition DMA_setBufferSize :: "bool \<Rightarrow> u16 \<Rightarrow> 'a dma_st_scheme \<Rightarrow> 'a dma_st_scheme option" where
  "DMA_setBufferSize debug value s = do {
     let s = s\<lparr>dataBufferSize := max DMA_BUFFER_SIZE_MIN value div 2\<rparr>;
     let s = (if dmaDataBuffer s \<noteq> NULL then MEM_free debug (dmaDataBuffer s) s else s);
     s \<leftarrow> (if dataBufferSize s \<noteq> 0 then do {
              (p, s) \<leftarrow> MEM_alloc (dataBufferSize s * 2) s;
              Some (s\<lparr>dmaDataBuffer := p\<rparr>)
            } else Some (s\<lparr>dmaDataBuffer := NULL\<rparr>));
     Some (DMA_clearQueue s)
   }"

definition DMA_setBufferSizeToDefault :: "bool \<Rightarrow> 'a dma_st_scheme \<Rightarrow> 'a dma_st_scheme option" where
  "DMA_setBufferSizeToDefault debug s =
     DMA_setBufferSize debug (if isPal s then DMA_BUFFER_SIZE_PAL_LOW else DMA_BUFFER_SIZE_NTSC) s"

definition DMA_getIgnoreOverCapacity :: "'a dma_st_scheme \<Rightarrow> bool" where
  "DMA_getIgnoreOverCapacity s \<longleftrightarrow> dmaFlag s AND DMA_OVERCAPACITY_IGNORE \<noteq> 0"

definition DMA_setIgnoreOverCapacity :: "bool \<Rightarrow> 'a dma_st_scheme \<Rightarrow> 'a dma_st_scheme" where
  "DMA_setIgnoreOverCapacity value s =
     (if value then s\<lparr>dmaFlag := dmaFlag s OR DMA_OVERCAPACITY_IGNORE\<rparr>
      else s\<lparr>dmaFlag := dmaFlag s AND NOT DMA_OVERCAPACITY_IGNORE\<rparr>)"

definition DMA_initEx :: "bool \<Rightarrow> u16 \<Rightarrow> u16 \<Rightarrow> u16 \<Rightarrow> 'a dma_st_scheme \<Rightarrow> 'a dma_st_scheme option" where
  "DMA_initEx debug sz capacity bufferSize s = do {
     let s = s\<lparr>maxTransferPerFrame := capacity, dmaFlag := DMA_AUTOFLUSH,
               VBlankProcess := VBlankProcess s OR PROCESS_DMA_TASK\<rparr>;
     let s = (if dmaQueues s \<noteq> NULL then (MEM_free debug (dmaQueues s) s)\<lparr>dmaQueues := NULL\<rparr> else s);
     let s = (if dmaDataBuffer s \<noteq> NULL then (MEM_free debug (dmaDataBuffer s) s)\<lparr>dmaDataBuffer := NULL\<rparr> else s);
     s \<leftarrow> MEM_pack s;
     let s = s\<lparr>queueSize := (if sz \<noteq> 0 then max DMA_QUEUE_SIZE_MIN sz else DMA_QUEUE_SIZE_DEFAULT)\<rparr>;
     (p, s) \<leftarrow> MEM_alloc (queueSize s * 16) s;
     let s = s\<lparr>dmaQueues := p\<rparr>;
     if bufferSize \<noteq> 0 then DMA_setBufferSize debug bufferSize s else DMA_setBufferSizeToDefault debug s
   }"

definition DMA_init :: "bool \<Rightarrow> 'a dma_st_scheme \<Rightarrow> 'a dma_st_scheme option" where
  "DMA_init debug s = DMA_initEx debug 0 (-1) 0 s"

section \<open>The queue\<close>

definition DMA_getQueueSize :: "'a dma_st_scheme \<Rightarrow> u16" where
  "DMA_getQueueSize s = queueIndex s"

definition DMA_getQueueTransferSize :: "'a dma_st_scheme \<Rightarrow> u16" where
  "DMA_getQueueTransferSize s = queueTransferSize s"

definition DMA_canQueue :: "u8 \<Rightarrow> u16 \<Rightarrow> 'a dma_st_scheme \<Rightarrow> bool" where
  "DMA_canQueue location len s =
    (let nextSize = queueTransferSize s + push_bit (if location = DMA_VRAM then 1 else 0) len
     in nextSize \<le> maxTransferPerFrame s)"

text \<open>
  The \<open>switch\<close> on the location: the command and the size to count. For a location that is none of
  the three the entry keeps the command word that is there and nothing is counted.
\<close>

definition dma_command :: "u8 \<Rightarrow> u16 \<Rightarrow> u16 \<Rightarrow> (u32 \<times> u16) option" where
  "dma_command location to len =
    (if location = DMA_VRAM then Some (VDP_DMA_VRAM_ADDR (ucast to), push_bit 1 len)
     else if location = DMA_CRAM then Some (VDP_DMA_CRAM_ADDR (ucast to), len)
     else if location = DMA_VSRAM then Some (VDP_DMA_VSRAM_ADDR (ucast to), len)
     else None)"

text \<open>\<open>DMAOpInfo\<close> at \<open>p\<close>: \<open>regLenL\<close>, \<open>regLenH\<close>, \<open>regAddrMStep\<close>, \<open>regAddrHAddrL\<close>; \<open>regCtrlWrite\<close> at \<open>p + 6\<close>.\<close>

definition store_info :: "ptr \<Rightarrow> u32 \<Rightarrow> u16 \<Rightarrow> u16 \<Rightarrow> ram \<Rightarrow> ram" where
  "store_info p fromAddr len step m =
    (let m = m(p := 0x9300 + (len AND 0xFF));
         m = m(p + 1 := 0x9400 + (drop_bit 8 len AND 0xFF));
         m = store32 (p + 2) (0x96008F00 + (push_bit 7 fromAddr AND 0xFF0000) + ucast step) m
     in store32 (p + 4) (0x97009500 + (drop_bit 1 fromAddr AND 0x7F00FF)) m)"

definition DMA_queueDmaFast ::
  "u8 \<Rightarrow> u32 \<Rightarrow> u16 \<Rightarrow> u16 \<Rightarrow> u16 \<Rightarrow> 'a dma_st_scheme \<Rightarrow> bool \<times> 'a dma_st_scheme" where
  "DMA_queueDmaFast location fromAddr to len step s =
    (if queueIndex s \<ge> queueSize s then (False, s)
     else
       (let p = dmaQueues s + 8 * unat (queueIndex s);
            s = s\<lparr>ram := store_info p fromAddr len step (ram s)\<rparr>;
            s = (case dma_command location to len of
                   Some (cmd, n) \<Rightarrow> s\<lparr>ram := store32 (p + 6) cmd (ram s), queueTransferSize := queueTransferSize s + n\<rparr>
                 | None \<Rightarrow> s);
            s = s\<lparr>queueIndex := queueIndex s + 1\<rparr>
        in if queueTransferSize s > maxTransferPerFrame s then
             (dmaFlag s AND DMA_OVERCAPACITY_IGNORE = 0,
              if queueIndexLimit s = 0 then s\<lparr>queueIndexLimit := queueIndex s - 1\<rparr> else s)
           else (True, s)))"

definition DMA_queueDma :: "u8 \<Rightarrow> u32 \<Rightarrow> u16 \<Rightarrow> u16 \<Rightarrow> u16 \<Rightarrow> 'a dma_st_scheme \<Rightarrow> bool \<times> 'a dma_st_scheme" where
  "DMA_queueDma location fromAddr to len step s =
    (let bankLimitB = 0x20000 - (fromAddr AND 0x1FFFF); bankLimitW = drop_bit 1 bankLimitB in
     if ucast len > bankLimitW then
       (let (ok, s) = DMA_queueDmaFast location (fromAddr + bankLimitB) (ucast (ucast to + bankLimitB))
              (ucast (ucast len - bankLimitW)) step s
        in if \<not> ok then (False, s)
           else DMA_queueDmaFast location fromAddr to (ucast bankLimitW) step s)
     else DMA_queueDmaFast location fromAddr to len step s)"

section \<open>The data buffer\<close>

definition DMA_releaseTemp :: "u16 \<Rightarrow> 'a dma_st_scheme \<Rightarrow> 'a dma_st_scheme" where
  "DMA_releaseTemp len s = s\<lparr>nextDataBuffer := nextDataBuffer s - unat len\<rparr>"

definition DMA_allocateTemp :: "u16 \<Rightarrow> 'a dma_st_scheme \<Rightarrow> ptr \<times> 'a dma_st_scheme" where
  "DMA_allocateTemp len s =
    (let result = nextDataBuffer s; s = s\<lparr>nextDataBuffer := nextDataBuffer s + unat len\<rparr> in
     if nextDataBuffer s > dmaDataBuffer s + unat (dataBufferSize s) then (NULL, DMA_releaseTemp len s)
     else (result, s))"

definition DMA_allocateAndQueueDma ::
  "u8 \<Rightarrow> u16 \<Rightarrow> u16 \<Rightarrow> u16 \<Rightarrow> 'a dma_st_scheme \<Rightarrow> ptr \<times> 'a dma_st_scheme" where
  "DMA_allocateAndQueueDma location to len step s =
    (let (result, s) = DMA_allocateTemp len s in
     if result = NULL then (result, s)
     else
       (let (ok, s) = DMA_queueDmaFast location (of_nat (2 * result)) to len step s in
        if \<not> ok then (NULL, DMA_releaseTemp len s) else (result, s)))"

text \<open>\<open>memcpy\<close> of \<open>n\<close> words between even addresses, one word after the other.\<close>

fun copy_words :: "ptr \<Rightarrow> ptr \<Rightarrow> nat \<Rightarrow> ram \<Rightarrow> ram" where
  "copy_words dst src 0 m = m"
| "copy_words dst src (Suc n) m = copy_words (dst + 1) (src + 1) n (m(dst := m src))"

definition DMA_copyAndQueueDma ::
  "u8 \<Rightarrow> u32 \<Rightarrow> u16 \<Rightarrow> u16 \<Rightarrow> u16 \<Rightarrow> 'a dma_st_scheme \<Rightarrow> bool \<times> 'a dma_st_scheme" where
  "DMA_copyAndQueueDma location fromAddr to len step s =
    (let (buffer, s) = DMA_allocateTemp len s in
     if buffer = NULL then (False, s)
     else
       (let s = s\<lparr>ram := copy_words buffer (unat fromAddr div 2) (unat (len * 2) div 2) (ram s)\<rparr>;
            (ok, s) = DMA_queueDmaFast location (of_nat (2 * buffer)) to len step s
        in if \<not> ok then (False, DMA_releaseTemp len s) else (True, s)))"

section \<open>Flushing\<close>

text \<open>\<open>flushQueue\<close> of \<open>src/dma_a.s\<close>: three long writes and two word writes per entry.\<close>

fun flushQueue_loop :: "nat \<Rightarrow> ptr \<Rightarrow> 'a vdp_st_scheme \<Rightarrow> 'a vdp_st_scheme" where
  "flushQueue_loop 0 p s = s"
| "flushQueue_loop (Suc n) p s =
    (let s = ctrl_l (load32 p (ram s)) s;
         s = ctrl_l (load32 (p + 2) (ram s)) s;
         s = ctrl_l (load32 (p + 4) (ram s)) s;
         s = ctrl_w (ram s (p + 6)) s;
         s = ctrl_w (ram s (p + 7)) s
     in flushQueue_loop n (p + 8) s)"

definition flushQueue :: "u16 \<Rightarrow> 'a dma_st_scheme \<Rightarrow> 'a dma_st_scheme" where
  "flushQueue num s = flushQueue_loop (unat num) (dmaQueues s) s"

definition DMA_flushQueue :: "'a dma_st_scheme \<Rightarrow> 'a dma_st_scheme" where
  "DMA_flushQueue s =
    (let i = (if queueIndexLimit s \<noteq> 0 \<and> dmaFlag s AND DMA_OVERCAPACITY_IGNORE \<noteq> 0
              then queueIndexLimit s else queueIndex s);
         autoInc = VDP_getAutoInc s;
         busTaken = Z80_isBusTaken s;
         s = (if \<not> busTaken then Z80_requestBus s else s);
         s = flushQueue i s;
         s = (if \<not> busTaken then Z80_releaseBus s else s);
         s = DMA_clearQueue s
     in VDP_setAutoInc autoInc s)"

section \<open>Immediate transfers\<close>

text \<open>\<open>if (step != -1) VDP_setAutoInc(step);\<close>\<close>

definition set_step :: "u16 \<Rightarrow> 'a vdp_st_scheme \<Rightarrow> 'a vdp_st_scheme" where
  "set_step step s = (if step \<noteq> -1 then VDP_setAutoInc (ucast step) s else s)"

definition DMA_doDmaFast ::
  "u8 \<Rightarrow> u32 \<Rightarrow> u16 \<Rightarrow> u16 \<Rightarrow> u16 \<Rightarrow> 'a vdp_st_scheme \<Rightarrow> 'a vdp_st_scheme" where
  "DMA_doDmaFast location fromAddr to len step s =
    (let s = set_step step s;
         s = ctrl_w (0x9300 + (len AND 0xFF)) s;
         s = ctrl_w (0x9400 + (drop_bit 8 len AND 0xFF)) s;
         fromAddr = drop_bit 1 fromAddr;
         s = ctrl_w (0x9500 + ucast (fromAddr AND 0xFF)) s;
         fromAddr = drop_bit 8 fromAddr;
         s = ctrl_w (0x9600 + ucast (fromAddr AND 0xFF)) s;
         fromAddr = drop_bit 8 fromAddr;
         s = ctrl_w (0x9700 + ucast (fromAddr AND 0x7F)) s;
         cmd = (if location = DMA_CRAM then VDP_DMA_CRAM_ADDR (ucast to)
                else if location = DMA_VSRAM then VDP_DMA_VSRAM_ADDR (ucast to)
                else VDP_DMA_VRAM_ADDR (ucast to));
         s = ctrl_w (ucast (drop_bit 16 cmd)) s;
         (busTaken, s) = Z80_getAndRequestBus s;
         s = ctrl_w (ucast cmd) s
     in if \<not> busTaken then Z80_releaseBus s else s)"

definition DMA_doDma :: "u8 \<Rightarrow> u32 \<Rightarrow> u16 \<Rightarrow> u16 \<Rightarrow> u16 \<Rightarrow> 'a vdp_st_scheme \<Rightarrow> 'a vdp_st_scheme" where
  "DMA_doDma location fromAddr to len step s =
    (let bankLimitB = 0x20000 - (fromAddr AND 0x1FFFF); bankLimitW = drop_bit 1 bankLimitB in
     if ucast len > bankLimitW then
       DMA_doDmaFast location fromAddr to (ucast bankLimitW) step
         (DMA_doDmaFast location (fromAddr + bankLimitB) (ucast (ucast to + bankLimitB))
            (ucast (ucast len - bankLimitW)) step s)
     else DMA_doDmaFast location fromAddr to len step s)"

text \<open>Long writes and word writes of consecutive source words to the data port.\<close>

fun copy_longs :: "nat \<Rightarrow> ptr \<Rightarrow> 'a vdp_st_scheme \<Rightarrow> ptr \<times> 'a vdp_st_scheme" where
  "copy_longs 0 p s = (p, s)"
| "copy_longs (Suc n) p s = copy_longs n (p + 2) (data_l (load32 p (ram s)) s)"

fun copy_shorts :: "nat \<Rightarrow> ptr \<Rightarrow> 'a vdp_st_scheme \<Rightarrow> 'a vdp_st_scheme" where
  "copy_shorts 0 p s = s"
| "copy_shorts (Suc n) p s = copy_shorts n (p + 1) (data_w (ram s p) s)"

text \<open>The main loop writes 8 longs (16 words) per turn.\<close>

fun copy_blocks :: "nat \<Rightarrow> ptr \<Rightarrow> 'a vdp_st_scheme \<Rightarrow> ptr \<times> 'a vdp_st_scheme" where
  "copy_blocks 0 p s = (p, s)"
| "copy_blocks (Suc n) p s = (let (p, s) = copy_longs 8 p s in copy_blocks n p s)"

definition DMA_doCPUCopyDirect ::
  "u32 \<Rightarrow> u32 \<Rightarrow> u16 \<Rightarrow> u16 \<Rightarrow> 'a vdp_st_scheme \<Rightarrow> 'a vdp_st_scheme" where
  "DMA_doCPUCopyDirect cmd fromAddr len step s =
    (let s = set_step step s;
         s = ctrl_l cmd s;
         il = len div 16; iw = len AND 0xF;
         (p, s) = copy_blocks (unat il) (unat fromAddr div 2) s
     in copy_shorts (unat iw) p s)"

definition DMA_doCPUCopy ::
  "u8 \<Rightarrow> u32 \<Rightarrow> u16 \<Rightarrow> u16 \<Rightarrow> u16 \<Rightarrow> 'a vdp_st_scheme \<Rightarrow> 'a vdp_st_scheme" where
  "DMA_doCPUCopy location fromAddr to len step s =
    (let cmd = (if location = DMA_CRAM then VDP_WRITE_CRAM_ADDR (ucast to)
                else if location = DMA_VSRAM then VDP_WRITE_VSRAM_ADDR (ucast to)
                else VDP_WRITE_VRAM_ADDR (ucast to))
     in DMA_doCPUCopyDirect cmd fromAddr len step s)"

definition DMA_transfer ::
  "TransferMethod \<Rightarrow> u8 \<Rightarrow> u32 \<Rightarrow> u16 \<Rightarrow> u16 \<Rightarrow> u16 \<Rightarrow> 'a dma_st_scheme \<Rightarrow> bool \<times> 'a dma_st_scheme" where
  "DMA_transfer tm location fromAddr to len step s =
    (if len = 0 then (True, s)
     else case tm of
       CPU \<Rightarrow> (True, DMA_doCPUCopy location fromAddr to len step s)
     | DMA \<Rightarrow> (True, DMA_doDma location fromAddr to len step s)
     | DMA_QUEUE \<Rightarrow> DMA_queueDma location fromAddr to len step s
     | DMA_QUEUE_COPY \<Rightarrow> DMA_copyAndQueueDma location fromAddr to len step s)"

definition fill_length :: "u16 \<Rightarrow> u16 \<Rightarrow> u16" where
  "fill_length to len =
    (if len \<noteq> 0 then
       (if to AND 1 \<noteq> 0 then (if len < 3 then 1 else len - 2) else (if len < 2 then 1 else len - 1))
     else len)"

definition DMA_doVRamFill :: "u16 \<Rightarrow> u16 \<Rightarrow> u8 \<Rightarrow> u16 \<Rightarrow> 'a vdp_st_scheme \<Rightarrow> 'a vdp_st_scheme" where
  "DMA_doVRamFill to len value step s =
    (let s = set_step step s;
         l = fill_length to len;
         s = ctrl_w (0x9300 + (l AND 0xFF)) s;
         s = ctrl_w (0x9400 + (drop_bit 8 l AND 0xFF)) s;
         s = ctrl_w 0x9780 s;
         s = ctrl_l (VDP_DMA_VRAM_ADDR (ucast to)) s
     in data_w (ucast value OR push_bit 8 (ucast value)) s)"

definition DMA_doVRamCopy :: "u16 \<Rightarrow> u16 \<Rightarrow> u16 \<Rightarrow> u16 \<Rightarrow> 'a vdp_st_scheme \<Rightarrow> 'a vdp_st_scheme" where
  "DMA_doVRamCopy fromAddr to len step s =
    (let s = set_step step s;
         s = ctrl_w (0x9300 + (len AND 0xFF)) s;
         s = ctrl_w (0x9400 + (drop_bit 8 len AND 0xFF)) s;
         s = ctrl_w (0x9500 + (fromAddr AND 0xFF)) s;
         s = ctrl_w (0x9600 + (drop_bit 8 fromAddr AND 0xFF)) s;
         s = ctrl_w 0x97C0 s
     in ctrl_l (VDP_DMA_VRAMCOPY_ADDR (ucast to)) s)"

section \<open>Words of an entry\<close>

text \<open>A register word as the code forms it, by addition.\<close>

lemma plus_byte:
  fixes base :: u16 and v :: u8
  assumes "reg_base base r"
  shows "base + ucast v = base OR ucast v"
proof -
  have b: "(ucast base :: u8) = 0" using assms by (simp add: reg_base_def)
  have "base AND ucast v = 0"
  proof (rule bit_eqI)
    fix n
    have "\<not> bit base n" if "n < 8"
      using that arg_cong [OF b, of "\<lambda>w. bit w n"] by (simp add: bit_unsigned_iff)
    then show "bit (base AND ucast v) n = bit 0 n"
      by (auto simp: bit_and_iff bit_unsigned_iff dest: bit_imp_le_length)
  qed
  then show ?thesis by (simp add: disjunctive_add_eq_or)
qed

lemma dma_reg_bases:
  "reg_base 0x9300 0x13" "reg_base 0x9400 0x14" "reg_base 0x9500 0x15" "reg_base 0x9600 0x16" "reg_base 0x9700 0x17"
  by (simp_all add: reg_base_def)

lemma chip_word_plus:
  "pend c = None \<Longrightarrow> reg_base base r \<Longrightarrow> chip_word (base + ucast v) c = c\<lparr>regs := (regs c)(r := v)\<rparr>"
  by (simp add: plus_byte chip_word_reg)

lemmas chip_dma_regs = chip_word_plus [OF _ dma_reg_bases(1)] chip_word_plus [OF _ dma_reg_bases(2)]
  chip_word_plus [OF _ dma_reg_bases(3)] chip_word_plus [OF _ dma_reg_bases(4)]
  chip_word_plus [OF _ dma_reg_bases(5)] chip_word_plus [OF _ reg_bases(12)]

text \<open>The bytes of length and source address that go to the registers.\<close>

definition lenL :: "u16 \<Rightarrow> u8" where "lenL len = ucast len"
definition lenH :: "u16 \<Rightarrow> u8" where "lenH len = ucast (drop_bit 8 len)"
definition srcL :: "u32 \<Rightarrow> u8" where "srcL a = ucast (drop_bit 1 a)"
definition srcM :: "u32 \<Rightarrow> u8" where "srcM a = ucast (drop_bit 9 a)"
definition srcH :: "u32 \<Rightarrow> u8" where "srcH a = ucast (drop_bit 17 a) AND 0x7F"

lemma len_words:
  "len AND 0xFF = ucast (lenL len)" "drop_bit 8 len AND 0xFF = ucast (lenH len)"
  by (simp_all add: lenL_def lenH_def ucast_low_byte)


lemma src_bytes:
  "unat (srcL a) = unat a div 2 mod 256" "unat (srcM a) = unat a div 512 mod 256"
  "unat (srcH a) = unat a div 131072 mod 128"
proof -
  show "unat (srcL a) = unat a div 2 mod 256" "unat (srcM a) = unat a div 512 mod 256"
    by (simp_all only: srcL_def srcM_def unat_ucast_mod unat_drop_bit) simp_all
  have "srcH a = ucast (drop_bit 17 a) AND mask 7" by (simp add: srcH_def mask_eq_exp_minus_1)
  then have "unat (srcH a) = unat a div 2 ^ 17 mod 2 ^ LENGTH(8) mod 2 ^ 7"
    by (simp only: unat_and_mask unat_ucast_mod unat_drop_bit)
  then show "unat (srcH a) = unat a div 131072 mod 128" by (simp add: mod_mod_cancel)
qed

lemma push_and_mask:
  assumes "j \<le> k"
  shows "push_bit j (a :: u32) AND push_bit k (mask n) = push_bit k (drop_bit (k - j) a AND mask n)"
proof (rule bit_eqI)
  fix i :: nat
  have "i - j = (k - j) + (i - k)" if "k \<le> i" using that assms by simp
  then show "bit (push_bit j a AND push_bit k (mask n)) i = bit (push_bit k (drop_bit (k - j) a AND mask n)) i"
    using assms by (auto simp: bit_and_iff bit_push_bit_iff bit_drop_bit_eq bit_mask_iff)
qed

lemma unat_push16: "unat y < 65536 \<Longrightarrow> unat (push_bit 16 (y :: u32)) = 65536 * unat y"
  by (simp add: push_bit_eq_mult unat_word_ariths)

text \<open>The two halves of a 32-bit value.\<close>

lemma halves:
  assumes "unat (x :: u32) = 65536 * h + l" "l < 65536" "h < 65536"
  shows "(ucast (drop_bit 16 x) :: u16) = of_nat h" "(ucast x :: u16) = of_nat l"
proof -
  have "unat (ucast (drop_bit 16 x) :: u16) = h" "unat (ucast x :: u16) = l"
    using assms by (simp_all only: unat_ucast_mod unat_drop_bit) simp_all
  then show "(ucast (drop_bit 16 x) :: u16) = of_nat h" "(ucast x :: u16) = of_nat l"
    using assms(2,3) by (auto intro!: unsigned_word_eqI [where ?'a = nat] simp: unat_of_nat)
qed

lemma of_nat_byte: "of_nat (n + unat (v :: u8)) = (of_nat n + ucast v :: u16)"
proof -
  have "of_nat (unat v) = (ucast v :: u16)" by (simp add: unsigned_ucast_eq)
  then show ?thesis by simp
qed

lemma addr_words:
  assumes "step < 0x100"
  shows "(ucast (drop_bit 16 (0x96008F00 + (push_bit 7 a AND 0xFF0000) + ucast (step :: u16) :: u32)) :: u16)
      = 0x9600 + ucast (srcM a)"
    and "(ucast (0x96008F00 + (push_bit 7 a AND 0xFF0000) + ucast (step :: u16) :: u32) :: u16)
      = 0x8F00 + ucast (ucast step :: u8)"
proof -
  have "(0xFF0000 :: u32) = push_bit 16 (mask 8)" by (simp add: mask_eq_exp_minus_1)
  then have "push_bit 7 a AND 0xFF0000 = push_bit 16 (drop_bit 9 a AND mask 8)"
    using push_and_mask [of 7 16 a 8] by simp
  moreover have "unat (drop_bit 9 a AND mask 8) = unat (srcM a)"
    using unat_and_mask [of "drop_bit 9 a" 8] unat_drop_bit [of 9 a] by (simp add: src_bytes)
  ultimately have p: "unat (push_bit 7 a AND 0xFF0000) = 65536 * unat (srcM a)"
    using unat_push16 [of "drop_bit 9 a AND mask 8"] unat_u8_lt [of "srcM a"] by simp
  have st: "unat (ucast step :: u32) = unat step" "unat (ucast step :: u8) = unat step" "unat step < 256"
    using assms by (simp_all add: unat_ucast_mod word_less_nat_alt)
  let ?x = "0x96008F00 + (push_bit 7 a AND 0xFF0000) + ucast step :: u32"
  have "unat ?x = 65536 * (0x9600 + unat (srcM a)) + (0x8F00 + unat (ucast step :: u8))"
    using p st unat_u8_lt [of "srcM a"] unat_plus_small [of "0x96008F00 :: u32" "push_bit 7 a AND 0xFF0000"]
      unat_plus_small [of "0x96008F00 + (push_bit 7 a AND 0xFF0000)" "ucast step"] by simp
  from halves [OF this] show "(ucast (drop_bit 16 ?x) :: u16) = 0x9600 + ucast (srcM a)"
      "(ucast ?x :: u16) = 0x8F00 + ucast (ucast step :: u8)"
    using st(2,3) unat_u8_lt [of "srcM a"] of_nat_byte [of "0x9600" "srcM a"] of_nat_byte [of "0x8F00" "ucast step"]
    by simp_all
qed

lemma addr_words2:
  "(ucast (drop_bit 16 (0x97009500 + (drop_bit 1 a AND 0x7F00FF) :: u32)) :: u16) = 0x9700 + ucast (srcH a)"
  "(ucast (0x97009500 + (drop_bit 1 a AND 0x7F00FF) :: u32) :: u16) = 0x9500 + ucast (srcL a)"
proof -
  have m: "(0x7F00FF :: u32) = push_bit 16 (mask 7) OR mask 8" by (simp add: mask_eq_exp_minus_1)
  have "drop_bit 1 a AND (push_bit 16 (mask 7) OR mask 8) =
      push_bit 16 (drop_bit 17 a AND mask 7) OR (drop_bit 1 a AND mask 8)"
    using push_and_mask [of 0 16 "drop_bit 1 a" 7] by (simp add: bit.conj_disj_distrib)
  moreover have "push_bit 16 (drop_bit 17 a AND mask 7) AND (drop_bit 1 a AND mask 8) = 0"
    by (rule bit_eqI) (auto simp: bit_and_iff bit_push_bit_iff bit_mask_iff)
  ultimately have s: "drop_bit 1 a AND 0x7F00FF = push_bit 16 (drop_bit 17 a AND mask 7) + (drop_bit 1 a AND mask 8)"
    by (simp only: m disjunctive_add_eq_or)
  have u: "unat (drop_bit 17 a AND mask 7) = unat (srcH a)" "unat (drop_bit 1 a AND mask 8) = unat (srcL a)"
    using unat_and_mask [of "drop_bit 17 a" 7] unat_and_mask [of "drop_bit 1 a" 8] unat_drop_bit [of 17 a]
      unat_drop_bit [of 1 a] by (simp_all add: src_bytes)
  have b: "unat (srcH a) < 256" "unat (srcL a) < 256" by (rule unat_u8_lt)+
  have "unat (drop_bit 1 a AND 0x7F00FF) = 65536 * unat (srcH a) + unat (srcL a)"
    using u b unat_push16 [of "drop_bit 17 a AND mask 7"]
      unat_plus_small [of "push_bit 16 (drop_bit 17 a AND mask 7)" "drop_bit 1 a AND mask 8"] by (simp only: s) simp
  then have "unat (0x97009500 + (drop_bit 1 a AND 0x7F00FF)) =
      65536 * (0x9700 + unat (srcH a)) + (0x9500 + unat (srcL a))"
    using b unat_plus_small [of "0x97009500 :: u32" "drop_bit 1 a AND 0x7F00FF"] by simp
  from halves [OF this] b
  show "(ucast (drop_bit 16 (0x97009500 + (drop_bit 1 a AND 0x7F00FF) :: u32)) :: u16) = 0x9700 + ucast (srcH a)"
    "(ucast (0x97009500 + (drop_bit 1 a AND 0x7F00FF) :: u32) :: u16) = 0x9500 + ucast (srcL a)"
    using of_nat_byte [of "0x9700" "srcH a"] of_nat_byte [of "0x9500" "srcL a"] by simp_all
qed

end
