(* ===== verification/DmaQueue.thy ===== *)
theory DmaQueue
  imports Dma HeapClient
begin

text \<open>
  The queue of transfers as a list. An entry in RAM stands for a transfer \<open>xfer\<close>
  (\<open>entry_at\<close>); \<open>queue_inv s q\<close> says that the queue of \<open>s\<close> holds the list \<open>q\<close>. The lemmas show
  that queueing appends to the list, that flushing makes the chip perform the listed transfers
  in order, what is dropped when the capacity of a frame is exceeded, how a transfer that
  crosses a 128 KB bank is split, and that the immediate transfers do the same to the chip.
\<close>

section \<open>The abstract queue\<close>

record xfer =
  x_loc :: u8
  x_from :: u32
  x_to :: u16
  x_len :: u16
  x_step :: u16

text \<open>A transfer the queue can hold: one of the three locations, and a step that fits the register.\<close>

definition xfer_ok :: "xfer \<Rightarrow> bool" where
  "xfer_ok x \<longleftrightarrow> x_loc x \<in> {DMA_VRAM, DMA_CRAM, DMA_VSRAM} \<and> x_step x < 0x100"

definition xfer_cmd :: "xfer \<Rightarrow> u32" where
  "xfer_cmd x = fst (the (dma_command (x_loc x) (x_to x) (x_len x)))"

text \<open>The size of a transfer as the queue counts it.\<close>

definition xfer_size :: "xfer \<Rightarrow> u16" where
  "xfer_size x = snd (the (dma_command (x_loc x) (x_to x) (x_len x)))"

text \<open>The DMA the chip performs for a transfer.\<close>

definition xfer_op :: "xfer \<Rightarrow> dma_op" where
  "xfer_op x = \<lparr>op_cmd = (ucast (drop_bit 16 (xfer_cmd x)), ucast (xfer_cmd x)), op_inc = ucast (x_step x),
     op_len = (lenL (x_len x), lenH (x_len x)),
     op_src = (srcL (x_from x), srcM (x_from x), srcH (x_from x))\<rparr>"

definition entry_at :: "ptr \<Rightarrow> xfer \<Rightarrow> ram \<Rightarrow> bool" where
  "entry_at p x m \<longleftrightarrow> m p = 0x9300 + ucast (lenL (x_len x)) \<and> m (p + 1) = 0x9400 + ucast (lenH (x_len x)) \<and>
     m (p + 2) = 0x9600 + ucast (srcM (x_from x)) \<and> m (p + 3) = 0x8F00 + ucast (ucast (x_step x) :: u8) \<and>
     m (p + 4) = 0x9700 + ucast (srcH (x_from x)) \<and> m (p + 5) = 0x9500 + ucast (srcL (x_from x)) \<and>
     m (p + 6) = ucast (drop_bit 16 (xfer_cmd x)) \<and> m (p + 7) = ucast (xfer_cmd x)"

definition entries :: "ptr \<Rightarrow> xfer list \<Rightarrow> ram \<Rightarrow> bool" where
  "entries p q m \<longleftrightarrow> (\<forall>i < length q. entry_at (p + 8 * i) (q ! i) m)"

lemma entries_Nil [simp]: "entries p [] m"
  by (simp add: entries_def)

lemma entries_Cons [simp]: "entries p (x # q) m \<longleftrightarrow> entry_at p x m \<and> entries (p + 8) q m"
proof -
  have "(\<forall>i < Suc (length q). entry_at (p + 8 * i) ((x # q) ! i) m) \<longleftrightarrow>
      entry_at p x m \<and> (\<forall>i < length q. entry_at (p + 8 + 8 * i) (q ! i) m)"
    by (auto simp: less_Suc_eq_0_disj add.assoc)
  then show ?thesis by (simp add: entries_def)
qed

lemma entries_append:
  "entries p (q @ [x]) m \<longleftrightarrow> entries p q m \<and> entry_at (p + 8 * length q) x m"
  by (induction q arbitrary: p) (auto simp: algebra_simps)

lemma entry_cong: "entry_at p x m \<Longrightarrow> (\<And>a. p \<le> a \<Longrightarrow> a < p + 8 \<Longrightarrow> m' a = m a) \<Longrightarrow> entry_at p x m'"
  by (simp add: entry_at_def)

lemma entries_cong:
  assumes "entries p q m" "\<And>a. p \<le> a \<Longrightarrow> a < p + 8 * length q \<Longrightarrow> m' a = m a"
  shows "entries p q m'"
  using assms
proof (induction q arbitrary: p)
  case (Cons x q)
  then show ?case using Cons.IH [of "p + 8"] by (auto elim!: entry_cong)
qed simp

lemma reg_word_iff: "(w :: u16) AND 0xC000 = 0x8000 \<longleftrightarrow> 0x8000 \<le> unat w \<and> unat w < 0xC000"
proof -
  have "NOT (mask 14) = (0xC000 :: u16)" by (simp add: mask_eq_exp_minus_1)
  then have "w AND 0xC000 = w AND NOT (mask 14)" by simp
  then have "unat (w AND 0xC000) = unat w - unat w mod 2 ^ 14"
    by (simp only: word_and_not_minus unat_minus_le word_and_le2 unat_and_mask)
  then have u: "unat (w AND 0xC000) = 16384 * (unat w div 16384)" by (simp add: minus_mod_eq_mult_div)
  have "w AND 0xC000 = 0x8000 \<longleftrightarrow> unat (w AND 0xC000) = unat (0x8000 :: u16)"
    by (metis unsigned_word_eqI)
  also have "\<dots> \<longleftrightarrow> unat w div 16384 = 2" by (simp add: u)
  also have "\<dots> \<longleftrightarrow> 0x8000 \<le> unat w \<and> unat w < 0xC000" by linarith
  finally show ?thesis .
qed

lemma and_0x80: "unat (w :: u16) div 128 = 1 \<Longrightarrow> w AND 0x80 \<noteq> 0"
proof -
  assume "unat w div 128 = 1"
  then have "bit w 7" using bit_unat_word [of w 7] by simp
  then show ?thesis using and_exp_eq_0_iff_not_bit [of w 7] by simp
qed

lemma cmd_words:
  assumes "unat h < 65536" "unat l < 65536"
  shows "(ucast (drop_bit 16 (push_bit 16 h + l :: u32)) :: u16) = ucast h" "(ucast (push_bit 16 h + l :: u32) :: u16) = ucast l"
proof -
  have "unat (push_bit 16 h + l) = 65536 * unat h + unat l"
    using assms unat_push16 [of h] unat_plus_small [of "push_bit 16 h" l] by simp
  from halves [OF this assms(2,1)] show "(ucast (drop_bit 16 (push_bit 16 h + l :: u32)) :: u16) = ucast h"
      "(ucast (push_bit 16 h + l :: u32) :: u16) = ucast l"
    using assms by (auto intro!: unsigned_word_eqI [where ?'a = nat] simp: unat_of_nat unat_ucast_mod)
qed

text \<open>The bank bits of a VRAM address and the command bits do not overlap.\<close>

lemma bank_or: "n AND 3 = 0 \<Longrightarrow> drop_bit 14 (ucast (to :: u16) :: u32) OR n = drop_bit 14 (ucast to) + n"
proof -
  assume n: "n AND 3 = 0"
  have m: "mask 2 = (3 :: u32)" by (simp add: mask_eq_exp_minus_1)
  have "drop_bit 14 (ucast to :: u32) AND n = 0"
  proof (rule bit_eqI)
    fix i
    have "\<not> bit n i" if "i < 2"
      using that arg_cong [OF n [folded m], of "\<lambda>w. bit w i"] by (auto simp: bit_and_iff bit_mask_iff dest: bit_imp_le_length)
    then show "bit (drop_bit 14 (ucast to :: u32) AND n) i = bit 0 i"
      by (auto simp: bit_drop_bit_eq bit_and_iff bit_unsigned_iff dest: bit_imp_le_length)
  qed
  then show ?thesis by (simp add: disjunctive_add_eq_or)
qed

lemma addr_parts:
  fixes to :: u16
  shows "unat ((ucast to :: u32) AND 0x3FFF) = unat to mod 16384" "unat ((ucast to :: u32) AND 0x7F) = unat to mod 128"
    "unat (drop_bit 14 (ucast to :: u32)) = unat to div 16384"
proof -
  have m: "(0x3FFF :: u32) = mask 14" "(0x7F :: u32) = mask 7" by (simp_all add: mask_eq_exp_minus_1)
  have u: "unat (ucast to :: u32) = unat to" using unat_u16_lt [of to] by (simp add: unat_ucast_mod)
  show "unat ((ucast to :: u32) AND 0x3FFF) = unat to mod 16384" "unat ((ucast to :: u32) AND 0x7F) = unat to mod 128"
    by (simp_all only: m unat_and_mask u) simp_all
  show "unat (drop_bit 14 (ucast to :: u32)) = unat to div 16384" using u by (simp add: unat_drop_bit)
qed

text \<open>The two halves of the command word, as numbers.\<close>

lemma xfer_cmd_halves:
  assumes "xfer_ok x"
  shows "unat (ucast (drop_bit 16 (xfer_cmd x)) :: u16) =
      (if x_loc x = DMA_VRAM then 0x4000 + unat (x_to x) mod 16384
       else if x_loc x = DMA_CRAM then 0xC000 + unat (x_to x) mod 128 else 0x4000 + unat (x_to x) mod 128)"
    and "unat (ucast (xfer_cmd x) :: u16) =
      (if x_loc x = DMA_VRAM then 0x80 + unat (x_to x) div 16384 else if x_loc x = DMA_CRAM then 0x80 else 0x90)"
proof -
  let ?a = "ucast (x_to x) :: u32"
  have h: "unat (0x4000 + (?a AND 0x3FFF)) = 0x4000 + unat (x_to x) mod 16384"
      "unat (0xC000 + (?a AND 0x7F)) = 0xC000 + unat (x_to x) mod 128"
      "unat (0x4000 + (?a AND 0x7F)) = 0x4000 + unat (x_to x) mod 128"
    using unat_plus_small [of "0x4000" "?a AND 0x3FFF"] unat_plus_small [of "0xC000" "?a AND 0x7F"]
      unat_plus_small [of "0x4000" "?a AND 0x7F"] mod_less_divisor [of 16384 "unat (x_to x)"]
      mod_less_divisor [of 128 "unat (x_to x)"]
    by (simp_all add: addr_parts)
  have "unat (x_to x) div 16384 < 4" using unat_u16_lt [of "x_to x"] by simp
  then have l: "unat (drop_bit 14 ?a + 0x80) = 0x80 + unat (x_to x) div 16384"
    using unat_plus_small [of "drop_bit 14 ?a" "0x80"] by (simp add: addr_parts)
  have cw: "unat (ucast (drop_bit 16 (xfer_cmd x)) :: u16) = unat h \<and> unat (ucast (xfer_cmd x) :: u16) = unat l"
    if "xfer_cmd x = push_bit 16 h + l" "unat h < 65536" "unat l < 65536" for h l
    using cmd_words [OF that(2,3)] that by (simp add: unat_ucast_mod)
  have b: "unat (x_to x) mod 16384 < 16384" "unat (x_to x) mod 128 < 128" by simp_all
  have o: "drop_bit 14 ?a OR 0x80 = drop_bit 14 ?a + 0x80" by (rule bank_or) simp
  note defs = xfer_cmd_def dma_command_def DMA_VRAM_def DMA_CRAM_def DMA_VSRAM_def
  have "x_loc x = DMA_VRAM \<Longrightarrow> xfer_cmd x = push_bit 16 (0x4000 + (?a AND 0x3FFF)) + (drop_bit 14 ?a + 0x80)"
    "x_loc x = DMA_CRAM \<Longrightarrow> xfer_cmd x = push_bit 16 (0xC000 + (?a AND 0x7F)) + 0x80"
    "x_loc x = DMA_VSRAM \<Longrightarrow> xfer_cmd x = push_bit 16 (0x4000 + (?a AND 0x7F)) + 0x90"
    by (simp only: defs VDP_DMA_VRAM_ADDR_def o, simp)
      (simp only: defs VDP_DMA_CRAM_ADDR_def VDP_DMA_VSRAM_ADDR_def, simp)+
  note cmd = this [THEN cw]
  consider "x_loc x = DMA_VRAM" | "x_loc x = DMA_CRAM" | "x_loc x = DMA_VSRAM" using assms by (auto simp: xfer_ok_def)
  then have "unat (ucast (drop_bit 16 (xfer_cmd x)) :: u16) =
      (if x_loc x = DMA_VRAM then 0x4000 + unat (x_to x) mod 16384
       else if x_loc x = DMA_CRAM then 0xC000 + unat (x_to x) mod 128 else 0x4000 + unat (x_to x) mod 128)
    \<and> unat (ucast (xfer_cmd x) :: u16) =
      (if x_loc x = DMA_VRAM then 0x80 + unat (x_to x) div 16384 else if x_loc x = DMA_CRAM then 0x80 else 0x90)"
    (is "?H \<and> ?L")
  proof cases
    case 1
    then show ?thesis using cmd(1) h(1) l b \<open>unat (x_to x) div 16384 < 4\<close> by simp
  next
    case 2
    then show ?thesis using cmd(2) h(2) b by (simp add: DMA_VRAM_def DMA_CRAM_def)
  next
    case 3
    then show ?thesis using cmd(3) h(3) b by (simp add: DMA_VRAM_def DMA_CRAM_def DMA_VSRAM_def)
  qed
  then show ?H ?L by simp_all
qed

lemma cmd_not_reg:
  assumes "xfer_ok x"
  shows "(ucast (drop_bit 16 (xfer_cmd x)) :: u16) AND 0xC000 \<noteq> 0x8000" "(ucast (xfer_cmd x) :: u16) AND 0x80 \<noteq> 0"
proof -
  have "unat (x_to x) mod 16384 < 16384" "unat (x_to x) mod 128 < 128" "unat (x_to x) div 16384 < 4"
    using unat_u16_lt [of "x_to x"] by simp_all
  then show "(ucast (drop_bit 16 (xfer_cmd x)) :: u16) AND 0xC000 \<noteq> 0x8000" "(ucast (xfer_cmd x) :: u16) AND 0x80 \<noteq> 0"
    using xfer_cmd_halves [OF assms] by (auto simp: reg_word_iff intro!: and_0x80 split: if_splits)
qed

lemma chip_io_load32:
  "chip_io (CtrlL (load32 p m)) c = chip_word (m (p + 1)) (chip_word (m p) c)"
  by (simp only: chip_io.simps load32_words)

lemma flush_entry:
  assumes "entry_at p x (ram s)" "pend (chip_of s) = None" "xfer_ok x"
  shows "\<exists>es c. flushQueue_loop (Suc n) p s = flushQueue_loop n (p + 8) (s\<lparr>io := io s @ es\<rparr>)
    \<and> chip_of (s\<lparr>io := io s @ es\<rparr>) = (chip_of s)\<lparr>regs := c, dmas := dmas (chip_of s) @ [xfer_op x]\<rparr>
    \<and> (\<forall>r. r \<noteq> 0xF \<and> r < 0x13 \<longrightarrow> c r = regs (chip_of s) r)"
proof -
  let ?m = "ram s"
  let ?es = "[CtrlL (load32 p ?m), CtrlL (load32 (p + 2) ?m), CtrlL (load32 (p + 4) ?m), CtrlW (?m (p + 6)), CtrlW (?m (p + 7))]"
  let ?c = "(regs (chip_of s))(0x13 := lenL (x_len x), 0x14 := lenH (x_len x), 0x16 := srcM (x_from x),
    0xF := ucast (x_step x), 0x17 := srcH (x_from x), 0x15 := srcL (x_from x))"
  have i: "p + 2 + 1 = p + 3" "p + 4 + 1 = p + 5" by simp_all
  have e: "?m p = 0x9300 + ucast (lenL (x_len x))" "?m (p + 1) = 0x9400 + ucast (lenH (x_len x))"
      "?m (p + 2) = 0x9600 + ucast (srcM (x_from x))" "?m (p + 2 + 1) = 0x8F00 + ucast (ucast (x_step x) :: u8)"
      "?m (p + 4) = 0x9700 + ucast (srcH (x_from x))" "?m (p + 4 + 1) = 0x9500 + ucast (srcL (x_from x))"
      "?m (p + 6) = ucast (drop_bit 16 (xfer_cmd x))" "?m (p + 7) = ucast (xfer_cmd x)"
    using assms(1) unfolding entry_at_def i by blast+
  let ?c6 = "(chip_of s)\<lparr>regs := ?c\<rparr>"
  have r: "fold chip_io (take 3 ?es) (chip_of s) = ?c6"
    by (simp only: take_Suc_Cons take0 numeral_3_eq_3 fold_simps chip_io_load32 e)
      (simp add: chip_dma_regs assms(2))
  have "chip_io (CtrlW (?m (p + 7))) (chip_io (CtrlW (?m (p + 6))) ?c6) =
      ?c6\<lparr>dmas := dmas (chip_of s) @ [xfer_op x]\<rparr>"
    using cmd_not_reg [OF assms(3)] assms(2) by (simp add: e chip_word_def xfer_op_def)
  then have "fold chip_io ?es (chip_of s) = (chip_of s)\<lparr>regs := ?c, dmas := dmas (chip_of s) @ [xfer_op x]\<rparr>"
    using r by simp
  moreover have "flushQueue_loop (Suc n) p s = flushQueue_loop n (p + 8) (s\<lparr>io := io s @ ?es\<rparr>)"
    by (simp add: Let_def ctrl_l_def ctrl_w_def)
  ultimately show ?thesis by (intro exI [of _ ?es] exI [of _ ?c]) (simp del: flushQueue_loop.simps)
qed


text \<open>Flushing a queue makes the chip perform its transfers in order.\<close>

lemma flush_entries:
  assumes "entries p q (ram s)" "pend (chip_of s) = None" "\<forall>x \<in> set q. xfer_ok x"
  shows "\<exists>es c. flushQueue_loop (length q) p s = s\<lparr>io := io s @ es\<rparr>
    \<and> chip_of (s\<lparr>io := io s @ es\<rparr>) = (chip_of s)\<lparr>regs := c, dmas := dmas (chip_of s) @ map xfer_op q\<rparr>
    \<and> (\<forall>r. r \<noteq> 0xF \<and> r < 0x13 \<longrightarrow> c r = regs (chip_of s) r)"
  using assms
proof (induction q arbitrary: p s)
  case Nil
  then show ?case by (intro exI [of _ "[]"] exI [of _ "regs (chip_of s)"]) simp
next
  case (Cons x q)
  obtain es c where e: "flushQueue_loop (Suc (length q)) p s = flushQueue_loop (length q) (p + 8) (s\<lparr>io := io s @ es\<rparr>)"
      "chip_of (s\<lparr>io := io s @ es\<rparr>) = (chip_of s)\<lparr>regs := c, dmas := dmas (chip_of s) @ [xfer_op x]\<rparr>"
      "\<forall>r. r \<noteq> 0xF \<and> r < 0x13 \<longrightarrow> c r = regs (chip_of s) r"
    using flush_entry [of p x s "length q"] Cons.prems by auto
  let ?s = "s\<lparr>io := io s @ es\<rparr>"
  obtain es' c' where "flushQueue_loop (length q) (p + 8) ?s = ?s\<lparr>io := io ?s @ es'\<rparr>"
      "chip_of (?s\<lparr>io := io ?s @ es'\<rparr>) = (chip_of ?s)\<lparr>regs := c', dmas := dmas (chip_of ?s) @ map xfer_op q\<rparr>"
      "\<forall>r. r \<noteq> 0xF \<and> r < 0x13 \<longrightarrow> c' r = regs (chip_of ?s) r"
    using Cons.IH [of "p + 8" ?s] Cons.prems e(2) by auto
  then show ?case
    using e by (intro exI [of _ "es @ es'"] exI [of _ c']) (simp del: flushQueue_loop.simps)
qed

section \<open>The queue invariant\<close>

text \<open>The queue as the code counts it: total size (in 16 bits) and the index where the limit was reached.\<close>

definition total :: "xfer list \<Rightarrow> u16" where
  "total q = sum_list (map xfer_size q)"

definition queue_inv :: "'a dma_st_scheme \<Rightarrow> xfer list \<Rightarrow> bool" where
  "queue_inv s q \<longleftrightarrow>
     entries (dmaQueues s) q (ram s) \<and> length q = unat (queueIndex s) \<and> queueIndex s \<le> queueSize s \<and>
     (\<forall>x \<in> set q. xfer_ok x) \<and> queueTransferSize s = total q \<and> queueIndexLimit s \<le> queueIndex s \<and>
     (q \<noteq> [] \<and> xfer_size (hd q) \<le> maxTransferPerFrame s \<longrightarrow>
        total (if queueIndexLimit s \<noteq> 0 then take (unat (queueIndexLimit s)) q else q) \<le> maxTransferPerFrame s)"

text \<open>The array of entries is the data of a heap block.\<close>

definition queue_in_heap :: "'a dma_st_scheme \<Rightarrow> u16 list \<Rightarrow> bool" where
  "queue_in_heap s hs \<longleftrightarrow> 0 < dmaQueues s \<and> unat (queueSize s) \<le> 4095 \<and>
     (dmaQueues s - 1, hmk (adjsize (queueSize s * 16))) \<in> set (live s hs)"

definition queue_xfer :: "xfer \<Rightarrow> 'a dma_st_scheme \<Rightarrow> bool \<times> 'a dma_st_scheme" where
  "queue_xfer x s = DMA_queueDmaFast (x_loc x) (x_from x) (x_to x) (x_len x) (x_step x) s"

lemma store_entry:
  assumes "xfer_ok x"
  shows "entry_at p x (store32 (p + 6) (xfer_cmd x) (store_info p (x_from x) (x_len x) (x_step x) m))"
    "a \<notin> {p ..< p + 8} \<Longrightarrow> store32 (p + 6) (xfer_cmd x) (store_info p (x_from x) (x_len x) (x_step x) m) a = m a"
proof -
  have i: "p + 2 + 1 = p + 3" "p + 4 + 1 = p + 5" "p + 6 + 1 = p + 7" by simp_all
  have "x_step x < 0x100" using assms by (simp add: xfer_ok_def)
  note w = addr_words [OF this] addr_words2 len_words
  show "entry_at p x (store32 (p + 6) (xfer_cmd x) (store_info p (x_from x) (x_len x) (x_step x) m))"
    unfolding entry_at_def store_info_def store32_def Let_def i w by (simp add: lenL_def lenH_def)
  show "a \<notin> {p ..< p + 8} \<Longrightarrow> store32 (p + 6) (xfer_cmd x) (store_info p (x_from x) (x_len x) (x_step x) m) a = m a"
    unfolding store_info_def store32_def Let_def i by auto
qed

lemma dma_command_ok: "xfer_ok x \<Longrightarrow> dma_command (x_loc x) (x_to x) (x_len x) = Some (xfer_cmd x, xfer_size x)"
  by (auto simp: xfer_ok_def xfer_cmd_def xfer_size_def dma_command_def)

lemma queue_xfer_eq:
  assumes "xfer_ok x" "queueIndex s < queueSize s"
  shows "\<exists>m l. queue_xfer x s =
      (queueTransferSize s + xfer_size x \<le> maxTransferPerFrame s \<or> dmaFlag s AND DMA_OVERCAPACITY_IGNORE = 0,
       s\<lparr>ram := m, queueTransferSize := queueTransferSize s + xfer_size x, queueIndex := queueIndex s + 1,
         queueIndexLimit := l\<rparr>)
    \<and> entry_at (dmaQueues s + 8 * unat (queueIndex s)) x m
    \<and> (\<forall>a. a \<notin> {dmaQueues s + 8 * unat (queueIndex s) ..< dmaQueues s + 8 * unat (queueIndex s) + 8} \<longrightarrow> m a = ram s a)
    \<and> l = (if queueTransferSize s + xfer_size x > maxTransferPerFrame s \<and> queueIndexLimit s = 0
           then queueIndex s else queueIndexLimit s)"
proof -
  let ?p = "dmaQueues s + 8 * unat (queueIndex s)"
  let ?m = "store32 (?p + 6) (xfer_cmd x) (store_info ?p (x_from x) (x_len x) (x_step x) (ram s))"
  let ?l = "if queueTransferSize s + xfer_size x > maxTransferPerFrame s \<and> queueIndexLimit s = 0
           then queueIndex s else queueIndexLimit s"
  have "queue_xfer x s =
      (queueTransferSize s + xfer_size x \<le> maxTransferPerFrame s \<or> dmaFlag s AND DMA_OVERCAPACITY_IGNORE = 0,
       s\<lparr>ram := ?m, queueTransferSize := queueTransferSize s + xfer_size x, queueIndex := queueIndex s + 1,
         queueIndexLimit := ?l\<rparr>)"
    using assms(2)
    by (auto simp: queue_xfer_def DMA_queueDmaFast_def dma_command_ok [OF assms(1)] Let_def not_less)
  then show ?thesis
    using store_entry(1) [OF assms(1), of ?p] store_entry(2) [OF assms(1), where p = ?p] by (intro exI [of _ ?m] exI [of _ ?l]) simp
qed

lemma total_append [simp]: "total (q @ [x]) = total q + xfer_size x"
  by (simp add: total_def)

lemma total_take: "n \<le> length q \<Longrightarrow> take n (q @ [x]) = take n q"
  by simp

lemma queue_xfer_inv:
  assumes inv: "queue_inv s q" and x: "xfer_ok x" and full: "queueIndex s < queueSize s"
    and r: "queue_xfer x s = (ok, s')"
  shows "queue_inv s' (q @ [x])"
proof -
  obtain m l where e: "s' = s\<lparr>ram := m, queueTransferSize := queueTransferSize s + xfer_size x,
        queueIndex := queueIndex s + 1, queueIndexLimit := l\<rparr>"
      "entry_at (dmaQueues s + 8 * unat (queueIndex s)) x m"
      "\<And>a. a \<notin> {dmaQueues s + 8 * unat (queueIndex s) ..< dmaQueues s + 8 * unat (queueIndex s) + 8} \<Longrightarrow> m a = ram s a"
      "l = (if queueTransferSize s + xfer_size x > maxTransferPerFrame s \<and> queueIndexLimit s = 0
           then queueIndex s else queueIndexLimit s)"
    using queue_xfer_eq [OF x full] r by auto
  have i: "unat (queueIndex s + 1) = unat (queueIndex s) + 1"
    using full unat_u16_lt [of "queueSize s"] unat_plus_small [of "queueIndex s" 1] by (simp add: word_less_nat_alt)
  have q: "entries (dmaQueues s) q (ram s)" "length q = unat (queueIndex s)" "queueTransferSize s = total q"
      "queueIndexLimit s \<le> queueIndex s"
    using inv by (simp_all add: queue_inv_def)
  have "entries (dmaQueues s) q m"
    by (rule entries_cong [OF q(1)]) (use e(3) q(2) in auto)
  then have "entries (dmaQueues s) (q @ [x]) m" using e(2) q(2) by (simp add: entries_append)
  moreover have "queueIndex s + 1 \<le> queueSize s" using full i by (simp add: word_le_nat_alt word_less_nat_alt)
  moreover have "l \<le> queueIndex s + 1" using e(4) q(4) i by (auto simp: word_le_nat_alt)
  moreover have "total (if l \<noteq> 0 then take (unat l) (q @ [x]) else q @ [x]) \<le> maxTransferPerFrame s"
    if h: "xfer_size (hd (q @ [x])) \<le> maxTransferPerFrame s"
  proof (cases "q = []")
    case True
    then have "queueIndex s = 0" "queueIndexLimit s = 0" using q by (auto simp: unat_eq_zero)
    then show ?thesis using True h e(4) q(3) by (simp add: total_def)
  next
    case False
    then have t: "total (if queueIndexLimit s \<noteq> 0 then take (unat (queueIndexLimit s)) q else q) \<le> maxTransferPerFrame s"
      using inv h by (simp add: queue_inv_def)
    show ?thesis
    proof (cases "queueIndexLimit s = 0")
      case True
      then show ?thesis using t e(4) q(2,3) False by (auto simp: not_less)
    next
      case False
      then have "l = queueIndexLimit s" "unat l \<le> length q" using e(4) q(2,4) by (auto simp: word_le_nat_alt)
      then show ?thesis using t False by simp
    qed
  qed
  ultimately show ?thesis
    using inv x e(1) i unfolding queue_inv_def by (cases "l = 0") (simp_all del: take_append)
qed

lemma queue_full: "\<not> queueIndex s < queueSize s \<Longrightarrow> queue_xfer x s = (False, s)"
  by (simp add: queue_xfer_def DMA_queueDmaFast_def not_less)

text \<open>Queueing writes inside the heap block of the queue only.\<close>

lemma queue_xfer_heap:
  assumes "heap_inv s hs" "queue_in_heap s hs" and x: "xfer_ok x" and r: "queue_xfer x s = (ok, s')"
  shows "heap_inv s' hs \<and> queue_in_heap s' hs"
proof (cases "queueIndex s < queueSize s")
  case False
  then show ?thesis using assms(1,2) r queue_full [OF False, of x] by simp
next
  case True
  let ?h = "hmk (adjsize (queueSize s * 16))"
  obtain m l where e: "s' = s\<lparr>ram := m, queueTransferSize := queueTransferSize s + xfer_size x,
        queueIndex := queueIndex s + 1, queueIndexLimit := l\<rparr>"
      "\<And>a. a \<notin> {dmaQueues s + 8 * unat (queueIndex s) ..< dmaQueues s + 8 * unat (queueIndex s) + 8} \<Longrightarrow> m a = ram s a"
    using queue_xfer_eq [OF x True] r by auto
  have n: "unat (queueSize s * 16) = 16 * unat (queueSize s)"
    using assms(2) by (simp add: queue_in_heap_def unat_word_ariths)
  then have h: "hadv ?h = 8 * unat (queueSize s) + 1"
    using assms(2) mf.mk_adv [OF adjsize_free, of "queueSize s * 16"] hadv_adjsize [of "queueSize s * 16"]
    by (simp add: queue_in_heap_def)
  have "ram s' a = ram s a" if "a \<notin> {dmaQueues s - 1 <..< dmaQueues s - 1 + hadv ?h}" for a
    using that True assms(2) unfolding h e(1)
    by (auto simp: queue_in_heap_def word_less_nat_alt intro!: e(2))
  then have "heap_inv s' hs"
    using assms(1,2) e(1)
    by (intro heap_inv_data [OF assms(1), of "dmaQueues s - 1" ?h]) (auto simp: queue_in_heap_def)
  then show ?thesis using assms(2) e(1) by (simp add: queue_in_heap_def live_def)
qed

section \<open>Queueing several transfers\<close>

fun queue_all :: "xfer list \<Rightarrow> 'a dma_st_scheme \<Rightarrow> bool list \<times> 'a dma_st_scheme" where
  "queue_all [] s = ([], s)"
| "queue_all (x # xs) s =
    (let (ok, s) = queue_xfer x s; (oks, s) = queue_all xs s in (ok # oks, s))"

text \<open>Queueing changes the entries and the three counters, nothing else.\<close>

definition queue_frame :: "'a dma_st_scheme \<Rightarrow> 'a dma_st_scheme \<Rightarrow> bool" where
  "queue_frame s s' \<longleftrightarrow> (\<exists>m t i l. s' = s\<lparr>ram := m, queueTransferSize := t, queueIndex := i, queueIndexLimit := l\<rparr>)"

lemma queue_frameI:
  "s' = s\<lparr>ram := m, queueTransferSize := t, queueIndex := i, queueIndexLimit := l\<rparr> \<Longrightarrow> queue_frame s s'"
  unfolding queue_frame_def by blast

lemma queue_frame_refl [simp]: "queue_frame s s"
  unfolding queue_frame_def
  by (intro exI [of _ "ram s"] exI [of _ "queueTransferSize s"] exI [of _ "queueIndex s"]
      exI [of _ "queueIndexLimit s"]) simp

lemma queue_frame_trans [trans]: "queue_frame s s' \<Longrightarrow> queue_frame s' s'' \<Longrightarrow> queue_frame s s''"
  unfolding queue_frame_def by auto blast

lemma queue_frame_sel:
  assumes "queue_frame s s'"
  shows "regValues s' = regValues s" "io s' = io s" "chip_of s' = chip_of s" "z80bus s' = z80bus s"
    "dmaFlag s' = dmaFlag s" "queueSize s' = queueSize s" "maxTransferPerFrame s' = maxTransferPerFrame s"
    "dmaQueues s' = dmaQueues s" "dmaDataBuffer s' = dmaDataBuffer s" "coherent s' = coherent s"
  using assms by (auto simp: queue_frame_def chip_of_def coherent_def)

lemma queue_xfer_frame: "xfer_ok x \<Longrightarrow> queue_frame s (snd (queue_xfer x s))"
proof (cases "queueIndex s < queueSize s")
  case True
  assume "xfer_ok x"
  from queue_xfer_eq [OF this True] obtain m l where "snd (queue_xfer x s) = s\<lparr>ram := m,
      queueTransferSize := queueTransferSize s + xfer_size x, queueIndex := queueIndex s + 1, queueIndexLimit := l\<rparr>"
    by (metis snd_conv)
  then show ?thesis by (rule queue_frameI)
qed (simp add: queue_full)

lemma queue_all_frame: "\<forall>x \<in> set xs. xfer_ok x \<Longrightarrow> queue_frame s (snd (queue_all xs s))"
proof (induction xs arbitrary: s)
  case (Cons x xs)
  obtain ok s1 where s1: "queue_xfer x s = (ok, s1)" by fastforce
  then have "queue_frame s s1" using queue_xfer_frame [of x s] Cons.prems by simp
  also have "queue_frame s1 (snd (queue_all xs s1))" using Cons by simp
  finally show ?case using s1 by (simp add: Let_def case_prod_unfold)
qed simp

lemma queue_index_Suc:
  assumes "queue_inv s q" "queue_inv s' (q @ [x])"
  shows "unat (queueIndex s') = unat (queueIndex s) + 1"
  using assms unfolding queue_inv_def by (metis length_append_singleton Suc_eq_plus1)

text \<open>Properties of the queue that every accepted entry keeps hold after queueing a list.\<close>

lemma queue_all_induct:
  assumes inv: "queue_inv s q" and P: "P s q"
    and ok: "\<forall>x \<in> set xs. xfer_ok x" and room: "unat (queueIndex s) + length xs \<le> unat (queueSize s)"
    and step: "\<And>s q x. queue_inv s q \<Longrightarrow> P s q \<Longrightarrow> x \<in> set xs \<Longrightarrow> queueIndex s < queueSize s \<Longrightarrow>
      P (snd (queue_xfer x s)) (q @ [x])"
  shows "queue_inv (snd (queue_all xs s)) (q @ xs) \<and> P (snd (queue_all xs s)) (q @ xs)"
  using inv P ok room step
proof (induction xs arbitrary: s q)
  case (Cons x xs)
  obtain ok s1 where s1: "queue_xfer x s = (ok, s1)" by fastforce
  have lt: "queueIndex s < queueSize s" using Cons.prems(4) by (simp add: word_less_nat_alt)
  have i1: "queue_inv s1 (q @ [x])" using queue_xfer_inv [OF Cons.prems(1) _ lt s1] Cons.prems(3) by simp
  have p1: "P s1 (q @ [x])" using Cons.prems(5) [OF Cons.prems(1,2) _ lt, of x] s1 by simp
  have "queueSize s1 = queueSize s" using queue_frame_sel(6) [OF queue_xfer_frame, of x s] Cons.prems(3) s1 by simp
  then have "unat (queueIndex s1) + length xs \<le> unat (queueSize s1)"
    using queue_index_Suc [OF Cons.prems(1) i1] Cons.prems(4) by simp
  then have "queue_inv (snd (queue_all xs s1)) ((q @ [x]) @ xs) \<and> P (snd (queue_all xs s1)) ((q @ [x]) @ xs)"
    using i1 p1 Cons.prems(3,5) by (intro Cons.IH) auto
  then show ?case using s1 by (simp add: Let_def case_prod_unfold)
qed simp

lemma queue_all_heap:
  assumes "heap_inv s hs" "queue_in_heap s hs" "\<forall>x \<in> set xs. xfer_ok x"
  shows "heap_inv (snd (queue_all xs s)) hs \<and> queue_in_heap (snd (queue_all xs s)) hs"
  using assms
proof (induction xs arbitrary: s)
  case (Cons x xs)
  obtain ok s1 where s1: "queue_xfer x s = (ok, s1)" by fastforce
  then show ?case using Cons.IH [of s1] queue_xfer_heap [OF Cons.prems(1,2) _ s1] Cons.prems(3)
    by (simp add: Let_def case_prod_unfold)
qed simp

section \<open>Flushing\<close>

text \<open>What a flush performs of the queued list.\<close>

definition flushed :: "'a dma_st_scheme \<Rightarrow> xfer list \<Rightarrow> xfer list" where
  "flushed s q = (if queueIndexLimit s \<noteq> 0 \<and> dmaFlag s AND DMA_OVERCAPACITY_IGNORE \<noteq> 0
     then take (unat (queueIndexLimit s)) q else q)"

lemma Z80_bus_io:
  "Z80_requestBus s = s\<lparr>io := io s @ [BusW 0x0100, ResetW 0x0100], z80bus := True\<rparr>"
  "Z80_releaseBus s = s\<lparr>io := io s @ [BusW 0x0000], z80bus := False\<rparr>"
  by (simp_all add: Z80_requestBus_def Z80_releaseBus_def)

lemma chip_setAutoInc: "chip_of (VDP_setAutoInc v s) = chip_word (0x8F00 OR ucast v) (chip_of s)"
  by (simp add: VDP_setAutoInc_def write_reg_def set_reg_def ctrl_w_def chip_of_def)

lemma flush_ok:
  assumes inv: "queue_inv s q" and coh: "coherent s"
  shows "dmas (chip_of (DMA_flushQueue s)) = dmas (chip_of s) @ map xfer_op (flushed s q)
    \<and> coherent (DMA_flushQueue s)
    \<and> DMA_flushQueue s = (DMA_clearQueue s)\<lparr>io := io (DMA_flushQueue s)\<rparr>
    \<and> (\<exists>es. io (DMA_flushQueue s) = io s @ es)"
proof -
  define k where "k = (if queueIndexLimit s \<noteq> 0 \<and> dmaFlag s AND DMA_OVERCAPACITY_IGNORE \<noteq> 0
    then queueIndexLimit s else queueIndex s)"
  define s1 where "s1 = (if \<not> z80bus s then Z80_requestBus s else s)"
  have f: "length (flushed s q) = unat k" "entries (dmaQueues s) (flushed s q) (ram s)"
      "\<forall>x \<in> set (flushed s q). xfer_ok x"
    using inv unfolding queue_inv_def flushed_def entries_def k_def by (auto simp: word_le_nat_alt dest: in_set_takeD)
  have s1: "chip_of s1 = chip_of s" "ram s1 = ram s" "dmaQueues s1 = dmaQueues s"
    by (simp_all add: s1_def Z80_bus_io chip_of_def)
  obtain es c where e: "flushQueue_loop (unat k) (dmaQueues s) s1 = s1\<lparr>io := io s1 @ es\<rparr>"
      "chip_of (s1\<lparr>io := io s1 @ es\<rparr>) = (chip_of s)\<lparr>regs := c, dmas := dmas (chip_of s) @ map xfer_op (flushed s q)\<rparr>"
      "\<forall>r. r \<noteq> 0xF \<and> r < 0x13 \<longrightarrow> c r = regs (chip_of s) r"
    using flush_entries [of "dmaQueues s" "flushed s q" s1] f coh unfolding s1 coherent_def by auto
  define s2 where "s2 = DMA_clearQueue
    (if \<not> z80bus s then Z80_releaseBus (s1\<lparr>io := io s1 @ es\<rparr>) else s1\<lparr>io := io s1 @ es\<rparr>)"
  have d: "DMA_flushQueue s = VDP_setAutoInc (regValues s 0xF) s2"
    unfolding DMA_flushQueue_def Let_def Z80_isBusTaken_def VDP_getAutoInc_def flushQueue_def
      k_def [symmetric] s1_def [symmetric] s2_def s1 e(1) ..
  have c2: "chip_of s2 = (chip_of s)\<lparr>regs := c, dmas := dmas (chip_of s) @ map xfer_op (flushed s q)\<rparr>"
    using e(2) by (simp add: s2_def Z80_bus_io DMA_clearQueue_def chip_of_def)
  have s2: "s2 = (DMA_clearQueue s)\<lparr>io := io s2\<rparr>" "\<exists>es'. io s2 = io s @ es'"
    unfolding s2_def s1_def by (auto intro!: dma_st.equality simp: Z80_bus_io DMA_clearQueue_def)
  have "chip_of (DMA_flushQueue s) = (chip_of s2)\<lparr>regs := c(0xF := regValues s 0xF)\<rparr>"
    using c2 coh unfolding d chip_setAutoInc
    by (simp add: chip_word_reg [OF _ reg_bases(12)] coherent_def)
  moreover have a: "DMA_flushQueue s = (DMA_clearQueue s)\<lparr>io := io (DMA_flushQueue s)\<rparr>"
    unfolding d by (subst s2(1), subst (2) s2(1))
      (auto intro!: dma_st.equality simp: VDP_setAutoInc_def write_reg_def set_reg_def ctrl_w_def DMA_clearQueue_def)
  moreover have "\<exists>es. io (DMA_flushQueue s) = io s @ es"
    using s2(2) unfolding d by (auto simp: VDP_setAutoInc_def write_reg_def set_reg_def ctrl_w_def)
  moreover have "regValues (DMA_flushQueue s) = regValues s"
    by (subst a) (simp add: DMA_clearQueue_def)
  ultimately show ?thesis using c2 e(3) coh by (simp add: coherent_def)
qed

section \<open>The capacity of a frame\<close>

definition nsum :: "xfer list \<Rightarrow> nat" where
  "nsum q = sum_list (map (\<lambda>x. unat (xfer_size x)) q)"

text \<open>The longest prefix of a list whose total size stays within a budget.\<close>

fun within :: "nat \<Rightarrow> xfer list \<Rightarrow> xfer list" where
  "within m [] = []"
| "within m (x # xs) = (if unat (xfer_size x) \<le> m then x # within (m - unat (xfer_size x)) xs else [])"

lemma nsum_simps [simp]: "nsum [] = 0" "nsum (x # q) = unat (xfer_size x) + nsum q" "nsum (q @ r) = nsum q + nsum r"
  by (simp_all add: nsum_def)

lemma within_budget: "nsum (within m q) \<le> m"
  by (induction m q rule: within.induct) auto

lemma within_prefix: "take (length (within m q)) q = within m q"
  by (induction m q rule: within.induct) auto

lemma within_all: "nsum q \<le> m \<Longrightarrow> within m (q @ r) = q @ within (m - nsum q) r"
  by (induction q arbitrary: m) auto

lemma within_stop: "m < nsum q \<Longrightarrow> within m (q @ r) = within m q"
  by (induction q arbitrary: m) auto

lemma within_fits: "nsum q \<le> m \<Longrightarrow> within m q = q"
  using within_all [of q m "[]"] by simp

lemma within_nonempty: "q \<noteq> [] \<Longrightarrow> unat (xfer_size (hd q)) \<le> m \<Longrightarrow> within m q \<noteq> []"
  by (cases q) auto

lemma unat_total: "nsum q < 65536 \<Longrightarrow> unat (total q) = nsum q"
proof (induction q)
  case (Cons x q)
  then have "unat (total q) = nsum q" by simp
  then show ?case using Cons.prems unat_plus_small [of "xfer_size x" "total q"] by (simp add: total_def)
qed (simp add: total_def)

text \<open>Where the limit is set, as long as the total size of the queue fits its 16-bit counter.\<close>

definition limit_inv :: "'a dma_st_scheme \<Rightarrow> xfer list \<Rightarrow> bool" where
  "limit_inv s q \<longleftrightarrow> (q \<noteq> [] \<longrightarrow> unat (xfer_size (hd q)) \<le> unat (maxTransferPerFrame s)) \<longrightarrow>
     queueIndexLimit s = (if nsum q \<le> unat (maxTransferPerFrame s) then 0
       else of_nat (length (within (unat (maxTransferPerFrame s)) q)))"

lemma limit_step:
  assumes inv: "queue_inv s q" and lim: "limit_inv s q" and x: "xfer_ok x" and room: "queueIndex s < queueSize s"
    and small: "nsum (q @ [x]) < 65536"
  shows "limit_inv (snd (queue_xfer x s)) (q @ [x])"
proof -
  let ?m = "unat (maxTransferPerFrame s)"
  have len: "unat (queueIndex s) = length q" and tot: "queueTransferSize s = total q"
    using inv by (simp_all add: queue_inv_def)
  have "unat (total q + xfer_size x) = nsum (q @ [x])"
    using unat_total [of "q @ [x]"] small by simp
  then have gt: "maxTransferPerFrame s < queueTransferSize s + xfer_size x \<longleftrightarrow> ?m < nsum (q @ [x])"
    by (simp add: tot word_less_nat_alt)
  let ?s' = "snd (queue_xfer x s)"
  have l: "queueIndexLimit ?s' = (if ?m < nsum (q @ [x]) \<and> queueIndexLimit s = 0 then queueIndex s else queueIndexLimit s)"
    "maxTransferPerFrame ?s' = maxTransferPerFrame s"
    using queue_xfer_eq [OF x room] unfolding gt by auto
  have "queueIndexLimit ?s' = (if nsum (q @ [x]) \<le> ?m then 0 else of_nat (length (within ?m (q @ [x]))))"
    if h: "unat (xfer_size (hd (q @ [x]))) \<le> ?m"
  proof -
    have q: "queueIndexLimit s = (if nsum q \<le> ?m then 0 else of_nat (length (within ?m q)))"
      using lim h by (cases q) (auto simp: limit_inv_def)
    consider "nsum (q @ [x]) \<le> ?m" | "nsum q \<le> ?m" "?m < nsum (q @ [x])" | "?m < nsum q" by fastforce
    then show ?thesis
    proof cases
      case 1
      then show ?thesis using q l(1) by simp
    next
      case 2
      then have "within ?m (q @ [x]) = q" using within_all [of q ?m "[x]"] by simp
      moreover have "of_nat (length q) = queueIndex s" unfolding len [symmetric] by simp
      ultimately show ?thesis using 2 q l(1) by simp
    next
      case 3
      then have ne: "within ?m q \<noteq> []" using h within_nonempty [of q ?m] by (cases q) auto
      have "length (within ?m q) \<le> length q" using within_prefix [of ?m q] by (metis length_take min.cobounded1)
      then have "of_nat (length (within ?m q)) \<noteq> (0 :: u16)"
        using ne len unat_u16_lt [of "queueIndex s"] by (auto simp: word_of_nat_eq_0_iff dest!: dvd_imp_le)
      then show ?thesis using 3 q l(1) within_stop [OF 3, of "[x]"] by simp
    qed
  qed
  then show ?thesis by (simp add: limit_inv_def l(2))
qed

text \<open>The transfers whose call returned TRUE.\<close>

definition accepted :: "xfer list \<Rightarrow> bool list \<Rightarrow> xfer list" where
  "accepted xs oks = map fst (filter snd (zip xs oks))"

lemma queue_accepted:
  assumes "queue_inv s q" "\<forall>x \<in> set xs. xfer_ok x" "unat (queueIndex s) + length xs \<le> unat (queueSize s)"
    "nsum (q @ xs) < 65536" "dmaFlag s AND DMA_OVERCAPACITY_IGNORE \<noteq> 0"
  shows "accepted xs (fst (queue_all xs s)) =
    (if nsum q \<le> unat (maxTransferPerFrame s) then within (unat (maxTransferPerFrame s) - nsum q) xs else [])"
  using assms
proof (induction xs arbitrary: s q)
  case Nil
  then show ?case by (simp add: accepted_def)
next
  case (Cons x xs)
  obtain ok s1 where s1: "queue_xfer x s = (ok, s1)" by fastforce
  have x: "xfer_ok x" using Cons.prems(2) by simp
  have lt: "queueIndex s < queueSize s" using Cons.prems(3) by (simp add: word_less_nat_alt)
  have i1: "queue_inv s1 (q @ [x])" using queue_xfer_inv [OF Cons.prems(1) x lt s1] .
  have fr: "queueSize s1 = queueSize s" "dmaFlag s1 = dmaFlag s" "maxTransferPerFrame s1 = maxTransferPerFrame s"
    using queue_frame_sel [OF queue_xfer_frame [OF x, of s]] s1 by simp_all
  have "ok \<longleftrightarrow> queueTransferSize s + xfer_size x \<le> maxTransferPerFrame s"
    using queue_xfer_eq [OF x lt] s1 Cons.prems(5) by auto
  moreover have "queueTransferSize s + xfer_size x = total (q @ [x])"
    using Cons.prems(1) by (simp add: queue_inv_def)
  ultimately have ok: "ok \<longleftrightarrow> nsum (q @ [x]) \<le> unat (maxTransferPerFrame s)"
    using unat_total [of "q @ [x]"] Cons.prems(4) by (simp add: word_le_nat_alt)
  have ih: "accepted xs (fst (queue_all xs s1)) = (if nsum (q @ [x]) \<le> unat (maxTransferPerFrame s)
      then within (unat (maxTransferPerFrame s) - nsum (q @ [x])) xs else [])"
    using Cons.IH [OF i1] Cons.prems queue_index_Suc [OF Cons.prems(1) i1] fr by simp
  have e: "fst (queue_all (x # xs) s) = ok # fst (queue_all xs s1)"
    using s1 by (simp add: Let_def case_prod_unfold)
  show ?case using ih ok unfolding e by (auto simp: accepted_def)
qed

lemma queue_all_ok:
  assumes "queue_inv s q" "\<forall>x \<in> set xs. xfer_ok x" "unat (queueIndex s) + length xs \<le> unat (queueSize s)"
    "dmaFlag s AND DMA_OVERCAPACITY_IGNORE = 0"
  shows "False \<notin> set (fst (queue_all xs s))"
  using assms
proof (induction xs arbitrary: s q)
  case (Cons x xs)
  obtain ok s1 where s1: "queue_xfer x s = (ok, s1)" by fastforce
  have x: "xfer_ok x" using Cons.prems(2) by simp
  have lt: "queueIndex s < queueSize s" using Cons.prems(3) by (simp add: word_less_nat_alt)
  have i1: "queue_inv s1 (q @ [x])" using queue_xfer_inv [OF Cons.prems(1) x lt s1] .
  have ok using queue_xfer_eq [OF x lt] s1 Cons.prems(4) by auto
  moreover have "False \<notin> set (fst (queue_all xs s1))"
    using Cons.IH [OF i1] Cons.prems queue_index_Suc [OF Cons.prems(1) i1]
      queue_frame_sel [OF queue_xfer_frame [OF x, of s]] s1 by simp
  ultimately show ?case using s1 by (simp add: Let_def case_prod_unfold)
qed simp

section \<open>What the queue does\<close>

lemma queue_all_limit:
  assumes "queue_inv s []" "\<forall>x \<in> set xs. xfer_ok x" "length xs \<le> unat (queueSize s)" "nsum xs < 65536"
  shows "queue_inv (snd (queue_all xs s)) xs \<and> limit_inv (snd (queue_all xs s)) xs"
proof -
  have l0: "limit_inv s []" using assms(1) by (auto simp: limit_inv_def queue_inv_def unat_eq_zero)
  have i0: "queueIndex s = 0" using assms(1) by (simp add: queue_inv_def unat_eq_zero)
  have "queue_inv (snd (queue_all xs s)) ([] @ xs) \<and>
      (nsum ([] @ xs) < 65536 \<longrightarrow> limit_inv (snd (queue_all xs s)) ([] @ xs))"
    using assms(2,3) i0 l0 by (intro queue_all_induct [OF assms(1)]) (auto intro!: limit_step)
  then show ?thesis using assms(4) by simp
qed

lemma flush_frame:
  assumes "queue_inv s q" "coherent s"
  shows "regValues (DMA_flushQueue s) = regValues s" "z80bus (DMA_flushQueue s) = z80bus s"
    "ram (DMA_flushQueue s) = ram s" "queue_in_heap (DMA_flushQueue s) hs = queue_in_heap s hs"
    "heap_inv (DMA_flushQueue s) hs = heap_inv s hs" "queue_inv (DMA_flushQueue s) []"
proof -
  have "DMA_flushQueue s = (DMA_clearQueue s)\<lparr>io := io (DMA_flushQueue s)\<rparr>" using flush_ok [OF assms] by blast
  then obtain es where e: "DMA_flushQueue s = (DMA_clearQueue s)\<lparr>io := es\<rparr>" by blast
  show "regValues (DMA_flushQueue s) = regValues s" "z80bus (DMA_flushQueue s) = z80bus s"
    "ram (DMA_flushQueue s) = ram s" "queue_in_heap (DMA_flushQueue s) hs = queue_in_heap s hs"
    "heap_inv (DMA_flushQueue s) hs = heap_inv s hs" "queue_inv (DMA_flushQueue s) []"
    unfolding e DMA_clearQueue_def by (simp_all add: queue_in_heap_def live_def heap_inv_def queue_inv_def total_def)
qed

lemma queue_then_flush:
  assumes "queue_inv s []" "coherent s" "\<forall>x \<in> set xs. xfer_ok x" "length xs \<le> unat (queueSize s)"
    and hp: "heap_inv s hs" "queue_in_heap s hs"
  defines "s1 \<equiv> snd (queue_all xs s)"
  shows "dmas (chip_of (DMA_flushQueue s1)) = dmas (chip_of s) @ map xfer_op (flushed s1 xs)
    \<and> queue_inv (DMA_flushQueue s1) [] \<and> coherent (DMA_flushQueue s1)
    \<and> regValues (DMA_flushQueue s1) = regValues s \<and> z80bus (DMA_flushQueue s1) = z80bus s
    \<and> heap_inv (DMA_flushQueue s1) hs \<and> queue_in_heap (DMA_flushQueue s1) hs"
proof -
  have i0: "queueIndex s = 0" using assms(1) by (simp add: queue_inv_def unat_eq_zero)
  have inv: "queue_inv s1 xs"
    using queue_all_induct [OF assms(1), of "\<lambda>_ _. True" xs] assms(3,4) i0 unfolding s1_def by simp
  have fr: "queue_frame s s1" using queue_all_frame [OF assms(3)] unfolding s1_def .
  note f = queue_frame_sel [OF fr]
  have coh: "coherent s1" using assms(2) f(10) by simp
  show ?thesis
    using flush_ok [OF inv coh] flush_frame [OF inv coh] f
      queue_all_heap [OF hp assms(3)] unfolding s1_def by simp
qed

text \<open>An example: a queue of two entries in a heap of one block.\<close>

definition dma0 :: dma_st where
  "dma0 = \<lparr>ram = (\<lambda>_. 0)(1 := 35), free = 0, heap = 1, heapEnd = 18, needPack = True,
     regValues = (\<lambda>_. 0), window_addr = 0, bga_addr = 0, bgb_addr = 0, hscrl_addr = 0, slist_addr = 0,
     maps_addr = 0, userTileMaxIndex = 0, screenWidth = 0, screenHeight = 0, planeWidth = 0, planeHeight = 0,
     windowWidth = 0, planeWidthSft = 0, planeHeightSft = 0, windowWidthSft = 0, spriteVramSize = 0,
     isPal = False, z80bus = False, io = [],
     dmaQueues = 2, dmaDataBuffer = 0, nextDataBuffer = 0, queueSize = 2, maxTransferPerFrame = 100,
     dmaFlag = DMA_AUTOFLUSH, dataBufferSize = 0, queueIndex = 0, queueIndexLimit = 0, queueTransferSize = 0,
     VBlankProcess = 0\<rparr>"

definition xfer0 :: "u16 \<Rightarrow> xfer" where
  "xfer0 n = \<lparr>x_loc = DMA_VRAM, x_from = 0xFF0000, x_to = 0x20, x_len = n, x_step = 2\<rparr>"

lemma dma0_ok: "queue_inv dma0 []" "coherent dma0" "heap_inv dma0 [35]" "queue_in_heap dma0 [35]" "queueSize dma0 = 2"
proof -
  show "queue_inv dma0 []" "coherent dma0" "queueSize dma0 = 2"
    by (simp_all add: queue_inv_def dma0_def total_def coherent_def chip_of_def chip0_def)
  show "heap_inv dma0 [35]" by (simp add: dma0_def heap_inv_def hadv_div hused_odd)
  show "queue_in_heap dma0 [35]"
    by (simp add: queue_in_heap_def dma0_def live_def hused_odd hmk_def adjsize_def USED_def)
qed

lemma xfer0_ok: "xfer_ok (xfer0 n)" "xfer_size (xfer0 n) = push_bit 1 n"
  by (simp_all add: xfer_ok_def xfer0_def xfer_size_def dma_command_def cfg)

text \<open>
  C9 The queue refines a list of transfers: queueing up to as many transfers as the queue holds
  accepts all of them, and the flush makes the chip perform exactly these DMAs, in the order of
  the calls and after those it had performed before. The flush leaves the queue empty, the
  registers as the driver has them (auto increment included) in both the driver's copy and the
  chip, the Z80 bus as it was, and the heap intact.
\<close>

theorem DMA_queue_refines:
  assumes "queue_inv s []" "coherent s" "heap_inv s hs" "queue_in_heap s hs"
    and "\<forall>x \<in> set xs. xfer_ok x" "length xs \<le> unat (queueSize s)" "\<not> DMA_getIgnoreOverCapacity s"
    and "queue_all xs s = (oks, s1)" "s' = DMA_flushQueue s1"
  shows "False \<notin> set oks \<and> dmas (chip_of s') = dmas (chip_of s) @ map xfer_op xs
    \<and> queue_inv s' [] \<and> coherent s' \<and> regValues s' = regValues s \<and> z80bus s' = z80bus s
    \<and> heap_inv s' hs \<and> queue_in_heap s' hs"
proof -
  have i0: "queueIndex s = 0" using assms(1) by (simp add: queue_inv_def unat_eq_zero)
  have "dmaFlag s1 = dmaFlag s" using queue_frame_sel(5) [OF queue_all_frame [OF assms(5)], of s] assms(8) by simp
  then have "flushed s1 xs = xs" using assms(7) by (simp add: flushed_def DMA_getIgnoreOverCapacity_def)
  then show ?thesis
    using queue_then_flush [OF assms(1,2,5,6,3,4)] queue_all_ok [OF assms(1,5)] assms(6-9) i0
    by (simp add: DMA_getIgnoreOverCapacity_def)
qed

theorem DMA_queue_refines_witness:
  "\<exists>oks s1. queue_all [xfer0 4, xfer0 6] dma0 = (oks, s1) \<and>
     dmas (chip_of (DMA_flushQueue s1)) = [xfer_op (xfer0 4), xfer_op (xfer0 6)]"
proof -
  obtain oks s1 where q: "queue_all [xfer0 4, xfer0 6] dma0 = (oks, s1)" by fastforce
  have "\<not> DMA_getIgnoreOverCapacity dma0" by (simp add: DMA_getIgnoreOverCapacity_def dma0_def cfg)
  with q show ?thesis
    using DMA_queue_refines [OF dma0_ok(1-4), of "[xfer0 4, xfer0 6]" oks s1 "DMA_flushQueue s1"] dma0_ok(5)
    by (simp add: xfer0_ok dma0_def chip_of_def chip0_def)
qed

text \<open>
  C10 With the capacity limit enforced, and as long as the first transfer fits and the total size
  does not overflow its 16-bit counter, the flush performs exactly the transfers whose queueing
  call returned TRUE, these are the longest prefix of the calls that fits the capacity of the
  frame, and so no more bytes than the capacity are transferred.
\<close>

theorem DMA_capacity:
  assumes "queue_inv s []" "coherent s" "heap_inv s hs" "queue_in_heap s hs"
    and "\<forall>x \<in> set xs. xfer_ok x" "length xs \<le> unat (queueSize s)" "DMA_getIgnoreOverCapacity s"
    and "xs \<noteq> []" "xfer_size (hd xs) \<le> maxTransferPerFrame s" "nsum xs < 65536"
    and "queue_all xs s = (oks, s1)" "s' = DMA_flushQueue s1"
  shows "dmas (chip_of s') = dmas (chip_of s) @ map xfer_op (accepted xs oks)
    \<and> accepted xs oks = within (unat (maxTransferPerFrame s)) xs
    \<and> nsum (accepted xs oks) \<le> unat (maxTransferPerFrame s) \<and> queue_inv s' [] \<and> coherent s'"
proof -
  let ?m = "unat (maxTransferPerFrame s)"
  have i0: "queueIndex s = 0" using assms(1) by (simp add: queue_inv_def unat_eq_zero)
  have f: "dmaFlag s1 = dmaFlag s" "maxTransferPerFrame s1 = maxTransferPerFrame s"
    using queue_frame_sel(5,7) [OF queue_all_frame [OF assms(5)], of s] assms(11) by simp_all
  have "queue_inv s1 xs \<and> limit_inv s1 xs" using queue_all_limit [OF assms(1,5,6,10)] assms(11) by simp
  then have lim: "queueIndexLimit s1 = (if nsum xs \<le> ?m then 0 else of_nat (length (within ?m xs)))"
    using assms(8,9) by (simp add: limit_inv_def f word_le_nat_alt)
  have ne: "within ?m xs \<noteq> []" using within_nonempty assms(8,9) by (simp add: word_le_nat_alt)
  have "length (within ?m xs) \<le> length xs" using within_prefix [of ?m xs] by (metis length_take min.cobounded1)
  then have "unat (of_nat (length (within ?m xs)) :: u16) = length (within ?m xs)"
    using assms(6) unat_u16_lt [of "queueSize s"] by (simp add: unat_of_nat)
  then have "flushed s1 xs = within ?m xs"
    using lim ne assms(7) f(1) within_prefix [of ?m xs] within_fits [of xs ?m]
    by (auto simp: flushed_def DMA_getIgnoreOverCapacity_def)
  moreover have "accepted xs oks = within ?m xs"
    using queue_accepted [OF assms(1,5)] assms(6,7,10,11) i0 by (simp add: DMA_getIgnoreOverCapacity_def)
  ultimately show ?thesis
    using queue_then_flush [OF assms(1,2,5,6,3,4)] within_budget [of ?m xs] assms(11,12) by simp
qed

theorem DMA_capacity_witness:
  "\<exists>oks s1. queue_all [xfer0 40, xfer0 20] (dma0\<lparr>dmaFlag := DMA_OVERCAPACITY_IGNORE\<rparr>) = (oks, s1) \<and>
     dmas (chip_of (DMA_flushQueue s1)) = [xfer_op (xfer0 40)] \<and> accepted [xfer0 40, xfer0 20] oks = [xfer0 40]"
proof -
  let ?s = "dma0\<lparr>dmaFlag := DMA_OVERCAPACITY_IGNORE\<rparr>" and ?xs = "[xfer0 40, xfer0 20]"
  obtain oks s1 where q: "queue_all ?xs ?s = (oks, s1)" by fastforce
  have sz: "xfer_size (xfer0 40) = 80" "xfer_size (xfer0 20) = 40" by (simp_all add: xfer0_ok)
  have s: "queue_inv ?s []" "coherent ?s" "heap_inv ?s [35]" "queue_in_heap ?s [35]" "DMA_getIgnoreOverCapacity ?s"
    using dma0_ok by (simp_all add: queue_inv_def coherent_def chip_of_def heap_inv_def queue_in_heap_def live_def
        DMA_getIgnoreOverCapacity_def cfg)
  have m: "maxTransferPerFrame ?s = 100" "queueSize ?s = 2" "dmas (chip_of ?s) = []"
    by (simp_all add: dma0_def chip_of_def chip0_def)
  show ?thesis
    using DMA_capacity [OF s(1-4), of ?xs oks s1 "DMA_flushQueue s1"] s(5) m q sz
    by (auto simp: xfer0_ok(1))
qed

text \<open>
  The limit does not bind the first transfer of a frame: queued while the queue is empty, a
  transfer above the capacity is refused (the call returns FALSE as "the transfer will be
  ignored"), yet the flush performs it, because the index of the first refused transfer is 0 and
  0 stands for "no limit".
\<close>

theorem DMA_first_over_capacity:
  assumes "queue_inv s []" "coherent s" "heap_inv s hs" "queue_in_heap s hs" "queueSize s \<noteq> 0"
    and "DMA_getIgnoreOverCapacity s" "xfer_ok x" "maxTransferPerFrame s < xfer_size x"
    and "queue_xfer x s = (ok, s1)"
  shows "\<not> ok \<and> dmas (chip_of (DMA_flushQueue s1)) = dmas (chip_of s) @ [xfer_op x]"
proof -
  have s: "queueIndex s = 0" "queueIndexLimit s = 0" "queueTransferSize s = 0"
    using assms(1) by (auto simp: queue_inv_def unat_eq_zero total_def)
  then have lt: "queueIndex s < queueSize s" using assms(5) by (simp add: word_neq_0_conv)
  have "\<not> ok \<and> queueIndexLimit s1 = 0"
    using queue_xfer_eq [OF assms(7) lt] assms(6,8,9) s by (auto simp: DMA_getIgnoreOverCapacity_def)
  then have "\<not> ok" "flushed s1 [x] = [x]" by (simp_all add: flushed_def)
  moreover have "1 \<le> unat (queueSize s)" using assms(5) by (metis le_numeral_extra(3) less_one linorder_not_le unat_eq_zero)
  ultimately show ?thesis
    using queue_then_flush [OF assms(1,2) _ _ assms(3,4), of "[x]"] assms(7,9) by simp
qed

theorem DMA_first_over_capacity_witness:
  "\<exists>ok s1. queue_xfer (xfer0 51) (dma0\<lparr>dmaFlag := DMA_OVERCAPACITY_IGNORE\<rparr>) = (ok, s1) \<and> \<not> ok \<and>
     dmas (chip_of (DMA_flushQueue s1)) = [xfer_op (xfer0 51)]"
proof -
  let ?s = "dma0\<lparr>dmaFlag := DMA_OVERCAPACITY_IGNORE\<rparr>"
  obtain ok s1 where q: "queue_xfer (xfer0 51) ?s = (ok, s1)" by fastforce
  have s: "queue_inv ?s []" "coherent ?s" "heap_inv ?s [35]" "queue_in_heap ?s [35]" "queueSize ?s \<noteq> 0"
      "DMA_getIgnoreOverCapacity ?s"
    using dma0_ok by (simp_all add: queue_inv_def coherent_def chip_of_def heap_inv_def queue_in_heap_def live_def
        DMA_getIgnoreOverCapacity_def cfg)
  have "maxTransferPerFrame ?s < xfer_size (xfer0 51)" "dmas (chip_of ?s) = []"
    by (simp_all add: xfer0_ok dma0_def chip_of_def chip0_def)
  then show ?thesis using DMA_first_over_capacity [OF s xfer0_ok(1) _ q] q by auto
qed

section \<open>What a DMA moves\<close>

text \<open>
  How the chip reads the registers and the command of a DMA: number of words, byte address of
  the source (24 bits), address and kind of the destination.
\<close>

definition dma_len :: "dma_op \<Rightarrow> nat" where
  "dma_len d = unat (fst (op_len d)) + 256 * unat (snd (op_len d))"

definition dma_src :: "dma_op \<Rightarrow> nat" where
  "dma_src d = 2 * (unat (fst (op_src d)) + 256 * unat (fst (snd (op_src d))) + 65536 * unat (snd (snd (op_src d))))"

definition dma_dest :: "dma_op \<Rightarrow> nat" where
  "dma_dest d = unat (fst (op_cmd d)) mod 16384 + 16384 * (unat (snd (op_cmd d)) mod 4)"

definition dma_target :: "dma_op \<Rightarrow> u8 option" where
  "dma_target d = (let code = unat (fst (op_cmd d)) div 16384 + 4 * (unat (snd (op_cmd d)) div 16) in
     if code = 33 then Some DMA_VRAM else if code = 35 then Some DMA_CRAM
     else if code = 37 then Some DMA_VSRAM else None)"

lemma unat_len_bytes: "unat (lenL n) = unat n mod 256" "unat (lenH n) = unat n div 256"
proof -
  show "unat (lenL n) = unat n mod 256" by (simp only: lenL_def unat_ucast_mod) simp
  have "unat (lenH n) = unat n div 2 ^ 8 mod 2 ^ LENGTH(8)" by (simp only: lenH_def unat_ucast_mod unat_drop_bit)
  then show "unat (lenH n) = unat n div 256" using unat_u16_lt [of n] by simp
qed

lemma split_mod:
  fixes a :: nat
  shows "a mod 256 + 256 * (a div 256 mod 256) + 65536 * (a div 65536 mod 128) = a mod 8388608"
proof -
  have "a mod (256 * 256) = 256 * (a div 256 mod 256) + a mod 256" by (rule mod_mult2_eq)
  moreover have "a mod (65536 * 128) = 65536 * (a div 65536 mod 128) + a mod 65536" by (rule mod_mult2_eq)
  ultimately show ?thesis by simp
qed

lemma cmd_arith:
  fixes d m l :: nat
  assumes "d < 4" "m < 16384" "l < 128"
  shows "(128 + d) div 16 = 8" "(128 + d) mod 4 = d" "(0x4000 + m) div 16384 = 1" "(0xC000 + l) div 16384 = 3"
    "(0x4000 + m) mod 16384 = m" "(0xC000 + l) mod 16384 = l" "(0x4000 + l) mod 16384 = l" "(0x4000 + l) div 16384 = 1"
proof -
  have "d = 0 \<or> d = 1 \<or> d = 2 \<or> d = 3" using assms(1) by linarith
  then show "(128 + d) div 16 = 8" "(128 + d) mod 4 = d" by auto
  show "(0x4000 + m) div 16384 = 1" "(0xC000 + l) div 16384 = 3" "(0x4000 + l) div 16384 = 1"
    using assms(2,3) by (auto intro!: div_nat_eqI)
  show "(0x4000 + m) mod 16384 = m" "(0xC000 + l) mod 16384 = l" "(0x4000 + l) mod 16384 = l"
    using assms(2,3) by (simp_all add: mod_if)
qed

text \<open>
  The registers and the command that a queued transfer writes are read back by the chip as
  that transfer: its length, the 24-bit source address (even), the destination memory and address
  (VRAM addresses in full, CRAM and VSRAM addresses modulo 128) and the step.
\<close>

theorem DMA_entry_decodes:
  assumes "xfer_ok x"
  shows "dma_len (xfer_op x) = unat (x_len x)
    \<and> dma_src (xfer_op x) = 2 * (unat (x_from x) div 2 mod 8388608)
    \<and> dma_target (xfer_op x) = Some (x_loc x)
    \<and> dma_dest (xfer_op x) = (if x_loc x = DMA_VRAM then unat (x_to x) else unat (x_to x) mod 128)
    \<and> unat (op_inc (xfer_op x)) = unat (x_step x)"
proof -
  have l: "dma_len (xfer_op x) = unat (x_len x)" by (simp add: dma_len_def xfer_op_def unat_len_bytes)
  have "unat (x_from x) div 512 = unat (x_from x) div 2 div 256" "unat (x_from x) div 131072 = unat (x_from x) div 2 div 65536"
    by (simp_all flip: div_mult2_eq)
  then have sr: "dma_src (xfer_op x) = 2 * (unat (x_from x) div 2 mod 8388608)"
    using split_mod [of "unat (x_from x) div 2"] by (simp add: dma_src_def xfer_op_def src_bytes)
  have i: "unat (op_inc (xfer_op x)) = unat (x_step x)"
    using assms by (simp add: xfer_op_def unat_ucast_mod xfer_ok_def word_less_nat_alt)
  have c: "op_cmd (xfer_op x) = (ucast (drop_bit 16 (xfer_cmd x)), ucast (xfer_cmd x))" by (simp add: xfer_op_def)
  have b: "unat (x_to x) div 16384 < 4" "unat (x_to x) mod 16384 < 16384" "unat (x_to x) mod 128 < 128"
    using unat_u16_lt [of "x_to x"] by simp_all
  have ne: "DMA_CRAM \<noteq> DMA_VRAM" "DMA_VSRAM \<noteq> DMA_VRAM" "DMA_VSRAM \<noteq> DMA_CRAM" by (simp_all add: cfg)
  note v = cmd_arith [OF b] and d = dma_target_def dma_dest_def c fst_conv snd_conv Let_def
  consider "x_loc x = DMA_VRAM" | "x_loc x = DMA_CRAM" | "x_loc x = DMA_VSRAM" using assms by (auto simp: xfer_ok_def)
  then have "dma_target (xfer_op x) = Some (x_loc x)
    \<and> dma_dest (xfer_op x) = (if x_loc x = DMA_VRAM then unat (x_to x) else unat (x_to x) mod 128)"
  proof cases
    case 1
    show ?thesis by (simp only: d xfer_cmd_halves [OF assms] v ne 1 if_True if_False refl) (simp add: mod_mult_div_eq)
  next
    case 2
    show ?thesis by (simp only: d xfer_cmd_halves [OF assms] v ne 2 if_True if_False refl) simp
  next
    case 3
    show ?thesis by (simp only: d xfer_cmd_halves [OF assms] v ne 3 if_True if_False refl) simp
  qed
  then show ?thesis using l sr i by simp
qed

theorem DMA_entry_decodes_witness:
  "dma_target (xfer_op (xfer0 51)) = Some DMA_VRAM \<and> dma_dest (xfer_op (xfer0 51)) = 32 \<and> dma_src (xfer_op (xfer0 51)) = 0xFF0000"
  using DMA_entry_decodes [OF xfer0_ok(1), of 51] by (simp add: xfer0_def)

section \<open>Banks\<close>

text \<open>
  The source of a DMA stays within a bank of 128 KB: the chip wraps its address there. A transfer
  that crosses a bank boundary is made of two pieces, the second bank first.
\<close>

definition bankLimitB :: "u32 \<Rightarrow> u32" where
  "bankLimitB a = 0x20000 - (a AND 0x1FFFF)"

definition bank_pieces :: "xfer \<Rightarrow> xfer list" where
  "bank_pieces x = (let b = bankLimitB (x_from x); w = drop_bit 1 b in
     if ucast (x_len x) > w then
       [x\<lparr>x_from := x_from x + b, x_to := ucast (ucast (x_to x) + b), x_len := ucast (ucast (x_len x) - w)\<rparr>,
        x\<lparr>x_len := ucast w\<rparr>]
     else [x])"

definition in_bank :: "xfer \<Rightarrow> bool" where
  "in_bank x \<longleftrightarrow> unat (x_from x) mod 131072 + 2 * unat (x_len x) \<le> 131072"

text \<open>
  The word that the chip reads as word \<open>k\<close> of a DMA: the address wraps around in the bank of the source. The
  words that a DMA moves: where each is read from, and where it is written to. A length of 0 means 65536.
\<close>

definition dma_word :: "dma_op \<Rightarrow> nat \<Rightarrow> nat" where
  "dma_word d k = dma_src d div 131072 * 65536 + (dma_src d div 2 + k) mod 65536"

definition dma_moves :: "dma_op \<Rightarrow> (nat \<times> u16) list" where
  "dma_moves d = map (\<lambda>k. (dma_word d k, of_nat (dma_dest d) + ucast (op_inc d) * of_nat k))
     [0 ..< if dma_len d = 0 then 65536 else dma_len d]"

text \<open>The words that a transfer to the video memory shall move.\<close>

definition wanted :: "u32 \<Rightarrow> u16 \<Rightarrow> u16 \<Rightarrow> (nat \<times> u16) list" where
  "wanted fromAddr to len = map (\<lambda>k. (unat fromAddr div 2 + k, to + 2 * of_nat k)) [0 ..< unat len]"

definition vram_xfer :: "u32 \<Rightarrow> u16 \<Rightarrow> u16 \<Rightarrow> xfer" where
  "vram_xfer fromAddr to len = \<lparr>x_loc = DMA_VRAM, x_from = fromAddr, x_to = to, x_len = len, x_step = 2\<rparr>"

lemma vram_xfer_ok: "xfer_ok (vram_xfer fromAddr to len)"
  by (simp add: xfer_ok_def vram_xfer_def cfg)

lemma unat_bankLimitB: "unat (bankLimitB a) = 131072 - unat a mod 131072"
proof -
  have m: "(0x1FFFF :: u32) = mask 17" by (simp add: mask_eq_exp_minus_1)
  have u: "unat (a AND 0x1FFFF) = unat a mod 131072" unfolding m unat_and_mask by simp
  then have "a AND 0x1FFFF \<le> 0x20000" by (simp add: word_le_nat_alt)
  then have "unat (0x20000 - (a AND 0x1FFFF)) = unat (0x20000 :: u32) - unat (a AND 0x1FFFF)" by (rule unat_minus_le)
  then show ?thesis by (simp add: bankLimitB_def u)
qed

lemma ucast_add16: "(ucast (ucast (t :: u16) + (b :: u32)) :: u16) = t + ucast b"
proof -
  have "unat (ucast (ucast t + b) :: u16) = (unat t + unat b) mod 65536"
    using unat_u16_lt [of t] by (simp add: unat_ucast_mod unat_word_ariths mod_mod_cancel)
  moreover have "unat (t + ucast b) = (unat t + unat b) mod 65536"
    by (simp add: unat_ucast_mod unat_word_ariths mod_simps)
  ultimately show ?thesis by (metis unsigned_word_eqI)
qed

lemma next_multiple: "0 < n \<Longrightarrow> (a + (n - a mod n)) mod n = (0 :: nat)"
proof -
  assume "0 < n"
  then have "a mod n \<le> n" by (simp add: less_imp_le)
  then have "n * (a div n) + a mod n + (n - a mod n) = n * (a div n) + n"
    by (simp only: add.assoc le_add_diff_inverse)
  then show ?thesis by (simp only: mult_div_mod_eq) simp
qed

lemma pieces_ok: "xfer_ok x \<Longrightarrow> p \<in> set (bank_pieces x) \<Longrightarrow> xfer_ok p"
  by (auto simp: bank_pieces_def xfer_ok_def Let_def split: if_splits)

text \<open>A transfer inside one bank moves the wanted words.\<close>

lemma dma_word_in_bank:
  assumes "xfer_ok x" "in_bank x" "unat (x_from x) < 16777216" "k < unat (x_len x)"
  shows "dma_word (xfer_op x) k = unat (x_from x) div 2 + k"
proof -
  let ?a = "unat (x_from x)"
  define q r where "q = ?a div 131072" and "r = ?a mod 131072"
  have src: "dma_src (xfer_op x) = 2 * (?a div 2)" using DMA_entry_decodes [OF assms(1)] assms(3) by simp
  have a: "?a = 131072 * q + r" "r + 2 * unat (x_len x) \<le> 131072" using assms(2) by (simp_all add: q_def r_def in_bank_def)
  then have b: "?a div 2 = 65536 * q + r div 2" "r div 2 + k < 65536" using assms(4) by linarith+
  then have "2 * (?a div 2) div 131072 = q" by simp
  moreover have "(65536 * q + (r div 2 + k)) mod 65536 = r div 2 + k" using b(2) by simp
  then have "(?a div 2 + k) mod 65536 = r div 2 + k" unfolding b(1) by (simp add: add.assoc)
  ultimately show ?thesis using b(1) by (simp add: dma_word_def src)
qed

lemma op_moves:
  assumes "in_bank (vram_xfer fromAddr to len)" "unat fromAddr < 16777216" "len \<noteq> 0" "even (unat fromAddr)"
    and "d = xfer_op (vram_xfer fromAddr to len)"
  shows "dma_moves d = wanted fromAddr to len" "dma_target d = Some DMA_VRAM"
    "dma_src d mod 131072 + 2 * dma_len d \<le> 131072"
proof -
  let ?x = "vram_xfer fromAddr to len"
  have f: "x_from ?x = fromAddr" "x_len ?x = len" "x_to ?x = to" "x_loc ?x = DMA_VRAM" "x_step ?x = 2" by (simp_all add: vram_xfer_def)
  have e: "dma_len d = unat len" "dma_src d = unat fromAddr" "dma_target d = Some DMA_VRAM" "dma_dest d = unat to" "unat (op_inc d) = 2"
    using DMA_entry_decodes [OF vram_xfer_ok, of fromAddr to len] assms(2,4) by (simp_all add: f assms(5))
  have "(ucast (op_inc d) :: u16) = of_nat (unat (op_inc d))" by simp
  then have i: "(ucast (op_inc d) :: u16) = 2" by (simp only: e(5)) simp
  have "dma_word d k = unat fromAddr div 2 + k" if "k < unat len" for k
    using dma_word_in_bank [OF vram_xfer_ok assms(1)] assms(2) that by (simp add: f assms(5))
  moreover have "unat len \<noteq> 0" using assms(3) by (simp add: unat_eq_zero)
  ultimately show "dma_moves d = wanted fromAddr to len"
    unfolding dma_moves_def wanted_def e(1,4) i by simp
  show "dma_target d = Some DMA_VRAM" by (rule e(3))
  show "dma_src d mod 131072 + 2 * dma_len d \<le> 131072" using assms(1) by (simp add: e in_bank_def f)
qed

text \<open>The pieces of a transfer, the first bank first, move what the transfer shall move.\<close>

lemma pieces_move:
  assumes "even (unat fromAddr)" "unat fromAddr + 2 * unat len \<le> 16777216" "len \<noteq> 0"
    and "ds = map xfer_op (bank_pieces (vram_xfer fromAddr to len))"
  shows "concat (map dma_moves (rev ds)) = wanted fromAddr to len"
    "\<forall>d \<in> set ds. dma_target d = Some DMA_VRAM \<and> dma_src d mod 131072 + 2 * dma_len d \<le> 131072"
proof -
  let ?x = "vram_xfer fromAddr to len"
  define b where "b = bankLimitB fromAddr"
  define w where "w = drop_bit 1 b"
  have "even (unat fromAddr mod 131072)" using assms(1) by (simp add: dvd_mod_iff)
  then have b: "unat b = 131072 - unat fromAddr mod 131072" "even (unat b)" "unat b \<le> 131072" "0 < unat b"
    by (simp_all add: b_def unat_bankLimitB)
  have w: "unat b = 2 * unat w" using b(2) unfolding w_def unat_drop_bit1 by simp
  have ul: "unat (ucast len :: u32) = unat len"
    using unat_u16_lt [of len] by (simp add: unat_ucast_mod)
  have l0: "0 < unat len" using assms(3) by (simp add: unat_gt_0)
  have p: "concat (map dma_moves (rev ds)) = wanted fromAddr to len \<and>
      (\<forall>d \<in> set ds. dma_target d = Some DMA_VRAM \<and> dma_src d mod 131072 + 2 * dma_len d \<le> 131072)"
  proof (cases "ucast len > w")
    case False
    then have "unat len \<le> unat w" by (simp add: word_less_nat_alt ul)
    then have i: "in_bank ?x" using b w unfolding in_bank_def vram_xfer_def by simp
    have "unat fromAddr < 16777216" using assms(2) l0 by linarith
    note op_moves [OF i this assms(3,1) refl]
    moreover have "ds = [xfer_op ?x]"
      using False unfolding assms(4) bank_pieces_def w_def b_def by (simp add: Let_def vram_xfer_def)
    ultimately show ?thesis by simp
  next
    case True
    then have lt: "unat w < unat len" by (simp add: word_less_nat_alt ul)
    define f2 t2 l2 where "f2 = fromAddr + b" and "t2 = (ucast (ucast to + b) :: u16)" and "l2 = (ucast (ucast len - w) :: u16)"
    have ds: "ds = [xfer_op (vram_xfer f2 t2 l2), xfer_op (vram_xfer fromAddr to (ucast w))]"
      using True unfolding assms(4) bank_pieces_def b_def w_def f2_def t2_def l2_def by (simp add: Let_def vram_xfer_def)
    have y1: "unat f2 = unat fromAddr + 2 * unat w"
      using unat_plus_small [of fromAddr b] assms(2) lt w by (simp add: f2_def)
    have "w \<le> ucast len" using True by simp
    from unat_minus_le [OF this] have y2: "unat l2 = unat len - unat w"
      using unat_u16_lt [of len] by (simp add: l2_def unat_ucast_mod ul)
    have "t2 = to + ucast b" by (simp add: t2_def ucast_add16)
    moreover have "(ucast b :: u16) = of_nat (2 * unat w)" by (metis w of_nat_unat)
    ultimately have y3: "t2 = to + 2 * of_nat (unat w)" by simp
    have z: "unat (ucast w :: u16) = unat w" using lt unat_u16_lt [of len] by (simp add: unat_ucast_mod)
    have m0: "unat f2 mod 131072 = 0"
      using next_multiple [of 131072 "unat fromAddr"] unfolding y1 w [symmetric] b(1) by (simp only: zero_less_numeral)
    then have iy: "in_bank (vram_xfer f2 t2 l2)" using y2 unat_u16_lt [of len] by (simp add: in_bank_def vram_xfer_def)
    have iz: "in_bank (vram_xfer fromAddr to (ucast w))" using z b w by (simp add: in_bank_def vram_xfer_def)
    have w0: "0 < unat w" using b(4) w by simp
    have bounds: "unat f2 < 16777216" "unat fromAddr < 16777216" using y1 assms(2) lt by linarith+
    have nz: "l2 \<noteq> 0" "(ucast w :: u16) \<noteq> 0" using y2 lt z w0 by (auto simp: word_unat_eq_iff)
    have ev: "even (unat f2)" using assms(1) y1 by simp
    note op_moves [OF iy bounds(1) nz(1) ev refl] and op_moves [OF iz bounds(2) nz(2) assms(1) refl]
    moreover have "wanted fromAddr to (ucast w) @ wanted f2 t2 l2 = wanted fromAddr to len"
    proof -
      have "[0 ..< unat len] = [0 ..< unat w] @ map (\<lambda>k. k + unat w) [0 ..< unat len - unat w]"
        using lt upt_add_eq_append [of 0 "unat w" "unat len - unat w"] by (simp add: map_add_upt)
      then show ?thesis by (simp add: wanted_def y1 y2 y3 z algebra_simps)
    qed
    ultimately show ?thesis by (simp add: ds)
  qed
  then show "concat (map dma_moves (rev ds)) = wanted fromAddr to len"
    "\<forall>d \<in> set ds. dma_target d = Some DMA_VRAM \<and> dma_src d mod 131072 + 2 * dma_len d \<le> 131072" by simp_all
qed

text \<open>Queueing a transfer queues its pieces.\<close>

lemma DMA_queueDma_pieces:
  assumes "queue_inv s q" "xfer_ok x" "unat (queueIndex s) + 2 \<le> unat (queueSize s)"
    and "\<not> DMA_getIgnoreOverCapacity s"
    and r: "DMA_queueDma (x_loc x) (x_from x) (x_to x) (x_len x) (x_step x) s = (ok, s')"
  shows "ok \<and> queue_all (bank_pieces x) s = (replicate (length (bank_pieces x)) True, s')
    \<and> queue_inv s' (q @ bank_pieces x)"
proof -
  have fl: "dmaFlag s AND DMA_OVERCAPACITY_IGNORE = 0" using assms(4) by (simp add: DMA_getIgnoreOverCapacity_def)
  have ok: "\<forall>p \<in> set (bank_pieces x). xfer_ok p" using pieces_ok [OF assms(2)] by blast
  have len: "length (bank_pieces x) \<le> 2" by (simp add: bank_pieces_def Let_def)
  have "False \<notin> set (fst (queue_all (bank_pieces x) s))"
    using queue_all_ok [OF assms(1) ok _ fl] len assms(3) by simp
  moreover have "queue_inv (snd (queue_all (bank_pieces x) s)) (q @ bank_pieces x)"
    using queue_all_induct [OF assms(1), of "\<lambda>_ _. True", OF _ ok] len assms(3) by simp
  moreover have "DMA_queueDma (x_loc x) (x_from x) (x_to x) (x_len x) (x_step x) s = (True, snd (queue_all (bank_pieces x) s))
      \<and> fst (queue_all (bank_pieces x) s) = replicate (length (bank_pieces x)) True"
    if "False \<notin> set (fst (queue_all (bank_pieces x) s))"
    using that unfolding DMA_queueDma_def bank_pieces_def bankLimitB_def
    by (auto simp: Let_def queue_xfer_def case_prod_unfold prod_eq_iff split: if_splits)
  ultimately show ?thesis using r by (metis Pair_inject prod.collapse)
qed

section \<open>Immediate transfers\<close>

lemma set_step_ok:
  assumes "coherent s" "step = -1 \<or> step < 0x100"
  shows "coherent (set_step step s) \<and> regValues (set_step step s) 0xF = (if step = -1 then regValues s 0xF else ucast step)
    \<and> dmas (chip_of (set_step step s)) = dmas (chip_of s) \<and> z80bus (set_step step s) = z80bus s"
  using assms coherent_write_reg [OF assms(1) reg_bases(12)]
  by (auto simp: set_step_def chip_setAutoInc chip_word_reg [OF _ reg_bases(12)] coherent_def)
    (auto simp: VDP_setAutoInc_def write_reg_def set_reg_def ctrl_w_def)

lemma chip_of_ctrl_w: "chip_of (ctrl_w w s) = chip_word w (chip_of s)"
  by (simp add: chip_of_def ctrl_w_def)

lemma ctrl_w_sel [simp]: "z80bus (ctrl_w w s) = z80bus s" "regValues (ctrl_w w s) = regValues s"
  by (simp_all add: ctrl_w_def)

lemma chip_of_bus:
  "chip_of (Z80_releaseBus s) = chip_of s" "chip_of (snd (Z80_getAndRequestBus s)) = chip_of s"
  by (simp_all add: chip_of_def Z80_releaseBus_def Z80_getAndRequestBus_def)

lemma src_words:
  "(ucast (drop_bit 1 a AND 0xFF) :: u16) = ucast (srcL a)"
  "(ucast (drop_bit 8 (drop_bit 1 a) AND 0xFF) :: u16) = ucast (srcM a)"
  "(ucast (drop_bit 8 (drop_bit 8 (drop_bit 1 a)) AND 0x7F) :: u16) = ucast (srcH a)"
proof -
  have m: "(0xFF :: u32) = mask 8" "(0x7F :: u32) = mask 7" by (simp_all add: mask_eq_exp_minus_1)
  have d: "unat a div 2 div 256 = unat a div 512" "unat a div 512 div 256 = unat a div 131072"
    by (simp_all flip: div_mult2_eq)
  have "unat (ucast (drop_bit 1 a AND 0xFF) :: u16) = unat (ucast (srcL a) :: u16)"
    "unat (ucast (drop_bit 8 (drop_bit 1 a) AND 0xFF) :: u16) = unat (ucast (srcM a) :: u16)"
    "unat (ucast (drop_bit 8 (drop_bit 8 (drop_bit 1 a)) AND 0x7F) :: u16) = unat (ucast (srcH a) :: u16)"
    unfolding m by (simp_all only: unat_ucast_mod unat_and_mask unat_drop_bit src_bytes) (simp_all add: d)
  then show "(ucast (drop_bit 1 a AND 0xFF) :: u16) = ucast (srcL a)"
    "(ucast (drop_bit 8 (drop_bit 1 a) AND 0xFF) :: u16) = ucast (srcM a)"
    "(ucast (drop_bit 8 (drop_bit 8 (drop_bit 1 a)) AND 0x7F) :: u16) = ucast (srcH a)"
    by (metis unsigned_word_eqI)+
qed

text \<open>An immediate transfer makes the chip perform the DMA of the queue entry.\<close>

definition now_xfer :: "xfer \<Rightarrow> 'a vdp_st_scheme \<Rightarrow> 'a vdp_st_scheme" where
  "now_xfer x s = DMA_doDmaFast (x_loc x) (x_from x) (x_to x) (x_len x) (x_step x) s"

lemma now_xfer_ok:
  assumes "coherent s" "xfer_ok x"
  shows "dmas (chip_of (now_xfer x s)) = dmas (chip_of s) @ [xfer_op x] \<and> coherent (now_xfer x s)
    \<and> z80bus (now_xfer x s) = z80bus s"
proof -
  have "x_step x < 0x100" using assms(2) by (simp add: xfer_ok_def)
  moreover from this have ns: "x_step x \<noteq> -1" by auto
  ultimately have st: "coherent (set_step (x_step x) s)" "regValues (set_step (x_step x) s) 0xF = ucast (x_step x)"
      "dmas (chip_of (set_step (x_step x) s)) = dmas (chip_of s)" "z80bus (set_step (x_step x) s) = z80bus s"
    using set_step_ok [OF assms(1), of "x_step x"] by auto
  define s1 where "s1 = set_step (x_step x) s"
  define s6 where "s6 = ctrl_w (0x9700 + ucast (srcH (x_from x))) (ctrl_w (0x9600 + ucast (srcM (x_from x)))
    (ctrl_w (0x9500 + ucast (srcL (x_from x))) (ctrl_w (0x9400 + ucast (lenH (x_len x)))
    (ctrl_w (0x9300 + ucast (lenL (x_len x))) s1))))"
  define s7 where "s7 = snd (Z80_getAndRequestBus (ctrl_w (ucast (drop_bit 16 (xfer_cmd x))) s6))"
  define s8 where "s8 = ctrl_w (ucast (xfer_cmd x)) s7"
  have cmd: "(if x_loc x = DMA_CRAM then VDP_DMA_CRAM_ADDR (ucast (x_to x))
      else if x_loc x = DMA_VSRAM then VDP_DMA_VSRAM_ADDR (ucast (x_to x)) else VDP_DMA_VRAM_ADDR (ucast (x_to x))) = xfer_cmd x"
    using assms(2) by (auto simp: xfer_ok_def xfer_cmd_def dma_command_def cfg)
  have n: "now_xfer x s = (if \<not> z80bus s then Z80_releaseBus s8 else s8)"
    unfolding now_xfer_def DMA_doDmaFast_def Let_def src_words cmd len_words case_prod_unfold s8_def s7_def s6_def s1_def
    using st(4) by (simp add: Z80_getAndRequestBus_def lenL_def lenH_def)
  have p1: "pend (chip_of s1) = None" "\<forall>r < 0x13. regs (chip_of s1) r = regValues s1 r"
    using st(1) by (simp_all add: coherent_def s1_def)
  have c6: "chip_of s6 = (chip_of s1)\<lparr>regs := (regs (chip_of s1))(0x13 := lenL (x_len x), 0x14 := lenH (x_len x),
      0x15 := srcL (x_from x), 0x16 := srcM (x_from x), 0x17 := srcH (x_from x))\<rparr>"
    using p1(1) unfolding s6_def chip_of_ctrl_w by (simp add: chip_dma_regs)
  have "chip_of s8 = (chip_of s6)\<lparr>dmas := dmas (chip_of s) @ [xfer_op x]\<rparr>"
    using cmd_not_reg [OF assms(2)] p1 st unfolding s8_def s7_def chip_of_ctrl_w chip_of_bus c6
    by (simp add: chip_word_def xfer_op_def s1_def)
  moreover have "regValues s8 = regValues s1" "z80bus s8"
    by (simp_all add: s8_def s7_def s6_def Z80_getAndRequestBus_def)
  ultimately show ?thesis
    unfolding n using p1 c6 chip_of_bus(1) [of s8]
    by (auto simp: coherent_def Z80_releaseBus_def simp del: chip_of_io)
qed

lemma DMA_doDma_pieces:
  "DMA_doDma (x_loc x) (x_from x) (x_to x) (x_len x) (x_step x) s = fold now_xfer (bank_pieces x) s"
  by (simp add: DMA_doDma_def bank_pieces_def bankLimitB_def now_xfer_def Let_def)

lemma now_xfers_ok:
  assumes "coherent s" "\<forall>x \<in> set xs. xfer_ok x"
  shows "dmas (chip_of (fold now_xfer xs s)) = dmas (chip_of s) @ map xfer_op xs \<and> coherent (fold now_xfer xs s)
    \<and> z80bus (fold now_xfer xs s) = z80bus s"
  using assms
proof (induction xs arbitrary: s)
  case (Cons x xs)
  then show ?case using now_xfer_ok [of s x] by simp
qed simp

text \<open>
  C28 A transfer of words to the video memory is done right across the banks of 128 KB, both at once
  (\<open>DMA_doDma\<close>) and through the queue and a flush (\<open>DMA_queueDma\<close>): the chip, whose source address wraps around
  in its bank, is made to start the same DMAs \<open>ds\<close>, behind those of the entries already queued. None of them
  crosses the end of a bank, and together they read exactly the words of the source, each once, and write
  each where it belongs; the piece of the second bank comes first. The transfer is one of at least a word with
  step 2 from an even address, all below 16 MB; the queue has two free entries and does not enforce the capacity limit.
\<close>

theorem DMA_bank_split:
  assumes "queue_inv s q" "coherent s" "unat (queueIndex s) + 2 \<le> unat (queueSize s)" "\<not> DMA_getIgnoreOverCapacity s"
    and "even (unat fromAddr)" "unat fromAddr + 2 * unat len \<le> 2 ^ 24" "len \<noteq> 0"
    and "s1 = DMA_doDma DMA_VRAM fromAddr to len 2 s"
    and "DMA_queueDma DMA_VRAM fromAddr to len 2 s = (ok, s2)" "s3 = DMA_flushQueue s2"
  shows "ok \<and> (\<exists>ds. dmas (chip_of s1) = dmas (chip_of s) @ ds \<and> dmas (chip_of s3) = dmas (chip_of s) @ map xfer_op q @ ds
    \<and> (\<forall>d \<in> set ds. dma_target d = Some DMA_VRAM \<and> dma_src d mod 131072 + 2 * dma_len d \<le> 131072)
    \<and> concat (map dma_moves (rev ds)) = map (\<lambda>k. (unat fromAddr div 2 + k, to + 2 * of_nat k)) [0 ..< unat len])"
proof -
  let ?x = "vram_xfer fromAddr to len" and ?q = "bank_pieces (vram_xfer fromAddr to len)"
  define ds where "ds = map xfer_op ?q"
  have f: "x_loc ?x = DMA_VRAM" "x_from ?x = fromAddr" "x_to ?x = to" "x_len ?x = len" "x_step ?x = 2" by (simp_all add: vram_xfer_def)
  have pok: "\<forall>p \<in> set ?q. xfer_ok p" using pieces_ok [OF vram_xfer_ok] by blast
  have "s1 = fold now_xfer ?q s" using DMA_doDma_pieces [of ?x s] unfolding f assms(8) .
  then have now: "dmas (chip_of s1) = dmas (chip_of s) @ ds" using now_xfers_ok [OF assms(2) pok] by (simp add: ds_def)
  from DMA_queueDma_pieces [OF assms(1) vram_xfer_ok assms(3,4), of fromAddr to len ok s2]
  have ok: "ok" "queue_all ?q s = (replicate (length ?q) True, s2)" "queue_inv s2 (q @ ?q)" using assms(9) by (simp_all add: f)
  from ok(2) have fr: "queue_frame s s2" using queue_all_frame [OF pok, of s] by simp
  note sel = queue_frame_sel [OF fr]
  have "coherent s2" "flushed s2 (q @ ?q) = q @ ?q"
    using assms(2,4) sel by (simp_all add: flushed_def DMA_getIgnoreOverCapacity_def)
  then have "dmas (chip_of s3) = dmas (chip_of s) @ map xfer_op q @ ds"
    using flush_ok [OF ok(3)] sel unfolding assms(10) by (simp add: ds_def)
  moreover have "unat fromAddr + 2 * unat len \<le> 16777216" using assms(6) by simp
  note pieces_move [OF assms(5) this assms(7) ds_def]
  ultimately show ?thesis using ok(1) now unfolding wanted_def by blast
qed

theorem DMA_bank_split_witness:
  "\<exists>ok s2 ds. DMA_queueDma DMA_VRAM 0x1FFF0 0x400 16 2 dma0 = (ok, s2) \<and> ok \<and>
     dmas (chip_of (DMA_doDma DMA_VRAM 0x1FFF0 0x400 16 2 dma0)) = ds \<and> dmas (chip_of (DMA_flushQueue s2)) = ds \<and>
     length (concat (map dma_moves (rev ds))) = 16 \<and> concat (map dma_moves (rev ds)) ! 9 = (0x10001, 0x412)"
proof -
  obtain ok s2 where q: "DMA_queueDma DMA_VRAM 0x1FFF0 0x400 16 2 dma0 = (ok, s2)" by fastforce
  have h: "\<not> DMA_getIgnoreOverCapacity dma0" "dmas (chip_of dma0) = []" "unat (queueIndex dma0) + 2 \<le> unat (queueSize dma0)"
    by (simp_all add: DMA_getIgnoreOverCapacity_def dma0_def cfg chip_of_def chip0_def)
  obtain ds where "ok" "dmas (chip_of (DMA_doDma DMA_VRAM 0x1FFF0 0x400 16 2 dma0)) = ds" "dmas (chip_of (DMA_flushQueue s2)) = ds"
      "concat (map dma_moves (rev ds)) = map (\<lambda>k. (unat (0x1FFF0 :: u32) div 2 + k, 0x400 + 2 * of_nat k)) [0 ..< unat (16 :: u16)]"
    using DMA_bank_split [OF dma0_ok(1,2) h(3,1) _ _ _ refl q refl] h(2) by auto
  then show ?thesis using q by (intro exI [of _ ok] exI [of _ s2] exI [of _ ds]) simp
qed

definition transfer :: "TransferMethod \<Rightarrow> xfer \<Rightarrow> 'a dma_st_scheme \<Rightarrow> bool \<times> 'a dma_st_scheme" where
  "transfer tm x s = DMA_transfer tm (x_loc x) (x_from x) (x_to x) (x_len x) (x_step x) s"

text \<open>
  C11 The transfer methods agree: with an empty queue of at least two entries and no capacity
  limit enforced, \<open>DMA_transfer\<close> with \<open>DMA_QUEUE\<close> followed by a flush makes the chip perform the
  same DMAs as \<open>DMA_transfer\<close> with \<open>DMA\<close>, bank splits and zero lengths included, and both leave
  the registers coherent and the Z80 bus as it was.
\<close>

theorem DMA_methods_agree:
  assumes "queue_inv s []" "coherent s" "xfer_ok x" "2 \<le> queueSize s" "\<not> DMA_getIgnoreOverCapacity s"
    and "transfer DMA_QUEUE x s = (ok, s1)" "transfer DMA x s = (ok', s2)" "s' = DMA_flushQueue s1"
  shows "ok \<and> ok' \<and> dmas (chip_of s') = dmas (chip_of s2)
    \<and> coherent s' \<and> coherent s2 \<and> z80bus s' = z80bus s \<and> z80bus s2 = z80bus s"
proof -
  have f0: "flushed s [] = []" by (simp add: flushed_def)
  show ?thesis
  proof (cases "x_len x = 0")
    case True
    then show ?thesis using assms f0 flush_ok [OF assms(1,2)] flush_frame(2) [OF assms(1,2)]
      by (simp add: transfer_def DMA_transfer_def)
  next
    case False
    have i0: "queueIndex s = 0" using assms(1) by (simp add: queue_inv_def unat_eq_zero)
    have r: "2 \<le> unat (queueSize s)" using assms(4) by (simp add: word_le_nat_alt)
    have ok: "\<forall>p \<in> set (bank_pieces x). xfer_ok p" using pieces_ok [OF assms(3)] by blast
    have q: "ok \<and> queue_all (bank_pieces x) s = (replicate (length (bank_pieces x)) True, s1)
        \<and> queue_inv s1 ([] @ bank_pieces x)"
      using assms(6) False i0 r
      by (intro DMA_queueDma_pieces [OF assms(1,3) _ assms(5)]) (simp_all add: transfer_def DMA_transfer_def)
    then have fr: "queue_frame s s1" using queue_all_frame [OF ok, of s] by simp
    note sel = queue_frame_sel [OF fr]
    have inv1: "queue_inv s1 (bank_pieces x)" and coh1: "coherent s1" using q assms(2) sel by simp_all
    have "flushed s1 (bank_pieces x) = bank_pieces x"
      using assms(5) sel by (simp add: flushed_def DMA_getIgnoreOverCapacity_def)
    then have f: "dmas (chip_of s') = dmas (chip_of s) @ map xfer_op (bank_pieces x)" "coherent s'" "z80bus s' = z80bus s"
      using flush_ok [OF inv1 coh1] flush_frame(2) [OF inv1 coh1] assms(8) sel by simp_all
    have "ok' \<and> s2 = fold now_xfer (bank_pieces x) s"
      using assms(7) False by (simp add: transfer_def DMA_transfer_def DMA_doDma_pieces)
    then show ?thesis using f q now_xfers_ok [OF assms(2) ok] by simp
  qed
qed

theorem DMA_methods_agree_witness:
  "\<exists>ok s1 ok' s2. transfer DMA_QUEUE (xfer0 4) dma0 = (ok, s1) \<and> transfer DMA (xfer0 4) dma0 = (ok', s2) \<and>
     dmas (chip_of (DMA_flushQueue s1)) = dmas (chip_of s2)"
proof -
  obtain ok s1 ok' s2 where t: "transfer DMA_QUEUE (xfer0 4) dma0 = (ok, s1)" "transfer DMA (xfer0 4) dma0 = (ok', s2)"
    by fastforce
  have "\<not> DMA_getIgnoreOverCapacity dma0" by (simp add: DMA_getIgnoreOverCapacity_def dma0_def cfg)
  with t show ?thesis
    using DMA_methods_agree [OF dma0_ok(1,2) xfer0_ok(1) _ _ t refl] dma0_ok(5) by auto
qed

section \<open>Copies by the CPU\<close>

text \<open>The words written to the data port; a long write is two words, high word first.\<close>

fun data_words :: "io list \<Rightarrow> u16 list" where
  "data_words [] = []"
| "data_words (DataW w # es) = w # data_words es"
| "data_words (DataL l # es) = ucast (drop_bit 16 l) # ucast l # data_words es"
| "data_words (e # es) = data_words es"

fun is_data :: "io \<Rightarrow> bool" where
  "is_data (DataW w) = True"
| "is_data (DataL l) = True"
| "is_data _ = False"

text \<open>\<open>es\<close> is what a copy loop writes for \<open>n\<close> words from \<open>p\<close> on.\<close>

definition copies :: "ram \<Rightarrow> ptr \<Rightarrow> nat \<Rightarrow> io list \<Rightarrow> bool" where
  "copies m p n es \<longleftrightarrow> data_words es = map m [p ..< p + n] \<and> list_all is_data es"

lemma data_words_append [simp]: "data_words (es @ fs) = data_words es @ data_words fs"
  by (induction es rule: data_words.induct) auto

lemma copies_append: "copies m p n es \<Longrightarrow> copies m (p + n) k fs \<Longrightarrow> copies m p (n + k) (es @ fs)"
  using upt_add_eq_append [of p "p + n" k] by (simp add: copies_def add.assoc)

lemma copies_long: "copies m p 2 [DataL (load32 p m)]"
proof -
  have "[p ..< p + 2] = [p, p + 1]" by (simp add: upt_rec)
  then show ?thesis by (simp add: copies_def load32_words [simplified])
qed

lemma copy_longs_ok: "\<exists>es. copy_longs n p s = (p + 2 * n, s\<lparr>io := io s @ es\<rparr>) \<and> copies (ram s) p (2 * n) es"
proof (induction n arbitrary: p s)
  case 0
  then show ?case by (intro exI [of _ "[]"]) (simp add: copies_def)
next
  case (Suc n)
  let ?e = "DataL (load32 p (ram s))"
  obtain es where "copy_longs n (p + 2) (s\<lparr>io := io s @ [?e]\<rparr>) = (p + 2 + 2 * n, s\<lparr>io := io s @ [?e] @ es\<rparr>)"
      "copies (ram s) (p + 2) (2 * n) es"
    using Suc.IH [of "p + 2" "s\<lparr>io := io s @ [?e]\<rparr>"] by auto
  then show ?case
    using copies_append [OF copies_long] by (intro exI [of _ "?e # es"]) (auto simp: data_l_def)
qed

lemma copy_blocks_ok: "\<exists>es. copy_blocks n p s = (p + 16 * n, s\<lparr>io := io s @ es\<rparr>) \<and> copies (ram s) p (16 * n) es"
proof (induction n arbitrary: p s)
  case 0
  then show ?case by (intro exI [of _ "[]"]) (simp add: copies_def)
next
  case (Suc n)
  obtain es where e: "copy_longs 8 p s = (p + 16, s\<lparr>io := io s @ es\<rparr>)" "copies (ram s) p 16 es"
    using copy_longs_ok [of 8 p s] by auto
  obtain fs where "copy_blocks n (p + 16) (s\<lparr>io := io s @ es\<rparr>) = (p + 16 + 16 * n, s\<lparr>io := io s @ es @ fs\<rparr>)"
      "copies (ram s) (p + 16) (16 * n) fs"
    using Suc.IH [of "p + 16" "s\<lparr>io := io s @ es\<rparr>"] by auto
  then show ?case using e copies_append [OF e(2)] by (intro exI [of _ "es @ fs"]) (auto simp: Let_def)
qed

lemma copy_shorts_ok: "\<exists>es. copy_shorts n p s = s\<lparr>io := io s @ es\<rparr> \<and> copies (ram s) p n es"
proof (induction n arbitrary: p s)
  case 0
  then show ?case by (intro exI [of _ "[]"]) (simp add: copies_def)
next
  case (Suc n)
  let ?e = "DataW (ram s p)"
  have "copies (ram s) p 1 [?e]" by (simp add: copies_def)
  moreover obtain es where "copy_shorts n (p + 1) (s\<lparr>io := io s @ [?e]\<rparr>) = s\<lparr>io := io s @ [?e] @ es\<rparr>"
      "copies (ram s) (p + 1) n es"
    using Suc.IH [of "p + 1" "s\<lparr>io := io s @ [?e]\<rparr>"] by auto
  ultimately show ?case
    using copies_append [of "ram s" p 1 "[?e]" n es] by (intro exI [of _ "?e # es"]) (auto simp: data_w_def)
qed

lemma doCPUCopyDirect_ok:
  "\<exists>es. DMA_doCPUCopyDirect cmd fromAddr len step s =
      (let s1 = ctrl_l cmd (set_step step s) in s1\<lparr>io := io s1 @ es\<rparr>)
    \<and> list_all is_data es
    \<and> data_words es = map (ram s) [unat fromAddr div 2 ..< unat fromAddr div 2 + unat len]"
proof -
  let ?p = "unat fromAddr div 2" and ?s1 = "ctrl_l cmd (set_step step s)"
  have r: "ram ?s1 = ram s" by (simp add: ctrl_l_def set_step_def VDP_setAutoInc_def write_reg_def set_reg_def ctrl_w_def)
  have "(len AND 0xF) = len AND mask 4" by (simp add: mask_eq_exp_minus_1)
  then have d: "unat (len div 16) = unat len div 16" "unat (len AND 0xF) = unat len mod 16"
    by (simp_all add: unat_div unat_and_mask)
  obtain es where e: "copy_blocks (unat (len div 16)) ?p ?s1 = (?p + 16 * (unat len div 16), ?s1\<lparr>io := io ?s1 @ es\<rparr>)"
      "copies (ram s) ?p (16 * (unat len div 16)) es"
    using copy_blocks_ok [of "unat (len div 16)" ?p ?s1] unfolding d r by auto
  obtain fs where f: "copy_shorts (unat (len AND 0xF)) (?p + 16 * (unat len div 16)) (?s1\<lparr>io := io ?s1 @ es\<rparr>) =
        ?s1\<lparr>io := io ?s1 @ es @ fs\<rparr>" "copies (ram s) (?p + 16 * (unat len div 16)) (unat len mod 16) fs"
    using copy_shorts_ok [of "unat (len AND 0xF)" "?p + 16 * (unat len div 16)" "?s1\<lparr>io := io ?s1 @ es\<rparr>"] r
    unfolding d by auto
  have "copies (ram s) ?p (unat len) (es @ fs)" using copies_append [OF e(2) f(2)] by simp
  then show ?thesis
    using e(1) f(1) by (intro exI [of _ "es @ fs"]) (simp add: DMA_doCPUCopyDirect_def copies_def Let_def)
qed

text \<open>
  C29 The copy by the CPU, unrolled to 8 long writes per turn with a word loop for the rest, is
  the plain word by word copy: after the command it writes to the data port exactly the \<open>len\<close>
  words of the source, in order, and nothing else.
\<close>

theorem DMA_doCPUCopyDirect_copies:
  "\<exists>es. DMA_doCPUCopyDirect cmd fromAddr len step s =
      (let s1 = ctrl_l cmd (set_step step s) in s1\<lparr>io := io s1 @ es\<rparr>)
    \<and> list_all is_data es
    \<and> data_words es = map (ram s) [unat fromAddr div 2 ..< unat fromAddr div 2 + unat len]"
  by (rule doCPUCopyDirect_ok)

section \<open>Initialisation\<close>

text \<open>The blocks of the heap that the transfer queue holds: the array of entries and the temporary buffer.\<close>

definition dma_blocks :: "'a dma_st_scheme \<Rightarrow> (ptr \<times> u16) set" where
  "dma_blocks s = opt_block (dmaQueues s) (queueSize s * 16) \<union> opt_block (dmaDataBuffer s) (dataBufferSize s * 2)"

lemma heap_valid_fields [simp]:
  "heap_valid A (s\<lparr>dmaQueues := p\<rparr>) = heap_valid A s" "heap_valid A (s\<lparr>dmaDataBuffer := p\<rparr>) = heap_valid A s"
  "heap_valid A (s\<lparr>queueSize := n\<rparr>) = heap_valid A s" "heap_valid A (s\<lparr>dataBufferSize := n\<rparr>) = heap_valid A s"
  "heap_valid A (DMA_clearQueue s) = heap_valid A s"
  by (rule heap_valid_cong; simp add: DMA_clearQueue_def)+

lemma heap_frame_dma:
  assumes "heap_frame s s'"
  shows "queueSize s' = queueSize s" "dataBufferSize s' = dataBufferSize s" "dmaQueues s' = dmaQueues s"
    "dmaDataBuffer s' = dmaDataBuffer s" "dmaFlag s' = dmaFlag s" "isPal s' = isPal s" "io s' = io s"
    "regValues s' = regValues s" "maxTransferPerFrame s' = maxTransferPerFrame s" "coherent s' = coherent s"
  using assms by (auto simp: heap_frame_def coherent_def chip_of_def)

lemma clear_queue_inv: "queue_inv (DMA_clearQueue s) []"
  by (simp add: queue_inv_def DMA_clearQueue_def total_def)

lemma DMA_setBufferSize_ok:
  assumes "heap_valid A s" "dmaDataBuffer s = NULL" "unat n \<le> 65533" "k = max DMA_BUFFER_SIZE_MIN n div 2"
  shows "\<exists>p s'. DMA_setBufferSize debug n s = Some s' \<and> heap_valid (A \<union> opt_block p (k * 2)) s' \<and> A \<inter> opt_block p (k * 2) = {}
    \<and> (\<forall>b \<in> A. \<forall>a \<in> block_words b. ram s' a = ram s a) \<and> queue_inv s' []
    \<and> dmaDataBuffer s' = p \<and> nextDataBuffer s' = p \<and> dataBufferSize s' = k \<and> dmaQueues s' = dmaQueues s \<and> queueSize s' = queueSize s
    \<and> maxTransferPerFrame s' = maxTransferPerFrame s \<and> dmaFlag s' = dmaFlag s \<and> coherent s' = coherent s"
proof -
  let ?s = "s\<lparr>dataBufferSize := k\<rparr>"
  have m: "unat (max DMA_BUFFER_SIZE_MIN n) = max 2048 (unat n)" by (simp add: cfg max_def word_le_nat_alt)
  have k: "unat k = max 2048 (unat n) div 2" by (simp add: unat_div m assms(4))
  then have nz: "k \<noteq> 0" by (intro notI) simp
  have b: "unat (k * 2) \<le> 65532" using assms(3) k by (simp add: unat_word_ariths)
  have "heap_valid A ?s" using assms(1) by simp
  from alloc_step [OF this b] obtain p s1 where a: "MEM_alloc (k * 2) ?s = Some (p, s1)" "heap_frame ?s s1"
      "heap_valid (A \<union> opt_block p (k * 2)) s1" "A \<inter> opt_block p (k * 2) = {}" "\<forall>b \<in> A. \<forall>a \<in> block_words b. ram s1 a = ram ?s a"
    by blast
  define s' where "s' = DMA_clearQueue (s1\<lparr>dmaDataBuffer := p\<rparr>)"
  have "DMA_setBufferSize debug n s = Some s'"
    using a(1) assms(2) nz unfolding assms(4) by (simp add: DMA_setBufferSize_def s'_def)
  moreover have "heap_valid (A \<union> opt_block p (k * 2)) s'" "queue_inv s' []"
    using a(3) clear_queue_inv by (simp_all add: s'_def)
  moreover have "dmaDataBuffer s' = p" "nextDataBuffer s' = p" "dataBufferSize s' = k" "dmaQueues s' = dmaQueues s" "queueSize s' = queueSize s"
      "maxTransferPerFrame s' = maxTransferPerFrame s" "dmaFlag s' = dmaFlag s" "coherent s' = coherent s" "ram s' = ram s1"
    using heap_frame_dma [OF a(2)] by (simp_all add: s'_def DMA_clearQueue_def coherent_def chip_of_def)
  ultimately show ?thesis using a(4,5) by (intro exI [of _ p] exI [of _ s']) simp
qed

text \<open>The first part of the initialisation gives back the old blocks.\<close>

lemma init_release:
  fixes s :: "'a dma_st_scheme"
  assumes "heap_valid (A \<union> dma_blocks s) s" "A \<inter> dma_blocks s = {}" "dmaQueues s = NULL \<or> dmaQueues s \<noteq> dmaDataBuffer s"
    and s1: "s1 = (if dmaQueues s \<noteq> NULL then (MEM_free debug (dmaQueues s) s)\<lparr>dmaQueues := NULL\<rparr> else s)"
    and s2: "s2 = (if dmaDataBuffer s1 \<noteq> NULL then (MEM_free debug (dmaDataBuffer s1) s1)\<lparr>dmaDataBuffer := NULL\<rparr> else s1)"
  shows "heap_valid A s2 \<and> (\<forall>b \<in> A. \<forall>a \<in> block_words b. ram s2 a = ram s a) \<and> dmaQueues s2 = NULL \<and> dmaDataBuffer s2 = NULL
    \<and> isPal s2 = isPal s \<and> maxTransferPerFrame s2 = maxTransferPerFrame s \<and> dmaFlag s2 = dmaFlag s \<and> coherent s2 = coherent s"
proof -
  let ?Q = "opt_block (dmaQueues s) (queueSize s * 16)" and ?D = "opt_block (dmaDataBuffer s) (dataBufferSize s * 2)"
  define t1 where "t1 = (if dmaQueues s \<noteq> NULL then MEM_free debug (dmaQueues s) s else s)"
  have e1: "s1 = t1\<lparr>dmaQueues := NULL\<rparr>" by (simp add: s1 t1_def)
  have "heap_valid ((A \<union> ?D) \<union> ?Q) s" using assms(1) by (simp add: dma_blocks_def ac_simps)
  moreover have "(A \<union> ?D) \<inter> ?Q = {}" using assms(2,3) by (auto simp: dma_blocks_def opt_block_def)
  ultimately have f1: "heap_frame s t1" "heap_valid (A \<union> ?D) t1" "\<forall>b \<in> A \<union> ?D. \<forall>a \<in> block_words b. ram t1 a = ram s a"
    using free_step [OF _ _ t1_def] by blast+
  note g1 = heap_frame_dma [OF f1(1)]
  have d: "dmaDataBuffer s1 = dmaDataBuffer s" using g1 by (simp add: e1)
  define t2 where "t2 = (if dmaDataBuffer s \<noteq> NULL then MEM_free debug (dmaDataBuffer s) s1 else s1)"
  have e2: "s2 = t2\<lparr>dmaDataBuffer := NULL\<rparr>" using d by (simp add: s2 t2_def)
  have "heap_valid (A \<union> ?D) s1" using f1(2) by (simp add: e1)
  moreover have "A \<inter> ?D = {}" using assms(2) by (auto simp: dma_blocks_def)
  ultimately have f2: "heap_frame s1 t2" "heap_valid A t2" "\<forall>b \<in> A. \<forall>a \<in> block_words b. ram t2 a = ram s1 a"
    using free_step [OF _ _ t2_def] by blast+
  note g2 = heap_frame_dma [OF f2(1)]
  show ?thesis using f1(3) f2(2,3) g1 g2 by (simp add: e2 ball_Un) (simp add: e1 coherent_def chip_of_def)
qed

text \<open>
  C30 Initialisation and repeated initialisation: in a sound heap in which the queue holds its old blocks, if it has any,
  \<open>DMA_initEx\<close> returns. It has given back the old blocks, and holds new ones, of the sizes that were
  asked for (at least the minimum, 0 for the default) wherever memory was found; these are no blocks of anybody else
  and do not overlap each other. All blocks of others keep their contents. The queue is empty, the capacity set, automatic flush on.
  The sizes must be ones whose bytes fit 16 bits: at most 4095 entries and 65533 bytes.
\<close>

theorem DMA_initEx_ok:
  fixes s :: "'a dma_st_scheme"
  assumes "heap_valid (A \<union> dma_blocks s) s" "A \<inter> dma_blocks s = {}" "dmaQueues s = NULL \<or> dmaQueues s \<noteq> dmaDataBuffer s"
    and "unat sz \<le> 4095" "unat bufferSize \<le> 65533"
    and "n = (if bufferSize \<noteq> 0 then bufferSize else if isPal s then DMA_BUFFER_SIZE_PAL_LOW else DMA_BUFFER_SIZE_NTSC)"
  shows "\<exists>s'. DMA_initEx debug sz capacity bufferSize s = Some s' \<and> heap_valid (A \<union> dma_blocks s') s' \<and> A \<inter> dma_blocks s' = {}
    \<and> (\<forall>b \<in> A. \<forall>a \<in> block_words b. ram s' a = ram s a)
    \<and> (dmaQueues s' = NULL \<or> dmaDataBuffer s' = NULL \<or> {dmaQueues s' ..< dmaQueues s' + 8 * unat (queueSize s')} \<inter>
         {dmaDataBuffer s' ..< dmaDataBuffer s' + unat (dataBufferSize s')} = {})
    \<and> queueSize s' = (if sz \<noteq> 0 then max DMA_QUEUE_SIZE_MIN sz else DMA_QUEUE_SIZE_DEFAULT)
    \<and> dataBufferSize s' = max DMA_BUFFER_SIZE_MIN n div 2 \<and> nextDataBuffer s' = dmaDataBuffer s' \<and> queue_inv s' []
    \<and> maxTransferPerFrame s' = capacity \<and> DMA_getAutoFlush s' \<and> \<not> DMA_getIgnoreOverCapacity s' \<and> coherent s' = coherent s"
proof -
  let ?q = "if sz \<noteq> 0 then max DMA_QUEUE_SIZE_MIN sz else DMA_QUEUE_SIZE_DEFAULT"
  define k where "k = max DMA_BUFFER_SIZE_MIN n div 2"
  define s0 where "s0 = s\<lparr>maxTransferPerFrame := capacity, dmaFlag := DMA_AUTOFLUSH,
    VBlankProcess := VBlankProcess s OR PROCESS_DMA_TASK\<rparr>"
  define s1 where "s1 = (if dmaQueues s0 \<noteq> NULL then (MEM_free debug (dmaQueues s0) s0)\<lparr>dmaQueues := NULL\<rparr> else s0)"
  define s2 where "s2 = (if dmaDataBuffer s1 \<noteq> NULL then (MEM_free debug (dmaDataBuffer s1) s1)\<lparr>dmaDataBuffer := NULL\<rparr> else s1)"
  have f0: "dmaQueues s0 = dmaQueues s" "dmaDataBuffer s0 = dmaDataBuffer s" "dma_blocks s0 = dma_blocks s" "ram s0 = ram s" "isPal s0 = isPal s"
      "coherent s0 = coherent s" "dmaFlag s0 = DMA_AUTOFLUSH" "maxTransferPerFrame s0 = capacity"
    by (simp_all add: s0_def dma_blocks_def coherent_def chip_of_def)
  have "heap_valid X s0 = heap_valid X s" for X by (rule heap_valid_cong) (simp_all add: s0_def)
  then have h0: "heap_valid (A \<union> dma_blocks s0) s0" "A \<inter> dma_blocks s0 = {}" "dmaQueues s0 = NULL \<or> dmaQueues s0 \<noteq> dmaDataBuffer s0"
    using assms(1-3) by (simp_all add: f0)
  note r2 = init_release [OF h0 s1_def s2_def]
  then have "heap_valid A s2" by blast
  from pack_step [OF this] obtain s3 where p: "MEM_pack s2 = Some s3" "heap_frame s2 s3" "heap_valid A s3"
      "\<forall>b \<in> A. \<forall>a \<in> block_words b. ram s3 a = ram s2 a" by blast
  note g3 = heap_frame_dma [OF p(2)]
  have q: "unat ?q \<le> 4095" "0 < unat ?q" using assms(4) by (auto simp: cfg max_def word_le_nat_alt)
  then have q16: "unat (?q * 16) = 16 * unat ?q" by (simp add: unat_word_ariths)
  let ?s3 = "s3\<lparr>queueSize := ?q\<rparr>"
  have "heap_valid A ?s3" "unat (?q * 16) \<le> 65532" using p(3) q(1) unfolding q16 by simp_all
  from alloc_step [OF this] obtain pq s4 where a: "MEM_alloc (?q * 16) ?s3 = Some (pq, s4)" "heap_frame ?s3 s4"
      "heap_valid (A \<union> opt_block pq (?q * 16)) s4" "A \<inter> opt_block pq (?q * 16) = {}" "\<forall>b \<in> A. \<forall>a \<in> block_words b. ram s4 a = ram ?s3 a"
    by blast
  note g4 = heap_frame_dma [OF a(2)]
  let ?s4 = "s4\<lparr>dmaQueues := pq\<rparr>" and ?A = "A \<union> opt_block pq (?q * 16)"
  have n: "unat n \<le> 65533" using assms(5,6) by (simp add: cfg)
  have h4: "heap_valid ?A ?s4" "dmaDataBuffer ?s4 = NULL" "isPal ?s4 = isPal s" using a(3) r2 g3 g4 f0 by simp_all
  obtain pb s5 where b: "DMA_setBufferSize debug n ?s4 = Some s5" "heap_valid (?A \<union> opt_block pb (k * 2)) s5" "?A \<inter> opt_block pb (k * 2) = {}"
      "\<forall>b \<in> ?A. \<forall>a \<in> block_words b. ram s5 a = ram ?s4 a" "queue_inv s5 []" "dmaDataBuffer s5 = pb" "nextDataBuffer s5 = pb"
      "dataBufferSize s5 = k" "dmaQueues s5 = dmaQueues ?s4" "queueSize s5 = queueSize ?s4" "maxTransferPerFrame s5 = maxTransferPerFrame ?s4"
      "dmaFlag s5 = dmaFlag ?s4" "coherent s5 = coherent ?s4"
    using DMA_setBufferSize_ok [OF h4(1,2) n k_def, of debug] by (elim exE conjE)
  have e: "DMA_initEx debug sz capacity bufferSize s = Some s5"
    using p(1) a(1) b(1) h4(3) unfolding DMA_initEx_def Let_def s0_def [symmetric] s1_def [symmetric] s2_def [symmetric]
      DMA_setBufferSizeToDefault_def assms(6)
    by (simp split del: if_split) (simp split: if_splits)
  have fl: "dmaQueues s5 = pq" "queueSize s5 = ?q" "maxTransferPerFrame s5 = capacity" "dmaFlag s5 = DMA_AUTOFLUSH" "coherent s5 = coherent s"
    using b(9-13) g3 g4 r2 f0 by (simp_all add: coherent_def chip_of_def)
  have blk: "A \<union> dma_blocks s5 = ?A \<union> opt_block pb (k * 2)" "A \<inter> dma_blocks s5 = {}"
    using a(4) b(3) by (auto simp: dma_blocks_def fl b(6,8))
  have "\<forall>b \<in> A. \<forall>a \<in> block_words b. ram s5 a = ram s a" using b(4) a(5) p(4) r2 f0(4) by (simp add: ball_Un)
  moreover have "{pq ..< pq + 8 * unat ?q} \<inter> {pb ..< pb + unat k} = {}" if nn: "pq \<noteq> NULL" "pb \<noteq> NULL"
  proof -
    have "(pq, ?q * 16) \<in> ?A \<union> opt_block pb (k * 2)" "(pb, k * 2) \<in> ?A \<union> opt_block pb (k * 2)" "(pq, ?q * 16) \<noteq> (pb, k * 2)"
      using nn b(3) by (auto simp: opt_block_def)
    from mh.disjoint_law [OF b(2) this] have "block_words (pq, ?q * 16) \<inter> block_words (pb, k * 2) = {}" .
    moreover have "unat (max DMA_BUFFER_SIZE_MIN n) = max 2048 (unat n)" by (simp add: cfg max_def word_le_nat_alt)
    then have "unat k = max 2048 (unat n) div 2" by (simp add: unat_div k_def)
    then have "unat (k * 2) = 2 * unat k" using n by (simp add: unat_word_ariths)
    ultimately show ?thesis unfolding block_words_def fst_conv snd_conv q16 by simp
  qed
  ultimately show ?thesis
    using e b(2,5-8) blk fl k_def
    by (intro exI [of _ s5]) (auto simp: DMA_getAutoFlush_def DMA_getIgnoreOverCapacity_def cfg)
qed

theorem DMA_initEx_ok_witness:
  "\<exists>s'. DMA_initEx True 0 100 0 dma0 = Some s' \<and> heap_valid (dma_blocks s') s' \<and> queueSize s' = 80 \<and> dataBufferSize s' = 4096 \<and> queue_inv s' []"
proof -
  have "live dma0 [35] = [(1, 35)]" by (simp add: live_def dma0_def hused_odd)
  moreover have "hmk (adjsize 32) = 35" by (simp add: hmk_def adjsize_def USED_def)
  ultimately have "owns dma0 [35] {(2, 32)}" by (simp add: owns_def)
  then have "heap_valid {(2, 32)} dma0" using dma0_ok(3) by (auto simp: heap_valid_def dma0_def)
  moreover have "dma_blocks dma0 = {(2, 32)}" by (simp add: dma_blocks_def opt_block_def dma0_def)
  ultimately have "heap_valid ({} \<union> dma_blocks dma0) dma0" "{} \<inter> dma_blocks dma0 = {}" by simp_all
  from DMA_initEx_ok [OF this, of 0 0 _ True 100] show ?thesis
    by (auto simp: dma0_def cfg)
qed

end
