(* ===== verification/Maths.thy ===== *)
theory Maths
  imports Prelude "HOL-Library.Signed_Division"
begin

text \<open>
  Integer and fixed point arithmetic, \<open>src/maths.c\<close>. A fixed point type is a machine word with a
  number of fraction bits: \<open>fix16\<close> 6, \<open>fix32\<close> 10, \<open>fastfix16\<close> 8, \<open>fastfix32\<close> 16.

  A read outside a table and a division by zero (an exception of the processor) are \<open>None\<close>.
\<close>

type_synonym fix16 = s16
type_synonym fix32 = s32
type_synonym fastfix16 = s16
type_synonym fastfix32 = s32

section \<open>Rotations, products and quotients\<close>

text \<open>A value narrower than \<open>int\<close> is promoted before a shift, so a shift by its whole width is defined.\<close>

definition rol8 :: "u8 \<Rightarrow> u16 \<Rightarrow> u8" where
  "rol8 value number = push_bit (unat number) value OR drop_bit (8 - unat number) value"

definition rol16 :: "u16 \<Rightarrow> u16 \<Rightarrow> u16" where
  "rol16 value number = push_bit (unat number) value OR drop_bit (16 - unat number) value"

definition rol32 :: "u32 \<Rightarrow> u16 \<Rightarrow> u32" where
  "rol32 value number = push_bit (unat number) value OR drop_bit (32 - unat number) value"

definition ror8 :: "u8 \<Rightarrow> u16 \<Rightarrow> u8" where
  "ror8 value number = drop_bit (unat number) value OR push_bit (8 - unat number) value"

definition ror16 :: "u16 \<Rightarrow> u16 \<Rightarrow> u16" where
  "ror16 value number = drop_bit (unat number) value OR push_bit (16 - unat number) value"

definition ror32 :: "u32 \<Rightarrow> u16 \<Rightarrow> u32" where
  "ror32 value number = drop_bit (unat number) value OR push_bit (32 - unat number) value"

definition mulu :: "u16 \<Rightarrow> u16 \<Rightarrow> u32" where
  "mulu op1 op2 = ucast op1 * ucast op2"

definition muls :: "s16 \<Rightarrow> s16 \<Rightarrow> s32" where
  "muls op1 op2 = scast op1 * scast op2"

text \<open>
  The division instructions put the remainder in the high half and the quotient in the low half, and
  leave the operand as it is when the quotient does not fit in 16 bits. The operations are only
  specified for a divisor that is not zero.
\<close>

definition divmodu :: "u32 \<Rightarrow> u16 \<Rightarrow> u32" where
  "divmodu op1 op2 =
    (let q = unat op1 div unat op2; r = unat op1 mod unat op2 in
     if q < 65536 then push_bit 16 (of_nat r) OR of_nat q else op1)"

definition divmods :: "s32 \<Rightarrow> s16 \<Rightarrow> s32" where
  "divmods op1 op2 =
    (let q = sint op1 sdiv sint op2; r = sint op1 smod sint op2 in
     if - 32768 \<le> q \<and> q < 32768
     then push_bit 16 (word_of_int r) OR ucast (word_of_int q :: s16) else op1)"

definition divu :: "u32 \<Rightarrow> u16 \<Rightarrow> u16" where
  "divu op1 op2 = ucast (divmodu op1 op2)"

definition divs :: "s32 \<Rightarrow> s16 \<Rightarrow> s16" where
  "divs op1 op2 = ucast (divmods op1 op2)"

definition modu :: "u32 \<Rightarrow> u16 \<Rightarrow> u16" where
  "modu op1 op2 = ucast (drop_bit 16 (divmodu op1 op2))"

definition mods :: "s32 \<Rightarrow> s16 \<Rightarrow> s16" where
  "mods op1 op2 = ucast (drop_bit 16 (divmods op1 op2))"

section \<open>Integers\<close>

definition cnv_bcd_tab :: "u8 list" where
  "cnv_bcd_tab = [
    0x00, 0x01, 0x02, 0x03, 0x04, 0x05, 0x06, 0x07, 0x08, 0x09,
    0x10, 0x11, 0x12, 0x13, 0x14, 0x15, 0x16, 0x17, 0x18, 0x19,
    0x20, 0x21, 0x22, 0x23, 0x24, 0x25, 0x26, 0x27, 0x28, 0x29,
    0x30, 0x31, 0x32, 0x33, 0x34, 0x35, 0x36, 0x37, 0x38, 0x39,
    0x40, 0x41, 0x42, 0x43, 0x44, 0x45, 0x46, 0x47, 0x48, 0x49,
    0x50, 0x51, 0x52, 0x53, 0x54, 0x55, 0x56, 0x57, 0x58, 0x59,
    0x60, 0x61, 0x62, 0x63, 0x64, 0x65, 0x66, 0x67, 0x68, 0x69,
    0x70, 0x71, 0x72, 0x73, 0x74, 0x75, 0x76, 0x77, 0x78, 0x79,
    0x80, 0x81, 0x82, 0x83, 0x84, 0x85, 0x86, 0x87, 0x88, 0x89,
    0x90, 0x91, 0x92, 0x93, 0x94, 0x95, 0x96, 0x97, 0x98, 0x99]"

definition u16ToBCD :: "u16 \<Rightarrow> u32" where
  "u16ToBCD value =
    (let v = value in
     if v \<ge> 100 then
       (let dm = divmodu (ucast v) 100;
            m = ucast (drop_bit 16 dm) :: u16;
            v = ucast dm :: u16;
            res = ucast (cnv_bcd_tab ! unat m) :: u32
        in if v \<ge> 100 then
             (let dm = divmodu (ucast v) 100;
                  m = ucast (drop_bit 16 dm) :: u16;
                  v = ucast dm :: u16;
                  res = res OR push_bit 8 (ucast (cnv_bcd_tab ! unat m))
              in res OR push_bit 16 (ucast (cnv_bcd_tab ! unat v)))
           else res OR push_bit 8 (ucast (cnv_bcd_tab ! unat v)))
     else ucast (cnv_bcd_tab ! unat v))"

definition u32ToBCD :: "u32 \<Rightarrow> u32" where
  "u32ToBCD value =
    (if value > 99999999 then 0x99999999
     else if value \<ge> 65536 then
       (let m = ucast (value mod 10000) :: u16; d = ucast (value div 10000) :: u16
        in push_bit 16 (u16ToBCD d) OR u16ToBCD m)
     else u16ToBCD (ucast value))"

definition getNextPow2 :: "u32 \<Rightarrow> u32" where
  "getNextPow2 value =
    (let result = value - 1;
         result = result OR drop_bit 1 result;
         result = result OR drop_bit 2 result;
         result = result OR drop_bit 4 result;
         result = result OR drop_bit 8 result;
         result = result OR drop_bit 16 result
     in result + 1)"

definition getLog2 :: "u32 \<Rightarrow> u16" where
  "getLog2 value =
    (let result = (if value > 0xFFFF then 16 else 0) :: u16;
         v = ucast value :: u16;
         (result, v) = (if v \<ge> 0x0100 then (result + 8, drop_bit 8 v) else (result, v));
         (result, v) = (if v \<ge> 0x0010 then (result + 4, drop_bit 4 v) else (result, v));
         (result, v) = (if v \<ge> 0x0004 then (result + 2, drop_bit 2 v) else (result, v))
     in result OR drop_bit 1 v)"

definition getApproximatedDistance :: "s32 \<Rightarrow> s32 \<Rightarrow> u32" where
  "getApproximatedDistance dx dy =
    (let dx = (if sint dx < 0 then - dx else dx);
         dy = (if sint dy < 0 then - dy else dy);
         (mn, mx) = (if sint dx < sint dy then (dx, dy) else (dy, dx))
     in drop_bit 8 (push_bit 8 mx + push_bit 3 mx - push_bit 4 mx - push_bit 1 mx +
          push_bit 7 mn - push_bit 5 mn + push_bit 3 mn - push_bit 1 mn))"

section \<open>fix16\<close>

definition FIX16_FRAC_BITS :: nat where [cfg]: "FIX16_FRAC_BITS = 6"
definition FIX32_FRAC_BITS :: nat where [cfg]: "FIX32_FRAC_BITS = 10"
definition FASTFIX16_FRAC_BITS :: nat where [cfg]: "FASTFIX16_FRAC_BITS = 8"
definition FASTFIX32_FRAC_BITS :: nat where [cfg]: "FASTFIX32_FRAC_BITS = 16"

text \<open>\<open>FIX16(n)\<close> for a whole number \<open>n\<close>\<close>

definition FIX16 :: "int \<Rightarrow> fix16" where
  "FIX16 n = word_of_int (n * 2 ^ FIX16_FRAC_BITS)"

definition F16_fromInt :: "s16 \<Rightarrow> fix16" where
  "F16_fromInt value = push_bit FIX16_FRAC_BITS value"

definition F16_toInt :: "fix16 \<Rightarrow> s16" where
  "F16_toInt value = signed_drop_bit FIX16_FRAC_BITS value"

definition F16_toFix32 :: "fix16 \<Rightarrow> fix32" where
  "F16_toFix32 value = push_bit (FIX32_FRAC_BITS - FIX16_FRAC_BITS) (scast value)"

definition F16_toFastFix16 :: "fix16 \<Rightarrow> fastfix16" where
  "F16_toFastFix16 value = push_bit (FASTFIX16_FRAC_BITS - FIX16_FRAC_BITS) value"

definition F16_toFastFix32 :: "fix16 \<Rightarrow> fastfix32" where
  "F16_toFastFix32 value = push_bit (FASTFIX32_FRAC_BITS - FIX16_FRAC_BITS) (scast value)"

definition F16_frac :: "fix16 \<Rightarrow> fix16" where
  "F16_frac value = value AND mask FIX16_FRAC_BITS"

definition F16_int :: "fix16 \<Rightarrow> fix16" where
  "F16_int value = value AND push_bit FIX16_FRAC_BITS (mask 10)"

definition F16_abs :: "fix16 \<Rightarrow> fix16" where
  "F16_abs x = (if sint x < 0 then - x else x)"

definition F16_round :: "fix16 \<Rightarrow> fix16" where
  "F16_round value = F16_int (value + (32 - 1))"

definition F16_toRoundedInt :: "fix16 \<Rightarrow> s16" where
  "F16_toRoundedInt value = F16_toInt (value + (32 - 1))"

definition F16_mul :: "fix16 \<Rightarrow> fix16 \<Rightarrow> fix16" where
  "F16_mul val1 val2 = ucast (signed_drop_bit FIX16_FRAC_BITS (muls val1 val2))"

definition F16_div :: "fix16 \<Rightarrow> fix16 \<Rightarrow> fix16 option" where
  "F16_div val1 val2 = (if val2 = 0 then None else Some (divs (push_bit FIX16_FRAC_BITS (scast val1)) val2))"

definition F16_avg :: "fix16 \<Rightarrow> fix16 \<Rightarrow> fix16" where
  "F16_avg val1 val2 = ucast (signed_drop_bit 1 (scast val1 + scast val2 :: s32))"

definition F16_normalizeAngle :: "fix16 \<Rightarrow> fix16" where
  "F16_normalizeAngle angle =
    (if sint angle \<ge> 0 \<and> sint angle < sint (FIX16 360) then angle
     else
       (let result = word_of_int (sint angle smod sint (FIX16 360)) :: s16
        in if sint result < 0 then result + FIX16 360 else result))"

definition trigtab_f16 :: "fix16 list" where
  "trigtab_f16 = [
    0, 1, 2, 3, 4, 5, 6, 7, 8, 10, 11, 12, 13, 14, 15, 16, 17, 18, 19, 20, 21, 22, 23, 25, 26, 27, 28, 29, 30,
    31, 32, 32, 33, 34, 35, 36, 37, 38, 39, 40, 41, 41, 42, 43, 44, 45, 46, 46, 47, 48, 49, 49, 50, 51, 51, 52,
    53, 53, 54, 54, 55, 55, 56, 57, 57, 58, 58, 58, 59, 59, 60, 60, 60, 61, 61, 61, 62, 62, 62, 62, 63, 63, 63,
    63, 63, 63, 63, 63, 63, 63, 64]"

definition tab_get :: "'v list \<Rightarrow> int \<Rightarrow> 'v option" where
  "tab_get xs i = (if 0 \<le> i \<and> i < int (length xs) then Some (xs ! nat i) else None)"

definition F16_sin :: "fix16 \<Rightarrow> fix16 option" where
  "F16_sin angle =
    (let a = sint (F16_normalizeAngle angle) in
     if a \<le> sint (FIX16 90) then tab_get trigtab_f16 (drop_bit FIX16_FRAC_BITS a)
     else if a \<le> sint (FIX16 180) then tab_get trigtab_f16 (drop_bit FIX16_FRAC_BITS (sint (FIX16 180) - a))
     else if a \<le> sint (FIX16 270) then map_option uminus (tab_get trigtab_f16 (drop_bit FIX16_FRAC_BITS (a - sint (FIX16 180))))
     else map_option uminus (tab_get trigtab_f16 (drop_bit FIX16_FRAC_BITS (sint (FIX16 360) - a))))"

definition F16_cos :: "fix16 \<Rightarrow> fix16 option" where
  "F16_cos angle = F16_sin (angle + FIX16 90)"

definition F16_tan :: "fix16 \<Rightarrow> fix16 option" where
  "F16_tan angle = Option.bind (F16_sin angle) (\<lambda>s. Option.bind (F16_cos angle) (\<lambda>c. F16_div s c))"

text \<open>\<open>FIX16(57.29577951308232)\<close>\<close>

definition F16_RAD_TO_DEG :: fix16 where [cfg]: "F16_RAD_TO_DEG = 3666"

definition F16_degreeToRadian :: "fix16 \<Rightarrow> fix16 option" where
  "F16_degreeToRadian degree = F16_div degree F16_RAD_TO_DEG"

definition F16_radianToDegree :: "fix16 \<Rightarrow> fix16" where
  "F16_radianToDegree radian = F16_mul radian F16_RAD_TO_DEG"

definition F16_atan :: "fix16 \<Rightarrow> fix16" where
  "F16_atan x =
    (let a1 = 63; a3 = - 21; a5 = 12; a7 = - 9;
         x2 = F16_mul x x;
         x3 = F16_mul x2 x;
         x5 = F16_mul x3 x2;
         x7 = F16_mul x5 x2;
         result = F16_mul a1 x + F16_mul a3 x3 + F16_mul a5 x5 + F16_mul a7 x7
     in F16_radianToDegree result)"

definition F16_atan2 :: "fix16 \<Rightarrow> fix16 \<Rightarrow> fix16 option" where
  "F16_atan2 y x =
    (if x = 0 \<and> y = 0 then Some 0
     else
       map_option (\<lambda>angle. if sint angle < 0 then angle + FIX16 360
           else if sint angle \<ge> sint (FIX16 360) then angle - FIX16 360 else angle)
         (if sint (F16_abs x) \<ge> sint (F16_abs y) then
            map_option (\<lambda>q. let angle = F16_atan q in
                if sint x < 0 then (if sint y \<ge> 0 then angle + FIX16 180 else angle - FIX16 180) else angle)
              (F16_div y x)
          else
            map_option (\<lambda>q. let angle = F16_atan q in
                if sint y > 0 then FIX16 90 - angle else FIX16 (- 90) - angle)
              (F16_div x y)))"

definition F16_getAngle :: "fix16 \<Rightarrow> fix16 \<Rightarrow> fix16 \<Rightarrow> fix16 \<Rightarrow> fix16 option" where
  "F16_getAngle x1 y1 x2 y2 =
    (let dx = x2 - x1; dy = y2 - y1 in
     if dx = 0 then Some (if sint dy > 0 then FIX16 90 else FIX16 270)
     else if dy = 0 then Some (if sint dx > 0 then 0 else FIX16 180)
     else if F16_abs dx = F16_abs dy then
       Some (if sint dx > 0 then (if sint dy > 0 then FIX16 45 else FIX16 315)
             else (if sint dy > 0 then FIX16 135 else FIX16 225))
     else F16_atan2 dy dx)"

definition computePositionEx_f16 ::
  "fix16 \<Rightarrow> fix16 \<Rightarrow> fix16 \<Rightarrow> fix16 \<Rightarrow> fix16 \<Rightarrow> fix16 \<Rightarrow> bool \<Rightarrow> (fix16 \<times> fix16) option" where
  "computePositionEx_f16 x1 y1 ang dist cosMul sinMul useMul =
    Option.bind (F16_cos ang) (\<lambda>cosVal. Option.bind (F16_sin ang) (\<lambda>sinVal.
      let (cosVal, sinVal) = (if useMul then (F16_mul cosVal cosMul, F16_mul sinVal sinMul) else (cosVal, sinVal));
          moveX = F16_mul dist cosVal;
          moveY = F16_mul dist sinVal
      in Some (x1 + moveX, y1 + moveY)))"

definition F16_computePosition :: "fix16 \<Rightarrow> fix16 \<Rightarrow> fix16 \<Rightarrow> fix16 \<Rightarrow> (fix16 \<times> fix16) option" where
  "F16_computePosition x1 y1 ang dist = computePositionEx_f16 x1 y1 ang dist (FIX16 1) (FIX16 1) False"

definition F16_computePositionEx ::
  "fix16 \<Rightarrow> fix16 \<Rightarrow> fix16 \<Rightarrow> fix16 \<Rightarrow> fix16 \<Rightarrow> fix16 \<Rightarrow> (fix16 \<times> fix16) option" where
  "F16_computePositionEx x1 y1 ang dist cosMul sinMul = computePositionEx_f16 x1 y1 ang dist cosMul sinMul True"

definition sinFix16 :: "u16 \<Rightarrow> fix16 option" where
  "sinFix16 value = F16_sin (FIX16 (uint (drop_bit 10 (mulu (value AND 1023) 360))))"

definition cosFix16 :: "u16 \<Rightarrow> fix16 option" where
  "cosFix16 value = F16_cos (FIX16 (uint (drop_bit 10 (mulu (value AND 1023) 360))))"

section \<open>fix32\<close>

definition F32_fromInt :: "s32 \<Rightarrow> fix32" where
  "F32_fromInt value = push_bit FIX32_FRAC_BITS value"

definition F32_toInt :: "fix32 \<Rightarrow> s32" where
  "F32_toInt value = signed_drop_bit FIX32_FRAC_BITS value"

definition F32_toFix16 :: "fix32 \<Rightarrow> fix16" where
  "F32_toFix16 value = ucast (signed_drop_bit (FIX32_FRAC_BITS - FIX16_FRAC_BITS) value)"

definition F32_toFastFix16 :: "fix32 \<Rightarrow> fastfix16" where
  "F32_toFastFix16 value = ucast (signed_drop_bit (FIX32_FRAC_BITS - FASTFIX16_FRAC_BITS) value)"

definition F32_toFastFix32 :: "fix32 \<Rightarrow> fastfix32" where
  "F32_toFastFix32 value = push_bit (FASTFIX32_FRAC_BITS - FIX32_FRAC_BITS) value"

definition F32_frac :: "fix32 \<Rightarrow> fix32" where
  "F32_frac value = value AND mask FIX32_FRAC_BITS"

definition F32_int :: "fix32 \<Rightarrow> fix32" where
  "F32_int value = value AND push_bit FIX32_FRAC_BITS (mask 22)"

definition F32_round :: "fix32 \<Rightarrow> fix32" where
  "F32_round value = F32_int (value + (512 - 1))"

definition F32_toRoundedInt :: "fix32 \<Rightarrow> s32" where
  "F32_toRoundedInt value = F32_toInt (value + (512 - 1))"

definition F32_mul :: "fix32 \<Rightarrow> fix32 \<Rightarrow> fix32" where
  "F32_mul val1 val2 =
    (let v1 = signed_drop_bit (FIX32_FRAC_BITS div 2) val1;
         v2 = signed_drop_bit (FIX32_FRAC_BITS div 2) val2
     in v1 * v2)"

text \<open>The quotient of two 32-bit words, truncated towards zero.\<close>

definition div32 :: "s32 \<Rightarrow> s32 \<Rightarrow> s32 option" where
  "div32 a b = (if b = 0 then None else Some (word_of_int (sint a sdiv sint b)))"

definition F32_div :: "fix32 \<Rightarrow> fix32 \<Rightarrow> fix32 option" where
  "F32_div val1 val2 =
    (let v1 = push_bit (FIX32_FRAC_BITS div 2) val1;
         v2 = signed_drop_bit (FIX32_FRAC_BITS div 2) val2
     in div32 v1 v2)"

definition F32_avg :: "fix32 \<Rightarrow> fix32 \<Rightarrow> fix32" where
  "F32_avg val1 val2 = signed_drop_bit 1 (val1 + val2)"

definition trigtab_f32 :: "fix32 list" where
  "trigtab_f32 = [
    0, 4, 8, 13, 17, 22, 26, 31, 35, 40, 44, 49, 53, 57, 62, 66, 71, 75, 80, 84, 89, 93, 98, 102, 107, 111, 115,
    120, 124, 129, 133, 138, 142, 146, 151, 155, 160, 164, 168, 173, 177, 182, 186, 190, 195, 199, 204, 208, 212,
    217, 221, 225, 230, 234, 239, 243, 247, 252, 256, 260, 265, 269, 273, 277, 282, 286, 290, 295, 299, 303, 307,
    312, 316, 320, 324, 329, 333, 337, 341, 346, 350, 354, 358, 362, 366, 371, 375, 379, 383, 387, 391, 395, 400,
    404, 408, 412, 416, 420, 424, 428, 432, 436, 440, 444, 448, 452, 456, 460, 464, 468, 472, 476, 480, 484, 488,
    492, 496, 500, 504, 508, 511, 515, 519, 523, 527, 531, 534, 538, 542, 546, 550, 553, 557, 561, 565, 568, 572,
    576, 579, 583, 587, 590, 594, 598, 601, 605, 609, 612, 616, 619, 623, 626, 630, 633, 637, 640, 644, 647, 651,
    654, 658, 661, 664, 668, 671, 675, 678, 681, 685, 688, 691, 695, 698, 701, 704, 708, 711, 714, 717, 720, 724,
    727, 730, 733, 736, 739, 742, 745, 748, 751, 754, 757, 760, 763, 766, 769, 772, 775, 778, 781, 784, 787, 790,
    792, 795, 798, 801, 804, 806, 809, 812, 815, 817, 820, 823, 825, 828, 830, 833, 836, 838, 841, 843, 846, 848,
    851, 853, 856, 858, 861, 863, 865, 868, 870, 873, 875, 877, 880, 882, 884, 886, 888, 891, 893, 895, 897, 899,
    901, 904, 906, 908, 910, 912, 914, 916, 918, 920, 922, 924, 926, 928, 929, 931, 933, 935, 937, 939, 940, 942,
    944, 945, 947, 949, 951, 952, 954, 955, 957, 959, 960, 962, 963, 965, 966, 968, 969, 971, 972, 973, 975, 976,
    977, 979, 980, 981, 983, 984, 985, 986, 987, 989, 990, 991, 992, 993, 994, 995, 996, 997, 998, 999, 1000, 1001,
    1002, 1003, 1004, 1005, 1005, 1006, 1007, 1008, 1009, 1009, 1010, 1011, 1012, 1012, 1013, 1013, 1014, 1015,
    1015, 1016, 1016, 1017, 1017, 1018, 1018, 1019, 1019, 1020, 1020, 1020, 1021, 1021, 1021, 1022, 1022, 1022,
    1022, 1022, 1023, 1023, 1023, 1023, 1023, 1023, 1023, 1023, 1023, 1024]"

definition F32_sin :: "fix16 \<Rightarrow> fix32 option" where
  "F32_sin angle =
    (let a = sint (F16_normalizeAngle angle) in
     if a \<le> sint (FIX16 90) then tab_get trigtab_f32 (drop_bit (FIX16_FRAC_BITS - 2) a)
     else if a \<le> sint (FIX16 180) then tab_get trigtab_f32 (drop_bit (FIX16_FRAC_BITS - 2) (sint (FIX16 180) - a))
     else if a \<le> sint (FIX16 270) then map_option uminus (tab_get trigtab_f32 (drop_bit (FIX16_FRAC_BITS - 2) (a - sint (FIX16 180))))
     else map_option uminus (tab_get trigtab_f32 (drop_bit (FIX16_FRAC_BITS - 2) (sint (FIX16 360) - a))))"

definition F32_cos :: "fix16 \<Rightarrow> fix32 option" where
  "F32_cos angle = F32_sin (angle + FIX16 90)"

definition sinFix32 :: "u16 \<Rightarrow> fix32 option" where
  "sinFix32 value = F32_sin (FIX16 (uint (divu (mulu (value AND 1023) 360) 1024)))"

definition cosFix32 :: "u16 \<Rightarrow> fix32 option" where
  "cosFix32 value = F32_cos (FIX16 (uint (divu (mulu (value AND 1023) 360) 1024)))"

section \<open>fastfix16\<close>

definition FF16_fromInt :: "s16 \<Rightarrow> fastfix16" where
  "FF16_fromInt value = push_bit FASTFIX16_FRAC_BITS value"

definition FF16_toInt :: "fastfix16 \<Rightarrow> s16" where
  "FF16_toInt value = signed_drop_bit FASTFIX16_FRAC_BITS value"

definition FF16_toFix16 :: "fastfix16 \<Rightarrow> fix16" where
  "FF16_toFix16 value = signed_drop_bit (FASTFIX16_FRAC_BITS - FIX16_FRAC_BITS) value"

definition FF16_toFix32 :: "fastfix16 \<Rightarrow> fix32" where
  "FF16_toFix32 value = push_bit (FIX32_FRAC_BITS - FASTFIX16_FRAC_BITS) (scast value)"

definition FF16_toFastFix32 :: "fastfix16 \<Rightarrow> fastfix32" where
  "FF16_toFastFix32 value = push_bit (FASTFIX32_FRAC_BITS - FASTFIX16_FRAC_BITS) (scast value)"

definition FF16_frac :: "fastfix16 \<Rightarrow> fastfix16" where
  "FF16_frac value = value AND mask FASTFIX16_FRAC_BITS"

definition FF16_int :: "fastfix16 \<Rightarrow> fastfix16" where
  "FF16_int value = value AND push_bit FASTFIX16_FRAC_BITS (mask 8)"

definition FF16_round :: "fastfix16 \<Rightarrow> fastfix16" where
  "FF16_round value = FF16_int (value + (128 - 1))"

definition FF16_toRoundedInt :: "fastfix16 \<Rightarrow> s16" where
  "FF16_toRoundedInt value = FF16_toInt (value + (128 - 1))"

definition FF16_mul :: "fastfix16 \<Rightarrow> fastfix16 \<Rightarrow> fastfix16" where
  "FF16_mul val1 val2 = ucast (signed_drop_bit FASTFIX16_FRAC_BITS (muls val1 val2))"

definition FF16_div :: "fastfix16 \<Rightarrow> fastfix16 \<Rightarrow> fastfix16 option" where
  "FF16_div val1 val2 = (if val2 = 0 then None else Some (divs (push_bit FASTFIX16_FRAC_BITS (scast val1)) val2))"

section \<open>fastfix32\<close>

definition FF32_fromInt :: "s16 \<Rightarrow> fastfix32" where
  "FF32_fromInt value = push_bit FASTFIX32_FRAC_BITS (scast value)"

definition FF32_toInt :: "fastfix32 \<Rightarrow> s16" where
  "FF32_toInt value = ucast (signed_drop_bit FASTFIX32_FRAC_BITS value)"

definition FF32_toFix16 :: "fastfix32 \<Rightarrow> fix16" where
  "FF32_toFix16 value = ucast (signed_drop_bit (FASTFIX32_FRAC_BITS - FIX16_FRAC_BITS) value)"

definition FF32_toFix32 :: "fastfix32 \<Rightarrow> fix32" where
  "FF32_toFix32 value = signed_drop_bit (FASTFIX32_FRAC_BITS - FIX32_FRAC_BITS) value"

definition FF32_toFastFix16 :: "fastfix32 \<Rightarrow> fastfix16" where
  "FF32_toFastFix16 value = ucast (signed_drop_bit (FASTFIX32_FRAC_BITS - FASTFIX16_FRAC_BITS) value)"

definition FF32_frac :: "fastfix32 \<Rightarrow> fastfix32" where
  "FF32_frac value = value AND mask FASTFIX32_FRAC_BITS"

definition FF32_int :: "fastfix32 \<Rightarrow> fastfix32" where
  "FF32_int value = value AND push_bit FASTFIX32_FRAC_BITS (mask 16)"

definition FF32_round :: "fastfix32 \<Rightarrow> fastfix32" where
  "FF32_round value = FF32_int (value + (0x8000 - 1))"

definition FF32_toRoundedInt :: "fastfix32 \<Rightarrow> s32" where
  "FF32_toRoundedInt value = scast (FF32_toInt (value + (0x8000 - 1)))"

definition FF32_mul :: "fastfix32 \<Rightarrow> fastfix32 \<Rightarrow> fastfix32" where
  "FF32_mul val1 val2 =
    (let v1 = signed_drop_bit (FASTFIX32_FRAC_BITS div 2) val1;
         v2 = signed_drop_bit (FASTFIX32_FRAC_BITS div 2) val2
     in v1 * v2)"

definition FF32_div :: "fastfix32 \<Rightarrow> fastfix32 \<Rightarrow> fastfix32 option" where
  "FF32_div val1 val2 =
    (let v1 = push_bit (FASTFIX32_FRAC_BITS div 2) val1;
         v2 = signed_drop_bit (FASTFIX32_FRAC_BITS div 2) val2
     in div32 v1 v2)"

text \<open>\<open>if (x < limit) { x <<= sft; y -= dec; }\<close> and \<open>t = x + (x >> sft); if (t >= 0) { x = t; y -= dec; }\<close>\<close>

definition log2_up :: "s32 \<Rightarrow> nat \<Rightarrow> s32 \<Rightarrow> s32 \<times> s32 \<Rightarrow> s32 \<times> s32" where
  "log2_up limit sft dec xy =
    (case xy of (x, y) \<Rightarrow> if sint x < sint limit then (push_bit sft x, y - dec) else (x, y))"

definition log2_fine :: "nat \<Rightarrow> s32 \<Rightarrow> s32 \<times> s32 \<Rightarrow> s32 \<times> s32" where
  "log2_fine sft dec xy =
    (case xy of (x, y) \<Rightarrow> let t = x + signed_drop_bit sft x in if sint t \<ge> 0 then (t, y - dec) else (x, y))"

definition FF32_getLog2Fast :: "fastfix32 \<Rightarrow> fastfix32" where
  "FF32_getLog2Fast value =
    (let xy = (value, 0xa65af);
         xy = log2_up 0x00008000 16 0xb1721 xy;
         xy = log2_up 0x00800000 8 0x58b91 xy;
         xy = log2_up 0x08000000 4 0x2c5c8 xy;
         xy = log2_up 0x20000000 2 0x162e4 xy;
         xy = log2_up 0x40000000 1 0x0b172 xy;
         xy = log2_fine 1 0x067cd xy;
         xy = log2_fine 2 0x03920 xy;
         xy = log2_fine 3 0x01e27 xy;
         xy = log2_fine 4 0x00f85 xy;
         xy = log2_fine 5 0x007e1 xy;
         xy = log2_fine 6 0x003f8 xy;
         (x, y) = log2_fine 7 0x001fe xy;
         x = 0x80000000 - x
     in y - signed_drop_bit 15 x)"

section \<open>Vectors\<close>

record V2f16 =
  v_x :: fix16
  v_y :: fix16

definition V2D_F16_getAngle :: "V2f16 \<Rightarrow> V2f16 \<Rightarrow> fix16 option" where
  "V2D_F16_getAngle pt1 pt2 = F16_getAngle (v_x pt1) (v_y pt1) (v_x pt2) (v_y pt2)"

definition V2D_F16_computePosition :: "V2f16 \<Rightarrow> fix16 \<Rightarrow> fix16 \<Rightarrow> V2f16 option" where
  "V2D_F16_computePosition pt ang dist =
    map_option (\<lambda>(x, y). pt\<lparr>v_x := x, v_y := y\<rparr>)
      (computePositionEx_f16 (v_x pt) (v_y pt) ang dist (FIX16 1) (FIX16 1) False)"

definition V2D_F16_computePositionEx :: "V2f16 \<Rightarrow> fix16 \<Rightarrow> fix16 \<Rightarrow> fix16 \<Rightarrow> fix16 \<Rightarrow> V2f16 option" where
  "V2D_F16_computePositionEx pt ang dist cosAdj sinAdj =
    map_option (\<lambda>(x, y). pt\<lparr>v_x := x, v_y := y\<rparr>)
      (computePositionEx_f16 (v_x pt) (v_y pt) ang dist cosAdj sinAdj True)"

record V2s32 =
  l_x :: s32
  l_y :: s32

definition V2D_S32_getApproximatedDistance :: "V2s32 \<Rightarrow> u32" where
  "V2D_S32_getApproximatedDistance v = getApproximatedDistance (l_x v) (l_y v)"

section \<open>Angles\<close>

lemma sint_FIX16: "- 512 \<le> n \<Longrightarrow> n < 512 \<Longrightarrow> sint (FIX16 n) = 64 * n"
  unfolding FIX16_def using sint_of_int_16 [of "n * 64"] by (simp add: cfg)

lemma F16_normalizeAngle_ok:
  "0 \<le> sint (F16_normalizeAngle a)" "sint (F16_normalizeAngle a) < 23040"
  "sint (F16_normalizeAngle a) mod 23040 = sint a mod 23040"
proof -
  define r where "r = sint a smod 23040"
  have b: "- 32768 \<le> sint a" "sint a < 32768" using sint_range_size [of a] by (simp_all add: word_size)
  have r: "- 23040 < r" "r < 23040" "r mod 23040 = sint a mod 23040"
    using b mod_minus_eq [of "- sint a" 23040] unfolding r_def signed_modulo_int_def
    by (auto simp: signed_divide_int_def sgn_if abs_if minus_mult_div_eq_mod)
  have s: "sint (word_of_int r :: s16) = r" using r by (intro sint_of_int_16) simp_all
  have p: "sint (word_of_int r + FIX16 360) = r + 23040" if "r < 0"
  proof -
    have "word_of_int r + FIX16 360 = (word_of_int (r + 23040) :: s16)" by (simp add: FIX16_def cfg)
    then show ?thesis using sint_of_int_16 [of "r + 23040"] r(1) that by simp
  qed
  have w: "r mod 23040 = r + 23040" if "r < 0"
    using mod_add_self2 [of r 23040] mod_pos_pos_trivial [of "r + 23040" 23040] r(1) that by linarith
  have e: "sint (F16_normalizeAngle a) = (if 0 \<le> sint a \<and> sint a < 23040 then sint a else if r < 0 then r + 23040 else r)"
    unfolding F16_normalizeAngle_def Let_def by (simp add: sint_FIX16 r_def [symmetric] s p)
  show "0 \<le> sint (F16_normalizeAngle a)" "sint (F16_normalizeAngle a) < 23040"
    "sint (F16_normalizeAngle a) mod 23040 = sint a mod 23040"
    using r w unfolding e by auto
qed

lemma tab_get_ok: "0 \<le> i \<Longrightarrow> i < int (length xs) \<Longrightarrow> list_all P xs \<Longrightarrow> \<exists>v. tab_get xs i = Some v \<and> P v"
  by (auto simp: tab_get_def list_all_length)

lemma trigtab_f16_ok: "length trigtab_f16 = 91" "list_all (\<lambda>v. 0 \<le> sint v \<and> sint v \<le> 64) trigtab_f16"
  by (simp_all add: trigtab_f16_def)

lemma trigtab_f32_ok: "length trigtab_f32 = 361" "list_all (\<lambda>v. 0 \<le> sint v \<and> sint v \<le> 1024) trigtab_f32"
  by (simp_all add: trigtab_f32_def)

lemma sin_index:
  fixes a :: int
  assumes "0 \<le> a" "a < 23040" "d \<in> {4, 6}"
  shows "a \<le> 5760 \<Longrightarrow> drop_bit d a \<le> 5760 div 2 ^ d"
    "5760 < a \<Longrightarrow> a \<le> 11520 \<Longrightarrow> 0 \<le> drop_bit d (11520 - a) \<and> drop_bit d (11520 - a) \<le> 5760 div 2 ^ d"
    "11520 < a \<Longrightarrow> a \<le> 17280 \<Longrightarrow> 0 \<le> drop_bit d (a - 11520) \<and> drop_bit d (a - 11520) \<le> 5760 div 2 ^ d"
    "17280 < a \<Longrightarrow> 0 \<le> drop_bit d (23040 - a) \<and> drop_bit d (23040 - a) \<le> 5760 div 2 ^ d"
  using assms by (auto simp: drop_bit_eq_div intro!: zdiv_mono1)

lemma sint_minus_16:
  fixes v :: s16
  assumes "- 32768 < sint v"
  shows "sint (- v) = - sint v"
proof -
  have "sint v < 32768" using sint_range_size [of v] by (simp add: word_size)
  then have "sint (word_of_int (- sint v) :: s16) = - sint v" using assms by (intro sint_of_int_16) simp_all
  then show ?thesis by simp
qed

lemma sint_minus_32:
  fixes v :: s32
  assumes "- 2147483648 < sint v"
  shows "sint (- v) = - sint v"
proof -
  have "sint v < 2147483648" using sint_range_size [of v] by (simp add: word_size)
  then have "sint (word_of_int (- sint v) :: s32) = - sint v" using assms by (intro sint_of_int_32) simp_all
  then show ?thesis by simp
qed

lemma F16_sin_ok: "\<exists>v. F16_sin a = Some v \<and> \<bar>sint v\<bar> \<le> 64"
proof -
  define n where "n = sint (F16_normalizeAngle a)"
  have n: "0 \<le> n" "n < 23040" unfolding n_def by (rule F16_normalizeAngle_ok)+
  note i = sin_index [OF n, of 6]
  have get: "\<exists>v. tab_get trigtab_f16 k = Some v \<and> 0 \<le> sint v \<and> sint v \<le> 64" if "0 \<le> k" "k \<le> 90" for k
    using tab_get_ok [of k trigtab_f16 "\<lambda>v. 0 \<le> sint v \<and> sint v \<le> 64"] that trigtab_f16_ok by simp
  have e: "F16_sin a = (if n \<le> 5760 then tab_get trigtab_f16 (drop_bit 6 n)
     else if n \<le> 11520 then tab_get trigtab_f16 (drop_bit 6 (11520 - n))
     else if n \<le> 17280 then map_option uminus (tab_get trigtab_f16 (drop_bit 6 (n - 11520)))
     else map_option uminus (tab_get trigtab_f16 (drop_bit 6 (23040 - n))))"
    unfolding F16_sin_def Let_def n_def by (simp add: sint_FIX16 cfg)
  consider "n \<le> 5760" | "5760 < n" "n \<le> 11520" | "11520 < n" "n \<le> 17280" | "17280 < n" by linarith
  then show ?thesis
  proof cases
    case 1
    then show ?thesis unfolding e using get [of "drop_bit 6 n"] i(1) n(1) by auto
  next
    case 2
    then show ?thesis unfolding e using get [of "drop_bit 6 (11520 - n)"] i(2) by auto
  next
    case 3
    then show ?thesis unfolding e using get [of "drop_bit 6 (n - 11520)"] i(3) by (auto simp: sint_minus_16)
  next
    case 4
    then show ?thesis unfolding e using get [of "drop_bit 6 (23040 - n)"] i(4) by (auto simp: sint_minus_16)
  qed
qed

lemma F32_sin_ok: "\<exists>v. F32_sin a = Some v \<and> \<bar>sint v\<bar> \<le> 1024"
proof -
  define n where "n = sint (F16_normalizeAngle a)"
  have n: "0 \<le> n" "n < 23040" unfolding n_def by (rule F16_normalizeAngle_ok)+
  note i = sin_index [OF n, of 4]
  have get: "\<exists>v. tab_get trigtab_f32 k = Some v \<and> 0 \<le> sint v \<and> sint v \<le> 1024" if "0 \<le> k" "k \<le> 360" for k
    using tab_get_ok [of k trigtab_f32 "\<lambda>v. 0 \<le> sint v \<and> sint v \<le> 1024"] that trigtab_f32_ok by simp
  have e: "F32_sin a = (if n \<le> 5760 then tab_get trigtab_f32 (drop_bit 4 n)
     else if n \<le> 11520 then tab_get trigtab_f32 (drop_bit 4 (11520 - n))
     else if n \<le> 17280 then map_option uminus (tab_get trigtab_f32 (drop_bit 4 (n - 11520)))
     else map_option uminus (tab_get trigtab_f32 (drop_bit 4 (23040 - n))))"
    unfolding F32_sin_def Let_def n_def by (simp add: sint_FIX16 cfg)
  consider "n \<le> 5760" | "5760 < n" "n \<le> 11520" | "11520 < n" "n \<le> 17280" | "17280 < n" by linarith
  then show ?thesis
  proof cases
    case 1
    then show ?thesis unfolding e using get [of "drop_bit 4 n"] i(1) n(1) by auto
  next
    case 2
    then show ?thesis unfolding e using get [of "drop_bit 4 (11520 - n)"] i(2) by auto
  next
    case 3
    then show ?thesis unfolding e using get [of "drop_bit 4 (n - 11520)"] i(3) by (auto simp: sint_minus_32)
  next
    case 4
    then show ?thesis unfolding e using get [of "drop_bit 4 (23040 - n)"] i(4) by (auto simp: sint_minus_32)
  qed
qed

text \<open>
  C23 For every angle the normalized angle is the equivalent one in [0, 360), and the sines and
  cosines are read inside the quarter wave tables and are between -1 and 1.
\<close>

theorem trig_total:
  "0 \<le> sint (F16_normalizeAngle a) \<and> sint (F16_normalizeAngle a) < 360 * 64 \<and>
   sint (F16_normalizeAngle a) mod (360 * 64) = sint a mod (360 * 64) \<and>
   (\<exists>v. F16_sin a = Some v \<and> \<bar>sint v\<bar> \<le> 64) \<and> (\<exists>v. F16_cos a = Some v \<and> \<bar>sint v\<bar> \<le> 64) \<and>
   (\<exists>v. F32_sin a = Some v \<and> \<bar>sint v\<bar> \<le> 1024) \<and> (\<exists>v. F32_cos a = Some v \<and> \<bar>sint v\<bar> \<le> 1024)"
  using F16_normalizeAngle_ok [of a] F16_sin_ok F32_sin_ok unfolding F16_cos_def F32_cos_def by simp

text \<open>
  \<open>F16_atan2\<close> divides by zero, an exception of the processor, exactly for the vectors (0, -512)
  and (-512, 0): the absolute value of -512 does not fit and stays negative. \<open>F16_getAngle\<close> treats
  the axes before and never does.
\<close>

theorem F16_atan2_traps:
  "(F16_atan2 y x = None \<longleftrightarrow> (x = 0 \<and> y = - 32768) \<or> (y = 0 \<and> x = - 32768)) \<and>
   F16_getAngle x1 y1 x2 y2 \<noteq> None"
proof -
  have z: "sint (F16_abs 0) = 0" by (simp add: F16_abs_def)
  have m: "sint (- 32768 :: s16) = - 32768" using sint_of_int_16 [of "- 32768"] by simp
  have pos: "sint (F16_abs w) > 0 \<longleftrightarrow> w \<noteq> 0 \<and> w \<noteq> - 32768" for w
  proof (cases "w = - 32768")
    case True
    then show ?thesis by (simp add: F16_abs_def m)
  next
    case False
    then have "sint w \<noteq> - 32768" using m by (metis signed_word_eqI)
    moreover have "- 32768 \<le> sint w" using sint_range_size [of w] by (simp add: word_size)
    ultimately have "- 32768 < sint w" by linarith
    moreover have "sint w = 0 \<longleftrightarrow> w = 0" by (metis sint_0 signed_word_eqI)
    ultimately show ?thesis using False by (auto simp: F16_abs_def sint_minus_16)
  qed
  have an: "F16_atan2 y x = None \<longleftrightarrow> (x = 0 \<and> y = - 32768) \<or> (y = 0 \<and> x = - 32768)" for x y
  proof -
    have none: "F16_div p q = None \<longleftrightarrow> q = 0" for p q by (simp add: F16_div_def)
    have "F16_atan2 y x = None \<longleftrightarrow> \<not> (x = 0 \<and> y = 0) \<and>
        (if sint (F16_abs x) \<ge> sint (F16_abs y) then x = 0 else y = 0)"
      unfolding F16_atan2_def by (simp add: none)
    moreover have "sint (F16_abs (- 32768)) = - 32768" by (simp add: F16_abs_def m)
    ultimately show ?thesis using pos [of x] pos [of y] z by (cases "x = 0"; cases "y = 0") auto
  qed
  have at: "F16_atan2 dy dx \<noteq> None" if "dx \<noteq> 0" "dy \<noteq> 0" for dx dy using an [of dy dx] that by blast
  have "(if p then Some a else if q then Some b else if r then Some c else X) \<noteq> None"
    if "\<not> p \<Longrightarrow> \<not> q \<Longrightarrow> X \<noteq> None" for p q r and a b c :: fix16 and X using that by simp
  note if_some = this
  have "F16_getAngle x1 y1 x2 y2 \<noteq> None" unfolding F16_getAngle_def Let_def by (rule if_some) (rule at)
  with an [of y x] show ?thesis by (rule conjI)
qed

section \<open>Powers of two\<close>

text \<open>\<open>result |= result >> k\<close> doubles the reach of every bit.\<close>

definition reach :: "nat \<Rightarrow> u32 \<Rightarrow> u32 \<Rightarrow> bool" where
  "reach k x r \<longleftrightarrow> (\<forall>n. bit r n \<longleftrightarrow> (\<exists>i < k. bit x (n + i)))"

lemma reach_double: "reach k x r \<Longrightarrow> k2 = k + k \<Longrightarrow> reach k2 x (r OR drop_bit k r)"
proof -
  assume r: "reach k x r" and k2: "k2 = k + k"
  have "bit (r OR drop_bit k r) n \<longleftrightarrow> (\<exists>i < k + k. bit x (n + i))" for n
  proof -
    have "bit (r OR drop_bit k r) n \<longleftrightarrow> (\<exists>i < k. bit x (n + i)) \<or> (\<exists>i < k. bit x (k + n + i))"
      using r by (simp add: reach_def bit_or_iff bit_drop_bit_eq)
    also have "(\<exists>i < k. bit x (k + n + i)) \<longleftrightarrow> (\<exists>i. k \<le> i \<and> i < k + k \<and> bit x (n + i))"
    proof
      assume "\<exists>i < k. bit x (k + n + i)"
      then obtain i where "i < k" "bit x (k + n + i)" by blast
      then show "\<exists>i. k \<le> i \<and> i < k + k \<and> bit x (n + i)" by (intro exI [of _ "k + i"]) (simp add: ac_simps)
    next
      assume "\<exists>i. k \<le> i \<and> i < k + k \<and> bit x (n + i)"
      then obtain i where "k \<le> i" "i < k + k" "bit x (n + i)" by blast
      then show "\<exists>i < k. bit x (k + n + i)" by (intro exI [of _ "i - k"]) (simp add: ac_simps)
    qed
    finally show ?thesis by (metis trans_less_add1 not_le)
  qed
  then show ?thesis by (simp add: reach_def k2)
qed

lemma getNextPow2_reach: "\<exists>r. getNextPow2 value = r + 1 \<and> reach 32 (value - 1) r"
proof -
  define x where "x = value - 1"
  have r1: "reach 1 x x" by (simp add: reach_def)
  note r2 = reach_double [OF r1, of 2]
  note r4 = reach_double [OF r2, of 4]
  note r8 = reach_double [OF r4, of 8]
  note r16 = reach_double [OF r8, of 16]
  note r32 = reach_double [OF r16, of 32]
  show ?thesis
    unfolding getNextPow2_def Let_def x_def [symmetric] by (rule exI, rule conjI, rule refl, rule r32) simp_all
qed

lemma bit_u32_iff: "bit (x :: u32) n \<longleftrightarrow> odd (unat x div 2 ^ n)"
  by (simp add: bit_unat_word bit_iff_odd)

lemma reach_mask:
  assumes "reach 32 x r" "2 ^ k \<le> unat x" "unat x < 2 ^ Suc k"
  shows "r = mask (Suc k)"
proof (rule bit_word_eqI)
  fix n assume "n < LENGTH(32)"
  then have n: "n < 32" by simp
  have top: "bit x k" "\<And>m. k < m \<Longrightarrow> \<not> bit x m"
  proof -
    have "unat x div 2 ^ k = 1" using assms(2,3) by (intro div_nat_eqI) simp_all
    then show "bit x k" by (simp add: bit_u32_iff)
    fix m assume "k < m"
    then have "unat x < 2 ^ m" using assms(3) power_increasing [of "Suc k" m "2 :: nat"] by linarith
    then show "\<not> bit x m" by (simp add: bit_u32_iff)
  qed
  have "k < 32" using top(1) bit_imp_le_length [of x k] by simp
  have "bit r n \<longleftrightarrow> (\<exists>i < 32. bit x (n + i))" using assms(1) by (simp add: reach_def)
  also have "\<dots> \<longleftrightarrow> n \<le> k"
  proof
    assume "\<exists>i < 32. bit x (n + i)"
    then show "n \<le> k" using top(2) by (metis le_add1 le_trans not_le)
  next
    assume "n \<le> k"
    then show "\<exists>i < 32. bit x (n + i)" using top(1) \<open>k < 32\<close> by (intro exI [of _ "k - n"]) simp
  qed
  finally show "bit r n \<longleftrightarrow> bit (mask (Suc k) :: u32) n" using n by (simp add: bit_mask_iff less_Suc_eq_le)
qed

lemma ex_log2: "0 < n \<Longrightarrow> \<exists>k. 2 ^ k \<le> n \<and> n < 2 ^ Suc k" for n :: nat
  using ex_power_ivl1 [of 2 n] by auto

text \<open>
  \<open>getNextPow2\<close> returns the smallest power of two that is not below its argument, up to 2^31; for 0
  and above 2^31 it returns 0.
\<close>

theorem getNextPow2_ok:
  "(if 1 \<le> unat value \<and> unat value \<le> 2 ^ 31
    then \<exists>k. unat (getNextPow2 value) = 2 ^ k \<and> unat value \<le> 2 ^ k \<and> 2 ^ k < 2 * unat value
    else getNextPow2 value = 0)"
proof -
  obtain r where r: "getNextPow2 value = r + 1" "reach 32 (value - 1) r" using getNextPow2_reach by blast
  define x where "x = value - 1"
  have v: "value = x + 1" by (simp add: x_def)
  show ?thesis
  proof (cases "x = 0")
    case True
    then have "r = 0" using r(2) unfolding x_def [symmetric] by (auto simp: reach_def intro!: bit_word_eqI)
    then show ?thesis using True v r(1) by (auto intro: exI [of _ 0])
  next
    case False
    then obtain k where k: "2 ^ k \<le> unat x" "unat x < 2 ^ Suc k" using ex_log2 [of "unat x"] by (auto simp: unat_gt_0)
    have g: "getNextPow2 value = 2 ^ Suc k"
      using reach_mask [OF r(2) [folded x_def] k] r(1) by (simp add: mask_eq_exp_minus_1)
    show ?thesis
    proof (cases "k = 31")
      case True
      then have "\<not> (1 \<le> unat value \<and> unat value \<le> 2 ^ 31)" using k(1) unat_u32_lt [of x] v
        by (cases "unat x + 1 = 2 ^ 32") (simp_all add: unat_word_ariths)
      moreover have "getNextPow2 value = 0" using g True by simp
      ultimately show ?thesis by simp
    next
      case False
      have "(2 :: nat) ^ k < 2 ^ 32" using k(1) unat_u32_lt [of x] by simp
      then have "k < 32" by (simp only: power_strict_increasing_iff)
      with False have "Suc k \<le> 31" by simp
      then have p: "(2 :: nat) ^ Suc k \<le> 2 ^ 31" by (intro power_increasing) simp_all
      have "unat value = unat x + 1" using k(2) p v by (simp add: unat_word_ariths)
      moreover have "unat (2 ^ Suc k :: u32) = 2 ^ Suc k"
      proof -
        have "unat (of_nat (2 ^ Suc k) :: u32) = 2 ^ Suc k" using p by (simp only: unat_of_nat) simp
        then show ?thesis by simp
      qed
      ultimately have "1 \<le> unat value \<and> unat value \<le> 2 ^ 31" "unat (getNextPow2 value) = 2 ^ Suc k"
        "unat value \<le> 2 ^ Suc k" "2 ^ Suc k < 2 * unat value" using k p g by simp_all
      then show ?thesis by (subst if_P) blast+
    qed
  qed
qed

text \<open>One step of \<open>getLog2\<close>: \<open>r\<close> is what is accounted for of \<open>N\<close>, \<open>v\<close> what is left.\<close>

definition log_inv :: "nat \<Rightarrow> nat \<Rightarrow> nat \<Rightarrow> bool" where
  "log_inv N r v \<longleftrightarrow> v = N div 2 ^ r"

lemma log_inv_step: "log_inv N r v \<Longrightarrow> log_inv N (r + k) (v div 2 ^ k)"
  by (simp add: log_inv_def div_mult2_eq [symmetric] power_add)

lemma log_inv_end:
  assumes "log_inv N r v" "0 < N" "r \<noteq> 0 \<longrightarrow> 0 < v" "v < 4"
  shows "2 ^ (r + v div 2) \<le> N \<and> N < 2 ^ Suc (r + v div 2)"
proof -
  have "0 < v" using assms by (cases "r = 0") (simp_all add: log_inv_def)
  define e where "e = v div 2"
  have "v < 2 * 2 ^ e" "2 ^ e \<le> v"
    using assms(4) \<open>0 < v\<close> unfolding e_def by (cases "v = 1"; cases "v = 2"; cases "v = 3"; simp)+
  moreover have "2 ^ r * v \<le> N" using assms(1) by (simp add: log_inv_def)
  moreover have "N < 2 ^ r * (v + 1)"
  proof -
    have "N mod 2 ^ r < 2 ^ r" by simp
    then show ?thesis
      using mult_div_mod_eq [of "2 ^ r" N] unfolding assms(1) [unfolded log_inv_def] distrib_left by linarith
  qed
  moreover have "2 ^ r * 2 ^ e \<le> 2 ^ r * v" "2 ^ r * (v + 1) \<le> 2 ^ r * (2 * 2 ^ e)"
    using \<open>2 ^ e \<le> v\<close> \<open>v < 2 * 2 ^ e\<close> by (intro mult_le_mono2; simp)+
  ultimately have "2 ^ r * 2 ^ e \<le> N" "N < 2 ^ r * (2 * 2 ^ e)" by linarith+
  then show ?thesis by (simp add: power_add e_def)
qed

definition log_step :: "u16 \<Rightarrow> u16 \<Rightarrow> nat \<Rightarrow> u16 \<times> u16 \<Rightarrow> u16 \<times> u16" where
  "log_step limit d k rv = (case rv of (r, v) \<Rightarrow> if v \<ge> limit then (r + d, drop_bit k v) else (r, v))"

lemma getLog2_steps:
  "getLog2 value = (case log_step 4 2 2 (log_step 0x10 4 4 (log_step 0x100 8 8 (if value > 0xFFFF then 16 else 0, ucast value))) of
     (r, v) \<Rightarrow> r OR drop_bit 1 v)"
  unfolding getLog2_def Let_def log_step_def by (simp add: case_prod_unfold)

lemma log_step_inv:
  assumes "log_inv N (unat r) (unat v)" "r \<noteq> 0 \<longrightarrow> v \<noteq> 0" "limit = 2 ^ k" "d = of_nat k" "k \<in> {2, 4, 8}" "unat r \<le> 12"
  "unat v < 2 ^ k * 2 ^ k" "even (unat r)"
  obtains r' v' where "log_step limit d k (r, v) = (r', v')" "log_inv N (unat r') (unat v')" "r' \<noteq> 0 \<longrightarrow> v' \<noteq> 0"
    "unat v' < 2 ^ k" "unat r' \<le> unat r + k" "even (unat r')"
proof (cases "v \<ge> limit")
  case True
  have l: "unat limit = 2 ^ k" using assms(3,5) by auto
  have k: "unat d = k" using assms(4,5) by auto
  have v: "unat (drop_bit k v) = unat v div 2 ^ k" by (simp only: unat_drop_bit_eq) (simp add: drop_bit_eq_div)
  have r: "unat (r + d) = unat r + k" using assms(5,6) k by (subst unat_plus_small) auto
  have "2 ^ k \<le> unat v" using True l by (simp add: word_le_nat_alt)
  then have "unat v div 2 ^ k \<noteq> 0" by (simp add: div_eq_0_iff)
  then have "drop_bit k v \<noteq> 0" using v by (metis unat_0)
  moreover have "unat v div 2 ^ k < 2 ^ k" using assms(7) by (simp add: less_mult_imp_div_less)
  ultimately show ?thesis
    using that [of "r + d" "drop_bit k v"] log_inv_step [OF assms(1), of k] True r v assms(5,8) by (auto simp: log_step_def)
next
  case False
  have "unat limit = 2 ^ k" using assms(3,5) by auto
  then show ?thesis using False that [of r v] assms(1,2,8) by (simp add: log_step_def word_le_nat_alt)
qed

text \<open>
  \<open>getLog2\<close> is the integer logarithm of every value of 1 to 65535. Above, the code means to look at
  the high half but keeps the low one: it adds 16 to the logarithm of the low half, so that 0x20000
  gives 16 and 0x18000 gives 31.
\<close>

theorem getLog2_ok:
  assumes "value \<noteq> 0" "value \<le> 0xFFFF"
  shows "2 ^ unat (getLog2 value) \<le> unat value \<and> unat value < 2 ^ Suc (unat (getLog2 value)) \<and>
    getLog2 0x20000 = 16 \<and> getLog2 0x18000 = 31"
proof -
  define N where "N = unat value"
  have N: "0 < N" "N < 65536" using assms by (simp_all add: N_def unat_gt_0 word_le_nat_alt)
  have v0: "unat (ucast value :: u16) = N" using N(2) by (simp add: N_def unat_ucast_mod)
  have i0: "log_inv N (unat (0 :: u16)) (unat (ucast value :: u16))" by (simp add: log_inv_def v0)
  obtain r1 v1 where 1: "log_step 0x100 8 8 (0, ucast value) = (r1, v1)" "log_inv N (unat r1) (unat v1)"
    "r1 \<noteq> 0 \<longrightarrow> v1 \<noteq> 0" "unat v1 < 2 ^ 8" "unat r1 \<le> unat (0 :: u16) + 8" "even (unat r1)"
    by (rule log_step_inv [OF i0, of "0x100" 8 8]) (use v0 N in simp_all)
  obtain r2 v2 where 2: "log_step 0x10 4 4 (r1, v1) = (r2, v2)" "log_inv N (unat r2) (unat v2)"
    "r2 \<noteq> 0 \<longrightarrow> v2 \<noteq> 0" "unat v2 < 2 ^ 4" "unat r2 \<le> unat r1 + 4" "even (unat r2)"
    by (rule log_step_inv [OF 1(2,3), of "0x10" 4 4]) (use 1 in simp_all)
  obtain r3 v3 where 3: "log_step 4 2 2 (r2, v2) = (r3, v3)" "log_inv N (unat r3) (unat v3)"
    "r3 \<noteq> 0 \<longrightarrow> v3 \<noteq> 0" "unat v3 < 2 ^ 2" "unat r3 \<le> unat r2 + 2" "even (unat r3)"
    by (rule log_step_inv [OF 2(2,3), of 4 2 2]) (use 1 2 in simp_all)
  have "\<not> value > 0xFFFF" using assms(2) by simp
  then have g: "getLog2 value = r3 OR drop_bit 1 v3" by (simp add: getLog2_steps 1(1) 2(1) 3(1))
  have u: "unat (r3 OR drop_bit 1 v3) = unat r3 + unat v3 div 2"
  proof -
    have d: "unat (drop_bit 1 v3) = unat v3 div 2" by (simp only: unat_drop_bit_eq) (simp add: drop_bit_eq_div)
    consider "drop_bit 1 v3 = 0" | "drop_bit 1 v3 = 1" using d 3(4) by (cases "unat v3 div 2") (auto simp: word_unat_eq_iff)
    then show ?thesis
    proof cases
      case 1
      then show ?thesis using d by simp
    next
      case 2
      have "r3 AND 1 = 0" using 3(6) by (simp add: and_1_eq_0_iff)
      then have "r3 OR 1 = r3 + 1" by (rule disjunctive_add_eq_or [symmetric])
      moreover have "unat (r3 + 1) = unat r3 + 1" using 3(5) \<open>unat r1 \<le> _\<close> \<open>unat r2 \<le> _\<close> by (subst unat_plus_small) simp_all
      ultimately show ?thesis using 2 d by simp
    qed
  qed
  have "unat r3 \<noteq> 0 \<longrightarrow> 0 < unat v3" using 3(3) by (auto simp: unat_gt_0)
  from log_inv_end [OF 3(2) N(1) this] 3(4) have "2 ^ unat (getLog2 value) \<le> N \<and> N < 2 ^ Suc (unat (getLog2 value))"
    unfolding g u by simp
  moreover have "getLog2 0x20000 = 16 \<and> getLog2 0x18000 = 31" by (simp add: getLog2_def Let_def)
  ultimately show ?thesis unfolding N_def by blast
qed

theorem getLog2_ok_witness:
  "2 ^ unat (getLog2 12345) \<le> unat (12345 :: u32) \<and> unat (12345 :: u32) < 2 ^ Suc (unat (getLog2 12345)) \<and>
    getLog2 0x20000 = 16 \<and> getLog2 0x18000 = 31"
  by (rule getLog2_ok) simp_all

section \<open>Binary coded decimals\<close>

text \<open>The number whose hexadecimal digits are the decimal digits of \<open>n\<close>.\<close>

fun bcd :: "nat \<Rightarrow> nat" where
  "bcd n = (if n < 10 then n else 16 * bcd (n div 10) + n mod 10)"

declare bcd.simps [simp del]

lemma bcd_100: "bcd (100 * a + b) = 256 * bcd a + bcd b" if "b < 100"
proof -
  have d: "bcd (10 * x + y) = 16 * bcd x + y" if "y < 10" for x y
  proof (cases "x = 0")
    case True
    then show ?thesis using that by (simp add: bcd.simps [of y] bcd.simps [of 0])
  next
    case False
    then show ?thesis using that by (subst bcd.simps) simp
  qed
  have "100 * a + b = 10 * (10 * a + b div 10) + b mod 10" by simp
  moreover have "b div 10 < 10" "b mod 10 < 10" using that by simp_all
  ultimately have "bcd (100 * a + b) = 16 * (16 * bcd a + b div 10) + b mod 10" using d by metis
  moreover have "bcd b = 16 * bcd (b div 10) + b mod 10" using d [of "b mod 10" "b div 10"] by simp
  moreover have "bcd (b div 10) = b div 10" using \<open>b div 10 < 10\<close> by (simp add: bcd.simps)
  ultimately show ?thesis by simp
qed

lemma bcd_2: "b < 100 \<Longrightarrow> bcd b = b div 10 * 16 + b mod 10"
proof -
  assume "b < 100"
  then have "b div 10 < 10" by simp
  then show ?thesis by (simp add: bcd.simps [of b] bcd.simps [of "b div 10"])
qed

lemma bcd_lt_100: "b < 100 \<Longrightarrow> bcd b < 256"
proof -
  assume b: "b < 100"
  then have "b div 10 < 10" "b mod 10 < 10" by simp_all
  then show ?thesis unfolding bcd_2 [OF b] by linarith
qed

lemma cnv_bcd_tab_bcd: "i < 100 \<Longrightarrow> cnv_bcd_tab ! i = of_nat (bcd i)"
proof -
  have tab: "cnv_bcd_tab = map (\<lambda>i. of_nat (i div 10 * 16 + i mod 10)) [0 ..< 100]"
    by (simp add: cnv_bcd_tab_def upt_rec)
  assume "i < 100"
  then show ?thesis unfolding tab by (simp add: bcd_2)
qed

lemma long_pair:
  fixes u v :: u16
  shows "ucast (drop_bit 16 (push_bit 16 (ucast u) OR ucast v :: u32)) = u"
    and "ucast (push_bit 16 (ucast u) OR ucast v :: u32) = v"
proof -
  have b: "bit w n \<Longrightarrow> n < 16" for w :: u16 and n using bit_imp_le_length [of w n] by simp
  show "ucast (drop_bit 16 (push_bit 16 (ucast u) OR ucast v :: u32)) = u"
    "ucast (push_bit 16 (ucast u) OR ucast v :: u32) = v"
    by (auto intro!: bit_word_eqI simp: bit_simps dest: b)
qed

lemma divmodu_100:
  fixes v :: u16
  shows "unat (ucast (divmodu (ucast v) 100) :: u16) = unat v div 100"
    and "unat (ucast (drop_bit 16 (divmodu (ucast v) 100)) :: u16) = unat v mod 100"
proof -
  define q r where "q = unat v div 100" and "r = unat v mod 100"
  have b: "q < 65536" "r < 65536" using unat_u16_lt [of v] by (simp_all add: q_def r_def)
  have c: "(of_nat n :: u32) = ucast (of_nat n :: u16)" if "n < 65536" for n
    using that by (simp add: word_unat_eq_iff unat_of_nat unat_ucast_mod)
  have e: "divmodu (ucast v) 100 = push_bit 16 (ucast (of_nat r :: u16)) OR ucast (of_nat q :: u16)"
    using b unfolding c [OF b(1), symmetric] c [OF b(2), symmetric] by (simp add: divmodu_def q_def r_def unat_ucast_mod)
  show "unat (ucast (divmodu (ucast v) 100) :: u16) = unat v div 100"
    "unat (ucast (drop_bit 16 (divmodu (ucast v) 100)) :: u16) = unat v mod 100"
    unfolding e long_pair using b by (simp_all add: unat_of_nat q_def r_def)
qed

lemma or_push_add:
  fixes a b :: u32
  assumes "unat a < 2 ^ k"
  shows "a OR push_bit k b = a + push_bit k b"
proof (rule disjunctive_add_eq_or [symmetric])
  have "\<not> bit a n" if "k \<le> n" for n
  proof -
    have "unat a < 2 ^ n" using assms that power_increasing [of k n "2 :: nat"] by linarith
    then show ?thesis by (simp add: bit_u32_iff)
  qed
  then show "a AND push_bit k b = 0" by (auto intro!: bit_word_eqI simp: bit_simps)
qed

lemma tab_ucast: "i < 100 \<Longrightarrow> (ucast (cnv_bcd_tab ! i) :: u32) = of_nat (bcd i)"
  using bcd_lt_100 [of i] by (simp add: cnv_bcd_tab_bcd word_unat_eq_iff unat_of_nat unat_ucast_mod)

lemma or_push_nat:
  assumes "x < 2 ^ k" "k < 32"
  shows "(of_nat x :: u32) OR push_bit k (of_nat y) = of_nat (x + 2 ^ k * y)"
proof -
  have "(2 :: nat) ^ k < 2 ^ 32" using assms(2) by (intro power_strict_increasing) simp_all
  then have "unat (of_nat x :: u32) = x" using assms(1) by (simp add: unat_of_nat)
  then show ?thesis using assms(1) or_push_add [of "of_nat x" k "of_nat y"] by (simp add: push_bit_eq_mult mult.commute)
qed

lemma u16ToBCD_bcd: "u16ToBCD v = of_nat (bcd (unat v))"
proof -
  define a where "a = unat v div 100"
  define b where "b = unat v mod 100"
  have v: "unat v = 100 * a + b" "b < 100" by (simp_all add: a_def b_def)
  have g: "v \<ge> 100 \<longleftrightarrow> unat v \<ge> 100" for v :: u16 by (simp add: word_le_nat_alt)
  have a: "a < 656" using unat_u16_lt [of v] by (simp add: a_def)
  define a1 where "a1 = a div 100"
  define a0 where "a0 = a mod 100"
  have aa: "a = 100 * a1 + a0" "a0 < 100" "a1 < 100" using a by (simp_all add: a1_def a0_def)
  note bv = bcd_100 [OF v(2), of a, folded v(1)]
  show ?thesis
  proof (cases "unat v \<ge> 100")
    case False
    then show ?thesis unfolding u16ToBCD_def Let_def by (simp add: g tab_ucast)
  next
    case True
    show ?thesis
    proof (cases "a \<ge> 100")
      case False
      have "u16ToBCD v = of_nat (bcd b) OR push_bit 8 (of_nat (bcd a))"
        using True False v unfolding u16ToBCD_def Let_def
        by (simp add: g divmodu_100 a_def [symmetric] b_def [symmetric] tab_ucast)
      also have "\<dots> = of_nat (bcd (unat v))" using bcd_lt_100 [OF v(2)] by (subst or_push_nat) (simp_all add: bv)
      finally show ?thesis .
    next
      case big: True
      have "u16ToBCD v = (of_nat (bcd b) OR push_bit 8 (of_nat (bcd a0))) OR push_bit 16 (of_nat (bcd a1))"
        using True big v(2) aa(2,3) unfolding u16ToBCD_def Let_def
        by (simp add: g divmodu_100 a_def [symmetric] b_def [symmetric] a0_def [symmetric] a1_def [symmetric] tab_ucast)
      also have "\<dots> = of_nat (bcd b + 2 ^ 8 * bcd a0 + 2 ^ 16 * bcd a1)"
      proof -
        have "(of_nat (bcd b) :: u32) OR push_bit 8 (of_nat (bcd a0)) = of_nat (bcd b + 2 ^ 8 * bcd a0)"
          using bcd_lt_100 [OF v(2)] by (intro or_push_nat) simp_all
        moreover have "(of_nat (bcd b + 2 ^ 8 * bcd a0) :: u32) OR push_bit 16 (of_nat (bcd a1)) =
            of_nat (bcd b + 2 ^ 8 * bcd a0 + 2 ^ 16 * bcd a1)"
          using bcd_lt_100 [OF v(2)] bcd_lt_100 [OF aa(2)] by (intro or_push_nat) simp_all
        ultimately show ?thesis by (simp only:)
      qed
      also have "bcd b + 2 ^ 8 * bcd a0 + 2 ^ 16 * bcd a1 = bcd (unat v)" using bcd_100 [OF aa(2), of a1] by (simp add: bv aa(1) [symmetric])
      finally show ?thesis .
    qed
  qed
qed

text \<open>
  C37 The conversions to binary coded decimals are exact; \<open>u32ToBCD\<close> saturates above 99999999.
\<close>

theorem BCD_ok:
  "u16ToBCD v = of_nat (bcd (unat v)) \<and> u32ToBCD w = of_nat (bcd (min (unat w) 99999999))"
proof -
  have lt: "bcd n < 65536" if "n < 10000" for n
  proof -
    have "bcd (100 * (n div 100) + n mod 100) = 256 * bcd (n div 100) + bcd (n mod 100)" by (rule bcd_100) simp
    moreover have "n div 100 < 100" using that by simp
    ultimately show ?thesis using bcd_lt_100 [of "n div 100"] bcd_lt_100 [of "n mod 100"] by simp
  qed
  have "u32ToBCD w = of_nat (bcd (min (unat w) 99999999))"
  proof (cases "unat w > 99999999")
    case True
    then have "w > 99999999" by (simp add: word_less_nat_alt)
    moreover have "bcd 99999999 = 0x99999999" by (simp add: bcd.simps)
    ultimately show ?thesis using True by (simp add: u32ToBCD_def)
  next
    case False
    then have w: "\<not> w > 99999999" "min (unat w) 99999999 = unat w" by (simp_all add: word_less_nat_alt)
    show ?thesis
    proof (cases "unat w \<ge> 65536")
      case True
      define m where "m = unat w mod 10000"
      define d where "d = unat w div 10000"
      have md: "m < 10000" "d < 10000" "unat w = 10000 * d + m" using False by (simp_all add: m_def d_def)
      have u: "unat (ucast (w mod 10000) :: u16) = m" "unat (ucast (w div 10000) :: u16) = d"
        using md(1,2) by (simp_all only: unat_ucast_mod unat_mod_distrib unat_div_distrib) (simp_all add: m_def [symmetric] d_def [symmetric])
      have "w \<ge> 65536" using True by (simp add: word_le_nat_alt)
      then have "u32ToBCD w = push_bit 16 (of_nat (bcd d)) OR of_nat (bcd m)"
        using w(1) by (simp add: u32ToBCD_def Let_def u16ToBCD_bcd u)
      also have "\<dots> = of_nat (bcd m + 2 ^ 16 * bcd d)"
        using or_push_nat [of "bcd m" 16 "bcd d"] lt [OF md(1)] by (simp add: or.commute)
      also have "bcd m + 2 ^ 16 * bcd d = bcd (unat w)"
      proof -
        have "unat w = 100 * (100 * d + m div 100) + m mod 100"          using md(3) by (simp add: distrib_left)
        moreover have "m div 100 < 100" "m mod 100 < 100" using md(1) by simp_all
        ultimately have "bcd (unat w) = 256 * (256 * bcd d + bcd (m div 100)) + bcd (m mod 100)" by (simp only: bcd_100)
        moreover have "bcd m = 256 * bcd (m div 100) + bcd (m mod 100)" using bcd_100 [of "m mod 100" "m div 100"] by simp
        ultimately show ?thesis by simp
      qed
      finally show ?thesis using w(2) by simp
    next
      case False
      then have "\<not> w \<ge> 65536" "unat (ucast w :: u16) = unat w" by (simp_all add: word_le_nat_alt unat_ucast_mod)
      then show ?thesis using w by (simp add: u32ToBCD_def u16ToBCD_bcd)
    qed
  qed
  then show ?thesis using u16ToBCD_bcd by blast
qed

section \<open>Quotients that fit\<close>

lemma divs_fit:
  assumes "- 32768 \<le> sint op1 sdiv sint op2" "sint op1 sdiv sint op2 < 32768"
  shows "divs op1 op2 = word_of_int (sint op1 sdiv sint op2)"
proof -
  have "ucast (push_bit 16 r OR ucast q :: s32) = q" for r and q :: s16
  proof -
    have b: "bit q n \<Longrightarrow> n < 16" for n using bit_imp_le_length [of q n] by simp
    show ?thesis by (auto intro!: bit_word_eqI simp: bit_simps dest: b)
  qed
  then show ?thesis using assms by (simp add: divs_def divmods_def Let_def)
qed

end
