(* ===== verification/Palette.thy ===== *)
theory Palette
  imports DmaQueue Maths
begin

text \<open>
  Colours and palette fading, \<open>src/pal.c\<close>. A colour has three components of 3 bits. A fade keeps,
  for each colour and component, an 8.8 fixed point value and a step; every frame adds the step
  and queues a transfer of the new colours to the colour memory of the chip.

  The buffers \<open>fadeCurrentPal\<close> and \<open>fadeEndPal\<close> and the palettes given by the program are arrays in
  memory; the six arrays private to the file are functions of the index. \<open>cram\<close> is what the chip's
  colour memory answers to a read. \<open>SYS_doVBlankProcess\<close>, which waits for the vertical blank and runs
  the pending tasks, is the parameter \<open>vblank\<close>.
\<close>

section \<open>State\<close>

record pal_st = dma_st +
  fadeCurrentPal :: ptr
  fadeEndPal :: ptr
  palette_black_all :: ptr
  fadeR :: "nat \<Rightarrow> s16"
  fadeG :: "nat \<Rightarrow> s16"
  fadeB :: "nat \<Rightarrow> s16"
  fadeSR :: "nat \<Rightarrow> s16"
  fadeSG :: "nat \<Rightarrow> s16"
  fadeSB :: "nat \<Rightarrow> s16"
  fadeInd :: u16
  fadeSize :: u16
  fadeCounter :: s16
  cram :: "nat \<Rightarrow> u16"

definition VDPPALETTE_REDMASK :: u16 where [cfg]: "VDPPALETTE_REDMASK = 0x000E"
definition VDPPALETTE_GREENMASK :: u16 where [cfg]: "VDPPALETTE_GREENMASK = 0x00E0"
definition VDPPALETTE_BLUEMASK :: u16 where [cfg]: "VDPPALETTE_BLUEMASK = 0x0E00"
definition VDPPALETTE_COLORMASK :: u16 where [cfg]: "VDPPALETTE_COLORMASK = 0x0EEE"
definition VDPPALETTE_REDSFT :: nat where [cfg]: "VDPPALETTE_REDSFT = 1"
definition VDPPALETTE_GREENSFT :: nat where [cfg]: "VDPPALETTE_GREENSFT = 5"
definition VDPPALETTE_BLUESFT :: nat where [cfg]: "VDPPALETTE_BLUESFT = 9"
definition PALETTEFADE_FRACBITS :: nat where [cfg]: "PALETTEFADE_FRACBITS = 8"
definition PALETTEFADE_ROUND_VAL :: s16 where [cfg]: "PALETTEFADE_ROUND_VAL = 127"
definition PROCESS_PALETTE_FADING :: u16 where [cfg]: "PROCESS_PALETTE_FADING = 1"

section \<open>Reading and writing colours\<close>

definition VDP_READ_CRAM_ADDR :: "u32 \<Rightarrow> u32" where
  "VDP_READ_CRAM_ADDR adr = push_bit 16 (0x0000 + (adr AND 0x7F)) + 0x20"

text \<open>The word that a read of the data port returns when \<open>a\<close> words follow the address set.\<close>

definition cram_word :: "u16 \<Rightarrow> nat \<Rightarrow> 'a pal_st_scheme \<Rightarrow> u16" where
  "cram_word addr a s = cram s ((unat (addr AND 0x7F) div 2 + a) mod 64)"

definition cram_long :: "u16 \<Rightarrow> nat \<Rightarrow> 'a pal_st_scheme \<Rightarrow> u32" where
  "cram_long addr a s = push_bit 16 (ucast (cram_word addr a s)) OR ucast (cram_word addr (a + 1) s)"

definition PAL_getColor :: "u16 \<Rightarrow> 'a pal_st_scheme \<Rightarrow> u16 \<times> 'a pal_st_scheme" where
  "PAL_getColor index s =
    (let addr = index * 2; s = ctrl_l (VDP_READ_CRAM_ADDR (ucast addr)) s
     in (cram_word addr 0 s AND VDPPALETTE_COLORMASK, s))"

definition mask32 :: u32 where
  "mask32 = push_bit 16 (ucast VDPPALETTE_COLORMASK) OR ucast VDPPALETTE_COLORMASK"

text \<open>\<open>*dl++ = *pl & mask32;\<close> \<open>n\<close> times, and \<open>*dw++ = *pw & mask16;\<close> \<open>n\<close> times.\<close>

fun get_longs :: "nat \<Rightarrow> u16 \<Rightarrow> nat \<Rightarrow> ptr \<Rightarrow> 'a pal_st_scheme \<Rightarrow> 'a pal_st_scheme" where
  "get_longs 0 addr a d s = s"
| "get_longs (Suc n) addr a d s =
    get_longs n addr (a + 2) (d + 2) (s\<lparr>ram := store32 d (cram_long addr a s AND mask32) (ram s)\<rparr>)"

fun get_blocks :: "nat \<Rightarrow> u16 \<Rightarrow> nat \<Rightarrow> ptr \<Rightarrow> 'a pal_st_scheme \<Rightarrow> 'a pal_st_scheme" where
  "get_blocks 0 addr a d s = s"
| "get_blocks (Suc n) addr a d s = get_blocks n addr (a + 16) (d + 16) (get_longs 8 addr a d s)"

fun get_words :: "nat \<Rightarrow> u16 \<Rightarrow> nat \<Rightarrow> ptr \<Rightarrow> 'a pal_st_scheme \<Rightarrow> 'a pal_st_scheme" where
  "get_words 0 addr a d s = s"
| "get_words (Suc n) addr a d s =
    get_words n addr (a + 1) (d + 1) (s\<lparr>ram := (ram s)(d := cram_word addr a s AND VDPPALETTE_COLORMASK)\<rparr>)"

definition PAL_getColors :: "u16 \<Rightarrow> ptr \<Rightarrow> u16 \<Rightarrow> 'a pal_st_scheme \<Rightarrow> 'a pal_st_scheme" where
  "PAL_getColors index dest count s =
    (let s = VDP_setAutoInc 2 s;
         addr = index * 2;
         s = ctrl_l (VDP_READ_CRAM_ADDR (ucast addr)) s;
         il = unat (drop_bit 4 count);
         s = get_blocks il addr 0 dest s;
         i = unat (count AND 0xF)
     in get_words i addr (16 * il) (dest + 16 * il) s)"

definition PAL_getPalette :: "u16 \<Rightarrow> ptr \<Rightarrow> 'a pal_st_scheme \<Rightarrow> 'a pal_st_scheme" where
  "PAL_getPalette numPal dest s =
    (let s = VDP_setAutoInc 2 s;
         addr = numPal * (16 * 2);
         s = ctrl_l (VDP_READ_CRAM_ADDR (ucast addr)) s
     in get_longs 8 addr 0 dest s)"

definition PAL_setColor :: "u16 \<Rightarrow> u16 \<Rightarrow> 'a vdp_st_scheme \<Rightarrow> 'a vdp_st_scheme" where
  "PAL_setColor index value s =
    (let addr = index * 2; s = ctrl_l (VDP_WRITE_CRAM_ADDR (ucast addr)) s in data_w value s)"

definition PAL_setColors :: "u16 \<Rightarrow> ptr \<Rightarrow> u16 \<Rightarrow> TransferMethod \<Rightarrow> 'a dma_st_scheme \<Rightarrow> 'a dma_st_scheme" where
  "PAL_setColors index pal count tm s =
    snd (DMA_transfer tm DMA_CRAM (of_nat (2 * pal)) (index * 2) count 2 s)"

text \<open>A \<open>Palette\<close> is its length and a pointer to its colours.\<close>

record Palette =
  pal_length :: u16
  pal_data :: ptr

definition PAL_setPaletteColors :: "u16 \<Rightarrow> Palette \<Rightarrow> TransferMethod \<Rightarrow> 'a dma_st_scheme \<Rightarrow> 'a dma_st_scheme" where
  "PAL_setPaletteColors index pal tm s = PAL_setColors index (pal_data pal) (pal_length pal) tm s"

definition PAL_setPalette :: "u16 \<Rightarrow> ptr \<Rightarrow> TransferMethod \<Rightarrow> 'a dma_st_scheme \<Rightarrow> 'a dma_st_scheme" where
  "PAL_setPalette numPal pal tm s = PAL_setColors (numPal * 16) pal 16 tm s"

section \<open>Fading\<close>


definition comp_R :: "u16 \<Rightarrow> s16" where
  "comp_R c = push_bit PALETTEFADE_FRACBITS (drop_bit VDPPALETTE_REDSFT (c AND VDPPALETTE_REDMASK))"

definition comp_G :: "u16 \<Rightarrow> s16" where
  "comp_G c = push_bit PALETTEFADE_FRACBITS (drop_bit VDPPALETTE_GREENSFT (c AND VDPPALETTE_GREENMASK))"

definition comp_B :: "u16 \<Rightarrow> s16" where
  "comp_B c = push_bit PALETTEFADE_FRACBITS (drop_bit VDPPALETTE_BLUESFT (c AND VDPPALETTE_BLUEMASK))"

definition fade_step :: "s16 \<Rightarrow> s16 \<Rightarrow> u16 \<Rightarrow> s16" where
  "fade_step from_val to_val numFrame = divs (word_of_int (sint to_val - sint from_val)) numFrame"

text \<open>The body of the loop of \<open>PAL_initFade\<close> for colour \<open>i\<close>; \<open>c\<close> and \<open>d\<close> are \<open>*src\<close> and \<open>*dst\<close>.\<close>

definition initFade_color :: "nat \<Rightarrow> u16 \<Rightarrow> u16 \<Rightarrow> u16 \<Rightarrow> 'a pal_st_scheme \<Rightarrow> 'a pal_st_scheme" where
  "initFade_color i c d numFrame s = s\<lparr>
     fadeR := (fadeR s)(i := comp_R c + PALETTEFADE_ROUND_VAL),
     fadeG := (fadeG s)(i := comp_G c + PALETTEFADE_ROUND_VAL),
     fadeB := (fadeB s)(i := comp_B c + PALETTEFADE_ROUND_VAL),
     fadeSR := (fadeSR s)(i := fade_step (comp_R c) (comp_R d) numFrame),
     fadeSG := (fadeSG s)(i := fade_step (comp_G c) (comp_G d) numFrame),
     fadeSB := (fadeSB s)(i := fade_step (comp_B c) (comp_B d) numFrame)\<rparr>"

fun initFade_loop :: "nat \<Rightarrow> nat \<Rightarrow> ptr \<Rightarrow> ptr \<Rightarrow> u16 \<Rightarrow> 'a pal_st_scheme \<Rightarrow> 'a pal_st_scheme" where
  "initFade_loop 0 i src dst numFrame s = s"
| "initFade_loop (Suc len) i src dst numFrame s =
    initFade_loop len (i + 1) (src + 1) (dst + 1) numFrame
      (initFade_color i (ram s src) (ram s dst) numFrame s)"

definition PAL_initFade ::
  "u16 \<Rightarrow> u16 \<Rightarrow> ptr \<Rightarrow> ptr \<Rightarrow> u16 \<Rightarrow> 'a pal_st_scheme \<Rightarrow> bool \<times> 'a pal_st_scheme" where
  "PAL_initFade fromCol toCol palSrc palDst numFrame s =
    (if numFrame = 0 then (False, s)
     else
       (let s = s\<lparr>fadeInd := fromCol, fadeSize := (toCol - fromCol) + 1, fadeCounter := numFrame\<rparr>;
            len = fadeSize s;
            s = s\<lparr>ram := copy_words (fadeCurrentPal s) palSrc (unat (len * 2) div 2) (ram s)\<rparr>;
            s = s\<lparr>ram := copy_words (fadeEndPal s) palDst (unat (len * 2) div 2) (ram s)\<rparr>;
            s = initFade_loop (unat len) 0 palSrc palDst numFrame s
        in (True, PAL_setColors (fadeInd s) (fadeCurrentPal s) (fadeSize s) DMA_QUEUE s)))"

definition fade_color :: "u16 \<Rightarrow> u16 \<Rightarrow> u16 \<Rightarrow> u16" where
  "fade_color R G B =
    (push_bit VDPPALETTE_REDSFT (drop_bit PALETTEFADE_FRACBITS R) AND VDPPALETTE_REDMASK) OR
    (push_bit VDPPALETTE_GREENSFT (drop_bit PALETTEFADE_FRACBITS G) AND VDPPALETTE_GREENMASK) OR
    (push_bit VDPPALETTE_BLUESFT (drop_bit PALETTEFADE_FRACBITS B) AND VDPPALETTE_BLUEMASK)"

text \<open>The loop of \<open>PAL_doFadeStep\<close>.\<close>

fun fadeStep_loop :: "nat \<Rightarrow> nat \<Rightarrow> ptr \<Rightarrow> 'a pal_st_scheme \<Rightarrow> 'a pal_st_scheme" where
  "fadeStep_loop 0 i dst s = s"
| "fadeStep_loop (Suc n) i dst s =
    (let R = fadeR s i + fadeSR s i;
         G = fadeG s i + fadeSG s i;
         B = fadeB s i + fadeSB s i;
         s = s\<lparr>fadeR := (fadeR s)(i := R), fadeG := (fadeG s)(i := G), fadeB := (fadeB s)(i := B)\<rparr>
     in fadeStep_loop n (i + 1) (dst + 1) (s\<lparr>ram := (ram s)(dst := fade_color R G B)\<rparr>))"

definition PAL_doFadeStep :: "'a pal_st_scheme \<Rightarrow> bool \<times> 'a pal_st_scheme" where
  "PAL_doFadeStep s =
    (if sint (fadeCounter s) \<le> 0 then (False, s)
     else
       (let s = fadeStep_loop (unat (fadeSize s)) 0 (fadeCurrentPal s) s;
            s = PAL_setColors (fadeInd s) (fadeCurrentPal s) (fadeSize s) DMA_QUEUE s;
            s = s\<lparr>fadeCounter := fadeCounter s - 1\<rparr>
        in (0 < sint (fadeCounter s), s)))"

definition PAL_isManualFadeDone :: "'a pal_st_scheme \<Rightarrow> bool" where
  "PAL_isManualFadeDone s \<longleftrightarrow> \<not> 0 < sint (fadeCounter s)"

text \<open>\<open>do SYS_doVBlankProcess(); while (PAL_doFadeStep());\<close>\<close>

partial_function (option) fade_loop ::
  "('a pal_st_scheme \<Rightarrow> 'a pal_st_scheme) \<Rightarrow> 'a pal_st_scheme \<Rightarrow> 'a pal_st_scheme option" where
  "fade_loop vblank s =
    (let (more, s) = PAL_doFadeStep (vblank s) in if more then fade_loop vblank s else Some s)"

definition PAL_fade ::
  "('a pal_st_scheme \<Rightarrow> 'a pal_st_scheme) \<Rightarrow> u16 \<Rightarrow> u16 \<Rightarrow> ptr \<Rightarrow> ptr \<Rightarrow> u16 \<Rightarrow> bool \<Rightarrow>
    'a pal_st_scheme \<Rightarrow> 'a pal_st_scheme option" where
  "PAL_fade vblank fromCol toCol palSrc palDst numFrame async s =
    (let (ok, s) = PAL_initFade fromCol toCol palSrc palDst numFrame s in
     if \<not> ok then Some s
     else if async then Some (s\<lparr>VBlankProcess := VBlankProcess s OR PROCESS_PALETTE_FADING\<rparr>)
     else map_option vblank (fade_loop vblank s))"

text \<open>\<open>tmp\<close> is the address of the array \<open>tmp_pal\<close> on the stack. The model has no interrupts.\<close>

definition PAL_fadeTo ::
  "('a pal_st_scheme \<Rightarrow> 'a pal_st_scheme) \<Rightarrow> ptr \<Rightarrow> u16 \<Rightarrow> u16 \<Rightarrow> ptr \<Rightarrow> u16 \<Rightarrow> bool \<Rightarrow>
    'a pal_st_scheme \<Rightarrow> 'a pal_st_scheme option" where
  "PAL_fadeTo vblank tmp fromCol toCol pal numFrame async s =
    PAL_fade vblank fromCol toCol tmp pal numFrame async (PAL_getColors fromCol tmp ((toCol - fromCol) + 1) s)"

definition PAL_fadeOut where
  "PAL_fadeOut vblank tmp fromCol toCol numFrame async s =
    PAL_fadeTo vblank tmp fromCol toCol (palette_black_all s) numFrame async s"

definition PAL_fadeIn where
  "PAL_fadeIn vblank fromCol toCol pal numFrame async s =
    PAL_fade vblank fromCol toCol (palette_black_all s) pal numFrame async s"

definition PAL_fadePalette where
  "PAL_fadePalette vblank numpal palSrc palDst numFrame async s =
    PAL_fade vblank (push_bit 4 numpal) (push_bit 4 numpal + 15) palSrc palDst numFrame async s"

definition PAL_fadeToPalette where
  "PAL_fadeToPalette vblank tmp numpal pal numFrame async s =
    PAL_fadeTo vblank tmp (push_bit 4 numpal) (push_bit 4 numpal + 15) pal numFrame async s"

definition PAL_fadeOutPalette where
  "PAL_fadeOutPalette vblank tmp numpal numFrame async s =
    PAL_fadeTo vblank tmp (push_bit 4 numpal) (push_bit 4 numpal + 15) (palette_black_all s) numFrame async s"

definition PAL_fadeInPalette where
  "PAL_fadeInPalette vblank numpal pal numFrame async s =
    PAL_fade vblank (push_bit 4 numpal) (push_bit 4 numpal + 15) (palette_black_all s) pal numFrame async s"

definition PAL_fadeAll where
  "PAL_fadeAll vblank palSrc palDst numFrame async s = PAL_fade vblank 0 63 palSrc palDst numFrame async s"

definition PAL_fadeToAll where
  "PAL_fadeToAll vblank tmp pal numFrame async s = PAL_fadeTo vblank tmp 0 63 pal numFrame async s"

definition PAL_fadeOutAll where
  "PAL_fadeOutAll vblank tmp numFrame async s =
    PAL_fadeTo vblank tmp 0 63 (palette_black_all s) numFrame async s"

definition PAL_fadeInAll where
  "PAL_fadeInAll vblank pal numFrame async s =
    PAL_fade vblank 0 63 (palette_black_all s) pal numFrame async s"

definition PAL_isDoingFade :: "'a dma_st_scheme \<Rightarrow> bool" where
  "PAL_isDoingFade s \<longleftrightarrow> VBlankProcess s AND PROCESS_PALETTE_FADING \<noteq> 0"

partial_function (option) PAL_waitFadeCompletion ::
  "('a dma_st_scheme \<Rightarrow> 'a dma_st_scheme) \<Rightarrow> 'a dma_st_scheme \<Rightarrow> 'a dma_st_scheme option" where
  "PAL_waitFadeCompletion vblank s =
    (if PAL_isDoingFade s then PAL_waitFadeCompletion vblank (vblank s) else Some s)"

definition PAL_interruptFade :: "'a dma_st_scheme \<Rightarrow> 'a dma_st_scheme" where
  "PAL_interruptFade s = s\<lparr>VBlankProcess := VBlankProcess s AND NOT PROCESS_PALETTE_FADING\<rparr>"

end
