(* ===== verification/PalFade.thy ===== *)
theory PalFade
  imports Palette
begin

text \<open>
  Correctness of the palette fading of \<open>src/pal.c\<close>: where the components are after each frame, when
  the target palette is reached and that the synchronous fade returns.
\<close>

section \<open>What queueing a transfer leaves alone\<close>

definition queue_area :: "'a dma_st_scheme \<Rightarrow> nat set" where
  "queue_area s = {dmaQueues s ..< dmaQueues s + 8 * unat (queueSize s)}"

definition queued_only :: "'a dma_st_scheme \<Rightarrow> 'a dma_st_scheme \<Rightarrow> bool" where
  "queued_only s s' \<longleftrightarrow> queue_frame s s' \<and> (\<forall>a. a \<notin> queue_area s \<longrightarrow> ram s' a = ram s a)"

lemma queued_only_refl [simp]: "queued_only s s"
  by (simp add: queued_only_def)

lemma queued_only_trans: "queued_only s s' \<Longrightarrow> queued_only s' s'' \<Longrightarrow> queued_only s s''"
  using queue_frame_sel(6,8) [of s s'] by (auto simp: queued_only_def queue_area_def intro: queue_frame_trans)

lemma store_info_other: "a \<notin> {p ..< p + 6} \<Longrightarrow> store_info p f l st m a = m a"
  by (auto simp: store_info_def Let_def store32_def)

lemma DMA_queueDmaFast_only: "queued_only s (snd (DMA_queueDmaFast loc fa to len st s))"
proof (cases "queueIndex s \<ge> queueSize s")
  case True
  then show ?thesis by (simp add: DMA_queueDmaFast_def)
next
  case False
  define p where "p = dmaQueues s + 8 * unat (queueIndex s)"
  define m1 where "m1 = store_info p fa len st (ram s)"
  define m2 where "m2 = (case dma_command loc to len of Some (cmd, n) \<Rightarrow> store32 (p + 6) cmd m1 | None \<Rightarrow> m1)"
  define t where "t = (case dma_command loc to len of Some (cmd, n) \<Rightarrow> queueTransferSize s + n | None \<Rightarrow> queueTransferSize s)"
  have e: "snd (DMA_queueDmaFast loc fa to len st s) = s\<lparr>ram := m2, queueTransferSize := t, queueIndex := queueIndex s + 1,
      queueIndexLimit := (if t > maxTransferPerFrame s \<and> queueIndexLimit s = 0 then queueIndex s else queueIndexLimit s)\<rparr>"
  proof (cases "dma_command loc to len")
    case None
    then show ?thesis using False unfolding DMA_queueDmaFast_def m2_def m1_def t_def p_def by (simp add: Let_def)
  next
    case (Some cn)
    then show ?thesis using False unfolding DMA_queueDmaFast_def m2_def m1_def t_def p_def
      by (cases cn) (simp add: Let_def)
  qed
  have "m2 a = ram s a" if "a \<notin> queue_area s" for a
  proof -
    have "unat (queueIndex s) < unat (queueSize s)" using False by (simp add: word_le_nat_alt)
    then have a: "a \<notin> {p ..< p + 8}" using that unfolding queue_area_def p_def by simp arith
    then have "m1 a = ram s a" unfolding m1_def by (intro store_info_other) (simp, arith)
    moreover have "store32 (p + 6) c m1 a = m1 a" for c using a by (auto simp: store32_def)
    ultimately show ?thesis unfolding m2_def by (cases "dma_command loc to len") (simp_all add: case_prod_unfold)
  qed
  moreover have "queue_frame s (snd (DMA_queueDmaFast loc fa to len st s))" by (rule queue_frameI [OF e])
  ultimately show ?thesis by (simp add: queued_only_def e)
qed

lemma DMA_queueDma_only: "queued_only s (snd (DMA_queueDma loc fa to len st s))"
proof -
  have two: "queued_only s (snd (if \<not> ok then (False, s') else DMA_queueDmaFast loc fa to l' st s'))"
    if "queued_only s s'" for ok s' l'
    using that queued_only_trans [OF that DMA_queueDmaFast_only] by simp
  show ?thesis
    unfolding DMA_queueDma_def Let_def case_prod_unfold
    by (simp only: DMA_queueDmaFast_only two split: if_split) simp
qed

lemma PAL_setColors_only: "queued_only s (PAL_setColors ind pal n DMA_QUEUE s)"
  by (simp add: PAL_setColors_def DMA_transfer_def DMA_queueDma_only)

lemma queued_only_sel:
  fixes s :: "'a pal_st_scheme"
  assumes "queued_only s s'"
  shows "fadeR s' = fadeR s" "fadeG s' = fadeG s" "fadeB s' = fadeB s" "fadeSR s' = fadeSR s" "fadeSG s' = fadeSG s"
    "fadeSB s' = fadeSB s" "fadeInd s' = fadeInd s" "fadeSize s' = fadeSize s" "fadeCounter s' = fadeCounter s"
    "fadeCurrentPal s' = fadeCurrentPal s" "queue_area s' = queue_area s"
  using assms unfolding queued_only_def queue_frame_def queue_area_def by auto

section \<open>One component\<close>

text \<open>The fixed point value of a component after \<open>j\<close> of \<open>n\<close> frames.\<close>

definition fade_val :: "s16 \<Rightarrow> s16 \<Rightarrow> u16 \<Rightarrow> nat \<Rightarrow> u16" where
  "fade_val c d n j = c + PALETTEFADE_ROUND_VAL + of_nat j * fade_step c d n"

lemma fade_val_Suc: "fade_val c d n (Suc j) = fade_val c d n j + fade_step c d n"
  by (simp add: fade_val_def algebra_simps)

lemma sdiv_mult_le:
  assumes "0 < n" "j \<le> n"
  shows "0 \<le> D \<Longrightarrow> 0 \<le> int j * (D sdiv int n) \<and> int j * (D sdiv int n) \<le> D"
    and "D \<le> 0 \<Longrightarrow> D \<le> int j * (D sdiv int n) \<and> int j * (D sdiv int n) \<le> 0"
proof -
  have le: "int j * (a div int n) \<le> a" if "0 \<le> a" for a
  proof -
    have "int j * (a div int n) \<le> int n * (a div int n)"
      using that assms by (intro mult_right_mono) (simp_all add: pos_imp_zdiv_nonneg_iff)
    also have "\<dots> \<le> a" using minus_mult_div_eq_mod [of a "int n"] pos_mod_sign [of "int n" a] assms(1) by linarith
    finally show ?thesis .
  qed
  have z: "0 \<le> int j * (a div int n)" if "0 \<le> a" for a
    using that assms by (simp add: pos_imp_zdiv_nonneg_iff)
  show "0 \<le> D \<Longrightarrow> 0 \<le> int j * (D sdiv int n) \<and> int j * (D sdiv int n) \<le> D"
    using le [of D] z [of D] assms(1) by (cases "D = 0") (simp_all add: signed_divide_int_def)
  show "D \<le> 0 \<Longrightarrow> D \<le> int j * (D sdiv int n) \<and> int j * (D sdiv int n) \<le> 0"
    using le [of "- D"] z [of "- D"] assms(1) by (cases "D = 0") (simp_all add: signed_divide_int_def)
qed

lemma step_eq:
  assumes "x \<le> 7" "y \<le> 7" "0 < unat n" "unat n < 32768"
  shows "fade_step (of_nat (256 * x)) (of_nat (256 * y)) n = word_of_int ((256 * (int y - int x)) sdiv int (unat n))"
proof -
  have s: "sint (of_nat (256 * k) :: s16) = int (256 * k)" if "k \<le> 7" for k
    using sint_of_int_16 [of "int (256 * k)"] that by (simp only: of_int_of_nat_eq)
  define D where "D = 256 * (int y - int x)"
  have d: "sint (of_nat (256 * y) :: s16) - sint (of_nat (256 * x) :: s16) = D"
    using s [OF assms(1)] s [OF assms(2)] unfolding D_def
    by (simp only: of_nat_mult of_nat_numeral right_diff_distrib)
  have "int x \<le> 7" "0 \<le> int x" "int y \<le> 7" "0 \<le> int y" using assms(1,2) by simp_all
  then have "D \<le> 1792" "- 1792 \<le> D" unfolding D_def right_diff_distrib by linarith+
  then have "sint (word_of_int D :: s32) = D" by (intro sint_of_int_32) linarith+
  moreover have "- 1792 \<le> D sdiv int (unat n) \<and> D sdiv int (unat n) \<le> 1792"
    using sdiv_mult_le [OF assms(3), of 1 D] assms(3) \<open>D \<le> 1792\<close> \<open>- 1792 \<le> D\<close> by (cases "0 \<le> D") auto
  ultimately show ?thesis
    unfolding fade_step_def d D_def [symmetric] using divs_fit [of "word_of_int D" n] sint_small [OF assms(4)] by simp
qed

section \<open>The loops, in one step\<close>

text \<open>\<open>g\<close> with the values \<open>f 0, ..., f (n - 1)\<close> stored from index \<open>i\<close> on.\<close>

definition seg :: "nat \<Rightarrow> nat \<Rightarrow> (nat \<Rightarrow> 'v) \<Rightarrow> (nat \<Rightarrow> 'v) \<Rightarrow> nat \<Rightarrow> 'v" where
  "seg i n f g k = (if i \<le> k \<and> k < i + n then f (k - i) else g k)"

lemma seg_0 [simp]: "seg i 0 f g = g"
  by (auto simp: seg_def fun_eq_iff)

lemma seg_Suc: "seg (i + 1) n (\<lambda>k. f (k + 1)) (g(i := f 0)) = seg i (Suc n) f g"
proof
  fix k
  consider "k < i" | "k = i" | "i < k" by linarith
  then show "seg (i + 1) n (\<lambda>k. f (k + 1)) (g(i := f 0)) k = seg i (Suc n) f g k"
    by cases (simp_all add: seg_def Suc_diff_Suc)
qed

lemma initFade_loop_eq:
  "initFade_loop len i src dst n s = s\<lparr>
     fadeR := seg i len (\<lambda>k. comp_R (ram s (src + k)) + PALETTEFADE_ROUND_VAL) (fadeR s),
     fadeG := seg i len (\<lambda>k. comp_G (ram s (src + k)) + PALETTEFADE_ROUND_VAL) (fadeG s),
     fadeB := seg i len (\<lambda>k. comp_B (ram s (src + k)) + PALETTEFADE_ROUND_VAL) (fadeB s),
     fadeSR := seg i len (\<lambda>k. fade_step (comp_R (ram s (src + k))) (comp_R (ram s (dst + k))) n) (fadeSR s),
     fadeSG := seg i len (\<lambda>k. fade_step (comp_G (ram s (src + k))) (comp_G (ram s (dst + k))) n) (fadeSG s),
     fadeSB := seg i len (\<lambda>k. fade_step (comp_B (ram s (src + k))) (comp_B (ram s (dst + k))) n) (fadeSB s)\<rparr>"
proof (induction len arbitrary: i src dst s)
  case (Suc len)
  show ?case
    by (simp add: Suc.IH initFade_color_def seg_Suc [symmetric] ac_simps fun_upd_def)
qed simp

lemma fadeStep_loop_eq:
  "fadeStep_loop n i dst s = s\<lparr>
     fadeR := seg i n (\<lambda>k. fadeR s (i + k) + fadeSR s (i + k)) (fadeR s),
     fadeG := seg i n (\<lambda>k. fadeG s (i + k) + fadeSG s (i + k)) (fadeG s),
     fadeB := seg i n (\<lambda>k. fadeB s (i + k) + fadeSB s (i + k)) (fadeB s),
     ram := seg dst n (\<lambda>k. fade_color (fadeR s (i + k) + fadeSR s (i + k)) (fadeG s (i + k) + fadeSG s (i + k))
       (fadeB s (i + k) + fadeSB s (i + k))) (ram s)\<rparr>"
proof (induction n arbitrary: i dst s)
  case (Suc n)
  show ?case
    by (simp add: Suc.IH seg_Suc [symmetric] Let_def fun_upd_def cong: if_cong)
qed simp

section \<open>Levels\<close>

text \<open>The fixed point value as an integer, and the level (0 to 7) it stands for.\<close>

definition fixpt :: "nat \<Rightarrow> nat \<Rightarrow> nat \<Rightarrow> nat \<Rightarrow> int" where
  "fixpt n j x y = 256 * int x + 127 + int j * ((256 * (int y - int x)) sdiv int n)"

definition level :: "nat \<Rightarrow> nat \<Rightarrow> nat \<Rightarrow> nat \<Rightarrow> nat" where
  "level n j x y = nat (fixpt n j x y div 256)"

lemma fade_val_eq:
  assumes "x \<le> 7" "y \<le> 7" "0 < unat n" "unat n < 32768"
  shows "fade_val (of_nat (256 * x)) (of_nat (256 * y)) n j = word_of_int (fixpt (unat n) j x y)"
  unfolding fade_val_def step_eq [OF assms] fixpt_def by (simp add: cfg)

lemma fixpt_between:
  assumes "0 < n" "j \<le> n"
  shows "256 * int (min x y) + 127 \<le> fixpt n j x y" "fixpt n j x y \<le> 256 * int (max x y) + 127"
proof -
  define D where "D = 256 * (int y - int x)"
  have "256 * int (min x y) + 127 \<le> fixpt n j x y \<and> fixpt n j x y \<le> 256 * int (max x y) + 127"
  proof (cases "x \<le> y")
    case True
    then have "0 \<le> D" unfolding D_def by simp
    from sdiv_mult_le(1) [OF assms this] True show ?thesis
      unfolding fixpt_def D_def [symmetric] by (simp add: min_def max_def D_def)
  next
    case False
    then have "D \<le> 0" unfolding D_def by simp
    from sdiv_mult_le(2) [OF assms this] False show ?thesis
      unfolding fixpt_def D_def [symmetric] by (simp add: min_def max_def D_def)
  qed
  then show "256 * int (min x y) + 127 \<le> fixpt n j x y" "fixpt n j x y \<le> 256 * int (max x y) + 127" by simp_all
qed

lemma level_between:
  assumes "0 < n" "j \<le> n"
  shows "min x y \<le> level n j x y" "level n j x y \<le> max x y"
proof -
  have "(256 * int (min x y) + 127) div 256 \<le> fixpt n j x y div 256"
    by (intro zdiv_mono1 fixpt_between assms) simp
  then show "min x y \<le> level n j x y" unfolding level_def by linarith
  have "fixpt n j x y div 256 \<le> (256 * int (max x y) + 127) div 256"
    by (intro zdiv_mono1 fixpt_between assms) simp
  then show "level n j x y \<le> max x y" unfolding level_def by linarith
qed

lemma sdiv_rem_lt:
  assumes "0 < n"
  shows "\<bar>D - int n * (D sdiv int n)\<bar> < int n"
proof -
  have r: "0 \<le> a - int n * (a div int n) \<and> a - int n * (a div int n) < int n" for a
    using assms by (simp add: minus_mult_div_eq_mod)
  show ?thesis
    using r [of D] r [of "- D"] assms by (cases "D = 0"; cases "0 < D") (simp_all add: signed_divide_int_def)
qed

lemma level_final:
  assumes "0 < n" "n \<le> 128"
  shows "level n n x y = y"
proof -
  define q where "q = int n * ((256 * (int y - int x)) sdiv int n)"
  have "\<bar>256 * (int y - int x) - q\<bar> < 128"
    using sdiv_rem_lt [OF assms(1), of "256 * (int y - int x)"] assms(2) unfolding q_def by linarith
  then have "\<bar>256 * int y - 256 * int x - q\<bar> < 128" by (simp only: right_diff_distrib)
  then have "fixpt n n x y div 256 = int y" unfolding fixpt_def q_def [symmetric]
    by (intro int_div_pos_eq [where r = "256 * int x + 127 + q - 256 * int y"]) linarith+
  then show ?thesis by (simp add: level_def)
qed

section \<open>Colours\<close>

text \<open>The three levels of a colour word, and the colour word of three levels.\<close>

definition red :: "u16 \<Rightarrow> nat" where "red c = unat (drop_bit 1 c AND mask 3)"

definition green :: "u16 \<Rightarrow> nat" where "green c = unat (drop_bit 5 c AND mask 3)"

definition blue :: "u16 \<Rightarrow> nat" where "blue c = unat (drop_bit 9 c AND mask 3)"

definition rgb :: "nat \<Rightarrow> nat \<Rightarrow> nat \<Rightarrow> u16" where
  "rgb r g b = push_bit 1 (of_nat r) OR push_bit 5 (of_nat g) OR push_bit 9 (of_nat b)"

lemma colour_masks:
  "(0x000E :: u16) = push_bit 1 (mask 3)" "(0x00E0 :: u16) = push_bit 5 (mask 3)"
  "(0x0E00 :: u16) = push_bit 9 (mask 3)" "(0x0EEE :: u16) = push_bit 1 (mask 3) OR push_bit 5 (mask 3) OR push_bit 9 (mask 3)"
  by (simp_all add: mask_eq_exp_minus_1)

lemma levels_le: "red c \<le> 7" "green c \<le> 7" "blue c \<le> 7"
proof -
  have "unat ((w :: u16) AND mask 3) \<le> 7" for w
    using mod_less_divisor [of 8 "unat w"] by (simp only: unat_and_mask) simp
  then show "red c \<le> 7" "green c \<le> 7" "blue c \<le> 7" unfolding red_def green_def blue_def by blast+
qed

lemma part_mask: "push_bit k (drop_bit k c AND mask 3) = (c :: u16) AND push_bit k (mask 3)"
  by (auto intro!: bit_word_eqI simp: bit_simps)

lemma drop_part: "k \<le> 9 \<Longrightarrow> drop_bit k (c AND push_bit k (mask 3)) = drop_bit k (c :: u16) AND mask 3"
  by (auto intro!: bit_word_eqI simp: bit_simps)

lemma rgb_levels: "rgb (red c) (green c) (blue c) = c AND 0x0EEE"
  unfolding rgb_def red_def green_def blue_def colour_masks(4) of_nat_unat ucast_id part_mask
  by (simp only: bit.conj_disj_distrib)

lemma comp_eq:
  "comp_R c = of_nat (256 * red c)" "comp_G c = of_nat (256 * green c)" "comp_B c = of_nat (256 * blue c)"
proof -
  have "push_bit 8 (w :: u16) = of_nat (256 * unat w)" for w by (simp add: push_bit_eq_mult)
  then show "comp_R c = of_nat (256 * red c)" "comp_G c = of_nat (256 * green c)" "comp_B c = of_nat (256 * blue c)"
    unfolding comp_R_def comp_G_def comp_B_def red_def green_def blue_def cfg colour_masks
    by (simp_all only: drop_part)
qed

lemma fade_color_eq:
  assumes "0 \<le> R" "R < 2048" "0 \<le> G" "G < 2048" "0 \<le> B" "B < 2048"
  shows "fade_color (word_of_int R) (word_of_int G) (word_of_int B) =
    rgb (nat (R div 256)) (nat (G div 256)) (nat (B div 256))"
proof -
  have d: "drop_bit 8 (word_of_int v :: u16) = of_nat (nat (v div 256)) \<and> (of_nat (nat (v div 256)) :: u16) AND mask 3 = of_nat (nat (v div 256))"
    if "0 \<le> v" "v < 2048" for v
  proof -
    define k where "k = nat v"
    have v: "v = int k" and k: "k < 2048" using that unfolding k_def by simp_all
    have "unat (of_nat k :: u16) = k" using k by (simp add: unat_of_nat)
    moreover have "unat (of_nat (k div 256) :: u16) = k div 256" using k by (simp add: unat_of_nat)
    moreover have "k div 256 < 8" using k by simp
    ultimately show ?thesis unfolding v
      by (simp add: word_unat_eq_iff unat_drop_bit_eq drop_bit_eq_div [of 8 "k :: nat" for k] unat_and_mask
        zdiv_int [symmetric] nat_div_distrib del: drop_bit_eq_div)
  qed
  have p: "push_bit j w AND push_bit j (mask 3) = push_bit j (w :: u16)" if "w AND mask 3 = w" for j w
    using that by (simp add: push_bit_and [symmetric])
  show ?thesis
    unfolding fade_color_def rgb_def cfg colour_masks
    using d [OF assms(1,2)] d [OF assms(3,4)] d [OF assms(5,6)] by (simp only: p)
qed

text \<open>The colour after \<open>j\<close> of \<open>n\<close> frames from \<open>c\<close> to \<open>d\<close>.\<close>

definition fade_target :: "nat \<Rightarrow> nat \<Rightarrow> u16 \<Rightarrow> u16 \<Rightarrow> u16" where
  "fade_target n j c d =
    rgb (level n j (red c) (red d)) (level n j (green c) (green d)) (level n j (blue c) (blue d))"

lemma fade_color_val:
  assumes "0 < unat n" "unat n < 32768" "j \<le> unat n"
  shows "fade_color (fade_val (comp_R c) (comp_R d) n j) (fade_val (comp_G c) (comp_G d) n j)
    (fade_val (comp_B c) (comp_B d) n j) = fade_target (unat n) j c d"
proof -
  have b: "0 \<le> fixpt (unat n) j x y \<and> fixpt (unat n) j x y < 2048" if "x \<le> 7" "y \<le> 7" for x y
    using fixpt_between [OF assms(1,3), of x y] that by linarith
  show ?thesis
    unfolding comp_eq fade_target_def level_def
    by (simp only: fade_val_eq [OF levels_le(1) levels_le(1) assms(1,2)] fade_val_eq [OF levels_le(2) levels_le(2) assms(1,2)]
      fade_val_eq [OF levels_le(3) levels_le(3) assms(1,2)] fade_color_eq b levels_le)
qed

section \<open>The whole fade\<close>

definition pal_area :: "ptr \<Rightarrow> nat \<Rightarrow> nat set" where
  "pal_area p n = {p ..< p + n}"

text \<open>
  The state after \<open>j\<close> of \<open>n\<close> frames of a fade of the colours \<open>c i\<close> to \<open>d i\<close> (\<open>i < len\<close>).
\<close>

definition fade_data :: "u16 \<Rightarrow> nat \<Rightarrow> (nat \<Rightarrow> u16) \<Rightarrow> (nat \<Rightarrow> u16) \<Rightarrow> nat \<Rightarrow> 'a pal_st_scheme \<Rightarrow> bool" where
  "fade_data n len c d j s \<longleftrightarrow>
    unat (fadeSize s) = len \<and>
    pal_area (fadeCurrentPal s) len \<inter> queue_area s = {} \<and>
    (\<forall>i < len.
      fadeR s i = fade_val (comp_R (c i)) (comp_R (d i)) n j \<and> fadeSR s i = fade_step (comp_R (c i)) (comp_R (d i)) n \<and>
      fadeG s i = fade_val (comp_G (c i)) (comp_G (d i)) n j \<and> fadeSG s i = fade_step (comp_G (c i)) (comp_G (d i)) n \<and>
      fadeB s i = fade_val (comp_B (c i)) (comp_B (d i)) n j \<and> fadeSB s i = fade_step (comp_B (c i)) (comp_B (d i)) n)"

definition fading :: "u16 \<Rightarrow> nat \<Rightarrow> (nat \<Rightarrow> u16) \<Rightarrow> (nat \<Rightarrow> u16) \<Rightarrow> nat \<Rightarrow> 'a pal_st_scheme \<Rightarrow> bool" where
  "fading n len c d j s \<longleftrightarrow> fadeCounter s = n - of_nat j \<and> fade_data n len c d j s"

definition shows_fade :: "nat \<Rightarrow> nat \<Rightarrow> nat \<Rightarrow> (nat \<Rightarrow> u16) \<Rightarrow> (nat \<Rightarrow> u16) \<Rightarrow> 'a pal_st_scheme \<Rightarrow> bool" where
  "shows_fade n j len c d s \<longleftrightarrow> (\<forall>i < len. ram s (fadeCurrentPal s + i) = fade_target n j (c i) (d i))"

lemma fade_data_queued: "queued_only s s' \<Longrightarrow> fade_data n len c d j s' = fade_data n len c d j s"
  unfolding fade_data_def by (simp only: queued_only_sel)

lemma fade_data_counter [simp]: "fade_data n len c d j (s\<lparr>fadeCounter := k\<rparr>) = fade_data n len c d j s"
  unfolding fade_data_def by (simp add: queue_area_def)

lemma queued_ram:
  "queued_only s s' \<Longrightarrow> pal_area p len \<inter> queue_area s = {} \<Longrightarrow> i < len \<Longrightarrow> ram s' (p + i) = ram s (p + i)"
  unfolding queued_only_def pal_area_def by (auto simp: disjoint_iff)

lemma counter_pos:
  fixes n :: u16
  assumes "unat n < 32768" "j \<le> unat n"
  shows "0 < sint (n - of_nat j) \<longleftrightarrow> j < unat n" "sint (n - of_nat j) = int (unat n - j)"
proof -
  have u: "unat (n - of_nat j) = unat n - j"
    using assms by (simp add: unat_sub_if' unat_of_nat)
  show "sint (n - of_nat j) = int (unat n - j)" using sint_small [of "n - of_nat j"] assms(1) unfolding u by linarith
  then show "0 < sint (n - of_nat j) \<longleftrightarrow> j < unat n" by (simp only: of_nat_0_less_iff zero_less_diff)
qed

lemma PAL_doFadeStep_fading:
  assumes f: "fading n len c d j s" and n: "unat n < 32768" and j: "j < unat n"
  obtains s' where "PAL_doFadeStep s = (Suc j < unat n, s')" "fading n len c d (Suc j) s'"
    "shows_fade (unat n) (Suc j) len c d s'"
proof -
  define s1 where "s1 = fadeStep_loop (unat (fadeSize s)) 0 (fadeCurrentPal s) s"
  define s2 where "s2 = PAL_setColors (fadeInd s1) (fadeCurrentPal s1) (fadeSize s1) DMA_QUEUE s1"
  define s3 where "s3 = s2\<lparr>fadeCounter := fadeCounter s2 - 1\<rparr>"
  have q: "queued_only s1 s2" unfolding s2_def by (rule PAL_setColors_only)
  note fd = f [unfolded fading_def fade_data_def]
  have len: "unat (fadeSize s) = len" and cnt: "fadeCounter s = n - of_nat j" using fd by blast+
  have s1: "s1 = s\<lparr>fadeR := fadeR s1, fadeG := fadeG s1, fadeB := fadeB s1, ram := ram s1\<rparr>"
    unfolding s1_def fadeStep_loop_eq by simp
  have c1: "fadeCounter s1 = n - of_nat j" "fadeCurrentPal s1 = fadeCurrentPal s" "queue_area s1 = queue_area s"
    "fadeSize s1 = fadeSize s" "fadeSR s1 = fadeSR s" "fadeSG s1 = fadeSG s" "fadeSB s1 = fadeSB s"
    by (subst s1; simp add: cnt queue_area_def)+
  have val: "fadeR s1 i = fade_val (comp_R (c i)) (comp_R (d i)) n (Suc j) \<and>
      fadeG s1 i = fade_val (comp_G (c i)) (comp_G (d i)) n (Suc j) \<and>
      fadeB s1 i = fade_val (comp_B (c i)) (comp_B (d i)) n (Suc j) \<and>
      ram s1 (fadeCurrentPal s + i) = fade_target (unat n) (Suc j) (c i) (d i)" if i: "i < len" for i
  proof -
    have "0 < unat n" "Suc j \<le> unat n" using j by simp_all
    note fc = fade_color_val [OF this(1) n this(2)]
    show ?thesis using fd i unfolding s1_def fadeStep_loop_eq len
      by (simp add: seg_def fade_val_Suc [symmetric] fc)
  qed
  have dis: "pal_area (fadeCurrentPal s1) len \<inter> queue_area s1 = {}" using fd unfolding c1 by blast
  have "fade_data n len c d (Suc j) s1" using fd val dis unfolding fade_data_def by (simp add: c1)
  then have f3: "fading n len c d (Suc j) s3"
    unfolding fading_def s3_def by (simp add: fade_data_queued [OF q] queued_only_sel [OF q] c1)
  have "shows_fade (unat n) (Suc j) len c d s3"
    unfolding shows_fade_def s3_def using queued_ram [OF q dis] val by (simp add: queued_only_sel [OF q] c1)
  moreover have "PAL_doFadeStep s = (Suc j < unat n, s3)"
  proof -
    have "0 < sint (fadeCounter s)" unfolding cnt using counter_pos [OF n, of j] j by simp
    moreover have "0 < sint (fadeCounter s3) \<longleftrightarrow> Suc j < unat n"
      using f3 counter_pos(1) [OF n, of "Suc j"] j unfolding fading_def by simp
    ultimately show ?thesis
      unfolding PAL_doFadeStep_def Let_def s1_def [symmetric] s2_def [symmetric] s3_def [symmetric] by simp
  qed
  ultimately show ?thesis using f3 that by blast
qed

definition fade_len :: "u16 \<Rightarrow> u16 \<Rightarrow> nat" where
  "fade_len fromCol toCol = unat toCol - unat fromCol + 1"

text \<open>
  A call the code is written for: a range of the 64 colours, a number of frames that is positive as
  a signed value, buffers that do not overlap the palettes or the queue.
\<close>

definition fade_args :: "u16 \<Rightarrow> u16 \<Rightarrow> ptr \<Rightarrow> ptr \<Rightarrow> u16 \<Rightarrow> 'a pal_st_scheme \<Rightarrow> bool" where
  "fade_args fromCol toCol palSrc palDst n s \<longleftrightarrow>
    fromCol \<le> toCol \<and> toCol < 64 \<and> 0 < unat n \<and> unat n < 32768 \<and>
    (let len = fade_len fromCol toCol in
     pal_area (fadeCurrentPal s) len \<inter> queue_area s = {} \<and>
     (pal_area palSrc len \<union> pal_area palDst len) \<inter> (pal_area (fadeCurrentPal s) len \<union> pal_area (fadeEndPal s) len) = {})"

lemma copy_words_other: "a \<notin> {dst ..< dst + n} \<Longrightarrow> copy_words dst src n m a = m a"
  by (induction n arbitrary: dst src m) auto

lemma double_half: "unat (w :: u16) \<le> 64 \<Longrightarrow> unat (w * 2) div 2 = unat w"
  by (simp add: unat_word_ariths)

lemma fade_len_eq:
  assumes "fromCol \<le> toCol" "toCol < 64"
  shows "unat (toCol - fromCol + 1) = fade_len fromCol toCol" "fade_len fromCol toCol \<le> 64"
proof -
  have t: "unat toCol < 64" using assms(2) by (simp add: word_less_nat_alt)
  have "unat (toCol - fromCol) = unat toCol - unat fromCol" using assms(1) by (simp add: unat_sub)
  then show "unat (toCol - fromCol + 1) = fade_len fromCol toCol" "fade_len fromCol toCol \<le> 64"
    using t by (simp_all add: fade_len_def unat_word_ariths)
qed

lemma PAL_initFade_fading:
  assumes "fade_args fromCol toCol palSrc palDst n s"
  obtains s' where "PAL_initFade fromCol toCol palSrc palDst n s = (True, s')"
    "fading n (fade_len fromCol toCol) (\<lambda>i. ram s (palSrc + i)) (\<lambda>i. ram s (palDst + i)) 0 s'"
proof -
  define len where "len = fade_len fromCol toCol"
  note a = assms [unfolded fade_args_def Let_def, folded len_def]
  have len: "unat (toCol - fromCol + 1) = len" using a fade_len_eq unfolding len_def by blast
  define m where "m = copy_words (fadeEndPal s) palDst (unat ((toCol - fromCol + 1) * 2) div 2)
    (copy_words (fadeCurrentPal s) palSrc (unat ((toCol - fromCol + 1) * 2) div 2) (ram s))"
  have l2: "unat ((toCol - fromCol + 1) * 2) div 2 = len"
    using double_half [of "toCol - fromCol + 1"] a fade_len_eq(2) [of fromCol toCol] unfolding len len_def by blast
  have m: "m (palSrc + i) = ram s (palSrc + i)" "m (palDst + i) = ram s (palDst + i)" if "i < len" for i
  proof -
    have "m x = ram s x" if "x \<in> pal_area palSrc len \<union> pal_area palDst len" for x
    proof -
      have "x \<notin> pal_area (fadeCurrentPal s) len" "x \<notin> pal_area (fadeEndPal s) len" using a that by blast+
      then show ?thesis unfolding m_def l2 pal_area_def by (simp add: copy_words_other)
    qed
    then show "m (palSrc + i) = ram s (palSrc + i)" "m (palDst + i) = ram s (palDst + i)"
      using that by (simp_all add: pal_area_def)
  qed
  define s1 where "s1 = initFade_loop len 0 palSrc palDst n
    (s\<lparr>fadeInd := fromCol, fadeSize := toCol - fromCol + 1, fadeCounter := n, ram := m\<rparr>)"
  have f: "fading n len (\<lambda>i. ram s (palSrc + i)) (\<lambda>i. ram s (palDst + i)) 0 s1"
    using a unfolding fading_def fade_data_def s1_def initFade_loop_eq
    by (simp add: len queue_area_def seg_def m fade_val_def)
  define s2 where "s2 = PAL_setColors (fadeInd s1) (fadeCurrentPal s1) (fadeSize s1) DMA_QUEUE s1"
  have q: "queued_only s1 s2" unfolding s2_def by (rule PAL_setColors_only)
  have "PAL_initFade fromCol toCol palSrc palDst n s = (True, s2)"
    using a unfolding PAL_initFade_def Let_def s2_def s1_def m_def len [symmetric] by (auto simp: unat_gt_0)
  moreover have "fading n len (\<lambda>i. ram s (palSrc + i)) (\<lambda>i. ram s (palDst + i)) 0 s2"
    using f unfolding fading_def by (simp only: fade_data_queued [OF q] queued_only_sel [OF q])
  ultimately show ?thesis using that unfolding len_def by blast
qed

definition fade_steps :: "nat \<Rightarrow> 'a pal_st_scheme \<Rightarrow> 'a pal_st_scheme" where
  "fade_steps j = ((\<lambda>s. snd (PAL_doFadeStep s)) ^^ j)"

lemma fade_steps_fading:
  assumes "fading n len c d 0 s" "unat n < 32768" "j \<le> unat n"
  shows "fading n len c d j (fade_steps j s) \<and> (0 < j \<longrightarrow> shows_fade (unat n) j len c d (fade_steps j s))"
  using assms(3)
proof (induction j)
  case 0
  then show ?case using assms(1) by (simp add: fade_steps_def)
next
  case (Suc j)
  then have f: "fading n len c d j (fade_steps j s)" and j: "j < unat n" by simp_all
  obtain s' where "PAL_doFadeStep (fade_steps j s) = (Suc j < unat n, s')" "fading n len c d (Suc j) s'"
    "shows_fade (unat n) (Suc j) len c d s'" using PAL_doFadeStep_fading [OF f assms(2) j] .
  moreover have "fade_steps (Suc j) s = snd (PAL_doFadeStep (fade_steps j s))" by (simp add: fade_steps_def)
  ultimately show ?case by simp
qed

text \<open>
  C20: after \<open>PAL_initFade\<close> and \<open>j\<close> calls of \<open>PAL_doFadeStep\<close> the buffer that is sent to the colour
  memory holds, for each colour, the colour \<open>j\<close>/\<open>n\<close> of the way, component by component, and the
  fade reports that it is done exactly after \<open>n\<close> frames.
\<close>

theorem PAL_fade_steps:
  assumes "fade_args fromCol toCol palSrc palDst n s" "0 < j" "j \<le> unat n"
  shows "let s' = fade_steps j (snd (PAL_initFade fromCol toCol palSrc palDst n s)) in
    (\<forall>i < fade_len fromCol toCol. ram s' (fadeCurrentPal s' + i) =
       fade_target (unat n) j (ram s (palSrc + i)) (ram s (palDst + i))) \<and>
    (PAL_isManualFadeDone s' \<longleftrightarrow> j = unat n)"
proof -
  obtain s0 where i: "PAL_initFade fromCol toCol palSrc palDst n s = (True, s0)"
    and f: "fading n (fade_len fromCol toCol) (\<lambda>i. ram s (palSrc + i)) (\<lambda>i. ram s (palDst + i)) 0 s0"
    using PAL_initFade_fading [OF assms(1)] .
  have n: "unat n < 32768" using assms(1) unfolding fade_args_def by blast
  from fade_steps_fading [OF f n assms(3)] assms(2) counter_pos(1) [OF n assms(3)] assms(3) show ?thesis
    unfolding i Let_def snd_conv shows_fade_def fading_def PAL_isManualFadeDone_def by auto
qed

text \<open>A state with a black palette at word 1200 and a white one at word 1300.\<close>

definition pal0 :: pal_st where
  "pal0 = dma_st.extend (dma0\<lparr>ram := (\<lambda>a. if a < 1300 then 0 else 0x0EEE)\<rparr>)
    (pal_st.fields 1000 1100 1200 (\<lambda>_. 0) (\<lambda>_. 0) (\<lambda>_. 0) (\<lambda>_. 0) (\<lambda>_. 0) (\<lambda>_. 0) 0 0 0 (\<lambda>_. 0))"

lemma pal0_sel:
  "ram pal0 = (\<lambda>a. if a < 1300 then 0 else 0x0EEE)" "fadeCurrentPal pal0 = 1000" "fadeEndPal pal0 = 1100"
  "queue_area pal0 = queue_area dma0"
  by (simp_all add: pal0_def dma_st.defs pal_st.defs queue_area_def)

lemma pal0_args: "0 < unat n \<Longrightarrow> unat n < 32768 \<Longrightarrow> fade_args 0 15 1200 1300 n pal0"
  unfolding fade_args_def pal0_sel Let_def pal_area_def by (auto simp: fade_len_def queue_area_def dma0_def)

theorem PAL_fade_steps_witness:
  "let s' = fade_steps 10 (snd (PAL_initFade 0 15 1200 1300 20 pal0)) in
    (\<forall>i < fade_len 0 15. ram s' (fadeCurrentPal s' + i) =
       fade_target (unat (20 :: u16)) 10 (ram pal0 (1200 + i)) (ram pal0 (1300 + i))) \<and>
    (PAL_isManualFadeDone s' \<longleftrightarrow> 10 = unat (20 :: u16))"
  by (rule PAL_fade_steps [OF pal0_args]) simp_all

text \<open>
  No component ever leaves the interval between the colour it starts from and the one it goes
  to, whatever the number of frames.
\<close>

lemma fade_target_between:
  assumes "0 < n" "j \<le> n"
  shows "(\<exists>r g b. fade_target n j c d = rgb r g b \<and>
      min (red c) (red d) \<le> r \<and> r \<le> max (red c) (red d) \<and>
      min (green c) (green d) \<le> g \<and> g \<le> max (green c) (green d) \<and>
      min (blue c) (blue d) \<le> b \<and> b \<le> max (blue c) (blue d))"
  unfolding fade_target_def using level_between [OF assms] by blast

lemma fade_target_final: "0 < n \<Longrightarrow> n \<le> 128 \<Longrightarrow> fade_target n n c d = d AND 0x0EEE"
  by (simp only: fade_target_def level_final rgb_levels)

section \<open>The synchronous fade\<close>

text \<open>What \<open>PAL_fade\<close> needs of the vertical blank tasks: they leave the fade alone.\<close>

definition keeps_fade :: "('a pal_st_scheme \<Rightarrow> 'a pal_st_scheme) \<Rightarrow> bool" where
  "keeps_fade vblank \<longleftrightarrow> (\<forall>s. fadeR (vblank s) = fadeR s \<and> fadeG (vblank s) = fadeG s \<and> fadeB (vblank s) = fadeB s \<and>
    fadeSR (vblank s) = fadeSR s \<and> fadeSG (vblank s) = fadeSG s \<and> fadeSB (vblank s) = fadeSB s \<and>
    fadeSize (vblank s) = fadeSize s \<and> fadeCounter (vblank s) = fadeCounter s \<and>
    fadeCurrentPal (vblank s) = fadeCurrentPal s \<and> queue_area (vblank s) = queue_area s \<and>
    (\<forall>a \<in> pal_area (fadeCurrentPal s) (unat (fadeSize s)). ram (vblank s) a = ram s a))"

lemma keeps_fading: "keeps_fade vblank \<Longrightarrow> fading n len c d j (vblank s) = fading n len c d j s"
  unfolding keeps_fade_def fading_def fade_data_def by simp

lemma keeps_shows:
  assumes "keeps_fade vblank" "fading n len c d j s" "shows_fade k i len c d s"
  shows "shows_fade k i len c d (vblank s)"
  using assms unfolding keeps_fade_def fading_def fade_data_def shows_fade_def pal_area_def by simp

lemma fade_loop_returns:
  assumes "keeps_fade vblank" "fading n len c d j s" "unat n < 32768" "j < unat n"
  shows "\<exists>s'. fade_loop vblank s = Some s' \<and> fading n len c d (unat n) s' \<and> shows_fade (unat n) (unat n) len c d s'"
  using assms(2,4)
proof (induction "unat n - j" arbitrary: j s)
  case 0
  then show ?case by simp
next
  case (Suc k)
  have "fading n len c d j (vblank s)" using Suc.prems(1) keeps_fading [OF assms(1)] by blast
  then obtain s' where s': "PAL_doFadeStep (vblank s) = (Suc j < unat n, s')" "fading n len c d (Suc j) s'"
    "shows_fade (unat n) (Suc j) len c d s'" using PAL_doFadeStep_fading assms(3) Suc.prems(2) by blast
  note u = fade_loop.simps [of vblank s, unfolded s'(1) Let_def prod.case]
  show ?case
  proof (cases "Suc j < unat n")
    case True
    have "k = unat n - Suc j" using Suc.hyps(2) by simp
    from Suc.hyps(1) [OF this s'(2) True] show ?thesis using u True by simp
  next
    case False
    then have "Suc j = unat n" using Suc.prems(2) by simp
    then show ?thesis using u False s'(2,3) by simp
  qed
qed

lemma PAL_fade_target:
  assumes "keeps_fade vblank" "fade_args fromCol toCol palSrc palDst n s"
  shows "\<exists>s'. PAL_fade vblank fromCol toCol palSrc palDst n False s = Some s' \<and>
    (\<forall>i < fade_len fromCol toCol. ram s' (fadeCurrentPal s' + i) =
       fade_target (unat n) (unat n) (ram s (palSrc + i)) (ram s (palDst + i)))"
proof -
  let ?len = "fade_len fromCol toCol" and ?c = "\<lambda>i. ram s (palSrc + i)" and ?d = "\<lambda>i. ram s (palDst + i)"
  obtain s0 where i: "PAL_initFade fromCol toCol palSrc palDst n s = (True, s0)" and f: "fading n ?len ?c ?d 0 s0"
    using PAL_initFade_fading [OF assms(2)] .
  have n: "unat n < 32768" "0 < unat n" using assms(2) unfolding fade_args_def by blast+
  obtain s1 where s1: "fade_loop vblank s0 = Some s1" "fading n ?len ?c ?d (unat n) s1"
    "shows_fade (unat n) (unat n) ?len ?c ?d s1" using fade_loop_returns [OF assms(1) f n] by blast
  have "shows_fade (unat n) (unat n) ?len ?c ?d (vblank s1)" using keeps_shows [OF assms(1) s1(2,3)] .
  then show ?thesis unfolding PAL_fade_def i Let_def prod.case s1(1) shows_fade_def by simp
qed

text \<open>
  C21: a synchronous fade of at most 128 frames returns, and the colours then shown are exactly the
  target palette (its bits that the chip keeps), given vertical blank tasks that leave the fade
  alone.
\<close>

theorem PAL_fade_reaches:
  assumes "keeps_fade vblank" "fade_args fromCol toCol palSrc palDst n s" "unat n \<le> 128"
  shows "\<exists>s'. PAL_fade vblank fromCol toCol palSrc palDst n False s = Some s' \<and>
    (\<forall>i < fade_len fromCol toCol. ram s' (fadeCurrentPal s' + i) = ram s (palDst + i) AND VDPPALETTE_COLORMASK)"
proof -
  have "0 < unat n" using assms(2) unfolding fade_args_def by blast
  then show ?thesis using PAL_fade_target [OF assms(1,2)] assms(3) by (simp only: fade_target_final cfg)
qed

lemma keeps_fade_flush: "keeps_fade (\<lambda>s. s\<lparr>queueIndex := 0, queueIndexLimit := 0, queueTransferSize := 0\<rparr>)"
  by (simp add: keeps_fade_def queue_area_def)

theorem PAL_fade_reaches_witness:
  "\<exists>s'. PAL_fade (\<lambda>s. s\<lparr>queueIndex := 0, queueIndexLimit := 0, queueTransferSize := 0\<rparr>) 0 15 1200 1300 128 False pal0 = Some s' \<and>
    (\<forall>i < fade_len 0 15. ram s' (fadeCurrentPal s' + i) = ram pal0 (1300 + i) AND VDPPALETTE_COLORMASK)"
  by (rule PAL_fade_reaches [OF keeps_fade_flush pal0_args]) simp_all

text \<open>
  With more frames the truncated steps can fall short. Over 150 frames (three seconds at 50 Hz) a
  fade from black to white ends, and reports that it is done, at a grey: \<open>0xCCC\<close> and not \<open>0xEEE\<close>.
\<close>

theorem PAL_fade_misses:
  assumes "keeps_fade vblank" "fade_args fromCol toCol palSrc palDst 150 s"
    and "ram s palSrc = 0" "ram s palDst = 0x0EEE"
  shows "\<exists>s'. PAL_fade vblank fromCol toCol palSrc palDst 150 False s = Some s' \<and> ram s' (fadeCurrentPal s') = 0x0CCC"
proof -
  have l: "level 150 150 0 7 = 6" by (simp add: level_def fixpt_def signed_divide_int_def)
  have "fade_target 150 150 0 0x0EEE = 0x0CCC"
    by (simp add: fade_target_def red_def green_def blue_def mask_eq_exp_minus_1 l rgb_def)
  moreover have "0 < fade_len fromCol toCol" by (simp add: fade_len_def)
  moreover have "unat (150 :: u16) = 150" by simp
  ultimately show ?thesis using PAL_fade_target [OF assms(1,2)] assms(3,4) by (metis Nat.add_0_right)
qed

theorem PAL_fade_misses_witness:
  "\<exists>s'. PAL_fade (\<lambda>s. s\<lparr>queueIndex := 0, queueIndexLimit := 0, queueTransferSize := 0\<rparr>) 0 15 1200 1300 150 False pal0 = Some s' \<and>
    ram s' (fadeCurrentPal s') = 0x0CCC"
  by (rule PAL_fade_misses [OF keeps_fade_flush pal0_args]) (simp_all add: pal0_sel)

section \<open>Reading the colour memory\<close>

lemma seg_append: "seg (d + m) n (\<lambda>k. f (m + k)) (seg d m f g) = seg d (m + n) f g"
  by (auto simp: seg_def fun_eq_iff)

lemma cram_word_ram [simp]: "cram_word addr a (s\<lparr>ram := m\<rparr>) = cram_word addr a s"
  by (simp add: cram_word_def)

lemma get_words_eq:
  "get_words n addr a d s = s\<lparr>ram := seg d n (\<lambda>k. cram_word addr (a + k) s AND VDPPALETTE_COLORMASK) (ram s)\<rparr>"
proof (induction n arbitrary: a d s)
  case (Suc n)
  show ?case by (simp add: Suc.IH seg_Suc [symmetric] fun_upd_def)
qed simp

lemma long_words:
  fixes u v m :: u16
  shows "ucast (drop_bit 16 ((push_bit 16 (ucast u) OR ucast v :: u32) AND (push_bit 16 (ucast m) OR ucast m))) = u AND m"
    and "ucast ((push_bit 16 (ucast u) OR ucast v :: u32) AND (push_bit 16 (ucast m) OR ucast m)) = v AND m"
proof -
  have b: "bit w n \<Longrightarrow> n < 16" for w :: u16 and n using bit_imp_le_length [of w n] by simp
  show "ucast (drop_bit 16 ((push_bit 16 (ucast u) OR ucast v :: u32) AND (push_bit 16 (ucast m) OR ucast m))) = u AND m"
    "ucast ((push_bit 16 (ucast u) OR ucast v :: u32) AND (push_bit 16 (ucast m) OR ucast m)) = v AND m"
    by (auto intro!: bit_word_eqI simp: bit_simps dest: b)
qed

lemma store_cram_long:
  "store32 d (cram_long addr a s AND mask32) m =
    seg d 2 (\<lambda>k. cram_word addr (a + k) s AND VDPPALETTE_COLORMASK) m"
proof
  fix x
  have w: "ucast (drop_bit 16 (cram_long addr a s AND mask32)) = cram_word addr a s AND VDPPALETTE_COLORMASK"
    "ucast (cram_long addr a s AND mask32) = cram_word addr (a + 1) s AND VDPPALETTE_COLORMASK"
    unfolding cram_long_def mask32_def by (rule long_words)+
  consider "x = d" | "x = d + 1" | "x \<notin> {d, d + 1}" by blast
  then show "store32 d (cram_long addr a s AND mask32) m x =
    seg d 2 (\<lambda>k. cram_word addr (a + k) s AND VDPPALETTE_COLORMASK) m x"
    unfolding store32_def w by cases (auto simp: seg_def)
qed

lemma get_longs_eq:
  "get_longs n addr a d s = s\<lparr>ram := seg d (2 * n) (\<lambda>k. cram_word addr (a + k) s AND VDPPALETTE_COLORMASK) (ram s)\<rparr>"
proof (induction n arbitrary: a d s)
  case (Suc n)
  show ?case
    using seg_append [of d 2 "2 * n" "\<lambda>k. cram_word addr (a + k) s AND VDPPALETTE_COLORMASK" "ram s"]
    by (simp add: Suc.IH store_cram_long)
qed simp

lemma get_blocks_eq:
  "get_blocks n addr a d s = s\<lparr>ram := seg d (16 * n) (\<lambda>k. cram_word addr (a + k) s AND VDPPALETTE_COLORMASK) (ram s)\<rparr>"
proof (induction n arbitrary: a d s)
  case (Suc n)
  show ?case
    using seg_append [of d 16 "16 * n" "\<lambda>k. cram_word addr (a + k) s AND VDPPALETTE_COLORMASK" "ram s"]
    by (simp add: Suc.IH get_longs_eq add.assoc)
qed simp

text \<open>
  \<open>PAL_getColors\<close>, which reads two colours at a time in blocks of sixteen and then the rest one
  by one, stores exactly the \<open>count\<close> colours from \<open>index\<close> on, masked, and touches nothing else.
\<close>

theorem PAL_getColors_ok:
  "ram (PAL_getColors index dest count s) =
    seg dest (unat count) (\<lambda>k. cram s ((unat index + k) mod 64) AND VDPPALETTE_COLORMASK) (ram s)"
proof -
  let ?s = "ctrl_l (VDP_READ_CRAM_ADDR (ucast (index * 2))) (VDP_setAutoInc 2 s)"
  have s: "ram ?s = ram s" "cram ?s = cram s"
    by (simp_all add: ctrl_l_def VDP_setAutoInc_def write_reg_def ctrl_w_def set_reg_def)
  have "unat (index * 2 AND 0x7F) div 2 = unat index mod 64"
  proof -
    have "i * 2 mod 65536 mod 128 div 2 = i mod 64" for i :: nat
      using mod_mod_cancel [of 128 65536 "i * 2"] mult_mod_right [of 2 i 64] by (simp add: mult.commute)
    then show ?thesis using unat_and_mask [of "index * 2" 7] by (simp add: mask_eq_exp_minus_1 unat_word_ariths)
  qed
  then have w: "cram_word (index * 2) k ?s = cram s ((unat index + k) mod 64)" for k
    unfolding cram_word_def s by (simp add: mod_simps)
  have c: "16 * unat (drop_bit 4 count) + unat (count AND 0xF) = unat count"
    using unat_and_mask [of count 4] mult_div_mod_eq [of 16 "unat count"]
    by (simp only: unat_drop_bit_eq drop_bit_eq_div [of 4 "unat count"]) (simp add: mask_eq_exp_minus_1)
  show ?thesis
    unfolding PAL_getColors_def Let_def get_blocks_eq get_words_eq
    using seg_append [of dest "16 * unat (drop_bit 4 count)" "unat (count AND 0xF)"
      "\<lambda>k. cram s ((unat index + k) mod 64) AND VDPPALETTE_COLORMASK" "ram s"]
    by (simp add: w s c)
qed

end
