(* ===== verification/Sprites.thy ===== *)
theory Sprites
  imports DmaQueue
begin

text \<open>
  The hardware sprites, \<open>src/vdp_spr.c\<close>: allocation of the 80 entries of the sprite table, their
  linking, their attributes and the transfer of the table.

  The cache of the sprite table is an array in memory, 4 words per entry: y, size and link (a byte
  each, the size first), attributes, x. The stack of free entries is private to the file: a function
  from positions to entry numbers. A read or write outside the stack is \<open>None\<close>.
\<close>

section \<open>State\<close>

definition SAT_MAX_SIZE :: nat where [cfg]: "SAT_MAX_SIZE = 80"

record spr_st = dma_st +
  vdpSpriteCache :: ptr
  lastAllocatedVDPSprite :: nat
  highestVDPSpriteIndex :: s16
  spr_allocStack :: "nat \<Rightarrow> nat"
  spr_free :: nat

definition spr_y :: "nat \<Rightarrow> 'a spr_st_scheme \<Rightarrow> ptr" where
  "spr_y k s = vdpSpriteCache s + 4 * k"

definition spr_size_link :: "nat \<Rightarrow> 'a spr_st_scheme \<Rightarrow> ptr" where
  "spr_size_link k s = vdpSpriteCache s + 4 * k + 1"

definition spr_attribut :: "nat \<Rightarrow> 'a spr_st_scheme \<Rightarrow> ptr" where
  "spr_attribut k s = vdpSpriteCache s + 4 * k + 2"

definition spr_x :: "nat \<Rightarrow> 'a spr_st_scheme \<Rightarrow> ptr" where
  "spr_x k s = vdpSpriteCache s + 4 * k + 3"

definition spr_put :: "ptr \<Rightarrow> u16 \<Rightarrow> 'a spr_st_scheme \<Rightarrow> 'a spr_st_scheme" where
  "spr_put p v s = s\<lparr>ram := (ram s)(p := v)\<rparr>"

definition get_link :: "nat \<Rightarrow> 'a spr_st_scheme \<Rightarrow> u8" where
  "get_link k s = ucast (ram s (spr_size_link k s))"

definition set_link :: "nat \<Rightarrow> u8 \<Rightarrow> 'a spr_st_scheme \<Rightarrow> 'a spr_st_scheme" where
  "set_link k v s = spr_put (spr_size_link k s) ((ram s (spr_size_link k s) AND 0xFF00) OR ucast v) s"

definition get_size :: "nat \<Rightarrow> 'a spr_st_scheme \<Rightarrow> u8" where
  "get_size k s = ucast (drop_bit 8 (ram s (spr_size_link k s)))"

definition set_size :: "nat \<Rightarrow> u8 \<Rightarrow> 'a spr_st_scheme \<Rightarrow> 'a spr_st_scheme" where
  "set_size k v s = spr_put (spr_size_link k s) ((ram s (spr_size_link k s) AND 0xFF) OR push_bit 8 (ucast v)) s"

text \<open>The bit field of width \<open>w\<close> at bit \<open>b\<close> of the attribute word.\<close>

definition get_field :: "nat \<Rightarrow> nat \<Rightarrow> nat \<Rightarrow> 'a spr_st_scheme \<Rightarrow> u16" where
  "get_field b w k s = drop_bit b (ram s (spr_attribut k s)) AND mask w"

definition set_field :: "nat \<Rightarrow> nat \<Rightarrow> nat \<Rightarrow> u16 \<Rightarrow> 'a spr_st_scheme \<Rightarrow> 'a spr_st_scheme" where
  "set_field b w k v s =
    spr_put (spr_attribut k s) ((ram s (spr_attribut k s) AND NOT (push_bit b (mask w))) OR push_bit b (v AND mask w)) s"

section \<open>Allocation\<close>

definition VDP_releaseAllSprites :: "'a spr_st_scheme \<Rightarrow> 'a spr_st_scheme" where
  "VDP_releaseAllSprites s = s\<lparr>
     spr_allocStack := (\<lambda>i. if i < SAT_MAX_SIZE then (SAT_MAX_SIZE - 1) - i else spr_allocStack s i),
     spr_free := SAT_MAX_SIZE, highestVDPSpriteIndex := - 1\<rparr>"

definition VDP_clearSprites :: "'a spr_st_scheme \<Rightarrow> 'a spr_st_scheme" where
  "VDP_clearSprites s = set_link 0 0 (spr_put (spr_y 0 s) 0 s)"

definition VDP_resetSprites :: "'a spr_st_scheme \<Rightarrow> 'a spr_st_scheme" where
  "VDP_resetSprites s = VDP_clearSprites (VDP_releaseAllSprites s)"

text \<open>\<open>*--free\<close> and \<open>*free++ = spr\<close>\<close>

definition spr_pop :: "'a spr_st_scheme \<Rightarrow> (nat \<times> 'a spr_st_scheme) option" where
  "spr_pop s = (if spr_free s = 0 then None else Some (spr_allocStack s (spr_free s - 1), s\<lparr>spr_free := spr_free s - 1\<rparr>))"

definition spr_push :: "nat \<Rightarrow> 'a spr_st_scheme \<Rightarrow> 'a spr_st_scheme option" where
  "spr_push k s =
    (if spr_free s \<ge> SAT_MAX_SIZE then None
     else Some (s\<lparr>spr_allocStack := (spr_allocStack s)(spr_free s := k), spr_free := spr_free s + 1\<rparr>))"

definition s16_max :: "s16 \<Rightarrow> s16 \<Rightarrow> s16" where
  "s16_max ind m = (if sint ind > sint m then ind else m)"

fun allocateSprites_loop ::
  "nat \<Rightarrow> nat \<Rightarrow> s16 \<Rightarrow> 'a spr_st_scheme \<Rightarrow> (nat \<times> s16 \<times> 'a spr_st_scheme) option" where
  "allocateSprites_loop 0 spr maxInd s = Some (spr, maxInd, s)"
| "allocateSprites_loop (Suc remaining) spr maxInd s =
    (case spr_pop s of
       None \<Rightarrow> None
     | Some (curSpr, s) \<Rightarrow>
         (let ind = of_nat curSpr :: s16;
              maxInd = s16_max ind maxInd;
              s = set_link spr (ucast ind) s
          in allocateSprites_loop remaining curSpr maxInd s))"

definition VDP_allocateSprites :: "u16 \<Rightarrow> 'a spr_st_scheme \<Rightarrow> (s16 \<times> 'a spr_st_scheme) option" where
  "VDP_allocateSprites num s =
    (if spr_free s < unat num then Some (- 1, s)
     else case spr_pop s of
       None \<Rightarrow> None
     | Some (spr, s) \<Rightarrow>
         (let res = of_nat spr :: s16;
              remaining = num - 1
          in case allocateSprites_loop (unat remaining) spr res s of
               None \<Rightarrow> None
             | Some (spr, maxInd, s) \<Rightarrow>
                 (let s = s\<lparr>highestVDPSpriteIndex := s16_max maxInd (highestVDPSpriteIndex s)\<rparr>;
                      s = set_link spr 0 s;
                      s = s\<lparr>lastAllocatedVDPSprite := spr\<rparr>
                  in Some (res, s))))"

fun releaseSprites_loop :: "nat \<Rightarrow> nat \<Rightarrow> 'a spr_st_scheme \<Rightarrow> 'a spr_st_scheme option" where
  "releaseSprites_loop 0 spr s = Some s"
| "releaseSprites_loop (Suc remaining) spr s =
    (let spr = unat (get_link spr s) in
     case spr_push spr s of None \<Rightarrow> None | Some s \<Rightarrow> releaseSprites_loop remaining spr s)"

definition VDP_releaseSprites :: "u16 \<Rightarrow> u16 \<Rightarrow> 'a spr_st_scheme \<Rightarrow> 'a spr_st_scheme option" where
  "VDP_releaseSprites index num s =
    (case spr_push (unat index) s of
       None \<Rightarrow> None
     | Some s \<Rightarrow> releaseSprites_loop (unat (num - 1)) (unat index) s)"

definition VDP_getAvailableSprites :: "'a spr_st_scheme \<Rightarrow> u16" where
  "VDP_getAvailableSprites s = of_nat (spr_free s)"

text \<open>The loop of \<open>VDP_refreshHighestAllocatedSpriteIndex\<close>: \<open>n\<close> entries remain, \<open>top\<close> is \<open>free + n\<close>.\<close>

fun refresh_loop :: "nat \<Rightarrow> s16 \<Rightarrow> 'a spr_st_scheme \<Rightarrow> s16" where
  "refresh_loop 0 res s = res"
| "refresh_loop (Suc n) res s = refresh_loop n (s16_max (of_nat (spr_allocStack s (spr_free s + n))) res) s"

definition VDP_refreshHighestAllocatedSpriteIndex :: "'a spr_st_scheme \<Rightarrow> s16 \<times> 'a spr_st_scheme" where
  "VDP_refreshHighestAllocatedSpriteIndex s =
    (let res = refresh_loop (SAT_MAX_SIZE - spr_free s) (- 1) s in (res, s\<lparr>highestVDPSpriteIndex := res\<rparr>))"

section \<open>Settings\<close>

definition VDP_setSpriteFull ::
  "u16 \<Rightarrow> s16 \<Rightarrow> s16 \<Rightarrow> u8 \<Rightarrow> u16 \<Rightarrow> u8 \<Rightarrow> 'a spr_st_scheme \<Rightarrow> 'a spr_st_scheme" where
  "VDP_setSpriteFull index x y sz attribut link s =
    (let k = unat index;
         s = spr_put (spr_y k s) (y + 0x80) s;
         s = set_size k sz s;
         s = set_link k link s;
         s = spr_put (spr_attribut k s) attribut s
     in spr_put (spr_x k s) (x + 0x80) s)"

definition VDP_setSprite :: "u16 \<Rightarrow> s16 \<Rightarrow> s16 \<Rightarrow> u8 \<Rightarrow> u16 \<Rightarrow> 'a spr_st_scheme \<Rightarrow> 'a spr_st_scheme" where
  "VDP_setSprite index x y sz attribut s =
    (let k = unat index;
         s = spr_put (spr_y k s) (y + 0x80) s;
         s = set_size k sz s;
         s = spr_put (spr_attribut k s) attribut s
     in spr_put (spr_x k s) (x + 0x80) s)"

definition VDP_setSpritePosition :: "u16 \<Rightarrow> s16 \<Rightarrow> s16 \<Rightarrow> 'a spr_st_scheme \<Rightarrow> 'a spr_st_scheme" where
  "VDP_setSpritePosition index x y s =
    (let k = unat index; s = spr_put (spr_y k s) (y + 0x80) s in spr_put (spr_x k s) (x + 0x80) s)"

definition VDP_setSpriteSize :: "u16 \<Rightarrow> u8 \<Rightarrow> 'a spr_st_scheme \<Rightarrow> 'a spr_st_scheme" where
  "VDP_setSpriteSize index sz s = set_size (unat index) sz s"

definition VDP_setSpriteAttribut :: "u16 \<Rightarrow> u16 \<Rightarrow> 'a spr_st_scheme \<Rightarrow> 'a spr_st_scheme" where
  "VDP_setSpriteAttribut index attribut s = spr_put (spr_attribut (unat index) s) attribut s"

definition VDP_setSpriteLink :: "u16 \<Rightarrow> u8 \<Rightarrow> 'a spr_st_scheme \<Rightarrow> 'a spr_st_scheme" where
  "VDP_setSpriteLink index link s = set_link (unat index) link s"

fun linkSprites_loop :: "nat \<Rightarrow> nat \<Rightarrow> u8 \<Rightarrow> 'a spr_st_scheme \<Rightarrow> nat \<times> 'a spr_st_scheme" where
  "linkSprites_loop 0 spr ind s = (spr, s)"
| "linkSprites_loop (Suc remaining) spr ind s =
    (let ind = ind + 1 in linkSprites_loop remaining (spr + 1) ind (set_link spr ind s))"

definition VDP_linkSprites :: "u16 \<Rightarrow> u16 \<Rightarrow> 'a spr_st_scheme \<Rightarrow> nat \<times> 'a spr_st_scheme" where
  "VDP_linkSprites index num s = linkSprites_loop (unat num) (unat index) (ucast index) s"

definition VDP_updateSprites :: "u16 \<Rightarrow> TransferMethod \<Rightarrow> 'a spr_st_scheme \<Rightarrow> 'a spr_st_scheme" where
  "VDP_updateSprites num tm s =
    (let (num, s) = (if num = 0 then (1, VDP_clearSprites s) else (num, s)) in
     snd (DMA_transfer tm DMA_VRAM (of_nat (2 * vdpSpriteCache s)) (slist_addr s) (ucast (8 * (ucast num :: u32) div 2)) 2 s))"

definition VDP_setSpritePriority :: "u16 \<Rightarrow> bool \<Rightarrow> 'a spr_st_scheme \<Rightarrow> 'a spr_st_scheme" where
  "VDP_setSpritePriority index priority s = set_field 15 1 (unat index) (of_bool priority) s"

definition VDP_getSpritePriority :: "u16 \<Rightarrow> 'a spr_st_scheme \<Rightarrow> bool" where
  "VDP_getSpritePriority index s \<longleftrightarrow> get_field 15 1 (unat index) s = 1"

definition VDP_setSpritePalette :: "u16 \<Rightarrow> u16 \<Rightarrow> 'a spr_st_scheme \<Rightarrow> 'a spr_st_scheme" where
  "VDP_setSpritePalette index palette s = set_field 13 2 (unat index) palette s"

definition VDP_getSpritePalette :: "u16 \<Rightarrow> 'a spr_st_scheme \<Rightarrow> u16" where
  "VDP_getSpritePalette index s = get_field 13 2 (unat index) s"

definition VDP_setSpriteFlip :: "u16 \<Rightarrow> bool \<Rightarrow> bool \<Rightarrow> 'a spr_st_scheme \<Rightarrow> 'a spr_st_scheme" where
  "VDP_setSpriteFlip index flipH flipV s =
    (let s = set_field 11 1 (unat index) (of_bool flipH) s in set_field 12 1 (unat index) (of_bool flipV) s)"

definition VDP_setSpriteFlipH :: "u16 \<Rightarrow> bool \<Rightarrow> 'a spr_st_scheme \<Rightarrow> 'a spr_st_scheme" where
  "VDP_setSpriteFlipH index flipH s = set_field 11 1 (unat index) (of_bool flipH) s"

definition VDP_setSpriteFlipV :: "u16 \<Rightarrow> bool \<Rightarrow> 'a spr_st_scheme \<Rightarrow> 'a spr_st_scheme" where
  "VDP_setSpriteFlipV index flipV s = set_field 12 1 (unat index) (of_bool flipV) s"

definition VDP_getSpriteFlipH :: "u16 \<Rightarrow> 'a spr_st_scheme \<Rightarrow> bool" where
  "VDP_getSpriteFlipH index s \<longleftrightarrow> get_field 11 1 (unat index) s \<noteq> 0"

definition VDP_getSpriteFlipV :: "u16 \<Rightarrow> 'a spr_st_scheme \<Rightarrow> bool" where
  "VDP_getSpriteFlipV index s \<longleftrightarrow> get_field 12 1 (unat index) s \<noteq> 0"

definition VDP_setSpriteTile :: "u16 \<Rightarrow> u16 \<Rightarrow> 'a spr_st_scheme \<Rightarrow> 'a spr_st_scheme" where
  "VDP_setSpriteTile index tile s = set_field 0 11 (unat index) tile s"

definition VDP_getSpriteTile :: "u16 \<Rightarrow> 'a spr_st_scheme \<Rightarrow> u16" where
  "VDP_getSpriteTile index s = get_field 0 11 (unat index) s"

section \<open>Allocation is safe\<close>

definition free_list :: "'a spr_st_scheme \<Rightarrow> nat list" where
  "free_list s = map (spr_allocStack s) [0 ..< spr_free s]"

definition spr_inv :: "'a spr_st_scheme \<Rightarrow> bool" where
  "spr_inv s \<longleftrightarrow> spr_free s \<le> SAT_MAX_SIZE \<and> distinct (free_list s) \<and> (\<forall>k \<in> set (free_list s). k < SAT_MAX_SIZE)"

text \<open>The entries of \<open>cs\<close> are linked in this order and the last one ends the list.\<close>

fun linked :: "nat list \<Rightarrow> 'a spr_st_scheme \<Rightarrow> bool" where
  "linked [] s = True"
| "linked [k] s \<longleftrightarrow> get_link k s = 0"
| "linked (k # l # cs) s \<longleftrightarrow> get_link k s = of_nat l \<and> linked (l # cs) s"

text \<open>Nothing but the link bytes of the entries \<open>ks\<close>, the stack pointer and the two records of the allocation differs.\<close>

definition alloc_frame :: "'a spr_st_scheme \<Rightarrow> 'a spr_st_scheme \<Rightarrow> bool" where
  "alloc_frame s s' \<longleftrightarrow> (\<exists>m f h l. s' = s\<lparr>ram := m, spr_free := f, highestVDPSpriteIndex := h, lastAllocatedVDPSprite := l\<rparr>)"

definition link_frame :: "nat set \<Rightarrow> 'a spr_st_scheme \<Rightarrow> 'a spr_st_scheme \<Rightarrow> bool" where
  "link_frame ks s s' \<longleftrightarrow>
    alloc_frame s s' \<and> (\<forall>a. (\<forall>k \<in> ks. a \<noteq> spr_size_link k s) \<longrightarrow> ram s' a = ram s a) \<and> (\<forall>k. get_size k s' = get_size k s)"

lemma byte_masks: "(0xFF :: u16) = mask 8" "(0xFF00 :: u16) = push_bit 8 (mask 8)"
  by (simp_all add: mask_eq_exp_minus_1)

lemma low_byte_ucast: "ucast ((w AND 0xFF00) OR (ucast v :: u16)) = (v :: u8)"
proof -
  have b: "bit v n \<Longrightarrow> n < 8" for n using bit_imp_le_length [of v n] by simp
  show ?thesis unfolding byte_masks by (auto intro!: bit_word_eqI simp: bit_simps dest: b)
qed

lemma high_byte_ucast: "(ucast (drop_bit 8 ((w AND 0xFF00) OR (ucast (v :: u8) :: u16))) :: u8) = ucast (drop_bit 8 w)"
proof -
  have b: "bit v n \<Longrightarrow> n < 8" for n using bit_imp_le_length [of v n] by simp
  show ?thesis unfolding byte_masks by (auto intro!: bit_word_eqI simp: bit_simps dest: b)
qed

lemma spr_put_sel [simp]:
  "vdpSpriteCache (spr_put p v s) = vdpSpriteCache s" "spr_free (spr_put p v s) = spr_free s"
  "spr_allocStack (spr_put p v s) = spr_allocStack s" "highestVDPSpriteIndex (spr_put p v s) = highestVDPSpriteIndex s"
  "ram (spr_put p v s) = (ram s)(p := v)" "spr_y k (spr_put p v s) = spr_y k s" "spr_x k (spr_put p v s) = spr_x k s"
  "spr_attribut k (spr_put p v s) = spr_attribut k s" "spr_size_link k (spr_put p v s) = spr_size_link k s"
  "slist_addr (spr_put p v s) = slist_addr s"
  by (simp_all add: spr_put_def spr_y_def spr_x_def spr_attribut_def spr_size_link_def)

lemma spr_ptr_eq [simp]: "spr_size_link k s = spr_size_link l s \<longleftrightarrow> k = l"
  by (simp add: spr_size_link_def)

lemma set_link_sel [simp]:
  "spr_free (set_link k v s) = spr_free s" "spr_allocStack (set_link k v s) = spr_allocStack s"
  "highestVDPSpriteIndex (set_link k v s) = highestVDPSpriteIndex s"
  "spr_size_link l (set_link k v s) = spr_size_link l s"
  by (simp_all add: set_link_def)

lemma get_set_link: "get_link l (set_link k v s) = (if l = k then v else get_link l s)"
  by (simp add: get_link_def set_link_def low_byte_ucast)

lemma get_size_set_link: "get_size l (set_link k v s) = get_size l s"
  unfolding get_size_def set_link_def spr_put_sel using high_byte_ucast by simp

lemma get_link_upd [simp]:
  "get_link k (s\<lparr>spr_free := f\<rparr>) = get_link k s" "get_link k (s\<lparr>highestVDPSpriteIndex := h\<rparr>) = get_link k s"
  "get_link k (s\<lparr>lastAllocatedVDPSprite := l\<rparr>) = get_link k s" "get_link k (s\<lparr>spr_allocStack := st\<rparr>) = get_link k s"
  by (simp_all add: get_link_def spr_size_link_def)

lemma alloc_frameI:
  "s' = s\<lparr>ram := m, spr_free := f, highestVDPSpriteIndex := h, lastAllocatedVDPSprite := l\<rparr> \<Longrightarrow> alloc_frame s s'"
  unfolding alloc_frame_def by blast

lemma alloc_frame_trans: "alloc_frame s s' \<Longrightarrow> alloc_frame s' s'' \<Longrightarrow> alloc_frame s s''"
  unfolding alloc_frame_def by auto blast

lemma alloc_frame_sel:
  "alloc_frame s s' \<Longrightarrow> vdpSpriteCache s' = vdpSpriteCache s"
  "alloc_frame s s' \<Longrightarrow> spr_allocStack s' = spr_allocStack s"
  "alloc_frame s s' \<Longrightarrow> spr_size_link k s' = spr_size_link k s"
  unfolding alloc_frame_def spr_size_link_def by auto

lemma link_frame_trans: "link_frame ks s s' \<Longrightarrow> link_frame ks s' s'' \<Longrightarrow> link_frame ks s s''"
  unfolding link_frame_def by (auto simp: alloc_frame_sel intro: alloc_frame_trans)

lemma link_frame_set_link: "k \<in> ks \<Longrightarrow> link_frame ks s (set_link k v s)"
  unfolding link_frame_def get_size_set_link
  by (auto simp: set_link_def spr_put_def
      intro!: alloc_frameI [where f = "spr_free s" and h = "highestVDPSpriteIndex s" and l = "lastAllocatedVDPSprite s"])

lemma link_frame_free: "link_frame ks s (s\<lparr>spr_free := f\<rparr>)"
  unfolding link_frame_def
  by (auto simp: get_size_def spr_size_link_def intro!:
      alloc_frameI [where m = "ram s" and f = f and h = "highestVDPSpriteIndex s" and l = "lastAllocatedVDPSprite s"])

lemma link_frame_highest: "link_frame ks s (s\<lparr>highestVDPSpriteIndex := h\<rparr>)"
  unfolding link_frame_def
  by (auto simp: get_size_def spr_size_link_def intro!:
      alloc_frameI [where m = "ram s" and f = "spr_free s" and h = h and l = "lastAllocatedVDPSprite s"])

lemma link_frame_last: "link_frame ks s (s\<lparr>lastAllocatedVDPSprite := l\<rparr>)"
  unfolding link_frame_def
  by (auto simp: get_size_def spr_size_link_def intro!:
      alloc_frameI [where m = "ram s" and f = "spr_free s" and h = "highestVDPSpriteIndex s" and l = l])

text \<open>The entries that \<open>n\<close> pops return.\<close>

definition popped :: "nat \<Rightarrow> 'a spr_st_scheme \<Rightarrow> nat list" where
  "popped n s = map (\<lambda>i. spr_allocStack s (spr_free s - 1 - i)) [0 ..< n]"

lemma popped_Suc:
  "popped (Suc n) s = spr_allocStack s (spr_free s - 1) # popped n (s\<lparr>spr_free := spr_free s - 1\<rparr>)"
proof -
  have "[0 ..< Suc n] = 0 # map Suc [0 ..< n]" by (simp only: upt_conv_Cons map_Suc_upt)
  then show ?thesis unfolding popped_def by simp
qed

lemma popped_link [simp]: "popped n (set_link k v s) = popped n s"
  by (simp add: popped_def)

lemma linked_cong: "(\<And>k. k \<in> set cs \<Longrightarrow> get_link k s' = get_link k s) \<Longrightarrow> linked cs s' = linked cs s"
  by (induction cs s rule: linked.induct) simp_all

text \<open>
  The loop links the current entry and the entries it pops, all but the end of the list, which is
  set after it.
\<close>

lemma allocateSprites_loop_ok:
  assumes "n \<le> spr_free s" "distinct (spr # popped n s)"
  shows "\<exists>s'. allocateSprites_loop n spr m s =
      Some (last (spr # popped n s), fold (\<lambda>k. s16_max (of_nat k)) (popped n s) m, s') \<and>
    link_frame (set (spr # popped n s)) s s' \<and> spr_free s' = spr_free s - n \<and>
    highestVDPSpriteIndex s' = highestVDPSpriteIndex s \<and> linked (spr # popped n s) (set_link (last (spr # popped n s)) 0 s')"
  using assms
proof (induction n arbitrary: spr m s)
  case 0
  then show ?case by (simp add: popped_def link_frame_def alloc_frameI [where s' = s and s = s and m = "ram s" and f = "spr_free s" and h = "highestVDPSpriteIndex s" and l = "lastAllocatedVDPSprite s"] get_set_link)
next
  case (Suc n)
  define c where "c = spr_allocStack s (spr_free s - 1)"
  define s1 where "s1 = set_link spr (ucast (of_nat c :: s16)) (s\<lparr>spr_free := spr_free s - 1\<rparr>)"
  have p: "popped (Suc n) s = c # popped n s1" unfolding popped_Suc s1_def c_def by simp
  have f1: "spr_free s1 = spr_free s - 1" "highestVDPSpriteIndex s1 = highestVDPSpriteIndex s" by (simp_all add: s1_def)
  have "n \<le> spr_free s1" "distinct (c # popped n s1)" using Suc.prems unfolding p f1 by auto
  from Suc.IH [OF this, of "s16_max (of_nat c) m"] obtain s' where
    s': "allocateSprites_loop n c (s16_max (of_nat c) m) s1 =
      Some (last (c # popped n s1), fold (\<lambda>k. s16_max (of_nat k)) (popped n s1) (s16_max (of_nat c) m), s')"
      "link_frame (set (c # popped n s1)) s1 s'" "spr_free s' = spr_free s1 - n"
      "highestVDPSpriteIndex s' = highestVDPSpriteIndex s1" "linked (c # popped n s1) (set_link (last (c # popped n s1)) 0 s')" by blast
  have e: "allocateSprites_loop (Suc n) spr m s = allocateSprites_loop n c (s16_max (of_nat c) m) s1"
    using Suc.prems(1) by (simp add: spr_pop_def s1_def c_def Let_def)
  have lf: "link_frame (set (spr # popped (Suc n) s)) s s'"
  proof -
    let ?ks = "set (spr # popped (Suc n) s)"
    have "link_frame ?ks s (s\<lparr>spr_free := spr_free s - 1\<rparr>)" by (rule link_frame_free)
    moreover have "link_frame ?ks (s\<lparr>spr_free := spr_free s - 1\<rparr>) s1" unfolding s1_def by (rule link_frame_set_link) simp
    moreover have "link_frame ?ks s1 s'" using s'(2) unfolding link_frame_def p by auto
    ultimately show ?thesis using link_frame_trans by blast
  qed
  have gl: "get_link spr s' = of_nat c"
  proof -
    have "ram s' (spr_size_link spr s1) = ram s1 (spr_size_link spr s1)"
      using s'(2) Suc.prems(2) spr_ptr_eq unfolding link_frame_def p by (metis distinct.simps(2))
    then have "get_link spr s' = get_link spr s1"
      using s'(2) alloc_frame_sel(3) [of s1 s' spr] unfolding link_frame_def get_link_def by simp
    also have "\<dots> = of_nat c" unfolding s1_def get_set_link by (simp add: ucast_of_nat_8)
    finally show ?thesis .
  qed
  have "last (c # popped n s1) \<noteq> spr" using Suc.prems(2) unfolding p by (metis distinct.simps(2) last_in_set list.distinct(1))
  then show ?case using e s' lf gl f1 unfolding p by (simp add: get_set_link)
qed

lemma sint_s16_max: "sint (s16_max a b) = max (sint a) (sint b)"
  by (simp add: s16_max_def max_def)


lemma fold_s16_max:
  "\<forall>k \<in> set ks. k < 32768 \<Longrightarrow>
    sint (fold (\<lambda>k. s16_max (of_nat k)) ks m) = Max (insert (sint m) (int ` set ks))"
proof (induction ks arbitrary: m)
  case (Cons k ks)
  have "sint (fold (\<lambda>k. s16_max (of_nat k)) (k # ks) m) = Max (insert (max (int k) (sint m)) (int ` set ks))"
    using Cons by (simp add: sint_s16_max sint_of_nat_16)
  also have "\<dots> = Max (insert (sint m) (int ` set (k # ks)))"
    by (cases "ks = []") (simp_all add: max.commute max.left_commute)
  finally show ?case .
qed simp

lemma popped_split:
  assumes "n \<le> spr_free s"
  shows "free_list s = map (spr_allocStack s) [0 ..< spr_free s - n] @ rev (popped n s)"
proof (rule nth_equalityI)
  show "length (free_list s) = length (map (spr_allocStack s) [0 ..< spr_free s - n] @ rev (popped n s))"
    using assms by (simp add: free_list_def popped_def)
  fix i assume i: "i < length (free_list s)"
  then have "spr_free s - Suc i < n" if "\<not> i < spr_free s - n" using that by (simp add: free_list_def)
  with i show "free_list s ! i = (map (spr_allocStack s) [0 ..< spr_free s - n] @ rev (popped n s)) ! i"
    using assms by (cases "i < spr_free s - n") (simp_all add: free_list_def popped_def nth_append rev_nth)
qed

definition free_sprites :: "'a spr_st_scheme \<Rightarrow> nat set" where
  "free_sprites s = set (free_list s)"

lemma alloc_ok:
  assumes inv: "spr_inv s" and num: "0 < unat num" "unat num \<le> spr_free s"
  shows "\<exists>cs s'. VDP_allocateSprites num s = Some (of_nat (hd cs), s') \<and> length cs = unat num \<and> distinct cs \<and>
    linked cs s' \<and> set cs \<subseteq> free_sprites s \<and> free_sprites s' = free_sprites s - set cs \<and> spr_inv s' \<and>
    spr_free s' = spr_free s - unat num \<and> link_frame (set cs) s s' \<and> lastAllocatedVDPSprite s' = last cs \<and>
    sint (highestVDPSpriteIndex s') = max (Max (int ` set cs)) (sint (highestVDPSpriteIndex s))"
proof -
  define n where "n = unat num - 1"
  have n: "unat num = Suc n" "unat (num - 1) = n" using num(1) by (simp_all add: n_def unat_minus_one unat_gt_0)
  define spr where "spr = spr_allocStack s (spr_free s - 1)"
  define s0 where "s0 = s\<lparr>spr_free := spr_free s - 1\<rparr>"
  define cs where "cs = spr # popped n s0"
  have cs: "cs = popped (unat num) s" unfolding cs_def spr_def s0_def n(1) popped_Suc ..
  have split: "free_list s = map (spr_allocStack s) [0 ..< spr_free s - unat num] @ rev cs"
    unfolding cs by (rule popped_split [OF num(2)])
  have d: "distinct cs" "set cs \<subseteq> free_sprites s" and lt: "\<forall>k \<in> set cs. k < 80"
    using inv unfolding spr_inv_def split free_sprites_def by (auto simp: cfg)
  have len: "length cs = unat num" by (simp add: cs popped_def)
  have "n \<le> spr_free s0" using num(2) n(1) by (simp add: s0_def)
  from allocateSprites_loop_ok [OF this d(1) [unfolded cs_def], of "of_nat spr"] obtain s1 where
    s1: "allocateSprites_loop n spr (of_nat spr) s0 =
        Some (last cs, fold (\<lambda>k. s16_max (of_nat k)) (popped n s0) (of_nat spr), s1)"
      "link_frame (set cs) s0 s1" "spr_free s1 = spr_free s0 - n"
      "highestVDPSpriteIndex s1 = highestVDPSpriteIndex s0" "linked cs (set_link (last cs) 0 s1)"
    unfolding cs_def by blast
  define h where "h = s16_max (fold (\<lambda>k. s16_max (of_nat k)) (popped n s0) (of_nat spr)) (highestVDPSpriteIndex s1)"
  define s' where "s' = (set_link (last cs) 0 (s1\<lparr>highestVDPSpriteIndex := h\<rparr>))\<lparr>lastAllocatedVDPSprite := last cs\<rparr>"
  have "spr_pop s = Some (spr, s0)" "\<not> spr_free s < unat num" "hd cs = spr"
    using num by (simp_all add: spr_pop_def spr_def s0_def cs_def)
  then have e: "VDP_allocateSprites num s = Some (of_nat (hd cs), s')"
    unfolding VDP_allocateSprites_def by (simp add: n(2) s1(1) s'_def h_def Let_def)

have lf: "link_frame (set cs) s s'"
  proof -
    have "link_frame (set cs) s s0" unfolding s0_def by (rule link_frame_free)
    moreover have "link_frame (set cs) s1 (s1\<lparr>highestVDPSpriteIndex := h\<rparr>)" by (rule link_frame_highest)
    moreover have "link_frame (set cs) (s1\<lparr>highestVDPSpriteIndex := h\<rparr>) (set_link (last cs) 0 (s1\<lparr>highestVDPSpriteIndex := h\<rparr>))"
      by (rule link_frame_set_link) (simp add: cs_def)
    moreover have "link_frame (set cs) (set_link (last cs) 0 (s1\<lparr>highestVDPSpriteIndex := h\<rparr>)) s'"
      unfolding s'_def by (rule link_frame_last)
    ultimately show ?thesis using s1(2) link_frame_trans by blast
  qed
  have f: "spr_free s' = spr_free s - unat num" using s1(3) n(1) by (simp add: s'_def s0_def)
  have "spr_allocStack s' = spr_allocStack s" using lf alloc_frame_sel(2) unfolding link_frame_def by blast
  then have fl: "free_list s' = map (spr_allocStack s) [0 ..< spr_free s - unat num]" by (simp add: free_list_def f)
  have "free_sprites s' = free_sprites s - set cs" "spr_inv s'"
    using inv unfolding spr_inv_def free_sprites_def split fl f by auto
  moreover have "linked cs s'"
    using s1(5) by (subst linked_cong [where s = "set_link (last cs) 0 s1"]) (simp_all add: s'_def get_set_link)
  moreover have "sint (highestVDPSpriteIndex s') = max (Max (int ` set cs)) (sint (highestVDPSpriteIndex s))"
  proof -
    have k: "\<forall>k \<in> set (popped n s0). k < 32768" "spr < 32768" using lt unfolding cs_def by force+
    have "highestVDPSpriteIndex s' = h" "highestVDPSpriteIndex s1 = highestVDPSpriteIndex s"
      using s1(4) by (simp_all add: s'_def s0_def)
    then show ?thesis by (simp add: h_def sint_s16_max fold_s16_max [OF k(1)] sint_of_nat_16 [OF k(2)] cs_def)
  qed
  moreover have "lastAllocatedVDPSprite s' = last cs" by (simp add: s'_def)
  ultimately show ?thesis using e len d f lf by blast
qed

lemma alloc_fails:
  "spr_free s < unat num \<Longrightarrow> VDP_allocateSprites num s = Some (- 1, s)"
  by (simp add: VDP_allocateSprites_def)

lemma alloc_loop_under: "spr_free s < n \<Longrightarrow> allocateSprites_loop n spr m s = None"
  by (induction n arbitrary: spr m s) (auto simp: spr_pop_def Let_def)

section \<open>Release\<close>

text \<open>The entries that a release of \<open>num\<close> entries from \<open>k\<close> on walks over.\<close>

fun walk :: "nat \<Rightarrow> nat \<Rightarrow> 'a spr_st_scheme \<Rightarrow> nat list" where
  "walk 0 k s = []"
| "walk (Suc n) k s = k # walk n (unat (get_link k s)) s"

lemma linked_walk: "linked cs s \<Longrightarrow> cs \<noteq> [] \<Longrightarrow> \<forall>k \<in> set cs. k < 80 \<Longrightarrow> walk (length cs) (hd cs) s = cs"
  by (induction cs s rule: linked.induct) (simp_all add: unat_of_nat)

lemma walk_stack [simp]: "walk n k (s\<lparr>spr_allocStack := st, spr_free := f\<rparr>) = walk n k s"
  by (induction n arbitrary: k) simp_all

fun push_all :: "nat list \<Rightarrow> 'a spr_st_scheme \<Rightarrow> 'a spr_st_scheme option" where
  "push_all [] s = Some s"
| "push_all (k # ks) s = (case spr_push k s of None \<Rightarrow> None | Some s \<Rightarrow> push_all ks s)"

lemma releaseSprites_loop_walk:
  "releaseSprites_loop n k s = push_all (walk n (unat (get_link k s)) s) s"
proof (induction n arbitrary: k s)
  case (Suc n)
  then show ?case by (simp add: spr_push_def Let_def)
qed simp

lemma VDP_releaseSprites_walk:
  "0 < unat num \<Longrightarrow> VDP_releaseSprites index num s = push_all (walk (unat num) (unat index) s) s"
proof -
  assume "0 < unat num"
  then obtain n where n: "unat num = Suc n" "unat (num - 1) = n"
    by (metis unat_gt_0 unat_minus_one Suc_diff_1 bot_nat_0.not_eq_extremum)
  then show ?thesis unfolding VDP_releaseSprites_def by (simp add: releaseSprites_loop_walk spr_push_def)
qed

lemma push_all_ok:
  "spr_free s + length ks \<le> SAT_MAX_SIZE \<Longrightarrow>
    \<exists>st. push_all ks s = Some (s\<lparr>spr_allocStack := st, spr_free := spr_free s + length ks\<rparr>) \<and>
      map st [0 ..< spr_free s + length ks] = free_list s @ ks"
proof (induction ks arbitrary: s)
  case Nil
  then show ?case by (auto simp: free_list_def intro: exI [of _ "spr_allocStack s"])
next
  case (Cons k ks)
  define s1 where "s1 = s\<lparr>spr_allocStack := (spr_allocStack s)(spr_free s := k), spr_free := spr_free s + 1\<rparr>"
  have "free_list s1 = free_list s @ [k]" by (simp add: free_list_def s1_def)
  moreover have "push_all (k # ks) s = push_all ks s1" using Cons.prems by (simp add: spr_push_def s1_def)
  ultimately show ?case using Cons.IH [of s1] Cons.prems by (auto simp: s1_def)
qed

lemma release_ok:
  assumes inv: "spr_inv s" and cs: "linked cs s" "cs \<noteq> []" "distinct cs" "\<forall>k \<in> set cs. k < SAT_MAX_SIZE"
    "set cs \<inter> free_sprites s = {}" and num: "unat num = length cs"
  shows "\<exists>s'. VDP_releaseSprites (of_nat (hd cs)) num s = Some s' \<and> spr_inv s' \<and>
    free_sprites s' = free_sprites s \<union> set cs \<and> spr_free s' = spr_free s + length cs \<and> ram s' = ram s \<and> vdpSpriteCache s' = vdpSpriteCache s"
proof -
  have d: "distinct (free_list s @ cs)" using inv cs(3,5) unfolding spr_inv_def free_sprites_def by auto
  have lt: "set (free_list s @ cs) \<subseteq> {..< SAT_MAX_SIZE}" using inv cs(4) unfolding spr_inv_def by auto
  have fit: "spr_free s + length cs \<le> SAT_MAX_SIZE"
    using card_mono [OF _ lt] distinct_card [OF d] by (simp add: free_list_def)
  have h: "hd cs < 80" using cs(2,4) by (simp add: cfg)
  then have "unat (of_nat (hd cs) :: u16) = hd cs" by (simp add: unat_of_nat)
  then have r: "VDP_releaseSprites (of_nat (hd cs)) num s = push_all cs s"
    using VDP_releaseSprites_walk [of num "of_nat (hd cs)" s] linked_walk [OF cs(1,2)] cs(2,4) num by (simp add: cfg)
  obtain st where st: "push_all cs s = Some (s\<lparr>spr_allocStack := st, spr_free := spr_free s + length cs\<rparr>)"
    "map st [0 ..< spr_free s + length cs] = free_list s @ cs" using push_all_ok [OF fit] by blast
  let ?s = "s\<lparr>spr_allocStack := st, spr_free := spr_free s + length cs\<rparr>"
  have "free_list ?s = free_list s @ cs" using st(2) by (simp add: free_list_def)
  then show ?thesis using r st(1) fit d lt by (auto simp: spr_inv_def free_sprites_def)
qed

section \<open>Histories\<close>

text \<open>
  The states a program can reach that releases only what it holds: \<open>hs\<close> are the groups of sprites it
  holds. Between the calls anything may happen that keeps the stack and the links.
\<close>

inductive spr_reach :: "nat list list \<Rightarrow> 'a spr_st_scheme \<Rightarrow> bool" where
  reset: "spr_reach [] (VDP_resetSprites s)"
| alloc: "spr_reach hs s \<Longrightarrow> 0 < unat num \<Longrightarrow> VDP_allocateSprites num s = Some (r, s') \<Longrightarrow> r \<noteq> - 1 \<Longrightarrow>
    spr_reach (walk (unat num) (unat r) s' # hs) s'"
| release: "spr_reach hs s \<Longrightarrow> cs \<in> set hs \<Longrightarrow>
    VDP_releaseSprites (of_nat (hd cs)) (of_nat (length cs)) s = Some s' \<Longrightarrow> spr_reach (remove1 cs hs) s'"
| other: "spr_reach hs s \<Longrightarrow> spr_free s' = spr_free s \<Longrightarrow> spr_allocStack s' = spr_allocStack s \<Longrightarrow>
    (\<And>k. get_link k s' = get_link k s) \<Longrightarrow> spr_reach hs s'"

definition spr_held :: "nat list list \<Rightarrow> 'a spr_st_scheme \<Rightarrow> bool" where
  "spr_held hs s \<longleftrightarrow> spr_inv s \<and> (\<forall>cs \<in> set hs. cs \<noteq> [] \<and> linked cs s) \<and> distinct (concat hs) \<and>
    set (concat hs) \<inter> free_sprites s = {} \<and> set (concat hs) \<union> free_sprites s = {..< SAT_MAX_SIZE}"

lemma spr_held_reset: "spr_held [] (VDP_resetSprites s)"
proof -
  let ?s = "VDP_resetSprites s"
  have "free_list ?s = map (\<lambda>i. SAT_MAX_SIZE - 1 - i) [0 ..< SAT_MAX_SIZE]" "spr_free ?s = SAT_MAX_SIZE"
    by (simp_all add: free_list_def VDP_resetSprites_def VDP_clearSprites_def VDP_releaseAllSprites_def)
  moreover have "distinct (map (\<lambda>i. 80 - 1 - i) [0 ..< 80 :: nat])"
    by (auto simp: distinct_map inj_on_def)
  moreover have "set (map (\<lambda>i. 80 - 1 - i) [0 ..< 80 :: nat]) = {..< 80}"
  proof -
    have "x \<in> (\<lambda>i. 80 - 1 - i) ` {0 ..< 80}" if "x < 80" for x :: nat
      using that by (intro image_eqI [of _ _ "79 - x"]) simp_all
    then show ?thesis by auto
  qed
  ultimately show ?thesis by (auto simp: spr_held_def spr_inv_def free_sprites_def cfg)
qed

lemma link_frame_get_link: "link_frame ks s s' \<Longrightarrow> k \<notin> ks \<Longrightarrow> get_link k s' = get_link k s"
proof -
  assume lf: "link_frame ks s s'" and k: "k \<notin> ks"
  have "ram s' (spr_size_link k s) = ram s (spr_size_link k s)"
    using lf [unfolded link_frame_def, THEN conjunct2, THEN conjunct1, THEN spec, of "spr_size_link k s"] k by auto
  then show ?thesis using lf alloc_frame_sel(3) [of s s' k] by (simp add: link_frame_def get_link_def)
qed

lemma spr_held_free: "spr_held hs s \<Longrightarrow> spr_free s + length (concat hs) = SAT_MAX_SIZE"
proof -
  assume h: "spr_held hs s"
  then have "card (set (concat hs)) + card (free_sprites s) = card {..< SAT_MAX_SIZE}"
    unfolding spr_held_def by (metis card_Un_disjoint free_sprites_def List.finite_set)
  then show ?thesis
    using h distinct_card [of "concat hs"] distinct_card [of "free_list s"]
    unfolding spr_held_def spr_inv_def free_sprites_def by (simp add: free_list_def)
qed

lemma spr_held_alloc:
  assumes h: "spr_held hs s" and num: "0 < unat num" "unat num \<le> spr_free s"
  shows "\<exists>r s'. VDP_allocateSprites num s = Some (r, s') \<and> unat r < SAT_MAX_SIZE \<and>
    spr_held (walk (unat num) (unat r) s' # hs) s' \<and> length (walk (unat num) (unat r) s') = unat num"
proof -
  have "spr_inv s" using h by (simp add: spr_held_def)
  then obtain cs s' where a: "VDP_allocateSprites num s = Some (of_nat (hd cs), s')" "length cs = unat num" "distinct cs"
    "linked cs s'" "set cs \<subseteq> free_sprites s" "free_sprites s' = free_sprites s - set cs" "spr_inv s'"
    "link_frame (set cs) s s'" using alloc_ok [OF _ num] by metis
  have lt: "\<forall>k \<in> set cs. k < SAT_MAX_SIZE" using a(5) h unfolding spr_held_def by blast
  have ne: "cs \<noteq> []" using a(2) num(1) by auto
  have "hd cs < 80" using lt ne by (simp add: cfg)
  then have u: "unat (of_nat (hd cs) :: s16) = hd cs" by (simp add: unat_of_nat)
  have w: "walk (unat num) (unat (of_nat (hd cs) :: s16)) s' = cs"
    using linked_walk [OF a(4) ne] lt unfolding u a(2) by (simp add: cfg)
  have "linked ds s'" if "ds \<in> set hs" for ds
  proof -
    have "get_link k s' = get_link k s" if "k \<in> set ds" for k
    proof -
      have "k \<in> set (concat hs)" using that \<open>ds \<in> set hs\<close> by auto
      then have "k \<notin> set cs" using h a(5) unfolding spr_held_def by blast
      then show ?thesis by (rule link_frame_get_link [OF a(8)])
    qed
    then show ?thesis using h that linked_cong [of ds s' s] unfolding spr_held_def by blast
  qed
  then have "spr_held (cs # hs) s'"
    using h a(3-7) ne unfolding spr_held_def by (simp only: set_simps concat.simps distinct_append set_append) blast
  moreover have "unat (of_nat (hd cs) :: s16) < SAT_MAX_SIZE" using u lt ne by simp
  ultimately show ?thesis using a(1,2) w by metis
qed

lemma set_concat_remove1:
  "distinct (concat hs) \<Longrightarrow> cs \<noteq> [] \<Longrightarrow> cs \<in> set hs \<Longrightarrow>
    set (concat (remove1 cs hs)) = set (concat hs) - set cs \<and> distinct (concat (remove1 cs hs)) \<and>
    length (concat (remove1 cs hs)) + length cs = length (concat hs)"
  by (induction hs) auto

lemma spr_held_release:
  assumes h: "spr_held hs s" and cs: "cs \<in> set hs"
  shows "\<exists>s'. VDP_releaseSprites (of_nat (hd cs)) (of_nat (length cs)) s = Some s' \<and> spr_held (remove1 cs hs) s'"
proof -
  have d: "distinct (concat hs)" "linked cs s" "cs \<noteq> []" "spr_inv s" using h cs unfolding spr_held_def by blast+
  have sub: "set cs \<subseteq> set (concat hs)" "distinct cs" using cs d(1) by (auto simp: distinct_concat_iff)
  then have lt: "\<forall>k \<in> set cs. k < SAT_MAX_SIZE" "set cs \<inter> free_sprites s = {}" using h unfolding spr_held_def by blast+
  have "length cs \<le> SAT_MAX_SIZE" using spr_held_free [OF h] set_concat_remove1 [OF d(1,3) cs] by linarith
  then have "unat (of_nat (length cs) :: u16) = length cs" by (simp add: unat_of_nat cfg)
  from release_ok [OF d(4,2,3) sub(2) lt this] obtain s' where
    s': "VDP_releaseSprites (of_nat (hd cs)) (of_nat (length cs)) s = Some s'" "spr_inv s'"
      "free_sprites s' = free_sprites s \<union> set cs" "ram s' = ram s" "vdpSpriteCache s' = vdpSpriteCache s" by blast
  have "linked ds s' = linked ds s" for ds
    using s'(4,5) by (intro linked_cong) (simp add: get_link_def spr_size_link_def)
  then have l: "\<forall>ds \<in> set (remove1 cs hs). ds \<noteq> [] \<and> linked ds s'"
    using h unfolding spr_held_def by (meson notin_set_remove1)
  have r: "set (concat (remove1 cs hs)) = set (concat hs) - set cs" "distinct (concat (remove1 cs hs))"
    using set_concat_remove1 [OF d(1,3) cs] by blast+
  have u: "set (concat hs) \<inter> free_sprites s = {}" "set (concat hs) \<union> free_sprites s = {..< SAT_MAX_SIZE}"
    using h unfolding spr_held_def by blast+
  have "set (concat (remove1 cs hs)) \<inter> free_sprites s' = {}" "set (concat (remove1 cs hs)) \<union> free_sprites s' = {..< SAT_MAX_SIZE}"
    unfolding r(1) s'(3) u(2) [symmetric] using u(1) sub(1) by blast+
  then have "spr_held (remove1 cs hs) s'" unfolding spr_held_def using l r(2) s'(2) by blast
  then show ?thesis using s'(1) by blast
qed

lemma unat_minus_1_16: "unat (- 1 :: u16) = 65535"
  by (simp add: unsigned_minus_1_eq_mask mask_eq_exp_minus_1)

lemma alloc_not_minus_one:
  assumes "spr_held hs s" "0 < unat num" "VDP_allocateSprites num s = Some (r, s')" "r \<noteq> - 1"
  shows "spr_held (walk (unat num) (unat r) s' # hs) s'"
proof -
  have "unat num \<le> spr_free s" using assms(3,4) alloc_fails [of s num] by (cases "unat num \<le> spr_free s") auto
  then show ?thesis using spr_held_alloc [OF assms(1,2)] assms(3) by auto
qed

lemma spr_reach_held: "spr_reach hs s \<Longrightarrow> spr_held hs s"
proof (induction rule: spr_reach.induct)
  case (reset s)
  show ?case by (rule spr_held_reset)
next
  case (alloc hs s num r s')
  then show ?case by (intro alloc_not_minus_one)
next
  case (release hs s cs s')
  then show ?case using spr_held_release by fastforce
next
  case (other hs s s')
  have "free_list s' = free_list s" using other.hyps(2,3) by (simp add: free_list_def)
  moreover have "linked cs s' = linked cs s" for cs using other.hyps(4) by (intro linked_cong)
  ultimately show ?case using other.IH other.hyps(2) by (simp add: spr_held_def spr_inv_def free_sprites_def)
qed

text \<open>
  C17 However a program allocates and releases sprites, as long as it releases only groups it holds:
  the groups are linked lists that end with link 0, no sprite is in two groups or in a group and
  free, none of the 80 gets lost and the number reported as available is exact; an allocation
  succeeds exactly when enough sprites are free and then gives the program one more such group, and
  every group can be released.
\<close>

theorem SPR_groups:
  assumes "spr_reach hs s"
  shows "(\<forall>cs \<in> set hs. linked cs s) \<and> distinct (concat hs) \<and>
    set (concat hs) \<inter> free_sprites s = {} \<and> set (concat hs) \<union> free_sprites s = {..< SAT_MAX_SIZE} \<and>
    unat (VDP_getAvailableSprites s) = SAT_MAX_SIZE - length (concat hs) \<and>
    (\<forall>num. 0 < unat num \<longrightarrow>
      (if unat num \<le> unat (VDP_getAvailableSprites s)
       then \<exists>r s' cs. VDP_allocateSprites num s = Some (r, s') \<and> length cs = unat num \<and> spr_reach (cs # hs) s'
       else VDP_allocateSprites num s = Some (- 1, s))) \<and>
    (\<forall>cs \<in> set hs. \<exists>s'. VDP_releaseSprites (of_nat (hd cs)) (of_nat (length cs)) s = Some s' \<and>
      spr_reach (remove1 cs hs) s')"
proof -
  have h: "spr_held hs s" by (rule spr_reach_held [OF assms])
  have "spr_free s < 65536" using h by (simp add: spr_held_def spr_inv_def cfg)
  then have av: "unat (VDP_getAvailableSprites s) = spr_free s" by (simp add: VDP_getAvailableSprites_def unat_of_nat)
  have al: "\<exists>r s' cs. VDP_allocateSprites num s = Some (r, s') \<and> length cs = unat num \<and> spr_reach (cs # hs) s'"
    if num: "0 < unat num" "unat num \<le> spr_free s" for num
  proof -
    obtain r s' where r: "VDP_allocateSprites num s = Some (r, s')" "unat r < SAT_MAX_SIZE"
      "length (walk (unat num) (unat r) s') = unat num" using spr_held_alloc [OF h num] by blast
    have "r \<noteq> - 1" using r(2) by (auto simp: cfg unat_minus_1_16)
    then show ?thesis using spr_reach.alloc [OF assms num(1) r(1)] r(1,3) by blast
  qed
  have rl: "\<exists>s'. VDP_releaseSprites (of_nat (hd cs)) (of_nat (length cs)) s = Some s' \<and> spr_reach (remove1 cs hs) s'"
    if "cs \<in> set hs" for cs using spr_held_release [OF h that] spr_reach.release [OF assms that] by blast
  have "(if unat num \<le> spr_free s
       then \<exists>r s' cs. VDP_allocateSprites num s = Some (r, s') \<and> length cs = unat num \<and> spr_reach (cs # hs) s'
       else VDP_allocateSprites num s = Some (- 1, s))" if "0 < unat num" for num
    using al [OF that] alloc_fails [of s num] by simp
  moreover have "spr_free s = SAT_MAX_SIZE - length (concat hs)" using spr_held_free [OF h] by linarith
  ultimately show ?thesis using h rl unfolding spr_held_def av by blast
qed

definition spr0 :: spr_st where
  "spr0 = VDP_resetSprites (dma_st.extend dma0 (spr_st.fields 1000 0 0 (\<lambda>_. 0) 0))"

theorem SPR_groups_witness: "unat (VDP_getAvailableSprites spr0) = 80"
  using SPR_groups [OF spr_reach.reset, of "dma_st.extend dma0 (spr_st.fields 1000 0 0 (\<lambda>_. 0) 0)"]
  by (simp add: spr0_def cfg)

text \<open>
  A call that asks for no sprite is not refused: the number of sprites to link wraps to 65535 and
  the loop reads below the allocation stack, whatever is free.
\<close>

theorem SPR_allocate_zero:
  assumes "spr_inv s"
  shows "VDP_allocateSprites 0 s = None"
proof -
  have "spr_free (snd (the (spr_pop s))) < 65535" if "spr_free s \<noteq> 0"
    using assms that by (auto simp: spr_pop_def spr_inv_def cfg)
  moreover have "unat (0 - 1 :: u16) = 65535" by (simp add: unat_minus_1_16)
  ultimately show ?thesis
    unfolding VDP_allocateSprites_def by (auto simp: spr_pop_def alloc_loop_under)
qed

theorem SPR_allocate_zero_witness: "VDP_allocateSprites 0 spr0 = None"
  by (rule SPR_allocate_zero) (use spr_held_reset in \<open>auto simp: spr0_def spr_held_def\<close>)

lemma spr0_stack: "spr_free spr0 = 80" "spr_allocStack spr0 = (\<lambda>i. if i < 80 then 79 - i else 0)"
  by (simp_all add: spr0_def VDP_resetSprites_def VDP_clearSprites_def VDP_releaseAllSprites_def cfg
      dma_st.defs spr_st.defs fun_eq_iff)

lemma alloc_one:
  assumes "0 < spr_free s"
  shows "\<exists>s'. VDP_allocateSprites 1 s = Some (of_nat (spr_allocStack s (spr_free s - 1)), s') \<and>
    spr_free s' = spr_free s - 1 \<and> spr_allocStack s' = spr_allocStack s"
  using assms unfolding VDP_allocateSprites_def by (auto simp: spr_pop_def Let_def)

text \<open>
  \<open>VDP_refreshHighestAllocatedSpriteIndex\<close> looks at the stack entries above the pointer, which are
  the allocated sprites only as long as sprites are released in the reverse order. After three
  sprites are allocated one by one and the first is released, sprites 1 and 2 are in use and the
  function returns 1.
\<close>

theorem SPR_refresh_stale:
  "\<exists>s1 s2 s3 s4. VDP_allocateSprites 1 spr0 = Some (0, s1) \<and> VDP_allocateSprites 1 s1 = Some (1, s2) \<and>
    VDP_allocateSprites 1 s2 = Some (2, s3) \<and> VDP_releaseSprites 0 1 s3 = Some s4 \<and> 2 \<notin> free_sprites s4 \<and>
    fst (VDP_refreshHighestAllocatedSpriteIndex s4) = 1"
proof -
  obtain s1 where s1: "VDP_allocateSprites 1 spr0 = Some (0, s1)" "spr_free s1 = 79" "spr_allocStack s1 = spr_allocStack spr0"
    using alloc_one [of spr0] by (auto simp: spr0_stack)
  obtain s2 where s2: "VDP_allocateSprites 1 s1 = Some (1, s2)" "spr_free s2 = 78" "spr_allocStack s2 = spr_allocStack spr0"
    using alloc_one [of s1] s1 by (auto simp: spr0_stack)
  obtain s3 where s3: "VDP_allocateSprites 1 s2 = Some (2, s3)" "spr_free s3 = 77" "spr_allocStack s3 = spr_allocStack spr0"
    using alloc_one [of s2] s2 by (auto simp: spr0_stack)
  define s4 where "s4 = s3\<lparr>spr_allocStack := (spr_allocStack spr0)(77 := 0), spr_free := 78\<rparr>"
  have s4: "VDP_releaseSprites 0 1 s3 = Some s4"
    using s3 by (simp add: VDP_releaseSprites_def spr_push_def s4_def cfg)
  have "2 \<notin> free_sprites s4" by (auto simp: free_sprites_def free_list_def s4_def spr0_stack)
  moreover have "fst (VDP_refreshHighestAllocatedSpriteIndex s4) = 1"
    by (simp add: VDP_refreshHighestAllocatedSpriteIndex_def s4_def spr0_stack cfg numeral_2_eq_2 s16_max_def)
  ultimately show ?thesis using s1(1) s2(1) s3(1) s4 by blast
qed

section \<open>Attributes\<close>

text \<open>The word that \<open>set_field\<close> writes, for the fields of the attribute word.\<close>

lemma set_field_word:
  "set_field b w k v s = s\<lparr>ram := (ram s)(vdpSpriteCache s + 4 * k + 2 :=
     (ram s (vdpSpriteCache s + 4 * k + 2) AND NOT (push_bit b (mask w))) OR push_bit b (v AND mask w))\<rparr>"
  by (simp add: set_field_def spr_put_def spr_attribut_def)

lemma field_masks:
  "NOT (push_bit 15 (mask 1)) = (0x7FFF :: u16)" "NOT (push_bit 13 (mask 2)) = (0x9FFF :: u16)"
  "NOT (push_bit 12 (mask 1)) = (0xEFFF :: u16)" "NOT (push_bit 11 (mask 1)) = (0xF7FF :: u16)"
  "NOT (push_bit 0 (mask 11)) = (0xF800 :: u16)"
  by (simp_all add: mask_eq_exp_minus_1)

lemma field_bits:
  "push_bit 15 (of_bool b AND mask 1) = (if b then 0x8000 else 0 :: u16)"
  "push_bit 12 (of_bool b AND mask 1) = (if b then 0x1000 else 0 :: u16)"
  "push_bit 11 (of_bool b AND mask 1) = (if b then 0x800 else 0 :: u16)"
  "push_bit 13 (p AND mask 2) = 0x2000 * (p AND 3 :: u16)" "push_bit 0 (p AND mask 11) = (p AND 0x7FF :: u16)"
  by (simp_all add: mask_eq_exp_minus_1 push_bit_eq_mult)

text \<open>The two flips, whose bits are set one after the other.\<close>

lemma flip_words: "(w AND 0xF7FF OR (if h then 0x800 else 0)) AND 0xEFFF OR (if v then 0x1000 else 0)
    = w AND 0xE7FF OR (if h then 0x800 else 0) OR (if v then 0x1000 else (0 :: u16))"
  by (cases h; cases v) (simp_all add: bit.conj_disj_distrib2 and.assoc or.assoc)

lemma get_field_masks:
  "get_field 15 1 k s = (if ram s (vdpSpriteCache s + 4 * k + 2) AND 0x8000 \<noteq> 0 then 1 else 0)"
  "get_field 12 1 k s = (if ram s (vdpSpriteCache s + 4 * k + 2) AND 0x1000 \<noteq> 0 then 1 else 0)"
  "get_field 11 1 k s = (if ram s (vdpSpriteCache s + 4 * k + 2) AND 0x800 \<noteq> 0 then 1 else 0)"
  "get_field 13 2 k s = drop_bit 13 (ram s (vdpSpriteCache s + 4 * k + 2) AND 0x6000)"
  "get_field 0 11 k s = ram s (vdpSpriteCache s + 4 * k + 2) AND 0x7FF"
proof -
  have one: "drop_bit n w AND mask 1 = (if w AND m \<noteq> 0 then 1 else 0)" if "m = push_bit n 1" for n and w m :: u16
    using that by (simp add: mask_eq_exp_minus_1 and_one_eq odd_iff_mod_2_eq_one and_exp_eq_0_iff_not_bit push_bit_eq_mult bit_iff_odd_drop_bit)
  show "get_field 15 1 k s = (if ram s (vdpSpriteCache s + 4 * k + 2) AND 0x8000 \<noteq> 0 then 1 else 0)"
    "get_field 12 1 k s = (if ram s (vdpSpriteCache s + 4 * k + 2) AND 0x1000 \<noteq> 0 then 1 else 0)"
    "get_field 11 1 k s = (if ram s (vdpSpriteCache s + 4 * k + 2) AND 0x800 \<noteq> 0 then 1 else 0)"
    unfolding get_field_def spr_attribut_def by (rule one; simp)+
  have m: "(0x6000 :: u16) = push_bit 13 (mask 2)" by (simp add: mask_eq_exp_minus_1)
  show "get_field 13 2 k s = drop_bit 13 (ram s (vdpSpriteCache s + 4 * k + 2) AND 0x6000)"
    unfolding get_field_def spr_attribut_def m by (rule bit_word_eqI) (auto simp: bit_simps)
  show "get_field 0 11 k s = ram s (vdpSpriteCache s + 4 * k + 2) AND 0x7FF"
    by (simp add: get_field_def spr_attribut_def mask_eq_exp_minus_1)
qed

text \<open>
  C38 The setters of the priority, the palette, the flips and the tile of sprite \<open>i\<close> replace exactly their
  bits in the attribute word of this sprite, the third word of its entry in the table, and change nothing else
  of the state: bit 15 is the priority, bits 14 and 13 the palette, bit 12 the vertical and bit 11 the horizontal
  flip, bits 10 to 0 the tile. The getters read the same bits.
\<close>

theorem SPR_attributes:
  "let p = vdpSpriteCache s + 4 * unat i + 2; w = ram s p; put = (\<lambda>v. s\<lparr>ram := (ram s)(p := v)\<rparr>) in
   VDP_setSpritePriority i b s = put (w AND 0x7FFF OR (if b then 0x8000 else 0)) \<and>
   VDP_setSpritePalette i c s = put (w AND 0x9FFF OR 0x2000 * (c AND 3)) \<and>
   VDP_setSpriteFlip i h v s = put (w AND 0xE7FF OR (if h then 0x800 else 0) OR (if v then 0x1000 else 0)) \<and>
   VDP_setSpriteFlipH i h s = put (w AND 0xF7FF OR (if h then 0x800 else 0)) \<and>
   VDP_setSpriteFlipV i v s = put (w AND 0xEFFF OR (if v then 0x1000 else 0)) \<and>
   VDP_setSpriteTile i t s = put (w AND 0xF800 OR (t AND 0x7FF)) \<and>
   VDP_getSpritePriority i s = (w AND 0x8000 \<noteq> 0) \<and> VDP_getSpritePalette i s = drop_bit 13 (w AND 0x6000) \<and>
   VDP_getSpriteFlipV i s = (w AND 0x1000 \<noteq> 0) \<and> VDP_getSpriteFlipH i s = (w AND 0x800 \<noteq> 0) \<and>
   VDP_getSpriteTile i s = w AND 0x7FF"
  unfolding VDP_setSpritePriority_def VDP_setSpritePalette_def VDP_setSpriteFlip_def VDP_setSpriteFlipH_def
    VDP_setSpriteFlipV_def VDP_setSpriteTile_def VDP_getSpritePriority_def VDP_getSpritePalette_def VDP_getSpriteFlipV_def
    VDP_getSpriteFlipH_def VDP_getSpriteTile_def Let_def set_field_word field_masks field_bits get_field_masks
  by (simp add: flip_words)

end
