(* ===== verification/Strings.thy ===== *)
theory Strings
  imports Maths
begin

text \<open>
  Strings and conversions of numbers to strings, \<open>src/str.c\<close>. Strings are zero-terminated bytes in
  memory, which here is a function from byte addresses to bytes. A loop over a string that never
  ends has the value \<open>None\<close>.
\<close>

type_synonym bmem = "nat \<Rightarrow> u8"

section \<open>Strings\<close>

partial_function (option) strlen_loop :: "nat \<Rightarrow> u16 \<Rightarrow> bmem \<Rightarrow> u16 option" where
  "strlen_loop src result m = (if m src \<noteq> 0 then strlen_loop (src + 1) (result + 1) m else Some result)"

definition SGDK_strlen :: "nat \<Rightarrow> bmem \<Rightarrow> u16 option" where
  "SGDK_strlen str m = strlen_loop str 0 m"

fun strnlen_loop :: "nat \<Rightarrow> nat \<Rightarrow> bmem \<Rightarrow> nat" where
  "strnlen_loop src 0 m = 0"
| "strnlen_loop src (Suc i) m = (if m src \<noteq> 0 then strnlen_loop (src + 1) i m else Suc i)"

definition SGDK_strnlen :: "nat \<Rightarrow> u16 \<Rightarrow> bmem \<Rightarrow> u16" where
  "SGDK_strnlen str maxlen m = maxlen - of_nat (strnlen_loop str (unat maxlen) m)"

partial_function (option) strcmp_loop :: "nat \<Rightarrow> nat \<Rightarrow> bmem \<Rightarrow> 8 word option" where
  "strcmp_loop p1 p2 m =
    (if m p1 \<noteq> 0 \<and> m p1 = m p2 then strcmp_loop (p1 + 1) (p2 + 1) m else Some (m p1 - m p2))"

text \<open>The result is of type \<open>s8\<close>: the difference of two bytes is truncated.\<close>

definition SGDK_strcmp :: "nat \<Rightarrow> nat \<Rightarrow> bmem \<Rightarrow> 8 word option" where
  "SGDK_strcmp str1 str2 m = strcmp_loop str1 str2 m"

partial_function (option) strcpy_loop :: "nat \<Rightarrow> nat \<Rightarrow> bmem \<Rightarrow> bmem option" where
  "strcpy_loop dst src m =
    (if m src \<noteq> 0 then strcpy_loop (dst + 1) (src + 1) (m(dst := m src)) else Some (m(dst := m src)))"

definition SGDK_strcpy :: "nat \<Rightarrow> nat \<Rightarrow> bmem \<Rightarrow> (nat \<times> bmem) option" where
  "SGDK_strcpy to from m = map_option (\<lambda>m. (to, m)) (strcpy_loop to from m)"

fun strncpy_loop :: "nat \<Rightarrow> nat \<Rightarrow> nat \<Rightarrow> bmem \<Rightarrow> nat \<times> bmem" where
  "strncpy_loop 0 dst src m = (dst, m)"
| "strncpy_loop (Suc i) dst src m =
    (if m src \<noteq> 0 then strncpy_loop i (dst + 1) (src + 1) (m(dst := m src)) else (dst, m))"

definition SGDK_strncpy :: "nat \<Rightarrow> nat \<Rightarrow> u16 \<Rightarrow> bmem \<Rightarrow> nat \<times> bmem" where
  "SGDK_strncpy to from len m = (let (dst, m) = strncpy_loop (unat len) to from m in (to, m(dst := 0)))"

text \<open>\<open>while (*dst) dst++;\<close>\<close>

partial_function (option) str_end :: "nat \<Rightarrow> bmem \<Rightarrow> nat option" where
  "str_end dst m = (if m dst \<noteq> 0 then str_end (dst + 1) m else Some dst)"

definition SGDK_strcat :: "nat \<Rightarrow> nat \<Rightarrow> bmem \<Rightarrow> (nat \<times> bmem) option" where
  "SGDK_strcat to from m =
    (case str_end to m of None \<Rightarrow> None | Some dst \<Rightarrow> map_option (\<lambda>m. (to, m)) (strcpy_loop dst from m))"

partial_function (option) strchr_loop :: "nat \<Rightarrow> u8 \<Rightarrow> bmem \<Rightarrow> nat option" where
  "strchr_loop src c m = (if m src \<noteq> 0 \<and> m src \<noteq> c then strchr_loop (src + 1) c m else Some src)"

text \<open>\<open>NULL\<close> is the address 0.\<close>

definition SGDK_strchr :: "nat \<Rightarrow> u8 \<Rightarrow> bmem \<Rightarrow> nat option" where
  "SGDK_strchr from c m = map_option (\<lambda>src. if m src = c then src else 0) (strchr_loop from c m)"

definition strclr :: "nat \<Rightarrow> bmem \<Rightarrow> nat \<times> bmem" where
  "strclr str m = (str, m(str := 0))"

partial_function (option) strreplacechar :: "nat \<Rightarrow> u8 \<Rightarrow> u8 \<Rightarrow> bmem \<Rightarrow> (nat \<times> bmem) option" where
  "strreplacechar s oldc newc m =
    (if m s \<noteq> 0 then strreplacechar (s + 1) oldc newc (if m s = oldc then m(s := newc) else m) else Some (s, m))"

section \<open>Numbers\<close>

definition digits :: "u8 list" where
  "digits = map of_char
    (''0001020304050607080910111213141516171819'' @
     ''2021222324252627282930313233343536373839'' @
     ''4041424344454647484950515253545556575859'' @
     ''6061626364656667686970717273747576777879'' @
     ''8081828384858687888990919293949596979899'')"

definition digits10 :: "u16 \<Rightarrow> u16" where
  "digits10 v = (if v < 100 then (if v < 10 then 1 else 2) else if v < 1000 then 3 else if v < 10000 then 4 else 5)"

text \<open>The loop over two digits at a time; \<open>dst\<close> is the address behind the next digit.\<close>

function uint16ToStr_loop :: "u16 \<Rightarrow> nat \<Rightarrow> bmem \<Rightarrow> u16 \<times> nat \<times> bmem" where
  "uint16ToStr_loop v dst m =
    (if v \<ge> 100 then
       (let quot = v div 100; remain = v mod 100; i = unat (remain * 2);
            m = m(dst - 1 := digits ! (i + 1));
            m = m(dst - 2 := digits ! (i + 0))
        in uint16ToStr_loop quot (dst - 2) m)
     else (v, dst, m))"
  by pat_completeness auto
termination
  by (relation "measure (\<lambda>(v, _). unat v)") (simp_all add: word_le_nat_alt unat_div_distrib)

declare uint16ToStr_loop.simps [simp del]

text \<open>\<open>while (dst != str) *--dst = '0';\<close> with \<open>n\<close> bytes between \<open>str\<close> and \<open>dst\<close>\<close>

fun pad_zeros :: "nat \<Rightarrow> nat \<Rightarrow> bmem \<Rightarrow> bmem" where
  "pad_zeros 0 str m = m"
| "pad_zeros (Suc n) str m = pad_zeros n str (m(str + n := 0x30))"

definition uint16ToStr :: "u16 \<Rightarrow> nat \<Rightarrow> u16 \<Rightarrow> bmem \<Rightarrow> u16 \<times> bmem" where
  "uint16ToStr value str minsize m =
    (let len = digits10 value;
         len = (if len < minsize then minsize else len);
         dst = str + unat len;
         m = m(dst := 0);
         (v, dst, m) = uint16ToStr_loop value dst m;
         (dst, m) = (if v < 10 then (dst - 1, m(dst - 1 := 0x30 + ucast v))
                     else (let i = unat (v * 2);
                               m = m(dst - 1 := digits ! (i + 1));
                               m = m(dst - 2 := digits ! (i + 0))
                           in (dst - 2, m)));
         m = pad_zeros (dst - str) str m
     in (len, m))"

text \<open>The digits of the loops of \<open>intToHex\<close>, the last one first in the buffer \<open>data\<close>.\<close>

definition hex_char :: "u32 \<Rightarrow> u8" where
  "hex_char res = (let c = ucast (res AND 0xF) :: u8 in if c \<ge> 10 then c + (0x41 - 10) else c + 0x30)"

function intToHex_loop :: "u32 \<Rightarrow> u8 list \<Rightarrow> u8 list" where
  "intToHex_loop res data = (if res \<noteq> 0 then intToHex_loop (drop_bit 4 res) (hex_char res # data) else data)"
  by pat_completeness auto
termination
proof (relation "measure (\<lambda>(v, _). unat v)")
  fix res :: u32 assume "res \<noteq> 0"
  then have "0 < unat res" by (simp add: unat_gt_0)
  then have "unat res div 16 < unat res" by simp
  moreover have "unat (drop_bit 4 res) = unat res div 16" by (simp only: unat_drop_bit_eq) (simp add: drop_bit_eq_div)
  ultimately show "((drop_bit 4 res, x), res, y) \<in> measure (\<lambda>(v, _). unat v)" for x y by simp
qed simp

declare intToHex_loop.simps [simp del]

fun put_bytes :: "nat \<Rightarrow> u8 list \<Rightarrow> bmem \<Rightarrow> bmem" where
  "put_bytes dst [] m = m"
| "put_bytes dst (b # bs) m = put_bytes (dst + 1) bs (m(dst := b))"

definition intToHex :: "u32 \<Rightarrow> nat \<Rightarrow> u16 \<Rightarrow> bmem \<Rightarrow> u16 \<times> bmem" where
  "intToHex value str minsize m =
    (let left = (if minsize > 15 then 15 else minsize);
         data = intToHex_loop value [];
         left = sint left - int (length data);
         data = replicate (nat left) 0x30 @ data;
         m = put_bytes str data m;
         dst = str + length data
     in (of_nat (length data), m(dst := 0)))"

definition uintToStr :: "u32 \<Rightarrow> nat \<Rightarrow> u16 \<Rightarrow> bmem \<Rightarrow> u16 \<times> bmem" where
  "uintToStr value str minsize m =
    (if value > 500000000 then intToHex value str minsize m
     else if value > 10000 then
       (let v1 = ucast (value div 10000) :: u16;
            v2 = ucast (value mod 10000) :: u16;
            (len, m) = uint16ToStr v1 str (if minsize > 4 then minsize - 4 else 1) m;
            (len2, m) = uint16ToStr v2 (str + unat len) 4 m
        in (len + len2, m))
     else uint16ToStr (ucast value) str minsize m)"

definition intToStr :: "s32 \<Rightarrow> nat \<Rightarrow> u16 \<Rightarrow> bmem \<Rightarrow> u16 \<times> bmem" where
  "intToStr value str minsize m =
    (if sint value < - 500000000 then
       (let m = m(str := 0x2D); (len, m) = intToHex (- value) (str + 1) minsize m in (len + 1, m))
     else if sint value < 0 then
       (let m = m(str := 0x2D); (len, m) = uintToStr (- value) (str + 1) minsize m in (len + 1, m))
     else uintToStr value str minsize m)"

text \<open>
  The end that the four conversions of fixed point numbers share: \<open>frac\<close> has been written with \<open>len\<close>
  digits at \<open>dst\<close>.
\<close>

definition frac_end :: "u16 \<Rightarrow> u16 \<Rightarrow> nat \<Rightarrow> bmem \<Rightarrow> bmem" where
  "frac_end len numdec dst m =
    (if len < numdec then
       (let n = unat numdec - unat len; dst = dst + unat len;
            m = put_bytes dst (replicate n 0x30) m
        in m(dst + n := 0))
     else m(dst + unat numdec := 0))"

definition fix16ToStr :: "fix16 \<Rightarrow> nat \<Rightarrow> u16 \<Rightarrow> bmem \<Rightarrow> bmem" where
  "fix16ToStr value str numdec m =
    (let (v, dst, m) = (if sint value < 0 then (- value, str + 1, m(str := 0x2D)) else (value, str, m));
         (n, m) = uint16ToStr (F16_toInt v) dst 1 m;
         dst = dst + unat n;
         m = m(dst := 0x2E);
         dst = dst + 1;
         frac = ucast (drop_bit FIX16_FRAC_BITS (mulu (F16_frac v) 1000)) :: u16;
         (len, m) = uint16ToStr frac dst 3 m
     in frac_end len numdec dst m)"

definition fix32ToStr :: "fix32 \<Rightarrow> nat \<Rightarrow> u16 \<Rightarrow> bmem \<Rightarrow> bmem" where
  "fix32ToStr value str numdec m =
    (let (v, dst, m) = (if sint value < 0 then (- value, str + 1, m(str := 0x2D)) else (value, str, m));
         (n, m) = uintToStr (F32_toInt v) dst 1 m;
         dst = dst + unat n;
         m = m(dst := 0x2E);
         dst = dst + 1;
         frac = ucast (drop_bit FIX32_FRAC_BITS (mulu (ucast (F32_frac v)) 1000)) :: u16;
         (len, m) = uint16ToStr frac dst 3 m
     in frac_end len numdec dst m)"

definition fastFix16ToStr :: "fastfix16 \<Rightarrow> nat \<Rightarrow> u16 \<Rightarrow> bmem \<Rightarrow> bmem" where
  "fastFix16ToStr value str numdec m =
    (let (v, dst, m) = (if sint value < 0 then (- value, str + 1, m(str := 0x2D)) else (value, str, m));
         (n, m) = uint16ToStr (FF16_toInt v) dst 1 m;
         dst = dst + unat n;
         m = m(dst := 0x2E);
         dst = dst + 1;
         frac = ucast (drop_bit FASTFIX16_FRAC_BITS (mulu (FF16_frac v) 1000)) :: u16;
         (len, m) = uint16ToStr frac dst 3 m
     in frac_end len numdec dst m)"

definition fastFix32ToStr :: "fastfix32 \<Rightarrow> nat \<Rightarrow> u16 \<Rightarrow> bmem \<Rightarrow> bmem" where
  "fastFix32ToStr value str numdec m =
    (let (v, dst, m) = (if sint value < 0 then (- value, str + 1, m(str := 0x2D)) else (value, str, m));
         (n, m) = uint16ToStr (FF32_toInt v) dst 1 m;
         dst = dst + unat n;
         m = m(dst := 0x2E);
         dst = dst + 1;
         frac = ucast (drop_bit FASTFIX32_FRAC_BITS (mulu (ucast (FF32_frac v)) 10000)) :: u16;
         (len, m) = uint16ToStr frac dst 4 m
     in frac_end len numdec dst m)"

definition F16_toStr :: "fix16 \<Rightarrow> nat \<Rightarrow> u16 \<Rightarrow> bmem \<Rightarrow> bmem" where
  "F16_toStr value str numdec m = fix16ToStr value str numdec m"

definition F32_toStr :: "fix32 \<Rightarrow> nat \<Rightarrow> u16 \<Rightarrow> bmem \<Rightarrow> bmem" where
  "F32_toStr value str numdec m = fix32ToStr value str numdec m"

definition FF16_toStr :: "fastfix16 \<Rightarrow> nat \<Rightarrow> u16 \<Rightarrow> bmem \<Rightarrow> bmem" where
  "FF16_toStr value str numdec m = fastFix16ToStr value str numdec m"

definition FF32_toStr :: "fastfix32 \<Rightarrow> nat \<Rightarrow> u16 \<Rightarrow> bmem \<Rightarrow> bmem" where
  "FF32_toStr value str numdec m = fastFix32ToStr value str numdec m"

section \<open>Bytes in a row\<close>

lemma put_bytes_apply: "put_bytes p bs m a = (if p \<le> a \<and> a < p + length bs then bs ! (a - p) else m a)"
proof (induction bs arbitrary: p m a)
  case (Cons b bs)
  consider "a < p" | "a = p" | "p < a" by linarith
  then show ?case by cases (simp_all add: Cons.IH nth_Cons' Suc_le_eq)
qed auto

lemma put_bytes_append: "put_bytes p (xs @ ys) m = put_bytes p xs (put_bytes (p + length xs) ys m)"
  by (auto simp: fun_eq_iff put_bytes_apply nth_append)

lemma put_bytes_overwrite:
  "length ys \<le> length zs \<Longrightarrow> put_bytes (p + length xs) zs (put_bytes p (xs @ ys) m) = put_bytes p (xs @ zs) m"
  by (auto simp: fun_eq_iff put_bytes_apply nth_append)

lemma put_bytes_end: "(put_bytes p bs m)(p + length bs := b) = put_bytes p (bs @ [b]) m"
  by (auto simp: fun_eq_iff put_bytes_apply nth_append)

lemma pad_zeros_eq: "pad_zeros n str m = put_bytes str (replicate n 0x30) m"
proof (induction n arbitrary: m)
  case (Suc n)
  have "replicate (Suc n) (0x30 :: u8) = replicate n 0x30 @ [0x30]" by (simp add: replicate_append_same)
  then show ?case by (simp add: Suc.IH put_bytes_append fun_upd_def del: replicate.simps)
qed simp

section \<open>Decimal digits\<close>

fun dec :: "nat \<Rightarrow> u8 list" where
  "dec n = (if n < 10 then [of_nat (48 + n)] else dec (n div 10) @ [of_nat (48 + n mod 10)])"

declare dec.simps [simp del]

definition pad :: "nat \<Rightarrow> u8 list \<Rightarrow> u8 list" where
  "pad n bs = replicate (n - length bs) 0x30 @ bs"

text \<open>The value of a string of decimal digits.\<close>

definition undec :: "u8 list \<Rightarrow> nat" where
  "undec bs = foldl (\<lambda>n b. 10 * n + (unat b - 48)) 0 bs"

lemma undec_snoc: "undec (bs @ [b]) = 10 * undec bs + (unat b - 48)"
  by (simp add: undec_def)

lemma undec_dec: "undec (dec n) = n"
proof (induction n rule: dec.induct)
  case (1 n)
  have "unat (of_nat (48 + k) :: u8) = 48 + k" if "k < 10" for k using that by (simp only: unat_of_nat) simp
  then show ?case using 1 by (subst dec.simps) (auto simp: undec_snoc undec_def)
qed

lemma undec_pad: "undec (pad n bs) = undec bs"
proof -
  have "foldl (\<lambda>n b. 10 * n + (unat (b :: u8) - 48)) 0 (replicate k 0x30) = 0" for k by (induction k) simp_all
  then show ?thesis by (simp add: undec_def pad_def)
qed

lemma dec_10: "0 < a \<Longrightarrow> b < 10 \<Longrightarrow> dec (10 * a + b) = dec a @ [of_nat (48 + b)]"
  by (subst dec.simps) simp

definition two :: "nat \<Rightarrow> u8 list" where
  "two k = [of_nat (48 + k div 10), of_nat (48 + k mod 10)]"

lemma dec_two: "10 \<le> k \<Longrightarrow> k < 100 \<Longrightarrow> dec k = two k"
proof -
  assume "10 \<le> k" "k < 100"
  then have "k div 10 < 10" by simp
  then show ?thesis using \<open>10 \<le> k\<close> by (simp add: dec.simps [of k] dec.simps [of "k div 10"] two_def)
qed

lemma dec_100: "0 < a \<Longrightarrow> b < 100 \<Longrightarrow> dec (100 * a + b) = dec a @ two b"
proof -
  assume a: "0 < a" and b: "b < 100"
  have "100 * a + b = 10 * (10 * a + b div 10) + b mod 10" by simp
  then have "dec (100 * a + b) = dec (10 * (10 * a + b div 10) + b mod 10)" by (rule arg_cong)
  also have "\<dots> = dec (10 * a + b div 10) @ [of_nat (48 + b mod 10)]" using a by (intro dec_10) simp_all
  also have "dec (10 * a + b div 10) = dec a @ [of_nat (48 + b div 10)]" using a b by (intro dec_10) simp_all
  finally show ?thesis by (simp add: two_def)
qed

lemma nth_pairs:
  "k < n \<Longrightarrow> concat (map (\<lambda>k. [f k, g k]) [0 ..< n]) ! (2 * k) = f k \<and>
    concat (map (\<lambda>k. [f k, g k]) [0 ..< n]) ! (2 * k + 1) = g k"
proof (induction n)
  case (Suc n)
  have "length (concat (map (\<lambda>k. [f k, g k]) [0 ..< n])) = 2 * n" for n by (induction n) simp_all
  then show ?case using Suc by (auto simp: nth_append less_Suc_eq)
qed simp

lemma digits_two: "k < 100 \<Longrightarrow> digits ! (2 * k) = of_nat (48 + k div 10) \<and> digits ! (2 * k + 1) = of_nat (48 + k mod 10)"
proof -
  let ?t = "\<lambda>xs. concat (map (\<lambda>k. [of_nat (48 + k div 10), of_nat (48 + k mod 10)]) xs) :: u8 list"
  have "map of_char ''0001020304050607080910111213141516171819'' = ?t [0 ..< 20]"
    "map of_char ''2021222324252627282930313233343536373839'' = ?t [20 ..< 40]"
    "map of_char ''4041424344454647484950515253545556575859'' = ?t [40 ..< 60]"
    "map of_char ''6061626364656667686970717273747576777879'' = ?t [60 ..< 80]"
    "map of_char ''8081828384858687888990919293949596979899'' = ?t [80 ..< 100]"
    by (simp_all add: upt_rec)
  then have "digits = ?t [0 ..< 20] @ ?t [20 ..< 40] @ ?t [40 ..< 60] @ ?t [60 ..< 80] @ ?t [80 ..< 100]"
    unfolding digits_def map_append by (simp only:)
  also have "\<dots> = ?t ([0 ..< 20] @ [20 ..< 40] @ [40 ..< 60] @ [60 ..< 80] @ [80 ..< 100])"
    by (simp only: map_append concat_append)
  also have "[0 ..< 20] @ [20 ..< 40] @ [40 ..< 60] @ [60 ..< 80] @ [80 ..< 100] = [0 ..< 100 :: nat]"
    by (simp add: upt_rec)
  finally have t: "digits = ?t [0 ..< 100]" .
  show "k < 100 \<Longrightarrow> ?thesis" unfolding t by (rule nth_pairs)
qed

section \<open>Conversion of unsigned numbers\<close>

lemma put_two:
  assumes "2 \<le> dst" "k < 100"
  shows "m(dst - 1 := digits ! (2 * k + 1), dst - 2 := digits ! (2 * k)) = put_bytes (dst - 2) (two k) m"
proof -
  have "Suc (dst - 2) = dst - 1" using assms(1) by simp
  then show ?thesis using digits_two [OF assms(2)] assms(1) by (auto simp: two_def fun_eq_iff)
qed

lemma unat_times_2: "unat (w :: u16) < 100 \<Longrightarrow> unat (w * 2) = 2 * unat w"
  by (simp add: unat_word_ariths)

lemma dec_nonempty: "0 < length (dec n)"
  by (subst dec.simps) simp

lemma uint16ToStr_loop_ok:
  "length (dec (unat v)) \<le> dst \<Longrightarrow>
    \<exists>v' rest. uint16ToStr_loop v dst m = (v', dst - length rest, put_bytes (dst - length rest) rest m) \<and>
      unat v' < 100 \<and> dec (unat v) = dec (unat v') @ rest"
proof (induction v dst m rule: uint16ToStr_loop.induct)
  case (1 v dst m)
  show ?case
  proof (cases "v \<ge> 100")
    case False
    then have "unat v < 100" by (simp add: word_le_nat_alt)
    then show ?thesis using False by (subst uint16ToStr_loop.simps) (auto intro!: exI [of _ v] exI [of _ "[]"])
  next
    case True
    define q where "q = unat v div 100"
    define r where "r = unat v mod 100"
    have "100 \<le> unat v" using True by (simp add: word_le_nat_alt)
    then have qr: "0 < q" "r < 100" "unat v = 100 * q + r" unfolding q_def r_def by (simp_all add: div_greater_zero_iff)
    have u: "unat (v div 100) = q" "unat (v mod 100) = r" by (simp_all add: q_def r_def unat_div_distrib unat_mod_distrib)
    have d: "dec (unat v) = dec q @ two r" using dec_100 [OF qr(1,2)] qr(3) by simp
    have dst: "2 \<le> dst" "length (dec q) \<le> dst - 2" using 1(2) d dec_nonempty [of q] by (simp_all add: two_def)
    have i: "unat (v mod 100 * 2) = 2 * r" using unat_times_2 [of "v mod 100"] u(2) qr(2) by simp
    define m1 where "m1 = put_bytes (dst - 2) (two r) m"
    have e: "uint16ToStr_loop v dst m = uint16ToStr_loop (v div 100) (dst - 2) m1"
      using True put_two [OF dst(1) qr(2), of m] unfolding m1_def by (subst uint16ToStr_loop.simps) (simp add: Let_def i)
    have "\<exists>v' rest. uint16ToStr_loop (v div 100) (dst - 2) m1 =
          (v', dst - 2 - length rest, put_bytes (dst - 2 - length rest) rest m1) \<and>
        unat v' < 100 \<and> dec (unat (v div 100)) = dec (unat v') @ rest"
      using 1(1) [OF True refl refl refl refl refl, unfolded i u add_0_right put_two [OF dst(1) qr(2)], folded m1_def] dst(2)
      unfolding u by blast
    then obtain v' rest where v': "uint16ToStr_loop (v div 100) (dst - 2) m1 =
          (v', dst - 2 - length rest, put_bytes (dst - 2 - length rest) rest m1)"
        "unat v' < 100" "dec q = dec (unat v') @ rest" unfolding u by blast
    have "length rest + 2 \<le> dst" using dst v'(3) by simp
    then have "put_bytes (dst - 2 - length rest) rest m1 = put_bytes (dst - length (rest @ two r)) (rest @ two r) m"
      unfolding m1_def put_bytes_append by (simp add: two_def)
    moreover have "dst - 2 - length rest = dst - length (rest @ two r)" by (simp add: two_def)
    ultimately show ?thesis using e v' d by (intro exI [of _ v'] exI [of _ "rest @ two r"]) simp
  qed
qed

lemma length_dec: "10 ^ k \<le> n \<Longrightarrow> n < 10 ^ Suc k \<Longrightarrow> length (dec n) = Suc k"
proof (induction k arbitrary: n)
  case 0
  then show ?case by (subst dec.simps) simp
next
  case (Suc k)
  have "10 ^ Suc k div 10 \<le> n div 10" using Suc.prems(1) by (rule div_le_mono)
  then have "10 ^ k \<le> n div 10" by simp
  moreover have "n div 10 < 10 ^ Suc k" using Suc.prems(2) by (simp add: less_mult_imp_div_less)
  moreover have "\<not> n < 10"
  proof -
    have "(1 :: nat) \<le> 10 ^ k" by simp
    then show ?thesis using Suc.prems(1) unfolding power_Suc by linarith
  qed
  ultimately show ?case using Suc.IH by (subst dec.simps) simp
qed

lemma length_dec_le: "n < 10 ^ Suc k \<Longrightarrow> length (dec n) \<le> Suc k"
proof (induction k arbitrary: n)
  case 0
  then show ?case by (subst dec.simps) simp
next
  case (Suc k)
  have "n div 10 < 10 ^ Suc k" using Suc.prems by (simp add: less_mult_imp_div_less)
  then show ?case using Suc.IH [of "n div 10"] by (subst dec.simps) simp
qed

lemma digits10_length: "unat (digits10 v) = length (dec (unat v))"
proof -
  have "unat v < 65536" by (rule unat_u16_lt)
  moreover have "length (dec (unat v)) = 1" if "unat v < 10" using that by (subst dec.simps) simp
  ultimately show ?thesis
    using length_dec [of 1 "unat v"] length_dec [of 2 "unat v"] length_dec [of 3 "unat v"] length_dec [of 4 "unat v"]
    by (simp add: digits10_def word_less_nat_alt)
qed

lemma put_last:
  fixes v :: u16
  assumes "unat v < 100" "length (dec (unat v)) \<le> dst"
  shows "(if v < 10 then (dst - 1, m(dst - 1 := 0x30 + ucast v))
      else (let i = unat (v * 2); m = m(dst - 1 := digits ! (i + 1)); m = m(dst - 2 := digits ! (i + 0)) in (dst - 2, m))) =
    (dst - length (dec (unat v)), put_bytes (dst - length (dec (unat v))) (dec (unat v)) m)"
proof (cases "unat v < 10")
  case True
  then have d: "dec (unat v) = [of_nat (48 + unat v)]" by (subst dec.simps) simp
  have c: "(of_nat (48 + unat v) :: u8) = 0x30 + ucast v" unfolding of_nat_add of_nat_unat by (simp only: of_nat_numeral)
  have "v < 10" using True by (simp add: word_less_nat_alt)
  then show ?thesis unfolding d c by simp
next
  case False
  then have d: "dec (unat v) = two (unat v)" using assms(1) by (simp add: dec_two)
  then have "2 \<le> dst" using assms(2) by (simp add: two_def)
  moreover have "\<not> v < 10" "length (two (unat v)) = 2" using False by (simp_all add: word_less_nat_alt two_def)
  ultimately show ?thesis unfolding d
    by (simp only: if_False Let_def unat_times_2 [OF assms(1)] add_0_right put_two [OF _ assms(1)])
qed

lemma length_pad: "length (pad n bs) = max n (length bs)"
  by (simp add: pad_def)

lemma uint16ToStr_ok:
  assumes bs_def: "bs = pad (unat minsize) (dec (unat value))"
  shows "uint16ToStr value str minsize m = (of_nat (length bs), put_bytes str (bs @ [0]) m)"
proof -
  define ds where "ds = dec (unat value)"
  define len where "len = (if digits10 value < minsize then minsize else digits10 value)"
  have len: "unat len = length bs"
    unfolding len_def bs_def length_pad digits10_length [symmetric] by (simp add: word_less_nat_alt max_def)
  define dst where "dst = str + unat len"
  define m0 where "m0 = m(dst := 0)"
  have le: "length ds \<le> unat len" "length (dec (unat value)) \<le> dst"
    unfolding len dst_def ds_def bs_def length_pad by simp_all
  obtain v' rest where v': "uint16ToStr_loop value dst m0 = (v', dst - length rest, put_bytes (dst - length rest) rest m0)"
    "unat v' < 100" "ds = dec (unat v') @ rest" using uint16ToStr_loop_ok [OF le(2), of m0] unfolding ds_def by blast
  have le2: "length (dec (unat v')) \<le> dst - length rest" using le(1) v'(3) by (simp add: dst_def)
  define d where "d = dst - length ds"
  have d: "dst - length rest - length (dec (unat v')) = d" unfolding d_def v'(3) by simp
  have m2: "put_bytes d (dec (unat v')) (put_bytes (dst - length rest) rest m0) = put_bytes d ds m0"
    using le(1) unfolding v'(3) put_bytes_append d_def dst_def v'(3) by simp
  have z: "d - str = length bs - length ds" using le(1) by (simp add: d_def dst_def len)
  have bs: "bs = replicate (length bs - length ds) 0x30 @ ds"
    by (simp add: bs_def pad_def ds_def)
  have "put_bytes str (replicate (d - str) 0x30) (put_bytes d ds m0) = put_bytes str (bs @ [0]) m"
  proof -
    have "put_bytes str (bs @ [0]) m = put_bytes str bs m0" by (simp add: put_bytes_append m0_def dst_def len)
    also have "\<dots> = put_bytes str (replicate (d - str) 0x30) (put_bytes d ds m0)"
      using le(1) by (subst bs) (simp add: put_bytes_append z d_def dst_def len)
    finally show ?thesis ..
  qed
  then show ?thesis
    unfolding uint16ToStr_def Let_def len_def [symmetric] dst_def [symmetric] m0_def [symmetric] v'(1) prod.case
      put_last [OF v'(2) le2, unfolded Let_def] d m2 pad_zeros_eq
    by (simp add: len [symmetric])
qed

lemma pad_4:
  assumes "0 < a" "b < 10000"
  shows "dec (10000 * a + b) = dec a @ pad 4 (dec b)"
proof -
  have p: "pad 4 (dec b) = two (b div 100) @ two (b mod 100)"
  proof -
    have z: "two k = 0x30 # dec k" if "k < 10" for k using that by (simp add: two_def dec.simps [of k])
    have l: "length (dec k) = 1" if "k < 10" for k using that by (simp add: dec.simps [of k])
    have t: "length (two k) = 2" for k by (simp add: two_def)
    show ?thesis
    proof (cases "b < 100")
      case True
      have "two 0 = [0x30, 0x30]" by (simp add: two_def)
      moreover have "replicate 3 (0x30 :: u8) = [0x30, 0x30, 0x30]" "replicate 2 (0x30 :: u8) = [0x30, 0x30]"
        by (simp_all add: numeral_eq_Suc)
      moreover have "b div 100 = 0" "b mod 100 = b" using True by simp_all
      ultimately show ?thesis using True z [of b] l [of b] dec_two [of b] t [of b]
        by (cases "b < 10") (simp_all only: pad_def, simp_all)
    next
      case False
      then have "dec b = dec (b div 100) @ two (b mod 100)" using dec_100 [of "b div 100" "b mod 100"] by (simp add: div_greater_zero_iff)
      moreover have "b div 100 < 100" using assms(2) by simp
      ultimately show ?thesis using z [of "b div 100"] l [of "b div 100"] dec_two [of "b div 100"] t
        by (cases "b div 100 < 10") (simp_all add: pad_def)
    qed
  qed
  have "10000 * a + b = 100 * (100 * a + b div 100) + b mod 100" by (simp add: distrib_left)
  then have "dec (10000 * a + b) = dec (100 * (100 * a + b div 100) + b mod 100)" by (rule arg_cong)
  also have "\<dots> = dec (100 * a + b div 100) @ two (b mod 100)" using assms by (intro dec_100) simp_all
  also have "dec (100 * a + b div 100) = dec a @ two (b div 100)" using assms by (intro dec_100) simp_all
  finally show ?thesis by (simp add: p)
qed

lemma uintToStr_dec:
  assumes "unat value \<le> 500000000" and bs_def: "bs = pad (unat minsize) (dec (unat value))"
  shows "uintToStr value str minsize m = (of_nat (length bs), put_bytes str (bs @ [0]) m)"
proof (cases "unat value > 10000")
  case False
  then have "unat (ucast value :: u16) = unat value" by (simp add: unat_ucast_mod)
  then show ?thesis
    using False assms uint16ToStr_ok [of bs minsize "ucast value" str m] by (simp add: uintToStr_def word_less_nat_alt)
next
  case True
  define a where "a = unat value div 10000"
  define b where "b = unat value mod 10000"
  have ab: "0 < a" "b < 10000" "unat value = 10000 * a + b" "a < 65536"
    using True assms(1) by (simp_all add: a_def b_def div_greater_zero_iff)
  have u: "unat (ucast (value div 10000) :: u16) = a" "unat (ucast (value mod 10000) :: u16) = b"
    using ab(2,4) by (simp_all only: unat_ucast_mod unat_div_distrib unat_mod_distrib) (simp_all add: a_def [symmetric] b_def [symmetric])
  define ms where "ms = (if minsize > 4 then minsize - 4 else 1)"
  define xs where "xs = pad (unat ms) (dec a)"
  define ys where "ys = pad 4 (dec b)"
  have ms: "unat ms = (if unat minsize > 4 then unat minsize - 4 else 1)"
    unfolding ms_def by (simp add: word_less_nat_alt unat_minus_le word_le_nat_alt)
  have ys: "length ys = 4" using length_dec_le [of b 3] ab(2) by (simp add: ys_def length_pad)
  have d: "dec (unat value) = dec a @ ys" using pad_4 [OF ab(1,2)] ab(3) by (simp add: ys_def)
  have bs: "bs = xs @ ys"
    using dec_nonempty [of a] unfolding bs_def xs_def pad_def d ms by (auto simp: ys diff_commute Suc_le_eq intro!: arg_cong [where f = "\<lambda>n. replicate n _"])
  have "length (dec a) < 65536" using length_dec_le [of a 4] ab(4) by simp
  then have "length xs < 65536" using unat_u16_lt [of ms] by (simp add: xs_def length_pad)
  then have lx: "unat (of_nat (length xs) :: u16) = length xs" by (simp add: unat_of_nat)
  have e: "uint16ToStr (ucast (value div 10000)) str ms m = (of_nat (length xs), put_bytes str (xs @ [0]) m)"
    "uint16ToStr (ucast (value mod 10000)) p 4 m' = (of_nat (length ys), put_bytes p (ys @ [0]) m')" for p m'
    by (rule uint16ToStr_ok; simp add: xs_def ys_def u)+
  have "\<not> value > 500000000" "value > 10000" using assms(1) True by (simp_all add: word_less_nat_alt)
  then have "uintToStr value str minsize m =
      (of_nat (length xs) + of_nat (length ys), put_bytes (str + length xs) (ys @ [0]) (put_bytes str (xs @ [0]) m))"
    unfolding uintToStr_def Let_def ms_def [symmetric] by (simp add: e lx)
  also have "put_bytes (str + length xs) (ys @ [0]) (put_bytes str (xs @ [0]) m) = put_bytes str (xs @ ys @ [0]) m"
    by (rule put_bytes_overwrite) simp
  finally show ?thesis by (simp add: bs)
qed

section \<open>Hexadecimal digits\<close>

fun hex :: "nat \<Rightarrow> u8 list" where
  "hex n = (if n = 0 then [] else hex (n div 16) @ [if n mod 16 < 10 then of_nat (48 + n mod 16) else of_nat (55 + n mod 16)])"

declare hex.simps [simp del]

lemma hex_char_eq: "hex_char w = (if unat w mod 16 < 10 then of_nat (48 + unat w mod 16) else of_nat (55 + unat w mod 16))"
proof -
  define k where "k = unat w mod 16"
  have "k < 16" by (simp add: k_def)
  have "unat (w AND 0xF) = k" using unat_and_mask [of w 4] by (simp add: mask_eq_exp_minus_1 k_def)
  then have "(ucast (w AND 0xF) :: u8) = of_nat k" by (metis of_nat_unat)
  moreover have "(10 :: u8) \<le> of_nat k \<longleftrightarrow> 10 \<le> k" using \<open>k < 16\<close> by (simp add: word_le_nat_alt unat_of_nat)
  ultimately show ?thesis unfolding hex_char_def Let_def k_def [symmetric] by (simp add: add.commute)
qed

lemma intToHex_loop_hex: "intToHex_loop w acc = hex (unat w) @ acc"
proof (induction w acc rule: intToHex_loop.induct)
  case (1 w acc)
  have u: "unat (drop_bit 4 w) = unat w div 16" by (simp only: unat_drop_bit_eq) (simp add: drop_bit_eq_div)
  show ?case
  proof (cases "w = 0")
    case True
    then show ?thesis by (simp add: intToHex_loop.simps [of 0 acc] hex.simps)
  next
    case False
    then have "unat w \<noteq> 0" by (simp add: unat_eq_0)
    then show ?thesis
      using 1 False by (simp add: intToHex_loop.simps [of w acc] hex.simps [of "unat w"] u hex_char_eq)
  qed
qed

lemma intToHex_ok:
  "intToHex value str minsize m =
    (of_nat (length (pad (min 15 (unat minsize)) (hex (unat value)))),
     put_bytes str (pad (min 15 (unat minsize)) (hex (unat value)) @ [0]) m)"
proof -
  define left where "left = (if minsize > 15 then 15 else minsize)"
  have l: "unat left = min 15 (unat minsize)" by (simp add: left_def word_less_nat_alt min_def)
  then have "sint left = int (min 15 (unat minsize))" using sint_small [of left] by simp
  then have n: "nat (sint left - int (length (hex (unat value)))) = min 15 (unat minsize) - length (hex (unat value))" by linarith
  show ?thesis
    unfolding intToHex_def Let_def left_def [symmetric] intToHex_loop_hex append_Nil2 n put_bytes_end pad_def by simp
qed

text \<open>
  C24 Between -500000000 and 500000000 \<open>intToStr\<close> writes exactly the sign and the decimal digits of the
  value, padded with zeros to the given size, and a final zero byte; the digits read back give the
  value; outside it writes the hexadecimal digits.
\<close>

theorem intToStr_ok:
  "let a = nat \<bar>sint v\<bar>;
       ds = (if a \<le> 500000000 then pad (unat minsize) (dec a) else pad (min 15 (unat minsize)) (hex a));
       bs = (if sint v < 0 then 0x2D # ds else ds)
   in intToStr v str minsize m = (of_nat (length bs), put_bytes str (bs @ [0]) m) \<and>
     undec (pad (unat minsize) (dec a)) = a"
proof -
  define a where "a = nat \<bar>sint v\<bar>"
  have b: "- 2147483648 \<le> sint v" "sint v < 2147483648" using sint_range_size [of v] by (simp_all add: word_size)
  have w: "unat (word_of_int k :: u32) = nat k" if "0 \<le> k" "k < 4294967296" for k
    using that by (simp add: unat_eq_nat_uint uint_word_of_int_eq take_bit_int_eq_self)
  have u: "unat (if sint v < 0 then - v else v) = a"
    using w [of "- sint v"] w [of "sint v"] b by (auto simp: a_def)
  have g: "uintToStr x p minsize mm = (of_nat (length ds), put_bytes p (ds @ [0]) mm)"
    if "unat x = a" "ds = (if a \<le> 500000000 then pad (unat minsize) (dec a) else pad (min 15 (unat minsize)) (hex a))" for x p mm ds
  proof (cases "a \<le> 500000000")
    case True
    then show ?thesis using that uintToStr_dec [of x ds minsize p mm] by simp
  next
    case False
    then have "x > 500000000" using that(1) by (simp add: word_less_nat_alt)
    then show ?thesis using False that intToHex_ok [of x p minsize mm] by (simp add: uintToStr_def)
  qed
  have h: "intToHex x p minsize mm = uintToStr x p minsize mm" if "unat x = a" "\<not> a \<le> 500000000" for x p mm
  proof -
    have "x > 500000000" using that by (simp add: word_less_nat_alt)
    then show ?thesis by (simp add: uintToStr_def)
  qed
  define ds where "ds = (if a \<le> 500000000 then pad (unat minsize) (dec a) else pad (min 15 (unat minsize)) (hex a))"
  have neg: "intToStr v str minsize m = (of_nat (length (0x2D # ds)), put_bytes str ((0x2D # ds) @ [0]) m)" if n: "sint v < 0"
  proof -
    have v: "unat (- v) = a" using u n by simp
    have "intToStr v str minsize m = (let m = m(str := 0x2D); (len, m) = uintToStr (- v) (str + 1) minsize m in (len + 1, m))"
      using n h [OF v] b unfolding intToStr_def Let_def a_def by auto
    then show ?thesis by (simp add: Let_def g [OF v ds_def] add.commute)
  qed
  have pos: "intToStr v str minsize m = (of_nat (length ds), put_bytes str (ds @ [0]) m)" if n: "\<not> sint v < 0"
    using g [OF _ ds_def, of v] u n by (simp add: intToStr_def)
  show ?thesis unfolding Let_def a_def [symmetric] ds_def [symmetric] using neg pos undec_pad undec_dec by simp
qed

section \<open>String operations\<close>

text \<open>The bytes \<open>s\<close>, none of them zero, and a final zero stand at \<open>p\<close>.\<close>

definition cstr :: "bmem \<Rightarrow> nat \<Rightarrow> u8 list \<Rightarrow> bool" where
  "cstr m p s \<longleftrightarrow> (\<forall>i < length s. m (p + i) = s ! i) \<and> m (p + length s) = 0 \<and> 0 \<notin> set s"

lemma cstr_simps [simp]:
  "cstr m p [] \<longleftrightarrow> m p = 0"
  "cstr m p (b # s) \<longleftrightarrow> m p = b \<and> b \<noteq> 0 \<and> cstr m (p + 1) s"
proof -
  show "cstr m p [] \<longleftrightarrow> m p = 0" by (simp add: cstr_def)
  have "(\<forall>i < length (b # s). m (p + i) = (b # s) ! i) \<longleftrightarrow> m p = b \<and> (\<forall>i < length s. m (p + 1 + i) = s ! i)"
    by (auto simp: less_Suc_eq_0_disj)
  then show "cstr m p (b # s) \<longleftrightarrow> m p = b \<and> b \<noteq> 0 \<and> cstr m (p + 1) s" by (auto simp: cstr_def)
qed

lemma cstr_upd: "a < p \<or> p + length s < a \<Longrightarrow> cstr (m(a := b)) p s = cstr m p s"
proof -
  assume "a < p \<or> p + length s < a"
  then have "(m(a := b)) (p + i) = m (p + i)" if "i \<le> length s" for i using that by auto
  then show ?thesis unfolding cstr_def by (simp del: fun_upd_apply)
qed

lemma strlen_loop_ok: "cstr m p s \<Longrightarrow> strlen_loop p n m = Some (n + of_nat (length s))"
proof (induction s arbitrary: p n)
  case Nil
  then show ?case by (simp add: strlen_loop.simps)
next
  case (Cons b s)
  then have "strlen_loop p n m = strlen_loop (p + 1) (n + 1) m" by (subst strlen_loop.simps) simp
  also have "\<dots> = Some (n + 1 + of_nat (length s))" using Cons by simp
  finally show ?case by (simp add: add.assoc)
qed

lemma strnlen_loop_ok: "cstr m p s \<Longrightarrow> strnlen_loop p i m = i - length s"
proof (induction s arbitrary: p i)
  case Nil
  then show ?case by (cases i) simp_all
next
  case (Cons b s)
  then show ?case by (cases i) simp_all
qed

lemma strcmp_loop_ok:
  "cstr m p s \<Longrightarrow> cstr m q t \<Longrightarrow> \<exists>r. strcmp_loop p q m = Some r \<and> (r = 0 \<longleftrightarrow> s = t)"
proof (induction s arbitrary: p q t)
  case Nil
  then show ?case by (cases t) (auto simp: strcmp_loop.simps)
next
  case (Cons b s)
  show ?case
  proof (cases t)
    case Nil
    then show ?thesis using Cons.prems by (auto simp: strcmp_loop.simps [of p])
  next
    case (Cons c u)
    then show ?thesis using Cons.prems Cons.IH [of "p + 1" "q + 1" u] by (auto simp: strcmp_loop.simps [of p])
  qed
qed

lemma str_end_ok: "cstr m p s \<Longrightarrow> str_end p m = Some (p + length s)"
proof (induction s arbitrary: p)
  case Nil
  then show ?case by (simp add: str_end.simps)
next
  case (Cons b s)
  then show ?case by (simp add: str_end.simps [of p])
qed

lemma strcpy_loop_ok:
  "cstr m src s \<Longrightarrow> dst \<le> src \<or> src + length s < dst \<Longrightarrow> strcpy_loop dst src m = Some (put_bytes dst (s @ [0]) m)"
proof (induction s arbitrary: dst src m)
  case Nil
  then show ?case by (subst strcpy_loop.simps) (simp add: fun_upd_def)
next
  case (Cons b s)
  have "cstr (m(dst := b)) (src + 1) s" using Cons.prems by (subst cstr_upd) auto
  moreover have "dst + 1 \<le> src + 1 \<or> src + 1 + length s < dst + 1" using Cons.prems(2) by auto
  ultimately have "strcpy_loop (dst + 1) (src + 1) (m(dst := b)) = Some (put_bytes (dst + 1) (s @ [0]) (m(dst := b)))"
    by (rule Cons.IH)
  then show ?case using Cons.prems(1) by (simp add: strcpy_loop.simps [of dst])
qed

lemma cstr_put: "0 \<notin> set s \<Longrightarrow> cstr (put_bytes p (s @ [0]) m) p s"
  by (auto simp: cstr_def put_bytes_apply nth_append)

text \<open>
  \<open>SGDK_strcat\<close> returns and appends the second string to the first, as long as the copy does not
  run into its own source, and changes no other byte; \<open>SGDK_strlen\<close> of the result is the sum of the
  lengths.
\<close>

theorem SGDK_strcat_ok:
  assumes "cstr m p s" "cstr m q t" "p + length s \<le> q \<or> q + length t < p + length s"
  shows "\<exists>m'. SGDK_strcat p q m = Some (p, m') \<and> cstr m' p (s @ t) \<and>
    SGDK_strlen p m' = Some (of_nat (length s + length t)) \<and>
    (\<forall>a. a < p + length s \<or> p + length s + length t < a \<longrightarrow> m' a = m a)"
proof -
  define m' where "m' = put_bytes (p + length s) (t @ [0]) m"
  have "SGDK_strcat p q m = Some (p, m')"
    using str_end_ok [OF assms(1)] strcpy_loop_ok [OF assms(2,3)] by (simp add: SGDK_strcat_def m'_def)
  moreover have z: "0 \<notin> set s" "0 \<notin> set t" using assms(1,2) by (simp_all add: cstr_def)
  moreover have "m' a = m a" if "a < p + length s \<or> p + length s + length t < a" for a
    using that by (auto simp: m'_def put_bytes_apply)
  moreover have c: "cstr m' p (s @ t)"
    using assms(1) z by (auto simp: cstr_def m'_def put_bytes_apply nth_append)
  moreover have "SGDK_strlen p m' = Some (of_nat (length s + length t))"
    using strlen_loop_ok [OF c, of 0] by (simp add: SGDK_strlen_def)
  ultimately show ?thesis by blast
qed

theorem SGDK_strcat_ok_witness:
  "\<exists>m'. SGDK_strcat 0 10 (put_bytes 10 [3, 4] (put_bytes 0 [1, 2] (\<lambda>_. 0))) = Some (0, m') \<and> cstr m' 0 [1, 2, 3, 4]"
  using SGDK_strcat_ok [of "put_bytes 10 [3, 4] (put_bytes 0 [1, 2] (\<lambda>_. 0))" 0 "[1, 2]" 10 "[3, 4]"] by auto

text \<open>
  \<open>SGDK_strcmp\<close> returns and its result is zero exactly for equal strings. Its sign is not that of
  the order: the result is one byte wide, so that a string starting with 0xC8 compares as smaller
  than one starting with 0x01.
\<close>

theorem SGDK_strcmp_ok:
  assumes "cstr m p s" "cstr m q t"
  shows "(\<exists>r. SGDK_strcmp p q m = Some r \<and> (r = 0 \<longleftrightarrow> s = t)) \<and>
    map_option sint (SGDK_strcmp 0 2 (put_bytes 0 [0xC8, 0, 0x01, 0] m)) = Some (- 57)"
  using strcmp_loop_ok [OF assms] by (simp add: SGDK_strcmp_def strcmp_loop.simps)

theorem SGDK_strcmp_ok_witness:
  "\<exists>r. SGDK_strcmp 0 10 (put_bytes 10 [1, 4] (put_bytes 0 [1, 2] (\<lambda>_. 0))) = Some r \<and> r \<noteq> 0"
  using SGDK_strcmp_ok [of "put_bytes 10 [1, 4] (put_bytes 0 [1, 2] (\<lambda>_. 0))" 0 "[1, 2]" 10 "[1, 4]"] by auto

end
