(* ===== verification/Printf.thy ===== *)
theory Printf
  imports Strings
begin

text \<open>
  Formatted output, \<open>SGDK_vsprintf\<close> of \<open>src/str.c\<close>. The format, the strings among the arguments and
  the output buffer are in memory; the variable arguments are a list of 32-bit words, and to read
  one more than there are is \<open>None\<close>. The local buffer \<open>tmp_buffer\<close> that holds the digits of a number
  and the literal \<open><NULL>\<close> are lists of bytes.
\<close>

section \<open>The format\<close>

definition SGDK_isdigit :: "u8 \<Rightarrow> bool" where
  "SGDK_isdigit c \<longleftrightarrow> 0x30 \<le> c \<and> c \<le> 0x39"

text \<open>\<open>SGDK_skip_atoi\<close> returns the number and the moved pointer.\<close>

partial_function (option) skip_atoi_loop :: "nat \<Rightarrow> u16 \<Rightarrow> bmem \<Rightarrow> (u16 \<times> nat) option" where
  "skip_atoi_loop s i m =
    (if SGDK_isdigit (m s) then skip_atoi_loop (s + 1) (i * 10 + ucast (m s) - 0x30) m else Some (i, s))"

definition SGDK_skip_atoi :: "nat \<Rightarrow> bmem \<Rightarrow> (u16 \<times> nat) option" where
  "SGDK_skip_atoi s m = skip_atoi_loop s 0 m"

record fmt_flags =
  left_align :: bool
  plus_sign :: bool
  zero_pad :: bool
  space_sign :: bool
  field_width :: s16
  precision :: s16

definition no_flags :: fmt_flags where
  "no_flags = \<lparr>left_align = False, plus_sign = False, zero_pad = False, space_sign = False,
     field_width = - 1, precision = - 1\<rparr>"

partial_function (option) flags_loop :: "nat \<Rightarrow> fmt_flags \<Rightarrow> bmem \<Rightarrow> (nat \<times> fmt_flags) option" where
  "flags_loop fmt fl m =
    (let fmt = fmt + 1; c = m fmt in
     if c = 0x2D then flags_loop fmt (fl\<lparr>left_align := True\<rparr>) m
     else if c = 0x2B then flags_loop fmt (fl\<lparr>plus_sign := True\<rparr>) m
     else if c = 0x20 then flags_loop fmt (if \<not> plus_sign fl then fl\<lparr>space_sign := True\<rparr> else fl) m
     else if c = 0x30 then flags_loop fmt (fl\<lparr>zero_pad := True\<rparr>) m
     else Some (fmt, fl))"

definition va_arg :: "u32 list \<Rightarrow> (u32 \<times> u32 list) option" where
  "va_arg args = (case args of [] \<Rightarrow> None | a # as \<Rightarrow> Some (a, as))"

definition fmt_width ::
  "nat \<Rightarrow> fmt_flags \<Rightarrow> u32 list \<Rightarrow> bmem \<Rightarrow> (nat \<times> fmt_flags \<times> u32 list) option" where
  "fmt_width fmt fl args m =
    (if SGDK_isdigit (m fmt) then
       map_option (\<lambda>(w, fmt). (fmt, fl\<lparr>field_width := w\<rparr>, args)) (SGDK_skip_atoi fmt m)
     else if m fmt = 0x2A then
       map_option (\<lambda>(a, args).
           let w = ucast a :: s16;
               fl = fl\<lparr>field_width := w\<rparr>;
               fl = (if sint w < 0 then fl\<lparr>field_width := - w, left_align := True\<rparr> else fl)
           in (fmt + 1, fl, args))
         (va_arg args)
     else Some (fmt, fl, args))"

definition fmt_precision ::
  "nat \<Rightarrow> fmt_flags \<Rightarrow> u32 list \<Rightarrow> bmem \<Rightarrow> (nat \<times> fmt_flags \<times> u32 list) option" where
  "fmt_precision fmt fl args m =
    (if m fmt = 0x2E then
       map_option (\<lambda>(fmt, fl, args). (fmt, if sint (precision fl) < 0 then fl\<lparr>precision := 0\<rparr> else fl, args))
         (let fmt = fmt + 1 in
          if SGDK_isdigit (m fmt) then
            map_option (\<lambda>(p, fmt). (fmt, fl\<lparr>precision := p\<rparr>, args)) (SGDK_skip_atoi fmt m)
          else if m fmt = 0x2A then
            map_option (\<lambda>(a, args). (fmt + 1, fl\<lparr>precision := ucast a\<rparr>, args)) (va_arg args)
          else Some (fmt, fl, args))
     else Some (fmt, fl, args))"

definition fmt_qualifier :: "nat \<Rightarrow> bmem \<Rightarrow> nat" where
  "fmt_qualifier fmt m = (if m fmt = 0x68 \<or> m fmt = 0x6C \<or> m fmt = 0x4C then fmt + 1 else fmt)"

section \<open>Output\<close>

text \<open>\<open>while (--field_width > 0) *str++ = ' ';\<close>\<close>

function pad_char :: "s16 \<Rightarrow> nat \<Rightarrow> bmem \<Rightarrow> s16 \<times> nat \<times> bmem" where
  "pad_char fw str m =
    (let fw = fw - 1 in if sint fw > 0 then pad_char fw (str + 1) (m(str := 0x20)) else (fw, str, m))"
  by pat_completeness auto
termination
proof (relation "measure (\<lambda>(fw, _). nat (sint (fw - 1)))")
  fix fw f :: s16 and str m
  assume "f = fw - 1" "0 < sint f"
  moreover have "sint (f - 1) = sint f - 1"
  proof -
    have "sint f < 32768" using sint_range_size [of f] by (simp add: word_size)
    then have "sint (word_of_int (sint f - 1) :: s16) = sint f - 1" using \<open>0 < sint f\<close> by (intro sint_of_int_16) linarith+
    then show ?thesis by simp
  qed
  ultimately show "((f, str + 1, m(str := 0x20)), fw, str, m) \<in> measure (\<lambda>(fw, _). nat (sint (fw - 1)))" by simp
qed simp

declare pad_char.simps [simp del]

text \<open>\<open>while (len < field_width--) *str++ = c;\<close>\<close>

function pad_while :: "u8 \<Rightarrow> s16 \<Rightarrow> s16 \<Rightarrow> nat \<Rightarrow> bmem \<Rightarrow> s16 \<times> nat \<times> bmem" where
  "pad_while c len fw str m =
    (if sint len < sint fw then pad_while c len (fw - 1) (str + 1) (m(str := c)) else (fw - 1, str, m))"
  by pat_completeness auto
termination
proof (relation "measure (\<lambda>(_, len, fw, _). nat (sint fw - sint len))")
  fix c :: u8 and len fw :: s16 and str m
  assume "sint len < sint fw"
  moreover have "- 32768 \<le> sint len" "sint fw < 32768"
    using sint_range_size [of len] sint_range_size [of fw] by (simp_all add: word_size)
  ultimately have "sint (word_of_int (sint fw - 1) :: s16) = sint fw - 1" by (intro sint_of_int_16) linarith+
  then have "sint (fw - 1) = sint fw - 1" by simp
  then show "((c, len, fw - 1, str + 1, m(str := c)), c, len, fw, str, m) \<in> measure (\<lambda>(_, len, fw, _). nat (sint fw - sint len))"
    using \<open>sint len < sint fw\<close> by simp
qed simp

declare pad_while.simps [simp del]

text \<open>\<open>for (i = 0; i < len; ++i) *str++ = *s++;\<close> from memory\<close>

fun copy_str :: "nat \<Rightarrow> nat \<Rightarrow> nat \<Rightarrow> bmem \<Rightarrow> bmem" where
  "copy_str 0 str s m = m"
| "copy_str (Suc n) str s m = copy_str n (str + 1) (s + 1) (m(str := m s))"

definition null_str :: "u8 list" where
  "null_str = map of_char ''<NULL>''"

text \<open>\<open>strnlen(s, precision)\<close> of a local string of known length, as \<open>s16\<close>\<close>

definition local_len :: "u8 list \<Rightarrow> s16 \<Rightarrow> s16" where
  "local_len bs prec = of_nat (min (length bs) (unat prec))"

text \<open>The case of \<open>%s\<close> once the argument \<open>s\<close> is known.\<close>

definition conv_s :: "fmt_flags \<Rightarrow> nat \<Rightarrow> nat \<Rightarrow> bmem \<Rightarrow> nat \<times> bmem" where
  "conv_s fl s str m =
    (let len = (if s = 0 then local_len null_str (precision fl) else SGDK_strnlen s (precision fl) m);
         (fw, str, m) = (if \<not> left_align fl then pad_while 0x20 len (field_width fl) str m else (field_width fl, str, m));
         n = nat (sint len);
         m = (if s = 0 then put_bytes str (take n null_str) m else copy_str n str s m);
         str = str + n;
         (fw, str, m) = pad_while 0x20 len fw str m
     in (str, m))"

definition conv_c :: "fmt_flags \<Rightarrow> u32 \<Rightarrow> nat \<Rightarrow> bmem \<Rightarrow> nat \<times> bmem" where
  "conv_c fl a str m =
    (let (fw, str, m) = (if \<not> left_align fl then pad_char (field_width fl) str m else (field_width fl, str, m));
         m = m(str := ucast a);
         (fw, str, m) = pad_char fw (str + 1) m
     in (str, m))"

section \<open>Digits\<close>

definition uppercase_hexchars :: "u8 list" where
  "uppercase_hexchars = map of_char ''0123456789ABCDEF''"

definition lowercase_hexchars :: "u8 list" where
  "lowercase_hexchars = map of_char ''0123456789abcdef''"

function hex_conv :: "u8 list \<Rightarrow> u32 \<Rightarrow> u8 list \<Rightarrow> u8 list" where
  "hex_conv hexchars num s =
    (if num \<noteq> 0 then hex_conv hexchars (drop_bit 4 num) (hexchars ! unat (num AND 0xF) # s) else s)"
  by pat_completeness auto
termination
proof (relation "measure (\<lambda>(_, num, _). unat num)")
  fix h s and num :: u32 assume "num \<noteq> 0"
  then have "0 < unat num" by (simp add: unat_gt_0)
  then have "unat num div 16 < unat num" by simp
  moreover have "unat (drop_bit 4 num) = unat num div 16" by (simp only: unat_drop_bit_eq) (simp add: drop_bit_eq_div)
  ultimately show "((h, drop_bit 4 num, h ! unat (num AND 0xF) # s), h, num, s) \<in> measure (\<lambda>(_, num, _). unat num)" by simp
qed simp

function dec_conv :: "u32 \<Rightarrow> u8 list \<Rightarrow> u8 list" where
  "dec_conv num s = (if num \<noteq> 0 then dec_conv (num div 10) ((ucast (num mod 10) + 0x30) # s) else s)"
  by pat_completeness auto
termination
proof (relation "measure (\<lambda>(num, _). unat num)")
  fix s and num :: u32 assume "num \<noteq> 0"
  then have "0 < unat num" by (simp add: unat_gt_0)
  then show "((num div 10, (ucast (num mod 10) + 0x30) # s), num, s) \<in> measure (\<lambda>(num, _). unat num)"
    by (simp add: unat_div_distrib)
qed simp

text \<open>
  The two loops of \<open>%d\<close>. The remainder of a negative number is negative; the quotient is rounded
  towards zero.
\<close>

function int_conv :: "s32 \<Rightarrow> u8 list \<Rightarrow> u8 list" where
  "int_conv i s =
    (if i \<noteq> 0 then
       int_conv (word_of_int (sint i sdiv 10))
         ((if sint i < 0 then 0x30 - word_of_int (sint i smod 10) else word_of_int (sint i smod 10) + 0x30) # s)
     else s)"
  by pat_completeness auto
termination
proof (relation "measure (\<lambda>(i, _). nat \<bar>sint i\<bar>)")
  fix s and i :: s32 assume "i \<noteq> 0"
  then have nz: "sint i \<noteq> 0" by (metis sint_0 signed_word_eqI)
  have b: "- 2147483648 \<le> sint i" "sint i < 2147483648" using sint_range_size [of i] by (simp_all add: word_size)
  have q: "\<bar>sint i sdiv 10\<bar> < \<bar>sint i\<bar>" using nz by (auto simp: signed_divide_int_def sgn_if abs_if)
  then have "sint (word_of_int (sint i sdiv 10) :: s32) = sint i sdiv 10" using b by (intro sint_of_int_32) linarith+
  then show "((word_of_int (sint i sdiv 10), x # s), i, s) \<in> measure (\<lambda>(i, _). nat \<bar>sint i\<bar>)" for x using q by simp
qed simp

declare hex_conv.simps [simp del] dec_conv.simps [simp del] int_conv.simps [simp del]

section \<open>Conversions\<close>

text \<open>The end of a conversion of a number: \<open>s\<close> are its digits, \<open>neg\<close> tells that a minus sign is due.\<close>

definition conv_end :: "fmt_flags \<Rightarrow> bool \<Rightarrow> u8 list \<Rightarrow> nat \<Rightarrow> bmem \<Rightarrow> nat \<times> bmem" where
  "conv_end fl neg s str m =
    (let len = local_len s (precision fl);
         fw = field_width fl;
         (fw, str, m) =
           (if neg then (fw - 1, str + 1, m(str := 0x2D))
            else if plus_sign fl then (fw - 1, str + 1, m(str := 0x2B))
            else if space_sign fl then (fw - 1, str + 1, m(str := 0x20))
            else (fw, str, m));
         (fw, str, m) =
           (if \<not> left_align fl then pad_while (if zero_pad fl then 0x30 else 0x20) len fw str m else (fw, str, m));
         n = nat (sint len);
         m = put_bytes str (take n s) m;
         str = str + n;
         (fw, str, m) = pad_while 0x20 len fw str m
     in (str, m))"

definition or_zero :: "u8 list \<Rightarrow> u8 list" where
  "or_zero s = (if s = [] then [0x30] else s)"

text \<open>The \<open>switch\<close> on the conversion character \<open>c\<close>; \<open>buf\<close> is the start of the output.\<close>

definition convert ::
  "u8 \<Rightarrow> fmt_flags \<Rightarrow> nat \<Rightarrow> nat \<Rightarrow> u32 list \<Rightarrow> bmem \<Rightarrow> (nat \<times> u32 list \<times> bmem) option" where
  "convert c fl buf str args m =
    (if c = 0x63 then
       map_option (\<lambda>(a, args). case conv_c fl a str m of (str, m) \<Rightarrow> (str, args, m)) (va_arg args)
     else if c = 0x73 then
       map_option (\<lambda>(a, args). case conv_s fl (unat a) str m of (str, m) \<Rightarrow> (str, args, m)) (va_arg args)
     else if c = 0x70 \<or> c = 0x78 \<or> c = 0x58 then
       map_option (\<lambda>(a, args).
           let fl = (if c = 0x70 \<and> field_width fl = - 1 then fl\<lparr>field_width := 8, zero_pad := True\<rparr> else fl);
               hexchars = (if c = 0x78 then lowercase_hexchars else uppercase_hexchars);
               s = or_zero (hex_conv hexchars a [])
           in case conv_end (fl\<lparr>plus_sign := False\<rparr>) False s str m of (str, m) \<Rightarrow> (str, args, m))
         (va_arg args)
     else if c = 0x6E then
       map_option (\<lambda>(a, args).
           let v = of_int (int str - int buf) :: u32;
               m = put_bytes (unat a) [ucast (drop_bit 24 v), ucast (drop_bit 16 v), ucast (drop_bit 8 v), ucast v] m
           in (str, args, m))
         (va_arg args)
     else if c = 0x75 then
       map_option (\<lambda>(a, args).
           case conv_end (fl\<lparr>plus_sign := False\<rparr>) False (or_zero (dec_conv a [])) str m of (str, m) \<Rightarrow> (str, args, m))
         (va_arg args)
     else if c = 0x64 \<or> c = 0x69 then
       map_option (\<lambda>(a, args).
           case conv_end fl (sint a < 0) (or_zero (int_conv a [])) str m of (str, m) \<Rightarrow> (str, args, m))
         (va_arg args)
     else Some (str, args, m))"

text \<open>One directive of the format: \<open>fmt\<close> points to the percent sign and is left on its last character.\<close>

definition directive ::
  "nat \<Rightarrow> nat \<Rightarrow> nat \<Rightarrow> u32 list \<Rightarrow> bmem \<Rightarrow> (nat \<times> nat \<times> u32 list \<times> bmem) option" where
  "directive buf fmt str args m =
    Option.bind (flags_loop fmt no_flags m) (\<lambda>(fmt, fl).
    Option.bind (fmt_width fmt fl args m) (\<lambda>(fmt, fl, args).
    Option.bind (fmt_precision fmt fl args m) (\<lambda>(fmt, fl, args).
      let fmt = fmt_qualifier fmt m;
          fl = (if left_align fl then fl\<lparr>zero_pad := False\<rparr> else fl)
      in map_option (\<lambda>(str, args, m). (fmt, str, args, m)) (convert (m fmt) fl buf str args m))))"

partial_function (option) vsprintf_loop ::
  "nat \<Rightarrow> nat \<Rightarrow> nat \<Rightarrow> u32 list \<Rightarrow> bmem \<Rightarrow> (nat \<times> bmem) option" where
  "vsprintf_loop buf fmt str args m =
    (if m fmt = 0 then Some (str, m)
     else if m fmt \<noteq> 0x25 then vsprintf_loop buf (fmt + 1) (str + 1) args (m(str := m fmt))
     else
       (case directive buf fmt str args m of
          None \<Rightarrow> None
        | Some (fmt, str, args, m) \<Rightarrow> vsprintf_loop buf (fmt + 1) str args m))"

definition SGDK_vsprintf :: "nat \<Rightarrow> nat \<Rightarrow> u32 list \<Rightarrow> bmem \<Rightarrow> (s32 \<times> bmem) option" where
  "SGDK_vsprintf buf fmt args m =
    map_option (\<lambda>(str, m). (of_int (int str - int buf), m(str := 0))) (vsprintf_loop buf fmt buf args m)"

definition SGDK_sprintf :: "nat \<Rightarrow> nat \<Rightarrow> u32 list \<Rightarrow> bmem \<Rightarrow> (s32 \<times> bmem) option" where
  "SGDK_sprintf buffer fmt args m = SGDK_vsprintf buffer fmt args m"

section \<open>Decimal numbers in a text\<close>

definition int_digits :: "int \<Rightarrow> u8 list" where
  "int_digits v = (if v < 0 then [0x2D] else []) @ dec (nat \<bar>v\<bar>)"

lemma int_conv_dec: "int_conv i s = (if i = 0 then s else dec (nat \<bar>sint i\<bar>) @ s)"
proof (induction i s rule: int_conv.induct)
  case (1 i s)
  show ?case
  proof (cases "i = 0")
    case True
    then show ?thesis by (simp add: int_conv.simps [of 0 s])
  next
    case False
    define a where "a = nat \<bar>sint i\<bar>"
    have nz: "sint i \<noteq> 0" using False by (metis sint_0 signed_word_eqI)
    have b: "- 2147483648 \<le> sint i" "sint i < 2147483648" using sint_range_size [of i] by (simp_all add: word_size)
    define q where "q = (word_of_int (sint i sdiv 10) :: s32)"
    define c where "c = (if sint i < 0 then 0x30 - word_of_int (sint i smod 10) else word_of_int (sint i smod 10) + 0x30 :: u8)"
    have qd: "\<bar>sint i sdiv 10\<bar> = int (a div 10)" "sint i smod 10 = (if sint i < 0 then - int (a mod 10) else int (a mod 10))"
    proof -
      have s: "sint i = (if sint i < 0 then - int a else int a)" by (simp add: a_def)
      have d: "int a sdiv 10 = int (a div 10)" "(- int a) sdiv 10 = - int (a div 10)"
        by (simp_all add: signed_divide_int_def zdiv_int sgn_if)
      show "\<bar>sint i sdiv 10\<bar> = int (a div 10)" by (subst s) (simp add: d)
      have "int a smod 10 = int (a mod 10)" "(- int a) smod 10 = - int (a mod 10)"
        by (simp_all add: signed_modulo_int_def zmod_int sgn_if)
      then show "sint i smod 10 = (if sint i < 0 then - int (a mod 10) else int (a mod 10))" by (subst s) simp
    qed
    have q: "sint q = sint i sdiv 10" unfolding q_def using qd(1) b a_def by (intro sint_of_int_32) linarith+
    have c: "c = of_nat (48 + a mod 10)" unfolding c_def qd(2) by simp
    have e: "int_conv i s = int_conv q (c # s)" using False unfolding q_def c_def by (subst int_conv.simps) simp
    have ih: "int_conv q (c # s) = (if q = 0 then c # s else dec (nat \<bar>sint q\<bar>) @ c # s)"
      using 1 [OF False] unfolding q_def c_def .
    have aq: "nat \<bar>sint q\<bar> = a div 10" unfolding q qd(1) by simp
    have q0: "q = 0 \<longleftrightarrow> a < 10"
    proof -
      have "q = 0 \<longleftrightarrow> sint q = 0" by (metis sint_0 signed_word_eqI)
      also have "\<dots> \<longleftrightarrow> a div 10 = 0" using aq by linarith
      finally show ?thesis by (simp add: div_eq_0_iff)
    qed
    have "dec a = (if a < 10 then [c] else dec (a div 10) @ [c])" unfolding c by (subst dec.simps) simp
    then show ?thesis using e ih False unfolding aq q0 a_def [symmetric] by simp
  qed
qed

lemma pad_while_none: "sint fw \<le> sint len \<Longrightarrow> pad_while c len fw str m = (fw - 1, str, m)"
  by (simp add: pad_while.simps)

lemma conv_end_plain:
  assumes "length s < 32768" "s \<noteq> []" "precision fl = - 1" "field_width fl = - 1" "\<not> plus_sign fl" "\<not> space_sign fl"
  shows "conv_end fl neg s str m = (str + length ((if neg then [0x2D] else []) @ s), put_bytes str ((if neg then [0x2D] else []) @ s) m)"
proof -
  have l: "local_len s (- 1) = of_nat (length s)"
    using assms(1) by (simp add: local_len_def unsigned_minus_1_eq_mask mask_eq_exp_minus_1)
  have n: "sint (of_nat (length s) :: s16) = int (length s)" using assms(1) by (rule sint_of_nat_16)
  have w: "sint (- 1 :: s16) = - 1" "sint (- 1 - 1 :: s16) = - 2" "sint (- 1 - 1 - 1 :: s16) = - 3" by simp_all
  have p: "pad_while c (of_nat (length s)) fw st mm = (fw - 1, st, mm)" if "fw \<in> {- 1, - 1 - 1, - 1 - 1 - 1}" for c fw st mm
    using that w n by (intro pad_while_none) auto
  show ?thesis
    unfolding conv_end_def Let_def assms(3,4) l n
    using assms(5,6) by (cases neg; cases "left_align fl") (simp_all add: p)
qed

lemma length_int_digits: "length (dec (nat \<bar>sint (v :: s32)\<bar>)) < 32768"
proof -
  have "- 2147483648 \<le> sint v" "sint v < 2147483648" using sint_range_size [of v] by (simp_all add: word_size)
  then have "nat \<bar>sint v\<bar> < 10 ^ Suc 9" by simp
  then show ?thesis using length_dec_le by fastforce
qed

lemma directive_d:
  assumes "m f = 0x25" "m (f + 1) = 0x64"
  shows "directive buf f str (v # args) m =
    Some (f + 1, str + length (int_digits (sint v)), args, put_bytes str (int_digits (sint v)) m)"
proof -
  have fl: "flags_loop f no_flags m = Some (f + 1, no_flags)"
    using assms by (subst flags_loop.simps) (simp add: Let_def)
  have nd: "\<not> SGDK_isdigit (0x64)" by (simp add: SGDK_isdigit_def)
  have s: "or_zero (int_conv v []) = dec (nat \<bar>sint v\<bar>)"
  proof (cases "v = 0")
    case True
    then show ?thesis by (simp add: or_zero_def int_conv_dec dec.simps)
  next
    case False
    then show ?thesis using dec_nonempty [of "nat \<bar>sint v\<bar>"] by (simp add: or_zero_def int_conv_dec)
  qed
  have "conv_end no_flags (sint v < 0) (dec (nat \<bar>sint v\<bar>)) str m =
      (str + length (int_digits (sint v)), put_bytes str (int_digits (sint v)) m)"
    using conv_end_plain [OF length_int_digits, of v no_flags] dec_nonempty [of "nat \<bar>sint v\<bar>"]
    by (simp add: no_flags_def int_digits_def)
  then show ?thesis
    unfolding directive_def fl using assms nd
    by (simp add: fmt_width_def fmt_precision_def fmt_qualifier_def Let_def convert_def va_arg_def s no_flags_def)
qed

lemma vsprintf_text:
  assumes "\<forall>i < length t. m (f + i) = t ! i" "0 \<notin> set t" "0x25 \<notin> set t" "str + length t \<le> f \<or> f + length t \<le> str"
  shows "vsprintf_loop buf f str args m = vsprintf_loop buf (f + length t) (str + length t) args (put_bytes str t m)"
  using assms
proof (induction t arbitrary: f str m)
  case (Cons b t)
  have b: "m f = b" "b \<noteq> 0" "b \<noteq> 0x25" using Cons.prems by force+
  have "vsprintf_loop buf f str args m = vsprintf_loop buf (f + 1) (str + 1) args (m(str := b))"
    using b by (subst vsprintf_loop.simps) simp
  also have "\<dots> = vsprintf_loop buf (f + 1 + length t) (str + 1 + length t) args (put_bytes (str + 1) t (m(str := b)))"
  proof (rule Cons.IH)
    show "\<forall>i < length t. (m(str := b)) (f + 1 + i) = t ! i" using Cons.prems(1,4) by fastforce
  qed (use Cons.prems in auto)
  finally show ?case by simp
qed simp

lemma put_bytes_other: "a < p \<or> p + length bs \<le> a \<Longrightarrow> put_bytes p bs m a = m a"
  by (auto simp: put_bytes_apply)

lemma sprintf_d:
  assumes fmt: "cstr m f (pre @ [0x25, 0x64] @ post)" and pc: "0x25 \<notin> set pre" "0x25 \<notin> set post"
    and out: "out = pre @ int_digits (sint v) @ post"
    and apart: "buf + length out < f \<or> f + length pre + 2 + length post < buf"
  shows "SGDK_sprintf buf f [v] m = Some (of_nat (length out), put_bytes buf (out @ [0]) m)"
proof -
  let ?ds = "int_digits (sint v)"
  let ?F = "pre @ [0x25, 0x64] @ post"
  have mem: "m (f + i) = ?F ! i" if "i < length ?F" for i using fmt that unfolding cstr_def by blast
  have z: "m (f + length ?F) = 0" "0 \<notin> set pre" "0 \<notin> set post" using fmt by (auto simp: cstr_def)
  have lo: "length out = length pre + length ?ds + length post" by (simp add: out)
  define m1 where "m1 = put_bytes buf pre m"
  define m2 where "m2 = put_bytes (buf + length pre) ?ds m1"
  have same: "m1 a = m a" "m2 a = m a" if "f \<le> a" "a \<le> f + length ?F" for a
    using that apart lo by (auto simp: m1_def m2_def put_bytes_other)
  have 1: "vsprintf_loop buf f buf [v] m = vsprintf_loop buf (f + length pre) (buf + length pre) [v] m1"
    unfolding m1_def
  proof (rule vsprintf_text)
    show "\<forall>i < length pre. m (f + i) = pre ! i" using mem by (simp add: nth_append)
    show "buf + length pre \<le> f \<or> f + length pre \<le> buf" using apart lo by auto
  qed (use z pc in auto)
  have pct: "m1 (f + length pre) = 0x25" "m1 (f + length pre + 1) = 0x64"
    using mem [of "length pre"] mem [of "length pre + 1"] by (simp_all add: same nth_append)
  have 2: "vsprintf_loop buf (f + length pre) (buf + length pre) [v] m1 =
      vsprintf_loop buf (f + length pre + 2) (buf + length pre + length ?ds) [] m2"
    using pct directive_d [OF pct, of buf "buf + length pre" v "[]"] unfolding m2_def by (subst vsprintf_loop.simps) simp
  have 3: "vsprintf_loop buf (f + length pre + 2) (buf + length pre + length ?ds) [] m2 =
      vsprintf_loop buf (f + length pre + 2 + length post) (buf + length pre + length ?ds + length post) []
        (put_bytes (buf + length pre + length ?ds) post m2)"
  proof (rule vsprintf_text)
    show "\<forall>i < length post. m2 (f + length pre + 2 + i) = post ! i"
    proof (intro allI impI)
      fix i assume "i < length post"
      then show "m2 (f + length pre + 2 + i) = post ! i" using mem [of "length pre + 2 + i"] by (simp add: same nth_append add.assoc)
    qed
    show "buf + length pre + length ?ds + length post \<le> f + length pre + 2 \<or>
        f + length pre + 2 + length post \<le> buf + length pre + length ?ds" using apart lo by auto
  qed (use z pc in auto)
  define m3 where "m3 = put_bytes (buf + length pre + length ?ds) post m2"
  have m3: "m3 = put_bytes buf out m"
    unfolding m3_def m2_def m1_def by (auto simp: out fun_eq_iff put_bytes_apply nth_append)
  have "m3 (f + length ?F) = 0" unfolding m3 using z(1) apart lo by (subst put_bytes_other) auto
  then have 4: "vsprintf_loop buf (f + length pre + 2 + length post) (buf + length out) [] m3 = Some (buf + length out, m3)"
    by (subst vsprintf_loop.simps) (simp add: add.assoc)
  have "vsprintf_loop buf f buf [v] m = Some (buf + length out, m3)"
    unfolding 1 2 3 m3_def [symmetric] using 4 lo by (simp add: add.assoc)
  then show ?thesis unfolding SGDK_sprintf_def SGDK_vsprintf_def by (simp add: m3 put_bytes_end)
qed

text \<open>
  C25 \<open>SGDK_sprintf\<close> of a text with one \<open>%d\<close> in it returns, writes the text with the decimal digits
  of the argument and, for a negative one, a minus sign in place of the directive, ends it with a
  zero byte, changes nothing else and returns its length.
\<close>

theorem SGDK_sprintf_d:
  assumes "cstr m f (pre @ [0x25, 0x64] @ post)" "0x25 \<notin> set pre" "0x25 \<notin> set post"
    and "buf + length (pre @ int_digits (sint v) @ post) < f \<or> f + length pre + 2 + length post < buf"
  shows "SGDK_sprintf buf f [v] m =
    Some (of_nat (length (pre @ int_digits (sint v) @ post)), put_bytes buf ((pre @ int_digits (sint v) @ post) @ [0]) m)"
  using sprintf_d [OF assms(1-3) refl assms(4)] .

theorem SGDK_sprintf_d_witness:
  "SGDK_sprintf 100 0 [- 42] (put_bytes 0 [0x78, 0x3D, 0x25, 0x64, 0] (\<lambda>_. 0)) =
    Some (5, put_bytes 100 [0x78, 0x3D, 0x2D, 0x34, 0x32, 0] (put_bytes 0 [0x78, 0x3D, 0x25, 0x64, 0] (\<lambda>_. 0)))"
  using SGDK_sprintf_d [of "put_bytes 0 [0x78, 0x3D, 0x25, 0x64, 0] (\<lambda>_. 0)" 0 "[0x78, 0x3D]" "[]" 100 "- 42"]
  by (simp add: int_digits_def dec.simps)

lemma digits_cases:
  "or_zero (int_conv (- 42) []) = [0x34, 0x32]" "or_zero (int_conv 12345 []) = [0x31, 0x32, 0x33, 0x34, 0x35]"
proof -
  have "dec 42 = [0x34, 0x32]" "dec 12345 = [0x31, 0x32, 0x33, 0x34, 0x35]" by (simp_all add: dec.simps)
  then show "or_zero (int_conv (- 42) []) = [0x34, 0x32]" "or_zero (int_conv 12345 []) = [0x31, 0x32, 0x33, 0x34, 0x35]"
    by (simp_all add: or_zero_def int_conv_dec)
qed

lemma skip_one_digit:
  assumes "SGDK_isdigit (m s)" "\<not> SGDK_isdigit (m (s + 1))"
  shows "SGDK_skip_atoi s m = Some (ucast (m s) - 0x30, s + 1)"
proof -
  have "skip_atoi_loop (s + 1) i m = Some (i, s + 1)" for i using assms(2) by (subst skip_atoi_loop.simps) simp
  then show ?thesis using assms(1) unfolding SGDK_skip_atoi_def by (subst skip_atoi_loop.simps) simp
qed

lemma sprintf_width_5:
  defines "m \<equiv> put_bytes 0 [0x25, 0x35, 0x64, 0] (\<lambda>_. 0xFF)"
  shows "SGDK_sprintf 100 0 [- 42] m = Some (5, put_bytes 100 [0x2D, 0x20, 0x20, 0x34, 0x32, 0] m)"
proof -
  have mem: "m 0 = 0x25" "m 1 = 0x35" "m 2 = 0x64" "m 3 = 0" by (simp_all add: m_def)
  have fl: "flags_loop 0 no_flags m = Some (1, no_flags)" using mem by (subst flags_loop.simps) (simp add: Let_def)
  have two: "(1 :: nat) + 1 = 2" by simp
  have dg: "SGDK_isdigit (m 1)" "\<not> SGDK_isdigit (m (1 + 1))" unfolding two mem by (simp_all add: SGDK_isdigit_def)
  have at: "SGDK_skip_atoi 1 m = Some (5, 2)"
    using skip_one_digit [OF dg] unfolding two mem by simp
  let ?fl = "no_flags\<lparr>field_width := 5\<rparr>"
  have p1: "pad_while 0x20 2 4 101 mm = (1, 103, mm(101 := 0x20, 102 := 0x20))" for mm
    by (subst pad_while.simps, simp, subst pad_while.simps, simp, subst pad_while.simps, simp)
  have p2: "pad_while 0x20 2 1 105 mm = (0, 105, mm)" for mm by (subst pad_while.simps) simp
  have ce: "conv_end ?fl True [0x34, 0x32] 100 m = (105, put_bytes 100 [0x2D, 0x20, 0x20, 0x34, 0x32] m)"
    by (simp add: conv_end_def Let_def local_len_def unsigned_minus_1_eq_mask mask_eq_exp_minus_1 no_flags_def p1 p2)
  have "fmt_width 1 no_flags [- 42] m = Some (2, ?fl, [- 42])" using at dg(1) by (simp add: fmt_width_def)
  then have "directive 100 0 100 [- 42] m = Some (2, 105, [], put_bytes 100 [0x2D, 0x20, 0x20, 0x34, 0x32] m)"
    unfolding directive_def fl using mem ce
    by (simp add: fmt_precision_def fmt_qualifier_def Let_def convert_def va_arg_def digits_cases no_flags_def)
  then have "vsprintf_loop 100 0 100 [- 42] m = vsprintf_loop 100 3 105 [] (put_bytes 100 [0x2D, 0x20, 0x20, 0x34, 0x32] m)"
    using mem by (subst vsprintf_loop.simps) simp
  also have "\<dots> = Some (105, put_bytes 100 [0x2D, 0x20, 0x20, 0x34, 0x32] m)"
    using mem by (subst vsprintf_loop.simps) simp
  finally show ?thesis by (simp add: SGDK_sprintf_def SGDK_vsprintf_def)
qed

lemma sprintf_precision_2:
  defines "m \<equiv> put_bytes 0 [0x25, 0x2E, 0x32, 0x64, 0] (\<lambda>_. 0xFF)"
  shows "SGDK_sprintf 100 0 [12345] m = Some (2, put_bytes 100 [0x31, 0x32, 0] m)"
proof -
  have mem: "m 0 = 0x25" "m 1 = 0x2E" "m 2 = 0x32" "m 3 = 0x64" "m 4 = 0" by (simp_all add: m_def)
  have fl: "flags_loop 0 no_flags m = Some (1, no_flags)" using mem by (subst flags_loop.simps) (simp add: Let_def)
  have num: "(1 :: nat) + 1 = 2" "(2 :: nat) + 1 = 3" by simp_all
  have dg: "SGDK_isdigit (m 2)" "\<not> SGDK_isdigit (m (2 + 1))" unfolding num mem by (simp_all add: SGDK_isdigit_def)
  have at: "SGDK_skip_atoi 2 m = Some (2, 3)"
    using skip_one_digit [OF dg] unfolding num mem by simp
  let ?fl = "no_flags\<lparr>precision := 2\<rparr>"
  have p: "pad_while 0x20 2 (- 1) 100 mm = (- 2, 100, mm)" "pad_while 0x20 2 (- 2) 102 mm = (- 3, 102, mm)" for mm
    by (subst pad_while.simps, simp)+
  have ce: "conv_end ?fl False [0x31, 0x32, 0x33, 0x34, 0x35] 100 m = (102, put_bytes 100 [0x31, 0x32] m)"
    by (simp add: conv_end_def Let_def local_len_def no_flags_def p)
  have w: "fmt_width 1 no_flags [12345] m = Some (1, no_flags, [12345])" using mem by (simp add: fmt_width_def SGDK_isdigit_def)
  have "fmt_precision 1 no_flags [12345] m = Some (3, ?fl, [12345])"
    using at dg(1) mem unfolding fmt_precision_def num Let_def by simp
  then have "directive 100 0 100 [12345] m = Some (3, 102, [], put_bytes 100 [0x31, 0x32] m)"
    unfolding directive_def fl using w mem ce
    by (simp add: fmt_qualifier_def Let_def convert_def va_arg_def digits_cases no_flags_def)
  then have "vsprintf_loop 100 0 100 [12345] m = vsprintf_loop 100 4 102 [] (put_bytes 100 [0x31, 0x32] m)"
    using mem by (subst vsprintf_loop.simps) simp
  also have "\<dots> = Some (102, put_bytes 100 [0x31, 0x32] m)"
    using mem by (subst vsprintf_loop.simps) simp
  finally show ?thesis by (simp add: SGDK_sprintf_def SGDK_vsprintf_def)
qed

text \<open>
  Where the output differs from the one of the C library: with a width the sign comes before the
  spaces (\<open>%5d\<close> of -42 is \<open>-  42\<close>), and a precision cuts digits off instead of being a least number of
  digits (\<open>%.2d\<close> of 12345 is \<open>12\<close>).
\<close>

theorem SGDK_sprintf_width:
  "(let m = put_bytes 0 [0x25, 0x35, 0x64, 0] (\<lambda>_. 0xFF)
    in SGDK_sprintf 100 0 [- 42] m = Some (5, put_bytes 100 [0x2D, 0x20, 0x20, 0x34, 0x32, 0] m)) \<and>
   (let m = put_bytes 0 [0x25, 0x2E, 0x32, 0x64, 0] (\<lambda>_. 0xFF)
    in SGDK_sprintf 100 0 [12345] m = Some (2, put_bytes 100 [0x31, 0x32, 0] m))"
  unfolding Let_def using sprintf_width_5 sprintf_precision_2 by (rule conjI)

end
