(* ===== verification/Tools.thy ===== *)
theory Tools
  imports Prelude "HOL-Library.Multiset"
begin

text \<open>
  The random number generator and the sorting routines of \<open>src/tools.c\<close>. The macro \<open>QSORT(type)\<close>
  defines the same two functions for six integer types, which differ in the comparison only: the
  model takes the comparison \<open>lt\<close> as an argument, and the six routines are its instances with the
  unsigned and the signed order of words. An array is a function from indices to elements, and the
  indices are 16-bit words, as in the code.
\<close>

section \<open>Random numbers\<close>

record rand_st =
  randbase :: u16
  randomSeedSet :: bool

definition rand0 :: rand_st where
  "rand0 = \<lparr>randbase = 0xC427, randomSeedSet = False\<rparr>"

definition setRandomSeed :: "u16 \<Rightarrow> rand_st \<Rightarrow> rand_st" where
  "setRandomSeed seed s = s\<lparr>randbase := seed XOR 0xD94B, randomSeedSet := True\<rparr>"

definition U16_rand :: "rand_st \<Rightarrow> u16 \<times> rand_st" where
  "U16_rand s =
    (let s = s\<lparr>randbase := randbase s XOR drop_bit 5 (randbase s)\<rparr>;
         s = s\<lparr>randbase := randbase s XOR push_bit 9 (randbase s)\<rparr>;
         s = s\<lparr>randbase := randbase s XOR drop_bit 7 (randbase s)\<rparr>
     in (randbase s, s))"

section \<open>Quick sort\<close>

text \<open>\<open>while ((i < r) && (data[i] < x)) i++;\<close>\<close>

function scan_up :: "('a \<Rightarrow> 'a \<Rightarrow> bool) \<Rightarrow> (nat \<Rightarrow> 'a) \<Rightarrow> 'a \<Rightarrow> u16 \<Rightarrow> u16 \<Rightarrow> u16" where
  "scan_up lt data x r i = (if i < r \<and> lt (data (unat i)) x then scan_up lt data x r (i + 1) else i)"
  by pat_completeness auto
termination
proof (relation "measure (\<lambda>(_, _, _, r, i). unat r - unat i)")
  fix lt :: "'a \<Rightarrow> 'a \<Rightarrow> bool" and data x and r i :: u16
  assume "i < r \<and> lt (data (unat i)) x"
  then have "unat i < unat r" by (simp add: word_less_nat_alt)
  moreover then have "unat (i + 1) = unat i + 1" using unat_u16_lt [of r] by (subst unat_plus_small) simp_all
  ultimately show "((lt, data, x, r, i + 1), lt, data, x, r, i) \<in> measure (\<lambda>(_, _, _, r, i). unat r - unat i)" by simp
qed simp

text \<open>\<open>while ((j > p) && (data[j] > x)) j--;\<close>\<close>

function scan_down :: "('a \<Rightarrow> 'a \<Rightarrow> bool) \<Rightarrow> (nat \<Rightarrow> 'a) \<Rightarrow> 'a \<Rightarrow> u16 \<Rightarrow> u16 \<Rightarrow> u16" where
  "scan_down lt data x p j = (if p < j \<and> lt x (data (unat j)) then scan_down lt data x p (j - 1) else j)"
  by pat_completeness auto
termination
proof (relation "measure (\<lambda>(_, _, _, _, j). unat j)")
  fix lt :: "'a \<Rightarrow> 'a \<Rightarrow> bool" and data x and p j :: u16
  assume "p < j \<and> lt x (data (unat j))"
  then have "0 < unat j" by (auto simp: word_less_nat_alt)
  then have "unat (j - 1) < unat j" by (subst unat_minus_le) (simp_all add: word_le_nat_alt)
  then show "((lt, data, x, p, j - 1), lt, data, x, p, j) \<in> measure (\<lambda>(_, _, _, _, j). unat j)" by simp
qed simp

declare scan_up.simps [simp del] scan_down.simps [simp del]

partial_function (option) partition_loop ::
  "('a \<Rightarrow> 'a \<Rightarrow> bool) \<Rightarrow> 'a \<Rightarrow> u16 \<Rightarrow> u16 \<Rightarrow> u16 \<Rightarrow> u16 \<Rightarrow> (nat \<Rightarrow> 'a) \<Rightarrow> (u16 \<times> (nat \<Rightarrow> 'a)) option" where
  "partition_loop lt x p r i j data =
    (let i = scan_up lt data x r (i + 1);
         j = scan_down lt data x p (j - 1)
     in if i < j then
          partition_loop lt x p r i j (data(unat i := data (unat j), unat j := data (unat i)))
        else Some (j, data))"

definition partition_type ::
  "('a \<Rightarrow> 'a \<Rightarrow> bool) \<Rightarrow> (nat \<Rightarrow> 'a) \<Rightarrow> u16 \<Rightarrow> u16 \<Rightarrow> (u16 \<times> (nat \<Rightarrow> 'a)) option" where
  "partition_type lt data p r = partition_loop lt (data (unat p)) p r (p - 1) (r + 1) data"

partial_function (option) qsort_type ::
  "('a \<Rightarrow> 'a \<Rightarrow> bool) \<Rightarrow> (nat \<Rightarrow> 'a) \<Rightarrow> u16 \<Rightarrow> u16 \<Rightarrow> (nat \<Rightarrow> 'a) option" where
  "qsort_type lt data p r =
    (if p < r then
       Option.bind (partition_type lt data p r) (\<lambda>(q, data).
       Option.bind (qsort_type lt data p q) (\<lambda>data.
         qsort_type lt data (q + 1) r))
     else Some data)"

definition qsort_u8 :: "(nat \<Rightarrow> u8) \<Rightarrow> u16 \<Rightarrow> u16 \<Rightarrow> (nat \<Rightarrow> u8) option" where
  "qsort_u8 = qsort_type (<)"

definition qsort_s8 :: "(nat \<Rightarrow> 8 word) \<Rightarrow> u16 \<Rightarrow> u16 \<Rightarrow> (nat \<Rightarrow> 8 word) option" where
  "qsort_s8 = qsort_type word_sless"

definition qsort_u16 :: "(nat \<Rightarrow> u16) \<Rightarrow> u16 \<Rightarrow> u16 \<Rightarrow> (nat \<Rightarrow> u16) option" where
  "qsort_u16 = qsort_type (<)"

definition qsort_s16 :: "(nat \<Rightarrow> s16) \<Rightarrow> u16 \<Rightarrow> u16 \<Rightarrow> (nat \<Rightarrow> s16) option" where
  "qsort_s16 = qsort_type word_sless"

definition qsort_u32 :: "(nat \<Rightarrow> u32) \<Rightarrow> u16 \<Rightarrow> u16 \<Rightarrow> (nat \<Rightarrow> u32) option" where
  "qsort_u32 = qsort_type (<)"

definition qsort_s32 :: "(nat \<Rightarrow> s32) \<Rightarrow> u16 \<Rightarrow> u16 \<Rightarrow> (nat \<Rightarrow> s32) option" where
  "qsort_s32 = qsort_type word_sless"

section \<open>Rearrangements of a part of an array\<close>

definition rearr :: "nat set \<Rightarrow> (nat \<Rightarrow> 'a) \<Rightarrow> (nat \<Rightarrow> 'a) \<Rightarrow> bool" where
  "rearr A d d' \<longleftrightarrow> image_mset d' (mset_set A) = image_mset d (mset_set A) \<and> (\<forall>k. k \<notin> A \<longrightarrow> d' k = d k)"

lemma rearr_refl: "rearr A d d"
  by (simp add: rearr_def)

lemma rearr_trans: "rearr A d e \<Longrightarrow> rearr A e f \<Longrightarrow> rearr A d f"
  by (simp add: rearr_def)

lemma rearr_image: "finite A \<Longrightarrow> rearr A d d' \<Longrightarrow> d' ` A = d ` A"
  unfolding rearr_def by (metis finite_set_mset_mset_set set_image_mset)

lemma rearr_mono:
  assumes "rearr A d d'" "A \<subseteq> B" "finite B"
  shows "rearr B d d'"
proof -
  have B: "mset_set B = mset_set A + mset_set (B - A)"
    using assms(2,3) by (metis Diff_disjoint Diff_partition finite_Diff finite_subset mset_set_Union)
  have "image_mset d' (mset_set (B - A)) = image_mset d (mset_set (B - A))"
    using assms(1,3) by (intro image_mset_cong) (auto simp: rearr_def)
  then show ?thesis using assms(1,2) by (auto simp: B rearr_def)
qed

lemma rearr_swap:
  assumes "i \<in> A" "j \<in> A" "i \<noteq> j" "finite A"
  shows "rearr A d (d(i := d j, j := d i))"
proof -
  let ?d = "d(i := d j, j := d i)"
  have A: "mset_set A = mset_set (A - {i, j}) + {#i, j#}"
  proof -
    define C where "C = A - {i, j}"
    have "A = insert i (insert j C)" "i \<notin> insert j C" "j \<notin> C" "finite C" using assms by (auto simp: C_def)
    then show ?thesis unfolding C_def [symmetric] by simp
  qed
  have "image_mset ?d (mset_set (A - {i, j})) = image_mset d (mset_set (A - {i, j}))"
    using assms(4) by (intro image_mset_cong) auto
  then show ?thesis using assms by (auto simp: A rearr_def)
qed

lemma rearr_swap_if:
  assumes "i \<in> A" "j \<in> A" "finite A"
  shows "rearr A d (d(i := d j, j := d i))"
  using rearr_swap [OF assms(1,2) _ assms(3)] by (cases "i = j") (auto simp: rearr_refl)

section \<open>Sorting by a comparison\<close>

definition sorted_by :: "('a \<Rightarrow> 'a \<Rightarrow> bool) \<Rightarrow> (nat \<Rightarrow> 'a) \<Rightarrow> nat \<Rightarrow> nat \<Rightarrow> bool" where
  "sorted_by lt d a b \<longleftrightarrow> (\<forall>i j. a \<le> i \<and> i \<le> j \<and> j \<le> b \<longrightarrow> \<not> lt (d j) (d i))"

definition split_at :: "('a \<Rightarrow> 'a \<Rightarrow> bool) \<Rightarrow> 'a \<Rightarrow> nat \<Rightarrow> nat \<Rightarrow> nat \<Rightarrow> (nat \<Rightarrow> 'a) \<Rightarrow> bool" where
  "split_at lt x a q b d \<longleftrightarrow> (\<forall>k. a \<le> k \<and> k \<le> q \<longrightarrow> \<not> lt x (d k)) \<and> (\<forall>k. q < k \<and> k \<le> b \<longrightarrow> \<not> lt (d k) x)"

lemma scan_up_stops:
  assumes "unat i \<le> b" "b \<le> unat r" "\<not> lt (data b) x"
  shows "unat i \<le> unat (scan_up lt data x r i) \<and> unat (scan_up lt data x r i) \<le> b
    \<and> (\<forall>k. unat i \<le> k \<and> k < unat (scan_up lt data x r i) \<longrightarrow> lt (data k) x)
    \<and> \<not> lt (data (unat (scan_up lt data x r i))) x"
  using assms
proof (induction lt data x r i rule: scan_up.induct)
  case (1 lt data x r i)
  show ?case
  proof (cases "i < r \<and> lt (data (unat i)) x")
    case True
    then have n: "unat (i + 1) = unat i + 1" "unat i \<noteq> b" using unat_u16_lt [of r] 1(4)
      by (auto simp: unat_plus_small word_less_nat_alt)
    then have "unat (i + 1) \<le> b" using 1(2) by linarith
    note ih = 1(1) [OF True this 1(3,4)]
    define u where "u = scan_up lt data x r (i + 1)"
    have e: "scan_up lt data x r i = u" using True unfolding u_def by (subst scan_up.simps) simp
    have u: "unat (i + 1) \<le> unat u" "unat u \<le> b" "\<not> lt (data (unat u)) x"
      "\<And>k. unat (i + 1) \<le> k \<Longrightarrow> k < unat u \<Longrightarrow> lt (data k) x"
      using ih unfolding u_def [symmetric] by blast+
    have "lt (data k) x" if "unat i \<le> k" "k < unat u" for k
      using that u(4) [of k] True n(1) by (cases "k = unat i") auto
    moreover have "unat i \<le> unat u" using u(1) n(1) by linarith
    ultimately show ?thesis using u(2,3) unfolding e by blast
  next
    case False
    moreover have "unat i = b" if "\<not> i < r" using that 1(2,3) by (simp add: word_less_nat_alt)
    moreover have "scan_up lt data x r i = i" using False by (subst scan_up.simps) auto
    ultimately show ?thesis using 1(2,4) by auto
  qed
qed

lemma scan_down_stops:
  assumes "b \<le> unat j" "unat p \<le> b" "\<not> lt x (data b)"
  shows "unat (scan_down lt data x p j) \<le> unat j \<and> b \<le> unat (scan_down lt data x p j)
    \<and> (\<forall>k. unat (scan_down lt data x p j) < k \<and> k \<le> unat j \<longrightarrow> lt x (data k))
    \<and> \<not> lt x (data (unat (scan_down lt data x p j)))"
  using assms
proof (induction lt data x p j rule: scan_down.induct)
  case (1 lt data x p j)
  show ?case
  proof (cases "p < j \<and> lt x (data (unat j))")
    case True
    then have n: "unat (j - 1) = unat j - 1" "unat j \<noteq> b" "0 < unat j" using 1(4)
      by (auto simp: unat_minus_le word_less_nat_alt word_le_nat_alt)
    then have "b \<le> unat (j - 1)" using 1(2) by linarith
    note ih = 1(1) [OF True this 1(3,4)]
    define u where "u = scan_down lt data x p (j - 1)"
    have e: "scan_down lt data x p j = u" using True unfolding u_def by (subst scan_down.simps) simp
    have u: "unat u \<le> unat (j - 1)" "b \<le> unat u" "\<not> lt x (data (unat u))"
      "\<And>k. unat u < k \<Longrightarrow> k \<le> unat (j - 1) \<Longrightarrow> lt x (data k)"
      using ih unfolding u_def [symmetric] by blast+
    have "lt x (data k)" if "unat u < k" "k \<le> unat j" for k
      using that u(4) [of k] True n by (cases "k = unat j") auto
    moreover have "unat u \<le> unat j" using u(1) n(1) by linarith
    ultimately show ?thesis using u(2,3) unfolding e by blast
  next
    case False
    moreover have "unat j = b" if "\<not> p < j" using that 1(2,3) by (simp add: word_less_nat_alt)
    moreover have "scan_down lt data x p j = j" using False by (subst scan_down.simps) auto
    ultimately show ?thesis using 1(2,4) by auto
  qed
qed

text \<open>The laws of a comparison that the algorithm needs.\<close>

locale comparison =
  fixes lt :: "'a \<Rightarrow> 'a \<Rightarrow> bool"
  assumes asym: "lt a b \<Longrightarrow> \<not> lt b a"
    and trans_not: "\<not> lt b a \<Longrightarrow> \<not> lt c b \<Longrightarrow> \<not> lt c a"
begin

lemma irrefl: "\<not> lt a a"
  using asym by blast

lemma partition_loop_ok:
  assumes "unat p \<le> unat i" "unat i < unat j" "unat j \<le> unat r"
    and "\<And>k. unat p \<le> k \<Longrightarrow> k \<le> unat i \<Longrightarrow> \<not> lt x (d k)"
    and "\<And>k. unat j \<le> k \<Longrightarrow> k \<le> unat r \<Longrightarrow> \<not> lt (d k) x"
  shows "\<exists>q d'. partition_loop lt x p r i j d = Some (q, d') \<and> unat p \<le> unat q \<and> unat q < unat r
    \<and> split_at lt x (unat p) (unat q) (unat r) d' \<and> rearr {unat p..unat r} d d'"
  using assms
proof (induction "unat j - unat i" arbitrary: i j d rule: less_induct)
  case (less i j d)
  define i' where "i' = scan_up lt d x r (i + 1)"
  define j' where "j' = scan_down lt d x p (j - 1)"
  have n: "unat (i + 1) = unat i + 1" "unat (j - 1) = unat j - 1"
    using less.prems(2) unat_u16_lt [of j] by (auto simp: unat_plus_small unat_minus_le word_le_nat_alt)
  have up: "unat i < unat i'" "unat i' \<le> unat j" "\<not> lt (d (unat i')) x" "\<And>k. unat i < k \<Longrightarrow> k < unat i' \<Longrightarrow> lt (d k) x"
    using scan_up_stops [of "i + 1" "unat j" r lt d x] less.prems n(1) unfolding i'_def by auto
  have dn: "unat j' < unat j" "unat i \<le> unat j'" "\<not> lt x (d (unat j'))" "\<And>k. unat j' < k \<Longrightarrow> k < unat j \<Longrightarrow> lt x (d k)"
  proof -
    have ij: "unat i \<le> unat j - 1" using less.prems(2) by linarith
    have i: "\<not> lt x (d (unat i))" using less.prems(1) by (intro less.prems(4)) simp_all
    note st = scan_down_stops [of "unat i" "j - 1" p lt x d, unfolded n(2) j'_def [symmetric], OF ij less.prems(1) i]
    show "unat j' < unat j" "unat i \<le> unat j'" "\<not> lt x (d (unat j'))" "\<And>k. unat j' < k \<Longrightarrow> k < unat j \<Longrightarrow> lt x (d k)"
      using st less.prems(2) by auto
  qed
  show ?case
  proof (cases "i' < j'")
    case True
    then have lt: "unat i' < unat j'" by (simp add: word_less_nat_alt)
    define e where "e = d(unat i' := d (unat j'), unat j' := d (unat i'))"
    have step: "partition_loop lt x p r i j d = partition_loop lt x p r i' j' e"
      using True unfolding i'_def j'_def e_def by (subst partition_loop.simps) (simp add: Let_def)
    have "\<exists>q d'. partition_loop lt x p r i' j' e = Some (q, d') \<and> unat p \<le> unat q \<and> unat q < unat r
      \<and> split_at lt x (unat p) (unat q) (unat r) d' \<and> rearr {unat p..unat r} e d'"
    proof (rule less.hyps)
      show "\<not> lt x (e k)" if "unat p \<le> k" "k \<le> unat i'" for k
        using that lt dn(3) up(4) [of k] less.prems(4) [of k] asym by (cases "k \<le> unat i"; cases "k = unat i'") (auto simp: e_def)
      show "\<not> lt (e k) x" if "unat j' \<le> k" "k \<le> unat r" for k
        using that lt up(3) dn(4) [of k] less.prems(5) [of k] asym by (cases "k < unat j"; cases "k = unat j'") (auto simp: e_def)
    qed (use lt up dn less.prems in linarith)+
    moreover have "rearr {unat p..unat r} d e"
      unfolding e_def using lt up dn less.prems by (intro rearr_swap_if) auto
    ultimately show ?thesis unfolding step by (meson rearr_trans)
  next
    case False
    then have ge: "unat j' \<le> unat i'" by (simp add: word_less_nat_alt)
    have "partition_loop lt x p r i j d = Some (j', d)"
      using False unfolding i'_def j'_def by (subst partition_loop.simps) (simp add: Let_def)
    moreover have "split_at lt x (unat p) (unat j') (unat r) d"
      unfolding split_at_def
    proof (intro conjI allI impI; elim conjE)
      show "\<not> lt x (d k)" if "unat p \<le> k" "k \<le> unat j'" for k
        using that ge dn(3) up(4) [of k] less.prems(4) [of k] asym by (cases "k \<le> unat i"; cases "k = unat j'") auto
      show "\<not> lt (d k) x" if "unat j' < k" "k \<le> unat r" for k
        using that dn(4) [of k] less.prems(5) [of k] asym by (cases "k < unat j") auto
    qed
    moreover have "unat p \<le> unat j'" "unat j' < unat r" using dn less.prems by linarith+
    ultimately show ?thesis by (auto simp: rearr_refl)
  qed
qed

lemma partition_ok:
  assumes "p < r"
  shows "\<exists>q d'. partition_type lt d p r = Some (q, d') \<and> unat p \<le> unat q \<and> unat q < unat r
    \<and> split_at lt (d (unat p)) (unat p) (unat q) (unat r) d' \<and> rearr {unat p..unat r} d d'"
proof -
  have pr: "unat p < unat r" using assms by (simp add: word_less_nat_alt)
  let ?x = "d (unat p)"
  define j' where "j' = scan_down lt d ?x p r"
  have i': "scan_up lt d ?x r p = p" by (subst scan_up.simps) (simp add: irrefl)
  have dn: "unat j' \<le> unat r" "unat p \<le> unat j'" "\<not> lt ?x (d (unat j'))" "\<And>k. unat j' < k \<Longrightarrow> k \<le> unat r \<Longrightarrow> lt ?x (d k)"
    using scan_down_stops [of "unat p" r p lt ?x d] pr irrefl unfolding j'_def by auto
  define e where "e = d(unat p := d (unat j'), unat j' := ?x)"
  have step: "partition_type lt d p r = (if p < j' then partition_loop lt ?x p r p j' e else Some (j', d))"
    unfolding partition_type_def e_def j'_def by (subst partition_loop.simps) (simp add: Let_def i')
  show ?thesis
  proof (cases "p < j'")
    case True
    then have lt: "unat p < unat j'" by (simp add: word_less_nat_alt)
    have "\<exists>q d'. partition_loop lt ?x p r p j' e = Some (q, d') \<and> unat p \<le> unat q \<and> unat q < unat r
      \<and> split_at lt ?x (unat p) (unat q) (unat r) d' \<and> rearr {unat p..unat r} e d'"
    proof (rule partition_loop_ok)
      show "\<not> lt ?x (e k)" if "unat p \<le> k" "k \<le> unat p" for k using that lt dn(3) by (auto simp: e_def)
      show "\<not> lt (e k) ?x" if "unat j' \<le> k" "k \<le> unat r" for k
        using that lt dn(4) [of k] asym irrefl by (cases "k = unat j'") (auto simp: e_def)
    qed (use lt dn in linarith)+
    moreover have "rearr {unat p..unat r} d e" unfolding e_def using lt dn by (intro rearr_swap_if) auto
    ultimately show ?thesis using True unfolding step by (meson rearr_trans)
  next
    case False
    then have j: "unat j' = unat p" using dn(2) by (simp add: word_less_nat_alt)
    have "split_at lt ?x (unat p) (unat j') (unat r) d"
      using dn(4) asym irrefl unfolding split_at_def j by (metis le_antisym)
    then show ?thesis using False j pr unfolding step by (auto simp: rearr_refl)
  qed
qed

lemma sorted_by_join:
  assumes "split_at lt x a q b d" "sorted_by lt d a q" "sorted_by lt d (q + 1) b"
  shows "sorted_by lt d a b"
  unfolding sorted_by_def
proof (intro allI impI, elim conjE)
  fix i j assume ij: "a \<le> i" "i \<le> j" "j \<le> b"
  show "\<not> lt (d j) (d i)"
  proof (cases "j \<le> q \<or> q < i")
    case True
    then show ?thesis using ij assms(2,3) unfolding sorted_by_def by (metis Suc_eq_plus1 Suc_leI order_trans)
  next
    case False
    then have "\<not> lt x (d i)" "\<not> lt (d j) x" using assms(1) ij unfolding split_at_def by auto
    then show ?thesis by (rule trans_not)
  qed
qed

lemma split_at_rearr:
  assumes "split_at lt x a q b d" "rearr {a..q} d e" "rearr {q + 1..b} e f"
  shows "split_at lt x a q b f"
proof -
  have "f k = e k" if "k \<le> q" for k using assms(3) that by (simp add: rearr_def)
  moreover have "e ` {a..q} = d ` {a..q}" using assms(2) by (intro rearr_image) simp_all
  ultimately have "f ` {a..q} = d ` {a..q}" by auto
  moreover have "e k = d k" if "q < k" for k using assms(2) that by (simp add: rearr_def)
  then have "f ` {q + 1..b} = d ` {q + 1..b}" using rearr_image [OF _ assms(3)] by auto
  moreover have "split_at lt x a q b g \<longleftrightarrow> (\<forall>y \<in> g ` {a..q}. \<not> lt x y) \<and> (\<forall>y \<in> g ` {q + 1..b}. \<not> lt y x)" for g
    unfolding split_at_def by (auto simp: Suc_le_eq)
  ultimately show ?thesis using assms(1) by metis
qed

lemma qsort_ok: "\<exists>d'. qsort_type lt d p r = Some d' \<and> sorted_by lt d' (unat p) (unat r) \<and> rearr {unat p..unat r} d d'"
proof (induction "unat r - unat p" arbitrary: d p r rule: less_induct)
  case (less p r d)
  show ?case
  proof (cases "p < r")
    case False
    then have "unat r \<le> unat p" by (simp add: word_less_nat_alt)
    then have "sorted_by lt d (unat p) (unat r)" unfolding sorted_by_def using irrefl by (metis le_antisym order_trans)
    then show ?thesis using False by (subst qsort_type.simps) (simp add: rearr_refl)
  next
    case True
    then obtain q d1 where q: "partition_type lt d p r = Some (q, d1)" "unat p \<le> unat q" "unat q < unat r"
        "split_at lt (d (unat p)) (unat p) (unat q) (unat r) d1" "rearr {unat p..unat r} d d1"
      using partition_ok by blast
    have q1: "unat (q + 1) = unat q + 1" using q(3) unat_u16_lt [of r] by (simp add: unat_plus_small)
    obtain d2 where d2: "qsort_type lt d1 p q = Some d2" "sorted_by lt d2 (unat p) (unat q)" "rearr {unat p..unat q} d1 d2"
      using less.hyps [of q p d1] q(2,3) by (meson diff_less_mono)
    obtain d3 where d3: "qsort_type lt d2 (q + 1) r = Some d3" "sorted_by lt d3 (unat q + 1) (unat r)" "rearr {unat q + 1..unat r} d2 d3"
      using less.hyps [of r "q + 1" d2] q(2,3) unfolding q1 by fastforce
    have "qsort_type lt d p r = Some d3" using True q(1) d2(1) d3(1) by (subst qsort_type.simps) simp
    moreover have "d3 k = d2 k" if "k \<le> unat q" for k using d3(3) that by (simp add: rearr_def)
    then have "sorted_by lt d3 (unat p) (unat q)" using d2(2) unfolding sorted_by_def by simp
    then have "sorted_by lt d3 (unat p) (unat r)"
      using sorted_by_join [OF split_at_rearr [OF q(4) d2(3) d3(3)]] d3(2) by blast
    moreover have "rearr {unat p..unat r} d d3"
      using q(2,3,5) rearr_mono [OF d2(3), of "{unat p..unat r}"] rearr_mono [OF d3(3), of "{unat p..unat r}"]
      by (auto intro: rearr_trans)
    ultimately show ?thesis by blast
  qed
qed

end

interpretation unsigned: comparison "(<) :: 'a::len word \<Rightarrow> 'a word \<Rightarrow> bool"
  by unfold_locales auto

interpretation signed: comparison "word_sless :: 'a::len word \<Rightarrow> 'a word \<Rightarrow> bool"
  by unfold_locales (auto simp: word_sless_alt)

section \<open>Properties\<close>

lemma rearr_list:
  assumes "rearr {a..b} d d'"
  shows "mset (map d' [a..<b + 1]) = mset (map d [a..<b + 1])"
proof -
  have "mset (map f [a..<b + 1]) = image_mset f (mset_set {a..b})" for f :: "nat \<Rightarrow> 'a"
    by (simp add: atLeastLessThanSuc_atLeastAtMost del: upt_Suc)
  then show ?thesis using assms by (simp only: rearr_def)
qed

lemma xor_shift_0:
  "(x :: u16) XOR drop_bit 5 x = 0 \<longleftrightarrow> x = 0" "x XOR drop_bit 7 x = 0 \<longleftrightarrow> x = 0" "x XOR push_bit 9 x = 0 \<longleftrightarrow> x = 0"
proof -
  have eq: "a XOR b = 0 \<longleftrightarrow> a = b" for a b :: u16 unfolding bit_eq_iff by (auto simp: bit_xor_iff)
  have z: "a = 0" if "a = f a" "f (f (f (f a))) = 0" for f and a :: u16 using that by metis
  have "x = 0" if "x = drop_bit 5 x" using that by (rule z) (simp add: drop_bit_word_beyond)
  moreover have "x = 0" if "x = drop_bit 7 x" using that by (rule z) (simp add: drop_bit_word_beyond)
  moreover have "x = 0" if "x = push_bit 9 x" using that by (rule z) (simp add: push_bit_word_beyond)
  ultimately show "x XOR drop_bit 5 x = 0 \<longleftrightarrow> x = 0" "x XOR drop_bit 7 x = 0 \<longleftrightarrow> x = 0" "x XOR push_bit 9 x = 0 \<longleftrightarrow> x = 0"
    using eq by (metis drop_bit_of_0, metis drop_bit_of_0, metis push_bit_of_0)
qed

text \<open>
  C12 The sorting routines return for every range of indices, signed and unsigned, and leave the range
  sorted: its elements are those it had before, in ascending order, and nothing outside the range
  has changed. This holds for the full range of indices as well, although \<open>p - 1\<close> and \<open>r + 1\<close> wrap.
\<close>

theorem qsort_sorts:
  "(\<exists>d'. qsort_u16 d p r = Some d' \<and> sorted (map d' [unat p..<unat r + 1])
      \<and> mset (map d' [unat p..<unat r + 1]) = mset (map d [unat p..<unat r + 1])
      \<and> (\<forall>k. k \<notin> {unat p..unat r} \<longrightarrow> d' k = d k)) \<and>
   (\<exists>d'. qsort_s16 e p r = Some d' \<and> sorted (map (\<lambda>k. sint (d' k)) [unat p..<unat r + 1])
      \<and> mset (map d' [unat p..<unat r + 1]) = mset (map e [unat p..<unat r + 1])
      \<and> (\<forall>k. k \<notin> {unat p..unat r} \<longrightarrow> d' k = e k))"
proof -
  have s: "sorted_by (<) f a b \<Longrightarrow> sorted (map f [a..<b + 1])" for f :: "nat \<Rightarrow> 'b::linorder" and a b
    unfolding sorted_by_def by (simp add: sorted_iff_nth_mono not_less del: upt_Suc)
  obtain d1 where u: "qsort_u16 d p r = Some d1" "sorted_by (<) d1 (unat p) (unat r)" "rearr {unat p..unat r} d d1"
    unfolding qsort_u16_def using unsigned.qsort_ok by blast
  obtain d2 where v: "qsort_s16 e p r = Some d2" "sorted_by word_sless d2 (unat p) (unat r)" "rearr {unat p..unat r} e d2"
    unfolding qsort_s16_def using signed.qsort_ok by blast
  have "sorted_by (<) (\<lambda>k. sint (d2 k)) (unat p) (unat r)" using v(2) by (simp add: sorted_by_def word_sless_alt)
  then show ?thesis
    using u v(1) s [OF u(2)] s [of "\<lambda>k. sint (d2 k)"] rearr_list [OF u(3)] rearr_list [OF v(3)] v(3)
    by (simp add: rearr_def del: upt_Suc)
qed

text \<open>
  C39 The generator never leaves the value 0, and never reaches it: from every other state all numbers
  are different from 0. The seed 0xD94B, which the exclusive or with 0xD94B turns into 0, makes it
  return 0 forever, and the seed 0xFEAE makes it repeat seven numbers.
\<close>

theorem U16_rand_ok:
  "(randbase s \<noteq> 0 \<longleftrightarrow> fst (U16_rand s) \<noteq> 0) \<and> randbase (snd (U16_rand s)) = fst (U16_rand s) \<and>
   U16_rand (setRandomSeed 0xD94B s) = (0, setRandomSeed 0xD94B s) \<and>
   (snd \<circ> U16_rand) ((snd \<circ> U16_rand) ((snd \<circ> U16_rand) ((snd \<circ> U16_rand) ((snd \<circ> U16_rand)
     ((snd \<circ> U16_rand) ((snd \<circ> U16_rand) (setRandomSeed 0xFEAE s))))))) = setRandomSeed 0xFEAE s"
proof -
  have "randbase s \<noteq> 0 \<longleftrightarrow> fst (U16_rand s) \<noteq> 0" by (simp add: U16_rand_def Let_def xor_shift_0 del: drop_bit_xor push_bit_xor)
  moreover have "randbase (snd (U16_rand s)) = fst (U16_rand s)" by (simp add: U16_rand_def Let_def)
  moreover have "U16_rand (setRandomSeed 0xD94B s) = (0, setRandomSeed 0xD94B s)"
    by (simp add: U16_rand_def setRandomSeed_def Let_def)
  moreover have "snd (U16_rand t) = t\<lparr>randbase := fst (U16_rand t)\<rparr>" for t by (simp add: U16_rand_def Let_def)
  ultimately show ?thesis by (simp add: setRandomSeed_def) (simp add: U16_rand_def Let_def)
qed

theorem qsort_sorts_witness:
  "\<exists>d'. qsort_u16 (\<lambda>k. 10 - of_nat k) 2 5 = Some d' \<and> sorted (map d' [2..<6]) \<and> d' 0 = 10"
proof -
  obtain d' where "qsort_u16 (\<lambda>k. 10 - of_nat k) 2 5 = Some d'" "sorted (map d' [unat (2 :: u16)..<unat (5 :: u16) + 1])"
      "\<And>k. k \<notin> {unat (2 :: u16)..unat (5 :: u16)} \<Longrightarrow> d' k = 10 - of_nat k"
    using qsort_sorts [of "\<lambda>k. 10 - of_nat k" 2 5 "\<lambda>_. 0"] by blast
  then show ?thesis by (auto simp del: upt_Suc)
qed

end
