(* ===== verification/Resources.thy ===== *)
theory Resources
  imports Dma HeapClient
begin

text \<open>
  Graphic resources, the second half of \<open>src/tools.c\<close>: the structures that describe a bitmap, a tile
  set, a tile map, an image and a map, their allocation in the heap, and unpacking them. The
  structures are in RAM; a field is at its offset, in words, from the address of its structure.

  The routines that unpack data, \<open>aplib_unpack\<close> and \<open>lz4w_unpack\<close>, are written in assembly: they are
  arguments of the model. Bank switching is off, as in the default configuration, so that
  \<open>FAR_SAFE(data, size)\<close> is \<open>data\<close>.
\<close>

section \<open>Structures\<close>

definition COMPRESSION_NONE :: u16 where [cfg]: "COMPRESSION_NONE = 0"
definition COMPRESSION_APLIB :: u16 where [cfg]: "COMPRESSION_APLIB = 1"
definition COMPRESSION_LZ4W :: u16 where [cfg]: "COMPRESSION_LZ4W = 2"

definition sizeof_Bitmap :: u16 where [cfg]: "sizeof_Bitmap = 14"
definition sizeof_TileSet :: u16 where [cfg]: "sizeof_TileSet = 8"
definition sizeof_TileMap :: u16 where [cfg]: "sizeof_TileMap = 10"
definition sizeof_Image :: u16 where [cfg]: "sizeof_Image = 12"
definition sizeof_Map :: u16 where [cfg]: "sizeof_Map = 594"

text \<open>The field \<open>compression\<close> is the first one of all three.\<close>

definition res_compression :: "ptr \<Rightarrow> ram \<Rightarrow> u16" where
  "res_compression p m = m p"

definition bitmap_w :: "ptr \<Rightarrow> ram \<Rightarrow> u16" where "bitmap_w p m = m (p + 1)"
definition bitmap_h :: "ptr \<Rightarrow> ram \<Rightarrow> u16" where "bitmap_h p m = m (p + 2)"
definition bitmap_palette :: "ptr \<Rightarrow> ram \<Rightarrow> u32" where "bitmap_palette p m = load32 (p + 3) m"
definition bitmap_image :: "ptr \<Rightarrow> ram \<Rightarrow> ptr" where "bitmap_image p m = load_ptr (p + 5) m"

definition tileset_numTile :: "ptr \<Rightarrow> ram \<Rightarrow> u16" where "tileset_numTile p m = m (p + 1)"
definition tileset_tiles :: "ptr \<Rightarrow> ram \<Rightarrow> ptr" where "tileset_tiles p m = load_ptr (p + 2) m"

definition tilemap_w :: "ptr \<Rightarrow> ram \<Rightarrow> u16" where "tilemap_w p m = m (p + 1)"
definition tilemap_h :: "ptr \<Rightarrow> ram \<Rightarrow> u16" where "tilemap_h p m = m (p + 2)"
definition tilemap_tilemap :: "ptr \<Rightarrow> ram \<Rightarrow> ptr" where "tilemap_tilemap p m = load_ptr (p + 3) m"

definition image_palette :: "ptr \<Rightarrow> ram \<Rightarrow> u32" where "image_palette p m = load32 p m"
definition image_tileset :: "ptr \<Rightarrow> ram \<Rightarrow> ptr" where "image_tileset p m = load_ptr (p + 2) m"
definition image_tilemap :: "ptr \<Rightarrow> ram \<Rightarrow> ptr" where "image_tilemap p m = load_ptr (p + 4) m"

definition mapdef_w :: "ptr \<Rightarrow> ram \<Rightarrow> u16" where "mapdef_w p m = m p"
definition mapdef_hp :: "ptr \<Rightarrow> ram \<Rightarrow> u16" where "mapdef_hp p m = m (p + 2)"
definition mapdef_compression :: "ptr \<Rightarrow> ram \<Rightarrow> u16" where "mapdef_compression p m = m (p + 3)"
definition mapdef_numMetaTile :: "ptr \<Rightarrow> ram \<Rightarrow> u16" where "mapdef_numMetaTile p m = m (p + 4)"
definition mapdef_numBlock :: "ptr \<Rightarrow> ram \<Rightarrow> u16" where "mapdef_numBlock p m = m (p + 5)"

section \<open>Allocation\<close>

text \<open>The products are computed with 32 bits and cut to the 16 bits of a size.\<close>

definition bitmap_bytes :: "u16 \<Rightarrow> u16 \<Rightarrow> u16" where
  "bitmap_bytes w h = ucast ((ucast w * ucast h :: u32) div 2)"

definition getBitmapAllocSize :: "ptr \<Rightarrow> ram \<Rightarrow> u16" where
  "getBitmapAllocSize bitmap m = bitmap_bytes (bitmap_w bitmap m) (bitmap_h bitmap m)"

definition getTileSetAllocSize :: "ptr \<Rightarrow> ram \<Rightarrow> u16" where
  "getTileSetAllocSize tileset m = tileset_numTile tileset m * 32"

definition getTileMapAllocSize :: "ptr \<Rightarrow> ram \<Rightarrow> u16" where
  "getTileMapAllocSize tilemap m = tilemap_w tilemap m * tilemap_h tilemap m * 2"

definition allocateBitmapInternal :: "ptr \<Rightarrow> ram \<Rightarrow> ram" where
  "allocateBitmapInternal adr m =
    (if adr \<noteq> NULL then store_ptr (adr + 5) (adr + unat sizeof_Bitmap div 2) (m(adr := COMPRESSION_NONE)) else m)"

definition allocateTileSetInternal :: "ptr \<Rightarrow> ram \<Rightarrow> ram" where
  "allocateTileSetInternal adr m =
    (if adr \<noteq> NULL then store_ptr (adr + 2) (adr + unat sizeof_TileSet div 2) (m(adr := COMPRESSION_NONE)) else m)"

definition allocateTileMapInternal :: "ptr \<Rightarrow> ram \<Rightarrow> ram" where
  "allocateTileMapInternal adr m =
    (if adr \<noteq> NULL then store_ptr (adr + 3) (adr + unat sizeof_TileMap div 2) (m(adr := COMPRESSION_NONE)) else m)"

text \<open>The allocations return the structure, which is at the start of its block, and the new state.\<close>

definition allocateBitmap :: "ptr \<Rightarrow> 'a heap_st_scheme \<Rightarrow> (ptr \<times> 'a heap_st_scheme) option" where
  "allocateBitmap bitmap s = do {
     (adr, s) \<leftarrow> MEM_alloc (getBitmapAllocSize bitmap (ram s) + sizeof_Bitmap) s;
     Some (adr, s\<lparr>ram := allocateBitmapInternal adr (ram s)\<rparr>) }"

definition allocateBitmapEx :: "u16 \<Rightarrow> u16 \<Rightarrow> 'a heap_st_scheme \<Rightarrow> (ptr \<times> 'a heap_st_scheme) option" where
  "allocateBitmapEx width heigth s = do {
     (adr, s) \<leftarrow> MEM_alloc (bitmap_bytes width heigth + sizeof_Bitmap) s;
     Some (adr, if adr \<noteq> NULL then
         s\<lparr>ram := store_ptr (adr + 5) (adr + unat sizeof_Bitmap div 2) ((ram s)(adr := COMPRESSION_NONE))\<rparr>
       else s) }"

definition allocateTileSet :: "ptr \<Rightarrow> 'a heap_st_scheme \<Rightarrow> (ptr \<times> 'a heap_st_scheme) option" where
  "allocateTileSet tileset s = do {
     (adr, s) \<leftarrow> MEM_alloc (getTileSetAllocSize tileset (ram s) + sizeof_TileSet) s;
     Some (adr, s\<lparr>ram := allocateTileSetInternal adr (ram s)\<rparr>) }"

definition allocateTileSetEx :: "u16 \<Rightarrow> 'a heap_st_scheme \<Rightarrow> (ptr \<times> 'a heap_st_scheme) option" where
  "allocateTileSetEx numTile s = do {
     (adr, s) \<leftarrow> MEM_alloc (numTile * 32 + sizeof_TileSet) s;
     Some (adr, if adr \<noteq> NULL then
         s\<lparr>ram := (store_ptr (adr + 2) (adr + unat sizeof_TileSet div 2) ((ram s)(adr := COMPRESSION_NONE)))(adr + 1 := numTile)\<rparr>
       else s) }"

definition allocateTileMap :: "ptr \<Rightarrow> 'a heap_st_scheme \<Rightarrow> (ptr \<times> 'a heap_st_scheme) option" where
  "allocateTileMap tilemap s = do {
     (adr, s) \<leftarrow> MEM_alloc (getTileMapAllocSize tilemap (ram s) + sizeof_TileMap) s;
     Some (adr, s\<lparr>ram := allocateTileMapInternal adr (ram s)\<rparr>) }"

definition allocateTileMapEx :: "u16 \<Rightarrow> u16 \<Rightarrow> 'a heap_st_scheme \<Rightarrow> (ptr \<times> 'a heap_st_scheme) option" where
  "allocateTileMapEx width heigth s = do {
     (adr, s) \<leftarrow> MEM_alloc (width * heigth * 2 + sizeof_TileMap) s;
     Some (adr, if adr \<noteq> NULL then
         s\<lparr>ram := (store_ptr (adr + 3) (adr + unat sizeof_TileMap div 2) ((ram s)(adr := COMPRESSION_NONE)))
           (adr + 1 := width, adr + 2 := heigth)\<rparr>
       else s) }"

definition allocateImage :: "ptr \<Rightarrow> 'a heap_st_scheme \<Rightarrow> (ptr \<times> 'a heap_st_scheme) option" where
  "allocateImage img s =
    (let tileset = image_tileset img (ram s);
         tilemap = image_tilemap img (ram s);
         sizeTileset = getTileSetAllocSize tileset (ram s) + sizeof_TileSet;
         sizeMap = getTileMapAllocSize tilemap (ram s) + sizeof_TileMap
     in do {
       (adr, s) \<leftarrow> MEM_alloc (sizeTileset + sizeMap + sizeof_Image) s;
       Some (adr,
         if adr \<noteq> NULL then
           (let ts = adr + unat sizeof_Image div 2;
                m = store_ptr (adr + 2) ts (allocateTileSetInternal ts (ram s));
                tm = adr + unat sizeof_Image div 2 + unat sizeTileset div 2;
                m = store_ptr (adr + 4) tm (allocateTileMapInternal tm m)
            in s\<lparr>ram := m\<rparr>)
         else s) })"

definition map_sizes :: "ptr \<Rightarrow> ram \<Rightarrow> u16 \<times> u16 \<times> u16" where
  "map_sizes mapDef m =
    (let compression = mapdef_compression mapDef m;
         metaTilesSize = (if compression AND 0xF \<noteq> COMPRESSION_NONE then mapdef_numMetaTile mapDef m * 4 * 2 else 0);
         blocksSize =
           (if drop_bit 4 compression AND 0xF \<noteq> COMPRESSION_NONE then
              (let n = mapdef_numBlock mapDef m * 8 * 8 in if mapdef_numMetaTile mapDef m > 256 then n * 2 else n)
            else 0);
         blockIndexesSize =
           (if drop_bit 8 compression AND 0xF \<noteq> COMPRESSION_NONE then
              (let n = mapdef_w mapDef m * mapdef_hp mapDef m in if mapdef_numBlock mapDef m > 256 then n * 2 else n)
            else 0)
     in (metaTilesSize, blocksSize, blockIndexesSize))"

definition allocateMap :: "ptr \<Rightarrow> 'a heap_st_scheme \<Rightarrow> (ptr \<times> 'a heap_st_scheme) option" where
  "allocateMap mapDef s =
    (let (metaTilesSize, blocksSize, blockIndexesSize) = map_sizes mapDef (ram s) in do {
       (adr, s) \<leftarrow> MEM_alloc (sizeof_Map + metaTilesSize + blocksSize + blockIndexesSize) s;
       Some (adr,
         if adr \<noteq> NULL then
           (let m = store32 (adr + 2) (of_nat (2 * adr) + ucast sizeof_Map) (ram s);
                m = store32 (adr + 4) (of_nat (2 * adr) + ucast sizeof_Map + ucast metaTilesSize) m;
                m = store32 (adr + 6) (of_nat (2 * adr) + ucast sizeof_Map + ucast metaTilesSize + ucast blocksSize) m
            in s\<lparr>ram := m\<rparr>)
         else s) })"

section \<open>Unpacking\<close>

text \<open>What the assembly routines do: source, destination and memory to the size and the new memory.\<close>

record unpackers =
  aplib_unpack :: "ptr \<Rightarrow> ptr \<Rightarrow> ram \<Rightarrow> u32 \<times> ram"
  lz4w_unpack :: "ptr \<Rightarrow> ptr \<Rightarrow> ram \<Rightarrow> u32 \<times> ram"

definition unpack :: "unpackers \<Rightarrow> u16 \<Rightarrow> ptr \<Rightarrow> ptr \<Rightarrow> ram \<Rightarrow> u32 \<times> ram" where
  "unpack up compression src dest m =
    (if compression = COMPRESSION_APLIB then aplib_unpack up src dest m
     else if compression = COMPRESSION_LZ4W then lz4w_unpack up src dest m
     else (0, m))"

text \<open>\<open>memcpy\<close> between even addresses; an odd last byte is the high byte of its word.\<close>

definition memcpy_even :: "ptr \<Rightarrow> ptr \<Rightarrow> u16 \<Rightarrow> ram \<Rightarrow> ram" where
  "memcpy_even dst src len m =
    (let n = unat len div 2; m' = copy_words dst src n m in
     if odd (unat len) then m'(dst + n := (m' (src + n) AND 0xFF00) OR (m' (dst + n) AND 0xFF)) else m')"

definition unpackBitmap ::
  "unpackers \<Rightarrow> ptr \<Rightarrow> ptr \<Rightarrow> 'a heap_st_scheme \<Rightarrow> (ptr \<times> 'a heap_st_scheme) option" where
  "unpackBitmap up src dest s = do {
     (result, s) \<leftarrow> (if dest \<noteq> NULL then Some (dest, s) else allocateBitmap src s);
     Some (result,
       if result \<noteq> NULL then
         (let m = ram s;
              m = m(result + 1 := bitmap_w src m);
              m = m(result + 2 := bitmap_h src m);
              m = store32 (result + 3) (bitmap_palette src m) m;
              m = m(result := COMPRESSION_NONE);
              m = (if res_compression src m \<noteq> COMPRESSION_NONE then
                     snd (unpack up (res_compression src m) (bitmap_image src m) (bitmap_image result m) m)
                   else if bitmap_image src m \<noteq> bitmap_image result m then
                     memcpy_even (bitmap_image result m) (bitmap_image src m) (bitmap_bytes (bitmap_w src m) (bitmap_h src m)) m
                   else m)
          in s\<lparr>ram := m\<rparr>)
       else s) }"

definition unpackTileSet ::
  "unpackers \<Rightarrow> ptr \<Rightarrow> ptr \<Rightarrow> 'a heap_st_scheme \<Rightarrow> (ptr \<times> 'a heap_st_scheme) option" where
  "unpackTileSet up src dest s = do {
     (result, s) \<leftarrow> (if dest \<noteq> NULL then Some (dest, s) else allocateTileSet src s);
     Some (result,
       if result \<noteq> NULL then
         (let m = ram s;
              m = m(result + 1 := tileset_numTile src m);
              m = m(result := COMPRESSION_NONE);
              m = (if res_compression src m \<noteq> COMPRESSION_NONE then
                     snd (unpack up (res_compression src m) (tileset_tiles src m) (tileset_tiles result m) m)
                   else if tileset_tiles src m \<noteq> tileset_tiles result m then
                     memcpy_even (tileset_tiles result m) (tileset_tiles src m) (tileset_numTile src m * 32) m
                   else m)
          in s\<lparr>ram := m\<rparr>)
       else s) }"

definition unpackTileMap ::
  "unpackers \<Rightarrow> ptr \<Rightarrow> ptr \<Rightarrow> 'a heap_st_scheme \<Rightarrow> (ptr \<times> 'a heap_st_scheme) option" where
  "unpackTileMap up src dest s = do {
     (result, s) \<leftarrow> (if dest \<noteq> NULL then Some (dest, s) else allocateTileMap src s);
     Some (result,
       if result \<noteq> NULL then
         (let m = ram s;
              m = m(result + 1 := tilemap_w src m);
              m = m(result + 2 := tilemap_h src m);
              m = m(result := COMPRESSION_NONE);
              m = (if res_compression src m \<noteq> COMPRESSION_NONE then
                     snd (unpack up (res_compression src m) (tilemap_tilemap src m) (tilemap_tilemap result m) m)
                   else if tilemap_tilemap src m \<noteq> tilemap_tilemap result m then
                     memcpy_even (tilemap_tilemap result m) (tilemap_tilemap src m) (tilemap_w src m * tilemap_h src m * 2) m
                   else m)
          in s\<lparr>ram := m\<rparr>)
       else s) }"

definition unpackImage ::
  "unpackers \<Rightarrow> ptr \<Rightarrow> ptr \<Rightarrow> 'a heap_st_scheme \<Rightarrow> (ptr \<times> 'a heap_st_scheme) option" where
  "unpackImage up src dest s = do {
     (result, s) \<leftarrow> (if dest \<noteq> NULL then Some (dest, s) else allocateImage src s);
     if result \<noteq> NULL then do {
       let s = s\<lparr>ram := store32 result (image_palette src (ram s)) (ram s)\<rparr>;
       s \<leftarrow> (if image_tileset src (ram s) \<noteq> image_tileset result (ram s) then
               map_option snd (unpackTileSet up (image_tileset src (ram s)) (image_tileset result (ram s)) s)
             else Some s);
       s \<leftarrow> (if image_tilemap src (ram s) \<noteq> image_tilemap result (ram s) then
               map_option snd (unpackTileMap up (image_tilemap src (ram s)) (image_tilemap result (ram s)) s)
             else Some s);
       Some (result, s) }
     else Some (result, s) }"

section \<open>What unpacking gives\<close>

lemma copy_words_at:
  assumes "{dst ..< dst + n} \<inter> {src ..< src + n} = {}"
  shows "copy_words dst src n m a = (if a \<in> {dst ..< dst + n} then m (src + (a - dst)) else m a)"
  using assms
proof (induction n arbitrary: dst src m)
  case (Suc n)
  have d: "{dst + 1 ..< dst + 1 + n} \<inter> {src + 1 ..< src + 1 + n} = {}" using Suc.prems by auto
  have "dst \<noteq> src + 1 + (a - (dst + 1))" if "a \<in> {dst + 1 ..< dst + 1 + n}"
  proof
    assume "dst = src + 1 + (a - (dst + 1))"
    then have "dst \<in> {src ..< src + Suc n}" "dst \<in> {dst ..< dst + Suc n}" using that by auto
    then show False using Suc.prems by blast
  qed
  then show ?case using Suc.IH [OF d, of "m(dst := m src)"] by (cases "a = dst") (auto simp: Suc_diff_Suc fun_upd_def)
qed simp

text \<open>Words outside the heap, as those of the ROM, survive an allocation.\<close>

lemma alloc_outside:
  assumes "heap_valid A s" "unat n \<le> 65532" "MEM_alloc n s = Some (p, s')" "a < heap s \<or> heapEnd s < a"
  shows "ram s' a = ram s a"
proof -
  obtain hs where "heap_inv s hs" using assms(1) by (auto simp: heap_valid_def)
  then have "keeps s hs s'" using MEM_alloc_client [of s hs n] assms(2,3) by auto
  then show ?thesis using assms(4) by (auto simp: keeps_def)
qed

lemma alloc_frame: "MEM_alloc n s = Some (p, s') \<Longrightarrow> heap s' = heap s \<and> heapEnd s' = heapEnd s"
  using MEM_alloc_heap_frame [of n s p s'] by (auto simp: heap_frame_def)

text \<open>A block lies in the heap.\<close>

lemma block_in_heap:
  assumes "heap_valid A s" "b \<in> A" "a \<in> block_words b"
  shows "heap s \<le> a \<and> a \<le> heapEnd s"
proof -
  obtain hs where h: "heap_inv s hs" "owns s hs A" using assms(1) by (auto simp: heap_valid_def)
  obtain q z where q: "b = (q, z)" by fastforce
  have z: "unat z \<le> 65532" "q \<noteq> NULL" using h(2) assms(2) q by (auto simp: owns_def)
  have "heapEnd s = heap s + blen hadv hs" using h(1) by (auto simp: heap_inv_def intro: cseq_end)
  moreover have "(q - 1, hmk (adjsize z)) \<in> set (live s hs)" using owns_in_live [OF h(2)] assms(2) q by simp
  ultimately have "heap s \<le> q - 1 \<and> q - 1 + (unat z + 3) div 2 \<le> heapEnd s"
    using ublk_bounds [of "q - 1" _ hused hadv "heap s" hs] holds_words [OF z(1)] by (fastforce simp: live_def)
  then show ?thesis using assms(3) z(2) q by (auto simp: block_words_def)
qed

text \<open>The area of a tile map: its header and its cells.\<close>

definition tilemap_area :: "ptr \<Rightarrow> ram \<Rightarrow> nat set" where
  "tilemap_area p m = {p ..< p + 5} \<union>
     {tilemap_tilemap p m ..< tilemap_tilemap p m + unat (tilemap_w p m) * unat (tilemap_h p m)}"

definition tilemap_cells :: "ptr \<Rightarrow> ram \<Rightarrow> u16 list" where
  "tilemap_cells p m = map (\<lambda>k. m (tilemap_tilemap p m + k)) [0 ..< unat (tilemap_w p m) * unat (tilemap_h p m)]"

lemma unpackTileMap_ok:
  assumes v: "heap_valid A s" and out: "\<And>a. a \<in> tilemap_area src (ram s) \<Longrightarrow> a < heap s \<or> heapEnd s < a"
    and none: "res_compression src (ram s) = COMPRESSION_NONE"
    and sz: "2 * unat (tilemap_w src (ram s)) * unat (tilemap_h src (ram s)) + 10 \<le> 65532"
  shows "\<exists>p s'. unpackTileMap up src NULL s = Some (p, s') \<and>
    (if p = NULL then heap_valid A s'
     else heap_valid (insert (p, getTileMapAllocSize src (ram s) + sizeof_TileMap) A) s'
       \<and> res_compression p (ram s') = COMPRESSION_NONE
       \<and> tilemap_w p (ram s') = tilemap_w src (ram s) \<and> tilemap_h p (ram s') = tilemap_h src (ram s)
       \<and> tilemap_cells p (ram s') = tilemap_cells src (ram s)
       \<and> tilemap_area p (ram s') \<subseteq> block_words (p, getTileMapAllocSize src (ram s) + sizeof_TileMap)) \<and>
    (\<forall>a. a < heap s \<or> heapEnd s < a \<longrightarrow> ram s' a = ram s a) \<and> (\<forall>b \<in> A. \<forall>a \<in> block_words b. ram s' a = ram s a)"
proof -
  define w where "w = tilemap_w src (ram s)"
  define h where "h = tilemap_h src (ram s)"
  define t where "t = tilemap_tilemap src (ram s)"
  define n where "n = getTileMapAllocSize src (ram s) + sizeof_TileMap"
  let ?k = "unat w * unat h"
  have wh: "unat (w * h * 2) = 2 * ?k" using sz unfolding w_def h_def by (simp add: unat_word_ariths mult_ac)
  then have n: "unat n = 2 * ?k + 10" unfolding n_def getTileMapAllocSize_def sizeof_TileMap_def w_def [symmetric] h_def [symmetric]
    using sz unfolding w_def [symmetric] h_def [symmetric] by (subst unat_plus_small) simp_all
  have src: "src + i \<in> tilemap_area src (ram s)" if "i < 5" for i using that by (simp add: tilemap_area_def)
  have cell: "t + k \<in> tilemap_area src (ram s)" if "k < ?k" for k using that by (simp add: tilemap_area_def t_def w_def h_def)
  obtain p s1 where a: "MEM_alloc n s = Some (p, s1)" "heap_valid (if p = NULL then A else insert (p, n) A) s1"
      "p \<noteq> NULL \<longrightarrow> (p, n) \<notin> A" "\<forall>b \<in> A. \<forall>a \<in> block_words b. ram s1 a = ram s a"
    using mh.alloc_law [OF v, of n] n sz unfolding w_def h_def by auto
  have o1: "ram s1 a = ram s a" if "a < heap s \<or> heapEnd s < a" for a using alloc_outside [OF v _ a(1) that] n sz unfolding w_def h_def by simp
  show ?thesis
  proof (cases "p = NULL")
    case True
    then have "unpackTileMap up src NULL s = Some (NULL, s1)"
      using a(1) by (simp add: unpackTileMap_def allocateTileMap_def n_def allocateTileMapInternal_def)
    then show ?thesis using True a(2,4) o1 by auto
  next
    case False
    then have v1: "heap_valid (insert (p, n) A) s1" and fresh: "(p, n) \<notin> A" using a(2,3) by simp_all
    have bw: "block_words (p, n) = {p ..< p + 5 + ?k}" unfolding block_words_def by (simp add: n add_ac)
    have hs: "heap s1 = heap s" "heapEnd s1 = heapEnd s" using alloc_frame [OF a(1)] by simp_all
    have ib: "heap s \<le> x \<and> x \<le> heapEnd s" if "x \<in> {p ..< p + 5 + ?k}" for x
      using block_in_heap [OF v1, of "(p, n)" x] that unfolding bw hs by simp
    have apart: "x \<notin> {p ..< p + 5 + ?k}" if "x \<in> tilemap_area src (ram s)" for x using out [OF that] ib [of x] by linarith
    have p: "0 < p" "p + 5 < 2 ^ 31" using mh.bounds_law [OF v1, of "(p, n)"] n by auto
    define m where "m = (store_ptr (p + 3) (p + 5) ((ram s1)(p := 0)))(p + 1 := w, p + 2 := h, p := 0)"
    have mo: "m x = ram s1 x" if "x \<notin> {p ..< p + 5}" for x
    proof -
      have "x \<noteq> p" "x \<noteq> p + 1" "x \<noteq> p + 2" "x \<noteq> p + 3" "x \<noteq> p + 3 + 1" using that by auto
      then show ?thesis by (simp add: m_def)
    qed
    have ms: "m x = ram s x" if "x \<in> tilemap_area src (ram s)" for x
      using mo [of x] apart [OF that] o1 [OF out [OF that]] by fastforce
    have f: "m src = ram s src" "m (src + 1) = w" "m (src + 2) = h" "m (src + 3) = ram s (src + 3)" "m (src + 4) = ram s (src + 4)"
      using ms [OF src [of 0]] ms [OF src [of 1]] ms [OF src [of 2]] ms [OF src [of 3]] ms [OF src [of 4]]
      by (simp_all add: w_def h_def tilemap_w_def tilemap_h_def)
    have fs: "res_compression src m = 0" "tilemap_w src m = w" "tilemap_h src m = h" "tilemap_tilemap src m = t"
      using f f(5) [unfolded add.commute [of src]] none by (simp_all add: res_compression_def COMPRESSION_NONE_def tilemap_w_def tilemap_h_def tilemap_tilemap_def t_def
          load_ptr_def load32_def)
    have "load_ptr (p + 3) m = load_ptr (p + 3) (store_ptr (p + 3) (p + 5) ((ram s1)(p := 0)))"
      by (intro load_ptr_cong) (simp_all add: m_def)
    then have fp: "tilemap_tilemap p m = p + 5" unfolding tilemap_tilemap_def using p(2) by simp
    define mf where "mf = memcpy_even (p + 5) t (w * h * 2) m"
    have mf: "mf x = (if x \<in> {p + 5 ..< p + 5 + ?k} then ram s (t + (x - (p + 5))) else m x)" for x
    proof -
      have "{p + 5 ..< p + 5 + ?k} \<inter> {t ..< t + ?k} = {}"
      proof -
        have False if "x \<in> {p + 5 ..< p + 5 + ?k}" "x \<in> {t ..< t + ?k}" for x
        proof -
          have "x - t < ?k" using that by auto
          then show False using apart [OF cell [of "x - t"]] that by auto
        qed
        then show ?thesis by blast
      qed
      from copy_words_at [OF this, of m x] show ?thesis
        unfolding mf_def memcpy_even_def Let_def wh using ms [OF cell [of "x - (p + 5)"]] by auto
    qed
    have res: "unpackTileMap up src NULL s = Some (p, s1\<lparr>ram := mf\<rparr>)"
    proof -
      let ?i = "store_ptr (p + 3) (p + 5) ((ram s1)(p := 0))"
      have e: "?i (src + i) = ram s (src + i)" if "i < 5" for i
      proof -
        have "src + i \<noteq> p" "src + i \<noteq> p + 3" "src + i \<noteq> p + 3 + 1" using apart [OF src [OF that]] by auto
        then show ?thesis using o1 [OF out [OF src [OF that]]] by simp
      qed
      have w': "tilemap_w src ?i = w" using e [of 1] by (simp add: tilemap_w_def w_def)
      have h': "tilemap_h src (?i(p + 1 := w)) = h" using e [of 2] apart [OF src [of 2]] by (auto simp: tilemap_h_def h_def)
      have al: "allocateTileMap src s = Some (p, s1\<lparr>ram := ?i\<rparr>)"
        using a(1) False by (simp add: allocateTileMap_def n_def allocateTileMapInternal_def sizeof_TileMap_def COMPRESSION_NONE_def)
      have "(if t \<noteq> p + 5 then memcpy_even (p + 5) t (w * h * 2) m else m) = mf"
      proof (cases "t = p + 5")
        case True
        then have "?k = 0" using apart [OF cell [of 0]] by fastforce
        then show ?thesis using True mf by (simp add: fun_eq_iff)
      qed (simp add: mf_def)
      then show ?thesis
        unfolding unpackTileMap_def al using False fs fp
        by (simp add: Let_def w' h' [simplified] COMPRESSION_NONE_def m_def [simplified, symmetric] split: if_splits)
    qed
    have outf: "mf x = ram s1 x" if "x \<notin> {p ..< p + 5 + ?k}" for x using that mo [of x] by (auto simp: mf)
    have "heap_valid (insert (p, n) A) (s1\<lparr>ram := mf\<rparr>)"
      using v1 by (rule mh.put_law) (use outf bw in auto)
    moreover have "mf x = m x" if "x < p + 5" for x using that by (simp add: mf)
    then have q: "res_compression p mf = 0" "tilemap_w p mf = w" "tilemap_h p mf = h" "tilemap_tilemap p mf = p + 5"
      using fp by (simp_all add: res_compression_def tilemap_w_def tilemap_h_def tilemap_tilemap_def load_ptr_def load32_def) (simp_all add: m_def)
    then have "tilemap_cells p mf = tilemap_cells src (ram s)"
      unfolding tilemap_cells_def q w_def [symmetric] h_def [symmetric] t_def [symmetric] by (auto simp: mf)
    moreover have "tilemap_area p mf \<subseteq> block_words (p, n)" unfolding tilemap_area_def q bw by auto
    moreover have "mf x = ram s x" if "x < heap s \<or> heapEnd s < x" for x
      using outf [of x] ib [of x] o1 [OF that] that by fastforce
    moreover have "mf x = ram s x" if "b \<in> A" "x \<in> block_words b" for b x
    proof -
      have "x \<notin> block_words (p, n)" using mh.disjoint_law [OF v1, of b "(p, n)"] that fresh by auto
      then show ?thesis using outf [of x] a(4) that unfolding bw by auto
    qed
    ultimately show ?thesis using False unfolding res n_def [symmetric] by (simp add: q w_def h_def COMPRESSION_NONE_def)
  qed
qed

text \<open>
  C31 Unpacking a tile map that is not compressed and lies outside the heap, as one in ROM does,
  always returns. Either there is no room, and the blocks of the heap are those of before, or the
  result is the header of a new block which holds a tile map with the same size and the same cells;
  header and cells are inside the block. No word of another block and no word outside the heap has
  changed.
\<close>

theorem unpackTileMap_copies:
  assumes "heap_valid A s" "\<And>a. a \<in> tilemap_area src (ram s) \<Longrightarrow> a < heap s \<or> heapEnd s < a"
    and "res_compression src (ram s) = COMPRESSION_NONE"
    and "2 * unat (tilemap_w src (ram s)) * unat (tilemap_h src (ram s)) + 10 \<le> 65532"
  shows "\<exists>p s'. unpackTileMap up src NULL s = Some (p, s') \<and>
    (if p = NULL then heap_valid A s'
     else heap_valid (insert (p, getTileMapAllocSize src (ram s) + sizeof_TileMap) A) s'
       \<and> res_compression p (ram s') = COMPRESSION_NONE
       \<and> tilemap_w p (ram s') = tilemap_w src (ram s) \<and> tilemap_h p (ram s') = tilemap_h src (ram s)
       \<and> tilemap_cells p (ram s') = tilemap_cells src (ram s)
       \<and> tilemap_area p (ram s') \<subseteq> block_words (p, getTileMapAllocSize src (ram s) + sizeof_TileMap)) \<and>
    (\<forall>a. a < heap s \<or> heapEnd s < a \<longrightarrow> ram s' a = ram s a) \<and> (\<forall>b \<in> A. \<forall>a \<in> block_words b. ram s' a = ram s a)"
  using unpackTileMap_ok [OF assms] .

text \<open>A heap with one free block and, outside of it, a tile map of two cells.\<close>

definition tilemap0 :: heap_st where
  "tilemap0 = \<lparr>ram = (\<lambda>_. 0)(1 := 16, 101 := 2, 102 := 1, 104 := 220, 110 := 7, 111 := 8), free = 1, heap = 1, heapEnd = 9,
     needPack = False\<rparr>"

lemma tilemap0_ok:
  "heap_valid {} tilemap0" "tilemap_w 100 (ram tilemap0) = 2" "tilemap_h 100 (ram tilemap0) = 1"
  "tilemap_tilemap 100 (ram tilemap0) = 110" "res_compression 100 (ram tilemap0) = 0"
proof -
  have "fpos hused hadv 1 [16] 1" by (rule fposI [where pre = "[]" and post = "[16]"]) (auto simp: hused_odd)
  then have "heap_inv tilemap0 [16]" by (simp add: tilemap0_def heap_inv_def hadv_div hused_odd)
  moreover have "owns tilemap0 [16] {}" by (simp add: owns_def live_def tilemap0_def hused_odd)
  ultimately show "heap_valid {} tilemap0" unfolding heap_valid_def by (auto simp: tilemap0_def)
qed (simp_all add: tilemap0_def tilemap_w_def tilemap_h_def tilemap_tilemap_def res_compression_def load_ptr_def load32_def)

theorem unpackTileMap_copies_witness:
  "\<exists>p s'. unpackTileMap \<lparr>aplib_unpack = (\<lambda>_ _ m. (0, m)), lz4w_unpack = (\<lambda>_ _ m. (0, m))\<rparr> 100 NULL tilemap0 = Some (p, s') \<and>
     (p \<noteq> NULL \<longrightarrow> tilemap_cells p (ram s') = [7, 8])"
proof -
  have area: "a \<in> tilemap_area 100 (ram tilemap0) \<Longrightarrow> a < heap tilemap0 \<or> heapEnd tilemap0 < a" for a
    unfolding tilemap_area_def tilemap0_ok by (auto simp: tilemap0_def)
  have cells: "tilemap_cells 100 (ram tilemap0) = [7, 8]"
    by (simp add: tilemap_cells_def tilemap0_ok) (simp add: tilemap0_def numeral_2_eq_2)
  have "\<exists>p s'. unpackTileMap \<lparr>aplib_unpack = (\<lambda>_ _ m. (0, m)), lz4w_unpack = (\<lambda>_ _ m. (0, m))\<rparr> 100 NULL tilemap0 = Some (p, s') \<and>
    (if p = NULL then heap_valid {} s'
     else heap_valid (insert (p, getTileMapAllocSize 100 (ram tilemap0) + sizeof_TileMap) {}) s'
       \<and> res_compression p (ram s') = COMPRESSION_NONE
       \<and> tilemap_w p (ram s') = tilemap_w 100 (ram tilemap0) \<and> tilemap_h p (ram s') = tilemap_h 100 (ram tilemap0)
       \<and> tilemap_cells p (ram s') = tilemap_cells 100 (ram tilemap0)
       \<and> tilemap_area p (ram s') \<subseteq> block_words (p, getTileMapAllocSize 100 (ram tilemap0) + sizeof_TileMap)) \<and>
    (\<forall>a. a < heap tilemap0 \<or> heapEnd tilemap0 < a \<longrightarrow> ram s' a = ram tilemap0 a) \<and> (\<forall>b \<in> {}. \<forall>a \<in> block_words b. ram s' a = ram tilemap0 a)"
    by (rule unpackTileMap_copies [OF tilemap0_ok(1) area]) (simp_all add: tilemap0_ok COMPRESSION_NONE_def)
  then show ?thesis unfolding cells by (metis (no_types, lifting))
qed

text \<open>
  The sizes of the allocations are computed with 16 bits: a tile set of 2048 tiles gets a block with
  room for its header only.
\<close>

lemma allocateTileSetEx_wrap:
  "\<exists>s'. allocateTileSetEx 2048 tilemap0 = Some (2, s') \<and> tileset_numTile 2 (ram s') = 2048
     \<and> tileset_tiles 2 (ram s') = 6 \<and> ram s' 1 = 11 \<and> heapEnd s' = 9"
  by (simp add: allocateTileSetEx_def MEM_alloc_def sizeof_TileSet_def adjsize_def Let_def MEM_take_def USED_def tilemap0_def
      tileset_numTile_def tileset_tiles_def store_ptr_def store32_def load_ptr_def load32_def)

end
