(* ===== verification/Tiles.thy ===== *)
theory Tiles
  imports DmaQueue Resources Maths
begin

text \<open>
  Tiles and tile maps, \<open>src/vdp_tile.c\<close>: loading tile data, filling and clearing tile maps, and
  drawing rectangles, rows and columns of tile map data with any transfer method. \<open>debug\<close> is the
  build switch \<open>LIB_LOG_LEVEL >= LOG_LEVEL_ERROR\<close>, which also guards some early returns. Waiting for
  the completion of a DMA has no effect on the state of the program.
\<close>

section \<open>Tile data\<close>

datatype VDPPlane = BG_A | BG_B | WINDOW

definition byte_addr :: "ptr \<Rightarrow> u32" where
  "byte_addr p = of_nat (2 * p)"

definition VDP_loadTileData :: "ptr \<Rightarrow> u16 \<Rightarrow> u16 \<Rightarrow> TransferMethod \<Rightarrow> 'a dma_st_scheme \<Rightarrow> 'a dma_st_scheme" where
  "VDP_loadTileData data index num tm s = snd (DMA_transfer tm DMA_VRAM (byte_addr data) (index * 32) (num * 16) 2 s)"

definition VDP_loadFontData :: "ptr \<Rightarrow> u16 \<Rightarrow> TransferMethod \<Rightarrow> 'a dma_st_scheme \<Rightarrow> 'a dma_st_scheme" where
  "VDP_loadFontData font len tm s = VDP_loadTileData font (TILE_FONT_INDEX s) len tm s"

definition VDP_loadTileSet ::
  "bool \<Rightarrow> unpackers \<Rightarrow> ptr \<Rightarrow> u16 \<Rightarrow> TransferMethod \<Rightarrow> 'a dma_st_scheme \<Rightarrow> (bool \<times> 'a dma_st_scheme) option" where
  "VDP_loadTileSet debug up tileset index tm s =
    (if res_compression tileset (ram s) \<noteq> COMPRESSION_NONE then do {
       (t, s) \<leftarrow> unpackTileSet up tileset NULL s;
       if t = NULL then Some (False, s)
       else Some (True, MEM_free debug t (VDP_loadTileData (tileset_tiles t (ram s)) index (tileset_numTile t (ram s)) tm s)) }
     else Some (True, VDP_loadTileData (tileset_tiles tileset (ram s)) index (tileset_numTile tileset (ram s)) tm s))"

definition VDP_loadFont ::
  "bool \<Rightarrow> unpackers \<Rightarrow> ptr \<Rightarrow> TransferMethod \<Rightarrow> 'a dma_st_scheme \<Rightarrow> (bool \<times> 'a dma_st_scheme) option" where
  "VDP_loadFont debug up font tm s = VDP_loadTileSet debug up font (TILE_FONT_INDEX s) tm s"

text \<open>\<open>font_default\<close> is a resource of the library in ROM, known here by its address.\<close>

definition VDP_loadDefaultFont ::
  "bool \<Rightarrow> unpackers \<Rightarrow> ptr \<Rightarrow> TransferMethod \<Rightarrow> 'a dma_st_scheme \<Rightarrow> (bool \<times> 'a dma_st_scheme) option" where
  "VDP_loadDefaultFont debug up font_default tm s = VDP_loadFont debug up font_default tm s"

text \<open>\<open>VDP_loadBMPTileData\<close> is written in assembly and an argument here; \<open>data\<close> points to 32-bit values.\<close>

definition VDP_loadBMPTileDataEx ::
  "(ptr \<Rightarrow> u16 \<Rightarrow> u16 \<Rightarrow> u16 \<Rightarrow> u16 \<Rightarrow> 's \<Rightarrow> 's) \<Rightarrow> ptr \<Rightarrow> u16 \<Rightarrow> u16 \<Rightarrow> u16 \<Rightarrow> u16 \<Rightarrow> u16 \<Rightarrow> u16 \<Rightarrow> 's \<Rightarrow> 's" where
  "VDP_loadBMPTileDataEx VDP_loadBMPTileData data index x y w h bmp_w s =
     VDP_loadBMPTileData (data + 2 * unat (ucast x + mulu y bmp_w)) index w h bmp_w s"

definition VDP_fillTileData :: "u8 \<Rightarrow> u16 \<Rightarrow> u16 \<Rightarrow> 'a vdp_st_scheme \<Rightarrow> 'a vdp_st_scheme" where
  "VDP_fillTileData value index num s = DMA_doVRamFill (index * 32) (num * 32) value 1 s"

section \<open>Planes\<close>

definition VDP_getPlaneAddress :: "VDPPlane \<Rightarrow> u16 \<Rightarrow> u16 \<Rightarrow> 'a vdp_st_scheme \<Rightarrow> u16" where
  "VDP_getPlaneAddress plane x y s =
    (case plane of
       BG_A \<Rightarrow> bga_addr s + ((x AND (planeWidth s - 1)) + push_bit (unat (planeWidthSft s)) (y AND (planeHeight s - 1))) * 2
     | BG_B \<Rightarrow> bgb_addr s + ((x AND (planeWidth s - 1)) + push_bit (unat (planeWidthSft s)) (y AND (planeHeight s - 1))) * 2
     | WINDOW \<Rightarrow> window_addr s + ((x AND (windowWidth s - 1)) + push_bit (unat (windowWidthSft s)) (y AND (32 - 1))) * 2)"

text \<open>\<open>(plane == WINDOW)?windowWidth:planeWidth\<close> and \<open>(plane == WINDOW)?32:planeHeight\<close>\<close>

definition pwidth :: "VDPPlane \<Rightarrow> 'a vdp_st_scheme \<Rightarrow> u16" where
  "pwidth plane s = (if plane = WINDOW then windowWidth s else planeWidth s)"

definition pheight :: "VDPPlane \<Rightarrow> 'a vdp_st_scheme \<Rightarrow> u16" where
  "pheight plane s = (if plane = WINDOW then 32 else planeHeight s)"

definition VDP_clearTileMap :: "u16 \<Rightarrow> u16 \<Rightarrow> u16 \<Rightarrow> 'a vdp_st_scheme \<Rightarrow> 'a vdp_st_scheme" where
  "VDP_clearTileMap planeAddr ind num s = DMA_doVRamFill (planeAddr + ind * 2) (num * 2) 0 1 s"

text \<open>Four long writes per turn, and the words that remain.\<close>

fun fill_blocks :: "nat \<Rightarrow> u32 \<Rightarrow> 'a vdp_st_scheme \<Rightarrow> 'a vdp_st_scheme" where
  "fill_blocks 0 v s = s"
| "fill_blocks (Suc i) v s = fill_blocks i v (data_l v (data_l v (data_l v (data_l v s))))"

fun fill_words :: "nat \<Rightarrow> u16 \<Rightarrow> 'a vdp_st_scheme \<Rightarrow> 'a vdp_st_scheme" where
  "fill_words 0 v s = s"
| "fill_words (Suc i) v s = fill_words i v (data_w v s)"

definition tile32 :: "u16 \<Rightarrow> u32" where
  "tile32 tile = push_bit 16 (ucast tile) OR ucast tile"

definition VDP_fillTileMap :: "u16 \<Rightarrow> u16 \<Rightarrow> u16 \<Rightarrow> u16 \<Rightarrow> 'a vdp_st_scheme \<Rightarrow> 'a vdp_st_scheme" where
  "VDP_fillTileMap planeAddr tile ind num s =
    (let s = VDP_setAutoInc 2 s;
         addr = ucast planeAddr + ucast ind * 2 :: u32;
         s = ctrl_l (VDP_WRITE_VRAM_ADDR addr) s;
         s = fill_blocks (unat (drop_bit 3 num)) (tile32 tile) s
     in fill_words (unat (num AND 7)) tile s)"

definition VDP_setTileMapData ::
  "u16 \<Rightarrow> ptr \<Rightarrow> u16 \<Rightarrow> u16 \<Rightarrow> u16 \<Rightarrow> TransferMethod \<Rightarrow> 'a dma_st_scheme \<Rightarrow> 'a dma_st_scheme" where
  "VDP_setTileMapData planeAddr data ind num vramStep tm s =
     snd (DMA_transfer tm DMA_VRAM (byte_addr data) (planeAddr + ind * 2) num vramStep s)"

text \<open>
  \<open>baseor | (*src + baseinc)\<close>: the index and the palette of the base are added, its priority and its
  flip flags are set.
\<close>

definition TILE_INDEX_MASK :: u16 where [cfg]: "TILE_INDEX_MASK = 0x7FF"
definition TILE_ATTR_PALETTE_MASK :: u16 where [cfg]: "TILE_ATTR_PALETTE_MASK = 0x6000"
definition TILE_ATTR_PRIORITY_MASK :: u16 where [cfg]: "TILE_ATTR_PRIORITY_MASK = 0x8000"
definition TILE_ATTR_VFLIP_MASK :: u16 where [cfg]: "TILE_ATTR_VFLIP_MASK = 0x1000"
definition TILE_ATTR_HFLIP_MASK :: u16 where [cfg]: "TILE_ATTR_HFLIP_MASK = 0x800"

definition tile_ex :: "u16 \<Rightarrow> u16 \<Rightarrow> u16" where
  "tile_ex basetile v =
    (let baseinc = basetile AND (TILE_INDEX_MASK OR TILE_ATTR_PALETTE_MASK);
         baseor = basetile AND (TILE_ATTR_PRIORITY_MASK OR TILE_ATTR_VFLIP_MASK OR TILE_ATTR_HFLIP_MASK)
     in baseor OR (v + baseinc))"

text \<open>
  \<open>*pwdata = f(*src); src += step;\<close> to the data port, once and in the unrolled loop
  \<open>i = num >> 2; while (i--) \<dots>; i = num & 3; while (i--) \<dots>\<close>.
\<close>

definition out_word :: "(u16 \<Rightarrow> u16) \<Rightarrow> nat \<Rightarrow> ptr \<times> 'a vdp_st_scheme \<Rightarrow> ptr \<times> 'a vdp_st_scheme" where
  "out_word f step ps = (case ps of (src, s) \<Rightarrow> (src + step, data_w (f (ram s src)) s))"

definition out_unrolled :: "(u16 \<Rightarrow> u16) \<Rightarrow> nat \<Rightarrow> u16 \<Rightarrow> ptr \<Rightarrow> 'a vdp_st_scheme \<Rightarrow> 'a vdp_st_scheme" where
  "out_unrolled f step num src s =
    (let ps = ((\<lambda>ps. out_word f step (out_word f step (out_word f step (out_word f step ps)))) ^^ unat (drop_bit 2 num)) (src, s)
     in snd ((out_word f step ^^ unat (num AND 3)) ps))"

definition VDP_setTileMapDataEx ::
  "u16 \<Rightarrow> ptr \<Rightarrow> u16 \<Rightarrow> u16 \<Rightarrow> u16 \<Rightarrow> u16 \<Rightarrow> 'a vdp_st_scheme \<Rightarrow> 'a vdp_st_scheme" where
  "VDP_setTileMapDataEx planeAddr data basetile ind num vramStep s =
    (let s = VDP_setAutoInc (ucast vramStep) s;
         addr = planeAddr + ind * 2;
         s = ctrl_l (VDP_WRITE_VRAM_ADDR (ucast addr)) s
     in out_unrolled (tile_ex basetile) 1 num data s)"

definition VDP_setTileMapXY :: "VDPPlane \<Rightarrow> u16 \<Rightarrow> u16 \<Rightarrow> u16 \<Rightarrow> 'a vdp_st_scheme \<Rightarrow> 'a vdp_st_scheme" where
  "VDP_setTileMapXY plane tile x y s =
    (let addr = VDP_getPlaneAddress plane x y s
     in data_w tile (ctrl_l (VDP_WRITE_VRAM_ADDR (ucast addr)) s))"

fun fillRect_rows :: "nat \<Rightarrow> u16 \<Rightarrow> u16 \<Rightarrow> u16 \<Rightarrow> u16 \<Rightarrow> 'a vdp_st_scheme \<Rightarrow> 'a vdp_st_scheme" where
  "fillRect_rows 0 tile w width addr s = s"
| "fillRect_rows (Suc i) tile w width addr s =
    (let s = ctrl_l (VDP_WRITE_VRAM_ADDR (ucast addr)) s;
         s = fill_blocks (unat (drop_bit 3 w)) (tile32 tile) s;
         s = fill_words (unat (w AND 7)) tile s
     in fillRect_rows i tile w width (addr + width * 2) s)"

definition VDP_fillTileMapRect :: "VDPPlane \<Rightarrow> u16 \<Rightarrow> u16 \<Rightarrow> u16 \<Rightarrow> u16 \<Rightarrow> u16 \<Rightarrow> 'a vdp_st_scheme \<Rightarrow> 'a vdp_st_scheme" where
  "VDP_fillTileMapRect plane tile x y w h s =
    (let s = VDP_setAutoInc 2 s;
         addr = VDP_getPlaneAddress plane x y s;
         width = pwidth plane s
     in fillRect_rows (unat h) tile w width addr s)"

definition VDP_clearTileMapRect :: "VDPPlane \<Rightarrow> u16 \<Rightarrow> u16 \<Rightarrow> u16 \<Rightarrow> u16 \<Rightarrow> 'a vdp_st_scheme \<Rightarrow> 'a vdp_st_scheme" where
  "VDP_clearTileMapRect plane x y w h s = VDP_fillTileMapRect plane 0 x y w h s"

text \<open>\<open>while (j--) *pwdata = tile++;\<close>\<close>

fun inc_words :: "nat \<Rightarrow> u16 \<Rightarrow> 'a vdp_st_scheme \<Rightarrow> u16 \<times> 'a vdp_st_scheme" where
  "inc_words 0 tile s = (tile, s)"
| "inc_words (Suc j) tile s = inc_words j (tile + 1) (data_w tile s)"

fun fillRectInc_rows :: "nat \<Rightarrow> u16 \<Rightarrow> u16 \<Rightarrow> u16 \<Rightarrow> u16 \<Rightarrow> 'a vdp_st_scheme \<Rightarrow> 'a vdp_st_scheme" where
  "fillRectInc_rows 0 tile w width addr s = s"
| "fillRectInc_rows (Suc i) tile w width addr s =
    (let s = ctrl_l (VDP_WRITE_VRAM_ADDR (ucast addr)) s;
         (tile, s) = inc_words (unat w) tile s
     in fillRectInc_rows i tile w width (addr + width * 2) s)"

definition VDP_fillTileMapRectInc :: "VDPPlane \<Rightarrow> u16 \<Rightarrow> u16 \<Rightarrow> u16 \<Rightarrow> u16 \<Rightarrow> u16 \<Rightarrow> 'a vdp_st_scheme \<Rightarrow> 'a vdp_st_scheme" where
  "VDP_fillTileMapRectInc plane basetile x y w h s =
    (let s = VDP_setAutoInc 2 s;
         addr = VDP_getPlaneAddress plane x y s;
         width = pwidth plane s
     in fillRectInc_rows (unat h) basetile w width addr s)"

section \<open>Rows and columns\<close>

text \<open>\<open>*d++ = f(*s); s += step;\<close> once and in the unrolled loop.\<close>

definition prep_word :: "(u16 \<Rightarrow> u16) \<Rightarrow> nat \<Rightarrow> ptr \<times> ptr \<times> ram \<Rightarrow> ptr \<times> ptr \<times> ram" where
  "prep_word f step dsm = (case dsm of (d, src, m) \<Rightarrow> (d + 1, src + step, m(d := f (m src))))"

definition prep_unrolled :: "(u16 \<Rightarrow> u16) \<Rightarrow> nat \<Rightarrow> u16 \<Rightarrow> ptr \<Rightarrow> ptr \<Rightarrow> ram \<Rightarrow> ram" where
  "prep_unrolled f step num d src m =
    (let dsm = ((\<lambda>x. prep_word f step (prep_word f step (prep_word f step (prep_word f step x)))) ^^ unat (drop_bit 2 num)) (d, src, m)
     in snd (snd ((prep_word f step ^^ unat (num AND 3)) dsm)))"

definition prepareTileMapDataColumn :: "ptr \<Rightarrow> u16 \<Rightarrow> ptr \<Rightarrow> u16 \<Rightarrow> ram \<Rightarrow> ram" where
  "prepareTileMapDataColumn dest height data wm m = prep_unrolled (\<lambda>v. v) (unat wm) height dest data m"

definition prepareTileMapDataRowEx :: "ptr \<Rightarrow> u16 \<Rightarrow> ptr \<Rightarrow> u16 \<Rightarrow> ram \<Rightarrow> ram" where
  "prepareTileMapDataRowEx dest width data basetile m = prep_unrolled (tile_ex basetile) 1 width dest data m"

definition prepareTileMapDataColumnEx :: "ptr \<Rightarrow> u16 \<Rightarrow> ptr \<Rightarrow> u16 \<Rightarrow> u16 \<Rightarrow> ram \<Rightarrow> ram" where
  "prepareTileMapDataColumnEx dest height data basetile wm m = prep_unrolled (tile_ex basetile) (unat wm) height dest data m"

text \<open>
  The two ways to go through the temporary buffer of the DMA queue: queue a transfer from it, or
  transfer at once; \<open>prep\<close> fills the buffer. The early return is part of the debug build only, and
  the second way has none.
\<close>

definition queue_prepared ::
  "bool \<Rightarrow> (ptr \<Rightarrow> ram \<Rightarrow> ram) \<Rightarrow> u16 \<Rightarrow> u16 \<Rightarrow> u16 \<Rightarrow> 'a dma_st_scheme \<Rightarrow> 'a dma_st_scheme" where
  "queue_prepared debug prep addr n step s =
    (let (buf, s) = DMA_allocateAndQueueDma DMA_VRAM addr n step s in
     if debug \<and> buf = NULL then s else s\<lparr>ram := prep buf (ram s)\<rparr>)"

definition dma_prepared ::
  "(ptr \<Rightarrow> ram \<Rightarrow> ram) \<Rightarrow> u16 \<Rightarrow> u16 \<Rightarrow> u16 \<Rightarrow> 'a dma_st_scheme \<Rightarrow> 'a dma_st_scheme" where
  "dma_prepared prep addr n step s =
    (let (buf, s) = DMA_allocateTemp n s;
         s = s\<lparr>ram := prep buf (ram s)\<rparr>;
         s = DMA_doDmaFast DMA_VRAM (byte_addr buf) addr n step s
     in DMA_releaseTemp n s)"

definition setTileMapDataRow ::
  "VDPPlane \<Rightarrow> ptr \<Rightarrow> u16 \<Rightarrow> u16 \<Rightarrow> u16 \<Rightarrow> TransferMethod \<Rightarrow> 'a dma_st_scheme \<Rightarrow> 'a dma_st_scheme" where
  "setTileMapDataRow plane data row x w tm s =
     snd (DMA_transfer tm DMA_VRAM (byte_addr data) (VDP_getPlaneAddress plane x row s) w 2 s)"

definition setTileMapDataRowEx ::
  "bool \<Rightarrow> VDPPlane \<Rightarrow> ptr \<Rightarrow> u16 \<Rightarrow> u16 \<Rightarrow> u16 \<Rightarrow> u16 \<Rightarrow> TransferMethod \<Rightarrow> 'a dma_st_scheme \<Rightarrow> 'a dma_st_scheme" where
  "setTileMapDataRowEx debug plane data basetile row x w tm s =
    (let addr = VDP_getPlaneAddress plane x row s;
         prep = (\<lambda>buf. prepareTileMapDataRowEx buf w data basetile)
     in if tm = DMA_QUEUE \<or> tm = DMA_QUEUE_COPY then queue_prepared debug prep addr w 2 s
        else if tm = DMA \<and> w > 16 then dma_prepared prep addr w 2 s
        else VDP_setTileMapDataEx addr data basetile 0 w 2 s)"

text \<open>\<open>(xAdj + w) > pw\<close> is computed with 32 bits.\<close>

definition over :: "u16 \<Rightarrow> u16 \<Rightarrow> u16 \<Rightarrow> bool" where
  "over a n lim \<longleftrightarrow> unat a + unat n > unat lim"

definition VDP_setTileMapDataRow ::
  "VDPPlane \<Rightarrow> ptr \<Rightarrow> u16 \<Rightarrow> u16 \<Rightarrow> u16 \<Rightarrow> TransferMethod \<Rightarrow> 'a dma_st_scheme \<Rightarrow> 'a dma_st_scheme" where
  "VDP_setTileMapDataRow plane data row x w tm s =
    (let pw = pwidth plane s; xAdj = x AND (pw - 1) in
     if over xAdj w pw then
       (let w1 = pw - xAdj;
            s = setTileMapDataRow plane data row xAdj w1 tm s
        in setTileMapDataRow plane (data + unat w1) row 0 (w - w1) tm s)
     else setTileMapDataRow plane data row xAdj w tm s)"

definition VDP_setTileMapDataRowEx ::
  "bool \<Rightarrow> VDPPlane \<Rightarrow> ptr \<Rightarrow> u16 \<Rightarrow> u16 \<Rightarrow> u16 \<Rightarrow> u16 \<Rightarrow> TransferMethod \<Rightarrow> 'a dma_st_scheme \<Rightarrow> 'a dma_st_scheme" where
  "VDP_setTileMapDataRowEx debug plane data basetile row x w tm s =
    (let pw = pwidth plane s; xAdj = x AND (pw - 1) in
     if over xAdj w pw then
       (let w1 = pw - xAdj;
            s = setTileMapDataRowEx debug plane data basetile row xAdj w1 tm s
        in setTileMapDataRowEx debug plane (data + unat w1) basetile row 0 (w - w1) tm s)
     else setTileMapDataRowEx debug plane data basetile row xAdj w tm s)"

definition setTileMapDataColumn ::
  "bool \<Rightarrow> VDPPlane \<Rightarrow> ptr \<Rightarrow> u16 \<Rightarrow> u16 \<Rightarrow> u16 \<Rightarrow> u16 \<Rightarrow> TransferMethod \<Rightarrow> 'a dma_st_scheme \<Rightarrow> 'a dma_st_scheme" where
  "setTileMapDataColumn debug plane data column y h wm tm s =
    (let addr = VDP_getPlaneAddress plane column y s;
         pw = pwidth plane s;
         prep = (\<lambda>buf. prepareTileMapDataColumn buf h data wm)
     in if tm = DMA_QUEUE \<or> tm = DMA_QUEUE_COPY then queue_prepared debug prep addr h (pw * 2) s
        else if tm = DMA \<and> h > 16 then dma_prepared prep addr h (pw * 2) s
        else
          (let s = VDP_setAutoInc (ucast (pw * 2)) s;
               s = ctrl_l (VDP_WRITE_VRAM_ADDR (ucast addr)) s
           in out_unrolled (\<lambda>v. v) (unat wm) h data s))"

definition setTileMapDataColumnEx ::
  "bool \<Rightarrow> VDPPlane \<Rightarrow> ptr \<Rightarrow> u16 \<Rightarrow> u16 \<Rightarrow> u16 \<Rightarrow> u16 \<Rightarrow> u16 \<Rightarrow> TransferMethod \<Rightarrow> 'a dma_st_scheme \<Rightarrow> 'a dma_st_scheme" where
  "setTileMapDataColumnEx debug plane data basetile column y h wm tm s =
    (let addr = VDP_getPlaneAddress plane column y s;
         pw = pwidth plane s;
         prep = (\<lambda>buf. prepareTileMapDataColumnEx buf h data basetile wm)
     in if tm = DMA_QUEUE \<or> tm = DMA_QUEUE_COPY then queue_prepared debug prep addr h (pw * 2) s
        else if tm = DMA \<and> h > 16 then dma_prepared prep addr h (pw * 2) s
        else
          (let s = VDP_setAutoInc (ucast (pw * 2)) s;
               s = ctrl_l (VDP_WRITE_VRAM_ADDR (ucast addr)) s
           in out_unrolled (tile_ex basetile) (unat wm) h data s))"

definition VDP_setTileMapDataColumnFast ::
  "VDPPlane \<Rightarrow> ptr \<Rightarrow> u16 \<Rightarrow> u16 \<Rightarrow> u16 \<Rightarrow> TransferMethod \<Rightarrow> 'a dma_st_scheme \<Rightarrow> 'a dma_st_scheme" where
  "VDP_setTileMapDataColumnFast plane data column y h tm s =
    (let addr = VDP_getPlaneAddress plane column y s;
         pw = pwidth plane s; ph = pheight plane s; yAdj = y AND (ph - 1)
     in if over yAdj h ph then
          (let h1 = ph - yAdj;
               s = snd (DMA_transfer tm DMA_VRAM (byte_addr data) addr h1 (pw * 2) s)
           in snd (DMA_transfer tm DMA_VRAM (byte_addr (data + unat h1)) (VDP_getPlaneAddress plane column 0 s) (h - h1) (pw * 2) s))
        else snd (DMA_transfer tm DMA_VRAM (byte_addr data) addr h (pw * 2) s))"

definition VDP_setTileMapDataColumn ::
  "bool \<Rightarrow> VDPPlane \<Rightarrow> ptr \<Rightarrow> u16 \<Rightarrow> u16 \<Rightarrow> u16 \<Rightarrow> u16 \<Rightarrow> TransferMethod \<Rightarrow> 'a dma_st_scheme \<Rightarrow> 'a dma_st_scheme" where
  "VDP_setTileMapDataColumn debug plane data column y h wm tm s =
    (let ph = pheight plane s; yAdj = y AND (ph - 1) in
     if over yAdj h ph then
       (let h1 = ph - yAdj;
            s = setTileMapDataColumn debug plane data column yAdj h1 wm tm s
        in setTileMapDataColumn debug plane (data + unat (mulu wm h1)) column 0 (h - h1) wm tm s)
     else setTileMapDataColumn debug plane data column yAdj h wm tm s)"

definition VDP_setTileMapDataColumnEx ::
  "bool \<Rightarrow> VDPPlane \<Rightarrow> ptr \<Rightarrow> u16 \<Rightarrow> u16 \<Rightarrow> u16 \<Rightarrow> u16 \<Rightarrow> u16 \<Rightarrow> TransferMethod \<Rightarrow> 'a dma_st_scheme \<Rightarrow> 'a dma_st_scheme" where
  "VDP_setTileMapDataColumnEx debug plane data basetile column y h wm tm s =
    (let ph = pheight plane s; yAdj = y AND (ph - 1) in
     if over yAdj h ph then
       (let h1 = ph - yAdj;
            s = setTileMapDataColumnEx debug plane data basetile column yAdj h1 wm tm s
        in setTileMapDataColumnEx debug plane (data + unat (mulu wm h1)) basetile column 0 (h - h1) wm tm s)
     else setTileMapDataColumnEx debug plane data basetile column yAdj h wm tm s)"

section \<open>Rectangles\<close>

text \<open>The loops over the columns and over the rows; \<open>draw\<close> draws one of them.\<close>

fun rect_columns :: "nat \<Rightarrow> (ptr \<Rightarrow> u16 \<Rightarrow> 's \<Rightarrow> 's) \<Rightarrow> ptr \<Rightarrow> u16 \<Rightarrow> 's \<Rightarrow> 's" where
  "rect_columns 0 draw src col s = s"
| "rect_columns (Suc i) draw src col s = rect_columns i draw (src + 1) (col + 1) (draw src col s)"

fun rect_rows :: "nat \<Rightarrow> (ptr \<Rightarrow> u16 \<Rightarrow> 's \<Rightarrow> 's) \<Rightarrow> nat \<Rightarrow> ptr \<Rightarrow> u16 \<Rightarrow> 's \<Rightarrow> 's" where
  "rect_rows 0 draw wm src row s = s"
| "rect_rows (Suc i) draw wm src row s = rect_rows i draw wm (src + wm) (row + 1) (draw src row s)"

text \<open>How a length is split at the edge of a plane: \<open>h1\<close>, \<open>h2\<close> of the code.\<close>

definition split_len :: "u16 \<Rightarrow> u16 \<Rightarrow> u16 \<Rightarrow> u16 \<times> u16" where
  "split_len adj n lim = (if over adj n lim then (lim - adj, n - (lim - adj)) else (n, 0))"

definition VDP_setTileMapDataRect ::
  "bool \<Rightarrow> VDPPlane \<Rightarrow> ptr \<Rightarrow> u16 \<Rightarrow> u16 \<Rightarrow> u16 \<Rightarrow> u16 \<Rightarrow> u16 \<Rightarrow> TransferMethod \<Rightarrow> 'a dma_st_scheme \<Rightarrow> 'a dma_st_scheme" where
  "VDP_setTileMapDataRect debug plane data x y w h wm tm s =
    (let pw = pwidth plane s in
     if pw < 128 \<and> w < h div 2 then
       (let ph = pheight plane s;
            yAdj = y AND (ph - 1);
            (h1, h2) = split_len yAdj h ph;
            off = (if over yAdj h ph then mulu wm h1 else 0)
        in rect_columns (unat w) (\<lambda>src col s.
             let s = setTileMapDataColumn debug plane src col yAdj h1 wm tm s in
             if h2 \<noteq> 0 then setTileMapDataColumn debug plane (src + unat off) col 0 h2 wm tm s else s) data x s)
     else
       (let xAdj = x AND (pw - 1);
            (w1, w2) = split_len xAdj w pw
        in rect_rows (unat h) (\<lambda>src row s.
             let s = setTileMapDataRow plane src row xAdj w1 tm s in
             if w2 \<noteq> 0 then setTileMapDataRow plane (src + unat w1) row 0 w2 tm s else s) (unat wm) data y s))"

definition VDP_setTileMapDataRectEx ::
  "bool \<Rightarrow> VDPPlane \<Rightarrow> ptr \<Rightarrow> u16 \<Rightarrow> u16 \<Rightarrow> u16 \<Rightarrow> u16 \<Rightarrow> u16 \<Rightarrow> u16 \<Rightarrow> TransferMethod \<Rightarrow> 'a dma_st_scheme \<Rightarrow> 'a dma_st_scheme" where
  "VDP_setTileMapDataRectEx debug plane data basetile x y w h wm tm s =
    (let pw = pwidth plane s in
     if pw < 128 \<and> w < h div 2 then
       (let ph = pheight plane s;
            yAdj = y AND (ph - 1);
            (h1, h2) = split_len yAdj h ph;
            off = (if over yAdj h ph then mulu wm h1 else 0)
        in rect_columns (unat w) (\<lambda>src col s.
             let s = setTileMapDataColumnEx debug plane src basetile col yAdj h1 wm tm s in
             if h2 \<noteq> 0 then setTileMapDataColumnEx debug plane (src + unat off) basetile col 0 h2 wm tm s else s) data x s)
     else
       (let xAdj = x AND (pw - 1);
            (w1, w2) = split_len xAdj w pw
        in rect_rows (unat h) (\<lambda>src row s.
             let s = setTileMapDataRowEx debug plane src basetile row xAdj w1 tm s in
             if w2 \<noteq> 0 then setTileMapDataRowEx debug plane (src + unat w1) basetile row 0 w2 tm s else s) (unat wm) data y s))"

section \<open>Tile maps\<close>

text \<open>
  The functions on a \<open>TileMap\<close> resource: a compressed one is unpacked into the heap first, and
  released after its cells were drawn. \<open>draw\<close> gets the address of the first cell and the width.
\<close>

definition with_tilemap ::
  "bool \<Rightarrow> unpackers \<Rightarrow> ptr \<Rightarrow> u32 \<Rightarrow> (ptr \<Rightarrow> u16 \<Rightarrow> 'a dma_st_scheme \<Rightarrow> 'a dma_st_scheme) \<Rightarrow>
     'a dma_st_scheme \<Rightarrow> (bool \<times> 'a dma_st_scheme) option" where
  "with_tilemap debug up tilemap offset draw s =
    (if res_compression tilemap (ram s) \<noteq> COMPRESSION_NONE then do {
       (m, s) \<leftarrow> unpackTileMap up tilemap NULL s;
       if m = NULL then Some (False, s)
       else Some (True, MEM_free debug m (draw (tilemap_tilemap m (ram s) + unat offset) (tilemap_w m (ram s)) s)) }
     else Some (True, draw (tilemap_tilemap tilemap (ram s) + unat offset) (tilemap_w tilemap (ram s)) s))"

definition VDP_setTileMap ::
  "bool \<Rightarrow> unpackers \<Rightarrow> VDPPlane \<Rightarrow> ptr \<Rightarrow> u16 \<Rightarrow> u16 \<Rightarrow> u16 \<Rightarrow> u16 \<Rightarrow> TransferMethod \<Rightarrow> 'a dma_st_scheme \<Rightarrow> (bool \<times> 'a dma_st_scheme) option" where
  "VDP_setTileMap debug up plane tilemap x y w h tm s =
     with_tilemap debug up tilemap (mulu y (tilemap_w tilemap (ram s)) + ucast x)
       (\<lambda>data wm. VDP_setTileMapDataRect debug plane data x y w h wm tm) s"

definition VDP_setTileMapEx ::
  "bool \<Rightarrow> unpackers \<Rightarrow> VDPPlane \<Rightarrow> ptr \<Rightarrow> u16 \<Rightarrow> u16 \<Rightarrow> u16 \<Rightarrow> u16 \<Rightarrow> u16 \<Rightarrow> u16 \<Rightarrow> u16 \<Rightarrow> TransferMethod \<Rightarrow> 'a dma_st_scheme \<Rightarrow> (bool \<times> 'a dma_st_scheme) option" where
  "VDP_setTileMapEx debug up plane tilemap basetile xp yp x y w h tm s =
     with_tilemap debug up tilemap (mulu y (tilemap_w tilemap (ram s)) + ucast x)
       (\<lambda>data wm. VDP_setTileMapDataRectEx debug plane data basetile xp yp w h wm tm) s"

definition VDP_setTileMapRow ::
  "bool \<Rightarrow> unpackers \<Rightarrow> VDPPlane \<Rightarrow> ptr \<Rightarrow> u16 \<Rightarrow> u16 \<Rightarrow> u16 \<Rightarrow> TransferMethod \<Rightarrow> 'a dma_st_scheme \<Rightarrow> (bool \<times> 'a dma_st_scheme) option" where
  "VDP_setTileMapRow debug up plane tilemap row x w tm s =
     with_tilemap debug up tilemap (mulu row (tilemap_w tilemap (ram s)) + ucast x)
       (\<lambda>data wm. VDP_setTileMapDataRow plane data row x w tm) s"

definition VDP_setTileMapRowEx ::
  "bool \<Rightarrow> unpackers \<Rightarrow> VDPPlane \<Rightarrow> ptr \<Rightarrow> u16 \<Rightarrow> u16 \<Rightarrow> u16 \<Rightarrow> u16 \<Rightarrow> u16 \<Rightarrow> TransferMethod \<Rightarrow> 'a dma_st_scheme \<Rightarrow> (bool \<times> 'a dma_st_scheme) option" where
  "VDP_setTileMapRowEx debug up plane tilemap basetile row x y w tm s =
     with_tilemap debug up tilemap (mulu y (tilemap_w tilemap (ram s)) + ucast x)
       (\<lambda>data wm. VDP_setTileMapDataRowEx debug plane data basetile row x w tm) s"

definition VDP_setTileMapColumn ::
  "bool \<Rightarrow> unpackers \<Rightarrow> VDPPlane \<Rightarrow> ptr \<Rightarrow> u16 \<Rightarrow> u16 \<Rightarrow> u16 \<Rightarrow> TransferMethod \<Rightarrow> 'a dma_st_scheme \<Rightarrow> (bool \<times> 'a dma_st_scheme) option" where
  "VDP_setTileMapColumn debug up plane tilemap column y h tm s =
     with_tilemap debug up tilemap (mulu y (tilemap_w tilemap (ram s)) + ucast column)
       (\<lambda>data wm. VDP_setTileMapDataColumn debug plane data column y h wm tm) s"

definition VDP_setTileMapColumnEx ::
  "bool \<Rightarrow> unpackers \<Rightarrow> VDPPlane \<Rightarrow> ptr \<Rightarrow> u16 \<Rightarrow> u16 \<Rightarrow> u16 \<Rightarrow> u16 \<Rightarrow> u16 \<Rightarrow> TransferMethod \<Rightarrow> 'a dma_st_scheme \<Rightarrow> (bool \<times> 'a dma_st_scheme) option" where
  "VDP_setTileMapColumnEx debug up plane tilemap basetile column x y h tm s =
     with_tilemap debug up tilemap (mulu y (tilemap_w tilemap (ram s)) + ucast x)
       (\<lambda>data wm. VDP_setTileMapDataColumnEx debug plane data basetile column y h wm tm) s"

definition VDP_setMap ::
  "bool \<Rightarrow> unpackers \<Rightarrow> VDPPlane \<Rightarrow> ptr \<Rightarrow> u16 \<Rightarrow> u16 \<Rightarrow> u16 \<Rightarrow> 'a dma_st_scheme \<Rightarrow> (bool \<times> 'a dma_st_scheme) option" where
  "VDP_setMap debug up plane tilemap basetile x y s =
     VDP_setTileMapEx debug up plane tilemap basetile x y 0 0 (tilemap_w tilemap (ram s)) (tilemap_h tilemap (ram s)) CPU s"

definition VDP_setMapEx ::
  "bool \<Rightarrow> unpackers \<Rightarrow> VDPPlane \<Rightarrow> ptr \<Rightarrow> u16 \<Rightarrow> u16 \<Rightarrow> u16 \<Rightarrow> u16 \<Rightarrow> u16 \<Rightarrow> u16 \<Rightarrow> u16 \<Rightarrow> 'a dma_st_scheme \<Rightarrow> (bool \<times> 'a dma_st_scheme) option" where
  "VDP_setMapEx debug up plane tilemap basetile x y xm ym wm hm s =
     VDP_setTileMapEx debug up plane tilemap basetile x y xm ym wm hm CPU s"

end
