(* ===== verification/TileDraw.thy ===== *)
theory TileDraw
  imports Tiles
begin

text \<open>
  What drawing on a plane puts into the video memory. The chip model of the control port is extended
  by the address register and the video memory, so that the words written to the data port have an
  effect; the lemmas follow the words of a row, of a column and of a rectangle of tiles to the cells
  of the plane. The interface between the drawing of single rows and columns and that of rectangles
  is the locale \<open>plane_drawer\<close>.
\<close>

section \<open>Video memory\<close>

text \<open>
  A command sets the address and selects what is accessed; the code 000001 is a write to the video
  memory. A word written to the data port then goes to the address, which is advanced by register
  15. Addresses are even byte addresses, and a cell of the memory is a word.
\<close>

record vram =
  v_addr :: u16
  v_write :: bool
  v_mem :: "u16 \<Rightarrow> u16"

definition vram_ctrl :: "u16 \<Rightarrow> chip \<times> vram \<Rightarrow> chip \<times> vram" where
  "vram_ctrl w cv = (case cv of (c, v) \<Rightarrow>
     (chip_word w c,
      case pend c of
        None \<Rightarrow> v
      | Some hi \<Rightarrow> 
          v\<lparr>v_addr := of_nat (unat hi mod 16384 + (unat w mod 4) * 16384),
            v_write := (unat hi div 16384 = 1 \<and> unat w div 16 mod 16 = 0)\<rparr>))"

definition vram_data :: "u16 \<Rightarrow> chip \<times> vram \<Rightarrow> chip \<times> vram" where
  "vram_data w cv = (case cv of (c, v) \<Rightarrow>
     (c\<lparr>pend := None\<rparr>,
      if v_write v then v\<lparr>v_mem := (v_mem v)(v_addr v := w), v_addr := v_addr v + ucast (regs c 0xF)\<rparr> else v))"

fun vram_io :: "io \<Rightarrow> chip \<times> vram \<Rightarrow> chip \<times> vram" where
  "vram_io (CtrlW w) cv = vram_ctrl w cv"
| "vram_io (CtrlL l) cv = vram_ctrl (ucast l) (vram_ctrl (ucast (drop_bit 16 l)) cv)"
| "vram_io (DataW w) cv = vram_data w cv"
| "vram_io (DataL l) cv = vram_data (ucast l) (vram_data (ucast (drop_bit 16 l)) cv)"
| "vram_io (BusW w) cv = cv"
| "vram_io (ResetW w) cv = cv"

text \<open>The memory after the accesses \<open>es\<close>, from the state \<open>c\<close> of the chip.\<close>

definition vram_after :: "io list \<Rightarrow> chip \<Rightarrow> vram \<Rightarrow> vram" where
  "vram_after es c v = snd (fold vram_io es (c, v))"

lemma fst_vram_io [simp]: "fst (vram_io e cv) = chip_io e (fst cv)"
  by (cases e; cases cv) (simp_all add: vram_ctrl_def vram_data_def)

lemma fst_fold_vram: "fst (fold vram_io es cv) = fold chip_io es (fst cv)"
  by (induction es arbitrary: cv) simp_all

lemma vram_after_append:
  "vram_after (es @ fs) c v = vram_after fs (fold chip_io es c) (vram_after es c v)"
proof -
  have "fold vram_io es (c, v) = (fold chip_io es c, vram_after es c v)"
    by (simp add: vram_after_def prod_eq_iff fst_fold_vram)
  then show ?thesis by (simp add: vram_after_def)
qed

text \<open>Words put at addresses, one after the other.\<close>

definition puts :: "(u16 \<times> u16) list \<Rightarrow> (u16 \<Rightarrow> u16) \<Rightarrow> u16 \<Rightarrow> u16" where
  "puts ws m = fold (\<lambda>(a, w) m. m(a := w)) ws m"

lemma puts_append [simp]: "puts (ws @ us) m = puts us (puts ws m)"
  by (simp add: puts_def)

lemma puts_Nil [simp]: "puts [] m = m"
  by (simp add: puts_def)

lemma puts_Cons [simp]: "puts ((a, w) # ws) m = puts ws (m(a := w))"
  by (simp add: puts_def)

lemma puts_other: "a \<notin> fst ` set ws \<Longrightarrow> puts ws m a = m a"
proof (induction ws arbitrary: m)
  case (Cons p ws)
  then show ?case by (cases p) auto
qed simp

lemma puts_in:
  assumes "(a, w) \<in> set ws" "\<And>u. (a, u) \<in> set ws \<Longrightarrow> u = w"
  shows "puts ws m a = w"
  using assms
proof (induction ws arbitrary: m rule: rev_induct)
  case (snoc p ws)
  obtain b u where p: "p = (b, u)" by fastforce
  show ?case
  proof (cases "b = a")
    case True
    then have "u = w" using p by (intro snoc.prems(2)) simp
    then show ?thesis using True p by simp
  next
    case False
    then have "(a, w) \<in> set ws" using snoc.prems(1) p by simp
    moreover have "v = w" if "(a, v) \<in> set ws" for v using that by (intro snoc.prems(2)) simp
    ultimately have "puts ws m a = w" by (rule snoc.IH)
    then show ?thesis using False p by simp
  qed
qed simp

text \<open>The addresses of a run of words.\<close>

fun run :: "u16 \<Rightarrow> u16 \<Rightarrow> u16 list \<Rightarrow> (u16 \<times> u16) list" where
  "run a step [] = []"
| "run a step (w # ws) = (a, w) # run (a + step) step ws"

lemma run_map: "run a step (map g [0 ..< n]) = map (\<lambda>k. (a + step * of_nat k, g k)) [0 ..< n]"
proof (induction n arbitrary: a g)
  case (Suc n)
  have u: "[0 ..< Suc n] = 0 # map Suc [0 ..< n]" by (simp only: upt_conv_Cons [OF zero_less_Suc] map_Suc_upt)
  have "run a step (map g [0 ..< Suc n]) = (a, g 0) # run (a + step) step (map (g \<circ> Suc) [0 ..< n])"
    unfolding u list.map map_map by (simp only: run.simps)
  also have "\<dots> = (a, g 0) # map (\<lambda>k. (a + step + step * of_nat k, (g \<circ> Suc) k)) [0 ..< n]" by (simp only: Suc.IH)
  also have "\<dots> = map (\<lambda>k. (a + step * of_nat k, g k)) [0 ..< Suc n]"
    unfolding u list.map map_map by (auto simp: distrib_left add.assoc)
  finally show ?case .
qed simp

lemma data_run:
  assumes "list_all is_data es" "v_write v"
  shows "v_mem (vram_after es c v) = puts (run (v_addr v) (ucast (regs c 0xF)) (data_words es)) (v_mem v)"
  using assms
proof (induction es arbitrary: c v)
  case (Cons e es)
  then show ?case by (cases e) (simp_all add: vram_after_def vram_data_def)
qed (simp add: vram_after_def)

lemma write_command:
  assumes "pend c = None"
  shows "vram_io (CtrlL (VDP_WRITE_VRAM_ADDR (ucast (a :: u16)))) (c, v) = (c, v\<lparr>v_addr := a, v_write := True\<rparr>)"
proof -
  let ?a = "ucast a :: u32"
  define hi where "hi = (ucast (0x4000 + (?a AND 0x3FFF)) :: u16)"
  define lo where "lo = (ucast (drop_bit 14 ?a) :: u16)"
  have "unat a mod 16384 < 16384" by simp
  then have h: "unat (0x4000 + (?a AND 0x3FFF)) = 0x4000 + unat a mod 16384"
    using unat_plus_small [of "0x4000" "?a AND 0x3FFF"] by (simp add: addr_parts)
  then have hi: "unat hi = 0x4000 + unat a mod 16384" using \<open>unat a mod 16384 < 16384\<close> by (simp add: hi_def unat_ucast_mod)
  have d: "unat a div 16384 < 4" using unat_u16_lt [of a] by simp
  then have lo: "unat lo = unat a div 16384" by (simp add: lo_def unat_ucast_mod addr_parts)
  have c: "VDP_WRITE_VRAM_ADDR ?a = push_bit 16 (0x4000 + (?a AND 0x3FFF)) + drop_bit 14 ?a" by (simp add: VDP_WRITE_VRAM_ADDR_def)
  have "unat (0x4000 + (?a AND 0x3FFF)) < 65536" "unat (drop_bit 14 ?a) < 65536"
    using h \<open>unat a mod 16384 < 16384\<close> d by (simp_all add: addr_parts)
  from cmd_words [OF this] have w: "(ucast (drop_bit 16 (VDP_WRITE_VRAM_ADDR ?a)) :: u16) = hi" "(ucast (VDP_WRITE_VRAM_ADDR ?a) :: u16) = lo"
    unfolding c hi_def lo_def .
  have "hi AND 0xC000 \<noteq> 0x8000" using hi \<open>unat a mod 16384 < 16384\<close> by (simp add: reg_word_iff)
  moreover have "\<not> bit lo 7" using d lo by (simp add: bit_unat_word)
  then have "lo AND 0x80 = 0" using and_exp_eq_0_iff_not_bit [of lo 7] by simp
  moreover have "unat hi div 16384 = 1" "unat hi mod 16384 = unat a mod 16384" "unat lo mod 4 = unat a div 16384" "unat lo div 16 = 0"
    using hi lo d \<open>unat a mod 16384 < 16384\<close> by (auto intro!: div_nat_eqI simp: mod_if)
  moreover have "of_nat (unat a mod 16384 + unat a div 16384 * 16384) = a" by (simp add: mod_mult_div_eq mult.commute)
  ultimately show ?thesis using assms by (cases c; cases v) (simp add: w vram_ctrl_def chip_word_def)
qed

section \<open>The cells of a plane\<close>

definition geo_ok :: "'a vdp_st_scheme \<Rightarrow> bool" where
  "geo_ok s \<longleftrightarrow> coherent s \<and> plane_ok s \<and> screen_ok s"

lemma vdp_inv_geo: "vdp_inv s \<Longrightarrow> geo_ok s"
  by (simp add: geo_ok_def vdp_inv_def)

definition plane_base :: "VDPPlane \<Rightarrow> 'a vdp_st_scheme \<Rightarrow> u16" where
  "plane_base plane s = (case plane of BG_A \<Rightarrow> bga_addr s | BG_B \<Rightarrow> bgb_addr s | WINDOW \<Rightarrow> window_addr s)"

text \<open>Width and height of a plane in cells, and the address of the cell in column \<open>i\<close> and row \<open>j\<close>; a plane wraps around.\<close>

definition pw :: "VDPPlane \<Rightarrow> 'a vdp_st_scheme \<Rightarrow> nat" where
  "pw plane s = unat (pwidth plane s)"

definition ph :: "VDPPlane \<Rightarrow> 'a vdp_st_scheme \<Rightarrow> nat" where
  "ph plane s = unat (pheight plane s)"

definition cell :: "VDPPlane \<Rightarrow> 'a vdp_st_scheme \<Rightarrow> nat \<Rightarrow> nat \<Rightarrow> u16" where
  "cell plane s i j = plane_base plane s + of_nat (2 * (i mod pw plane s + j mod ph plane s * pw plane s))"

definition sizes :: "nat set" where
  "sizes = {32, 64, 128}"

lemma geo_sizes: "geo_ok s \<Longrightarrow> pw plane s \<in> sizes \<and> ph plane s \<in> sizes"
  by (auto simp: geo_ok_def plane_ok_def screen_ok_def sizes_def pw_def ph_def pwidth_def pheight_def split: if_splits)

lemma sizes_dvd: "n \<in> sizes \<Longrightarrow> n dvd 65536"
  by (auto simp: sizes_def)

lemma masked:
  fixes x w :: u16
  assumes "unat w \<in> sizes"
  shows "unat (x AND (w - 1)) = unat x mod unat w"
proof -
  have "(31 :: u16) = mask 5" "(63 :: u16) = mask 6" "(127 :: u16) = mask 7" by (simp_all add: mask_eq_exp_minus_1)
  then have "unat (x AND 31) = unat x mod 32" "unat (x AND 63) = unat x mod 64" "unat (x AND 127) = unat x mod 128"
    by (simp_all only: unat_and_mask) simp_all
  moreover have "w = 32 \<or> w = 64 \<or> w = 128" using assms unfolding sizes_def by (auto simp: word_unat_eq_iff)
  ultimately show ?thesis by (elim disjE) simp_all
qed

lemma shift_of_nat: "push_bit k (of_nat n :: u16) = of_nat (n * 2 ^ k)"
  by (simp add: push_bit_eq_mult)

lemma plane_address:
  assumes "geo_ok s"
  shows "VDP_getPlaneAddress plane x y s = cell plane s (unat x) (unat y)"
proof -
  have sz: "unat (pwidth plane s) \<in> sizes" "unat (pheight plane s) \<in> sizes"
    using geo_sizes [OF assms, of plane] by (simp_all add: pw_def ph_def)
  let ?sft = "if plane = WINDOW then windowWidthSft s else planeWidthSft s"
  have sft: "pw plane s = 2 ^ unat ?sft"
    using assms by (auto simp: geo_ok_def plane_ok_def screen_ok_def pw_def pwidth_def split: if_splits)
  have a: "VDP_getPlaneAddress plane x y s =
      plane_base plane s + ((x AND (pwidth plane s - 1)) + push_bit (unat ?sft) (y AND (pheight plane s - 1))) * 2"
    by (cases plane) (simp_all add: VDP_getPlaneAddress_def plane_base_def pwidth_def pheight_def)
  have x: "x AND (pwidth plane s - 1) = of_nat (unat x mod pw plane s)" "y AND (pheight plane s - 1) = of_nat (unat y mod ph plane s)"
    using masked [OF sz(1), of x] masked [OF sz(2), of y] unfolding pw_def ph_def by (metis of_nat_unat ucast_id)+
  show ?thesis unfolding a x shift_of_nat cell_def sft [symmetric] by (simp add: algebra_simps)
qed

text \<open>Different cells of a plane have different addresses.\<close>

lemma cell_inj:
  assumes "geo_ok s" "cell plane s i j = cell plane s i' j'"
  shows "i mod pw plane s = i' mod pw plane s" "j mod ph plane s = j' mod ph plane s"
proof -
  let ?w = "pw plane s" and ?h = "ph plane s"
  have sz: "?w \<in> sizes" "?h \<in> sizes" using geo_sizes [OF assms(1)] by auto
  then have w: "0 < ?w" "?w \<le> 128" "?h \<le> 128" "0 < ?h" by (auto simp: sizes_def)
  have b: "2 * (a mod ?w + c mod ?h * ?w) < 65536" for a c
  proof -
    have "a mod ?w < 128" "c mod ?h < 128" using w mod_less_divisor [of ?w a] mod_less_divisor [of ?h c] by linarith+
    then have "c mod ?h * ?w \<le> 127 * 128" using w by (intro mult_le_mono) auto
    then show ?thesis using \<open>a mod ?w < 128\<close> by simp
  qed
  have "(of_nat (2 * (i mod ?w + j mod ?h * ?w)) :: u16) = of_nat (2 * (i' mod ?w + j' mod ?h * ?w))"
    using assms(2) by (simp add: cell_def)
  then have "unat (of_nat (2 * (i mod ?w + j mod ?h * ?w)) :: u16) = unat (of_nat (2 * (i' mod ?w + j' mod ?h * ?w)) :: u16)" by simp
  then have e: "i mod ?w + j mod ?h * ?w = i' mod ?w + j' mod ?h * ?w"
    using b [of i j] b [of i' j'] by (simp only: unat_of_nat) simp
  show "i mod ?w = i' mod ?w" using arg_cong [OF e, of "\<lambda>n. n mod ?w"] by simp
  then show "j mod ?h = j' mod ?h" using e w(1) by simp
qed

section \<open>Drawing steps\<close>

text \<open>
  \<open>draws s s' ws\<close>: from \<open>s\<close> to \<open>s'\<close> only register 15 and the list of accesses change, and the
  effect of the accesses on the video memory is to put the words \<open>ws\<close>.
\<close>

definition draws :: "'a vdp_st_scheme \<Rightarrow> 'a vdp_st_scheme \<Rightarrow> (u16 \<times> u16) list \<Rightarrow> bool" where
  "draws s s' ws \<longleftrightarrow> (\<exists>es r. s' = s\<lparr>regValues := (regValues s)(0xF := r), io := io s @ es\<rparr> \<and> coherent s' \<and>
     (\<forall>v. v_mem (vram_after es (chip_of s) v) = puts ws (v_mem v)))"

lemma draws_refl: "coherent s \<Longrightarrow> draws s s []"
  unfolding draws_def by (intro exI [of _ "[]"] exI [of _ "regValues s 0xF"]) (simp add: vram_after_def)

lemma draws_trans:
  assumes "draws s s1 ws" "draws s1 s2 us"
  shows "draws s s2 (ws @ us)"
proof -
  obtain es r where e: "s1 = s\<lparr>regValues := (regValues s)(0xF := r), io := io s @ es\<rparr>"
      "\<And>v. v_mem (vram_after es (chip_of s) v) = puts ws (v_mem v)"
    using assms(1) unfolding draws_def by blast
  obtain fs q where f: "s2 = s1\<lparr>regValues := (regValues s1)(0xF := q), io := io s1 @ fs\<rparr>" "coherent s2"
      "\<And>v. v_mem (vram_after fs (chip_of s1) v) = puts us (v_mem v)"
    using assms(2) unfolding draws_def by blast
  have "chip_of s1 = fold chip_io es (chip_of s)" unfolding e(1) by (simp add: chip_of_def)
  then have "v_mem (vram_after (es @ fs) (chip_of s) v) = puts (ws @ us) (v_mem v)" for v
    using e(2) f(3) by (simp add: vram_after_append)
  moreover have "s2 = s\<lparr>regValues := (regValues s)(0xF := q), io := io s @ (es @ fs)\<rparr>" unfolding f(1) e(1) by simp
  ultimately show ?thesis using f(2) unfolding draws_def by blast
qed

lemma draws_frame:
  assumes "draws s s' ws" "geo_ok s"
  shows "geo_ok s'" "ram s' = ram s" "cell plane s' = cell plane s" "pwidth plane s' = pwidth plane s" "pheight plane s' = pheight plane s"
    "pw plane s' = pw plane s" "ph plane s' = ph plane s"
proof -
  obtain es r where e: "s' = s\<lparr>regValues := (regValues s)(0xF := r), io := io s @ es\<rparr>" "coherent s'"
    using assms(1) unfolding draws_def by blast
  show "geo_ok s'" using assms(2) e(2) unfolding e(1) geo_ok_def plane_ok_def screen_ok_def by simp
  show "ram s' = ram s" "pwidth plane s' = pwidth plane s" "pheight plane s' = pheight plane s"
    "pw plane s' = pw plane s" "ph plane s' = ph plane s"
    unfolding e(1) by (simp_all add: pwidth_def pheight_def pw_def ph_def)
  show "cell plane s' = cell plane s"
    unfolding e(1) by (intro ext) (cases plane; simp add: cell_def plane_base_def pw_def ph_def pwidth_def pheight_def)
qed

lemma chip_data: "list_all is_data es \<Longrightarrow> pend c = None \<Longrightarrow> fold chip_io es c = c"
proof (induction es)
  case (Cons e es)
  then show ?case by (cases e; cases c) auto
qed simp

lemma funpow_4: "((\<lambda>x. g (g (g (g x)))) ^^ n) y = (g ^^ (4 * n)) y"
  by (induction n) (simp_all add: numeral_eq_Suc)

text \<open>A run of words: set the step, send the command, write the data.\<close>

lemma draws_run:
  assumes "coherent s" "list_all is_data es"
    and "s' = (let s1 = ctrl_l (VDP_WRITE_VRAM_ADDR (ucast a)) (VDP_setAutoInc r s) in s1\<lparr>io := io s1 @ es\<rparr>)"
  shows "draws s s' (run a (ucast r) (data_words es))"
proof -
  let ?cmd = "CtrlL (VDP_WRITE_VRAM_ADDR (ucast a))"
  let ?es = "CtrlW (0x8F00 OR ucast r) # ?cmd # es"
  let ?c = "chip_of s"
  have p: "pend ?c = None" using assms(1) by (simp add: coherent_def)
  have s': "s' = s\<lparr>regValues := (regValues s)(0xF := r), io := io s @ ?es\<rparr>"
    unfolding assms(3) by (simp add: Let_def VDP_setAutoInc_def write_reg_def set_reg_def ctrl_w_def ctrl_l_def)
  define c1 where "c1 = ?c\<lparr>regs := (regs ?c)(0xF := r)\<rparr>"
  have 1: "vram_io (CtrlW (0x8F00 OR ucast r)) (?c, v) = (c1, v)" for v
    using chip_word_reg [OF p reg_bases(12)] p by (simp add: vram_ctrl_def c1_def)
  have p1: "pend c1 = None" by (simp add: c1_def p)
  have 2: "vram_io ?cmd (c1, v) = (c1, v\<lparr>v_addr := a, v_write := True\<rparr>)" for v by (rule write_command [OF p1])
  have "vram_after ?es ?c v = vram_after es c1 (v\<lparr>v_addr := a, v_write := True\<rparr>)" for v
    unfolding vram_after_def fold_simps 1 2 ..
  then have m: "v_mem (vram_after ?es ?c v) = puts (run a (ucast r) (data_words es)) (v_mem v)" for v
    using data_run [OF assms(2), of "v\<lparr>v_addr := a, v_write := True\<rparr>" c1] by (simp add: c1_def)
  have "chip_io (CtrlW (0x8F00 OR ucast r)) ?c = c1" "chip_io ?cmd c1 = c1"
    using arg_cong [OF 1, of fst] arg_cong [OF 2, of fst] by (simp_all only: fst_vram_io fst_conv)
  then have "fold chip_io ?es ?c = c1" using chip_data [OF assms(2) p1] by (simp only: fold_simps)
  then have "chip_of s' = c1" unfolding s' by (simp add: chip_of_def)
  then have "coherent s'" using assms(1) unfolding coherent_def s' by (simp add: c1_def)
  then show ?thesis using s' m unfolding draws_def by blast
qed

text \<open>The unrolled loop writes one word after the other.\<close>

lemma out_word_pow:
  "(out_word f step ^^ n) (src, s) =
     (src + n * step, s\<lparr>io := io s @ map (\<lambda>k. DataW (f (ram s (src + k * step)))) [0 ..< n]\<rparr>)"
  by (induction n) (simp_all add: out_word_def data_w_def)

lemma out_unrolled_ok:
  "out_unrolled f step num src s = s\<lparr>io := io s @ map (\<lambda>k. DataW (f (ram s (src + k * step)))) [0 ..< unat num]\<rparr>"
proof -
  have m: "num AND 3 = num AND mask 2" by (simp add: mask_eq_exp_minus_1)
  have "unat (num AND 3) + 4 * unat (drop_bit 2 num) = unat num"
    unfolding m unat_and_mask by (simp add: unat_drop_bit)
  then have "out_unrolled f step num src s = snd ((out_word f step ^^ unat num) (src, s))"
    unfolding out_unrolled_def Let_def funpow_4 by (metis comp_apply funpow_add)
  then show ?thesis by (simp add: out_word_pow)
qed

lemma data_words_map [simp]:
  "data_words (map (\<lambda>k. DataW (g k)) ks) = map g ks" "list_all is_data (map (\<lambda>k. DataW (g k)) ks)"
  by (induction ks) simp_all

lemma draws_unrolled:
  assumes "coherent s"
  shows "draws s (out_unrolled f step num src (ctrl_l (VDP_WRITE_VRAM_ADDR (ucast a)) (VDP_setAutoInc r s)))
    (map (\<lambda>k. (a + ucast r * of_nat k, f (ram s (src + k * step)))) [0 ..< unat num])"
proof -
  let ?es = "map (\<lambda>k. DataW (f (ram s (src + k * step)))) [0 ..< unat num]"
  let ?s1 = "ctrl_l (VDP_WRITE_VRAM_ADDR (ucast a)) (VDP_setAutoInc r s)"
  have "out_unrolled f step num src ?s1 = ?s1\<lparr>io := io ?s1 @ ?es\<rparr>"
    unfolding out_unrolled_ok by (simp add: VDP_setAutoInc_def ctrl_l_def write_reg_def set_reg_def ctrl_w_def)
  then have "draws s (out_unrolled f step num src ?s1) (run a (ucast r) (data_words ?es))"
    using assms by (intro draws_run) (simp_all add: Let_def)
  then show ?thesis by (simp add: run_map)
qed

text \<open>A row of a plane, drawn with steps of a word, and a column, drawn with steps of a row.\<close>

definition row_cells :: "VDPPlane \<Rightarrow> 'a vdp_st_scheme \<Rightarrow> (u16 \<Rightarrow> u16) \<Rightarrow> ptr \<Rightarrow> nat \<Rightarrow> nat \<Rightarrow> nat \<Rightarrow> (u16 \<times> u16) list" where
  "row_cells plane s f src i j n = map (\<lambda>k. (cell plane s (i + k) j, f (ram s (src + k)))) [0 ..< n]"

definition column_cells :: "VDPPlane \<Rightarrow> 'a vdp_st_scheme \<Rightarrow> (u16 \<Rightarrow> u16) \<Rightarrow> nat \<Rightarrow> ptr \<Rightarrow> nat \<Rightarrow> nat \<Rightarrow> nat \<Rightarrow> (u16 \<times> u16) list" where
  "column_cells plane s f step src i j n = map (\<lambda>k. (cell plane s i (j + k), f (ram s (src + k * step)))) [0 ..< n]"

lemma cell_right: "i + k < pw plane s \<Longrightarrow> cell plane s (i + k) j = cell plane s i j + 2 * of_nat k"
  by (simp add: cell_def)

lemma cell_down:
  "geo_ok s \<Longrightarrow> j + k < ph plane s \<Longrightarrow> cell plane s i (j + k) = cell plane s i j + of_nat (2 * pw plane s) * of_nat k"
  by (simp add: cell_def algebra_simps)

lemma cell_mod:
  assumes "i mod pw plane s = i' mod pw plane s" "j mod ph plane s = j' mod ph plane s"
  shows "cell plane s i j = cell plane s i' j'"
  using assms by (simp add: cell_def)

text \<open>Nothing that drawing depends on has changed since \<open>s\<close>.\<close>

definition like :: "VDPPlane \<Rightarrow> 'a vdp_st_scheme \<Rightarrow> 'a vdp_st_scheme \<Rightarrow> bool" where
  "like plane s t \<longleftrightarrow> geo_ok t \<and> ram t = ram s \<and> cell plane t = cell plane s \<and> pwidth plane t = pwidth plane s \<and> pheight plane t = pheight plane s"

lemma like_refl: "geo_ok s \<Longrightarrow> like plane s s"
  by (simp add: like_def)

lemma like_draws: "like plane s t \<Longrightarrow> draws t u ws \<Longrightarrow> like plane s u"
  using draws_frame [of t u ws] unfolding like_def by metis

section \<open>Wrapping around\<close>

text \<open>How the code cuts a run of \<open>n \<le> L\<close> cells at the edge of the plane.\<close>

lemma split_len_ok:
  assumes "unat lim \<in> sizes" "unat n \<le> unat lim" "adj = x AND (lim - 1)" "split_len adj n lim = (n1, n2)"
  shows "unat adj = unat x mod unat lim" "unat n1 + unat n2 = unat n" "unat adj + unat n1 \<le> unat lim"
    "n2 \<noteq> 0 \<Longrightarrow> unat adj + unat n1 = unat lim" "unat n2 \<le> unat lim" "n2 \<noteq> 0 \<Longrightarrow> over adj n lim"
proof -
  have l: "0 < unat lim" using assms(1) by (auto simp: sizes_def)
  show a: "unat adj = unat x mod unat lim" unfolding assms(3) by (rule masked [OF assms(1)])
  then have lt: "unat adj < unat lim" using l by simp
  then have d: "unat (lim - adj) = unat lim - unat adj" by (intro unat_minus_le) (simp add: word_le_nat_alt)
  have "unat n1 + unat n2 = unat n \<and> unat adj + unat n1 \<le> unat lim \<and> (n2 \<noteq> 0 \<longrightarrow> unat adj + unat n1 = unat lim \<and> over adj n lim)"
  proof (cases "over adj n lim")
    case True
    then have n: "n1 = lim - adj" "n2 = n - (lim - adj)" "unat lim - unat adj < unat n"
      using assms(4) lt by (auto simp: split_len_def over_def)
    then have "unat (n - (lim - adj)) = unat n - (unat lim - unat adj)"
      using d by (subst unat_minus_le) (simp_all add: word_le_nat_alt)
    then show ?thesis using n d lt True by simp
  next
    case False
    then show ?thesis using assms(4) by (auto simp: split_len_def over_def)
  qed
  then show "unat n1 + unat n2 = unat n" "unat adj + unat n1 \<le> unat lim" "n2 \<noteq> 0 \<Longrightarrow> unat adj + unat n1 = unat lim"
    "unat n2 \<le> unat lim" "n2 \<noteq> 0 \<Longrightarrow> over adj n lim" using assms(2) by auto
qed

lemma mod_add_inj: "(n + a) mod l = (n + b) mod l \<Longrightarrow> a < l \<Longrightarrow> b < l \<Longrightarrow> a = (b :: nat)"
proof (induction a b rule: linorder_wlog)
  case (le a b)
  then have "l dvd b - a" using mod_eq_dvd_iff_nat [of "n + a" "n + b" l] by simp
  then show ?case using le by (auto dest: dvd_imp_le)
qed simp

text \<open>The two pieces together are the whole run, for cells \<open>C\<close> that repeat with period \<open>L\<close>.\<close>

lemma wrap_cover:
  assumes per: "\<And>i i'. i mod L = i' mod L \<Longrightarrow> C i = C i'" and a: "a = x mod L" "n1 + n2 = (n :: nat)" "n2 \<noteq> 0 \<Longrightarrow> a + n1 = L"
  shows "(\<lambda>k. (C (a + k), g k)) ` {..<n1} \<union> (\<lambda>k. (C (0 + k), g (n1 + k))) ` {..<n2} = (\<lambda>k. (C (x + k), g k)) ` {..<n}"
proof -
  have 1: "C (a + k) = C (x + k)" for k by (rule per) (simp add: a(1) mod_add_left_eq)
  have 2: "C (0 + k) = C (x + (n1 + k))" if "k < n2" for k
  proof (rule per)
    have "(x + (n1 + k)) mod L = (a + n1 + k) mod L" by (simp add: a(1) mod_add_left_eq add.assoc)
    also have "\<dots> = k mod L" using a(3) that by simp
    finally show "(0 + k) mod L = (x + (n1 + k)) mod L" by simp
  qed
  have "{..<n} = {..<n1} \<union> (+) n1 ` {..<n2}" unfolding a(2) [symmetric]
    by (simp add: lessThan_atLeast0 ivl_disj_un add.commute)
  then have "(\<lambda>k. (C (x + k), g k)) ` {..<n} =
      (\<lambda>k. (C (x + k), g k)) ` {..<n1} \<union> (\<lambda>k. (C (x + (n1 + k)), g (n1 + k))) ` {..<n2}"
    by (simp add: image_Un image_image)
  moreover have "(\<lambda>k. (C (0 + k), g (n1 + k))) ` {..<n2} = (\<lambda>k. (C (x + (n1 + k)), g (n1 + k))) ` {..<n2}"
    using 2 by (intro image_cong) auto
  ultimately show ?thesis by (simp add: 1)
qed

section \<open>Rectangles\<close>

text \<open>
  The common form of the functions that draw a rectangle, and what it needs of the functions \<open>rowf\<close>
  and \<open>colf\<close> that draw rows and columns within the plane. \<open>f\<close> makes a tile of a word of the data.
\<close>

definition draw_rect ::
  "VDPPlane \<Rightarrow> (ptr \<Rightarrow> u16 \<Rightarrow> u16 \<Rightarrow> u16 \<Rightarrow> 'a vdp_st_scheme \<Rightarrow> 'a vdp_st_scheme) \<Rightarrow>
    (ptr \<Rightarrow> u16 \<Rightarrow> u16 \<Rightarrow> u16 \<Rightarrow> 'a vdp_st_scheme \<Rightarrow> 'a vdp_st_scheme) \<Rightarrow>
    ptr \<Rightarrow> u16 \<Rightarrow> u16 \<Rightarrow> u16 \<Rightarrow> u16 \<Rightarrow> u16 \<Rightarrow> 'a vdp_st_scheme \<Rightarrow> 'a vdp_st_scheme" where
  "draw_rect plane rowf colf data x y w h wm s =
    (let lim = pwidth plane s in
     if lim < 128 \<and> w < h div 2 then
       (let lim = pheight plane s;
            yAdj = y AND (lim - 1);
            (h1, h2) = split_len yAdj h lim;
            off = (if over yAdj h lim then mulu wm h1 else 0)
        in rect_columns (unat w) (\<lambda>src col s.
             let s = colf src col yAdj h1 s in
             if h2 \<noteq> 0 then colf (src + unat off) col 0 h2 s else s) data x s)
     else
       (let xAdj = x AND (lim - 1);
            (w1, w2) = split_len xAdj w lim
        in rect_rows (unat h) (\<lambda>src row s.
             let s = rowf src row xAdj w1 s in
             if w2 \<noteq> 0 then rowf (src + unat w1) row 0 w2 s else s) (unat wm) data y s))"

lemma set_cells:
  "set (row_cells plane s f src i j n) = (\<lambda>k. (cell plane s (i + k) j, f (ram s (src + k)))) ` {..<n}"
  "set (column_cells plane s f step src i j n) = (\<lambda>k. (cell plane s i (j + k), f (ram s (src + k * step)))) ` {..<n}"
  by (simp_all add: row_cells_def column_cells_def atLeast0LessThan)

locale plane_drawer =
  fixes plane :: VDPPlane and wm :: u16 and f :: "u16 \<Rightarrow> u16"
    and rowf colf :: "ptr \<Rightarrow> u16 \<Rightarrow> u16 \<Rightarrow> u16 \<Rightarrow> 'a vdp_st_scheme \<Rightarrow> 'a vdp_st_scheme"
  assumes row_law: "geo_ok s \<Longrightarrow> src < 2 ^ 31 \<Longrightarrow> unat x + unat w \<le> pw plane s \<Longrightarrow>
      draws s (rowf src row x w s) (row_cells plane s f src (unat x) (unat row) (unat w))"
    and col_law: "geo_ok s \<Longrightarrow> pw plane s < 128 \<Longrightarrow> unat y + unat h \<le> ph plane s \<Longrightarrow>
      draws s (colf src col y h s) (column_cells plane s f (unat wm) src (unat col) (unat y) (unat h))"
begin

lemma row_wrapped:
  assumes s: "like plane s0 s" and w: "unat w \<le> pw plane s" and src: "src + unat w < 2 ^ 31"
    and sp: "split_len (x AND (pwidth plane s - 1)) w (pwidth plane s) = (w1, w2)"
  shows "\<exists>ws. draws s (let s = rowf src row (x AND (pwidth plane s0 - 1)) w1 s in
        if w2 \<noteq> 0 then rowf (src + unat w1) row 0 w2 s else s) ws
    \<and> set ws = (\<lambda>k. (cell plane s0 (unat x + k) (unat row), f (ram s0 (src + k)))) ` {..<unat w}"
proof -
  let ?L = "pw plane s" and ?xa = "x AND (pwidth plane s - 1)"
  have g: "geo_ok s" and eq: "pwidth plane s0 = pwidth plane s" "cell plane s0 = cell plane s" "ram s0 = ram s"
    using s by (simp_all add: like_def)
  have sz: "unat (pwidth plane s) \<in> sizes" using geo_sizes [OF g, of plane] by (simp add: pw_def)
  note sl = split_len_ok [OF sz w [unfolded pw_def] refl sp, folded pw_def]
  let ?s1 = "rowf src row ?xa w1 s"
  let ?C = "\<lambda>i. cell plane s i (unat row)" and ?g = "\<lambda>k. f (ram s (src + k))"
  have d1: "draws s ?s1 (row_cells plane s f src (unat ?xa) (unat row) (unat w1))"
    using src by (intro row_law g) (use sl(3) in auto)
  have fr: "geo_ok ?s1" "ram ?s1 = ram s" "cell plane ?s1 = cell plane s" "pw plane ?s1 = ?L" using draws_frame [OF d1 g] by simp_all
  have cov: "set (row_cells plane s f src (unat ?xa) (unat row) (unat w1)) \<union> set (row_cells plane s f (src + unat w1) 0 (unat row) (unat w2))
      = (\<lambda>k. (?C (unat x + k), ?g k)) ` {..<unat w}"
  proof -
    have per: "?C i = ?C i'" if "i mod ?L = i' mod ?L" for i i' using that by (rule cell_mod) simp
    have nz: "unat w2 \<noteq> 0 \<Longrightarrow> unat ?xa + unat w1 = ?L" using sl(4) by (auto simp: unat_eq_zero)
    show ?thesis using wrap_cover [OF per sl(1,2) nz, where g = ?g] by (simp add: set_cells add.assoc)
  qed
  show ?thesis
  proof (cases "w2 = 0")
    case True
    then show ?thesis using d1 cov unfolding eq by (auto simp: Let_def row_cells_def)
  next
    case False
    have "draws ?s1 (rowf (src + unat w1) row 0 w2 ?s1) (row_cells plane ?s1 f (src + unat w1) (unat (0 :: u16)) (unat row) (unat w2))"
      using src sl(2,5) fr by (intro row_law) auto
    then have "draws s (rowf (src + unat w1) row 0 w2 ?s1)
        (row_cells plane s f src (unat ?xa) (unat row) (unat w1) @ row_cells plane s f (src + unat w1) 0 (unat row) (unat w2))"
      using draws_trans [OF d1] fr by (simp add: row_cells_def)
    then show ?thesis using False cov unfolding eq by (auto simp: Let_def)
  qed
qed

lemma column_wrapped:
  assumes s: "like plane s0 s" and pw: "pw plane s < 128" and h: "unat h \<le> ph plane s"
    and sp: "split_len (y AND (pheight plane s - 1)) h (pheight plane s) = (h1, h2)"
    and off: "off = (if over (y AND (pheight plane s - 1)) h (pheight plane s) then mulu wm h1 else 0)"
  shows "\<exists>ws. draws s (let s = colf src col (y AND (pheight plane s0 - 1)) h1 s in
        if h2 \<noteq> 0 then colf (src + unat off) col 0 h2 s else s) ws
    \<and> set ws = (\<lambda>k. (cell plane s0 (unat col) (unat y + k), f (ram s0 (src + k * unat wm)))) ` {..<unat h}"
proof -
  let ?L = "ph plane s" and ?ya = "y AND (pheight plane s - 1)"
  have g: "geo_ok s" and eq: "pheight plane s0 = pheight plane s" "cell plane s0 = cell plane s" "ram s0 = ram s"
    using s by (simp_all add: like_def)
  have sz: "unat (pheight plane s) \<in> sizes" using geo_sizes [OF g, of plane] by (simp add: ph_def)
  note sl = split_len_ok [OF sz h [unfolded ph_def] refl sp, folded ph_def]
  let ?s1 = "colf src col ?ya h1 s"
  let ?C = "\<lambda>j. cell plane s (unat col) j" and ?g = "\<lambda>k. f (ram s (src + k * unat wm))"
  have d1: "draws s ?s1 (column_cells plane s f (unat wm) src (unat col) (unat ?ya) (unat h1))" by (rule col_law [OF g pw sl(3)])
  have fr: "geo_ok ?s1" "ram ?s1 = ram s" "cell plane ?s1 = cell plane s" "pw plane ?s1 = pw plane s" "ph plane ?s1 = ?L"
    using draws_frame [OF d1 g] by simp_all
  have o: "unat off = unat h1 * unat wm" if "h2 \<noteq> 0"
  proof -
    have "unat wm * unat h1 < 65536 * 65536" using unat_u16_lt [of wm] unat_u16_lt [of h1] by (intro mult_strict_mono) auto
    moreover have "unat wm < 4294967296" "unat h1 < 4294967296" using unat_u16_lt [of wm] unat_u16_lt [of h1] by simp_all
    ultimately show ?thesis using sl(6) [OF that] unfolding off mulu_def by (simp add: unat_word_ariths unat_ucast_mod mult.commute)
  qed
  have cov: "set (column_cells plane s f (unat wm) src (unat col) (unat ?ya) (unat h1)) \<union>
      (\<lambda>k. (?C (0 + k), f (ram s (src + unat h1 * unat wm + k * unat wm)))) ` {..<unat h2} = (\<lambda>k. (?C (unat y + k), ?g k)) ` {..<unat h}"
  proof -
    have per: "?C i = ?C i'" if "i mod ?L = i' mod ?L" for i i' using that by (intro cell_mod) simp_all
    have nz: "unat h2 \<noteq> 0 \<Longrightarrow> unat ?ya + unat h1 = ?L" using sl(4) by (auto simp: unat_eq_zero)
    show ?thesis using wrap_cover [OF per sl(1,2) nz, where g = ?g] by (simp add: set_cells add.assoc distrib_right)
  qed
  show ?thesis
  proof (cases "h2 = 0")
    case True
    then show ?thesis using d1 cov unfolding eq by (auto simp: Let_def)
  next
    case False
    have "draws ?s1 (colf (src + unat off) col 0 h2 ?s1) (column_cells plane ?s1 f (unat wm) (src + unat off) (unat col) (unat (0 :: u16)) (unat h2))"
      using pw sl(5) fr by (intro col_law) auto
    then have "draws s (colf (src + unat off) col 0 h2 ?s1) (column_cells plane s f (unat wm) src (unat col) (unat ?ya) (unat h1)
        @ column_cells plane s f (unat wm) (src + unat h1 * unat wm) (unat col) 0 (unat h2))"
      using draws_trans [OF d1] fr o [OF False] by (simp add: column_cells_def)
    then show ?thesis using False cov unfolding eq by (auto simp: Let_def set_cells)
  qed
qed

text \<open>The loops.\<close>

lemma rect_rows_draws:
  assumes "like plane s0 s"
    and "\<And>s src row. like plane s0 s \<Longrightarrow> src \<le> B \<Longrightarrow> \<exists>ws. draws s (draw src row s) ws \<and> set ws = R src (unat row)"
    and "\<And>src i i'. i mod ph plane s0 = i' mod ph plane s0 \<Longrightarrow> R src i = R src i'" "src + n * st \<le> B" "ph plane s0 \<in> sizes"
  shows "\<exists>ws. draws s (rect_rows n draw st src row s) ws \<and> set ws = (\<Union>j < n. R (src + j * st) (unat row + j))"
  using assms(1,4)
proof (induction n arbitrary: s src row)
  case 0
  then show ?case using draws_refl [of s] by (auto simp: like_def geo_ok_def)
next
  case (Suc n)
  have "src \<le> B" using Suc.prems(2) by simp
  then obtain ws where w: "draws s (draw src row s) ws" "set ws = R src (unat row)" using assms(2) [OF Suc.prems(1)] by blast
  obtain us where u: "draws (draw src row s) (rect_rows n draw st (src + st) (row + 1) (draw src row s)) us"
      "set us = (\<Union>j < n. R (src + st + j * st) (unat (row + 1) + j))"
    using Suc.IH [OF like_draws [OF Suc.prems(1) w(1)], of "src + st" "row + 1"] Suc.prems(2) by auto
  have r: "R a (unat (row + 1) + j) = R a (unat row + Suc j)" for a j
  proof (rule assms(3))
    have "unat (row + 1) mod ph plane s0 = (unat row + 1) mod ph plane s0"
      using mod_mod_cancel [OF sizes_dvd [OF assms(5)]] by (simp add: unat_word_ariths)
    then show "(unat (row + 1) + j) mod ph plane s0 = (unat row + Suc j) mod ph plane s0"
      by (metis add.commute add_Suc_right mod_add_left_eq plus_1_eq_Suc add_Suc)
  qed
  have "(\<Union>j < Suc n. R (src + j * st) (unat row + j)) = R src (unat row) \<union> (\<Union>j < n. R (src + st + j * st) (unat row + Suc j))"
    unfolding lessThan_Suc_eq_insert_0 by (auto simp: add.assoc)
  then have "set (ws @ us) = (\<Union>j < Suc n. R (src + j * st) (unat row + j))" using w(2) u(2) r by simp
  moreover have "draws s (rect_rows (Suc n) draw st src row s) (ws @ us)" using draws_trans [OF w(1) u(1)] by simp
  ultimately show ?case by blast
qed

lemma rect_columns_draws:
  assumes "like plane s0 s"
    and "\<And>s src col. like plane s0 s \<Longrightarrow> \<exists>ws. draws s (draw src col s) ws \<and> set ws = R src (unat col)"
    and "\<And>src i i'. i mod pw plane s0 = i' mod pw plane s0 \<Longrightarrow> R src i = R src i'" "pw plane s0 \<in> sizes"
  shows "\<exists>ws. draws s (rect_columns n draw src col s) ws \<and> set ws = (\<Union>i < n. R (src + i) (unat col + i))"
  using assms(1)
proof (induction n arbitrary: s src col)
  case 0
  then show ?case using draws_refl [of s] by (auto simp: like_def geo_ok_def)
next
  case (Suc n)
  obtain ws where w: "draws s (draw src col s) ws" "set ws = R src (unat col)" using assms(2) [OF Suc.prems(1)] by blast
  obtain us where u: "draws (draw src col s) (rect_columns n draw (src + 1) (col + 1) (draw src col s)) us"
      "set us = (\<Union>i < n. R (src + 1 + i) (unat (col + 1) + i))"
    using Suc.IH [OF like_draws [OF Suc.prems(1) w(1)], of "src + 1" "col + 1"] by auto
  have r: "R a (unat (col + 1) + i) = R a (unat col + Suc i)" for a i
  proof (rule assms(3))
    have "unat (col + 1) mod pw plane s0 = (unat col + 1) mod pw plane s0"
      using mod_mod_cancel [OF sizes_dvd [OF assms(4)]] by (simp add: unat_word_ariths)
    then show "(unat (col + 1) + i) mod pw plane s0 = (unat col + Suc i) mod pw plane s0"
      by (metis add.commute add_Suc_right mod_add_left_eq plus_1_eq_Suc add_Suc)
  qed
  have "(\<Union>i < Suc n. R (src + i) (unat col + i)) = R src (unat col) \<union> (\<Union>i < n. R (src + 1 + i) (unat col + Suc i))"
    unfolding lessThan_Suc_eq_insert_0 by auto
  then have "set (ws @ us) = (\<Union>i < Suc n. R (src + i) (unat col + i))" using w(2) u(2) r by simp
  moreover have "draws s (rect_columns (Suc n) draw src col s) (ws @ us)" using draws_trans [OF w(1) u(1)] by simp
  ultimately show ?case by blast
qed

definition rect_cells :: "'a vdp_st_scheme \<Rightarrow> ptr \<Rightarrow> nat \<Rightarrow> nat \<Rightarrow> nat \<Rightarrow> nat \<Rightarrow> (u16 \<times> u16) set" where
  "rect_cells s data x y w h =
     (\<lambda>(i, j). (cell plane s (x + i) (y + j), f (ram s (data + i + j * unat wm)))) ` ({..<w} \<times> {..<h})"

lemma rect_draws:
  assumes g: "geo_ok s" and w: "unat w \<le> pw plane s" and h: "unat h \<le> ph plane s"
    and d: "data + unat h * unat wm + unat w < 2 ^ 31"
  shows "\<exists>ws. draws s (draw_rect plane rowf colf data x y w h wm s) ws
    \<and> set ws = rect_cells s data (unat x) (unat y) (unat w) (unat h)"
proof (cases "pwidth plane s < 128 \<and> w < h div 2")
  case True
  obtain h1 h2 where sp: "split_len (y AND (pheight plane s - 1)) h (pheight plane s) = (h1, h2)" by fastforce
  define off where "off = (if over (y AND (pheight plane s - 1)) h (pheight plane s) then mulu wm h1 else 0)"
  let ?draw = "\<lambda>src col t. let t = colf src col (y AND (pheight plane s - 1)) h1 t in
             if h2 \<noteq> 0 then colf (src + unat off) col 0 h2 t else t"
  let ?R = "\<lambda>src c. (\<lambda>k. (cell plane s c (unat y + k), f (ram s (src + k * unat wm)))) ` {..<unat h}"
  have "\<exists>ws. draws s (rect_columns (unat w) ?draw data x s) ws \<and> set ws = (\<Union>i < unat w. ?R (data + i) (unat x + i))"
  proof (rule rect_columns_draws [where ?s0.0 = s])
    fix t src col assume t: "like plane s t"
    then have e: "pwidth plane t = pwidth plane s" "pheight plane t = pheight plane s" by (simp_all add: like_def)
    show "\<exists>ws. draws t (?draw src col t) ws \<and> set ws = ?R src (unat col)"
      using column_wrapped [OF t, of h y h1 h2 off src col] sp off_def h True e
      by (simp add: pw_def ph_def word_less_nat_alt)
  next
    show "?R src i = ?R src i'" if "i mod pw plane s = i' mod pw plane s" for src i i'
      using cell_mod [OF that refl] by simp
  qed (use g geo_sizes like_refl in auto)
  moreover have "(\<Union>i < unat w. ?R (data + i) (unat x + i)) = rect_cells s data (unat x) (unat y) (unat w) (unat h)"
    unfolding rect_cells_def by (auto simp: image_def)
  moreover have "draw_rect plane rowf colf data x y w h wm s = rect_columns (unat w) ?draw data x s"
    using True sp unfolding draw_rect_def off_def Let_def by simp
  ultimately show ?thesis by simp
next
  case False
  obtain w1 w2 where sp: "split_len (x AND (pwidth plane s - 1)) w (pwidth plane s) = (w1, w2)" by fastforce
  let ?draw = "\<lambda>src row t. let t = rowf src row (x AND (pwidth plane s - 1)) w1 t in
             if w2 \<noteq> 0 then rowf (src + unat w1) row 0 w2 t else t"
  let ?R = "\<lambda>src r. (\<lambda>k. (cell plane s (unat x + k) r, f (ram s (src + k)))) ` {..<unat w}"
  have "\<exists>ws. draws s (rect_rows (unat h) ?draw (unat wm) data y s) ws \<and> set ws = (\<Union>j < unat h. ?R (data + j * unat wm) (unat y + j))"
  proof (rule rect_rows_draws [where ?s0.0 = s and B = "data + unat h * unat wm"])
    fix t src row assume t: "like plane s t" and src: "src \<le> data + unat h * unat wm"
    then have e: "pwidth plane t = pwidth plane s" "pheight plane t = pheight plane s" by (simp_all add: like_def)
    have "src + unat w < 2 ^ 31" using src d by linarith
    then show "\<exists>ws. draws t (?draw src row t) ws \<and> set ws = ?R src (unat row)"
      using row_wrapped [OF t, of w src x w1 w2 row] sp w e by (simp add: pw_def)
  next
    show "?R src i = ?R src i'" if "i mod ph plane s = i' mod ph plane s" for src i i'
      using cell_mod [OF refl that] by simp
  qed (use g geo_sizes like_refl in auto)
  moreover have "(\<Union>j < unat h. ?R (data + j * unat wm) (unat y + j)) = rect_cells s data (unat x) (unat y) (unat w) (unat h)"
    unfolding rect_cells_def by (auto simp: image_def add_ac)
  moreover have "draw_rect plane rowf colf data x y w h wm s = rect_rows (unat h) ?draw (unat wm) data y s"
    using False sp unfolding draw_rect_def Let_def by auto
  ultimately show ?thesis by simp
qed

text \<open>After drawing, every cell of the rectangle holds its tile and no other word of the video memory has changed.\<close>

lemma rect_ok:
  assumes g: "geo_ok s" and w: "unat w \<le> pw plane s" and h: "unat h \<le> ph plane s"
    and d: "data + unat h * unat wm + unat w < 2 ^ 31"
  shows "\<exists>es r. draw_rect plane rowf colf data x y w h wm s = s\<lparr>regValues := (regValues s)(0xF := r), io := io s @ es\<rparr>
    \<and> (\<forall>v i j. i < unat w \<and> j < unat h \<longrightarrow>
        v_mem (vram_after es (chip_of s) v) (cell plane s (unat x + i) (unat y + j)) = f (ram s (data + i + j * unat wm)))
    \<and> (\<forall>v a. (\<forall>i j. i < unat w \<and> j < unat h \<longrightarrow> a \<noteq> cell plane s (unat x + i) (unat y + j)) \<longrightarrow>
        v_mem (vram_after es (chip_of s) v) a = v_mem v a)"
proof -
  obtain ws where d: "draws s (draw_rect plane rowf colf data x y w h wm s) ws"
      and ws: "set ws = rect_cells s data (unat x) (unat y) (unat w) (unat h)"
    using rect_draws [OF assms] by blast
  obtain es r where e: "draw_rect plane rowf colf data x y w h wm s = s\<lparr>regValues := (regValues s)(0xF := r), io := io s @ es\<rparr>"
      and m: "\<And>v. v_mem (vram_after es (chip_of s) v) = puts ws (v_mem v)"
    using d unfolding draws_def by blast
  have inj: "i = i' \<and> j = j'" if "cell plane s (unat x + i) (unat y + j) = cell plane s (unat x + i') (unat y + j')"
      "i < unat w" "i' < unat w" "j < unat h" "j' < unat h" for i i' j j'
  proof -
    show ?thesis using cell_inj [OF g that(1)] that w h by (auto intro: mod_add_inj)
  qed
  have in_cell: "puts ws m (cell plane s (unat x + i) (unat y + j)) = f (ram s (data + i + j * unat wm))"
    if "i < unat w" "j < unat h" for m i j
  proof (rule puts_in)
    show "(cell plane s (unat x + i) (unat y + j), f (ram s (data + i + j * unat wm))) \<in> set ws"
      using that unfolding ws rect_cells_def by (auto intro!: image_eqI [of _ _ "(i, j)"])
  next
    fix u assume "(cell plane s (unat x + i) (unat y + j), u) \<in> set ws"
    then obtain i' j' where "cell plane s (unat x + i) (unat y + j) = cell plane s (unat x + i') (unat y + j')"
        "u = f (ram s (data + i' + j' * unat wm))" "i' < unat w" "j' < unat h"
      unfolding ws rect_cells_def by auto
    then show "u = f (ram s (data + i + j * unat wm))" using inj [of i j i' j'] that by simp
  qed
  have out_cell: "puts ws m a = m a" if "\<And>i j. i < unat w \<and> j < unat h \<Longrightarrow> a \<noteq> cell plane s (unat x + i) (unat y + j)" for m a
    using that by (intro puts_other) (force simp: ws rect_cells_def)
  show ?thesis unfolding e using in_cell out_cell unfolding m [symmetric] by (intro exI [of _ es] exI [of _ r]) (simp add: m)
qed

end

section \<open>The drawing functions of the library\<close>

lemma zero_step: "(0 :: u16) * 2 = 0" by simp

lemma setTileMapDataRow_draws:
  assumes "geo_ok (s :: 'a dma_st_scheme)" "src < 2 ^ 31" "unat x + unat w \<le> pw plane s"
  shows "draws s (setTileMapDataRow plane src row x w CPU s) (row_cells plane s (\<lambda>v. v) src (unat x) (unat row) (unat w))"
proof (cases "w = 0")
  case True
  then show ?thesis using assms(1) by (simp add: setTileMapDataRow_def DMA_transfer_def row_cells_def draws_refl geo_ok_def)
next
  case False
  let ?a = "cell plane s (unat x) (unat row)"
  have src: "unat (byte_addr src) div 2 = src" using assms(2) by (simp add: byte_addr_def unat_of_nat del: of_nat_mult)
  have t: "setTileMapDataRow plane src row x w CPU s =
      DMA_doCPUCopyDirect (VDP_WRITE_VRAM_ADDR (ucast ?a)) (byte_addr src) w 2 s"
    using False plane_address [OF assms(1), of plane x row]
    by (simp add: setTileMapDataRow_def DMA_transfer_def DMA_doCPUCopy_def DMA_VRAM_def DMA_CRAM_def DMA_VSRAM_def)
  obtain es where es: "setTileMapDataRow plane src row x w CPU s =
        (let s1 = ctrl_l (VDP_WRITE_VRAM_ADDR (ucast ?a)) (set_step 2 s) in s1\<lparr>io := io s1 @ es\<rparr>)"
      "list_all is_data es" "data_words es = map (ram s) [src ..< src + unat w]"
    using doCPUCopyDirect_ok [of "VDP_WRITE_VRAM_ADDR (ucast ?a)" "byte_addr src" w 2 s] unfolding t src by blast
  have w: "data_words es = map (\<lambda>k. ram s (src + k)) [0 ..< unat w]"
    unfolding es(3) by (rule nth_equalityI) simp_all
  have "draws s (setTileMapDataRow plane src row x w CPU s) (run ?a (ucast (2 :: u8)) (data_words es))"
    using assms(1) es(1,2) by (intro draws_run) (simp_all add: geo_ok_def set_step_def)
  moreover have "run ?a (ucast (2 :: u8)) (data_words es) = row_cells plane s (\<lambda>v. v) src (unat x) (unat row) (unat w)"
    unfolding w run_map row_cells_def using assms(3) by (simp add: cell_right)
  ultimately show ?thesis by simp
qed

lemma setTileMapDataRowEx_draws:
  assumes "geo_ok (s :: 'a dma_st_scheme)" "unat x + unat w \<le> pw plane s"
  shows "draws s (setTileMapDataRowEx debug plane src basetile row x w CPU s)
    (row_cells plane s (tile_ex basetile) src (unat x) (unat row) (unat w))"
proof -
  let ?a = "cell plane s (unat x) (unat row)"
  have "setTileMapDataRowEx debug plane src basetile row x w CPU s =
      out_unrolled (tile_ex basetile) 1 w src (ctrl_l (VDP_WRITE_VRAM_ADDR (ucast ?a)) (VDP_setAutoInc 2 s))"
    using plane_address [OF assms(1), of plane x row]
    by (simp add: setTileMapDataRowEx_def VDP_setTileMapDataEx_def Let_def)
  moreover have "row_cells plane s (tile_ex basetile) src (unat x) (unat row) (unat w) =
      map (\<lambda>k. (?a + ucast (2 :: u8) * of_nat k, tile_ex basetile (ram s (src + k * 1)))) [0 ..< unat w]"
    unfolding row_cells_def using assms(2) by (simp add: cell_right)
  ultimately show ?thesis using draws_unrolled [of s "tile_ex basetile" 1 w src ?a 2] assms(1) by (simp add: geo_ok_def)
qed

lemma column_draws:
  assumes "geo_ok s" "pw plane s < 128" "unat y + unat h \<le> ph plane s"
  shows "draws s (out_unrolled f st h src (ctrl_l (VDP_WRITE_VRAM_ADDR (ucast (cell plane s (unat col) (unat y))))
        (VDP_setAutoInc (ucast (pwidth plane s * 2)) s)))
    (column_cells plane s f st src (unat col) (unat y) (unat h))"
proof -
  have "pwidth plane s = 32 \<or> pwidth plane s = 64"
    using geo_sizes [OF assms(1), of plane] assms(2) by (auto simp: pw_def sizes_def word_unat_eq_iff)
  then have "(ucast (ucast (pwidth plane s * 2) :: u8) :: u16) = of_nat (2 * pw plane s)" by (auto simp: pw_def)
  then have "column_cells plane s f st src (unat col) (unat y) (unat h) =
      map (\<lambda>k. (cell plane s (unat col) (unat y) + ucast (ucast (pwidth plane s * 2) :: u8) * of_nat k, f (ram s (src + k * st)))) [0 ..< unat h]"
    unfolding column_cells_def using assms by (simp add: cell_down)
  then show ?thesis
    using draws_unrolled [of s f st h src "cell plane s (unat col) (unat y)" "ucast (pwidth plane s * 2)"] assms(1) by (simp add: geo_ok_def)
qed

interpretation plain: plane_drawer plane wm "\<lambda>v. v"
    "\<lambda>src row x w s. setTileMapDataRow plane src row x w CPU (s :: 'a dma_st_scheme)"
    "\<lambda>src col y h s. setTileMapDataColumn debug plane src col y h wm CPU s" for plane wm debug
proof
  fix s :: "'a dma_st_scheme" and y h col :: u16 and src
  assume g: "geo_ok s" "pw plane s < 128" "unat y + unat h \<le> ph plane s"
  show "draws s (setTileMapDataColumn debug plane src col y h wm CPU s)
      (column_cells plane s (\<lambda>v. v) (unat wm) src (unat col) (unat y) (unat h))"
    using column_draws [OF g, of "\<lambda>v. v" "unat wm" src col] plane_address [OF g(1), of plane col y]
    by (simp add: setTileMapDataColumn_def Let_def)
qed (rule setTileMapDataRow_draws)

interpretation based: plane_drawer plane wm "tile_ex basetile"
    "\<lambda>src row x w s. setTileMapDataRowEx debug plane src basetile row x w CPU (s :: 'a dma_st_scheme)"
    "\<lambda>src col y h s. setTileMapDataColumnEx debug plane src basetile col y h wm CPU s" for plane wm basetile debug
proof
  fix s :: "'a dma_st_scheme" and y h col :: u16 and src
  assume g: "geo_ok s" "pw plane s < 128" "unat y + unat h \<le> ph plane s"
  show "draws s (setTileMapDataColumnEx debug plane src basetile col y h wm CPU s)
      (column_cells plane s (tile_ex basetile) (unat wm) src (unat col) (unat y) (unat h))"
    using column_draws [OF g, of "tile_ex basetile" "unat wm" src col] plane_address [OF g(1), of plane col y]
    by (simp add: setTileMapDataColumnEx_def Let_def)
qed (rule setTileMapDataRowEx_draws)

lemma rect_is_draw_rect:
  "VDP_setTileMapDataRect debug plane data x y w h wm CPU s =
     draw_rect plane (\<lambda>src row x w s. setTileMapDataRow plane src row x w CPU s)
       (\<lambda>src col y h s. setTileMapDataColumn debug plane src col y h wm CPU s) data x y w h wm s"
  "VDP_setTileMapDataRectEx debug plane data basetile x y w h wm CPU s =
     draw_rect plane (\<lambda>src row x w s. setTileMapDataRowEx debug plane src basetile row x w CPU s)
       (\<lambda>src col y h s. setTileMapDataColumnEx debug plane src basetile col y h wm CPU s) data x y w h wm s"
  by (simp_all only: VDP_setTileMapDataRect_def VDP_setTileMapDataRectEx_def draw_rect_def)

text \<open>
  C5 Drawing a rectangle of at most the size of the plane by the CPU, with a base tile, puts into
  every cell of the rectangle, wrapped around at the edges of the plane, the tile at its place in the
  data, with the index and palette of the base added and its flags set, and leaves every other word
  of the video memory as it is. It does so whether the code draws by rows or by columns and wherever
  it splits them; of the driver only the auto increment changes.
\<close>

theorem VDP_setTileMapDataRectEx_draws:
  assumes "vdp_inv (s :: 'a dma_st_scheme)" "unat w \<le> pw plane s" "unat h \<le> ph plane s" "data + unat h * unat wm + unat w < 2 ^ 31"
  shows "\<exists>es r. VDP_setTileMapDataRectEx debug plane data basetile x y w h wm CPU s =
      s\<lparr>regValues := (regValues s)(0xF := r), io := io s @ es\<rparr>
    \<and> (\<forall>v i j. i < unat w \<and> j < unat h \<longrightarrow>
        v_mem (vram_after es (chip_of s) v) (cell plane s (unat x + i) (unat y + j)) =
          tile_ex basetile (ram s (data + i + j * unat wm)))
    \<and> (\<forall>v a. (\<forall>i j. i < unat w \<and> j < unat h \<longrightarrow> a \<noteq> cell plane s (unat x + i) (unat y + j)) \<longrightarrow>
        v_mem (vram_after es (chip_of s) v) a = v_mem v a)"
  unfolding rect_is_draw_rect using based.rect_ok [OF vdp_inv_geo [OF assms(1)] assms(2-4)] .

text \<open>The same for data without a base tile.\<close>

lemma VDP_setTileMapDataRect_draws:
  assumes "vdp_inv (s :: 'a dma_st_scheme)" "unat w \<le> pw plane s" "unat h \<le> ph plane s" "data + unat h * unat wm + unat w < 2 ^ 31"
  shows "\<exists>es r. VDP_setTileMapDataRect debug plane data x y w h wm CPU s = s\<lparr>regValues := (regValues s)(0xF := r), io := io s @ es\<rparr>
    \<and> (\<forall>v i j. i < unat w \<and> j < unat h \<longrightarrow>
        v_mem (vram_after es (chip_of s) v) (cell plane s (unat x + i) (unat y + j)) = ram s (data + i + j * unat wm))
    \<and> (\<forall>v a. (\<forall>i j. i < unat w \<and> j < unat h \<longrightarrow> a \<noteq> cell plane s (unat x + i) (unat y + j)) \<longrightarrow>
        v_mem (vram_after es (chip_of s) v) a = v_mem v a)"
  unfolding rect_is_draw_rect using plain.rect_ok [OF vdp_inv_geo [OF assms(1)] assms(2-4)] .

text \<open>A console in H32 mode with planes of 32x32 cells; the word at every address is the address.\<close>

definition draw0 :: dma_st where
  "draw0 = dma0\<lparr>planeWidth := 32, planeHeight := 32, planeWidthSft := 5, planeHeightSft := 5, windowWidth := 32,
     windowWidthSft := 5, screenWidth := 256, screenHeight := 224, ram := of_nat\<rparr>"

lemma draw0_ok: "vdp_inv draw0" "pw BG_A draw0 = 32" "ph BG_A draw0 = 32"
proof -
  have "chip_of draw0 = chip0" by (simp add: draw0_def dma0_def chip_of_def)
  then show "vdp_inv draw0" unfolding vdp_inv_def coherent_def screen_ok_def plane_ok_def addr_ok_def
    by (simp add: draw0_def dma0_def chip0_def min_addr_def)
qed (simp_all add: pw_def ph_def pwidth_def pheight_def draw0_def)

theorem VDP_setTileMapDataRectEx_draws_witness:
  "\<exists>es. io (VDP_setTileMapDataRectEx False BG_A 100 0 30 5 4 1 4 CPU draw0) = io draw0 @ es
    \<and> (\<forall>v. v_mem (vram_after es (chip_of draw0) v) 320 = 102 \<and> v_mem (vram_after es (chip_of draw0) v) 0 = v_mem v 0)"
proof -
  obtain es r where e: "VDP_setTileMapDataRectEx False BG_A 100 0 30 5 4 1 4 CPU draw0 =
        draw0\<lparr>regValues := (regValues draw0)(0xF := r), io := io draw0 @ es\<rparr>"
      "\<forall>v i j. i < unat (4 :: u16) \<and> j < unat (1 :: u16) \<longrightarrow>
        v_mem (vram_after es (chip_of draw0) v) (cell BG_A draw0 (unat (30 :: u16) + i) (unat (5 :: u16) + j)) =
          tile_ex 0 (ram draw0 (100 + i + j * unat (4 :: u16)))"
      "\<forall>v a. (\<forall>i j. i < unat (4 :: u16) \<and> j < unat (1 :: u16) \<longrightarrow> a \<noteq> cell BG_A draw0 (unat (30 :: u16) + i) (unat (5 :: u16) + j)) \<longrightarrow>
        v_mem (vram_after es (chip_of draw0) v) a = v_mem v a"
    using VDP_setTileMapDataRectEx_draws [of draw0 4 BG_A 1 100 4 False 0 30 5] by (auto simp: draw0_ok)
  have base: "plane_base BG_A draw0 = 0" by (simp add: plane_base_def draw0_def dma0_def)
  have c: "cell BG_A draw0 (30 + i) 5 = of_nat (2 * ((30 + i) mod 32 + 160))" for i by (simp add: cell_def base draw0_ok)
  have "(of_nat (2 * ((30 + i) mod 32 + 160)) :: u16) \<noteq> 0" for i
  proof -
    have "(30 + i) mod 32 < 32" by simp
    then have "unat (of_nat (2 * ((30 + i) mod 32 + 160)) :: u16) = 2 * ((30 + i) mod 32 + 160)" by (simp add: unat_of_nat del: of_nat_mult of_nat_add)
    then show ?thesis by (metis add_is_0 mult_is_0 numeral_neq_zero unat_0)
  qed
  then have "\<forall>v. v_mem (vram_after es (chip_of draw0) v) 0 = v_mem v 0" using e(3) c by simp
  moreover have "\<forall>v. v_mem (vram_after es (chip_of draw0) v) 320 = 102"
    using e(2) [rule_format, of 2 0] c [of 2] by (simp add: tile_ex_def) (simp add: draw0_def)
  ultimately show ?thesis using e(1) by auto
qed

section \<open>The temporary buffer\<close>

text \<open>
  C36 With the DMA method the functions that prepare their data in the temporary buffer do not notice
  that it is full: a row of more than 16 tiles is then prepared at address 0 instead, transferred from
  there, and the buffer is released although nothing was allocated, so that the next free address of
  the buffer moves back over memory that is in use.
\<close>

theorem setTileMapDataRowEx_full:
  assumes "w > 16" "nextDataBuffer s + unat w > dmaDataBuffer s + unat (dataBufferSize s)" "unat w \<le> nextDataBuffer s"
  shows "ram (setTileMapDataRowEx debug plane data basetile row x w DMA s) = prepareTileMapDataRowEx NULL w data basetile (ram s)
    \<and> nextDataBuffer (setTileMapDataRowEx debug plane data basetile row x w DMA s) + unat w = nextDataBuffer s"
proof -
  have a: "DMA_allocateTemp w s = (NULL, s)" using assms(2) by (simp add: DMA_allocateTemp_def DMA_releaseTemp_def Let_def)
  have f: "ram (DMA_doDmaFast loc src to n st t) = ram t" "nextDataBuffer (DMA_doDmaFast loc src to n st t) = nextDataBuffer t"
    for loc src to n st and t :: "'a dma_st_scheme"
    by (simp_all add: DMA_doDmaFast_def Let_def set_step_def VDP_setAutoInc_def write_reg_def set_reg_def ctrl_w_def
        Z80_getAndRequestBus_def Z80_isBusTaken_def Z80_requestBus_def Z80_releaseBus_def split: prod.split)
  have "\<not> w \<le> 16" using assms(1) by simp
  then show ?thesis using assms(1,3) by (simp add: setTileMapDataRowEx_def dma_prepared_def a Let_def f DMA_releaseTemp_def)
qed

theorem setTileMapDataRowEx_full_witness:
  "nextDataBuffer (setTileMapDataRowEx True BG_A 100 0 0 0 20 DMA (draw0\<lparr>dmaDataBuffer := 1000, nextDataBuffer := 1000, dataBufferSize := 10\<rparr>)) = 980"
  using setTileMapDataRowEx_full [of 20 "draw0\<lparr>dmaDataBuffer := 1000, nextDataBuffer := 1000, dataBufferSize := 10\<rparr>" True BG_A 100 0 0 0]
  by simp

end
