(* ===== verification/Mapper.thy ===== *)
theory Mapper
  imports Prelude
begin

text \<open>
  Bank switching, \<open>src/mapper.c\<close>. The 68000 sees the first 4 MB of its address space through eight
  regions of 512 KB; a register of the mapper selects which bank of the ROM a region shows. Data
  behind the first 3 MB is reached through the regions 6 and 7, which the code uses in turn. The
  functions return the address at which the data is visible after the switch.

  The lemmas say, with the mapper's registers, that the data really is there.
\<close>

section \<open>State\<close>

text \<open>\<open>banks\<close> is the code's copy of the registers, \<open>mapper\<close> the registers themselves, one byte each.\<close>

record mapper_st =
  banks :: "u16 \<Rightarrow> u16"
  region :: bool
  mapper :: "u16 \<Rightarrow> u8"

definition BANK_IN_MASK :: u32 where [cfg]: "BANK_IN_MASK = 0x7FFFF"
definition BANK_OUT_MASK :: u32 where [cfg]: "BANK_OUT_MASK = 0xFFFFFFFF XOR BANK_IN_MASK"

section \<open>Operations\<close>

definition SYS_getBank :: "u16 \<Rightarrow> 'a mapper_st_scheme \<Rightarrow> u16" where
  "SYS_getBank regionIndex s = banks s regionIndex"

definition SYS_setBank :: "u16 \<Rightarrow> u16 \<Rightarrow> 'a mapper_st_scheme \<Rightarrow> 'a mapper_st_scheme" where
  "SYS_setBank regionIndex bankIndex s =
    (if regionIndex > 0 \<and> regionIndex < 8 then
       s\<lparr>mapper := (mapper s)(regionIndex := ucast bankIndex), banks := (banks s)(regionIndex := bankIndex)\<rparr>
     else s)"

text \<open>\<open>while (--len) SYS_setBank(len, len);\<close> from 8 on\<close>

fun resetBanks_loop :: "nat \<Rightarrow> 'a mapper_st_scheme \<Rightarrow> 'a mapper_st_scheme" where
  "resetBanks_loop 0 s = s"
| "resetBanks_loop (Suc len) s = (if len = 0 then s else resetBanks_loop len (SYS_setBank (of_nat len) (of_nat len) s))"

definition SYS_resetBanks :: "'a mapper_st_scheme \<Rightarrow> 'a mapper_st_scheme" where
  "SYS_resetBanks s = (resetBanks_loop 8 s)\<lparr>region := False\<rparr>"

definition needBankSwitch :: "u32 \<Rightarrow> bool" where
  "needBankSwitch addr =
    (let m = ucast (drop_bit 16 addr AND 0xFFF0) :: u16 in m \<ge> 0x0030 \<and> m < 0xE0E0)"

definition bank_index :: "u32 \<Rightarrow> u16" where
  "bank_index addr = ucast (drop_bit 19 addr AND 0x3F)"

definition setBank :: "u32 \<Rightarrow> 'a mapper_st_scheme \<Rightarrow> u32 \<times> 'a mapper_st_scheme" where
  "setBank addr s =
    (let bankIndex = bank_index addr in
     if region s then
       (if banks s 6 = bankIndex then (0x300000, s\<lparr>region := True\<rparr>)
        else if banks s 7 = bankIndex then (0x380000, s\<lparr>region := False\<rparr>)
        else (0x380000, (SYS_setBank 7 bankIndex s)\<lparr>region := False\<rparr>))
     else
       (if banks s 7 = bankIndex then (0x380000, s\<lparr>region := False\<rparr>)
        else if banks s 6 = bankIndex then (0x300000, s\<lparr>region := True\<rparr>)
        else (0x300000, (SYS_setBank 6 bankIndex s)\<lparr>region := True\<rparr>)))"

definition setBankEx :: "u32 \<Rightarrow> bool \<Rightarrow> 'a mapper_st_scheme \<Rightarrow> u32 \<times> 'a mapper_st_scheme" where
  "setBankEx addr high s =
    (let bankIndex = bank_index addr in
     if high then
       (0x380000, (if banks s 7 \<noteq> bankIndex then SYS_setBank 7 bankIndex s else s)\<lparr>region := False\<rparr>)
     else
       (0x300000, (if banks s 6 \<noteq> bankIndex then SYS_setBank 6 bankIndex s else s)\<lparr>region := True\<rparr>))"

definition setBanks :: "u32 \<Rightarrow> 'a mapper_st_scheme \<Rightarrow> u32 \<times> 'a mapper_st_scheme" where
  "setBanks addr s =
    (let bankIndex = bank_index addr in
     if bankIndex = 5 then (0x280000, SYS_setBank 6 6 s)
     else (0x300000, SYS_setBank 7 (bankIndex + 1) (SYS_setBank 6 (bankIndex + 0) s)))"

definition SYS_getFarData :: "u32 \<Rightarrow> 'a mapper_st_scheme \<Rightarrow> u32 \<times> 'a mapper_st_scheme" where
  "SYS_getFarData addr s =
    (if \<not> needBankSwitch addr then (addr, s)
     else (let (b, s) = setBank addr s in (b + (addr AND BANK_IN_MASK), s)))"

definition SYS_getFarDataEx :: "u32 \<Rightarrow> bool \<Rightarrow> 'a mapper_st_scheme \<Rightarrow> u32 \<times> 'a mapper_st_scheme" where
  "SYS_getFarDataEx addr high s =
    (if \<not> needBankSwitch addr then (addr, s)
     else (let (b, s) = setBankEx addr high s in (b + (addr AND BANK_IN_MASK), s)))"

definition isCrossingBank :: "u32 \<Rightarrow> u32 \<Rightarrow> bool" where
  "isCrossingBank start stop \<longleftrightarrow> (start XOR stop) AND BANK_OUT_MASK \<noteq> 0"

definition SYS_isCrossingBank :: "u32 \<Rightarrow> u32 \<Rightarrow> bool" where
  "SYS_isCrossingBank start len = isCrossingBank start (start + (len - 1))"

definition SYS_getFarDataSafe :: "u32 \<Rightarrow> u32 \<Rightarrow> 'a mapper_st_scheme \<Rightarrow> u32 \<times> 'a mapper_st_scheme" where
  "SYS_getFarDataSafe start len s =
    (let stop = start + (len - 1) in
     if isCrossingBank start stop then
       (if \<not> needBankSwitch stop then (start, s)
        else (let (b, s) = setBanks start s in (b + (start AND BANK_IN_MASK), s)))
     else SYS_getFarData start s)"

definition SYS_getFarDataSafeEx :: "u32 \<Rightarrow> u32 \<Rightarrow> bool \<Rightarrow> 'a mapper_st_scheme \<Rightarrow> u32 \<times> 'a mapper_st_scheme" where
  "SYS_getFarDataSafeEx start len high s =
    (let stop = start + (len - 1) in
     if isCrossingBank start stop then
       (if \<not> needBankSwitch stop then (start, s)
        else (let (b, s) = setBanks start s in (b + (start AND BANK_IN_MASK), s)))
     else SYS_getFarDataEx start high s)"

definition SYS_getNextFarAccessRegion :: "'a mapper_st_scheme \<Rightarrow> bool" where
  "SYS_getNextFarAccessRegion s = region s"

definition SYS_setNextFarAccessRegion :: "bool \<Rightarrow> 'a mapper_st_scheme \<Rightarrow> 'a mapper_st_scheme" where
  "SYS_setNextFarAccessRegion high s = s\<lparr>region := high\<rparr>"

section \<open>What the processor sees\<close>

text \<open>The byte of the ROM that shows at an address below 4 MB; other addresses are not mapped.\<close>

definition seen_at :: "'a mapper_st_scheme \<Rightarrow> nat \<Rightarrow> nat" where
  "seen_at s a = (if a < 0x400000 then unat (mapper s (of_nat (a div 0x80000))) * 0x80000 + a mod 0x80000 else a)"

text \<open>The copy agrees with the registers, and the regions below the sixth are never switched.\<close>

definition mapper_inv :: "'a mapper_st_scheme \<Rightarrow> bool" where
  "mapper_inv s \<longleftrightarrow> (\<forall>r. r < 8 \<longrightarrow> banks s r = ucast (mapper s r)) \<and> (\<forall>r. r < 6 \<longrightarrow> mapper s r = ucast r)"

section \<open>Addresses\<close>

lemma in_mask: "unat (addr AND BANK_IN_MASK) = unat addr mod 0x80000"
proof -
  have m: "BANK_IN_MASK = mask 19" by (simp add: BANK_IN_MASK_def mask_eq_exp_minus_1)
  show ?thesis unfolding m unat_and_mask by simp
qed

lemma bank_index_div: "unat addr < 0x2000000 \<Longrightarrow> unat (bank_index addr) = unat addr div 0x80000"
proof -
  assume a: "unat addr < 0x2000000"
  have m: "(0x3F :: u32) = mask 6" by (simp add: mask_eq_exp_minus_1)
  have "unat (drop_bit 19 addr AND 0x3F) = unat addr div 0x80000 mod 64" unfolding m unat_and_mask unat_drop_bit by simp
  moreover have "unat addr div 0x80000 < 64" using a by (simp add: div_less_iff_less_mult)
  ultimately show ?thesis by (simp add: bank_index_def unat_ucast_mod)
qed

lemma need_switch: "unat addr < 0x2000000 \<Longrightarrow> needBankSwitch addr \<longleftrightarrow> 0x300000 \<le> unat addr"
proof -
  assume a: "unat addr < 0x2000000"
  let ?x = "drop_bit 16 addr"
  have x: "unat ?x = unat addr div 65536" by (simp add: unat_drop_bit)
  then have lt: "unat ?x < 512" using a by (simp add: div_less_iff_less_mult)
  have m: "(0xFFF0 :: u32) = mask 16 AND NOT (mask 4)" by (simp add: mask_eq_exp_minus_1)
  have "?x AND mask 16 = ?x" using lt by (intro unsigned_word_eqI [where 'a = nat]) (simp add: unat_and_mask)
  then have "?x AND 0xFFF0 = ?x AND NOT (mask 4)" unfolding m by (metis and.assoc)
  also have "\<dots> = ?x - (?x AND mask 4)" by (rule word_and_not_minus)
  finally have "unat (?x AND 0xFFF0) = unat ?x - unat ?x mod 16"
    by (simp add: unat_sub word_and_le1 unat_and_mask word_and_le2)
  moreover have "unat ?x - unat ?x mod 16 < 65536" using lt by linarith
  ultimately have "unat (ucast (?x AND 0xFFF0) :: u16) = unat addr div 65536 - unat addr div 65536 mod 16"
    unfolding unat_ucast_mod x [symmetric] by simp
  moreover have "48 \<le> n - n mod 16 \<longleftrightarrow> 48 \<le> n" for n :: nat
  proof -
    have "48 \<le> n - n mod 16 \<longleftrightarrow> 3 \<le> n div 16" by (simp add: minus_mod_eq_mult_div)
    then show ?thesis by (simp add: less_eq_div_iff_mult_less_eq)
  qed
  moreover have "48 \<le> unat addr div 65536 \<longleftrightarrow> 0x300000 \<le> unat addr" by (simp add: less_eq_div_iff_mult_less_eq)
  moreover have "unat addr div 65536 - unat addr div 65536 mod 16 < 57568" using lt x by linarith
  ultimately show ?thesis using lt x by (simp add: needBankSwitch_def Let_def word_le_nat_alt word_less_nat_alt)
qed

lemma crossing: "isCrossingBank a b \<longleftrightarrow> unat a div 0x80000 \<noteq> unat b div 0x80000"
proof -
  have m: "BANK_OUT_MASK = NOT (mask 19)" by (simp add: BANK_OUT_MASK_def BANK_IN_MASK_def mask_eq_exp_minus_1)
  have "(a XOR b) AND NOT (mask 19) = 0 \<longleftrightarrow> (\<forall>n. 19 \<le> n \<and> n < 32 \<longrightarrow> bit a n = bit b n)"
    by (auto simp: bit_eq_iff bit_and_iff bit_xor_iff bit_not_iff bit_mask_iff)
  also have "\<dots> \<longleftrightarrow> drop_bit 19 a = drop_bit 19 b"
  proof
    assume h: "\<forall>n. 19 \<le> n \<and> n < 32 \<longrightarrow> bit a n = bit b n"
    show "drop_bit 19 a = drop_bit 19 b"
    proof (rule bit_word_eqI)
      fix n assume "n < LENGTH(32)"
      then show "bit (drop_bit 19 a) n = bit (drop_bit 19 b) n"
        using h [rule_format, of "19 + n"] by (cases "19 + n < 32") (auto simp: bit_drop_bit_eq dest: bit_imp_le_length)
    qed
  next
    assume e: "drop_bit 19 a = drop_bit 19 b"
    show "\<forall>n. 19 \<le> n \<and> n < 32 \<longrightarrow> bit a n = bit b n"
    proof (intro allI impI)
      fix n :: nat assume "19 \<le> n \<and> n < 32"
      then show "bit a n = bit b n" using arg_cong [OF e, of "\<lambda>w. bit w (n - 19)"] by (simp add: bit_drop_bit_eq)
    qed
  qed
  also have "\<dots> \<longleftrightarrow> unat a div 0x80000 = unat b div 0x80000"
  proof -
    have "unat (drop_bit 19 w) = unat w div 0x80000" for w :: u32 by (simp add: unat_drop_bit)
    then show ?thesis by (metis unsigned_word_eqI)
  qed
  finally show ?thesis by (simp add: isCrossingBank_def m)
qed

section \<open>Access to far data\<close>

lemma seen_window:
  assumes "r < 8" "ofs < 0x80000"
  shows "seen_at s (r * 0x80000 + ofs) = unat (mapper s (of_nat r)) * 0x80000 + ofs"
proof -
  have "r * 0x80000 \<le> 7 * 0x80000" using assms(1) by (intro mult_le_mono1) simp
  then have "r * 0x80000 + ofs < 0x400000" using assms(2) by linarith
  moreover have "(r * 0x80000 + ofs) div 0x80000 = r" "(r * 0x80000 + ofs) mod 0x80000 = ofs" using assms(2) by auto
  ultimately show ?thesis by (simp add: seen_at_def)
qed

text \<open>The first 3 MB are visible at their own addresses.\<close>

lemma seen_direct:
  assumes "mapper_inv s" "a < 0x300000"
  shows "seen_at s a = a"
proof -
  let ?r = "a div 0x80000"
  have r: "?r < 6" using assms(2) by (simp add: div_less_iff_less_mult)
  then have "(of_nat ?r :: u16) < 6" by (simp add: word_less_nat_alt unat_of_nat)
  then have "mapper s (of_nat ?r) = ucast (of_nat ?r :: u16)" using assms(1) by (simp add: mapper_inv_def)
  then have "unat (mapper s (of_nat ?r)) = ?r" using r by (simp add: ucast_of_nat_8 unat_of_nat)
  then show ?thesis using seen_window [of ?r "a mod 0x80000" s] r by simp
qed

text \<open>The region \<open>r\<close> of the pair that is used in turn, and what is known after a switch.\<close>

definition last_region :: "'a mapper_st_scheme \<Rightarrow> nat" where
  "last_region s = (if region s then 6 else 7)"

lemma ucast_byte: "unat (b :: u16) < 256 \<Longrightarrow> ucast (ucast b :: u8) = b"
  by (intro unsigned_word_eqI [where 'a = nat]) (simp add: unat_ucast_mod)

lemma set_bank_inv:
  "mapper_inv s \<Longrightarrow> unat b < 256 \<Longrightarrow> 6 \<le> r \<Longrightarrow> mapper_inv (SYS_setBank r b s)"
  unfolding mapper_inv_def SYS_setBank_def by (auto simp: ucast_byte)

lemma mapper_inv_region [simp]: "mapper_inv (s\<lparr>region := x\<rparr>) = mapper_inv s"
  by (simp add: mapper_inv_def)

lemma setBank_ok:
  assumes inv: "mapper_inv s" and b: "unat (bank_index addr) < 256"
  shows "mapper_inv (snd (setBank addr s)) \<and> unat (fst (setBank addr s)) = last_region (snd (setBank addr s)) * 0x80000
    \<and> mapper (snd (setBank addr s)) (of_nat (last_region (snd (setBank addr s)))) = ucast (bank_index addr)
    \<and> mapper (snd (setBank addr s)) (of_nat (last_region s)) = mapper s (of_nat (last_region s))"
proof -
  have e: "mapper s r = ucast (bank_index addr)" if "banks s r = bank_index addr" "r < 8" for r
  proof -
    have "ucast (mapper s r) = bank_index addr" using inv that by (simp add: mapper_inv_def)
    moreover have "(ucast (ucast x :: u16) :: u8) = x" for x
      using unat_u8_lt [of x] by (intro unsigned_word_eqI [where 'a = nat]) (simp add: unat_ucast_mod)
    ultimately show ?thesis by metis
  qed
  show ?thesis
    using inv b set_bank_inv [OF inv b, of 6] set_bank_inv [OF inv b, of 7] e [of 6] e [of 7]
    by (cases "region s") (auto simp: setBank_def Let_def last_region_def SYS_setBank_def)
qed

lemma getFarData_ok:
  assumes inv: "mapper_inv s" and a: "unat addr + k < 0x2000000" and k: "unat addr mod 0x80000 + k < 0x80000"
    and p: "SYS_getFarData addr s = (p, s')"
  shows "mapper_inv s' \<and> seen_at s' (unat p + k) = unat addr + k"
proof (cases "0x300000 \<le> unat addr")
  case False
  then have ps: "p = addr" "s' = s" using p a need_switch [of addr] by (simp_all add: SYS_getFarData_def)
  have "unat addr + k = unat addr div 0x80000 * 0x80000 + (unat addr mod 0x80000 + k)" by simp
  moreover have "unat addr div 0x80000 < 6" using False by (simp add: div_less_iff_less_mult)
  then have "unat addr div 0x80000 * 0x80000 \<le> 5 * 0x80000" by (intro mult_le_mono1) simp
  ultimately have "seen_at s (unat addr + k) = unat addr + k" using k by (intro seen_direct inv) linarith
  then show ?thesis using ps inv by simp
next
  case True
  obtain b s1 where sb: "setBank addr s = (b, s1)" by fastforce
  have u: "unat addr < 0x2000000" using a by simp
  then have ps: "p = b + (addr AND BANK_IN_MASK)" "s' = s1"
    using p sb True need_switch [of addr] by (simp_all add: SYS_getFarData_def)
  have bi: "unat (bank_index addr) = unat addr div 0x80000" "unat addr div 0x80000 < 64"
    using u bank_index_div [OF u] by (simp_all add: div_less_iff_less_mult)
  then have sp: "mapper_inv s1" "unat b = last_region s1 * 0x80000" "mapper s1 (of_nat (last_region s1)) = ucast (bank_index addr)"
    using setBank_ok [OF inv, of addr] sb by simp_all
  have lr: "last_region s1 < 8" by (simp add: last_region_def)
  have "unat p = last_region s1 * 0x80000 + unat addr mod 0x80000"
    unfolding ps(1) using sp(2) lr by (subst unat_plus_small) (auto simp: in_mask last_region_def)
  then have "seen_at s1 (unat p + k) = unat (mapper s1 (of_nat (last_region s1))) * 0x80000 + (unat addr mod 0x80000 + k)"
    using seen_window [OF lr k, of s1] by (simp add: add.assoc)
  moreover have "unat (ucast (bank_index addr) :: u8) = unat addr div 0x80000" using bi by (simp add: unat_ucast_mod)
  ultimately show ?thesis using sp ps by simp
qed

lemma setBanks_ok:
  assumes inv: "mapper_inv s" and u: "unat addr < 0x2000000" and b: "5 \<le> unat addr div 0x80000" "unat addr div 0x80000 < 63"
    and p: "setBanks addr s = (b0, s')"
  shows "mapper_inv s' \<and> (\<exists>r < 7. unat b0 = r * 0x80000 \<and> unat (mapper s' (of_nat r)) = unat addr div 0x80000
    \<and> unat (mapper s' (of_nat (r + 1))) = unat addr div 0x80000 + 1)"
proof -
  have bi: "unat (bank_index addr) = unat addr div 0x80000" by (rule bank_index_div [OF u])
  show ?thesis
  proof (cases "bank_index addr = 5")
    case True
    then have "b0 = 0x280000" "s' = SYS_setBank 6 6 s" using p by (simp_all add: setBanks_def Let_def)
    moreover have "mapper s 5 = 5" using inv by (simp add: mapper_inv_def)
    ultimately show ?thesis using set_bank_inv [OF inv, of 6 6] bi True by (intro conjI exI [of _ 5]) (simp_all add: SYS_setBank_def)
  next
    case False
    have n: "unat (bank_index addr + 1) = unat addr div 0x80000 + 1" using b(2) bi by (simp add: unat_plus_small)
    have "b0 = 0x300000" "s' = SYS_setBank 7 (bank_index addr + 1) (SYS_setBank 6 (bank_index addr) s)"
      using p False by (simp_all add: setBanks_def Let_def)
    moreover have "mapper_inv (SYS_setBank 7 (bank_index addr + 1) (SYS_setBank 6 (bank_index addr) s))"
      using b(2) bi n by (intro set_bank_inv inv) simp_all
    ultimately show ?thesis using b(2) bi n by (intro conjI exI [of _ 6]) (simp_all add: SYS_setBank_def unat_ucast_mod)
  qed
qed

lemma getFarDataSafe_ok:
  assumes inv: "mapper_inv s" and n: "0 < unat n" "unat n \<le> 0x80000" "unat start + unat n \<le> 0x2000000"
    and p: "SYS_getFarDataSafe start n s = (p, s')" and k: "k < unat n"
  shows "mapper_inv s' \<and> seen_at s' (unat p + k) = unat start + k"
proof -
  let ?last = "start + (n - 1)"
  have "unat (n - 1) = unat n - 1" using n(1) by (subst unat_minus_le) (simp_all add: word_le_nat_alt)
  then have l: "unat ?last = unat start + unat n - 1" using n by (subst unat_plus_small) simp_all
  let ?B = "unat start div 0x80000" and ?o = "unat start mod 0x80000"
  have su: "unat start = ?B * 0x80000 + ?o" "?o < 0x80000" by simp_all
  have u: "unat start < 0x2000000" using n by linarith
  show ?thesis
  proof (cases "?B = unat ?last div 0x80000")
    case True
    then have c: "\<not> isCrossingBank start ?last" by (simp add: crossing)
    have "unat ?last mod 0x80000 = ?o + (unat n - 1)"
    proof -
      have "unat ?last = ?B * 0x80000 + unat ?last mod 0x80000" using True by (metis div_mult_mod_eq)
      then show ?thesis using l su(1) n(1) by linarith
    qed
    moreover have "unat ?last mod 0x80000 < 0x80000" by simp
    ultimately have "?o + k < 0x80000" using k by linarith
    then show ?thesis using getFarData_ok [OF inv, of start k p s'] p c k n by (simp add: SYS_getFarDataSafe_def Let_def)
  next
    case False
    then have c: "isCrossingBank start ?last" by (simp add: crossing)
    have far: "needBankSwitch ?last \<longleftrightarrow> 0x300000 \<le> unat start + unat n - 1" using need_switch [of ?last] l n by simp
    have B: "unat ?last div 0x80000 = ?B + 1"
    proof (rule div_nat_eqI)
      have "?B < unat ?last div 0x80000" using False l div_le_mono [of "unat start" "unat ?last" "0x80000"] n(1) by simp
      then have "(?B + 1) * 0x80000 \<le> unat ?last div 0x80000 * 0x80000" by (intro mult_le_mono1) simp
      also have "\<dots> \<le> unat ?last" by simp
      finally show "0x80000 * (?B + 1) \<le> unat ?last" by (simp add: mult.commute)
      show "unat ?last < 0x80000 * Suc (?B + 1)" using l n su by simp
    qed
    show ?thesis
    proof (cases "0x300000 \<le> unat start + unat n - 1")
      case near: False
      then have ps: "p = start" "s' = s" using p c far by (simp_all add: SYS_getFarDataSafe_def Let_def)
      have "seen_at s (unat start + k) = unat start + k" using near k by (intro seen_direct inv) simp
      then show ?thesis using ps inv by simp
    next
      case True
      obtain b s1 where sb: "setBanks start s = (b, s1)" by fastforce
      have ps: "p = b + (start AND BANK_IN_MASK)" "s' = s1" using p c far True sb by (simp_all add: SYS_getFarDataSafe_def Let_def)
      have "6 \<le> unat ?last div 0x80000" "unat ?last div 0x80000 < 64" using True l n by (simp_all add: less_eq_div_iff_mult_less_eq div_less_iff_less_mult)
      then have "5 \<le> ?B" "?B < 63" unfolding B by simp_all
      then obtain r where r: "mapper_inv s1" "r < 7" "unat b = r * 0x80000" "unat (mapper s1 (of_nat r)) = ?B"
          "unat (mapper s1 (of_nat (r + 1))) = ?B + 1"
        using setBanks_ok [OF inv u _ _ sb] by auto
      have "r * 0x80000 \<le> 6 * 0x80000" using r(2) by (intro mult_le_mono1) simp
      then have up: "unat p = r * 0x80000 + ?o" unfolding ps(1) using r(3) su(2) by (subst unat_plus_small) (simp_all add: in_mask)
      show ?thesis
      proof (cases "?o + k < 0x80000")
        case True
        then have "seen_at s1 (unat p + k) = ?B * 0x80000 + (?o + k)" using seen_window [of r "?o + k" s1] r(2,4) up by (simp add: add.assoc)
        moreover have "?B * 0x80000 + (?o + k) = unat start + k" using su(1) by linarith
        ultimately show ?thesis using r(1) ps(2) by simp
      next
        case False
        then have "?o + k - 0x80000 < 0x80000" using su(2) k n(2) by linarith
        then have "seen_at s1 ((r + 1) * 0x80000 + (?o + k - 0x80000)) = (?B + 1) * 0x80000 + (?o + k - 0x80000)"
          using seen_window [of "r + 1" "?o + k - 0x80000" s1] r(2,5) by simp
        moreover have "(r + 1) * 0x80000 + (?o + k - 0x80000) = unat p + k" "(?B + 1) * 0x80000 + (?o + k - 0x80000) = unat start + k"
          using False up su(1) by simp_all
        ultimately show ?thesis using r(1) ps(2) by simp
      qed
    qed
  qed
qed

section \<open>Properties\<close>

text \<open>
  C15 Far data: whatever the state of the banks, \<open>SYS_getFarDataSafe\<close> returns an address at which all
  \<open>len\<close> bytes of the data are visible, for every piece of the first 32 MB of at most 512 KB, whether
  it crosses the boundary of a bank or not. The code's copy of the registers stays correct.
\<close>

theorem SYS_getFarDataSafe_ok:
  assumes "mapper_inv s" "0 < unat n" "unat n \<le> 0x80000" "unat start + unat n \<le> 0x2000000"
    and "SYS_getFarDataSafe start n s = (p, s')"
  shows "mapper_inv s' \<and> (\<forall>k < unat n. seen_at s' (unat p + k) = unat start + k)"
  using getFarDataSafe_ok [OF assms] assms(2) by blast

definition mapper0 :: mapper_st where
  "mapper0 = \<lparr>banks = (\<lambda>r. r), region = False, mapper = ucast\<rparr>"

lemma mapper0_inv: "mapper_inv mapper0"
proof -
  have "r = ucast (ucast r :: u8)" if "r < 8" for r :: u16
    using that by (intro ucast_byte [symmetric]) (simp add: word_less_nat_alt)
  then show ?thesis by (simp add: mapper_inv_def mapper0_def)
qed

theorem SYS_getFarDataSafe_ok_witness:
  "seen_at (snd (SYS_getFarDataSafe 0x47FFFF 2 mapper0)) (unat (fst (SYS_getFarDataSafe 0x47FFFF 2 mapper0)) + 1) = 0x480000"
proof -
  have "\<forall>k < unat (2 :: u32). seen_at (snd (SYS_getFarDataSafe 0x47FFFF 2 mapper0))
      (unat (fst (SYS_getFarDataSafe 0x47FFFF 2 mapper0)) + k) = unat (0x47FFFF :: u32) + k"
    using SYS_getFarDataSafe_ok [OF mapper0_inv, of 2 "0x47FFFF"] by simp
  from this [rule_format, of 1] show ?thesis by simp
qed

text \<open>
  The two regions are used in turn: data reached by a call of \<open>SYS_getFarData\<close> is still visible
  at the address it returned after one further call, for any other data.
\<close>

theorem SYS_getFarData_keeps:
  assumes "mapper_inv s" "unat a < 0x2000000" "unat b < 0x2000000" "SYS_getFarData a s = (p, s1)" "SYS_getFarData b s1 = (q, s2)"
    and "unat a mod 0x80000 + k < 0x80000" "unat a + k < 0x2000000"
  shows "seen_at s2 (unat p + k) = unat a + k"
proof (cases "needBankSwitch a")
  case False
  have "seen_at s1 (unat p + k) = unat a + k" "mapper_inv s1" using getFarData_ok [OF assms(1,7,6,4)] by simp_all
  moreover have inv2: "mapper_inv s2" using getFarData_ok [OF \<open>mapper_inv s1\<close>, of b 0 q s2] assms(3,5) by simp
  have "p = a" using False assms(4) by (simp add: SYS_getFarData_def)
  moreover have "unat a < 0x300000" using False need_switch [OF assms(2)] by simp
  then have "unat a div 0x80000 \<le> 5" using div_le_mono [of "unat a" "0x2FFFFF" "0x80000"] by simp
  then have "unat a + k < 0x300000" using assms(6) mult_le_mono1 [of "unat a div 0x80000" 5 "0x80000"] div_mult_mod_eq [of "unat a" "0x80000"] by linarith
  then have "seen_at s2 (unat a + k) = unat a + k" by (rule seen_direct [OF inv2])
  ultimately show ?thesis by simp
next
  case True
  have v: "seen_at s1 (unat p + k) = unat a + k" "mapper_inv s1" using getFarData_ok [OF assms(1,7,6,4)] by simp_all
  obtain c where sb: "setBank a s = (c, s1)" and pc: "p = c + (a AND BANK_IN_MASK)"
    using True assms(4) by (auto simp: SYS_getFarData_def split: prod.splits)
  have bi: "unat (bank_index d) < 256" if "unat d < 0x2000000" for d
    using bank_index_div [OF that] that div_le_mono [of "unat d" "0x1FFFFFF" "0x80000"] by simp
  have c: "unat c = last_region s1 * 0x80000" using setBank_ok [OF assms(1) bi [OF assms(2)]] sb by simp
  have lr: "last_region s1 < 8" by (simp add: last_region_def)
  have up: "unat p = last_region s1 * 0x80000 + unat a mod 0x80000"
    unfolding pc using c lr by (subst unat_plus_small) (auto simp: in_mask last_region_def)
  have "mapper s2 (of_nat (last_region s1)) = mapper s1 (of_nat (last_region s1))"
    using assms(5) setBank_ok [OF v(2) bi [OF assms(3)]] by (auto simp: SYS_getFarData_def split: if_splits prod.splits)
  then have "seen_at s2 (unat p + k) = seen_at s1 (unat p + k)"
    using seen_window [OF lr assms(6), of s1] seen_window [OF lr assms(6), of s2] unfolding up by (simp add: add.assoc)
  then show ?thesis using v(1) by simp
qed

theorem SYS_getFarData_keeps_witness:
  "seen_at (snd (SYS_getFarData 0x900000 (snd (SYS_getFarData 0x500010 mapper0)))) (unat (fst (SYS_getFarData 0x500010 mapper0)) + 3) = 0x500013"
  using SYS_getFarData_keeps [OF mapper0_inv, of "0x500010" "0x900000" "fst (SYS_getFarData 0x500010 mapper0)"
      "snd (SYS_getFarData 0x500010 mapper0)" "fst (SYS_getFarData 0x900000 (snd (SYS_getFarData 0x500010 mapper0)))"
      "snd (SYS_getFarData 0x900000 (snd (SYS_getFarData 0x500010 mapper0)))" 3]
  by simp

lemma resetBanks_loop_ok:
  "n \<le> 8 \<Longrightarrow> mapper (resetBanks_loop n s) r = (if 0 < unat r \<and> unat r < n then ucast r else mapper s r)
     \<and> banks (resetBanks_loop n s) r = (if 0 < unat r \<and> unat r < n then r else banks s r)"
proof (induction n arbitrary: s)
  case (Suc n)
  show ?case
  proof (cases "n = 0")
    case False
    have n: "unat (of_nat n :: u16) = n" using Suc.prems by (simp add: unat_of_nat)
    then have g: "(0 :: u16) < of_nat n" "(of_nat n :: u16) < 8" using False Suc.prems by (simp_all add: word_less_nat_alt)
    have r: "r = of_nat n \<longleftrightarrow> unat r = n" using n by (metis unsigned_word_eqI)
    show ?thesis
    proof (cases "r = of_nat n")
      case True
      then have "\<not> unat r < n" "0 < unat r" "unat r < Suc n" using n False by simp_all
      then show ?thesis using Suc False g True by (simp add: SYS_setBank_def del: of_nat_Suc)
    next
      case ne: False
      then have "unat r < Suc n \<longleftrightarrow> unat r < n" using r by auto
      then show ?thesis using Suc False g ne by (simp add: SYS_setBank_def)
    qed
  qed auto
qed simp

text \<open>After a reset every region shows its own bank, as the invariant wants it of the first six.\<close>

lemma SYS_resetBanks_inv: "mapper s 0 = 0 \<Longrightarrow> banks s 0 = 0 \<Longrightarrow> mapper_inv (SYS_resetBanks s)"
proof -
  assume z: "mapper s 0 = 0" "banks s 0 = 0"
  have m: "mapper (SYS_resetBanks s) r = ucast r \<and> banks (SYS_resetBanks s) r = r" if "unat r < 8" for r
    using resetBanks_loop_ok [of 8 s r] that z by (cases "r = 0") (simp_all add: SYS_resetBanks_def unat_gt_0)
  show ?thesis unfolding mapper_inv_def
  proof (intro conjI allI impI)
    fix r :: u16 assume "r < 8"
    then have "unat r < 8" by (simp add: word_less_nat_alt)
    then show "banks (SYS_resetBanks s) r = ucast (mapper (SYS_resetBanks s) r)" using m [of r] ucast_byte [of r] by simp
  next
    fix r :: u16 assume "r < 6"
    then have "unat r < 8" by (simp add: word_less_nat_alt)
    then show "mapper (SYS_resetBanks s) r = ucast r" using m [of r] by simp
  qed
qed

end
