(* ===== verification/MapData.thy ===== *)
theory MapData
  imports TileDraw
begin

text \<open>
  The data of large backgrounds, \<open>src/map.c\<close>: a map is a grid of blocks of 8 x 8 metatiles, a
  metatile is 2 x 2 tiles. This theory holds the structure \<open>Map\<close>, its creation, and the functions
  that decode a metatile, a rectangle of them, or the tiles of a column or row of metatiles. The
  code has each decoder once per width of the indexes (8 or 16 bits) and with or without base tile,
  and reaches them through function pointers: the pointers are the fields \<open>m_columnCB\<close> and so on,
  which name the function. The lemmas show that the decoders, which walk through the blocks with
  pointers, agree with the direct computation of a tile.
\<close>

section \<open>The structure\<close>

text \<open>The width of the elements of an array that the code declares as \<open>u8*\<close> or \<open>u16*\<close>.\<close>

datatype width = I8 | I16

text \<open>
  The fields of \<open>Map\<close>. \<open>m_adr\<close> is the address of the structure; the two tables \<open>hScrollTable\<close> and
  \<open>vScrollTable\<close> are in RAM, since transfers read them. The callback that patches data gets the
  buffer, the position, whether it is a column, and the size.
\<close>

type_synonym patch_callback = "ptr \<Rightarrow> u16 \<Rightarrow> u16 \<Rightarrow> bool \<Rightarrow> u16 \<Rightarrow> ram \<Rightarrow> ram"

record Map =
  m_adr :: ptr
  m_w :: u16
  m_h :: u16
  m_metaTiles :: ptr
  m_blocks :: ptr
  m_blockIndexes :: ptr
  m_blockRowOffsets :: ptr
  m_plane :: VDPPlane
  m_baseTile :: u16
  m_posX :: u32
  m_posY :: u32
  m_wMask :: u16
  m_hMask :: u16
  m_planeWidth :: u16
  m_planeHeight :: u16
  m_planeWidthMaskAdj :: u16
  m_planeHeightMaskAdj :: u16
  m_planeWidthSftAdj :: u16
  m_firstUpdate :: bool
  m_lastXT :: u16
  m_lastYT :: u16
  m_columnCB :: "width \<times> width \<times> bool"
  m_rowCB :: "width \<times> width \<times> bool"
  m_patchCB :: "patch_callback option"
  m_metaTileCB :: "width \<times> width"
  m_rectCB :: "width \<times> width"

definition hScrollTable :: "Map \<Rightarrow> ptr" where "hScrollTable mp = m_adr mp + 27"
definition vScrollTable :: "Map \<Rightarrow> ptr" where "vScrollTable mp = m_adr mp + 267"

text \<open>Element \<open>k\<close> of an array that starts at the word \<open>p\<close>.\<close>

definition arr :: "width \<Rightarrow> ptr \<Rightarrow> nat \<Rightarrow> ram \<Rightarrow> u16" where
  "arr w p k m = (case w of
     I8 \<Rightarrow> if even k then drop_bit 8 (m (p + k div 2)) else m (p + k div 2) AND 0xFF
   | I16 \<Rightarrow> m (p + k))"

section \<open>Decoding a metatile\<close>

text \<open>
  \<open>8 * 8 * blockIndexes[map->blockRowOffsets[yb] + xb]\<close>: where a block starts. The functions
  \<open>getMetaTile_*\<close> add in 32 bits, the others store the sum in 16 bits (\<open>block_ptr\<close> below).
\<close>

definition get_meta :: "width \<Rightarrow> width \<Rightarrow> Map \<Rightarrow> u16 \<Rightarrow> u16 \<Rightarrow> ram \<Rightarrow> u16" where
  "get_meta mti bi mp x y m =
    (let xb = (x div 8) AND m_wMask mp;
         yb = (y div 8) AND m_hMask mp;
         block = 64 * unat (arr bi (m_blockIndexes mp) (unat (m (m_blockRowOffsets mp + unat yb)) + unat xb) m);
         xi = x AND 7;
         yi = y AND 7
     in arr mti (m_blocks mp) (block + unat (yi * 8 + xi)) m)"

definition getMetaTile_MTI8_BI8 :: "Map \<Rightarrow> u16 \<Rightarrow> u16 \<Rightarrow> ram \<Rightarrow> u16" where
  "getMetaTile_MTI8_BI8 = get_meta I8 I8"
definition getMetaTile_MTI8_BI16 :: "Map \<Rightarrow> u16 \<Rightarrow> u16 \<Rightarrow> ram \<Rightarrow> u16" where
  "getMetaTile_MTI8_BI16 = get_meta I8 I16"
definition getMetaTile_MTI16_BI8 :: "Map \<Rightarrow> u16 \<Rightarrow> u16 \<Rightarrow> ram \<Rightarrow> u16" where
  "getMetaTile_MTI16_BI8 = get_meta I16 I8"
definition getMetaTile_MTI16_BI16 :: "Map \<Rightarrow> u16 \<Rightarrow> u16 \<Rightarrow> ram \<Rightarrow> u16" where
  "getMetaTile_MTI16_BI16 = get_meta I16 I16"

definition MAP_getMetaTile :: "Map \<Rightarrow> u16 \<Rightarrow> u16 \<Rightarrow> ram \<Rightarrow> u16" where
  "MAP_getMetaTile mp =
    (case m_metaTileCB mp of
       (I8, I8) \<Rightarrow> getMetaTile_MTI8_BI8 mp
     | (I8, I16) \<Rightarrow> getMetaTile_MTI8_BI16 mp
     | (I16, I8) \<Rightarrow> getMetaTile_MTI16_BI8 mp
     | (I16, I16) \<Rightarrow> getMetaTile_MTI16_BI16 mp)"

definition MAP_getTile :: "Map \<Rightarrow> u16 \<Rightarrow> u16 \<Rightarrow> ram \<Rightarrow> u16" where
  "MAP_getTile mp x y m =
    (let metaTileInd = MAP_getMetaTile mp (x div 2) (y div 2) m;
         metaTile = m_metaTiles mp + 2 * 2 * unat metaTileInd
     in m (metaTile + unat ((y AND 1) * 2 + (x AND 1))))"

section \<open>Decoding columns and rows of tiles\<close>

text \<open>\<open>blocks[8 * 8 * blockIndexes[blockGridIndex]]\<close>, \<open>base\<close> being the offset of the row of blocks.\<close>

definition block_ptr :: "width \<Rightarrow> Map \<Rightarrow> u16 \<Rightarrow> u16 \<Rightarrow> ram \<Rightarrow> nat" where
  "block_ptr bi mp base xb m =
    (let blockGridIndex = base + xb in 64 * unat (arr bi (m_blockIndexes mp) (unat blockGridIndex) m))"

definition column_tiles :: "(u16 \<Rightarrow> u16) \<Rightarrow> ptr \<Rightarrow> ptr \<Rightarrow> ptr \<Rightarrow> ram \<Rightarrow> ram" where
  "column_tiles attr metaTile d1 d2 m =
    (let m = m(d1 := attr (m metaTile));
         m = m(d2 := attr (m (metaTile + 1)));
         m = m(d1 + 1 := attr (m (metaTile + 2)))
     in m(d2 + 1 := attr (m (metaTile + 3))))"

definition row_tiles :: "(u16 \<Rightarrow> u16) \<Rightarrow> ptr \<Rightarrow> ptr \<Rightarrow> ptr \<Rightarrow> ram \<Rightarrow> ram" where
  "row_tiles attr metaTile d1 d2 m =
    (let m = m(d1 := attr (m metaTile));
         m = m(d1 + 1 := attr (m (metaTile + 1)));
         m = m(d2 := attr (m (metaTile + 2)))
     in m(d2 + 1 := attr (m (metaTile + 3))))"

fun column_loop ::
  "width \<Rightarrow> width \<Rightarrow> (u16 \<Rightarrow> u16) \<Rightarrow> Map \<Rightarrow> u16 \<Rightarrow> u16 \<Rightarrow> nat \<Rightarrow> ptr \<Rightarrow> ptr \<Rightarrow> nat \<Rightarrow> u16 \<Rightarrow> u16 \<Rightarrow> ram \<Rightarrow> ram" where
  "column_loop mti bi attr mp xb fixed 0 d1 d2 block yi yb m = m"
| "column_loop mti bi attr mp xb fixed (Suc h) d1 d2 block yi yb m =
    (let metaTileInd = arr mti (m_blocks mp) block m;
         block = block + 8;
         m = column_tiles attr (m_metaTiles mp + 2 * 2 * unat metaTileInd) d1 d2 m;
         yi = yi + 1
     in if yi = 8 then
          (let yi = 0;
               yb = (yb + 1) AND m_hMask mp;
               block = block_ptr bi mp (m (m_blockRowOffsets mp + unat yb)) xb m + unat fixed
           in column_loop mti bi attr mp xb fixed h (d1 + 2) (d2 + 2) block yi yb m)
        else column_loop mti bi attr mp xb fixed h (d1 + 2) (d2 + 2) block yi yb m)"

definition prepare_column ::
  "width \<Rightarrow> width \<Rightarrow> (u16 \<Rightarrow> u16) \<Rightarrow> Map \<Rightarrow> ptr \<Rightarrow> ptr \<Rightarrow> u16 \<Rightarrow> u16 \<Rightarrow> u16 \<Rightarrow> ram \<Rightarrow> ram" where
  "prepare_column mti bi attr mp bufCol1 bufCol2 xm ym height m =
    (let xb = (xm div 8) AND m_wMask mp;
         yb = (ym div 8) AND m_hMask mp;
         block = block_ptr bi mp (m (m_blockRowOffsets mp + unat yb)) xb m;
         blockFixedOffset = xm AND 7;
         yi = ym AND 7;
         block = block + unat (blockFixedOffset + yi * 8)
     in column_loop mti bi attr mp xb blockFixedOffset (unat height) bufCol1 bufCol2 block yi yb m)"

fun row_loop ::
  "width \<Rightarrow> width \<Rightarrow> (u16 \<Rightarrow> u16) \<Rightarrow> Map \<Rightarrow> u16 \<Rightarrow> u16 \<Rightarrow> nat \<Rightarrow> ptr \<Rightarrow> ptr \<Rightarrow> nat \<Rightarrow> u16 \<Rightarrow> u16 \<Rightarrow> ram \<Rightarrow> ram" where
  "row_loop mti bi attr mp base fixed 0 d1 d2 block xi xb m = m"
| "row_loop mti bi attr mp base fixed (Suc w) d1 d2 block xi xb m =
    (let metaTileInd = arr mti (m_blocks mp) block m;
         block = block + 1;
         m = row_tiles attr (m_metaTiles mp + 2 * 2 * unat metaTileInd) d1 d2 m;
         xi = xi + 1
     in if xi = 8 then
          (let xi = 0;
               xb = (xb + 1) AND m_wMask mp;
               block = block_ptr bi mp base xb m + unat fixed
           in row_loop mti bi attr mp base fixed w (d1 + 2) (d2 + 2) block xi xb m)
        else row_loop mti bi attr mp base fixed w (d1 + 2) (d2 + 2) block xi xb m)"

definition prepare_row ::
  "width \<Rightarrow> width \<Rightarrow> (u16 \<Rightarrow> u16) \<Rightarrow> Map \<Rightarrow> ptr \<Rightarrow> ptr \<Rightarrow> u16 \<Rightarrow> u16 \<Rightarrow> u16 \<Rightarrow> ram \<Rightarrow> ram" where
  "prepare_row mti bi attr mp bufRow1 bufRow2 xm ym width m =
    (let xb = (xm div 8) AND m_wMask mp;
         baseBlockGridIndex = m (m_blockRowOffsets mp + unat ((ym div 8) AND m_hMask mp));
         block = block_ptr bi mp baseBlockGridIndex xb m;
         blockFixedOffset = (ym AND 7) * 8;
         xi = xm AND 7;
         block = block + unat (blockFixedOffset + xi)
     in row_loop mti bi attr mp baseBlockGridIndex blockFixedOffset (unat width) bufRow1 bufRow2 block xi xb m)"

text \<open>The functions of the code; those with \<open>Ex\<close> add the base tile.\<close>

type_synonym prepare = "Map \<Rightarrow> ptr \<Rightarrow> ptr \<Rightarrow> u16 \<Rightarrow> u16 \<Rightarrow> u16 \<Rightarrow> ram \<Rightarrow> ram"

definition add_base :: "Map \<Rightarrow> u16 \<Rightarrow> u16" where "add_base mp t = t + m_baseTile mp"

definition prepareMapDataColumn_MTI8_BI8 :: prepare where
  "prepareMapDataColumn_MTI8_BI8 = prepare_column I8 I8 (\<lambda>t. t)"
definition prepareMapDataColumn_MTI8_BI16 :: prepare where
  "prepareMapDataColumn_MTI8_BI16 = prepare_column I8 I16 (\<lambda>t. t)"
definition prepareMapDataColumn_MTI16_BI8 :: prepare where
  "prepareMapDataColumn_MTI16_BI8 = prepare_column I16 I8 (\<lambda>t. t)"
definition prepareMapDataColumn_MTI16_BI16 :: prepare where
  "prepareMapDataColumn_MTI16_BI16 = prepare_column I16 I16 (\<lambda>t. t)"
definition prepareMapDataColumnEx_MTI8_BI8 :: prepare where
  "prepareMapDataColumnEx_MTI8_BI8 mp = prepare_column I8 I8 (add_base mp) mp"
definition prepareMapDataColumnEx_MTI8_BI16 :: prepare where
  "prepareMapDataColumnEx_MTI8_BI16 mp = prepare_column I8 I16 (add_base mp) mp"
definition prepareMapDataColumnEx_MTI16_BI8 :: prepare where
  "prepareMapDataColumnEx_MTI16_BI8 mp = prepare_column I16 I8 (add_base mp) mp"
definition prepareMapDataColumnEx_MTI16_BI16 :: prepare where
  "prepareMapDataColumnEx_MTI16_BI16 mp = prepare_column I16 I16 (add_base mp) mp"

definition prepareMapDataRow_MTI8_BI8 :: prepare where
  "prepareMapDataRow_MTI8_BI8 = prepare_row I8 I8 (\<lambda>t. t)"
definition prepareMapDataRow_MTI8_BI16 :: prepare where
  "prepareMapDataRow_MTI8_BI16 = prepare_row I8 I16 (\<lambda>t. t)"
definition prepareMapDataRow_MTI16_BI8 :: prepare where
  "prepareMapDataRow_MTI16_BI8 = prepare_row I16 I8 (\<lambda>t. t)"
definition prepareMapDataRow_MTI16_BI16 :: prepare where
  "prepareMapDataRow_MTI16_BI16 = prepare_row I16 I16 (\<lambda>t. t)"
definition prepareMapDataRowEx_MTI8_BI8 :: prepare where
  "prepareMapDataRowEx_MTI8_BI8 mp = prepare_row I8 I8 (add_base mp) mp"
definition prepareMapDataRowEx_MTI8_BI16 :: prepare where
  "prepareMapDataRowEx_MTI8_BI16 mp = prepare_row I8 I16 (add_base mp) mp"
definition prepareMapDataRowEx_MTI16_BI8 :: prepare where
  "prepareMapDataRowEx_MTI16_BI8 mp = prepare_row I16 I8 (add_base mp) mp"
definition prepareMapDataRowEx_MTI16_BI16 :: prepare where
  "prepareMapDataRowEx_MTI16_BI16 mp = prepare_row I16 I16 (add_base mp) mp"

text \<open>The calls through the pointers.\<close>

definition prepareMapDataColumnCB :: prepare where
  "prepareMapDataColumnCB mp =
    (case m_columnCB mp of
       (I8, I8, False) \<Rightarrow> prepareMapDataColumn_MTI8_BI8 mp
     | (I8, I16, False) \<Rightarrow> prepareMapDataColumn_MTI8_BI16 mp
     | (I16, I8, False) \<Rightarrow> prepareMapDataColumn_MTI16_BI8 mp
     | (I16, I16, False) \<Rightarrow> prepareMapDataColumn_MTI16_BI16 mp
     | (I8, I8, True) \<Rightarrow> prepareMapDataColumnEx_MTI8_BI8 mp
     | (I8, I16, True) \<Rightarrow> prepareMapDataColumnEx_MTI8_BI16 mp
     | (I16, I8, True) \<Rightarrow> prepareMapDataColumnEx_MTI16_BI8 mp
     | (I16, I16, True) \<Rightarrow> prepareMapDataColumnEx_MTI16_BI16 mp)"

definition prepareMapDataRowCB :: prepare where
  "prepareMapDataRowCB mp =
    (case m_rowCB mp of
       (I8, I8, False) \<Rightarrow> prepareMapDataRow_MTI8_BI8 mp
     | (I8, I16, False) \<Rightarrow> prepareMapDataRow_MTI8_BI16 mp
     | (I16, I8, False) \<Rightarrow> prepareMapDataRow_MTI16_BI8 mp
     | (I16, I16, False) \<Rightarrow> prepareMapDataRow_MTI16_BI16 mp
     | (I8, I8, True) \<Rightarrow> prepareMapDataRowEx_MTI8_BI8 mp
     | (I8, I16, True) \<Rightarrow> prepareMapDataRowEx_MTI8_BI16 mp
     | (I16, I8, True) \<Rightarrow> prepareMapDataRowEx_MTI16_BI8 mp
     | (I16, I16, True) \<Rightarrow> prepareMapDataRowEx_MTI16_BI16 mp)"

definition prepareMapDataColumn :: prepare where
  "prepareMapDataColumn mp bufCol1 bufCol2 xm ym height m =
    (let m = prepareMapDataColumnCB mp bufCol1 bufCol2 xm ym height m in
     case m_patchCB mp of
       Some CB \<Rightarrow> CB bufCol2 (xm * 2 + 1) (ym * 2) True (height * 2) (CB bufCol1 (xm * 2 + 0) (ym * 2) True (height * 2) m)
     | None \<Rightarrow> m)"

definition prepareMapDataRow :: prepare where
  "prepareMapDataRow mp bufRow1 bufRow2 xm ym width m =
    (let m = prepareMapDataRowCB mp bufRow1 bufRow2 xm ym width m in
     case m_patchCB mp of
       Some CB \<Rightarrow> CB bufRow2 (xm * 2) (ym * 2 + 1) False (width * 2) (CB bufRow1 (xm * 2) (ym * 2 + 0) False (width * 2) m)
     | None \<Rightarrow> m)"

section \<open>Rectangles\<close>

text \<open>A row of metatiles; the result is the pointer behind the last word and the memory.\<close>

fun meta_row_loop ::
  "width \<Rightarrow> width \<Rightarrow> Map \<Rightarrow> u16 \<Rightarrow> u16 \<Rightarrow> nat \<Rightarrow> ptr \<Rightarrow> nat \<Rightarrow> u16 \<Rightarrow> u16 \<Rightarrow> ram \<Rightarrow> ptr \<times> ram" where
  "meta_row_loop mti bi mp yb yi 0 dest block xi xbi m = (dest, m)"
| "meta_row_loop mti bi mp yb yi (Suc w) dest block xi xbi m =
    (let m = m(dest := arr mti (m_blocks mp) block m);
         block = block + 1;
         xi = xi + 1
     in if xi = 8 then
          (let xi = 0;
               xbi = (xbi + 1) AND m_wMask mp;
               block = 64 * unat (arr bi (m_blockIndexes mp) (unat (m (m_blockRowOffsets mp + unat yb)) + unat xbi) m);
               block = block + unat (yi * 8)
           in meta_row_loop mti bi mp yb yi w (dest + 1) block xi xbi m)
        else meta_row_loop mti bi mp yb yi w (dest + 1) block xi xbi m)"

fun meta_rect_loop ::
  "width \<Rightarrow> width \<Rightarrow> Map \<Rightarrow> u16 \<Rightarrow> u16 \<Rightarrow> u16 \<Rightarrow> nat \<Rightarrow> ptr \<Rightarrow> u16 \<Rightarrow> u16 \<Rightarrow> ram \<Rightarrow> ram" where
  "meta_rect_loop mti bi mp x xb w 0 dest yi yb m = m"
| "meta_rect_loop mti bi mp x xb w (Suc h) dest yi yb m =
    (let xi = x AND 7;
         block = 64 * unat (arr bi (m_blockIndexes mp) (unat (m (m_blockRowOffsets mp + unat yb)) + unat xb) m);
         block = block + unat (yi * 8) + unat xi;
         (dest, m) = meta_row_loop mti bi mp yb yi (unat w) dest block xi xb m;
         yi = yi + 1
     in if yi = 8 then meta_rect_loop mti bi mp x xb w h dest 0 ((yb + 1) AND m_hMask mp) m
        else meta_rect_loop mti bi mp x xb w h dest yi yb m)"

definition meta_rect :: "width \<Rightarrow> width \<Rightarrow> Map \<Rightarrow> u16 \<Rightarrow> u16 \<Rightarrow> u16 \<Rightarrow> u16 \<Rightarrow> ptr \<Rightarrow> ram \<Rightarrow> ram" where
  "meta_rect mti bi mp x y w h dest m =
    meta_rect_loop mti bi mp x ((x div 8) AND m_wMask mp) w (unat h) dest (y AND 7) ((y div 8) AND m_hMask mp) m"

definition getMetaTilemapRect_MTI8_BI8 :: "Map \<Rightarrow> u16 \<Rightarrow> u16 \<Rightarrow> u16 \<Rightarrow> u16 \<Rightarrow> ptr \<Rightarrow> ram \<Rightarrow> ram" where
  "getMetaTilemapRect_MTI8_BI8 = meta_rect I8 I8"
definition getMetaTilemapRect_MTI8_BI16 :: "Map \<Rightarrow> u16 \<Rightarrow> u16 \<Rightarrow> u16 \<Rightarrow> u16 \<Rightarrow> ptr \<Rightarrow> ram \<Rightarrow> ram" where
  "getMetaTilemapRect_MTI8_BI16 = meta_rect I8 I16"
definition getMetaTilemapRect_MTI16_BI8 :: "Map \<Rightarrow> u16 \<Rightarrow> u16 \<Rightarrow> u16 \<Rightarrow> u16 \<Rightarrow> ptr \<Rightarrow> ram \<Rightarrow> ram" where
  "getMetaTilemapRect_MTI16_BI8 = meta_rect I16 I8"
definition getMetaTilemapRect_MTI16_BI16 :: "Map \<Rightarrow> u16 \<Rightarrow> u16 \<Rightarrow> u16 \<Rightarrow> u16 \<Rightarrow> ptr \<Rightarrow> ram \<Rightarrow> ram" where
  "getMetaTilemapRect_MTI16_BI16 = meta_rect I16 I16"

definition MAP_getMetaTilemapRect :: "Map \<Rightarrow> u16 \<Rightarrow> u16 \<Rightarrow> u16 \<Rightarrow> u16 \<Rightarrow> ptr \<Rightarrow> ram \<Rightarrow> ram" where
  "MAP_getMetaTilemapRect mp =
    (case m_rectCB mp of
       (I8, I8) \<Rightarrow> getMetaTilemapRect_MTI8_BI8 mp
     | (I8, I16) \<Rightarrow> getMetaTilemapRect_MTI8_BI16 mp
     | (I16, I8) \<Rightarrow> getMetaTilemapRect_MTI16_BI8 mp
     | (I16, I16) \<Rightarrow> getMetaTilemapRect_MTI16_BI16 mp)"

fun rect_by_columns :: "nat \<Rightarrow> Map \<Rightarrow> ptr \<Rightarrow> ptr \<Rightarrow> u16 \<Rightarrow> u16 \<Rightarrow> u16 \<Rightarrow> ram \<Rightarrow> ram" where
  "rect_by_columns 0 mp d1 d2 xi y h m = m"
| "rect_by_columns (Suc w) mp d1 d2 xi y h m =
    rect_by_columns w mp (d1 + unat h * 4) (d2 + unat h * 4) (xi + 1) y h (prepareMapDataColumnCB mp d1 d2 xi y h m)"

fun rect_by_rows :: "nat \<Rightarrow> Map \<Rightarrow> ptr \<Rightarrow> ptr \<Rightarrow> u16 \<Rightarrow> u16 \<Rightarrow> u16 \<Rightarrow> ram \<Rightarrow> ram" where
  "rect_by_rows 0 mp d1 d2 x yi w m = m"
| "rect_by_rows (Suc h) mp d1 d2 x yi w m =
    rect_by_rows h mp (d1 + unat w * 4) (d2 + unat w * 4) x (yi + 1) w (prepareMapDataRowCB mp d1 d2 x yi w m)"

definition MAP_getTilemapRect :: "Map \<Rightarrow> u16 \<Rightarrow> u16 \<Rightarrow> u16 \<Rightarrow> u16 \<Rightarrow> bool \<Rightarrow> ptr \<Rightarrow> ram \<Rightarrow> ram" where
  "MAP_getTilemapRect mp x y w h column dest m =
    (if column then rect_by_columns (unat w) mp dest (dest + unat h * 2) x y h m
     else rect_by_rows (unat h) mp dest (dest + unat w * 2) x y w m)"

section \<open>Creation\<close>

text \<open>The fields of \<open>MapDefinition\<close> that allocation does not need.\<close>

definition mapdef_h :: "ptr \<Rightarrow> ram \<Rightarrow> u16" where "mapdef_h p m = m (p + 1)"
definition mapdef_metaTiles :: "ptr \<Rightarrow> ram \<Rightarrow> ptr" where "mapdef_metaTiles p m = load_ptr (p + 6) m"
definition mapdef_blocks :: "ptr \<Rightarrow> ram \<Rightarrow> ptr" where "mapdef_blocks p m = load_ptr (p + 8) m"
definition mapdef_blockIndexes :: "ptr \<Rightarrow> ram \<Rightarrow> ptr" where "mapdef_blockIndexes p m = load_ptr (p + 10) m"
definition mapdef_blockRowOffsets :: "ptr \<Rightarrow> ram \<Rightarrow> ptr" where "mapdef_blockRowOffsets p m = load_ptr (p + 12) m"

text \<open>
  The pointer to one of the three parts of the data: where \<open>allocateMap\<close> has made room for it, if it
  is compressed and unpacked there, otherwise where it is.
\<close>

definition map_part :: "unpackers \<Rightarrow> u16 \<Rightarrow> ptr \<Rightarrow> ptr \<Rightarrow> ram \<Rightarrow> ptr \<times> ram" where
  "map_part up compression src room m =
    (if compression \<noteq> COMPRESSION_NONE then (room, snd (unpack up compression src room m)) else (src, m))"

text \<open>
  The structure is not cleared when it is allocated: \<open>mp0\<close> is what its memory happens to hold. It
  keeps that in the fields that are not set, the position and the last update.
\<close>

definition MAP_create ::
  "unpackers \<Rightarrow> Map \<Rightarrow> ptr \<Rightarrow> VDPPlane \<Rightarrow> u16 \<Rightarrow> 'a vdp_st_scheme \<Rightarrow> (Map option \<times> 'a vdp_st_scheme) option" where
  "MAP_create up mp0 mapDef plane baseTile s = do {
     (result, s) \<leftarrow> allocateMap mapDef s;
     if result = NULL then Some (None, s)
     else
       (let m = ram s;
            compression = mapdef_compression mapDef m;
            (metaTiles, m) = map_part up (compression AND 0xF) (mapdef_metaTiles mapDef m) (load_ptr (result + 2) m) m;
            (blocks, m) = map_part up (drop_bit 4 compression AND 0xF) (mapdef_blocks mapDef m) (load_ptr (result + 4) m) m;
            (blockIndexes, m) = map_part up (drop_bit 8 compression AND 0xF) (mapdef_blockIndexes mapDef m) (load_ptr (result + 6) m) m;
            baseTile = baseTile AND (TILE_INDEX_MASK OR TILE_ATTR_PALETTE_MASK OR TILE_ATTR_PRIORITY_MASK);
            mti = (if mapdef_numMetaTile mapDef m > 256 then I16 else I8);
            bi = (if mapdef_numBlock mapDef m > 256 then I16 else I8);
            mp = mp0\<lparr>m_adr := result, m_w := mapdef_w mapDef (ram s), m_h := mapdef_h mapDef (ram s),
              m_wMask := ucast (getNextPow2 (ucast (mapdef_w mapDef (ram s))) - 1),
              m_hMask := ucast (getNextPow2 (ucast (mapdef_h mapDef (ram s))) - 1),
              m_metaTiles := metaTiles, m_blocks := blocks, m_blockIndexes := blockIndexes,
              m_blockRowOffsets := mapdef_blockRowOffsets mapDef m,
              m_plane := plane, m_baseTile := baseTile,
              m_planeWidth := planeWidth s, m_planeHeight := planeHeight s,
              m_planeWidthMaskAdj := drop_bit 1 (planeWidth s) - 1,
              m_planeHeightMaskAdj := drop_bit 1 (planeHeight s) - 1,
              m_planeWidthSftAdj := planeWidthSft s + 2,
              m_firstUpdate := True,
              m_columnCB := (mti, bi, baseTile \<noteq> 0), m_rowCB := (mti, bi, baseTile \<noteq> 0),
              m_metaTileCB := (mti, bi), m_rectCB := (mti, bi),
              m_patchCB := None\<rparr>
        in Some (Some mp, s\<lparr>ram := m\<rparr>)) }"

definition MAP_release :: "bool \<Rightarrow> Map \<Rightarrow> 'a heap_st_scheme \<Rightarrow> 'a heap_st_scheme" where
  "MAP_release debug mp s = MEM_free debug (m_adr mp) s"

definition MAP_setDataPatchCallback :: "Map \<Rightarrow> patch_callback option \<Rightarrow> Map" where
  "MAP_setDataPatchCallback mp CB = mp\<lparr>m_patchCB := CB\<rparr>"

definition MAP_overridePlaneSize :: "Map \<Rightarrow> u16 \<Rightarrow> u16 \<Rightarrow> Map" where
  "MAP_overridePlaneSize mp w h =
    (if w AND 0x80 \<noteq> 0 then
       mp\<lparr>m_planeWidth := 128, m_planeWidthMaskAdj := drop_bit 1 128 - 1, m_planeWidthSftAdj := 7 + 2,
          m_planeHeight := 32, m_planeHeightMaskAdj := drop_bit 1 32 - 1\<rparr>
     else if w AND 0x40 \<noteq> 0 then
       (let mp = mp\<lparr>m_planeWidth := 64, m_planeWidthMaskAdj := drop_bit 1 64 - 1, m_planeWidthSftAdj := 6 + 2\<rparr> in
        if h AND 0x40 \<noteq> 0 then mp\<lparr>m_planeHeight := 64, m_planeHeightMaskAdj := drop_bit 1 64 - 1\<rparr>
        else mp\<lparr>m_planeHeight := 32, m_planeHeightMaskAdj := drop_bit 1 32 - 1\<rparr>)
     else
       (let mp = mp\<lparr>m_planeWidth := 32, m_planeWidthMaskAdj := drop_bit 1 32 - 1, m_planeWidthSftAdj := 5 + 2\<rparr> in
        if h AND 0x80 \<noteq> 0 then mp\<lparr>m_planeHeight := 128, m_planeHeightMaskAdj := drop_bit 1 128 - 1\<rparr>
        else if h AND 0x40 \<noteq> 0 then mp\<lparr>m_planeHeight := 64, m_planeHeightMaskAdj := drop_bit 1 64 - 1\<rparr>
        else mp\<lparr>m_planeHeight := 32, m_planeHeightMaskAdj := drop_bit 1 32 - 1\<rparr>))"

section \<open>Tiles by their coordinates\<close>

text \<open>
  The reference: metatile and tile at coordinates that are natural numbers, repeating with the size
  of the map. \<open>map_ok\<close> holds of a map that \<open>MAP_create\<close> has made: the masks are one below a power of
  two, the function pointers agree, and the block grid has less than 65536 cells.
\<close>

definition wn :: "Map \<Rightarrow> nat" where "wn mp = unat (m_wMask mp) + 1"
definition hn :: "Map \<Rightarrow> nat" where "hn mp = unat (m_hMask mp) + 1"
definition mti_of :: "Map \<Rightarrow> width" where "mti_of mp = fst (m_metaTileCB mp)"
definition bi_of :: "Map \<Rightarrow> width" where "bi_of mp = snd (m_metaTileCB mp)"

definition pow2_mask :: "u16 \<Rightarrow> bool" where
  "pow2_mask w \<longleftrightarrow> (\<exists>k. w = mask k)"

definition map_ok :: "Map \<Rightarrow> ram \<Rightarrow> bool" where
  "map_ok mp m \<longleftrightarrow> pow2_mask (m_wMask mp) \<and> pow2_mask (m_hMask mp) \<and>
     (\<forall>y < hn mp. unat (m (m_blockRowOffsets mp + y)) + wn mp \<le> 65536) \<and>
     m_columnCB mp = (mti_of mp, bi_of mp, m_baseTile mp \<noteq> 0) \<and> m_rowCB mp = (mti_of mp, bi_of mp, m_baseTile mp \<noteq> 0) \<and>
     m_rectCB mp = m_metaTileCB mp"

text \<open>Positions: in the row offsets, in the block indexes, in the blocks.\<close>

definition row_pos :: "Map \<Rightarrow> nat \<Rightarrow> nat" where
  "row_pos mp y = m_blockRowOffsets mp + y div 8 mod hn mp"

definition grid_pos :: "Map \<Rightarrow> ram \<Rightarrow> nat \<Rightarrow> nat \<Rightarrow> nat" where
  "grid_pos mp m x y = unat (m (row_pos mp y)) + x div 8 mod wn mp"

definition block_pos :: "Map \<Rightarrow> ram \<Rightarrow> nat \<Rightarrow> nat \<Rightarrow> nat" where
  "block_pos mp m x y = 64 * unat (arr (bi_of mp) (m_blockIndexes mp) (grid_pos mp m x y) m) + 8 * (y mod 8) + x mod 8"

definition meta_at :: "Map \<Rightarrow> ram \<Rightarrow> nat \<Rightarrow> nat \<Rightarrow> u16" where
  "meta_at mp m x y = arr (mti_of mp) (m_blocks mp) (block_pos mp m x y) m"

definition tile_at :: "Map \<Rightarrow> ram \<Rightarrow> nat \<Rightarrow> nat \<Rightarrow> u16" where
  "tile_at mp m x y =
    m (m_metaTiles mp + 4 * unat (meta_at mp m (x div 2) (y div 2)) + 2 * (y mod 2) + x mod 2)"

text \<open>What a cell of the plane shall hold for a tile: the tile with the base tile added.\<close>

definition shown :: "Map \<Rightarrow> ram \<Rightarrow> nat \<Rightarrow> nat \<Rightarrow> u16" where
  "shown mp m x y = tile_at mp m x y + m_baseTile mp"

text \<open>The words that decoding reads.\<close>

definition arr_word :: "width \<Rightarrow> ptr \<Rightarrow> nat \<Rightarrow> nat" where
  "arr_word w p k = (case w of I8 \<Rightarrow> p + k div 2 | I16 \<Rightarrow> p + k)"

definition reads :: "Map \<Rightarrow> ram \<Rightarrow> nat set" where
  "reads mp m = (\<Union>x y. {row_pos mp y, arr_word (bi_of mp) (m_blockIndexes mp) (grid_pos mp m x y),
      arr_word (mti_of mp) (m_blocks mp) (block_pos mp m x y)} \<union>
      {m_metaTiles mp + 4 * unat (meta_at mp m x y) ..< m_metaTiles mp + 4 * unat (meta_at mp m x y) + 4})"

lemma arr_cong: "m' (arr_word w p k) = m (arr_word w p k) \<Longrightarrow> arr w p k m' = arr w p k m"
  by (cases w) (simp_all add: arr_def arr_word_def)

lemma readsI:
  "row_pos mp y \<in> reads mp m" "arr_word (bi_of mp) (m_blockIndexes mp) (grid_pos mp m x y) \<in> reads mp m"
  "arr_word (mti_of mp) (m_blocks mp) (block_pos mp m x y) \<in> reads mp m"
  "k < 4 \<Longrightarrow> m_metaTiles mp + 4 * unat (meta_at mp m x y) + k \<in> reads mp m"
proof -
  let ?R = "\<lambda>x y. {row_pos mp y, arr_word (bi_of mp) (m_blockIndexes mp) (grid_pos mp m x y),
      arr_word (mti_of mp) (m_blocks mp) (block_pos mp m x y)} \<union>
      {m_metaTiles mp + 4 * unat (meta_at mp m x y) ..< m_metaTiles mp + 4 * unat (meta_at mp m x y) + 4}"
  have sub: "?R x y \<subseteq> reads mp m" for x y unfolding reads_def by (intro subset_trans [OF _ UN_upper [of x]] UN_upper) simp_all
  show "row_pos mp y \<in> reads mp m" "arr_word (bi_of mp) (m_blockIndexes mp) (grid_pos mp m x y) \<in> reads mp m"
    "arr_word (mti_of mp) (m_blocks mp) (block_pos mp m x y) \<in> reads mp m"
    using sub [where x = x and y = y] by simp_all
  show "k < 4 \<Longrightarrow> m_metaTiles mp + 4 * unat (meta_at mp m x y) + k \<in> reads mp m"
    by (rule subsetD [OF sub [where x = x and y = y]]) simp
qed

lemma row_offset_reads: "y < hn mp \<Longrightarrow> m_blockRowOffsets mp + y \<in> reads mp m"
  using readsI(1) [of mp "8 * y" m] by (simp add: row_pos_def)

text \<open>Memories that agree on these words hold the same map.\<close>

lemma same_map:
  assumes "\<And>a. a \<in> reads mp m \<Longrightarrow> m' a = m a"
  shows "grid_pos mp m' = grid_pos mp m" "block_pos mp m' = block_pos mp m"
    "meta_at mp m' = meta_at mp m" "tile_at mp m' = tile_at mp m" "shown mp m' = shown mp m" "reads mp m' = reads mp m"
proof -
  show g: "grid_pos mp m' = grid_pos mp m"
    using assms [OF readsI(1)] by (intro ext) (simp add: grid_pos_def)
  show b: "block_pos mp m' = block_pos mp m"
    using arr_cong [where m = m and m' = m', OF assms [OF readsI(2)]] by (intro ext) (simp add: block_pos_def g)
  show c: "meta_at mp m' = meta_at mp m"
    using arr_cong [where m = m and m' = m', OF assms [OF readsI(3)]] by (intro ext) (simp add: meta_at_def b)
  have "2 * (j mod 2) + i mod 2 < 4" for i j :: nat by presburger
  from assms [OF readsI(4) [OF this]] show t: "tile_at mp m' = tile_at mp m"
    by (intro ext) (simp add: tile_at_def c add.assoc)
  show "shown mp m' = shown mp m" by (intro ext) (simp add: shown_def t)
  show "reads mp m' = reads mp m" by (simp add: reads_def g b c)
qed

lemma same_map_ok:
  assumes "\<And>a. a \<in> reads mp m \<Longrightarrow> m' a = m a"
  shows "map_ok mp m' = map_ok mp m"
  using assms [OF row_offset_reads] by (simp add: map_ok_def)

text \<open>Masks and the walk through the coordinates.\<close>

lemma mask_size:
  assumes "pow2_mask w"
  shows "\<exists>k \<le> 16. w = mask k \<and> unat w + 1 = 2 ^ k"
proof -
  obtain k where k: "w = mask k" using assms by (auto simp: pow2_mask_def)
  define j where "j = min k 16"
  have "(mask k :: u16) = mask j" by (intro bit_word_eqI) (auto simp: bit_mask_iff j_def)
  moreover have "unat (- 1 AND mask j :: u16) = 65535 mod 2 ^ j" unfolding unat_and_mask by (simp add: unsigned_minus_1_eq_mask mask_eq_exp_minus_1)
  moreover have "(65535 :: nat) = 2 ^ j - 1 + (2 ^ (16 - j) - 1) * 2 ^ j"
  proof -
    have "2 ^ j * 2 ^ (16 - j) = (65536 :: nat)" by (simp add: j_def flip: power_add)
    moreover have "(2 :: nat) ^ j \<le> 2 ^ j * 2 ^ (16 - j)" by simp
    moreover have "(1 :: nat) \<le> 2 ^ j" by simp
    ultimately show ?thesis by (simp only: diff_mult_distrib2 mult.commute [of _ "2 ^ j"] mult_1_right)
  qed
  then have "(65535 :: nat) mod 2 ^ j = 2 ^ j - 1" by (metis mod_mult_self1 mod_less diff_less zero_less_one zero_less_numeral zero_less_power)
  ultimately show ?thesis using k by (intro exI [of _ j]) (simp add: j_def)
qed

lemma masked_mod: "pow2_mask w \<Longrightarrow> unat (x AND w) = unat x mod (unat w + 1)"
  using mask_size [of w] by (auto simp: unat_and_mask)

lemma masked_dvd: "pow2_mask w \<Longrightarrow> unat w + 1 dvd 65536"
proof -
  assume "pow2_mask w"
  then obtain k where "k \<le> 16" "unat w + 1 = 2 ^ k" using mask_size by blast
  then have "unat w + 1 dvd 2 ^ 16" by (simp only: le_imp_power_dvd)
  then show ?thesis by simp
qed

lemma masked_of_nat: "pow2_mask w \<Longrightarrow> unat (of_nat n AND w) = n mod (unat w + 1)"
  using masked_dvd by (simp add: masked_mod unat_of_nat mod_mod_cancel)

lemma next_block:
  assumes "pow2_mask w"
  shows "((of_nat n AND w) + 1) AND w = of_nat (n + 1) AND w"
proof -
  have "(of_nat n AND w) + 1 = of_nat (unat (of_nat n AND w) + 1)" by simp
  then have "unat (((of_nat n AND w) + 1) AND w) = (n mod (unat w + 1) + 1) mod (unat w + 1)"
    using masked_of_nat [OF assms] by metis
  also have "\<dots> = unat (of_nat (n + 1) AND w)" by (simp only: masked_of_nat [OF assms] mod_add_left_eq)
  finally show ?thesis by (rule unsigned_word_eqI)
qed

section \<open>The loops compute the tiles\<close>

text \<open>Two runs of \<open>n\<close> words, at \<open>d1\<close> and \<open>d2\<close>.\<close>

definition over2 :: "ptr \<Rightarrow> ptr \<Rightarrow> nat \<Rightarrow> (nat \<Rightarrow> u16) \<Rightarrow> (nat \<Rightarrow> u16) \<Rightarrow> ram \<Rightarrow> ram" where
  "over2 d1 d2 n g1 g2 m = (\<lambda>a. if a \<in> {d1 ..< d1 + n} then g1 (a - d1)
     else if a \<in> {d2 ..< d2 + n} then g2 (a - d2) else m a)"

definition apart :: "ptr \<Rightarrow> ptr \<Rightarrow> nat \<Rightarrow> nat set \<Rightarrow> bool" where
  "apart d1 d2 n R \<longleftrightarrow> {d1 ..< d1 + n} \<inter> {d2 ..< d2 + n} = {} \<and> R \<inter> ({d1 ..< d1 + n} \<union> {d2 ..< d2 + n}) = {}"

lemma over2_other: "apart d1 d2 n R \<Longrightarrow> a \<in> R \<Longrightarrow> over2 d1 d2 n g1 g2 m a = m a"
  by (auto simp: over2_def apart_def)

lemma over2_0 [simp]: "over2 d1 d2 0 g1 g2 m = m"
  by (rule ext) (simp add: over2_def)

lemma apart_less: "apart d1 d2 (n + k) R \<Longrightarrow> apart d1 d2 n R" "apart d1 d2 (n + k) R \<Longrightarrow> apart (d1 + n) (d2 + n) k R"
  unfolding apart_def by fastforce+

lemma over2_over2:
  assumes "apart d1 d2 (n + k) R"
  shows "over2 (d1 + n) (d2 + n) k (\<lambda>i. g1 (n + i)) (\<lambda>i. g2 (n + i)) (over2 d1 d2 n g1 g2 m) = over2 d1 d2 (n + k) g1 g2 m"
proof
  fix a
  have "{d1 ..< d1 + (n + k)} \<inter> {d2 ..< d2 + (n + k)} = {}" using assms by (simp add: apart_def)
  then have d: "a \<in> {d1 ..< d1 + (n + k)} \<Longrightarrow> a \<notin> {d2 ..< d2 + (n + k)}" by blast
  show "over2 (d1 + n) (d2 + n) k (\<lambda>i. g1 (n + i)) (\<lambda>i. g2 (n + i)) (over2 d1 d2 n g1 g2 m) a = over2 d1 d2 (n + k) g1 g2 m a"
    using d by (auto simp: over2_def)
qed

lemma over2_2:
  assumes "apart d1 d2 2 R"
  shows "over2 d1 d2 2 g1 g2 m = m(d1 := g1 0, d2 := g2 0, d1 + 1 := g1 1, d2 + 1 := g2 1)"
    and "over2 d1 d2 2 g1 g2 m = m(d1 := g1 0, d1 + 1 := g1 1, d2 := g2 0, d2 + 1 := g2 1)"
proof -
  have r: "{d ..< d + 2} = {d, d + 1}" for d :: nat by auto
  have "{d1, d1 + 1} \<inter> {d2, d2 + 1} = {}" using assms by (simp only: apart_def r)
  then show "over2 d1 d2 2 g1 g2 m = m(d1 := g1 0, d2 := g2 0, d1 + 1 := g1 1, d2 + 1 := g2 1)"
    "over2 d1 d2 2 g1 g2 m = m(d1 := g1 0, d1 + 1 := g1 1, d2 := g2 0, d2 + 1 := g2 1)"
    unfolding over2_def r by (auto simp: fun_eq_iff)
qed

text \<open>The tiles of one metatile.\<close>

lemma one_metatile:
  assumes ap: "apart d1 d2 2 (reads mp m)" and t: "t = m_metaTiles mp + 4 * unat (meta_at mp m x y)"
  shows "column_tiles attr t d1 d2 m =
      over2 d1 d2 2 (\<lambda>k. attr (tile_at mp m (2 * x) (2 * y + k))) (\<lambda>k. attr (tile_at mp m (2 * x + 1) (2 * y + k))) m"
    and "row_tiles attr t d1 d2 m =
      over2 d1 d2 2 (\<lambda>k. attr (tile_at mp m (2 * x + k) (2 * y))) (\<lambda>k. attr (tile_at mp m (2 * x + k) (2 * y + 1))) m"
proof -
  have "t + k \<in> reads mp m" if "k < 4" for k using readsI(4) [OF that] t by simp
  from this [of 0] this [of 1] this [of 2] this [of 3] ap
  have ne: "t \<notin> {d1, d1 + 1, d2, d2 + 1}" "t + 1 \<notin> {d1, d1 + 1, d2, d2 + 1}" "t + 2 \<notin> {d1, d1 + 1, d2, d2 + 1}"
    "t + 3 \<notin> {d1, d1 + 1, d2, d2 + 1}" "d1 \<notin> {d2, d2 + 1}" "d1 + 1 \<notin> {d2, d2 + 1}"
    unfolding apart_def by fastforce+
  have v: "tile_at mp m (2 * x) (2 * y) = m t" "tile_at mp m (2 * x + 1) (2 * y) = m (t + 1)"
    "tile_at mp m (2 * x) (2 * y + 1) = m (t + 2)" "tile_at mp m (2 * x + 1) (2 * y + 1) = m (t + 3)"
    unfolding tile_at_def t by (simp_all add: numeral_3_eq_3)
  show "column_tiles attr t d1 d2 m =
      over2 d1 d2 2 (\<lambda>k. attr (tile_at mp m (2 * x) (2 * y + k))) (\<lambda>k. attr (tile_at mp m (2 * x + 1) (2 * y + k))) m"
    unfolding over2_2(1) [OF ap] add_0_right v using ne by (simp add: column_tiles_def Let_def)
  show "row_tiles attr t d1 d2 m =
      over2 d1 d2 2 (\<lambda>k. attr (tile_at mp m (2 * x + k) (2 * y))) (\<lambda>k. attr (tile_at mp m (2 * x + k) (2 * y + 1))) m"
    unfolding over2_2(2) [OF ap] add_0_right v using ne by (simp add: row_tiles_def Let_def)
qed

text \<open>Positions along a column and a row of blocks.\<close>

lemma grid_fits:
  assumes "map_ok mp m"
  shows "unat (m (row_pos mp y) + (of_nat x AND m_wMask mp)) = unat (m (row_pos mp y)) + x mod wn mp"
proof -
  have "y div 8 mod hn mp < hn mp" "x mod wn mp < wn mp" by (simp_all add: hn_def wn_def)
  moreover from this have "unat (m (row_pos mp y)) + wn mp \<le> 65536" using assms by (simp add: map_ok_def row_pos_def)
  moreover have "unat (of_nat x AND m_wMask mp) = x mod wn mp"
    using assms by (simp only: map_ok_def wn_def masked_of_nat)
  ultimately show ?thesis using unat_plus_small [of "m (row_pos mp y)" "of_nat x AND m_wMask mp"] by simp
qed

lemma row_word: "map_ok mp m \<Longrightarrow> m_blockRowOffsets mp + unat (of_nat (y div 8) AND m_hMask mp) = row_pos mp y"
  unfolding map_ok_def by (simp only: row_pos_def hn_def masked_of_nat)

lemma block_ptr_pos:
  assumes "map_ok mp m"
  shows "block_ptr (bi_of mp) mp (m (row_pos mp y)) (of_nat (x div 8) AND m_wMask mp) m + 8 * (y mod 8) + x mod 8 = block_pos mp m x y"
  using grid_fits [OF assms, of y "x div 8"] by (simp add: block_ptr_def block_pos_def grid_pos_def)

lemma mod8_step:
  fixes n :: nat
  shows "n mod 8 = 7 \<Longrightarrow> (n + 1) mod 8 = 0 \<and> (n + 1) div 8 = n div 8 + 1"
    and "n mod 8 \<noteq> 7 \<Longrightarrow> (n + 1) mod 8 = n mod 8 + 1 \<and> (n + 1) div 8 = n div 8"
  by (simp_all add: mod_Suc div_Suc)

lemma block_pos_step:
  "y mod 8 \<noteq> 7 \<Longrightarrow> block_pos mp m x (y + 1) = block_pos mp m x y + 8"
  "x mod 8 \<noteq> 7 \<Longrightarrow> block_pos mp m (x + 1) y = block_pos mp m x y + 1"
proof -
  note d = block_pos_def grid_pos_def row_pos_def
  show "block_pos mp m x (y + 1) = block_pos mp m x y + 8" if "y mod 8 \<noteq> 7"
    by (simp only: d mod8_step(2) [OF that, THEN conjunct1] mod8_step(2) [OF that, THEN conjunct2] distrib_left mult_1_right)
  show "block_pos mp m (x + 1) y = block_pos mp m x y + 1" if "x mod 8 \<noteq> 7"
    by (simp only: d mod8_step(2) [OF that, THEN conjunct1] mod8_step(2) [OF that, THEN conjunct2])
qed

lemma unat_mod8: "unat (of_nat (n mod 8) :: u16) = n mod 8"
proof -
  have "n mod 8 < 8" by simp
  then show ?thesis by (simp add: unat_of_nat)
qed

lemma unat_8mod8: "unat (of_nat (8 * (n mod 8)) :: u16) = 8 * (n mod 8)"
proof -
  have "8 * (n mod 8) < 65536" using mod_less_divisor [of 8 n] by linarith
  then show ?thesis by (simp only: unat_of_nat) simp
qed

lemma of_nat_mod8: "(of_nat (n mod 8) + 1 = (8 :: u16)) = (n mod 8 = 7)"
proof -
  have "n mod 8 < 8" by simp
  moreover have "(of_nat (n mod 8) + 1 :: u16) = of_nat (n mod 8 + 1)" by simp
  ultimately have "unat (of_nat (n mod 8) + 1 :: u16) = n mod 8 + 1" by (simp only: unat_of_nat) simp
  then show ?thesis by (auto simp: word_unat_eq_iff)
qed

lemma column_loop_ok:
  assumes "map_ok mp m" "apart d1 d2 (2 * h) (reads mp m)"
  shows "column_loop (mti_of mp) (bi_of mp) attr mp (of_nat (x div 8) AND m_wMask mp) (of_nat (x mod 8)) h d1 d2
      (block_pos mp m x y) (of_nat (y mod 8)) (of_nat (y div 8) AND m_hMask mp) m =
    over2 d1 d2 (2 * h) (\<lambda>k. attr (tile_at mp m (2 * x) (2 * y + k))) (\<lambda>k. attr (tile_at mp m (2 * x + 1) (2 * y + k))) m"
  using assms
proof (induction h arbitrary: d1 d2 y m)
  case (Suc h)
  have e: "2 * Suc h = 2 + 2 * h" by simp
  note ap = apart_less [OF Suc.prems(2) [unfolded e]]
  let ?G = "\<lambda>m x' y k. attr (tile_at mp m x' (2 * y + k))"
  define m1 where "m1 = over2 d1 d2 2 (?G m (2 * x) y) (?G m (2 * x + 1) y) m"
  have "column_tiles attr (m_metaTiles mp + 4 * unat (meta_at mp m x y)) d1 d2 m = m1"
    unfolding m1_def by (rule one_metatile(1) [OF ap(1) refl])
  then have m1: "column_tiles attr (m_metaTiles mp + 2 * 2 * unat (meta_at mp m x y)) d1 d2 m = m1" by simp
  have same: "m1 a = m a" if "a \<in> reads mp m" for a unfolding m1_def by (rule over2_other [OF ap(1) that])
  have ok1: "map_ok mp m1" using Suc.prems(1) same_map_ok [OF same] by simp
  note sm = same_map [OF same]
  let ?C = "column_loop (mti_of mp) (bi_of mp) attr mp (of_nat (x div 8) AND m_wMask mp) (of_nat (x mod 8))"
  let ?yb = "of_nat (y div 8) AND m_hMask mp" and ?yb' = "of_nat ((y + 1) div 8) AND m_hMask mp"
  have rest: "?C h (d1 + 2) (d2 + 2) (block_pos mp m1 x (y + 1)) (of_nat ((y + 1) mod 8)) ?yb' m1
      = over2 (d1 + 2) (d2 + 2) (2 * h) (?G m1 (2 * x) (y + 1)) (?G m1 (2 * x + 1) (y + 1)) m1"
    using ap(2) by (intro Suc.IH ok1) (simp add: sm)
  have "?C (Suc h) d1 d2 (block_pos mp m x y) (of_nat (y mod 8)) ?yb m
      = ?C h (d1 + 2) (d2 + 2) (block_pos mp m1 x (y + 1)) (of_nat ((y + 1) mod 8)) ?yb' m1"
  proof (cases "y mod 8 = 7")
    case True
    then have y: "(y + 1) mod 8 = 0" "(y + 1) div 8 = y div 8 + 1" using mod8_step(1) by simp_all
    have "(?yb + 1) AND m_hMask mp = ?yb'"
      unfolding y(2) by (rule next_block) (use ok1 in \<open>simp add: map_ok_def\<close>)
    moreover have "block_ptr (bi_of mp) mp (m1 (row_pos mp (y + 1))) (of_nat (x div 8) AND m_wMask mp) m1
        + unat (of_nat (x mod 8) :: u16) = block_pos mp m1 x (y + 1)"
      using block_ptr_pos [OF ok1, of "y + 1" x] by (simp only: y mult_0_right add_0_right unat_mod8)
    moreover have z: "of_nat ((y + 1) mod 8) = (0 :: u16)" unfolding y(1) by simp
    moreover have "(of_nat (y mod 8) + 1 = (8 :: u16)) = True" using True of_nat_mod8 [of y] by simp
    ultimately show ?thesis
      by (simp only: column_loop.simps Let_def meta_at_def [symmetric] m1 if_True row_word [OF ok1] z)
  next
    case False
    then have y: "(y + 1) mod 8 = y mod 8 + 1" "(y + 1) div 8 = y div 8" using mod8_step(2) by simp_all
    show ?thesis
      by (simp only: column_loop.simps Let_def meta_at_def [symmetric] m1 of_nat_mod8 False if_False sm
          block_pos_step(1) [OF False] y of_nat_add of_nat_1)
  qed
  also note rest
  also have "over2 (d1 + 2) (d2 + 2) (2 * h) (?G m1 (2 * x) (y + 1)) (?G m1 (2 * x + 1) (y + 1)) m1
      = over2 d1 d2 (2 + 2 * h) (?G m (2 * x) y) (?G m (2 * x + 1) y) m"
    using over2_over2 [OF Suc.prems(2) [unfolded e], of "?G m (2 * x) y" "?G m (2 * x + 1) y" m]
    by (simp only: sm m1_def [symmetric] distrib_left mult_1_right add.assoc)
  finally show ?case by (simp only: e)
qed simp

lemma row_loop_ok:
  assumes "map_ok mp m" "apart d1 d2 (2 * w) (reads mp m)"
  shows "row_loop (mti_of mp) (bi_of mp) attr mp (m (row_pos mp y)) (of_nat (8 * (y mod 8))) w d1 d2
      (block_pos mp m x y) (of_nat (x mod 8)) (of_nat (x div 8) AND m_wMask mp) m =
    over2 d1 d2 (2 * w) (\<lambda>k. attr (tile_at mp m (2 * x + k) (2 * y))) (\<lambda>k. attr (tile_at mp m (2 * x + k) (2 * y + 1))) m"
  using assms
proof (induction w arbitrary: d1 d2 x m)
  case (Suc w)
  have e: "2 * Suc w = 2 + 2 * w" by simp
  note ap = apart_less [OF Suc.prems(2) [unfolded e]]
  let ?G = "\<lambda>m x y' k. attr (tile_at mp m (2 * x + k) y')"
  define m1 where "m1 = over2 d1 d2 2 (?G m x (2 * y)) (?G m x (2 * y + 1)) m"
  have "row_tiles attr (m_metaTiles mp + 4 * unat (meta_at mp m x y)) d1 d2 m = m1"
    unfolding m1_def by (rule one_metatile(2) [OF ap(1) refl])
  then have m1: "row_tiles attr (m_metaTiles mp + 2 * 2 * unat (meta_at mp m x y)) d1 d2 m = m1" by simp
  have same: "m1 a = m a" if "a \<in> reads mp m" for a unfolding m1_def by (rule over2_other [OF ap(1) that])
  have ok1: "map_ok mp m1" using Suc.prems(1) same_map_ok [OF same] by simp
  have base: "m1 (row_pos mp y) = m (row_pos mp y)" by (rule same [OF readsI(1)])
  note sm = same_map [OF same]
  let ?R = "row_loop (mti_of mp) (bi_of mp) attr mp (m (row_pos mp y)) (of_nat (8 * (y mod 8)))"
  let ?xb = "of_nat (x div 8) AND m_wMask mp" and ?xb' = "of_nat ((x + 1) div 8) AND m_wMask mp"
  have rest: "?R w (d1 + 2) (d2 + 2) (block_pos mp m1 (x + 1) y) (of_nat ((x + 1) mod 8)) ?xb' m1
      = over2 (d1 + 2) (d2 + 2) (2 * w) (?G m1 (x + 1) (2 * y)) (?G m1 (x + 1) (2 * y + 1)) m1"
    unfolding base [symmetric] using ap(2) by (intro Suc.IH ok1) (simp add: sm)
  have "?R (Suc w) d1 d2 (block_pos mp m x y) (of_nat (x mod 8)) ?xb m
      = ?R w (d1 + 2) (d2 + 2) (block_pos mp m1 (x + 1) y) (of_nat ((x + 1) mod 8)) ?xb' m1"
  proof (cases "x mod 8 = 7")
    case True
    then have x: "(x + 1) mod 8 = 0" "(x + 1) div 8 = x div 8 + 1" using mod8_step(1) by simp_all
    have "(?xb + 1) AND m_wMask mp = ?xb'"
      unfolding x(2) by (rule next_block) (use ok1 in \<open>simp add: map_ok_def\<close>)
    moreover have "block_ptr (bi_of mp) mp (m (row_pos mp y)) ?xb' m1 + unat (of_nat (8 * (y mod 8)) :: u16) = block_pos mp m1 (x + 1) y"
      using block_ptr_pos [OF ok1, of y "x + 1"] by (simp only: x add_0_right unat_8mod8 base)
    moreover have z: "of_nat ((x + 1) mod 8) = (0 :: u16)" unfolding x(1) by simp
    moreover have "(of_nat (x mod 8) + 1 = (8 :: u16)) = True" using True of_nat_mod8 [of x] by simp
    ultimately show ?thesis
      by (simp only: row_loop.simps Let_def meta_at_def [symmetric] m1 if_True z)
  next
    case False
    then have x: "(x + 1) mod 8 = x mod 8 + 1" "(x + 1) div 8 = x div 8" using mod8_step(2) by simp_all
    show ?thesis
      by (simp only: row_loop.simps Let_def meta_at_def [symmetric] m1 of_nat_mod8 False if_False sm
          block_pos_step(2) [OF False] x of_nat_add of_nat_1)
  qed
  also note rest
  also have "over2 (d1 + 2) (d2 + 2) (2 * w) (?G m1 (x + 1) (2 * y)) (?G m1 (x + 1) (2 * y + 1)) m1
      = over2 d1 d2 (2 + 2 * w) (?G m x (2 * y)) (?G m x (2 * y + 1)) m"
    using over2_over2 [OF Suc.prems(2) [unfolded e], of "?G m x (2 * y)" "?G m x (2 * y + 1)" m]
    by (simp only: sm m1_def [symmetric] distrib_left mult_1_right add.assoc)
  finally show ?case by (simp only: e)
qed simp

section \<open>What the decoders give\<close>

lemma word_parts:
  fixes x :: u16
  shows "x div 8 = of_nat (unat x div 8)" "x AND 7 = of_nat (unat x mod 8)" "of_nat n * (8 :: u16) = of_nat (8 * n)"
    "x div 2 = of_nat (unat x div 2)" "x AND 1 = of_nat (unat x mod 2)"
proof -
  show "x div 8 = of_nat (unat x div 8)" "x div 2 = of_nat (unat x div 2)"
    using unat_u16_lt [of x] by (simp_all add: word_unat_eq_iff unat_div unat_of_nat)
  have m: "(7 :: u16) = mask 3" by (simp add: mask_eq_exp_minus_1)
  have "unat (x AND 7) = unat x mod 8" unfolding m unat_and_mask by simp
  then show p: "x AND 7 = of_nat (unat x mod 8)" by (metis of_nat_unat ucast_id)
  show "of_nat n * (8 :: u16) = of_nat (8 * n)" by simp
  show "x AND 1 = of_nat (unat x mod 2)" by (metis unat_and_1 of_nat_unat ucast_id)
qed

lemma prepare_column_ok:
  assumes "map_ok mp m" "apart d1 d2 (2 * unat h) (reads mp m)"
  shows "prepare_column (mti_of mp) (bi_of mp) attr mp d1 d2 xm ym h m = over2 d1 d2 (2 * unat h)
      (\<lambda>k. attr (tile_at mp m (2 * unat xm) (2 * unat ym + k))) (\<lambda>k. attr (tile_at mp m (2 * unat xm + 1) (2 * unat ym + k))) m"
proof -
  let ?x = "unat xm" and ?y = "unat ym"
  have "unat (of_nat (?x mod 8) + of_nat (8 * (?y mod 8)) :: u16) = 8 * (?y mod 8) + ?x mod 8"
    using unat_plus_small [of "of_nat (?x mod 8) :: u16" "of_nat (8 * (?y mod 8))"] mod_less_divisor [of 8 ?x] mod_less_divisor [of 8 ?y]
    by (simp only: unat_mod8 unat_8mod8) simp
  then have "block_ptr (bi_of mp) mp (m (row_pos mp ?y)) (of_nat (?x div 8) AND m_wMask mp) m
      + unat (of_nat (?x mod 8) + of_nat (8 * (?y mod 8)) :: u16) = block_pos mp m ?x ?y"
    using block_ptr_pos [OF assms(1), of ?y ?x] by simp
  then show ?thesis
    unfolding prepare_column_def Let_def word_parts(1-3) row_word [OF assms(1)]
    by (simp only: column_loop_ok [OF assms])
qed

lemma prepare_row_ok:
  assumes "map_ok mp m" "apart d1 d2 (2 * unat w) (reads mp m)"
  shows "prepare_row (mti_of mp) (bi_of mp) attr mp d1 d2 xm ym w m = over2 d1 d2 (2 * unat w)
      (\<lambda>k. attr (tile_at mp m (2 * unat xm + k) (2 * unat ym))) (\<lambda>k. attr (tile_at mp m (2 * unat xm + k) (2 * unat ym + 1))) m"
proof -
  let ?x = "unat xm" and ?y = "unat ym"
  have "unat (of_nat (8 * (?y mod 8)) + of_nat (?x mod 8) :: u16) = 8 * (?y mod 8) + ?x mod 8"
    using unat_plus_small [of "of_nat (8 * (?y mod 8)) :: u16" "of_nat (?x mod 8)"] mod_less_divisor [of 8 ?x] mod_less_divisor [of 8 ?y]
    by (simp only: unat_mod8 unat_8mod8) simp
  then have "block_ptr (bi_of mp) mp (m (row_pos mp ?y)) (of_nat (?x div 8) AND m_wMask mp) m
      + unat (of_nat (8 * (?y mod 8)) + of_nat (?x mod 8) :: u16) = block_pos mp m ?x ?y"
    using block_ptr_pos [OF assms(1), of ?y ?x] by simp
  then show ?thesis
    unfolding prepare_row_def Let_def word_parts(1-3) row_word [OF assms(1)]
    by (simp only: row_loop_ok [OF assms])
qed

text \<open>The call through the pointer: the tiles with the base tile added.\<close>

lemma columnCB_ok:
  assumes "map_ok mp m" "apart d1 d2 (2 * unat h) (reads mp m)"
  shows "prepareMapDataColumnCB mp d1 d2 xm ym h m = over2 d1 d2 (2 * unat h)
      (\<lambda>k. shown mp m (2 * unat xm) (2 * unat ym + k)) (\<lambda>k. shown mp m (2 * unat xm + 1) (2 * unat ym + k)) m"
proof -
  define attr where "attr = (if m_baseTile mp \<noteq> 0 then add_base mp else (\<lambda>t. t))"
  have cb: "m_columnCB mp = (mti_of mp, bi_of mp, m_baseTile mp \<noteq> 0)" using assms(1) by (simp add: map_ok_def)
  have "prepareMapDataColumnCB mp d1 d2 xm ym h m = prepare_column (mti_of mp) (bi_of mp) attr mp d1 d2 xm ym h m"
    unfolding prepareMapDataColumnCB_def cb attr_def
    by (cases "mti_of mp"; cases "bi_of mp"; cases "m_baseTile mp = 0")
      (simp_all add: prepareMapDataColumn_MTI8_BI8_def prepareMapDataColumn_MTI8_BI16_def prepareMapDataColumn_MTI16_BI8_def
        prepareMapDataColumn_MTI16_BI16_def prepareMapDataColumnEx_MTI8_BI8_def prepareMapDataColumnEx_MTI8_BI16_def
        prepareMapDataColumnEx_MTI16_BI8_def prepareMapDataColumnEx_MTI16_BI16_def)
  moreover have "attr t = t + m_baseTile mp" for t by (simp add: attr_def add_base_def)
  ultimately show ?thesis by (simp add: prepare_column_ok [OF assms] shown_def)
qed

lemma rowCB_ok:
  assumes "map_ok mp m" "apart d1 d2 (2 * unat w) (reads mp m)"
  shows "prepareMapDataRowCB mp d1 d2 xm ym w m = over2 d1 d2 (2 * unat w)
      (\<lambda>k. shown mp m (2 * unat xm + k) (2 * unat ym)) (\<lambda>k. shown mp m (2 * unat xm + k) (2 * unat ym + 1)) m"
proof -
  define attr where "attr = (if m_baseTile mp \<noteq> 0 then add_base mp else (\<lambda>t. t))"
  have cb: "m_rowCB mp = (mti_of mp, bi_of mp, m_baseTile mp \<noteq> 0)" using assms(1) by (simp add: map_ok_def)
  have "prepareMapDataRowCB mp d1 d2 xm ym w m = prepare_row (mti_of mp) (bi_of mp) attr mp d1 d2 xm ym w m"
    unfolding prepareMapDataRowCB_def cb attr_def
    by (cases "mti_of mp"; cases "bi_of mp"; cases "m_baseTile mp = 0")
      (simp_all add: prepareMapDataRow_MTI8_BI8_def prepareMapDataRow_MTI8_BI16_def prepareMapDataRow_MTI16_BI8_def
        prepareMapDataRow_MTI16_BI16_def prepareMapDataRowEx_MTI8_BI8_def prepareMapDataRowEx_MTI8_BI16_def
        prepareMapDataRowEx_MTI16_BI8_def prepareMapDataRowEx_MTI16_BI16_def)
  moreover have "attr t = t + m_baseTile mp" for t by (simp add: attr_def add_base_def)
  ultimately show ?thesis by (simp add: prepare_row_ok [OF assms] shown_def)
qed

text \<open>The direct functions.\<close>

lemma get_meta_ok:
  assumes "map_ok mp m"
  shows "get_meta (mti_of mp) (bi_of mp) mp x y m = meta_at mp m (unat x) (unat y)"
proof -
  let ?x = "unat x" and ?y = "unat y"
  have "unat (of_nat (8 * (?y mod 8)) + of_nat (?x mod 8) :: u16) = 8 * (?y mod 8) + ?x mod 8"
    using unat_plus_small [of "of_nat (8 * (?y mod 8)) :: u16" "of_nat (?x mod 8)"] mod_less_divisor [of 8 ?x] mod_less_divisor [of 8 ?y]
    by (simp only: unat_mod8 unat_8mod8) simp
  moreover have "unat (of_nat (?x div 8) AND m_wMask mp) = ?x div 8 mod wn mp"
    using assms by (simp only: map_ok_def wn_def masked_of_nat)
  ultimately show ?thesis
    unfolding get_meta_def Let_def word_parts(1-3) row_word [OF assms]
    by (simp add: meta_at_def block_pos_def grid_pos_def add.assoc)
qed

lemma MAP_getMetaTile_at: "map_ok mp m \<Longrightarrow> MAP_getMetaTile mp x y m = meta_at mp m (unat x) (unat y)"
proof -
  assume ok: "map_ok mp m"
  have cb: "m_metaTileCB mp = (mti_of mp, bi_of mp)" by (simp add: mti_of_def bi_of_def)
  have "MAP_getMetaTile mp x y m = get_meta (mti_of mp) (bi_of mp) mp x y m"
    unfolding MAP_getMetaTile_def cb
    by (cases "mti_of mp"; cases "bi_of mp")
      (simp_all add: getMetaTile_MTI8_BI8_def getMetaTile_MTI8_BI16_def getMetaTile_MTI16_BI8_def getMetaTile_MTI16_BI16_def)
  then show ?thesis by (simp add: get_meta_ok [OF ok])
qed

lemma MAP_getTile_at:
  assumes "map_ok mp m"
  shows "MAP_getTile mp x y m = tile_at mp m (unat x) (unat y)"
proof -
  have "unat x div 2 < 65536" "unat y div 2 < 65536" using unat_u16_lt [of x] unat_u16_lt [of y] by linarith+
  then have d: "unat (of_nat (unat x div 2) :: u16) = unat x div 2" "unat (of_nat (unat y div 2) :: u16) = unat y div 2"
    by (simp_all add: unat_of_nat)
  have "unat y mod 2 * 2 + unat x mod 2 < 65536" using mod_less_divisor [of 2 "unat x"] mod_less_divisor [of 2 "unat y"] by linarith
  moreover have "(of_nat (unat y mod 2) * 2 + of_nat (unat x mod 2) :: u16) = of_nat (unat y mod 2 * 2 + unat x mod 2)" by simp
  ultimately have o: "unat (of_nat (unat y mod 2) * 2 + of_nat (unat x mod 2) :: u16) = unat y mod 2 * 2 + unat x mod 2"
    by (simp only: unat_of_nat) simp
  show ?thesis
    unfolding MAP_getTile_def Let_def word_parts(4,5) MAP_getMetaTile_at [OF assms] d o
    by (simp add: tile_at_def algebra_simps)
qed

section \<open>What the rectangles hold\<close>

definition over1 :: "ptr \<Rightarrow> nat \<Rightarrow> (nat \<Rightarrow> u16) \<Rightarrow> ram \<Rightarrow> ram" where
  "over1 d n g m = (\<lambda>a. if a \<in> {d ..< d + n} then g (a - d) else m a)"

lemma over1_0 [simp]: "over1 d 0 g m = m"
  by (rule ext) (simp add: over1_def)

lemma over1_over1: "over1 (d + n) k (\<lambda>i. g (n + i)) (over1 d n g m) = over1 d (n + k) g m"
  by (rule ext) (auto simp: over1_def)

lemma over1_1: "over1 d 1 g m = m(d := g 0)"
  by (rule ext) (auto simp: over1_def)

lemma over1_other: "{d ..< d + n} \<inter> R = {} \<Longrightarrow> a \<in> R \<Longrightarrow> over1 d n g m a = m a"
  by (auto simp: over1_def)

lemma range_disjoint: "{a ..< b} \<inter> R = {} \<Longrightarrow> a \<le> c \<Longrightarrow> d \<le> b \<Longrightarrow> {c ..< d} \<inter> R = ({} :: nat set)"
  by (fastforce simp: disjoint_iff)

lemma over2_over1:
  "over2 d (d + n) n g1 g2 m = over1 d (n + n) (\<lambda>k. if k < n then g1 k else g2 (k - n)) m"
  by (rule ext) (auto simp: over1_def over2_def)

lemma over1_cong: "(\<And>k. k < n \<Longrightarrow> g k = h k) \<Longrightarrow> over1 d n g m = over1 d n h m"
  by (rule ext) (auto simp: over1_def)

lemma direct_pos:
  assumes "map_ok mp m"
  shows "64 * unat (arr (bi_of mp) (m_blockIndexes mp)
      (unat (m (m_blockRowOffsets mp + unat (of_nat (y div 8) AND m_hMask mp))) + unat (of_nat (x div 8) AND m_wMask mp)) m)
      + 8 * (y mod 8) + x mod 8 = block_pos mp m x y"
proof -
  have "unat (of_nat (x div 8) AND m_wMask mp) = x div 8 mod wn mp"
    using assms by (simp only: map_ok_def wn_def masked_of_nat)
  then show ?thesis by (simp add: row_word [OF assms] block_pos_def grid_pos_def)
qed

lemma meta_row_loop_ok:
  assumes "map_ok mp m" "{dest ..< dest + n} \<inter> reads mp m = {}"
  shows "meta_row_loop (mti_of mp) (bi_of mp) mp (of_nat (y div 8) AND m_hMask mp) (of_nat (y mod 8)) n dest
      (block_pos mp m x y) (of_nat (x mod 8)) (of_nat (x div 8) AND m_wMask mp) m
    = (dest + n, over1 dest n (\<lambda>k. meta_at mp m (x + k) y) m)"
  using assms
proof (induction n arbitrary: dest x m)
  case (Suc n)
  define m1 where "m1 = m(dest := meta_at mp m x y)"
  have o: "m1 = over1 dest 1 (\<lambda>k. meta_at mp m (x + k) y) m" unfolding over1_1 m1_def by simp
  have same: "m1 a = m a" if "a \<in> reads mp m" for a using that Suc.prems(2) unfolding m1_def by fastforce
  have ok1: "map_ok mp m1" using Suc.prems(1) same_map_ok [OF same] by simp
  note sm = same_map [OF same]
  let ?R = "meta_row_loop (mti_of mp) (bi_of mp) mp (of_nat (y div 8) AND m_hMask mp) (of_nat (y mod 8))"
  let ?xb = "of_nat (x div 8) AND m_wMask mp" and ?xb' = "of_nat ((x + 1) div 8) AND m_wMask mp"
  have rest: "?R n (dest + 1) (block_pos mp m1 (x + 1) y) (of_nat ((x + 1) mod 8)) ?xb' m1
      = (dest + 1 + n, over1 (dest + 1) n (\<lambda>k. meta_at mp m1 (x + 1 + k) y) m1)"
    by (intro Suc.IH ok1) (simp only: sm, rule range_disjoint [OF Suc.prems(2)], simp_all)
  have "?R (Suc n) dest (block_pos mp m x y) (of_nat (x mod 8)) ?xb m
      = ?R n (dest + 1) (block_pos mp m1 (x + 1) y) (of_nat ((x + 1) mod 8)) ?xb' m1"
  proof (cases "x mod 8 = 7")
    case True
    then have x: "(x + 1) mod 8 = 0" "(x + 1) div 8 = x div 8 + 1" using mod8_step(1) by simp_all
    have "(?xb + 1) AND m_wMask mp = ?xb'"
      unfolding x(2) by (rule next_block) (use ok1 in \<open>simp add: map_ok_def\<close>)
    moreover note direct_pos [OF ok1, of y "x + 1", unfolded x(1) add_0_right]
    moreover have z: "of_nat ((x + 1) mod 8) = (0 :: u16)" unfolding x(1) by simp
    moreover have "(of_nat (x mod 8) + 1 = (8 :: u16)) = True" using True of_nat_mod8 [of x] by simp
    ultimately show ?thesis
      by (simp only: meta_row_loop.simps Let_def meta_at_def [symmetric] m1_def [symmetric] if_True z word_parts(3) unat_8mod8)
  next
    case False
    then have x: "(x + 1) mod 8 = x mod 8 + 1" "(x + 1) div 8 = x div 8" using mod8_step(2) by simp_all
    show ?thesis
      by (simp only: meta_row_loop.simps Let_def meta_at_def [symmetric] m1_def [symmetric] of_nat_mod8 False if_False sm
          block_pos_step(2) [OF False] x of_nat_add of_nat_1)
  qed
  also note rest
  also have "over1 (dest + 1) n (\<lambda>k. meta_at mp m1 (x + 1 + k) y) m1 = over1 dest (1 + n) (\<lambda>k. meta_at mp m (x + k) y) m"
    unfolding over1_over1 [symmetric] o [symmetric] by (simp add: sm add.assoc)
  finally show ?case by simp
qed simp

text \<open>Rows of \<open>w\<close> words one after the other.\<close>

lemma rows_step:
  assumes "0 < w"
  shows "over1 (d + w) (n * w) (\<lambda>k. G (k mod w) (Suc (k div w))) (over1 d w (\<lambda>k. G k 0) m)
    = over1 d (Suc n * w) (\<lambda>k. G (k mod w) (k div w)) m"
proof -
  have "over1 d w (\<lambda>k. G k 0) m = over1 d w (\<lambda>k. G (k mod w) (k div w)) m" by (rule over1_cong) simp
  moreover have "(\<lambda>k. G (k mod w) (Suc (k div w))) = (\<lambda>k. G ((w + k) mod w) ((w + k) div w))"
    using assms by (simp add: fun_eq_iff div_add_self1)
  ultimately show ?thesis using over1_over1 [of d w "n * w" "\<lambda>k. G (k mod w) (k div w)" m] by simp
qed

lemma meta_rect_loop_ok:
  assumes "map_ok mp m" "{dest ..< dest + h * unat w} \<inter> reads mp m = {}" "0 < unat w"
  shows "meta_rect_loop (mti_of mp) (bi_of mp) mp x (of_nat (unat x div 8) AND m_wMask mp) w h dest
      (of_nat (y mod 8)) (of_nat (y div 8) AND m_hMask mp) m
    = over1 dest (h * unat w) (\<lambda>k. meta_at mp m (unat x + k mod unat w) (y + k div unat w)) m"
  using assms
proof (induction h arbitrary: dest y m)
  case (Suc h)
  let ?x = "unat x" and ?w = "unat w"
  define m1 where "m1 = over1 dest ?w (\<lambda>k. meta_at mp m (?x + k) y) m"
  have d: "{dest ..< dest + ?w} \<inter> reads mp m = {}" "{dest + ?w ..< dest + ?w + h * ?w} \<inter> reads mp m = {}"
    by (rule range_disjoint [OF Suc.prems(2)]; simp)+
  have same: "m1 a = m a" if "a \<in> reads mp m" for a unfolding m1_def by (rule over1_other [OF d(1) that])
  have ok1: "map_ok mp m1" using Suc.prems(1) same_map_ok [OF same] by simp
  note sm = same_map [OF same]
  have row: "meta_row_loop (mti_of mp) (bi_of mp) mp (of_nat (y div 8) AND m_hMask mp) (of_nat (y mod 8)) ?w dest
      (block_pos mp m ?x y) (of_nat (?x mod 8)) (of_nat (?x div 8) AND m_wMask mp) m = (dest + ?w, m1)"
    unfolding m1_def by (rule meta_row_loop_ok [OF Suc.prems(1) d(1)])
  let ?L = "meta_rect_loop (mti_of mp) (bi_of mp) mp x (of_nat (?x div 8) AND m_wMask mp) w"
  let ?yb' = "of_nat ((y + 1) div 8) AND m_hMask mp"
  have rest: "?L h (dest + ?w) (of_nat ((y + 1) mod 8)) ?yb' m1
      = over1 (dest + ?w) (h * ?w) (\<lambda>k. meta_at mp m1 (?x + k mod ?w) (y + 1 + k div ?w)) m1"
    using d(2) Suc.prems(3) by (intro Suc.IH ok1) (simp_all add: sm)
  have "?L (Suc h) dest (of_nat (y mod 8)) (of_nat (y div 8) AND m_hMask mp) m = ?L h (dest + ?w) (of_nat ((y + 1) mod 8)) ?yb' m1"
  proof (cases "y mod 8 = 7")
    case True
    then have y: "(y + 1) mod 8 = 0" "(y + 1) div 8 = y div 8 + 1" using mod8_step(1) by simp_all
    have "((of_nat (y div 8) AND m_hMask mp) + 1) AND m_hMask mp = ?yb'"
      unfolding y(2) by (rule next_block) (use ok1 in \<open>simp add: map_ok_def\<close>)
    moreover have z: "of_nat ((y + 1) mod 8) = (0 :: u16)" unfolding y(1) by simp
    moreover have "(of_nat (y mod 8) + 1 = (8 :: u16)) = True" using True of_nat_mod8 [of y] by simp
    ultimately show ?thesis
      by (simp only: meta_rect_loop.simps Let_def word_parts(2,3) unat_8mod8 unat_mod8 direct_pos [OF Suc.prems(1)] row prod.case if_True z)
  next
    case False
    then have y: "(y + 1) mod 8 = y mod 8 + 1" "(y + 1) div 8 = y div 8" using mod8_step(2) by simp_all
    show ?thesis
      by (simp only: meta_rect_loop.simps Let_def word_parts(2,3) unat_8mod8 unat_mod8 direct_pos [OF Suc.prems(1)] row prod.case
          of_nat_mod8 False if_False y of_nat_add of_nat_1)
  qed
  also note rest
  also have "over1 (dest + ?w) (h * ?w) (\<lambda>k. meta_at mp m1 (?x + k mod ?w) (y + 1 + k div ?w)) m1
      = over1 dest (Suc h * ?w) (\<lambda>k. meta_at mp m (?x + k mod ?w) (y + k div ?w)) m"
    using rows_step [OF Suc.prems(3), of dest h "\<lambda>i j. meta_at mp m (?x + i) (y + j)" m] by (simp add: sm flip: m1_def)
  finally show ?case .
qed simp

text \<open>A rectangle of metatiles, row by row.\<close>

lemma meta_rect_at:
  assumes "map_ok mp m" "{dest ..< dest + unat h * unat w} \<inter> reads mp m = {}" "0 < unat w"
  shows "MAP_getMetaTilemapRect mp x y w h dest m
    = over1 dest (unat h * unat w) (\<lambda>k. meta_at mp m (unat x + k mod unat w) (unat y + k div unat w)) m"
proof -
  have cb: "m_rectCB mp = (mti_of mp, bi_of mp)" using assms(1) by (simp add: map_ok_def mti_of_def bi_of_def)
  have "MAP_getMetaTilemapRect mp x y w h dest m = meta_rect (mti_of mp) (bi_of mp) mp x y w h dest m"
    unfolding MAP_getMetaTilemapRect_def cb
    by (cases "mti_of mp"; cases "bi_of mp")
      (simp_all add: getMetaTilemapRect_MTI8_BI8_def getMetaTilemapRect_MTI8_BI16_def
        getMetaTilemapRect_MTI16_BI8_def getMetaTilemapRect_MTI16_BI16_def)
  also have "\<dots> = over1 dest (unat h * unat w) (\<lambda>k. meta_at mp m (unat x + k mod unat w) (unat y + k div unat w)) m"
    unfolding meta_rect_def word_parts(1,2) using meta_rect_loop_ok [OF assms, of x "unat y"] by (simp only: word_parts(1))
  finally show ?thesis .
qed

text \<open>A rectangle of tiles: rows of \<open>2 w\<close> words, or columns of \<open>2 h\<close> words.\<close>

lemma unat_Suc: "unat (x :: u16) + Suc n < 65536 \<Longrightarrow> unat (x + 1) = unat x + 1"
  using unat_plus_small [of x 1] by simp

lemma two_more: "0 < n \<Longrightarrow> (n + n + k) mod n = k mod (n :: nat)" "0 < n \<Longrightarrow> (n + n + k) div n = k div n + 2"
proof -
  have e: "n + n + k = k + 2 * n" by simp
  show "0 < n \<Longrightarrow> (n + n + k) mod n = k mod n" "0 < n \<Longrightarrow> (n + n + k) div n = k div n + 2"
    unfolding e by simp_all
qed

lemma apart_run: "{d ..< d + (n + n)} \<inter> R = {} \<Longrightarrow> apart d (d + n) n R"
  unfolding apart_def by (fastforce simp: disjoint_iff)

lemma rect_rows_at:
  assumes "map_ok mp m" "{dest ..< dest + h * (4 * unat w)} \<inter> reads mp m = {}" "0 < unat w" "unat y + h < 65536"
  shows "rect_by_rows h mp dest (dest + unat w * 2) x y w m
    = over1 dest (h * (4 * unat w)) (\<lambda>k. shown mp m (2 * unat x + k mod (2 * unat w)) (2 * unat y + k div (2 * unat w))) m"
  using assms
proof (induction h arbitrary: dest y m)
  case (Suc h)
  let ?w = "2 * unat w" and ?x = "2 * unat x"
  define m1 where "m1 = prepareMapDataRowCB mp dest (dest + unat w * 2) x y w m"
  have d: "{dest ..< dest + (?w + ?w)} \<inter> reads mp m = {}" "{dest + unat w * 4 ..< dest + unat w * 4 + h * (4 * unat w)} \<inter> reads mp m = {}"
    by (rule range_disjoint [OF Suc.prems(2)]; simp)+
  have e: "unat w * 2 = ?w" by simp
  have o: "m1 = over1 dest (?w + ?w) (\<lambda>k. shown mp m (?x + k mod ?w) (2 * unat y + k div ?w)) m"
    unfolding m1_def e rowCB_ok [OF Suc.prems(1) apart_run [OF d(1)]] over2_over1
    by (rule over1_cong) (auto simp: le_mod_geq le_div_geq not_less)
  have same: "m1 a = m a" if "a \<in> reads mp m" for a unfolding o by (rule over1_other [OF d(1) that])
  have ok1: "map_ok mp m1" using Suc.prems(1) same_map_ok [OF same] by simp
  note sm = same_map [OF same]
  have y: "unat (y + 1) = unat y + 1" by (rule unat_Suc [OF Suc.prems(4)])
  have d2: "dest + unat w * 2 + unat w * 4 = dest + unat w * 4 + unat w * 2" by simp
  have "rect_by_rows (Suc h) mp dest (dest + unat w * 2) x y w m
      = rect_by_rows h mp (dest + unat w * 4) (dest + unat w * 4 + unat w * 2) x (y + 1) w m1"
    by (simp only: rect_by_rows.simps m1_def d2)
  also have "\<dots> = over1 (dest + unat w * 4) (h * (4 * unat w))
      (\<lambda>k. shown mp m1 (?x + k mod ?w) (2 * unat (y + 1) + k div ?w)) m1"
    using d(2) Suc.prems(3,4) by (intro Suc.IH ok1) (simp_all add: sm y)
  also have "\<dots> = over1 dest (4 * unat w + h * (4 * unat w)) (\<lambda>k. shown mp m (?x + k mod ?w) (2 * unat y + k div ?w)) m"
  proof -
    have "(?w + ?w + k) mod ?w = k mod ?w" "(?w + ?w + k) div ?w = k div ?w + 2" for k
      by (rule two_more, simp add: Suc.prems(3))+
    then show ?thesis
      using over1_over1 [of dest "?w + ?w" "h * (4 * unat w)" "\<lambda>k. shown mp m (?x + k mod ?w) (2 * unat y + k div ?w)" m]
      unfolding o [symmetric] y by (simp add: sm algebra_simps)
  qed
  finally show ?case by simp
qed simp

lemma rect_columns_at:
  assumes "map_ok mp m" "{dest ..< dest + w * (4 * unat h)} \<inter> reads mp m = {}" "0 < unat h" "unat x + w < 65536"
  shows "rect_by_columns w mp dest (dest + unat h * 2) x y h m
    = over1 dest (w * (4 * unat h)) (\<lambda>k. shown mp m (2 * unat x + k div (2 * unat h)) (2 * unat y + k mod (2 * unat h))) m"
  using assms
proof (induction w arbitrary: dest x m)
  case (Suc w)
  let ?h = "2 * unat h" and ?y = "2 * unat y"
  define m1 where "m1 = prepareMapDataColumnCB mp dest (dest + unat h * 2) x y h m"
  have d: "{dest ..< dest + (?h + ?h)} \<inter> reads mp m = {}" "{dest + unat h * 4 ..< dest + unat h * 4 + w * (4 * unat h)} \<inter> reads mp m = {}"
    by (rule range_disjoint [OF Suc.prems(2)]; simp)+
  have e: "unat h * 2 = ?h" by simp
  have o: "m1 = over1 dest (?h + ?h) (\<lambda>k. shown mp m (2 * unat x + k div ?h) (?y + k mod ?h)) m"
    unfolding m1_def e columnCB_ok [OF Suc.prems(1) apart_run [OF d(1)]] over2_over1
    by (rule over1_cong) (auto simp: le_mod_geq le_div_geq not_less)
  have same: "m1 a = m a" if "a \<in> reads mp m" for a unfolding o by (rule over1_other [OF d(1) that])
  have ok1: "map_ok mp m1" using Suc.prems(1) same_map_ok [OF same] by simp
  note sm = same_map [OF same]
  have x: "unat (x + 1) = unat x + 1" by (rule unat_Suc [OF Suc.prems(4)])
  have d2: "dest + unat h * 2 + unat h * 4 = dest + unat h * 4 + unat h * 2" by simp
  have "rect_by_columns (Suc w) mp dest (dest + unat h * 2) x y h m
      = rect_by_columns w mp (dest + unat h * 4) (dest + unat h * 4 + unat h * 2) (x + 1) y h m1"
    by (simp only: rect_by_columns.simps m1_def d2)
  also have "\<dots> = over1 (dest + unat h * 4) (w * (4 * unat h))
      (\<lambda>k. shown mp m1 (2 * unat (x + 1) + k div ?h) (?y + k mod ?h)) m1"
    using d(2) Suc.prems(3,4) by (intro Suc.IH ok1) (simp_all add: sm x)
  also have "\<dots> = over1 dest (4 * unat h + w * (4 * unat h)) (\<lambda>k. shown mp m (2 * unat x + k div ?h) (?y + k mod ?h)) m"
  proof -
    have "(?h + ?h + k) mod ?h = k mod ?h" "(?h + ?h + k) div ?h = k div ?h + 2" for k
      by (rule two_more, simp add: Suc.prems(3))+
    then show ?thesis
      using over1_over1 [of dest "?h + ?h" "w * (4 * unat h)" "\<lambda>k. shown mp m (2 * unat x + k div ?h) (?y + k mod ?h)" m]
      unfolding o [symmetric] x by (simp add: sm algebra_simps)
  qed
  finally show ?case by simp
qed simp

section \<open>Properties of the decoders\<close>

lemma shown_getTile:
  assumes "map_ok mp m" "2 * unat x + i < 65536" "2 * unat y + j < 65536"
  shows "shown mp m (2 * unat x + i) (2 * unat y + j) = MAP_getTile mp (2 * x + of_nat i) (2 * y + of_nat j) m + m_baseTile mp"
proof -
  have "unat (2 * x + of_nat i) = 2 * unat x + i" if "2 * unat x + i < 65536" for x :: u16 and i
  proof -
    have "(2 * x + of_nat i) = of_nat (2 * unat x + i)" by simp
    then show ?thesis using that by (simp only: unat_of_nat) simp
  qed
  then show ?thesis using assms by (simp only: shown_def MAP_getTile_at)
qed

text \<open>
  C7 \<open>MAP_getTilemapRect\<close> decodes block by block with pointers, a row or a column of metatiles at a
  time, with one of eight routines; the tile it stores for each position of the rectangle is the
  one that \<open>MAP_getTile\<close> computes from the coordinates, with the base tile added, in row order or in
  column order, and it writes nothing outside the rectangle.
\<close>

theorem MAP_getTilemapRect_ok:
  assumes "map_ok mp m" "{dest ..< dest + 2 * unat w * (2 * unat h)} \<inter> reads mp m = {}"
    and "unat x + unat w \<le> 32768" "unat y + unat h \<le> 32768" "m' = MAP_getTilemapRect mp x y w h column dest m"
  shows "(\<forall>i < 2 * unat w. \<forall>j < 2 * unat h.
        m' (dest + (if column then i * (2 * unat h) + j else j * (2 * unat w) + i))
          = MAP_getTile mp (2 * x + of_nat i) (2 * y + of_nat j) m + m_baseTile mp) \<and>
      (\<forall>a. a \<notin> {dest ..< dest + 2 * unat w * (2 * unat h)} \<longrightarrow> m' a = m a)"
proof (cases "unat w = 0 \<or> unat h = 0")
  case True
  have "rect_by_columns n mp d1 d2 x y 0 m = m" "rect_by_rows n mp d1 d2 x y 0 m = m" for n d1 d2 x y
    by (induction n arbitrary: d1 d2 x y) (simp_all add: columnCB_ok rowCB_ok assms(1) apart_def)
  then have "m' = m" using True unfolding assms(5) MAP_getTilemapRect_def by (auto simp: unat_eq_zero)
  then show ?thesis using True by auto
next
  case False
  let ?W = "2 * unat w" and ?H = "2 * unat h"
  have pos: "0 < unat w" "0 < unat h" using False by auto
  have t: "shown mp m (2 * unat x + i) (2 * unat y + j) = MAP_getTile mp (2 * x + of_nat i) (2 * y + of_nat j) m + m_baseTile mp"
    if "i < ?W" "j < ?H" for i j using that assms(3,4) by (intro shown_getTile assms(1)) linarith+
  have in_rect: "a * n + b < k * n" if "a < k" "b < n" for a b k n :: nat
  proof -
    have "a * n + b < Suc a * n" using that(2) by simp
    also have "\<dots> \<le> k * n" using that(1) by (intro mult_le_mono1) simp
    finally show ?thesis .
  qed
  have e: "unat h * (4 * unat w) = ?H * ?W" "unat w * (4 * unat h) = ?W * ?H" by simp_all
  have dj: "{dest ..< dest + unat h * (4 * unat w)} \<inter> reads mp m = {}" "{dest ..< dest + unat w * (4 * unat h)} \<inter> reads mp m = {}"
    using assms(2) by (simp_all add: ac_simps)
  show ?thesis
  proof (cases column)
    case True
    then have m': "m' = over1 dest (?W * ?H) (\<lambda>k. shown mp m (2 * unat x + k div ?H) (2 * unat y + k mod ?H)) m"
      using rect_columns_at [OF assms(1) dj(2) pos(2), of x y] assms(3) by (simp add: assms(5) MAP_getTilemapRect_def e(2))
    have "m' (dest + (i * ?H + j)) = shown mp m (2 * unat x + i) (2 * unat y + j)" if "i < ?W" "j < ?H" for i j
      using in_rect [OF that] that(2) unfolding m' over1_def by simp
    then show ?thesis using True t by (simp add: m' over1_def)
  next
    case False
    then have m': "m' = over1 dest (?H * ?W) (\<lambda>k. shown mp m (2 * unat x + k mod ?W) (2 * unat y + k div ?W)) m"
      using rect_rows_at [OF assms(1) dj(1) pos(1), of y x] assms(4) by (simp add: assms(5) MAP_getTilemapRect_def e(1))
    have "m' (dest + (j * ?W + i)) = shown mp m (2 * unat x + i) (2 * unat y + j)" if "i < ?W" "j < ?H" for i j
      using in_rect [OF that(2,1)] that(1) unfolding m' over1_def by simp
    then show ?thesis using False t by (simp add: m' over1_def mult.commute)
  qed
qed

text \<open>
  \<open>MAP_getMetaTilemapRect\<close> stores, row by row, what \<open>MAP_getMetaTile\<close> returns for each position,
  and nothing else.
\<close>

theorem MAP_getMetaTilemapRect_ok:
  assumes "map_ok mp m" "{dest ..< dest + unat h * unat w} \<inter> reads mp m = {}" "0 < w"
    and "unat x + unat w \<le> 65536" "unat y + unat h \<le> 65536" "m' = MAP_getMetaTilemapRect mp x y w h dest m"
  shows "(\<forall>i < unat w. \<forall>j < unat h. m' (dest + (j * unat w + i)) = MAP_getMetaTile mp (x + of_nat i) (y + of_nat j) m) \<and>
      (\<forall>a. a \<notin> {dest ..< dest + unat h * unat w} \<longrightarrow> m' a = m a)"
proof -
  have w: "0 < unat w" using assms(3) by (simp add: word_gt_0_unat)
  note m' = meta_rect_at [OF assms(1,2) w, of x y, folded assms(6)]
  have u: "unat (x + of_nat i) = unat x + i" if "unat x + i < 65536" for x :: u16 and i
    using unat_plus_small [of x "of_nat i"] that by (simp add: unat_of_nat)
  have "m' (dest + (j * unat w + i)) = MAP_getMetaTile mp (x + of_nat i) (y + of_nat j) m" if "i < unat w" "j < unat h" for i j
  proof -
    have "j * unat w + i < Suc j * unat w" using that(1) by simp
    also have "\<dots> \<le> unat h * unat w" using that(2) by (intro mult_le_mono1) simp
    finally have "m' (dest + (j * unat w + i)) = meta_at mp m (unat x + i) (unat y + j)"
      using that(1) unfolding m' over1_def by simp
    then show ?thesis using that assms(4,5) by (simp add: MAP_getMetaTile_at [OF assms(1)] u)
  qed
  then show ?thesis by (simp add: m' over1_def)
qed

text \<open>An example: two blocks side by side, all indexes in 8 bits.\<close>

lemma arr_I8: "unat (arr I8 p k m) < 256"
proof -
  have f: "(0xFF :: u16) = mask 8" by (simp add: mask_eq_exp_minus_1)
  have "unat (m a AND 0xFF) < 256" for a unfolding f unat_and_mask by simp
  moreover have "unat (m (p + k div 2)) div 256 < 256" using unat_u16_lt [of "m (p + k div 2)"] by (intro less_mult_imp_div_less) simp
  ultimately show ?thesis by (simp add: arr_def unat_drop_bit)
qed

lemma reads_I8:
  assumes "m_metaTileCB mp = (I8, I8)" "m_blockRowOffsets mp \<le> 1000" "m_blockIndexes mp \<le> 1000" "m_blocks mp \<le> 1000" "m_metaTiles mp \<le> 1000"
  shows "reads mp m \<subseteq> {..< 70000}"
proof -
  have b: "bi_of mp = I8" "mti_of mp = I8" using assms(1) by (simp_all add: bi_of_def mti_of_def)
  have n: "hn mp \<le> 65536" "wn mp \<le> 65536" "0 < hn mp" "0 < wn mp"
    using unat_u16_lt [of "m_hMask mp"] unat_u16_lt [of "m_wMask mp"] by (simp_all add: hn_def wn_def)
  have 1: "row_pos mp y < 70000" for y
    using assms(2) n mod_less_divisor [OF n(3), of "y div 8"] unfolding row_pos_def by linarith
  have 2: "grid_pos mp m x y div 2 < 65536" for x y
    using n mod_less_divisor [OF n(4), of "x div 8"] unat_u16_lt [of "m (row_pos mp y)"] unfolding grid_pos_def by linarith
  have 3: "block_pos mp m x y < 64 * 256" for x y
    using arr_I8 [of "m_blockIndexes mp" "grid_pos mp m x y" m] mod_less_divisor [of 8 x] mod_less_divisor [of 8 y]
    unfolding block_pos_def b by linarith
  have 4: "unat (meta_at mp m x y) < 256" for x y unfolding meta_at_def b by (rule arr_I8)
  have "arr_word I8 (m_blockIndexes mp) (grid_pos mp m x y) < 70000" "arr_word I8 (m_blocks mp) (block_pos mp m x y) < 70000"
    "m_metaTiles mp + 4 * unat (meta_at mp m x y) + 4 \<le> 70000" for x y
    using 2 [of x y] 3 [of x y] 4 [of x y] assms(3-5) by (simp_all add: arr_word_def)
  moreover from this(3) have "{m_metaTiles mp + 4 * unat (meta_at mp m x y) ..< m_metaTiles mp + 4 * unat (meta_at mp m x y) + 4} \<subseteq> {..< 70000}" for x y
    by (meson atLeastLessThan_iff lessThan_iff order.strict_trans2 subsetI)
  ultimately show ?thesis using 1 unfolding reads_def b by (intro UN_least Un_least) simp_all
qed

definition map0 :: Map where
  "map0 = \<lparr>m_adr = 500, m_w = 2, m_h = 1, m_metaTiles = 100, m_blocks = 200, m_blockIndexes = 300, m_blockRowOffsets = 310,
     m_plane = BG_A, m_baseTile = 16, m_posX = 0, m_posY = 0, m_wMask = 1, m_hMask = 0, m_planeWidth = 64, m_planeHeight = 32,
     m_planeWidthMaskAdj = 31, m_planeHeightMaskAdj = 15, m_planeWidthSftAdj = 8, m_firstUpdate = True, m_lastXT = 0, m_lastYT = 0,
     m_columnCB = (I8, I8, True), m_rowCB = (I8, I8, True), m_patchCB = None, m_metaTileCB = (I8, I8), m_rectCB = (I8, I8)\<rparr>"

definition map0_ram :: ram where
  "map0_ram = (\<lambda>_. 0)(100 := 1, 101 := 2, 102 := 3, 103 := 4, 104 := 5, 105 := 6, 106 := 7, 107 := 8, 203 := 1, 232 := 0x0100, 300 := 1)"

lemma map0_ok: "map_ok map0 m" "m_patchCB map0 = None" "reads map0 m \<subseteq> {..< 70000}" if "m 310 = 0"
proof -
  have "(1 :: u16) = mask 1" "(0 :: u16) = mask 0" by (simp_all add: mask_eq_exp_minus_1)
  then have "pow2_mask 1" "pow2_mask 0" unfolding pow2_mask_def by blast+
  then show "map_ok map0 m" using that by (simp add: map_ok_def map0_def hn_def wn_def mti_of_def bi_of_def)
  show "m_patchCB map0 = None" by (simp add: map0_def)
  show "reads map0 m \<subseteq> {..< 70000}" by (rule reads_I8) (simp_all add: map0_def)
qed

theorem MAP_getTilemapRect_ok_witness:
  "MAP_getTilemapRect map0 7 0 2 1 False 80000 map0_ram 80000 = 5 + 16
    \<and> MAP_getTilemapRect map0 7 0 2 1 False 80000 map0_ram 80007 = 8 + 16"
proof -
  have ok: "map_ok map0 map0_ram" "reads map0 map0_ram \<subseteq> {..< 70000}" by (rule map0_ok; simp add: map0_ram_def)+
  have "{80000 ..< 80000 + 2 * unat (2 :: u16) * (2 * unat (1 :: u16))} \<inter> reads map0 map0_ram = {}" using ok(2) by fastforce
  from MAP_getTilemapRect_ok [OF ok(1) this _ _ refl, of 7 0 False]
  have "MAP_getTilemapRect map0 7 0 2 1 False 80000 map0_ram (80000 + (j * 4 + i))
      = MAP_getTile map0 (14 + of_nat i) (of_nat j) map0_ram + m_baseTile map0" if "i < 4" "j < 2" for i j
    using that by simp
  from this [of 0 0] this [of 3 1] show ?thesis
    by (simp add: MAP_getTile_def MAP_getMetaTile_def getMetaTile_MTI8_BI8_def get_meta_def arr_def map0_def map0_ram_def)
qed

theorem MAP_getMetaTilemapRect_ok_witness:
  "MAP_getMetaTilemapRect map0 7 0 2 1 80000 map0_ram 80000 = 1 \<and> MAP_getMetaTilemapRect map0 7 0 2 1 80000 map0_ram 80001 = 1"
proof -
  have ok: "map_ok map0 map0_ram" "reads map0 map0_ram \<subseteq> {..< 70000}" by (rule map0_ok; simp add: map0_ram_def)+
  have "{80000 ..< 80000 + unat (1 :: u16) * unat (2 :: u16)} \<inter> reads map0 map0_ram = {}" using ok(2) by fastforce
  from MAP_getMetaTilemapRect_ok [OF ok(1) this _ _ _ refl, of 7 0]
  have "MAP_getMetaTilemapRect map0 7 0 2 1 80000 map0_ram (80000 + i) = MAP_getMetaTile map0 (7 + of_nat i) 0 map0_ram" if "i < 2" for i
    using that by simp
  from this [of 0] this [of 1] show ?thesis
    by (simp add: MAP_getMetaTile_def getMetaTile_MTI8_BI8_def get_meta_def arr_def map0_def map0_ram_def)
qed

section \<open>Creation\<close>

text \<open>
  What a map is after its creation, whatever the plane size it is then given: masks for the next
  power of two, decoders that agree, and the size of the plane in the forms the code uses.
\<close>

definition map_shape :: "Map \<Rightarrow> bool" where
  "map_shape mp \<longleftrightarrow> pow2_mask (m_wMask mp) \<and> pow2_mask (m_hMask mp) \<and>
     m_columnCB mp = (mti_of mp, bi_of mp, m_baseTile mp \<noteq> 0) \<and> m_rowCB mp = (mti_of mp, bi_of mp, m_baseTile mp \<noteq> 0) \<and>
     m_rectCB mp = m_metaTileCB mp \<and>
     unat (m_planeWidth mp) \<in> sizes \<and> unat (m_planeHeight mp) \<in> sizes \<and>
     2 * (unat (m_planeWidthMaskAdj mp) + 1) = unat (m_planeWidth mp) \<and>
     2 * (unat (m_planeHeightMaskAdj mp) + 1) = unat (m_planeHeight mp) \<and>
     2 ^ unat (m_planeWidthSftAdj mp) = 4 * unat (m_planeWidth mp)"

lemma map_ok_shape:
  "map_shape mp \<Longrightarrow> \<forall>y < hn mp. unat (m (m_blockRowOffsets mp + y)) + wn mp \<le> 65536 \<Longrightarrow> map_ok mp m"
  by (simp add: map_ok_def map_shape_def)

lemma wrap_mask:
  fixes w :: u16
  defines "v \<equiv> ucast (getNextPow2 (ucast w) - 1) :: u16"
  shows "pow2_mask v" "unat w \<le> unat v + 1" "0 < unat w \<Longrightarrow> unat v + 1 < 2 * unat w"
proof -
  have u: "unat (ucast w :: u32) = unat w" using unat_u16_lt [of w] by (simp add: unat_ucast_mod)
  have "pow2_mask v \<and> unat w \<le> unat v + 1 \<and> (0 < unat w \<longrightarrow> unat v + 1 < 2 * unat w)"
  proof (cases "unat w = 0")
    case True
    then have "getNextPow2 (ucast w) = 0" using getNextPow2_ok [of "ucast w"] by (simp add: u)
    moreover have "(ucast (- 1 :: u32) :: u16) = mask 16" by (rule bit_word_eqI) (simp add: bit_unsigned_iff bit_mask_iff)
    ultimately have "v = mask 16" by (simp add: v_def)
    then show ?thesis using True by (auto simp: pow2_mask_def)
  next
    case False
    then obtain k where k: "unat (getNextPow2 (ucast w)) = 2 ^ k" "unat w \<le> 2 ^ k" "2 ^ k < 2 * unat w"
      using getNextPow2_ok [of "ucast w"] unat_u16_lt [of w] by (auto simp: u)
    then have "(2 :: nat) ^ k < 2 ^ 17" using unat_u16_lt [of w] by simp
    then have k16: "k \<le> 16" by (simp only: power_strict_increasing_iff)
    then have le: "(2 :: nat) ^ k \<le> 2 ^ 16" by (intro power_increasing) simp_all
    have "unat (getNextPow2 (ucast w) - 1) = 2 ^ k - 1"
      using k(1) by (subst unat_minus_le) (simp_all add: word_le_nat_alt)
    then have uv: "unat v = 2 ^ k - 1" using le by (simp add: v_def unat_ucast_mod)
    have "unat (mask k :: u16) + 1 = 2 ^ k"
    proof -
      have "pow2_mask (mask k)" by (auto simp: pow2_mask_def)
      have "(mask k :: u16) = of_nat (2 ^ k - 1)" by (simp add: mask_eq_exp_minus_1 of_nat_diff)
      then have "unat (mask k :: u16) = (2 ^ k - 1) mod 65536" by (simp only: unat_of_nat) simp
      then show ?thesis using le by simp
    qed
    then have "unat v = unat (mask k :: u16)" using uv by simp
    then have "v = mask k" by (rule unsigned_word_eqI)
    moreover have "unat v + 1 = 2 ^ k" using uv by simp
    ultimately show ?thesis using k(2,3) by (auto simp: pow2_mask_def)
  qed
  then show "pow2_mask v" "unat w \<le> unat v + 1" "0 < unat w \<Longrightarrow> unat v + 1 < 2 * unat w" by simp_all
qed

lemma plane_size_ok:
  assumes "geo_ok s"
  shows "unat (planeWidth s) \<in> sizes" "unat (planeHeight s) \<in> sizes"
    "2 * (unat (drop_bit 1 (planeWidth s) - 1) + 1) = unat (planeWidth s)"
    "2 * (unat (drop_bit 1 (planeHeight s) - 1) + 1) = unat (planeHeight s)"
    "2 ^ unat (planeWidthSft s + 2) = 4 * unat (planeWidth s)"
  using assms by (auto simp: geo_ok_def plane_ok_def sizes_def drop_bit_eq_div split: if_splits)

text \<open>
  C22 A map that \<open>MAP_create\<close> returns is well formed: its masks belong to the least power of two that
  holds its width and height, all four function pointers name the routine for the widths of the
  indexes that was chosen when the map was created and for the base tile, and the size of the plane is right in all its forms. Patching
  and any size given to \<open>MAP_overridePlaneSize\<close>, valid or not, keep it so.
\<close>

theorem MAP_create_shape:
  assumes "geo_ok s" "MAP_create up mp0 mapDef plane baseTile s = Some (Some mp, s')"
  shows "map_shape mp \<and> map_shape (MAP_overridePlaneSize mp w h) \<and> map_shape (MAP_setDataPatchCallback mp CB)
    \<and> unat (m_w mp) \<le> wn mp \<and> unat (m_h mp) \<le> hn mp
    \<and> (0 < unat (m_w mp) \<longrightarrow> wn mp < 2 * unat (m_w mp)) \<and> (0 < unat (m_h mp) \<longrightarrow> hn mp < 2 * unat (m_h mp))
    \<and> m_plane mp = plane \<and> m_planeWidth mp = planeWidth s \<and> m_planeHeight mp = planeHeight s
    \<and> m_firstUpdate mp \<and> m_patchCB mp = None"
proof -
  obtain result s1 where al: "allocateMap mapDef s = Some (result, s1)" "result \<noteq> NULL"
    using assms(2) by (auto simp: MAP_create_def split: Option.bind_splits if_splits)
  then obtain q n s0 where a: "MEM_alloc n s = Some (q, s0)" "\<exists>m. s1 = s0\<lparr>ram := m\<rparr>"
    by (auto simp: allocateMap_def Let_def split: Option.bind_splits prod.splits if_splits)
  then have "heap_frame s s1" using heap_frame_trans [OF MEM_alloc_heap_frame [OF a(1)] heap_frame_upd(3)] by auto
  then obtain m0 f b where s1: "s1 = s\<lparr>ram := m0, free := f, needPack := b\<rparr>" unfolding heap_frame_def by blast
  then have geo: "geo_ok s1" using assms(1) by (simp add: geo_ok_def coherent_def chip_of_def plane_ok_def screen_ok_def)
  have pl: "planeWidth s1 = planeWidth s" "planeHeight s1 = planeHeight s" using s1 by simp_all
  let ?c = "mapdef_compression mapDef (ram s1)"
  obtain metaTiles m1 where p1: "map_part up (?c AND 0xF) (mapdef_metaTiles mapDef (ram s1)) (load_ptr (result + 2) (ram s1)) (ram s1) = (metaTiles, m1)"
    by fastforce
  obtain blocks m2 where p2: "map_part up (drop_bit 4 ?c AND 0xF) (mapdef_blocks mapDef m1) (load_ptr (result + 4) m1) m1 = (blocks, m2)"
    by fastforce
  obtain bis m3 where p3: "map_part up (drop_bit 8 ?c AND 0xF) (mapdef_blockIndexes mapDef m2) (load_ptr (result + 6) m2) m2 = (bis, m3)"
    by fastforce
  note c = assms(2) [unfolded MAP_create_def al(1) Option.bind.bind_lunit prod.case if_not_P [OF al(2)] Let_def p1 p2 p3, simplified]
  note mp = conjunct1 [OF c, symmetric]
  have mask: "m_wMask mp = ucast (getNextPow2 (ucast (m_w mp)) - 1)" "m_hMask mp = ucast (getNextPow2 (ucast (m_h mp)) - 1)"
    by (simp_all add: mp)
  have cbs: "m_columnCB mp = (mti_of mp, bi_of mp, m_baseTile mp \<noteq> 0)" "m_rowCB mp = (mti_of mp, bi_of mp, m_baseTile mp \<noteq> 0)"
      "m_rectCB mp = m_metaTileCB mp"
    by (simp_all add: mp mti_of_def bi_of_def)
  have sh: "map_shape mp"
    using plane_size_ok [OF geo] wrap_mask(1) cbs unfolding map_shape_def mask by (simp add: mp)
  have "map_shape (MAP_overridePlaneSize mp w h)"
    using sh unfolding map_shape_def MAP_overridePlaneSize_def Let_def by (auto simp: mti_of_def bi_of_def sizes_def)
  moreover have "map_shape (MAP_setDataPatchCallback mp CB)"
    using sh unfolding map_shape_def MAP_setDataPatchCallback_def by (simp add: mti_of_def bi_of_def)
  moreover have "unat (m_w mp) \<le> wn mp" "unat (m_h mp) \<le> hn mp" "0 < unat (m_w mp) \<longrightarrow> wn mp < 2 * unat (m_w mp)"
    "0 < unat (m_h mp) \<longrightarrow> hn mp < 2 * unat (m_h mp)"
    using wrap_mask(2,3) [of "m_w mp"] wrap_mask(2,3) [of "m_h mp"] unfolding wn_def hn_def mask by simp_all
  moreover have "m_plane mp = plane \<and> m_planeWidth mp = planeWidth s \<and> m_planeHeight mp = planeHeight s \<and> m_firstUpdate mp \<and> m_patchCB mp = None"
    by (simp add: mp pl)
  ultimately show ?thesis using sh by simp
qed

definition create0 :: dma_st where
  "create0 = draw0\<lparr>ram := (\<lambda>_. 0)(1 := 1000, 2000 := 3, 2001 := 1, 2004 := 2, 2005 := 300), free := 1, heap := 1, heapEnd := 501,
     needPack := False\<rparr>"

lemma create0_geo: "geo_ok create0"
proof -
  have "chip_of create0 = chip0" by (simp add: create0_def draw0_def dma0_def chip_of_def)
  then show ?thesis unfolding geo_ok_def coherent_def screen_ok_def plane_ok_def
    by (simp add: create0_def draw0_def dma0_def chip0_def)
qed

theorem MAP_create_shape_witness:
  "\<exists>mp s'. MAP_create \<lparr>aplib_unpack = (\<lambda>_ _ m. (0, m)), lz4w_unpack = (\<lambda>_ _ m. (0, m))\<rparr> map0 2000 BG_B 5 create0 = Some (Some mp, s')
    \<and> map_shape mp \<and> m_w mp = 3 \<and> wn mp = 4 \<and> m_columnCB mp = (I8, I16, True)"
proof -
  let ?c = "MAP_create \<lparr>aplib_unpack = (\<lambda>_ _ m. (0, m)), lz4w_unpack = (\<lambda>_ _ m. (0, m))\<rparr> map0 2000 BG_B 5 create0"
  have "\<exists>mp s'. ?c = Some (Some mp, s') \<and> m_w mp = 3 \<and> m_wMask mp = 3 \<and> m_columnCB mp = (I8, I16, True)"
    by (simp add: MAP_create_def allocateMap_def map_sizes_def MEM_alloc_def MEM_take_def adjsize_def USED_def Let_def create0_def draw0_def
        dma0_def sizeof_Map_def COMPRESSION_NONE_def mapdef_compression_def map_part_def mapdef_w_def mapdef_h_def mapdef_numMetaTile_def
        mapdef_numBlock_def getNextPow2_def cfg map0_def)
  then obtain mp s' where m: "?c = Some (Some mp, s')" "m_w mp = 3" "m_wMask mp = 3" "m_columnCB mp = (I8, I16, True)" by blast
  then have "wn mp = 4" by (simp add: wn_def)
  then show ?thesis using m MAP_create_shape [OF create0_geo m(1), of 0 0 None] by blast
qed

end
