(* ===== verification/Background.thy ===== *)
theory Background
  imports TileDraw Palette Strings
begin

text \<open>
  Backgrounds and text, \<open>src/vdp_bg.c\<close>: the scroll positions of the planes, set at once or deferred to
  the vertical blank; clearing planes; drawing and clearing text; drawing bitmaps and images.
  Strings are in a byte memory of their own, as in \<open>Strings\<close>; the local array \<open>data\<close> of a function is
  on the stack at the address \<open>stk\<close>.
\<close>

section \<open>State\<close>

record bg_st = dma_st +
  text_plan :: VDPPlane
  text_basetile :: u16
  curTileInd :: u16
  hscrolls :: "nat \<Rightarrow> u16"
  vscrolls :: "nat \<Rightarrow> u16"
  hscroll_update :: u8
  vscroll_update :: u8

definition PROCESS_VDP_SCROLL_TASK :: u16 where [cfg]: "PROCESS_VDP_SCROLL_TASK = 8"

section \<open>Scrolling\<close>

definition VDP_setHorizontalScroll :: "VDPPlane \<Rightarrow> u16 \<Rightarrow> 'a vdp_st_scheme \<Rightarrow> 'a vdp_st_scheme" where
  "VDP_setHorizontalScroll plane value s =
    (let addr = hscrl_addr s;
         addr = (if plane = BG_B then addr + 2 else addr)
     in data_w value (ctrl_l (VDP_WRITE_VRAM_ADDR (ucast addr)) s))"

definition VDP_setHorizontalScrollVSync :: "VDPPlane \<Rightarrow> u16 \<Rightarrow> 'a bg_st_scheme \<Rightarrow> 'a bg_st_scheme" where
  "VDP_setHorizontalScrollVSync plane value s =
    (let s = (if plane = BG_B then s\<lparr>hscrolls := (hscrolls s)(1 := value), hscroll_update := hscroll_update s OR push_bit 1 1\<rparr>
              else s\<lparr>hscrolls := (hscrolls s)(0 := value), hscroll_update := hscroll_update s OR push_bit 0 1\<rparr>)
     in s\<lparr>VBlankProcess := VBlankProcess s OR PROCESS_VDP_SCROLL_TASK\<rparr>)"

definition VDP_setHorizontalScrollTile ::
  "VDPPlane \<Rightarrow> u16 \<Rightarrow> ptr \<Rightarrow> u16 \<Rightarrow> TransferMethod \<Rightarrow> 'a dma_st_scheme \<Rightarrow> 'a dma_st_scheme" where
  "VDP_setHorizontalScrollTile plane tile values len tm s =
    (let addr = hscrl_addr s + (tile AND 0x1F) * (4 * 8);
         addr = (if plane = BG_B then addr + 2 else addr)
     in snd (DMA_transfer tm DMA_VRAM (byte_addr values) addr len (4 * 8) s))"

definition VDP_setHorizontalScrollLine ::
  "VDPPlane \<Rightarrow> u16 \<Rightarrow> ptr \<Rightarrow> u16 \<Rightarrow> TransferMethod \<Rightarrow> 'a dma_st_scheme \<Rightarrow> 'a dma_st_scheme" where
  "VDP_setHorizontalScrollLine plane line values len tm s =
    (let addr = hscrl_addr s + (line AND 0xFF) * 4;
         addr = (if plane = BG_B then addr + 2 else addr)
     in snd (DMA_transfer tm DMA_VRAM (byte_addr values) addr len 4 s))"

definition VDP_setVerticalScroll :: "VDPPlane \<Rightarrow> u16 \<Rightarrow> 'a vdp_st_scheme \<Rightarrow> 'a vdp_st_scheme" where
  "VDP_setVerticalScroll plane value s =
    (let addr = (0 :: u16);
         addr = (if plane = BG_B then addr + 2 else addr)
     in data_w value (ctrl_l (VDP_WRITE_VSRAM_ADDR (ucast addr)) s))"

definition VDP_setVerticalScrollVSync :: "VDPPlane \<Rightarrow> u16 \<Rightarrow> 'a bg_st_scheme \<Rightarrow> 'a bg_st_scheme" where
  "VDP_setVerticalScrollVSync plane value s =
    (let s = (if plane = BG_B then s\<lparr>vscrolls := (vscrolls s)(1 := value), vscroll_update := vscroll_update s OR push_bit 1 1\<rparr>
              else s\<lparr>vscrolls := (vscrolls s)(0 := value), vscroll_update := vscroll_update s OR push_bit 0 1\<rparr>)
     in s\<lparr>VBlankProcess := VBlankProcess s OR PROCESS_VDP_SCROLL_TASK\<rparr>)"

definition VDP_setVerticalScrollTile ::
  "VDPPlane \<Rightarrow> u16 \<Rightarrow> ptr \<Rightarrow> u16 \<Rightarrow> TransferMethod \<Rightarrow> 'a dma_st_scheme \<Rightarrow> 'a dma_st_scheme" where
  "VDP_setVerticalScrollTile plane tile values len tm s =
    (let addr = (tile AND 0x1F) * 4;
         addr = (if plane = BG_B then addr + 2 else addr)
     in snd (DMA_transfer tm DMA_VSRAM (byte_addr values) addr len 4 s))"

definition VDP_doVBlankScrollProcess :: "'a bg_st_scheme \<Rightarrow> bool \<times> 'a bg_st_scheme" where
  "VDP_doVBlankScrollProcess s =
    (let addr = hscrl_addr s;
         s = (if hscroll_update s AND 1 \<noteq> 0 then data_w (hscrolls s 0) (ctrl_l (VDP_WRITE_VRAM_ADDR (ucast addr)) s) else s);
         addr = addr + 2;
         s = (if hscroll_update s AND 2 \<noteq> 0 then data_w (hscrolls s 1) (ctrl_l (VDP_WRITE_VRAM_ADDR (ucast addr)) s) else s);
         addr = (0 :: u16);
         s = (if vscroll_update s AND 1 \<noteq> 0 then data_w (vscrolls s 0) (ctrl_l (VDP_WRITE_VSRAM_ADDR (ucast addr)) s) else s);
         addr = addr + 2;
         s = (if vscroll_update s AND 2 \<noteq> 0 then data_w (vscrolls s 1) (ctrl_l (VDP_WRITE_VSRAM_ADDR (ucast addr)) s) else s)
     in (False, s\<lparr>hscroll_update := 0, vscroll_update := 0\<rparr>))"

section \<open>Text\<close>

definition VDP_clearPlane :: "VDPPlane \<Rightarrow> 'a vdp_st_scheme \<Rightarrow> 'a vdp_st_scheme" where
  "VDP_clearPlane plane s =
    (case plane of
       BG_A \<Rightarrow> VDP_clearTileMap (bga_addr s) 0 (push_bit (unat (planeWidthSft s + planeHeightSft s)) 1) s
     | BG_B \<Rightarrow> VDP_clearTileMap (bgb_addr s) 0 (push_bit (unat (planeWidthSft s + planeHeightSft s)) 1) s
     | WINDOW \<Rightarrow> VDP_clearTileMap (window_addr s) 0 (push_bit (unat (windowWidthSft s + 5)) 1) s)"

definition VDP_getTextPlane :: "'a bg_st_scheme \<Rightarrow> VDPPlane" where
  "VDP_getTextPlane s = text_plan s"

definition VDP_getTextPalette :: "'a bg_st_scheme \<Rightarrow> u16" where
  "VDP_getTextPalette s = drop_bit 13 (text_basetile s) AND 3"

definition VDP_getTextPriority :: "'a bg_st_scheme \<Rightarrow> u16" where
  "VDP_getTextPriority s = drop_bit 15 (text_basetile s) AND 1"

definition VDP_setTextPlane :: "VDPPlane \<Rightarrow> 'a bg_st_scheme \<Rightarrow> 'a bg_st_scheme" where
  "VDP_setTextPlane plane s = s\<lparr>text_plan := plane\<rparr>"

definition VDP_setTextPalette :: "u16 \<Rightarrow> 'a bg_st_scheme \<Rightarrow> 'a bg_st_scheme" where
  "VDP_setTextPalette pal s =
    (let t = text_basetile s AND NOT (push_bit 13 3) in s\<lparr>text_basetile := t OR push_bit 13 (pal AND 3)\<rparr>)"

definition VDP_setTextPriority :: "u16 \<Rightarrow> 'a bg_st_scheme \<Rightarrow> 'a bg_st_scheme" where
  "VDP_setTextPriority prio s =
    (let t = text_basetile s AND NOT (push_bit 15 1) in s\<lparr>text_basetile := t OR push_bit 15 (prio AND 1)\<rparr>)"

text \<open>\<open>while (i--) *d++ = TILE_FONT_INDEX + (*s++ - 32);\<close>\<close>

fun text_data :: "u16 \<Rightarrow> nat \<Rightarrow> ptr \<Rightarrow> nat \<Rightarrow> bmem \<Rightarrow> ram \<Rightarrow> ram" where
  "text_data font 0 d src b m = m"
| "text_data font (Suc i) d src b m = text_data font i (d + 1) (src + 1) b (m(d := font + (ucast (b src) - 32)))"

definition VDP_drawTextEx ::
  "bool \<Rightarrow> ptr \<Rightarrow> VDPPlane \<Rightarrow> nat \<Rightarrow> bmem \<Rightarrow> u16 \<Rightarrow> u16 \<Rightarrow> u16 \<Rightarrow> TransferMethod \<Rightarrow> 'a dma_st_scheme \<Rightarrow> 'a dma_st_scheme option" where
  "VDP_drawTextEx debug stk plane str b basetile x y tm s =
    (let pw = pwidth plane s; ph = pheight plane s in
     if x \<ge> pw \<or> y \<ge> ph then Some s
     else do {
       len \<leftarrow> SGDK_strlen str b;
       let len = (if len > pw - x then pw - x else len);
       let s = s\<lparr>ram := text_data (TILE_FONT_INDEX s) (unat len) stk str b (ram s)\<rparr>;
       Some (VDP_setTileMapDataRowEx debug plane stk basetile y x len tm s) })"

text \<open>\<open>memsetU16\<close>: \<open>n\<close> times the same word.\<close>

fun set_words :: "u16 \<Rightarrow> nat \<Rightarrow> ptr \<Rightarrow> ram \<Rightarrow> ram" where
  "set_words v 0 d m = m"
| "set_words v (Suc n) d m = set_words v n (d + 1) (m(d := v))"

definition VDP_clearTextEx ::
  "bool \<Rightarrow> ptr \<Rightarrow> VDPPlane \<Rightarrow> u16 \<Rightarrow> u16 \<Rightarrow> u16 \<Rightarrow> u16 \<Rightarrow> TransferMethod \<Rightarrow> 'a dma_st_scheme \<Rightarrow> 'a dma_st_scheme" where
  "VDP_clearTextEx debug stk plane basetile x y w tm s =
    (let pw = pwidth plane s; ph = pheight plane s in
     if x \<ge> pw \<or> y \<ge> ph then s
     else
       (let len = (if w > pw - x then pw - x else w);
            s = s\<lparr>ram := set_words (TILE_FONT_INDEX s) (unat len) stk (ram s)\<rparr>
        in VDP_setTileMapDataRowEx debug plane stk basetile y x len tm s))"

fun text_rows :: "nat \<Rightarrow> (u16 \<Rightarrow> 's \<Rightarrow> 's) \<Rightarrow> u16 \<Rightarrow> 's \<Rightarrow> 's" where
  "text_rows 0 row ya s = s"
| "text_rows (Suc i) row ya s = text_rows i row (ya + 1) (row ya s)"

definition VDP_clearTextAreaEx ::
  "bool \<Rightarrow> ptr \<Rightarrow> VDPPlane \<Rightarrow> u16 \<Rightarrow> u16 \<Rightarrow> u16 \<Rightarrow> u16 \<Rightarrow> u16 \<Rightarrow> TransferMethod \<Rightarrow> 'a dma_st_scheme \<Rightarrow> 'a dma_st_scheme" where
  "VDP_clearTextAreaEx debug stk plane basetile x y w h tm s =
    (let pw = pwidth plane s; ph = pheight plane s in
     if x \<ge> pw \<or> y \<ge> ph then s
     else
       (let wa = (if w > pw - x then pw - x else w);
            ha = (if h > ph - y then ph - y else h);
            s = s\<lparr>ram := set_words (TILE_FONT_INDEX s) (unat wa) stk (ram s)\<rparr>
        in text_rows (unat ha) (\<lambda>ya s. VDP_setTileMapDataRowEx debug plane stk basetile ya x wa tm s) y s))"

definition VDP_drawTextBG ::
  "bool \<Rightarrow> ptr \<Rightarrow> VDPPlane \<Rightarrow> nat \<Rightarrow> bmem \<Rightarrow> u16 \<Rightarrow> u16 \<Rightarrow> 'a bg_st_scheme \<Rightarrow> 'a bg_st_scheme option" where
  "VDP_drawTextBG debug stk plane str b x y s = VDP_drawTextEx debug stk plane str b (text_basetile s) x y CPU s"

definition VDP_clearTextBG :: "VDPPlane \<Rightarrow> u16 \<Rightarrow> u16 \<Rightarrow> u16 \<Rightarrow> 'a vdp_st_scheme \<Rightarrow> 'a vdp_st_scheme" where
  "VDP_clearTextBG plane x y w s =
    (let pw = pwidth plane s; ph = pheight plane s in
     if x \<ge> pw \<or> y \<ge> ph then s
     else (let wa = (if w > pw - x then pw - x else w) in VDP_fillTileMapRect plane (TILE_FONT_INDEX s) x y wa 1 s))"

definition VDP_clearTextAreaBG :: "VDPPlane \<Rightarrow> u16 \<Rightarrow> u16 \<Rightarrow> u16 \<Rightarrow> u16 \<Rightarrow> 'a vdp_st_scheme \<Rightarrow> 'a vdp_st_scheme" where
  "VDP_clearTextAreaBG plane x y w h s =
    (let pw = pwidth plane s; ph = pheight plane s in
     if x \<ge> pw \<or> y \<ge> ph then s
     else
       (let wa = (if w > pw - x then pw - x else w);
            ha = (if h > ph - y then ph - y else h)
        in VDP_fillTileMapRect plane (TILE_FONT_INDEX s) x y wa ha s))"

definition VDP_clearTextLineBG :: "VDPPlane \<Rightarrow> u16 \<Rightarrow> 'a vdp_st_scheme \<Rightarrow> 'a vdp_st_scheme" where
  "VDP_clearTextLineBG plane y s = VDP_fillTileMapRect plane (TILE_FONT_INDEX s) 0 y (pwidth plane s) 1 s"

definition VDP_drawText :: "bool \<Rightarrow> ptr \<Rightarrow> nat \<Rightarrow> bmem \<Rightarrow> u16 \<Rightarrow> u16 \<Rightarrow> 'a bg_st_scheme \<Rightarrow> 'a bg_st_scheme option" where
  "VDP_drawText debug stk str b x y s = VDP_drawTextBG debug stk (text_plan s) str b x y s"

text \<open>\<open>while ((*dst++ = *src++));\<close> and \<open>--dst\<close>: the address of the terminator and the memory.\<close>

partial_function (option) copy_text :: "nat \<Rightarrow> nat \<Rightarrow> bmem \<Rightarrow> (nat \<times> bmem) option" where
  "copy_text dst src b =
    (let b' = b(dst := b src) in if b src \<noteq> 0 then copy_text (dst + 1) (src + 1) b' else Some (dst, b'))"

fun fill_spaces :: "nat \<Rightarrow> nat \<Rightarrow> bmem \<Rightarrow> nat \<times> bmem" where
  "fill_spaces 0 dst b = (dst, b)"
| "fill_spaces (Suc n) dst b = fill_spaces n (dst + 1) (b(dst := 32))"

text \<open>The local array \<open>fixedStr\<close> of \<open>len + 1\<close> bytes is at the address \<open>fixedStr\<close>; the byte memory is returned, too.\<close>

definition VDP_drawTextBGFill ::
  "bool \<Rightarrow> ptr \<Rightarrow> nat \<Rightarrow> VDPPlane \<Rightarrow> nat \<Rightarrow> bmem \<Rightarrow> u16 \<Rightarrow> u16 \<Rightarrow> u16 \<Rightarrow> 'a bg_st_scheme \<Rightarrow> ('a bg_st_scheme \<times> bmem) option" where
  "VDP_drawTextBGFill debug stk fixedStr plane str b x y len s = do {
     (dst, b) \<leftarrow> copy_text fixedStr str b;
     let strSize = (of_nat (dst - fixedStr) :: u16);
     let (dst, b) = (if strSize < len then fill_spaces (unat (len - strSize)) dst b else (dst, b));
     let b = b(dst := 0);
     s \<leftarrow> VDP_drawTextBG debug stk plane fixedStr b x y s;
     Some (s, b) }"

definition VDP_drawTextFill ::
  "bool \<Rightarrow> ptr \<Rightarrow> nat \<Rightarrow> nat \<Rightarrow> bmem \<Rightarrow> u16 \<Rightarrow> u16 \<Rightarrow> u16 \<Rightarrow> 'a bg_st_scheme \<Rightarrow> ('a bg_st_scheme \<times> bmem) option" where
  "VDP_drawTextFill debug stk fixedStr str b x y len s = VDP_drawTextBGFill debug stk fixedStr (text_plan s) str b x y len s"

definition VDP_clearText :: "u16 \<Rightarrow> u16 \<Rightarrow> u16 \<Rightarrow> 'a bg_st_scheme \<Rightarrow> 'a bg_st_scheme" where
  "VDP_clearText x y w s = VDP_clearTextBG (text_plan s) x y w s"

definition VDP_clearTextArea :: "u16 \<Rightarrow> u16 \<Rightarrow> u16 \<Rightarrow> u16 \<Rightarrow> 'a bg_st_scheme \<Rightarrow> 'a bg_st_scheme" where
  "VDP_clearTextArea x y w h s = VDP_clearTextAreaBG (text_plan s) x y w h s"

definition VDP_clearTextLine :: "u16 \<Rightarrow> 'a bg_st_scheme \<Rightarrow> 'a bg_st_scheme" where
  "VDP_clearTextLine y s = VDP_clearTextLineBG (text_plan s) y s"

section \<open>Bitmaps and images\<close>

text \<open>
  The structure \<open>Palette\<close> at a byte address. \<open>VDP_loadBMPTileData\<close> is written in assembly and an
  argument, as in \<open>Tiles\<close>.
\<close>

definition palette_at :: "u32 \<Rightarrow> ram \<Rightarrow> Palette" where
  "palette_at a m = \<lparr>pal_length = m (unat a div 2), pal_data = load_ptr (unat a div 2 + 1) m\<rparr>"

definition TILE_USER_INDEX :: u16 where [cfg]: "TILE_USER_INDEX = 16"

type_synonym 's load_bmp = "ptr \<Rightarrow> u16 \<Rightarrow> u16 \<Rightarrow> u16 \<Rightarrow> u16 \<Rightarrow> 's \<Rightarrow> 's"

definition VDP_drawBitmapEx ::
  "bool \<Rightarrow> unpackers \<Rightarrow> 'a bg_st_scheme load_bmp \<Rightarrow> VDPPlane \<Rightarrow> ptr \<Rightarrow> u16 \<Rightarrow> u16 \<Rightarrow> u16 \<Rightarrow> bool \<Rightarrow>
    'a bg_st_scheme \<Rightarrow> (bool \<times> 'a bg_st_scheme) option" where
  "VDP_drawBitmapEx debug up VDP_loadBMPTileData plane bitmap basetile x y loadpal s =
    (let wt = bitmap_w bitmap (ram s) div 8;
         ht = bitmap_h bitmap (ram s) div 8;
         palette = bitmap_palette bitmap (ram s)
     in do {
       (ok, s) \<leftarrow> (if res_compression bitmap (ram s) \<noteq> COMPRESSION_NONE then do {
           (b, s) \<leftarrow> unpackBitmap up bitmap NULL s;
           if b = NULL then Some (False, s)
           else Some (True, MEM_free debug b (VDP_loadBMPTileData (bitmap_image b (ram s)) (basetile AND TILE_INDEX_MASK) wt ht wt s)) }
         else Some (True, VDP_loadBMPTileData (bitmap_image bitmap (ram s)) (basetile AND TILE_INDEX_MASK) wt ht wt s));
       if \<not> ok then Some (False, s)
       else
         (let s = VDP_fillTileMapRectInc plane basetile x y wt ht s;
              s = (if loadpal then PAL_setPaletteColors (drop_bit 9 basetile AND 0x30) (palette_at palette (ram s)) CPU s else s)
          in Some (True, s)) })"

definition VDP_drawBitmap ::
  "bool \<Rightarrow> unpackers \<Rightarrow> 'a bg_st_scheme load_bmp \<Rightarrow> VDPPlane \<Rightarrow> ptr \<Rightarrow> u16 \<Rightarrow> u16 \<Rightarrow>
    'a bg_st_scheme \<Rightarrow> (bool \<times> 'a bg_st_scheme) option" where
  "VDP_drawBitmap debug up VDP_loadBMPTileData plane bitmap x y s =
    (let numTile = (ucast (mulu (ucast (drop_bit 3 (ucast (bitmap_h bitmap (ram s)) + 7 :: u32))) (ucast (drop_bit 3 (ucast (bitmap_w bitmap (ram s)) + 7 :: u32)))) :: u16);
         s = (if unat (curTileInd s) + unat numTile > unat (userTileMaxIndex s) then s\<lparr>curTileInd := TILE_USER_INDEX\<rparr> else s)
     in do {
       (result, s) \<leftarrow> VDP_drawBitmapEx debug up VDP_loadBMPTileData plane bitmap (curTileInd s) x y True s;
       Some (result, s\<lparr>curTileInd := curTileInd s + numTile\<rparr>) })"

definition VDP_drawImageEx ::
  "bool \<Rightarrow> unpackers \<Rightarrow> VDPPlane \<Rightarrow> ptr \<Rightarrow> u16 \<Rightarrow> u16 \<Rightarrow> u16 \<Rightarrow> bool \<Rightarrow> bool \<Rightarrow>
    'a dma_st_scheme \<Rightarrow> (bool \<times> 'a dma_st_scheme) option" where
  "VDP_drawImageEx debug up plane img basetile x y loadpal dma s = do {
     (ok, s) \<leftarrow> VDP_loadTileSet debug up (image_tileset img (ram s)) (basetile AND TILE_INDEX_MASK) (if dma then DMA else CPU) s;
     if \<not> ok then Some (False, s)
     else do {
       let tilemap = image_tilemap img (ram s);
       (ok, s) \<leftarrow> VDP_setTileMapEx debug up plane tilemap basetile x y 0 0 (tilemap_w tilemap (ram s)) (tilemap_h tilemap (ram s)) CPU s;
       if \<not> ok then Some (False, s)
       else
         (let palette = image_palette img (ram s);
              s = (if loadpal then PAL_setPaletteColors (drop_bit 9 basetile AND 0x30) (palette_at palette (ram s)) CPU s else s)
          in Some (True, s)) } }"

definition VDP_drawImage ::
  "bool \<Rightarrow> unpackers \<Rightarrow> VDPPlane \<Rightarrow> ptr \<Rightarrow> u16 \<Rightarrow> u16 \<Rightarrow> 'a bg_st_scheme \<Rightarrow> (bool \<times> 'a bg_st_scheme) option" where
  "VDP_drawImage debug up plane img x y s =
    (let numTile = tileset_numTile (image_tileset img (ram s)) (ram s);
         s = (if unat (curTileInd s) + unat numTile > unat (userTileMaxIndex s) then s\<lparr>curTileInd := TILE_USER_INDEX\<rparr> else s)
     in do {
       (result, s) \<leftarrow> VDP_drawImageEx debug up plane img (curTileInd s) x y True True s;
       Some (result, s\<lparr>curTileInd := curTileInd s + numTile\<rparr>) })"

section \<open>Drawing text\<close>

lemma text_data_at:
  "text_data font n d src b m = (\<lambda>a. if a \<in> {d ..< d + n} then font + (ucast (b (src + (a - d))) - 32) else m a)"
proof (induction n arbitrary: d src m)
  case (Suc n)
  have "src + 1 + (a - (d + 1)) = src + (a - d)" if "d + 1 \<le> a" for a using that by simp
  then show ?case unfolding text_data.simps Suc by (auto simp: fun_eq_iff)
qed simp

text \<open>A row that fits the plane.\<close>

lemma draws_row:
  assumes "geo_ok (s :: 'a dma_st_scheme)" "x < pwidth plane s" "unat x + unat w \<le> pw plane s"
  shows "draws s (VDP_setTileMapDataRowEx debug plane src basetile y x w CPU s)
    (row_cells plane s (tile_ex basetile) src (unat x) (unat y) (unat w))"
proof -
  have sz: "unat (pwidth plane s) \<in> sizes" using geo_sizes [OF assms(1), of plane] by (simp add: pw_def)
  have "unat (x AND (pwidth plane s - 1)) = unat x"
    unfolding masked [OF sz] using assms(2) by (simp add: word_less_nat_alt)
  then have x: "x AND (pwidth plane s - 1) = x" by (rule unsigned_word_eqI)
  have "\<not> over x w (pwidth plane s)" using assms(3) by (simp add: over_def pw_def)
  then show ?thesis
    using setTileMapDataRowEx_draws [OF assms(1,3), of debug src basetile y] by (simp add: VDP_setTileMapDataRowEx_def x)
qed

text \<open>The effect of a row on the video memory.\<close>

lemma draws_row_mem:
  assumes g: "geo_ok s" and d: "draws s s' (row_cells plane s f src i j n)" and n: "i + n \<le> pw plane s"
  shows "\<exists>es r. s' = s\<lparr>regValues := (regValues s)(0xF := r), io := io s @ es\<rparr> \<and>
    (\<forall>v. (\<forall>k < n. v_mem (vram_after es (chip_of s) v) (cell plane s (i + k) j) = f (ram s (src + k))) \<and>
      (\<forall>a. a \<notin> (\<lambda>k. cell plane s (i + k) j) ` {..<n} \<longrightarrow> v_mem (vram_after es (chip_of s) v) a = v_mem v a))"
proof -
  let ?ws = "row_cells plane s f src i j n"
  obtain es r where e: "s' = s\<lparr>regValues := (regValues s)(0xF := r), io := io s @ es\<rparr>"
      "\<And>v. v_mem (vram_after es (chip_of s) v) = puts ?ws (v_mem v)"
    using d unfolding draws_def by blast
  have "puts ?ws m (cell plane s (i + k) j) = f (ram s (src + k))" if k: "k < n" for k m
  proof (rule puts_in)
    show "(cell plane s (i + k) j, f (ram s (src + k))) \<in> set ?ws" unfolding set_cells using k by auto
    show "u = f (ram s (src + k))" if "(cell plane s (i + k) j, u) \<in> set ?ws" for u
    proof -
      obtain k' where k': "k' < n" "cell plane s (i + k) j = cell plane s (i + k') j" "u = f (ram s (src + k'))"
        using \<open>(cell plane s (i + k) j, u) \<in> set ?ws\<close> unfolding set_cells by auto
      have "(i + k) mod pw plane s = (i + k') mod pw plane s" by (rule cell_inj [OF g k'(2)])
      then have "k = k'" using k k'(1) n by simp
      then show ?thesis using k'(3) by simp
    qed
  qed
  moreover have "puts ?ws m a = m a" if "a \<notin> (\<lambda>k. cell plane s (i + k) j) ` {..<n}" for a m
    using that by (intro puts_other) (auto simp: row_cells_def)
  ultimately show ?thesis using e by (intro exI [of _ es] exI [of _ r]) simp
qed

text \<open>
  C19 Text drawn by the CPU inside a plane: character by character the cells of the row get the tiles
  of the font with the base tile, up to the right edge of the plane; every other word of the video
  memory stays, and the array on the stack, of 128 words, is not exceeded.
\<close>

theorem VDP_drawTextEx_shows:
  assumes "geo_ok (s :: 'a dma_st_scheme)" "cstr b str t" "length t < 65536" "x < pwidth plane s" "y < pheight plane s"
    and "n = min (length t) (pw plane s - unat x)"
  shows "n \<le> 128 \<and> (\<exists>s' es. VDP_drawTextEx debug stk plane str b basetile x y CPU s = Some s' \<and> io s' = io s @ es \<and>
    (\<forall>a. a \<notin> {stk ..< stk + n} \<longrightarrow> ram s' a = ram s a) \<and>
    (\<forall>v. (\<forall>k < n. v_mem (vram_after es (chip_of s) v) (cell plane s (unat x + k) (unat y))
            = tile_ex basetile (TILE_FONT_INDEX s + (ucast (t ! k) - 32))) \<and>
      (\<forall>a. a \<notin> (\<lambda>k. cell plane s (unat x + k) (unat y)) ` {..<n} \<longrightarrow> v_mem (vram_after es (chip_of s) v) a = v_mem v a)))"
proof -
  let ?pw = "pwidth plane s"
  have sz: "pw plane s \<in> sizes" using geo_sizes [OF assms(1), of plane] by simp
  have xl: "unat x < pw plane s" using assms(4) by (simp add: pw_def word_less_nat_alt)
  have d: "unat (?pw - x) = pw plane s - unat x" using assms(4) by (subst unat_minus_le) (simp_all add: pw_def)
  define l where "l = (if (of_nat (length t) :: u16) > ?pw - x then ?pw - x else of_nat (length t))"
  have len: "unat (of_nat (length t) :: u16) = length t" using assms(3) by (simp add: unat_of_nat)
  have l: "unat l = n" unfolding l_def assms(6) using d len by (auto simp: word_less_nat_alt)
  define s1 where "s1 = s\<lparr>ram := text_data (TILE_FONT_INDEX s) n stk str b (ram s)\<rparr>"
  have "geo_ok s1" using assms(1) by (simp add: s1_def geo_ok_def coherent_def chip_of_def plane_ok_def screen_ok_def)
  moreover have eq: "pwidth plane s1 = ?pw" "pw plane s1 = pw plane s" "cell plane s1 = cell plane s" "chip_of s1 = chip_of s" "io s1 = io s"
    by (simp_all add: s1_def pwidth_def pw_def cell_def plane_base_def ph_def pheight_def chip_of_def fun_eq_iff split: VDPPlane.split)
  have fit: "unat x + n \<le> pw plane s" using xl by (simp add: assms(6))
  define s' where "s' = VDP_setTileMapDataRowEx debug plane stk basetile y x l CPU s1"
  have "draws s1 s' (row_cells plane s1 (tile_ex basetile) stk (unat x) (unat y) n)"
    unfolding s'_def l [symmetric] using assms(4) fit l by (intro draws_row \<open>geo_ok s1\<close>) (simp_all add: eq)
  then obtain es r where e: "s' = s1\<lparr>regValues := (regValues s1)(0xF := r), io := io s1 @ es\<rparr>"
      "\<forall>v. (\<forall>k < n. v_mem (vram_after es (chip_of s1) v) (cell plane s1 (unat x + k) (unat y)) = tile_ex basetile (ram s1 (stk + k))) \<and>
        (\<forall>a. a \<notin> (\<lambda>k. cell plane s1 (unat x + k) (unat y)) ` {..<n} \<longrightarrow> v_mem (vram_after es (chip_of s1) v) a = v_mem v a)"
    using draws_row_mem [OF \<open>geo_ok s1\<close> _ fit [folded eq(2)]] by blast
  have "ram s1 (stk + k) = TILE_FONT_INDEX s + (ucast (t ! k) - 32)" if "k < n" for k
    using that assms(2,6) by (simp add: s1_def text_data_at cstr_def)
  moreover have "ram s' a = ram s a" if "a \<notin> {stk ..< stk + n}" for a using that by (auto simp: e(1) s1_def text_data_at)
  moreover have "VDP_drawTextEx debug stk plane str b basetile x y CPU s = Some s'"
    using assms(4,5) strlen_loop_ok [OF assms(2), of 0] l
    by (simp add: VDP_drawTextEx_def Let_def SGDK_strlen_def s'_def s1_def not_le flip: l_def)
  moreover have "n \<le> 128" using sz unfolding assms(6) sizes_def by auto
  ultimately show ?thesis using e(2) by (simp add: eq e(1))
qed

text \<open>Ten characters at column 28 of a plane of 32 cells: four of them are drawn.\<close>

theorem VDP_drawTextEx_shows_witness:
  "\<exists>s' es. VDP_drawTextEx False 500 BG_A 0 (put_bytes 0 (replicate 10 65 @ [0]) (\<lambda>_. 0)) 0x8000 28 3 CPU draw0 = Some s'
    \<and> io s' = io draw0 @ es \<and> (\<forall>v. \<forall>k < 4. v_mem (vram_after es (chip_of draw0) v) (cell BG_A draw0 (28 + k) 3)
      = tile_ex 0x8000 (TILE_FONT_INDEX draw0 + 33))"
proof -
  have c: "cstr (put_bytes 0 (replicate 10 65 @ [0]) (\<lambda>_. 0)) 0 (replicate 10 65)" by (rule cstr_put) simp
  have h: "length (replicate 10 (65 :: u8)) < 65536" "(28 :: u16) < pwidth BG_A draw0" "(3 :: u16) < pheight BG_A draw0"
      "4 = min (length (replicate 10 (65 :: u8))) (pw BG_A draw0 - unat (28 :: u16))"
    by (simp_all add: pw_def pwidth_def pheight_def draw0_def)
  obtain s' es where r: "VDP_drawTextEx False 500 BG_A 0 (put_bytes 0 (replicate 10 65 @ [0]) (\<lambda>_. 0)) 0x8000 28 3 CPU draw0 = Some s'"
      "io s' = io draw0 @ es" "\<forall>v. (\<forall>k < 4. v_mem (vram_after es (chip_of draw0) v) (cell BG_A draw0 (unat (28 :: u16) + k) (unat (3 :: u16)))
        = tile_ex 0x8000 (TILE_FONT_INDEX draw0 + (ucast (replicate 10 (65 :: u8) ! k) - 32)))"
    using VDP_drawTextEx_shows [OF vdp_inv_geo [OF draw0_ok(1)] c h] by meson
  have "(ucast (replicate 10 (65 :: u8) ! k) - 32 :: u16) = 33" if "k < 4" for k using that by simp
  then show ?thesis using r by (intro exI [of _ s'] exI [of _ es]) simp
qed

section \<open>Deferred scrolling\<close>

text \<open>
  Calls that set a scroll position; \<open>postpone\<close> makes them for the next vertical blank, \<open>at_once\<close> directly.
  There are four positions, the horizontal and the vertical one of two planes (\<open>WINDOW\<close> counts as the
  first). \<open>latest cs\<close> is the last call for each position, in the order of the positions.
\<close>

datatype scroll_call = HScroll VDPPlane u16 | VScroll VDPPlane u16

fun postpone :: "scroll_call \<Rightarrow> 'a bg_st_scheme \<Rightarrow> 'a bg_st_scheme" where
  "postpone (HScroll plane v) s = VDP_setHorizontalScrollVSync plane v s"
| "postpone (VScroll plane v) s = VDP_setVerticalScrollVSync plane v s"

fun at_once :: "scroll_call \<Rightarrow> 'a bg_st_scheme \<Rightarrow> 'a bg_st_scheme" where
  "at_once (HScroll plane v) s = VDP_setHorizontalScroll plane v s"
| "at_once (VScroll plane v) s = VDP_setVerticalScroll plane v s"

fun position :: "scroll_call \<Rightarrow> nat" where
  "position (HScroll plane v) = (if plane = BG_B then 1 else 0)"
| "position (VScroll plane v) = (if plane = BG_B then 3 else 2)"

fun value_of :: "scroll_call \<Rightarrow> u16" where
  "value_of (HScroll plane v) = v"
| "value_of (VScroll plane v) = v"

definition last_call :: "nat \<Rightarrow> scroll_call list \<Rightarrow> scroll_call option" where
  "last_call k cs = find (\<lambda>c. position c = k) (rev cs)"

definition latest :: "scroll_call list \<Rightarrow> scroll_call list" where
  "latest cs = concat (map (\<lambda>k. case last_call k cs of None \<Rightarrow> [] | Some c \<Rightarrow> [c]) [0, 1, 2, 3])"

text \<open>What is pending for position \<open>k\<close>.\<close>

definition pending :: "nat \<Rightarrow> 'a bg_st_scheme \<Rightarrow> u16 option" where
  "pending k s =
    (if k < 2 then (if bit (hscroll_update s) k then Some (hscrolls s k) else None)
     else (if bit (vscroll_update s) (k - 2) then Some (vscrolls s (k - 2)) else None))"

lemma bit_masks: "(x :: u8) AND 1 \<noteq> 0 \<longleftrightarrow> bit x 0" "(x :: u8) AND 2 \<noteq> 0 \<longleftrightarrow> bit x 1"
  using and_exp_eq_0_iff_not_bit [of x 0] and_exp_eq_0_iff_not_bit [of x 1] by simp_all

lemma bit_flag: "bit (x OR 1 :: u8) k \<longleftrightarrow> bit x k \<or> k = 0" "bit (x OR 2 :: u8) k \<longleftrightarrow> bit x k \<or> k = 1"
proof -
  show "bit (x OR 1 :: u8) k \<longleftrightarrow> bit x k \<or> k = 0" by (auto simp: bit_or_iff bit_1_iff)
  have "bit (2 ^ 1 :: u8) k \<longleftrightarrow> k = 1" by (auto simp only: bit_exp_iff) simp
  then show "bit (x OR 2 :: u8) k \<longleftrightarrow> bit x k \<or> k = 1" by (simp add: bit_or_iff)
qed

lemma pending_postpone:
  assumes "k < 4"
  shows "pending k (postpone c s) = (if k = position c then Some (value_of c) else pending k s)"
proof -
  have k: "k = 0 \<or> k = 1 \<or> k = 2 \<or> k = 3" using assms by linarith
  have h: "pending k (VDP_setHorizontalScrollVSync p v s) = (if k = position (HScroll p v) then Some v else pending k s)" for p v
    using k by (elim disjE) (simp_all add: pending_def VDP_setHorizontalScrollVSync_def Let_def bit_flag)
  have v: "pending k (VDP_setVerticalScrollVSync p v s) = (if k = position (VScroll p v) then Some v else pending k s)" for p v
    using k by (elim disjE) (simp_all add: pending_def VDP_setVerticalScrollVSync_def Let_def bit_flag)
  show ?thesis using h v by (cases c) simp_all
qed

lemma pending_calls:
  assumes "hscroll_update s = 0" "vscroll_update s = 0" "k < 4"
  shows "pending k (fold postpone cs s) = map_option value_of (last_call k cs)"
proof (induction cs rule: rev_induct)
  case Nil
  then show ?case using assms by (simp add: pending_def last_call_def)
next
  case (snoc c cs)
  then show ?case using pending_postpone [OF assms(3), of c "fold postpone cs s"] by (simp add: last_call_def)
qed

lemma postpone_frame:
  "io (postpone c s) = io s" "hscrl_addr (postpone c s) = hscrl_addr s"
  by (cases c; simp add: VDP_setHorizontalScrollVSync_def VDP_setVerticalScrollVSync_def)+

lemma postpone_calls_frame: "io (fold postpone cs s) = io s" "hscrl_addr (fold postpone cs s) = hscrl_addr s"
  by (induction cs arbitrary: s) (simp_all add: postpone_frame)

text \<open>The accesses for a position.\<close>

definition scroll_io :: "nat \<Rightarrow> u16 \<Rightarrow> u16 option \<Rightarrow> io list" where
  "scroll_io k table v =
    (case v of None \<Rightarrow> []
     | Some v \<Rightarrow> [CtrlL (if k < 2 then VDP_WRITE_VRAM_ADDR (ucast (if k = 1 then table + 2 else table))
                    else VDP_WRITE_VSRAM_ADDR (ucast (if k = 3 then 2 else 0 :: u16))), DataW v])"

lemma at_once_io:
  "io (at_once c s) = io s @ scroll_io (position c) (hscrl_addr s) (Some (value_of c))" "hscrl_addr (at_once c s) = hscrl_addr s"
  by (cases c; simp add: VDP_setHorizontalScroll_def VDP_setVerticalScroll_def scroll_io_def data_w_def ctrl_l_def Let_def)+

lemma process_io:
  "io (snd (VDP_doVBlankScrollProcess s)) = io s @ scroll_io 0 (hscrl_addr s) (pending 0 s) @ scroll_io 1 (hscrl_addr s) (pending 1 s)
     @ scroll_io 2 (hscrl_addr s) (pending 2 s) @ scroll_io 3 (hscrl_addr s) (pending 3 s)"
  by (simp add: VDP_doVBlankScrollProcess_def Let_def bit_masks pending_def scroll_io_def data_w_def ctrl_l_def)

lemma last_call_position: "last_call k cs = Some c \<Longrightarrow> position c = k"
  by (simp add: last_call_def find_Some_iff) blast

text \<open>
  C18 Deferred scrolling: whatever calls are made during a frame, the vertical blank makes the accesses
  of the last call for each of the four positions, as if just these had been made at once, in a
  fixed order; no call is made twice, afterwards nothing is pending, and no task is left.
\<close>

theorem VDP_doVBlankScrollProcess_latest:
  assumes "hscroll_update s = 0" "vscroll_update s = 0" "VDP_doVBlankScrollProcess (fold postpone cs s) = (r, s')"
  shows "io s' = io (fold at_once (latest cs) s) \<and> hscroll_update s' = 0 \<and> vscroll_update s' = 0 \<and> \<not> r"
proof -
  let ?t = "hscrl_addr s"
  have calls: "io (fold at_once ds s) = io s @ concat (map (\<lambda>c. scroll_io (position c) ?t (Some (value_of c))) ds)" for ds
    by (induction ds rule: rev_induct)
      (simp_all add: at_once_io fold_invariant [where P = "\<lambda>u. hscrl_addr u = ?t" and Q = "\<lambda>_. True"])
  have one: "concat (map (\<lambda>c. scroll_io (position c) ?t (Some (value_of c))) (case last_call k cs of None \<Rightarrow> [] | Some c \<Rightarrow> [c]))
      = scroll_io k ?t (map_option value_of (last_call k cs))" for k
    using last_call_position [of k cs] by (cases "last_call k cs") (simp_all add: scroll_io_def)
  have "io s' = io (snd (VDP_doVBlankScrollProcess (fold postpone cs s)))" by (simp add: assms(3))
  also have "\<dots> = io s @ concat (map (\<lambda>c. scroll_io (position c) ?t (Some (value_of c))) (latest cs))"
    unfolding process_io latest_def by (simp add: pending_calls [OF assms(1,2)] postpone_calls_frame one)
  also have "\<dots> = io (fold at_once (latest cs) s)" by (simp only: calls)
  finally show ?thesis using assms(3) by (auto simp: VDP_doVBlankScrollProcess_def Let_def)
qed

text \<open>Five calls, of which three are for one position.\<close>

definition bg0 :: bg_st where
  "bg0 = dma_st.extend draw0 \<lparr>text_plan = BG_A, text_basetile = 0, curTileInd = TILE_USER_INDEX,
     hscrolls = (\<lambda>_. 0), vscrolls = (\<lambda>_. 0), hscroll_update = 0, vscroll_update = 0\<rparr>"

theorem VDP_doVBlankScrollProcess_latest_witness:
  "io (snd (VDP_doVBlankScrollProcess (fold postpone [HScroll BG_A 1, VScroll BG_B 2, HScroll BG_A 3, HScroll BG_B 4, HScroll WINDOW 5] bg0)))
    = io (fold at_once [HScroll WINDOW 5, HScroll BG_B 4, VScroll BG_B 2] bg0)"
proof -
  let ?cs = "[HScroll BG_A 1, VScroll BG_B 2, HScroll BG_A 3, HScroll BG_B 4, HScroll WINDOW 5]"
  have "latest ?cs = [HScroll WINDOW 5, HScroll BG_B 4, VScroll BG_B 2]" by (simp add: latest_def last_call_def)
  moreover have "hscroll_update bg0 = 0" "vscroll_update bg0 = 0" by (simp_all add: bg0_def dma_st.defs)
  ultimately show ?thesis
    using VDP_doVBlankScrollProcess_latest [of bg0 ?cs "fst (VDP_doVBlankScrollProcess (fold postpone ?cs bg0))"
      "snd (VDP_doVBlankScrollProcess (fold postpone ?cs bg0))"] by simp
qed

section \<open>Padded text and attributes\<close>

lemma copy_text_ok:
  "cstr b src t \<Longrightarrow> dst \<le> src \<or> src + length t < dst \<Longrightarrow> copy_text dst src b = Some (dst + length t, put_bytes dst (t @ [0]) b)"
proof (induction t arbitrary: dst src b)
  case Nil
  then show ?case by (subst copy_text.simps) (simp add: fun_upd_def)
next
  case (Cons c t)
  have "cstr (b(dst := c)) (src + 1) t" using Cons.prems by (subst cstr_upd) auto
  moreover have "dst + 1 \<le> src + 1 \<or> src + 1 + length t < dst + 1" using Cons.prems(2) by auto
  ultimately have "copy_text (dst + 1) (src + 1) (b(dst := c)) = Some (dst + 1 + length t, put_bytes (dst + 1) (t @ [0]) (b(dst := c)))"
    by (rule Cons.IH)
  then show ?case using Cons.prems(1) by (simp add: copy_text.simps [of dst])
qed

lemma fill_spaces_ok: "fill_spaces n dst b = (dst + n, put_bytes dst (replicate n 32) b)"
  by (induction n arbitrary: dst b) simp_all

text \<open>
  \<open>VDP_drawTextBGFill\<close> with a string of at most \<open>len\<close> characters stays within its local array of
  \<open>len + 1\<close> bytes and draws the string followed by spaces up to \<open>len\<close> characters.
\<close>

theorem VDP_drawTextBGFill_pads:
  assumes "cstr b str t" "length t \<le> unat len" "str + length t < fixedStr \<or> fixedStr + unat len < str"
  shows "\<exists>b'. VDP_drawTextBGFill debug stk fixedStr plane str b x y len s
        = map_option (\<lambda>s. (s, b')) (VDP_drawTextBG debug stk plane fixedStr b' x y s)
    \<and> cstr b' fixedStr (t @ replicate (unat len - length t) 32)
    \<and> (\<forall>a. a \<notin> {fixedStr .. fixedStr + unat len} \<longrightarrow> b' a = b a)"
proof -
  let ?n = "unat len - length t"
  define b' where "b' = put_bytes fixedStr ((t @ replicate ?n 32) @ [0]) b"
  have nz: "0 \<notin> set t" using assms(1) by (simp add: cstr_def)
  have lt: "length t < 65536" using assms(2) unat_u16_lt [of len] by simp
  then have l: "unat (of_nat (length t) :: u16) = length t" by (simp add: unat_of_nat)
  have c: "copy_text fixedStr str b = Some (fixedStr + length t, put_bytes fixedStr (t @ [0]) b)"
    by (rule copy_text_ok [OF assms(1)]) (use assms(2,3) in auto)
  have e1: "(if of_nat (length t) < len then fill_spaces (unat (len - of_nat (length t))) (fixedStr + length t) (put_bytes fixedStr (t @ [0]) b)
      else (fixedStr + length t, put_bytes fixedStr (t @ [0]) b))
    = (fixedStr + length (t @ replicate ?n 32), if ?n = 0 then put_bytes fixedStr (t @ [0]) b else put_bytes fixedStr (t @ replicate ?n 32) b)"
  proof (cases "length t < unat len")
    case True
    then have "of_nat (length t) < len" by (simp add: word_less_nat_alt l)
    moreover have "unat (len - of_nat (length t)) = ?n" using True l by (subst unat_minus_le) (simp_all add: word_le_nat_alt)
    moreover have "put_bytes (fixedStr + length t) (replicate ?n 32) (put_bytes fixedStr (t @ [0]) b) = put_bytes fixedStr (t @ replicate ?n 32) b"
      using True by (intro put_bytes_overwrite) simp
    ultimately show ?thesis using True by (simp add: fill_spaces_ok)
  next
    case False
    then show ?thesis using assms(2) l by (simp add: word_less_nat_alt)
  qed
  have e2: "(if ?n = 0 then put_bytes fixedStr (t @ [0]) b else put_bytes fixedStr (t @ replicate ?n 32) b)
      (fixedStr + length (t @ replicate ?n 32) := 0) = b'"
  proof (cases "?n = 0")
    case True
    then show ?thesis unfolding b'_def by (simp add: put_bytes_apply fun_eq_iff nth_append)
  next
    case False
    then show ?thesis unfolding b'_def by (auto simp: put_bytes_apply fun_eq_iff nth_append less_Suc_eq)
  qed
  have "VDP_drawTextBGFill debug stk fixedStr plane str b x y len s
      = map_option (\<lambda>s. (s, b')) (VDP_drawTextBG debug stk plane fixedStr b' x y s)"
    by (simp only: VDP_drawTextBGFill_def c Let_def Option.bind.simps prod.case add_diff_cancel_left' e1 e2)
      (cases "VDP_drawTextBG debug stk plane fixedStr b' x y s"; simp)
  moreover have "cstr b' fixedStr (t @ replicate ?n 32)" unfolding b'_def by (rule cstr_put) (use nz in auto)
  moreover have "b' a = b a" if "a \<notin> {fixedStr .. fixedStr + unat len}" for a
    using that assms(2) by (auto simp: b'_def put_bytes_apply)
  ultimately show ?thesis by blast
qed

lemma replicate_3: "replicate 3 v = [v, v, v]"
  by (simp add: numeral_3_eq_3)

theorem VDP_drawTextBGFill_pads_witness:
  "\<exists>b'. cstr b' 100 [65, 66, 32, 32, 32] \<and> VDP_drawTextBGFill False 500 100 BG_A 0 (put_bytes 0 [65, 66, 0] (\<lambda>_. 7)) 1 1 5 bg0
      = map_option (\<lambda>s. (s, b')) (VDP_drawTextBG False 500 BG_A 100 b' 1 1 bg0)"
proof -
  have c: "cstr (put_bytes 0 ([65, 66] @ [0]) (\<lambda>_. 7)) 0 [65, 66]" by (rule cstr_put) simp
  show ?thesis
    using VDP_drawTextBGFill_pads [OF c, of 5 100 False 500 BG_A 1 1 bg0] by (simp add: replicate_3) blast
qed

text \<open>With a longer string the copy leaves the array: the terminator is written behind it.\<close>

lemma VDP_drawTextBGFill_overflow:
  assumes "cstr b str t" "unat len < length t" "length t < 65536" "str + length t < fixedStr \<or> fixedStr + length t < str"
    and "VDP_drawTextBGFill debug stk fixedStr plane str b x y len s = Some (s', b')"
  shows "fixedStr + length t \<notin> {fixedStr .. fixedStr + unat len} \<and> b' (fixedStr + length t) = 0
    \<and> (\<forall>i < length t. b' (fixedStr + i) = t ! i)"
proof -
  have c: "copy_text fixedStr str b = Some (fixedStr + length t, put_bytes fixedStr (t @ [0]) b)"
    by (rule copy_text_ok [OF assms(1)]) (use assms(4) in auto)
  have "\<not> of_nat (length t) < len" using assms(2,3) by (simp add: word_less_nat_alt unat_of_nat)
  then have "b' = (put_bytes fixedStr (t @ [0]) b)(fixedStr + length t := 0)"
    using assms(5) by (auto simp: VDP_drawTextBGFill_def c Let_def split: Option.bind_splits)
  then show ?thesis using assms(2) by (simp add: put_bytes_apply nth_append)
qed

text \<open>The field of two bits of the palette and the bit of the priority do not meet.\<close>

lemma attribute_bits:
  fixes t p :: u16
  assumes "k \<le> 2" "l \<le> 1"
  shows "drop_bit 13 (t AND NOT (push_bit 13 (mask k)) OR push_bit 13 (p AND mask k)) AND mask k = p AND mask k"
    and "drop_bit 15 (t AND NOT (push_bit 13 (mask k)) OR push_bit 13 (p AND mask k)) AND mask l = drop_bit 15 t AND mask l"
    and "drop_bit 15 (t AND NOT (push_bit 15 (mask l)) OR push_bit 15 (p AND mask l)) AND mask l = p AND mask l"
    and "drop_bit 13 (t AND NOT (push_bit 15 (mask l)) OR push_bit 15 (p AND mask l)) AND mask k = drop_bit 13 t AND mask k"
  using assms by (intro bit_word_eqI; auto simp: bit_simps)+

text \<open>
  The attributes of the text: a palette and a priority are read back, the palette modulo 4 and the
  priority modulo 2, and neither setter changes what the other one reads.
\<close>

lemma text_attributes:
  "VDP_getTextPalette (VDP_setTextPalette p s) = p AND 3" "VDP_getTextPriority (VDP_setTextPalette p s) = VDP_getTextPriority s"
  "VDP_getTextPriority (VDP_setTextPriority p s) = p AND 1" "VDP_getTextPalette (VDP_setTextPriority p s) = VDP_getTextPalette s"
proof -
  have m: "mask 2 = (3 :: u16)" "mask 1 = (1 :: u16)" by (simp_all add: mask_eq_exp_minus_1)
  have u: "text_basetile (s\<lparr>text_basetile := v\<rparr>) = v" for v by simp
  show "VDP_getTextPalette (VDP_setTextPalette p s) = p AND 3" "VDP_getTextPriority (VDP_setTextPalette p s) = VDP_getTextPriority s"
    "VDP_getTextPriority (VDP_setTextPriority p s) = p AND 1" "VDP_getTextPalette (VDP_setTextPriority p s) = VDP_getTextPalette s"
    using attribute_bits [of 2 1 "text_basetile s" p, OF order_refl order_refl, unfolded m]
    by (simp_all only: VDP_getTextPalette_def VDP_setTextPalette_def VDP_getTextPriority_def VDP_setTextPriority_def Let_def u)
qed

end
