(* ===== verification/MapScroll.thy ===== *)
theory MapScroll
  imports MapData Background
begin

text \<open>
  Scrolling of maps, the second half of \<open>src/map.c\<close>. When the position changes, the columns and rows
  of metatiles that come into view are decoded into the temporary buffer and queued for a transfer; the
  flush of the queue then makes them appear. The abstract side is the locale \<open>plane_window\<close>: a plane
  of metatiles that wraps around, on which columns and rows are painted. The main result says that
  after a scroll and a flush the whole window of the plane shows the map.
\<close>

section \<open>The code\<close>

definition COLUMN_AHEAD :: u16 where [cfg]: "COLUMN_AHEAD = 20 + 1"
definition ROW_AHEAD :: u16 where [cfg]: "ROW_AHEAD = 15 + 1"

definition HSCROLL_PLANE :: u8 where [cfg]: "HSCROLL_PLANE = 0"
definition HSCROLL_TILE :: u8 where [cfg]: "HSCROLL_TILE = 2"
definition HSCROLL_LINE :: u8 where [cfg]: "HSCROLL_LINE = 3"
definition VSCROLL_PLANE :: u8 where [cfg]: "VSCROLL_PLANE = 0"
definition VSCROLL_COLUMN :: u8 where [cfg]: "VSCROLL_COLUMN = 1"

text \<open>The transfers are queued before the data is prepared; the message without a buffer is a matter of \<open>debug\<close>.\<close>

definition setMapColumn :: "bool \<Rightarrow> Map \<Rightarrow> u16 \<Rightarrow> u16 \<Rightarrow> u16 \<Rightarrow> 'a dma_st_scheme \<Rightarrow> 'a dma_st_scheme" where
  "setMapColumn debug mp column x y s =
    (let ph = m_planeHeight mp;
         (buf, s) = DMA_allocateTemp (ph * 2) s
     in if debug \<and> buf = NULL then s
     else
       (let vramAddr = (if m_plane mp = BG_A then bga_addr s else bgb_addr s) + column * 4;
            pw2 = m_planeWidth mp * 2;
            s = snd (DMA_queueDmaFast DMA_VRAM (byte_addr buf) (vramAddr + 0) ph pw2 s);
            s = snd (DMA_queueDmaFast DMA_VRAM (byte_addr (buf + unat ph)) (vramAddr + 2) ph pw2 s);
            h = ROW_AHEAD;
            yAdj = y AND m_planeHeightMaskAdj mp;
            ph2 = m_planeHeightMaskAdj mp + 1;
            d = buf + unat yAdj * 2
        in if unat yAdj + unat h > unat ph2 then
             (let h1 = ph2 - yAdj;
                  m = prepareMapDataColumn mp d (d + unat ph) x y h1 (ram s);
                  m = prepareMapDataColumn mp buf (buf + unat ph) x (y + h1) (h - h1) m
              in s\<lparr>ram := m\<rparr>)
           else s\<lparr>ram := prepareMapDataColumn mp d (d + unat ph) x y h (ram s)\<rparr>))"

definition setMapRow :: "bool \<Rightarrow> Map \<Rightarrow> u16 \<Rightarrow> u16 \<Rightarrow> u16 \<Rightarrow> 'a dma_st_scheme \<Rightarrow> 'a dma_st_scheme" where
  "setMapRow debug mp row x y s =
    (let pw = m_planeWidth mp;
         (buf, s) = DMA_allocateTemp (pw * 2) s
     in if debug \<and> buf = NULL then s
     else
       (let vramAddr = (if m_plane mp = BG_A then bga_addr s else bgb_addr s) + push_bit (unat (m_planeWidthSftAdj mp)) row;
            s = snd (DMA_queueDmaFast DMA_VRAM (byte_addr buf) (vramAddr + pw * 0) pw 2 s);
            s = snd (DMA_queueDmaFast DMA_VRAM (byte_addr (buf + unat pw)) (vramAddr + pw * 2) pw 2 s);
            w = COLUMN_AHEAD;
            xAdj = x AND m_planeWidthMaskAdj mp;
            pw2 = m_planeWidthMaskAdj mp + 1;
            d = buf + unat xAdj * 2
        in if unat xAdj + unat w > unat pw2 then
             (let w1 = pw2 - xAdj;
                  m = prepareMapDataRow mp d (d + unat pw) x y w1 (ram s);
                  m = prepareMapDataRow mp buf (buf + unat pw) (x + w1) y (w - w1) m
              in s\<lparr>ram := m\<rparr>)
           else s\<lparr>ram := prepareMapDataRow mp d (d + unat pw) x y w (ram s)\<rparr>))"

text \<open>The four loops of \<open>updateMap\<close>, in both directions.\<close>

fun columns_right :: "bool \<Rightarrow> Map \<Rightarrow> u16 \<Rightarrow> nat \<Rightarrow> u16 \<Rightarrow> 'a dma_st_scheme \<Rightarrow> 'a dma_st_scheme" where
  "columns_right debug mp yt 0 cxt s = s"
| "columns_right debug mp yt (Suc n) cxt s =
    columns_right debug mp yt n (cxt + 1) (setMapColumn debug mp (cxt AND m_planeWidthMaskAdj mp) cxt yt s)"

fun columns_left :: "bool \<Rightarrow> Map \<Rightarrow> u16 \<Rightarrow> nat \<Rightarrow> u16 \<Rightarrow> 'a dma_st_scheme \<Rightarrow> 'a dma_st_scheme" where
  "columns_left debug mp yt 0 cxt s = s"
| "columns_left debug mp yt (Suc n) cxt s =
    (let cxt = cxt - 1 in
     columns_left debug mp yt n cxt (setMapColumn debug mp (cxt AND m_planeWidthMaskAdj mp) cxt yt s))"

fun rows_down :: "bool \<Rightarrow> Map \<Rightarrow> u16 \<Rightarrow> nat \<Rightarrow> u16 \<Rightarrow> 'a dma_st_scheme \<Rightarrow> 'a dma_st_scheme" where
  "rows_down debug mp xt 0 cyt s = s"
| "rows_down debug mp xt (Suc n) cyt s =
    rows_down debug mp xt n (cyt + 1) (setMapRow debug mp (cyt AND m_planeHeightMaskAdj mp) xt cyt s)"

fun rows_up :: "bool \<Rightarrow> Map \<Rightarrow> u16 \<Rightarrow> nat \<Rightarrow> u16 \<Rightarrow> 'a dma_st_scheme \<Rightarrow> 'a dma_st_scheme" where
  "rows_up debug mp xt 0 cyt s = s"
| "rows_up debug mp xt (Suc n) cyt s =
    (let cyt = cyt - 1 in
     rows_up debug mp xt n cyt (setMapRow debug mp (cyt AND m_planeHeightMaskAdj mp) xt cyt s))"

text \<open>\<open>s16\<close> values are words read with \<open>sint\<close>. The result of the clipping: start position and numbers of steps.\<close>

definition clip_update :: "u16 \<Rightarrow> u16 \<Rightarrow> u16 \<Rightarrow> u16 \<Rightarrow> u16 \<times> u16 \<times> u16 \<times> u16" where
  "clip_update cxt cyt deltaX deltaY =
    (if sint deltaY > sint ROW_AHEAD then (cxt, cyt + (deltaY - ROW_AHEAD), 0, ROW_AHEAD)
     else if sint deltaY < - sint ROW_AHEAD then (cxt, cyt + (deltaY + ROW_AHEAD), 0, - ROW_AHEAD)
     else if sint deltaX > sint COLUMN_AHEAD then (cxt + (deltaX - COLUMN_AHEAD), cyt, COLUMN_AHEAD, 0)
     else if sint deltaX < - sint COLUMN_AHEAD then (cxt + (deltaX + COLUMN_AHEAD), cyt, - COLUMN_AHEAD, 0)
     else (cxt, cyt, deltaX, deltaY))"

definition updateMap :: "bool \<Rightarrow> Map \<Rightarrow> u16 \<Rightarrow> u16 \<Rightarrow> 'a dma_st_scheme \<Rightarrow> Map \<times> 'a dma_st_scheme" where
  "updateMap debug mp xt yt s =
    (let cxt = m_lastXT mp; cyt = m_lastYT mp; deltaX = xt - cxt; deltaY = yt - cyt in
     if deltaX = 0 \<and> deltaY = 0 then (mp, s)
     else
       (let (cxt, cyt, deltaX, deltaY) = clip_update cxt cyt deltaX deltaY;
            s = (if sint deltaX > 0 then columns_right debug mp yt (nat (sint deltaX)) (cxt + COLUMN_AHEAD) s
                 else columns_left debug mp yt (nat (- sint deltaX)) cxt s);
            s = (if sint deltaY > 0 then rows_down debug mp xt (nat (sint deltaY)) (cyt + ROW_AHEAD) s
                 else rows_up debug mp xt (nat (- sint deltaY)) cyt s)
        in (mp\<lparr>m_lastXT := xt, m_lastYT := yt\<rparr>, s)))"

definition MAP_scrollToEx :: "bool \<Rightarrow> Map \<Rightarrow> u32 \<Rightarrow> u32 \<Rightarrow> bool \<Rightarrow> 'a bg_st_scheme \<Rightarrow> Map \<times> 'a bg_st_scheme" where
  "MAP_scrollToEx debug mp x y forceRedraw s =
    (let redraw = (forceRedraw \<or> m_firstUpdate mp);
         mp = mp\<lparr>m_firstUpdate := False\<rparr>;
         mp = (if redraw then
                 (let mp = mp\<lparr>m_posX := x, m_posY := y - 256\<rparr>
                  in mp\<lparr>m_lastXT := ucast (drop_bit 4 (m_posX mp)), m_lastYT := ucast (drop_bit 4 (m_posY mp))\<rparr>)
               else mp);
         (mp, s) = updateMap debug mp (ucast (drop_bit 4 x)) (ucast (drop_bit 4 y)) s;
         (mp, s) = (if redraw \<or> m_posX mp \<noteq> x then
             (let mode = VDP_getHorizontalScrollingMode s;
                  v = ucast (- x);
                  s = (if mode = HSCROLL_PLANE then VDP_setHorizontalScrollVSync (m_plane mp) v s
                       else if mode = HSCROLL_TILE then
                         (let len = screenHeight s div 8;
                              s = s\<lparr>ram := set_words v (unat len) (hScrollTable mp) (ram s)\<rparr>
                          in VDP_setHorizontalScrollTile (m_plane mp) 0 (hScrollTable mp) len DMA_QUEUE s)
                       else if mode = HSCROLL_LINE then
                         (let len = screenHeight s;
                              s = s\<lparr>ram := set_words v (unat len) (hScrollTable mp) (ram s)\<rparr>
                          in VDP_setHorizontalScrollLine (m_plane mp) 0 (hScrollTable mp) len DMA_QUEUE s)
                       else s)
              in (mp\<lparr>m_posX := x\<rparr>, s))
           else (mp, s))
     in if redraw \<or> m_posY mp \<noteq> y then
          (let mode = VDP_getVerticalScrollingMode s;
               v = ucast y;
               s = (if mode = VSCROLL_PLANE then VDP_setVerticalScrollVSync (m_plane mp) v s
                    else if mode = VSCROLL_COLUMN then
                      (let s = s\<lparr>ram := set_words v 20 (vScrollTable mp) (ram s)\<rparr>
                       in VDP_setVerticalScrollTile (m_plane mp) 0 (vScrollTable mp) 20 DMA_QUEUE s)
                    else s)
           in (mp\<lparr>m_posY := y\<rparr>, s))
        else (mp, s))"

definition MAP_scrollTo :: "bool \<Rightarrow> Map \<Rightarrow> u32 \<Rightarrow> u32 \<Rightarrow> 'a bg_st_scheme \<Rightarrow> Map \<times> 'a bg_st_scheme" where
  "MAP_scrollTo debug mp x y s = MAP_scrollToEx debug mp x y False s"

section \<open>A plane of metatiles\<close>

text \<open>
  A plane of \<open>W\<close> columns and \<open>H\<close> rows that wraps around, and what each metatile of the map shall
  look like, \<open>t X Y\<close>. A column is painted in the rows that are visible and spoilt in the others, a row
  likewise. \<open>window\<close> says that the 21 by 16 metatiles from \<open>(X, Y)\<close> on show the map.
\<close>

definition col_painted :: "nat \<Rightarrow> nat \<Rightarrow> (u16 \<Rightarrow> u16 \<Rightarrow> 'c) \<Rightarrow> u16 \<Rightarrow> u16 \<Rightarrow> (nat \<Rightarrow> nat \<Rightarrow> 'c) \<Rightarrow> (nat \<Rightarrow> nat \<Rightarrow> 'c) \<Rightarrow> bool" where
  "col_painted W H t X Y p p' \<longleftrightarrow>
     (\<forall>r < 16. p' (unat X mod W) (unat (Y + of_nat r) mod H) = t X (Y + of_nat r)) \<and>
     (\<forall>c < W. \<forall>r < H. c \<noteq> unat X mod W \<longrightarrow> p' c r = p c r)"

definition row_painted :: "nat \<Rightarrow> nat \<Rightarrow> (u16 \<Rightarrow> u16 \<Rightarrow> 'c) \<Rightarrow> u16 \<Rightarrow> u16 \<Rightarrow> (nat \<Rightarrow> nat \<Rightarrow> 'c) \<Rightarrow> (nat \<Rightarrow> nat \<Rightarrow> 'c) \<Rightarrow> bool" where
  "row_painted W H t X Y p p' \<longleftrightarrow>
     (\<forall>c < 21. p' (unat (X + of_nat c) mod W) (unat Y mod H) = t (X + of_nat c) Y) \<and>
     (\<forall>c < W. \<forall>r < H. r \<noteq> unat Y mod H \<longrightarrow> p' c r = p c r)"

definition window :: "nat \<Rightarrow> nat \<Rightarrow> (u16 \<Rightarrow> u16 \<Rightarrow> 'c) \<Rightarrow> u16 \<Rightarrow> u16 \<Rightarrow> (nat \<Rightarrow> nat \<Rightarrow> 'c) \<Rightarrow> bool" where
  "window W H t X Y p \<longleftrightarrow>
     (\<forall>c < 21. \<forall>r < 16. p (unat (X + of_nat c) mod W) (unat (Y + of_nat r) mod H) = t (X + of_nat c) (Y + of_nat r))"

text \<open>One after the other.\<close>

fun chain :: "('a \<Rightarrow> 'p \<Rightarrow> 'p \<Rightarrow> bool) \<Rightarrow> 'a list \<Rightarrow> 'p \<Rightarrow> 'p \<Rightarrow> bool" where
  "chain R [] p p' \<longleftrightarrow> p' = p"
| "chain R (x # xs) p p' \<longleftrightarrow> (\<exists>q. R x p q \<and> chain R xs q p')"

lemma mod_offset:
  fixes X :: u16
  assumes "W dvd 65536"
  shows "unat (X + of_nat c) mod W = (unat X + c) mod W"
proof -
  have "unat (X + of_nat c) = (unat X + c) mod 65536" by (simp add: unat_word_ariths unat_of_nat mod_simps)
  then show ?thesis using assms by (simp add: mod_mod_cancel)
qed

text \<open>
  Which columns and rows of the new window \<open>updateMap\<close> paints, in its order, for a move by the signed
  words \<open>dx\<close> and \<open>dy\<close>: counted from the left or the top of the window.
\<close>

definition edge :: "nat \<Rightarrow> u16 \<Rightarrow> nat list" where
  "edge w d = (if sint d > 0 then (let n = min (nat (sint d)) w in [w - n ..< w])
     else (let n = min (nat (- sint d)) w in rev [0 ..< n]))"

definition new_columns :: "u16 \<Rightarrow> u16 \<Rightarrow> nat list" where
  "new_columns dx dy = (if \<bar>sint dy\<bar> > 16 then [] else edge 21 dx)"

definition new_rows :: "u16 \<Rightarrow> u16 \<Rightarrow> nat list" where
  "new_rows dx dy = (if \<bar>sint dy\<bar> \<le> 16 \<and> \<bar>sint dx\<bar> > 21 then [] else edge 16 dy)"

lemma edge_set: "set (edge w d) \<subseteq> {..<w}" "distinct (edge w d)"
  by (auto simp: edge_def Let_def)

lemma edge_full: "\<bar>sint d\<bar> \<ge> int w \<Longrightarrow> set (edge w d) = {..<w}"
  by (auto simp: edge_def Let_def)

lemma new_set:
  "set (new_columns dx dy) \<subseteq> {..<21}" "distinct (new_columns dx dy)" "set (new_rows dx dy) \<subseteq> {..<16}" "distinct (new_rows dx dy)"
  using edge_set [of 21 dx] edge_set [of 16 dy] by (auto simp: new_columns_def new_rows_def)

text \<open>What is not at the edge was in the old window.\<close>

lemma edge_old:
  fixes x d :: u16
  assumes "k < w" "k \<notin> set (edge w d)" "w \<le> 32768"
  shows "\<exists>k' < w. x + d + of_nat k = x + of_nat k'"
proof (cases "sint d > 0")
  case True
  then have "k + nat (sint d) < w" using assms by (auto simp: edge_def Let_def)
  moreover have "d = of_nat (nat (sint d))" using True by simp
  then have "x + d + of_nat k = x + of_nat (k + nat (sint d))" by (simp add: add.commute add.left_commute)
  ultimately show ?thesis by blast
next
  case False
  then have "nat (- sint d) \<le> k" using assms by (auto simp: edge_def Let_def)
  then have "of_int (sint d) + of_nat k = (of_nat (k - nat (- sint d)) :: u16)" using False by (simp add: of_nat_diff of_int_minus [symmetric] del: of_int_minus)
  then have "x + d + of_nat k = x + of_nat (k - nat (- sint d))" by (simp add: add.assoc)
  moreover have "k - nat (- sint d) < w" using assms(1) by simp
  ultimately show ?thesis by blast
qed

locale plane_window =
  fixes W H :: nat and t :: "u16 \<Rightarrow> u16 \<Rightarrow> 'c"
  assumes W: "21 \<le> W" "W dvd 65536" and H: "16 \<le> H" "H dvd 65536"
begin

lemma sizes_pos: "0 < W" "0 < H"
  using W(1) H(1) by simp_all

lemma same_column: "c < 21 \<Longrightarrow> c' < 21 \<Longrightarrow> unat (X + of_nat c) mod W = unat (X + of_nat c') mod W \<Longrightarrow> c = c'"
  for X :: u16
  unfolding mod_offset [OF W(2)] using W(1) by (auto intro: mod_add_inj)

lemma same_row: "r < 16 \<Longrightarrow> r' < 16 \<Longrightarrow> unat (Y + of_nat r) mod H = unat (Y + of_nat r') mod H \<Longrightarrow> r = r'"
  for Y :: u16
  unfolding mod_offset [OF H(2)] using H(1) by (auto intro: mod_add_inj)

text \<open>Columns painted in any order: each of them shows the map, the others of the window stay.\<close>

lemma columns:
  assumes "chain (\<lambda>c. col_painted W H t (X + of_nat c) Y) cs p p'" "set cs \<subseteq> {..<21}" "distinct cs" "r < 16" "c < 21"
  shows "p' (unat (X + of_nat c) mod W) (unat (Y + of_nat r) mod H) =
    (if c \<in> set cs then t (X + of_nat c) (Y + of_nat r) else p (unat (X + of_nat c) mod W) (unat (Y + of_nat r) mod H))"
  using assms
proof (induction cs arbitrary: p)
  case (Cons a cs)
  obtain q where q: "col_painted W H t (X + of_nat a) Y p q" "chain (\<lambda>c. col_painted W H t (X + of_nat c) Y) cs q p'"
    using Cons.prems(1) by auto
  have ih: "p' (unat (X + of_nat c) mod W) (unat (Y + of_nat r) mod H) =
    (if c \<in> set cs then t (X + of_nat c) (Y + of_nat r) else q (unat (X + of_nat c) mod W) (unat (Y + of_nat r) mod H))"
    using Cons.IH [OF q(2)] Cons.prems by simp
  show ?case
  proof (cases "c = a")
    case True
    then show ?thesis using ih q(1) Cons.prems by (simp add: col_painted_def)
  next
    case False
    then have "unat (X + of_nat c) mod W \<noteq> unat (X + of_nat a) mod W" using same_column [of c a X] Cons.prems by auto
    then have "q (unat (X + of_nat c) mod W) (unat (Y + of_nat r) mod H) = p (unat (X + of_nat c) mod W) (unat (Y + of_nat r) mod H)"
      using q(1) sizes_pos by (simp add: col_painted_def)
    then show ?thesis using ih False by simp
  qed
qed simp

lemma rows:
  assumes "chain (\<lambda>r. row_painted W H t X (Y + of_nat r)) rs p p'" "set rs \<subseteq> {..<16}" "distinct rs" "r < 16" "c < 21"
  shows "p' (unat (X + of_nat c) mod W) (unat (Y + of_nat r) mod H) =
    (if r \<in> set rs then t (X + of_nat c) (Y + of_nat r) else p (unat (X + of_nat c) mod W) (unat (Y + of_nat r) mod H))"
  using assms
proof (induction rs arbitrary: p)
  case (Cons a rs)
  obtain q where q: "row_painted W H t X (Y + of_nat a) p q" "chain (\<lambda>r. row_painted W H t X (Y + of_nat r)) rs q p'"
    using Cons.prems(1) by auto
  have ih: "p' (unat (X + of_nat c) mod W) (unat (Y + of_nat r) mod H) =
    (if r \<in> set rs then t (X + of_nat c) (Y + of_nat r) else q (unat (X + of_nat c) mod W) (unat (Y + of_nat r) mod H))"
    using Cons.IH [OF q(2)] Cons.prems by simp
  show ?case
  proof (cases "r = a")
    case True
    then show ?thesis using ih q(1) Cons.prems by (simp add: row_painted_def)
  next
    case False
    then have "unat (Y + of_nat r) mod H \<noteq> unat (Y + of_nat a) mod H" using same_row [of r a Y] Cons.prems by auto
    then have "q (unat (X + of_nat c) mod W) (unat (Y + of_nat r) mod H) = p (unat (X + of_nat c) mod W) (unat (Y + of_nat r) mod H)"
      using q(1) sizes_pos by (simp add: row_painted_def)
    then show ?thesis using ih False by simp
  qed
qed simp

text \<open>Columns, then rows: the window shows the map if what is not painted did so before.\<close>

lemma update:
  assumes "chain (\<lambda>c. col_painted W H t (X + of_nat c) Y) cs p q" "set cs \<subseteq> {..<21}" "distinct cs"
    and "chain (\<lambda>r. row_painted W H t X (Y + of_nat r)) rs q p'" "set rs \<subseteq> {..<16}" "distinct rs"
    and old: "\<And>c r. c < 21 \<Longrightarrow> r < 16 \<Longrightarrow> c \<notin> set cs \<Longrightarrow> r \<notin> set rs \<Longrightarrow>
      p (unat (X + of_nat c) mod W) (unat (Y + of_nat r) mod H) = t (X + of_nat c) (Y + of_nat r)"
  shows "window W H t X Y p'"
  unfolding window_def
proof (intro allI impI)
  fix c r assume b: "c < (21 :: nat)" "r < (16 :: nat)"
  show "p' (unat (X + of_nat c) mod W) (unat (Y + of_nat r) mod H) = t (X + of_nat c) (Y + of_nat r)"
    using old [OF b] by (simp add: rows [OF assms(4-6) b(2,1)] columns [OF assms(1-3) b(2,1)])
qed

text \<open>The move of a window.\<close>

lemma move:
  assumes "chain (\<lambda>c. col_painted W H t (X + dx + of_nat c) (Y + dy)) (new_columns dx dy) p q"
    and "chain (\<lambda>r. row_painted W H t (X + dx) (Y + dy + of_nat r)) (new_rows dx dy) q p'"
    and old: "\<bar>sint dx\<bar> < 21 \<Longrightarrow> \<bar>sint dy\<bar> < 16 \<Longrightarrow> window W H t X Y p"
  shows "window W H t (X + dx) (Y + dy) p'"
proof (rule update [OF assms(1) new_set(1,2) assms(2) new_set(3,4)])
  fix c r assume b: "c < (21 :: nat)" "r < (16 :: nat)" "c \<notin> set (new_columns dx dy)" "r \<notin> set (new_rows dx dy)"
  have y: "\<bar>sint dy\<bar> < 16"
  proof (rule ccontr)
    assume "\<not> \<bar>sint dy\<bar> < 16"
    then have "set (edge 16 dy) = {..<16}" by (intro edge_full) simp
    moreover have "\<bar>sint dy\<bar> \<le> 16 \<and> \<bar>sint dx\<bar> > 21" using calculation b(2,4) by (auto simp: new_rows_def split: if_splits)
    then have "set (new_columns dx dy) = {..<21}" using edge_full [of 21 dx] by (simp add: new_columns_def)
    ultimately show False using b by simp
  qed
  have x: "\<bar>sint dx\<bar> < 21"
  proof (rule ccontr)
    assume "\<not> \<bar>sint dx\<bar> < 21"
    then have "set (new_columns dx dy) = {..<21}" using y edge_full [of 21 dx] by (simp add: new_columns_def)
    then show False using b by simp
  qed
  have "c \<notin> set (edge 21 dx)" "r \<notin> set (edge 16 dy)" using b(3,4) x y by (simp_all add: new_columns_def new_rows_def)
  then obtain c' r' where e: "c' < 21" "X + dx + of_nat c = X + of_nat c'" "r' < 16" "Y + dy + of_nat r = Y + of_nat r'"
    using edge_old [OF b(1), of dx X] edge_old [OF b(2), of dy Y] by auto
  then show "p (unat (X + dx + of_nat c) mod W) (unat (Y + dy + of_nat r) mod H) = t (X + dx + of_nat c) (Y + dy + of_nat r)"
    unfolding e(2,4) using old [OF x y] e(1,3) by (simp add: window_def)
qed

end

text \<open>The planes of the code: 64 cells wide, 32 or 64 cells high.\<close>

interpretation low: plane_window 32 16 t for t
  by unfold_locales simp_all

interpretation high: plane_window 32 32 t for t
  by unfold_locales simp_all

section \<open>The plan of an update\<close>

definition put_column :: "bool \<Rightarrow> Map \<Rightarrow> u16 \<Rightarrow> u16 \<Rightarrow> nat \<Rightarrow> 'a dma_st_scheme \<Rightarrow> 'a dma_st_scheme" where
  "put_column debug mp X Y c s = setMapColumn debug mp ((X + of_nat c) AND m_planeWidthMaskAdj mp) (X + of_nat c) Y s"

definition put_row :: "bool \<Rightarrow> Map \<Rightarrow> u16 \<Rightarrow> u16 \<Rightarrow> nat \<Rightarrow> 'a dma_st_scheme \<Rightarrow> 'a dma_st_scheme" where
  "put_row debug mp X Y r s = setMapRow debug mp ((Y + of_nat r) AND m_planeHeightMaskAdj mp) X (Y + of_nat r) s"

lemma columns_right_fold: "columns_right debug mp Y n (X + of_nat a) s = fold (put_column debug mp X Y) [a ..< a + n] s"
proof (induction n arbitrary: a s)
  case (Suc n)
  have "[a ..< a + Suc n] = a # [Suc a ..< Suc a + n]" by (simp add: upt_conv_Cons)
  then show ?case using Suc.IH [of "Suc a"] by (simp add: put_column_def add.assoc [symmetric] add.commute [of 1])
qed simp

lemma columns_left_fold: "n \<le> a \<Longrightarrow> columns_left debug mp Y n (X + of_nat a) s = fold (put_column debug mp X Y) (rev [a - n ..< a]) s"
proof (induction n arbitrary: a s)
  case (Suc n)
  then obtain b where b: "a = Suc b" by (cases a) auto
  have "X + of_nat a - 1 = X + of_nat b" by (simp add: b)
  moreover have "rev [a - Suc n ..< a] = b # rev [b - n ..< b]" using Suc.prems by (simp add: b upt_Suc)
  ultimately show ?case using Suc.IH [of b] Suc.prems by (simp add: put_column_def b Let_def del: upt_Suc)
qed simp

lemma rows_down_fold: "rows_down debug mp X n (Y + of_nat a) s = fold (put_row debug mp X Y) [a ..< a + n] s"
proof (induction n arbitrary: a s)
  case (Suc n)
  have "[a ..< a + Suc n] = a # [Suc a ..< Suc a + n]" by (simp add: upt_conv_Cons)
  then show ?case using Suc.IH [of "Suc a"] by (simp add: put_row_def add.assoc [symmetric] add.commute [of 1])
qed simp

lemma rows_up_fold: "n \<le> a \<Longrightarrow> rows_up debug mp X n (Y + of_nat a) s = fold (put_row debug mp X Y) (rev [a - n ..< a]) s"
proof (induction n arbitrary: a s)
  case (Suc n)
  then obtain b where b: "a = Suc b" by (cases a) auto
  have "Y + of_nat a - 1 = Y + of_nat b" by (simp add: b)
  moreover have "rev [a - Suc n ..< a] = b # rev [b - n ..< b]" using Suc.prems by (simp add: b upt_Suc)
  ultimately show ?case using Suc.IH [of b] Suc.prems by (simp add: put_row_def b Let_def del: upt_Suc)
qed simp

text \<open>A pair of loops follows the edge.\<close>

lemma edge_columns:
  assumes "X = c + d" "\<bar>sint d\<bar> \<le> 21"
  shows "(if sint d > 0 then columns_right debug mp Y (nat (sint d)) (c + COLUMN_AHEAD) s
      else columns_left debug mp Y (nat (- sint d)) c s) = fold (put_column debug mp X Y) (edge 21 d) s"
proof (cases "sint d > 0")
  case True
  let ?n = "nat (sint d)"
  have n: "?n \<le> 21" using assms(2) by simp
  have "d = of_nat ?n" using True by simp
  moreover have "(of_nat ?n + of_nat (21 - ?n) :: u16) = of_nat 21" using n by (simp only: flip: of_nat_add) simp
  ultimately have "c + COLUMN_AHEAD = X + of_nat (21 - ?n)" unfolding assms(1) by (simp add: cfg add.assoc)
  then show ?thesis using True n columns_right_fold [of debug mp Y ?n X "21 - ?n" s] by (simp add: edge_def min_def Let_def)
next
  case False
  let ?n = "nat (- sint d)"
  have "(of_nat ?n :: u16) = - d" using False by (simp add: of_nat_nat)
  then have "c = X + of_nat ?n" unfolding assms(1) by simp
  then show ?thesis using False assms(2) columns_left_fold [of ?n ?n debug mp Y X s] by (simp add: edge_def min_def Let_def)
qed

lemma edge_rows:
  assumes "Y = c + d" "\<bar>sint d\<bar> \<le> 16"
  shows "(if sint d > 0 then rows_down debug mp X (nat (sint d)) (c + ROW_AHEAD) s
      else rows_up debug mp X (nat (- sint d)) c s) = fold (put_row debug mp X Y) (edge 16 d) s"
proof (cases "sint d > 0")
  case True
  let ?n = "nat (sint d)"
  have n: "?n \<le> 16" using assms(2) by simp
  have "d = of_nat ?n" using True by simp
  moreover have "(of_nat ?n + of_nat (16 - ?n) :: u16) = of_nat 16" using n by (simp only: flip: of_nat_add) simp
  ultimately have "c + ROW_AHEAD = Y + of_nat (16 - ?n)" unfolding assms(1) by (simp add: cfg add.assoc)
  then show ?thesis using True n rows_down_fold [of debug mp X ?n Y "16 - ?n" s] by (simp add: edge_def min_def Let_def)
next
  case False
  let ?n = "nat (- sint d)"
  have "(of_nat ?n :: u16) = - d" using False by (simp add: of_nat_nat)
  then have "c = Y + of_nat ?n" unfolding assms(1) by simp
  then show ?thesis using False assms(2) rows_up_fold [of ?n ?n debug mp X Y s] by (simp add: edge_def min_def Let_def)
qed

lemma edge_columns_0:
  assumes "d = 0 \<or> X = c + d" "\<bar>sint d\<bar> \<le> 21"
  shows "(if sint d > 0 then columns_right debug mp Y (nat (sint d)) (c + COLUMN_AHEAD) s
      else columns_left debug mp Y (nat (- sint d)) c s) = fold (put_column debug mp X Y) (edge 21 d) s"
proof (cases "d = 0")
  case False
  then show ?thesis using assms by (intro edge_columns) simp_all
qed (simp add: edge_def)

lemma edge_rows_0:
  assumes "d = 0 \<or> Y = c + d" "\<bar>sint d\<bar> \<le> 16"
  shows "(if sint d > 0 then rows_down debug mp X (nat (sint d)) (c + ROW_AHEAD) s
      else rows_up debug mp X (nat (- sint d)) c s) = fold (put_row debug mp X Y) (edge 16 d) s"
proof (cases "d = 0")
  case False
  then show ?thesis using assms by (intro edge_rows) simp_all
qed (simp add: edge_def)

lemma edge_clip:
  "int w \<le> sint d \<Longrightarrow> 0 < w \<Longrightarrow> edge w d = [0 ..< w]" "sint d \<le> - int w \<Longrightarrow> 0 < w \<Longrightarrow> edge w d = rev [0 ..< w]" "edge w 0 = []"
proof -
  have "min (nat (- sint d)) w = w" if "sint d \<le> - int w" using that by simp
  then show "sint d \<le> - int w \<Longrightarrow> 0 < w \<Longrightarrow> edge w d = rev [0 ..< w]" by (simp add: edge_def)
qed (auto simp: edge_def Let_def min_def)

lemma updateMap_plan:
  "updateMap debug mp xt yt s =
    (mp\<lparr>m_lastXT := xt, m_lastYT := yt\<rparr>,
     fold (put_row debug mp xt yt) (new_rows (xt - m_lastXT mp) (yt - m_lastYT mp))
       (fold (put_column debug mp xt yt) (new_columns (xt - m_lastXT mp) (yt - m_lastYT mp)) s))"
proof -
  define dx where "dx = xt - m_lastXT mp"
  define dy where "dy = yt - m_lastYT mp"
  define plan where "plan = (\<lambda>(cx, cy, dx :: u16, dy :: u16).
     (let s = (if sint dx > 0 then columns_right debug mp yt (nat (sint dx)) (cx + COLUMN_AHEAD) s
                else columns_left debug mp yt (nat (- sint dx)) cx s)
      in (mp\<lparr>m_lastXT := xt, m_lastYT := yt\<rparr>,
        if sint dy > 0 then rows_down debug mp xt (nat (sint dy)) (cy + ROW_AHEAD) s
        else rows_up debug mp xt (nat (- sint dy)) cy s)))"
  have p: "plan (cx, cy, ex, ey) = (mp\<lparr>m_lastXT := xt, m_lastYT := yt\<rparr>,
      fold (put_row debug mp xt yt) (edge 16 ey) (fold (put_column debug mp xt yt) (edge 21 ex) s))"
    if "ex = 0 \<or> xt = cx + ex" "ey = 0 \<or> yt = cy + ey" "\<bar>sint ex\<bar> \<le> 21" "\<bar>sint ey\<bar> \<le> 16" for cx cy ex ey
    unfolding plan_def prod.case Let_def edge_columns_0 [OF that(1,3)] edge_rows_0 [OF that(2,4)] ..
  show ?thesis
  proof (cases "dx = 0 \<and> dy = 0")
    case True
    then have "updateMap debug mp xt yt s = (mp, s)" by (simp add: updateMap_def dx_def dy_def)
    then show ?thesis using True by (simp add: dx_def dy_def new_columns_def new_rows_def edge_clip(3))
  next
    case False
    then have "updateMap debug mp xt yt s = plan (clip_update (m_lastXT mp) (m_lastYT mp) dx dy)"
      by (auto simp: updateMap_def Let_def dx_def dy_def plan_def split: prod.split)
    also have "\<dots> = (mp\<lparr>m_lastXT := xt, m_lastYT := yt\<rparr>,
        fold (put_row debug mp xt yt) (new_rows dx dy) (fold (put_column debug mp xt yt) (new_columns dx dy) s))"
    proof -
      have s: "sint ROW_AHEAD = 16" "sint (- ROW_AHEAD) = - 16" "sint COLUMN_AHEAD = 21" "sint (- COLUMN_AHEAD) = - 21"
        by (simp_all add: cfg)
      have t: "xt = m_lastXT mp + dx" "yt = m_lastYT mp + dy" by (simp_all add: dx_def dy_def)
      consider "sint dy > 16" | "sint dy < - 16" | "\<bar>sint dy\<bar> \<le> 16" "sint dx > 21" | "\<bar>sint dy\<bar> \<le> 16" "sint dx < - 21"
        | "\<bar>sint dy\<bar> \<le> 16" "\<bar>sint dx\<bar> \<le> 21" by linarith
      then show ?thesis
      proof cases
        case 1
        then have "clip_update (m_lastXT mp) (m_lastYT mp) dx dy = (m_lastXT mp, m_lastYT mp + (dy - ROW_AHEAD), 0, ROW_AHEAD)"
          by (simp add: clip_update_def s)
        then show ?thesis using 1 s t
          by (simp add: p edge_clip new_columns_def new_rows_def)
      next
        case 2
        then have "clip_update (m_lastXT mp) (m_lastYT mp) dx dy = (m_lastXT mp, m_lastYT mp + (dy + ROW_AHEAD), 0, - ROW_AHEAD)"
          by (simp add: clip_update_def s)
        then show ?thesis using 2 s t
          by (simp add: p edge_clip new_columns_def new_rows_def)
      next
        case 3
        then have "clip_update (m_lastXT mp) (m_lastYT mp) dx dy = (m_lastXT mp + (dx - COLUMN_AHEAD), m_lastYT mp, COLUMN_AHEAD, 0)"
          by (auto simp add: clip_update_def s)
        then show ?thesis using 3 s t
          by (simp add: p edge_clip new_columns_def new_rows_def)
      next
        case 4
        then have "clip_update (m_lastXT mp) (m_lastYT mp) dx dy = (m_lastXT mp + (dx + COLUMN_AHEAD), m_lastYT mp, - COLUMN_AHEAD, 0)"
          by (auto simp add: clip_update_def s)
        then show ?thesis using 4 s t
          by (simp add: p edge_clip new_columns_def new_rows_def)
      next
        case 5
        then have "clip_update (m_lastXT mp) (m_lastYT mp) dx dy = (m_lastXT mp, m_lastYT mp, dx, dy)"
          by (auto simp add: clip_update_def s)
        then show ?thesis using 5 t by (simp add: p new_columns_def new_rows_def)
      qed
    qed
    finally show ?thesis by (simp add: dx_def dy_def)
  qed
qed

section \<open>Transfers into the video memory\<close>

text \<open>
  What a DMA of the chip does to the video memory: words from the bank of the source, in which the
  address wraps around, go to addresses that advance by the increment. A length of 0 means 65536.
\<close>

definition dma_puts :: "ram \<Rightarrow> dma_op \<Rightarrow> (u16 \<Rightarrow> u16) \<Rightarrow> u16 \<Rightarrow> u16" where
  "dma_puts m d v =
    (if dma_target d = Some DMA_VRAM
     then puts (map (\<lambda>k. (of_nat (dma_dest d) + ucast (op_inc d) * of_nat k, m (dma_word d k)))
            [0 ..< if dma_len d = 0 then 65536 else dma_len d]) v
     else v)"

definition xfer_puts :: "ram \<Rightarrow> xfer \<Rightarrow> (u16 \<Rightarrow> u16) \<Rightarrow> u16 \<Rightarrow> u16" where
  "xfer_puts m x = puts (map (\<lambda>k. (x_to x + x_step x * of_nat k, m (unat (x_from x) div 2 + k))) [0 ..< unat (x_len x)])"

definition to_vram :: "xfer \<Rightarrow> bool" where
  "to_vram x \<longleftrightarrow> xfer_ok x \<and> x_loc x = DMA_VRAM \<and> in_bank x \<and> 0 < unat (x_len x) \<and> unat (x_from x) < 16777216"

lemma dma_puts_xfer:
  assumes "to_vram x"
  shows "dma_puts m (xfer_op x) = xfer_puts m x"
proof -
  have x: "xfer_ok x" "x_loc x = DMA_VRAM" "in_bank x" "0 < unat (x_len x)" "unat (x_from x) < 16777216"
    using assms by (simp_all add: to_vram_def)
  let ?a = "unat (x_from x)"
  have src: "dma_src (xfer_op x) = 2 * (?a div 2)" and len: "dma_len (xfer_op x) = unat (x_len x)"
      and t: "dma_target (xfer_op x) = Some DMA_VRAM" and dest: "of_nat (dma_dest (xfer_op x)) = x_to x"
      and inc: "unat (op_inc (xfer_op x)) = unat (x_step x)"
    using DMA_entry_decodes [OF x(1)] x(2,5) by simp_all
  have inc: "(ucast (op_inc (xfer_op x)) :: u16) = x_step x" by (rule word_unat_eq_iff [THEN iffD2]) (use inc unat_u16_lt [of "x_step x"] in \<open>simp add: unat_ucast_mod\<close>)
  have w: "dma_word (xfer_op x) k = ?a div 2 + k" if "k < unat (x_len x)" for k
  proof -
    define q r where "q = ?a div 131072" and "r = ?a mod 131072"
    have a: "?a = 131072 * q + r" "r + 2 * unat (x_len x) \<le> 131072" using x(3) by (simp_all add: q_def r_def in_bank_def)
    then have b: "?a div 2 = 65536 * q + r div 2" "r div 2 + k < 65536" using that by linarith+
    then have "2 * (?a div 2) div 131072 = q" by simp
    moreover have "(65536 * q + (r div 2 + k)) mod 65536 = r div 2 + k" using b(2) by simp
    then have "(?a div 2 + k) mod 65536 = r div 2 + k" unfolding b(1) by (simp add: add.assoc)
    ultimately show ?thesis using b(1) by (simp add: dma_word_def src)
  qed
  have n: "(if dma_len (xfer_op x) = 0 then 65536 else dma_len (xfer_op x)) = unat (x_len x)" using x(4) unfolding len by simp
  have "map (\<lambda>k. (of_nat (dma_dest (xfer_op x)) + ucast (op_inc (xfer_op x)) * of_nat k, m (dma_word (xfer_op x) k))) [0 ..< unat (x_len x)]
      = map (\<lambda>k. (x_to x + x_step x * of_nat k, m (?a div 2 + k))) [0 ..< unat (x_len x)]"
    unfolding dest inc by (intro map_cong refl) (simp add: w)
  then show ?thesis by (intro ext) (simp only: dma_puts_def xfer_puts_def t n simp_thms if_True)
qed

section \<open>Steps that queue transfers\<close>

definition data_area :: "'a dma_st_scheme \<Rightarrow> nat set" where
  "data_area s = {dmaDataBuffer s ..< dmaDataBuffer s + unat (dataBufferSize s)}"

definition queue_area :: "'a dma_st_scheme \<Rightarrow> nat set" where
  "queue_area s = {dmaQueues s ..< dmaQueues s + 8 * unat (queueSize s)}"

text \<open>
  The two areas do not meet, and the temporary buffer is in one bank of the address space. There is
  room for \<open>k\<close> more transfers and \<open>n\<close> more words.
\<close>

definition areas_ok :: "'a dma_st_scheme \<Rightarrow> bool" where
  "areas_ok s \<longleftrightarrow> 0 < dmaDataBuffer s \<and> data_area s \<inter> queue_area s = {} \<and> dmaDataBuffer s \<le> nextDataBuffer s \<and>
     dmaDataBuffer s + unat (dataBufferSize s) \<le> 2 ^ 23 \<and> dmaDataBuffer s mod 65536 + unat (dataBufferSize s) \<le> 65536"

definition room :: "nat \<Rightarrow> nat \<Rightarrow> 'a dma_st_scheme \<Rightarrow> bool" where
  "room k n s \<longleftrightarrow> unat (queueIndex s) + k \<le> unat (queueSize s) \<and>
     nextDataBuffer s + n \<le> dmaDataBuffer s + unat (dataBufferSize s)"

definition scroll_frame :: "'a dma_st_scheme \<Rightarrow> 'a dma_st_scheme \<Rightarrow> bool" where
  "scroll_frame s s' \<longleftrightarrow> (\<exists>m n t i l. s' = s\<lparr>ram := m, nextDataBuffer := n, queueTransferSize := t, queueIndex := i, queueIndexLimit := l\<rparr>)"

text \<open>
  \<open>queues s s' xs n E\<close>: a step appends the transfers \<open>xs\<close> to the queue and takes \<open>n\<close> words of the
  buffer, changing nothing else; when the transfers are made with a memory that has still got these
  words, the video memory changes as the relation \<open>E\<close> says.
\<close>

definition queues :: "'a dma_st_scheme \<Rightarrow> 'a dma_st_scheme \<Rightarrow> xfer list \<Rightarrow> nat \<Rightarrow> ((u16 \<Rightarrow> u16) \<Rightarrow> (u16 \<Rightarrow> u16) \<Rightarrow> bool) \<Rightarrow> bool" where
  "queues s s' xs n E \<longleftrightarrow> scroll_frame s s' \<and> nextDataBuffer s' = nextDataBuffer s + n \<and>
     unat (queueIndex s') = unat (queueIndex s) + length xs \<and>
     (\<forall>q. queue_inv s q \<longrightarrow> queue_inv s' (q @ xs)) \<and> list_all to_vram xs \<and>
     (\<forall>a. a \<notin> queue_area s \<union> {nextDataBuffer s ..< nextDataBuffer s + n} \<longrightarrow> ram s' a = ram s a) \<and>
     (\<forall>m v. (\<forall>a \<in> {nextDataBuffer s ..< nextDataBuffer s + n}. m a = ram s' a) \<longrightarrow> E v (fold (xfer_puts m) xs v))"

lemma scroll_frame_sel:
  assumes "scroll_frame s s'"
  shows "dmaDataBuffer s' = dmaDataBuffer s" "dataBufferSize s' = dataBufferSize s" "dmaQueues s' = dmaQueues s"
    "queueSize s' = queueSize s" "data_area s' = data_area s" "queue_area s' = queue_area s" "cell plane s' = cell plane s"
    "geo_ok s' = geo_ok s" "io s' = io s" "regValues s' = regValues s" "dmaFlag s' = dmaFlag s" "chip_of s' = chip_of s"
    "planeWidth s' = planeWidth s" "planeHeight s' = planeHeight s" "screenHeight s' = screenHeight s" "coherent s' = coherent s"
    "plane_base plane s' = plane_base plane s" "bga_addr s' = bga_addr s" "bgb_addr s' = bgb_addr s" "pw plane s' = pw plane s" "ph plane s' = ph plane s"
proof -
  obtain m n t i l where e: "s' = s\<lparr>ram := m, nextDataBuffer := n, queueTransferSize := t, queueIndex := i, queueIndexLimit := l\<rparr>"
    using assms unfolding scroll_frame_def by blast
  show "dmaDataBuffer s' = dmaDataBuffer s" "dataBufferSize s' = dataBufferSize s" "dmaQueues s' = dmaQueues s"
    "queueSize s' = queueSize s" "data_area s' = data_area s" "queue_area s' = queue_area s"
    "io s' = io s" "regValues s' = regValues s" "dmaFlag s' = dmaFlag s" "chip_of s' = chip_of s"
    "planeWidth s' = planeWidth s" "planeHeight s' = planeHeight s" "screenHeight s' = screenHeight s"
    "bga_addr s' = bga_addr s" "bgb_addr s' = bgb_addr s"
    unfolding e by (simp_all add: data_area_def queue_area_def chip_of_def)
  show c: "coherent s' = coherent s" unfolding e coherent_def chip_of_def by simp
  show "geo_ok s' = geo_ok s" unfolding geo_ok_def c unfolding e plane_ok_def screen_ok_def by simp
  show b: "plane_base plane s' = plane_base plane s" "pw plane s' = pw plane s" "ph plane s' = ph plane s"
    unfolding e by (cases plane; simp add: plane_base_def pw_def ph_def pwidth_def pheight_def)+
  show "cell plane s' = cell plane s" by (intro ext) (simp only: cell_def b)
qed

lemma scroll_frame_refl [simp]: "scroll_frame s s"
  unfolding scroll_frame_def
  by (intro exI [of _ "ram s"] exI [of _ "nextDataBuffer s"] exI [of _ "queueTransferSize s"] exI [of _ "queueIndex s"]
      exI [of _ "queueIndexLimit s"]) simp

lemma scroll_frame_trans: "scroll_frame s s1 \<Longrightarrow> scroll_frame s1 s2 \<Longrightarrow> scroll_frame s s2"
  unfolding scroll_frame_def by auto blast

lemma areas_keep:
  assumes "areas_ok s" "queues s s' xs n E"
  shows "areas_ok s'"
proof -
  have "scroll_frame s s'" "nextDataBuffer s' = nextDataBuffer s + n" using assms(2) by (simp_all add: queues_def)
  then show ?thesis using assms(1) scroll_frame_sel [of s s'] by (simp add: areas_ok_def)
qed

lemma room_after:
  assumes "room (length xs + k) (n + l) s" "queues s s' xs n E"
  shows "room k l s'"
proof -
  have "scroll_frame s s'" "nextDataBuffer s' = nextDataBuffer s + n" "unat (queueIndex s') = unat (queueIndex s) + length xs"
    using assms(2) by (simp_all add: queues_def)
  then show ?thesis using assms(1) scroll_frame_sel [of s s'] by (simp add: room_def)
qed

lemma room_less: "room k n s \<Longrightarrow> k' \<le> k \<Longrightarrow> n' \<le> n \<Longrightarrow> room k' n' s"
  by (simp add: room_def)

text \<open>The words that are kept: those outside of both areas, and the data of earlier steps.\<close>

lemma queues_ram:
  assumes "areas_ok s" "room k n s" "queues s s' xs n E" "a \<notin> queue_area s" "a \<notin> data_area s \<or> a < nextDataBuffer s"
  shows "ram s' a = ram s a"
proof -
  have "{nextDataBuffer s ..< nextDataBuffer s + n} \<subseteq> data_area s - {..< nextDataBuffer s}"
    using assms(1,2) by (auto simp: areas_ok_def room_def data_area_def)
  then have "a \<notin> queue_area s \<union> {nextDataBuffer s ..< nextDataBuffer s + n}" using assms(4,5) by blast
  then show ?thesis using assms(3) by (simp add: queues_def)
qed

lemma queues_trans:
  assumes a: "areas_ok s" "room k (n + l) s" and q: "queues s s1 xs n E" "queues s1 s2 ys l F"
  shows "queues s s2 (xs @ ys) (n + l) (E OO F)"
proof -
  have f: "scroll_frame s s1" "scroll_frame s1 s2" "nextDataBuffer s1 = nextDataBuffer s + n" using q by (simp_all add: queues_def)
  note sel = scroll_frame_sel [OF f(1)]
  have d: "{nextDataBuffer s ..< nextDataBuffer s + n} \<inter> queue_area s = {}"
  proof -
    have "{nextDataBuffer s ..< nextDataBuffer s + n} \<subseteq> data_area s" using a by (auto simp: areas_ok_def room_def data_area_def)
    then show ?thesis using a(1) by (auto simp: areas_ok_def)
  qed
  have keep: "ram s2 b = ram s1 b" if "b \<in> {nextDataBuffer s ..< nextDataBuffer s + n}" for b
  proof -
    have "b \<notin> queue_area s1 \<union> {nextDataBuffer s1 ..< nextDataBuffer s1 + l}" using that d f(3) sel(6) by auto
    then show ?thesis using q(2) by (simp add: queues_def)
  qed
  have E: "(E OO F) v (fold (xfer_puts m) (xs @ ys) v)"
    if m: "\<forall>b \<in> {nextDataBuffer s ..< nextDataBuffer s + (n + l)}. m b = ram s2 b" for m v
  proof (rule relcomppI)
    have "\<forall>b \<in> {nextDataBuffer s ..< nextDataBuffer s + n}. m b = ram s1 b" using m keep by simp
    then show "E v (fold (xfer_puts m) xs v)" using q(1) by (simp add: queues_def)
    have "\<forall>b \<in> {nextDataBuffer s1 ..< nextDataBuffer s1 + l}. m b = ram s2 b" using m f(3) by simp
    then show "F (fold (xfer_puts m) xs v) (fold (xfer_puts m) (xs @ ys) v)" using q(2) by (simp add: queues_def)
  qed
  have out: "ram s2 b = ram s b" if "b \<notin> queue_area s \<union> {nextDataBuffer s ..< nextDataBuffer s + (n + l)}" for b
  proof -
    have "b \<notin> queue_area s1 \<union> {nextDataBuffer s1 ..< nextDataBuffer s1 + l}" "b \<notin> queue_area s \<union> {nextDataBuffer s ..< nextDataBuffer s + n}"
      using that unfolding f(3) sel(6) Un_iff atLeastLessThan_iff by linarith+
    then have "ram s2 b = ram s1 b" "ram s1 b = ram s b" using q unfolding queues_def by blast+
    then show ?thesis by simp
  qed
  have i: "queue_inv s2 (u @ xs @ ys)" if "queue_inv s u" for u using that q by (simp add: queues_def flip: append_assoc)
  have l: "unat (queueIndex s2) = unat (queueIndex s) + length (xs @ ys)" "nextDataBuffer s2 = nextDataBuffer s + (n + l)"
      "list_all to_vram (xs @ ys)"
    using q by (simp_all add: queues_def)
  show ?thesis
    unfolding queues_def
  proof (intro conjI allI impI)
    show "scroll_frame s s2" by (rule scroll_frame_trans [OF f(1,2)])
    show "queue_inv s2 (u @ xs @ ys)" if "queue_inv s u" for u using i [OF that] .
    show "ram s2 b = ram s b" if "b \<notin> queue_area s \<union> {nextDataBuffer s ..< nextDataBuffer s + (n + l)}" for b using out [OF that] .
    show "(E OO F) v (fold (xfer_puts m) (xs @ ys) v)"
      if "\<forall>b \<in> {nextDataBuffer s ..< nextDataBuffer s + (n + l)}. m b = ram s2 b" for m v using E [OF that] .
  qed (rule l)+
qed

text \<open>Steps of one kind, for a list of columns or rows.\<close>

lemma queues_fold:
  assumes "areas_ok s" "room (k * length cs) (n * length cs) s" "P s"
    and step: "\<And>s c. areas_ok s \<Longrightarrow> room k n s \<Longrightarrow> P s \<Longrightarrow> c \<in> set cs \<Longrightarrow>
      \<exists>xs. length xs = k \<and> queues s (f c s) xs n (E c) \<and> P (f c s)"
  shows "\<exists>xs. length xs = k * length cs \<and> queues s (fold f cs s) xs (n * length cs) (chain E cs) \<and> P (fold f cs s)"
  using assms
proof (induction cs arbitrary: s)
  case Nil
  have "queues s s [] 0 (chain E [])" by (simp add: queues_def)
  then show ?case using Nil.prems(3) by (intro exI [of _ "[]"]) (simp del: chain.simps)
next
  case (Cons c cs)
  have r: "room (k + k * length cs) (n + n * length cs) s" using Cons.prems(2) by simp
  then have "room k n s" by (rule room_less) simp_all
  then obtain xs where xs: "length xs = k" "queues s (f c s) xs n (E c)" "P (f c s)"
    using Cons.prems(4) [OF Cons.prems(1) _ Cons.prems(3), of c] by auto
  have "room (k * length cs) (n * length cs) (f c s)" using room_after [of xs] r xs(1,2) by blast
  then obtain ys where ys: "length ys = k * length cs" "queues (f c s) (fold f cs (f c s)) ys (n * length cs) (chain E cs)"
      "P (fold f cs (f c s))"
    using Cons.IH [OF areas_keep [OF Cons.prems(1) xs(2)] _ xs(3)] Cons.prems(4) by auto
  have "queues s (fold f cs (f c s)) (xs @ ys) (n + n * length cs) (E c OO chain E cs)"
    by (rule queues_trans [OF Cons.prems(1) r xs(2) ys(2)])
  moreover have "E c OO chain E cs = chain E (c # cs)" by (intro ext) auto
  ultimately show ?case using xs(1) ys(1,3) by (intro exI [of _ "xs @ ys"]) (simp del: chain.simps)
qed

text \<open>A step of two transfers whose data is prepared afterwards.\<close>

lemma queue_inv_data:
  assumes "queue_inv s q" "\<And>a. a \<in> queue_area s \<Longrightarrow> m a = ram s a"
  shows "queue_inv (s\<lparr>ram := m\<rparr>) q"
proof -
  have e: "entries (dmaQueues s) q (ram s)" "length q \<le> unat (queueSize s)"
    using assms(1) by (simp_all add: queue_inv_def word_le_nat_alt)
  have "entries (dmaQueues s) q m" using e(2) by (intro entries_cong [OF e(1)] assms(2)) (auto simp: queue_area_def)
  then show ?thesis using assms(1) by (cases "queueIndexLimit s = 0") (simp_all add: queue_inv_def)
qed

lemma queue_one:
  assumes "to_vram x" "unat (queueIndex s) + 1 \<le> unat (queueSize s)"
  defines "s' \<equiv> snd (queue_xfer x s)"
  shows "queue_frame s s'" "unat (queueIndex s') = unat (queueIndex s) + 1" "nextDataBuffer s' = nextDataBuffer s"
    "queue_inv s q \<Longrightarrow> queue_inv s' (q @ [x])" "a \<notin> queue_area s \<Longrightarrow> ram s' a = ram s a"
proof -
  have x: "xfer_ok x" using assms(1) by (simp add: to_vram_def)
  have lt: "queueIndex s < queueSize s" using assms(2) by (simp add: word_less_nat_alt)
  obtain m l where e: "s' = s\<lparr>ram := m, queueTransferSize := queueTransferSize s + xfer_size x, queueIndex := queueIndex s + 1,
         queueIndexLimit := l\<rparr>"
      "\<forall>a. a \<notin> {dmaQueues s + 8 * unat (queueIndex s) ..< dmaQueues s + 8 * unat (queueIndex s) + 8} \<longrightarrow> m a = ram s a"
    using queue_xfer_eq [OF x lt] unfolding s'_def by (metis snd_conv)
  show "queue_frame s s'" unfolding s'_def by (rule queue_xfer_frame [OF x])
  show "unat (queueIndex s') = unat (queueIndex s) + 1"
    using lt unat_u16_lt [of "queueSize s"] unat_plus_small [of "queueIndex s" 1] by (simp add: e(1) word_less_nat_alt)
  show "nextDataBuffer s' = nextDataBuffer s" by (simp add: e(1))
  show "queue_inv s q \<Longrightarrow> queue_inv s' (q @ [x])"
    using queue_xfer_inv [OF _ x lt, of q "fst (queue_xfer x s)" s'] by (simp add: s'_def)
  show "a \<notin> queue_area s \<Longrightarrow> ram s' a = ram s a"
  proof -
    assume "a \<notin> queue_area s"
    then have "a \<notin> {dmaQueues s + 8 * unat (queueIndex s) ..< dmaQueues s + 8 * unat (queueIndex s) + 8}"
      using assms(2) by (auto simp: queue_area_def)
    then show ?thesis using e by simp
  qed
qed

lemma two_transfers:
  assumes a: "areas_ok s" "room 2 n s" and x: "to_vram x1" "to_vram x2"
    and s3: "s3 = snd (queue_xfer x2 (snd (queue_xfer x1 (s\<lparr>nextDataBuffer := nextDataBuffer s + n\<rparr>))))"
    and m: "\<And>a. a \<notin> {nextDataBuffer s ..< nextDataBuffer s + n} \<Longrightarrow> m a = ram s3 a"
    and E: "\<And>m' v. (\<forall>a \<in> {nextDataBuffer s ..< nextDataBuffer s + n}. m' a = m a) \<Longrightarrow> E v (xfer_puts m' x2 (xfer_puts m' x1 v))"
  shows "queues s (s3\<lparr>ram := m\<rparr>) [x1, x2] n E" "a \<notin> queue_area s \<Longrightarrow> ram s3 a = ram s a"
proof -
  let ?s1 = "s\<lparr>nextDataBuffer := nextDataBuffer s + n\<rparr>"
  define s2 where "s2 = snd (queue_xfer x1 ?s1)"
  have r: "unat (queueIndex s) + 2 \<le> unat (queueSize s)" using a(2) by (simp add: room_def)
  have "unat (queueIndex ?s1) + 1 \<le> unat (queueSize ?s1)" using r by simp
  note q1 = queue_one [OF x(1) this, folded s2_def]
  have z: "queueSize s2 = queueSize s" "queue_area s2 = queue_area s" using q1(1) by (auto simp: queue_frame_def queue_area_def)
  then have "unat (queueIndex s2) + 1 \<le> unat (queueSize s2)" using r q1(2) by simp
  note q2 = queue_one [OF x(2) this]
  have s3: "s3 = snd (queue_xfer x2 s2)" by (simp add: s3 s2_def)
  note q2 = q2 [folded s3]
  have ar: "queue_area s3 = queue_area s" using queue_frame_sel(6,8) [OF q2(1)] queue_frame_sel(8) [OF q1(1)] z by (simp add: queue_area_def)
  have "queue_area ?s1 = queue_area s" by (simp add: queue_area_def)
  then have out: "ram s3 b = ram s b" if "b \<notin> queue_area s" for b using q1(5) q2(5) z that by simp
  then show "a \<notin> queue_area s \<Longrightarrow> ram s3 a = ram s a" .
  have "scroll_frame s ?s1" unfolding scroll_frame_def
    by (intro exI [of _ "ram s"] exI [of _ "nextDataBuffer s + n"] exI [of _ "queueTransferSize s"] exI [of _ "queueIndex s"]
      exI [of _ "queueIndexLimit s"]) simp
  moreover have "queue_frame u u' \<Longrightarrow> scroll_frame u u'" for u u' :: "'a dma_st_scheme"
  proof -
    assume "queue_frame u u'"
    then obtain m t i l where "u' = u\<lparr>ram := m, queueTransferSize := t, queueIndex := i, queueIndexLimit := l\<rparr>"
      unfolding queue_frame_def by blast
    then show "scroll_frame u u'" unfolding scroll_frame_def
      by (intro exI [of _ m] exI [of _ "nextDataBuffer u"] exI [of _ t] exI [of _ i] exI [of _ l]) simp
  qed
  note this [OF q1(1)] this [OF q2(1)]
  ultimately have "scroll_frame s s3" by (blast intro: scroll_frame_trans)
  moreover have "scroll_frame s3 (s3\<lparr>ram := m\<rparr>)" unfolding scroll_frame_def
    by (intro exI [of _ m] exI [of _ "nextDataBuffer s3"] exI [of _ "queueTransferSize s3"] exI [of _ "queueIndex s3"]
      exI [of _ "queueIndexLimit s3"]) simp
  ultimately have f: "scroll_frame s (s3\<lparr>ram := m\<rparr>)" by (rule scroll_frame_trans)
  have da: "b \<notin> queue_area s" if "b \<in> {nextDataBuffer s ..< nextDataBuffer s + n}" for b
  proof -
    have "b \<in> data_area s" using that a by (auto simp: data_area_def areas_ok_def room_def)
    then show ?thesis using a(1) by (auto simp: areas_ok_def)
  qed
  have inv: "queue_inv (s3\<lparr>ram := m\<rparr>) (q @ [x1, x2])" if "queue_inv s q" for q
  proof -
    have "queue_inv ?s1 q" using that by (cases "queueIndexLimit s = 0") (simp_all add: queue_inv_def)
    then have "queue_inv s3 ((q @ [x1]) @ [x2])" using q1(4) q2(4) by blast
    moreover have "m b = ram s3 b" if "b \<in> queue_area s3" for b using that ar da [of b] by (intro m) blast
    ultimately show ?thesis using queue_inv_data [of s3 "(q @ [x1]) @ [x2]" m] by simp
  qed
  show "queues s (s3\<lparr>ram := m\<rparr>) [x1, x2] n E"
    unfolding queues_def
  proof (intro conjI allI impI)
    show "nextDataBuffer (s3\<lparr>ram := m\<rparr>) = nextDataBuffer s + n" "unat (queueIndex (s3\<lparr>ram := m\<rparr>)) = unat (queueIndex s) + length [x1, x2]"
      using q1(2,3) q2(2,3) by simp_all
    show "list_all to_vram [x1, x2]" using x by simp
    show "queue_inv (s3\<lparr>ram := m\<rparr>) (q @ [x1, x2])" if "queue_inv s q" for q using inv [OF that] .
    show "ram (s3\<lparr>ram := m\<rparr>) b = ram s b" if "b \<notin> queue_area s \<union> {nextDataBuffer s ..< nextDataBuffer s + n}" for b
      using that out [of b] m [of b] by simp
    show "E v (fold (xfer_puts m') [x1, x2] v)"
      if "\<forall>a \<in> {nextDataBuffer s ..< nextDataBuffer s + n}. m' a = ram (s3\<lparr>ram := m\<rparr>) a" for m' v using E that by simp
  qed (rule f)
qed

text \<open>Two runs of words at different cells.\<close>

lemma less_2_ex: "(\<exists>i < (2 :: nat). P i) \<longleftrightarrow> P 0 \<or> P 1"
  using less_2_cases_iff by auto

lemma puts_runs:
  fixes w :: "nat \<Rightarrow> nat \<Rightarrow> u16" and v :: "u16 \<Rightarrow> u16"
  assumes inj: "\<And>i j k l. i < (2 :: nat) \<Longrightarrow> j < 2 \<Longrightarrow> k < n \<Longrightarrow> l < n \<Longrightarrow> adr i k = adr j l \<Longrightarrow> i = j \<and> k = l"
  defines "v' \<equiv> puts (map (\<lambda>k. (adr 1 k, w 1 k)) [0 ..< n]) (puts (map (\<lambda>k. (adr 0 k, w 0 k)) [0 ..< n]) v)"
  shows "i < 2 \<Longrightarrow> k < n \<Longrightarrow> v' (adr i k) = w i k" "(\<And>i k. i < 2 \<Longrightarrow> k < n \<Longrightarrow> a \<noteq> adr i k) \<Longrightarrow> v' a = v a"
proof -
  define ws where "ws = map (\<lambda>k. (adr 0 k, w 0 k)) [0 ..< n] @ map (\<lambda>k. (adr 1 k, w 1 k)) [0 ..< n]"
  have v': "v' = puts ws v" by (simp add: v'_def ws_def)
  have mem: "(b, u) \<in> set ws \<longleftrightarrow> (\<exists>i < 2. \<exists>k < n. b = adr i k \<and> u = w i k)" for b u
    unfolding less_2_ex ws_def by auto
  show "v' (adr i k) = w i k" if "i < 2" "k < n"
    unfolding v'
  proof (rule puts_in)
    show "(adr i k, w i k) \<in> set ws" using that mem by blast
    fix u assume "(adr i k, u) \<in> set ws"
    then obtain j l where "j < 2" "l < n" "adr i k = adr j l" "u = w j l" using mem by blast
    then show "u = w i k" using inj [OF that(1) _ that(2)] by blast
  qed
  show "v' a = v a" if "\<And>i k. i < 2 \<Longrightarrow> k < n \<Longrightarrow> a \<noteq> adr i k"
    unfolding v'
  proof (rule puts_other)
    show "a \<notin> fst ` set ws"
    proof
      assume "a \<in> fst ` set ws"
      then obtain p where "p \<in> set ws" "a = fst p" by blast
      then have "(a, snd p) \<in> set ws" by simp
      then show False using mem that by blast
    qed
  qed
qed

text \<open>The two runs as they are prepared, in one piece or in two that wrap around.\<close>

lemma wrapped_runs:
  assumes a: "a < N" "w \<le> N" "2 * N \<le> p" and h: "h = N - a"
    and m': "m' = (if a + w > N
        then over2 b (b + p) (2 * (w - h)) (\<lambda>k. g 0 (2 * h + k)) (\<lambda>k. g 1 (2 * h + k)) (over2 (b + a * 2) (b + a * 2 + p) (2 * h) (g 0) (g 1) m)
        else over2 (b + a * 2) (b + a * 2 + p) (2 * w) (g 0) (g 1) m)"
  shows "i < 2 \<Longrightarrow> k < w \<Longrightarrow> j < 2 \<Longrightarrow> m' (b + i * p + (2 * ((a + k) mod N) + j)) = g i (2 * k + j)"
    "c \<notin> {b ..< b + 2 * p} \<Longrightarrow> m' c = m c"
proof -
  show "m' c = m c" if "c \<notin> {b ..< b + 2 * p}" using that a h unfolding m' over2_def by auto
  assume i: "i < 2" and k: "k < w" and j: "j < (2 :: nat)"
  have i: "i = 0 \<or> i = 1" using i by auto
  show "m' (b + i * p + (2 * ((a + k) mod N) + j)) = g i (2 * k + j)"
  proof (cases "a + k < N")
    case True
    then have e: "(a + k) mod N = a + k" by simp
    show ?thesis using i k j True a h unfolding m' over2_def e by (auto simp: algebra_simps)
  next
    case False
    then have "a + k = k - h + N" "k - h < N" using a(1,2) k h by auto
    then have e: "(a + k) mod N = k - h" by simp
    have hk: "h \<le> k" "a + w > N" using False k h a by auto
    define q where "q = 2 * (k - h) + j"
    have q: "q < 2 * (w - h)" "2 * (w - h) \<le> p" "2 * h + q = 2 * k + j" using hk k a h j by (auto simp: q_def)
    have "m' (b + i * p + q) = g i (2 * h + q)" using i hk(2) q(1,2) unfolding m' over2_def by auto
    then show ?thesis unfolding e q_def [symmetric] q(3) .
  qed
qed

text \<open>Two transfers of \<open>p\<close> words each, to the cells \<open>adr 0\<close> and \<open>adr 1\<close>.\<close>

definition strip :: "ptr \<Rightarrow> u16 \<Rightarrow> u16 \<Rightarrow> u16 \<Rightarrow> xfer" where
  "strip b to p st = \<lparr>x_loc = DMA_VRAM, x_from = byte_addr b, x_to = to, x_len = p, x_step = st\<rparr>"

lemma bank_part:
  assumes "D mod 65536 + S \<le> 65536" "D \<le> b" "b + n \<le> D + (S :: nat)"
  shows "b mod 65536 + n \<le> 65536"
proof (cases "n = 0")
  case False
  have "b = D div 65536 * 65536 + (D mod 65536 + (b - D))" using assms(2) by simp
  moreover have "D mod 65536 + (b - D) < 65536" using False assms by linarith
  ultimately have "b mod 65536 = D mod 65536 + (b - D)" by (metis mod_mult_self3 mod_less)
  then show ?thesis using assms by linarith
qed simp

lemma strip_ok:
  assumes "areas_ok s" "nextDataBuffer s \<le> b" "b + unat p \<le> dmaDataBuffer s + unat (dataBufferSize s)" "0 < p" "st < 0x100"
  shows "to_vram (strip b to p st)" "unat (byte_addr b) div 2 = b"
proof -
  have D: "dmaDataBuffer s \<le> b" "dmaDataBuffer s + unat (dataBufferSize s) \<le> 8388608"
      "dmaDataBuffer s mod 65536 + unat (dataBufferSize s) \<le> 65536"
    using assms(1,2) by (simp_all add: areas_ok_def)
  have p: "0 < unat p" using assms(4) by (simp add: word_gt_0_unat)
  then have "b < 8388608" using D(2) assms(3) by linarith
  then have u: "unat (byte_addr b) = 2 * b" by (simp add: byte_addr_def unat_of_nat del: of_nat_mult)
  then show "unat (byte_addr b) div 2 = b" by simp
  have "b mod 65536 + unat p \<le> 65536" by (rule bank_part [OF D(3,1) assms(3)])
  moreover have "2 * b mod 131072 = 2 * (b mod 65536)" using mult_mod_right [of 2 b 65536] by simp
  ultimately show "to_vram (strip b to p st)"
    using p u assms(5) \<open>b < 8388608\<close> by (simp add: to_vram_def strip_def xfer_ok_def in_bank_def)
qed

lemma two_strips:
  fixes s :: "'a dma_st_scheme"
  assumes a: "areas_ok s" "room 2 (2 * unat p) s" "0 < p" "st < 0x100"
    and adr: "\<And>k. k < unat p \<Longrightarrow> to1 + st * of_nat k = adr 0 k" "\<And>k. k < unat p \<Longrightarrow> to2 + st * of_nat k = adr 1 k"
    and inj: "\<And>i j k l. i < (2 :: nat) \<Longrightarrow> j < 2 \<Longrightarrow> k < unat p \<Longrightarrow> l < unat p \<Longrightarrow> adr i k = adr j l \<Longrightarrow> i = j \<and> k = l"
    and b: "b = nextDataBuffer s" "b' = b + unat p"
    and s3: "s3 = snd (queue_xfer (strip b' to2 p st) (snd (queue_xfer (strip b to1 p st) (s\<lparr>nextDataBuffer := b + 2 * unat p\<rparr>))))"
    and m: "\<And>a. a \<notin> {b ..< b + 2 * unat p} \<Longrightarrow> m a = ram s3 a"
    and E: "\<And>v v'. (\<And>i k. i < 2 \<Longrightarrow> k < unat p \<Longrightarrow> v' (adr i k) = m (b + i * unat p + k)) \<Longrightarrow>
      (\<And>a. (\<And>i k. i < 2 \<Longrightarrow> k < unat p \<Longrightarrow> a \<noteq> adr i k) \<Longrightarrow> v' a = v a) \<Longrightarrow> E v v'"
  shows "queues s (s3\<lparr>ram := m\<rparr>) [strip b to1 p st, strip b' to2 p st] (2 * unat p) E"
proof (rule two_transfers(1) [OF a(1,2) _ _ _ m [unfolded b(1)]])
  have r: "b + 2 * unat p \<le> dmaDataBuffer s + unat (dataBufferSize s)" using a(2) by (simp add: room_def b(1))
  note o = strip_ok(1) [OF a(1), of b p st to1] strip_ok(1) [OF a(1), of b' p st to2] strip_ok(2) [OF a(1), of b p st] strip_ok(2) [OF a(1), of b' p st]
  have o: "to_vram (strip b to1 p st)" "to_vram (strip b' to2 p st)" "unat (byte_addr b) div 2 = b" "unat (byte_addr b') div 2 = b'"
    using o r a(3,4) b by simp_all
  then show "to_vram (strip b to1 p st)" "to_vram (strip b' to2 p st)" by simp_all
  show "s3 = snd (queue_xfer (strip b' to2 p st) (snd (queue_xfer (strip b to1 p st) (s\<lparr>nextDataBuffer := nextDataBuffer s + 2 * unat p\<rparr>))))"
    unfolding s3 b(1) ..
  fix m' v assume m': "\<forall>a \<in> {nextDataBuffer s ..< nextDataBuffer s + 2 * unat p}. m' a = m a"
  define v' where "v' = xfer_puts m' (strip b' to2 p st) (xfer_puts m' (strip b to1 p st) v)"
  have e1: "map (\<lambda>k. (to1 + st * of_nat k, m' (b + k))) [0 ..< unat p] = map (\<lambda>k. (adr 0 k, m' (b + 0 * unat p + k))) [0 ..< unat p]"
    using adr(1) by simp
  have e2: "map (\<lambda>k. (to2 + st * of_nat k, m' (b' + k))) [0 ..< unat p] = map (\<lambda>k. (adr 1 k, m' (b + 1 * unat p + k))) [0 ..< unat p]"
    using adr(2) by (simp add: b(2))
  have v': "v' = puts (map (\<lambda>k. (adr 1 k, m' (b + 1 * unat p + k))) [0 ..< unat p])
      (puts (map (\<lambda>k. (adr 0 k, m' (b + 0 * unat p + k))) [0 ..< unat p]) v)"
    unfolding v'_def xfer_puts_def strip_def xfer.select_convs o(3,4) e1 e2 ..
  show "E v (xfer_puts m' (strip b' to2 p st) (xfer_puts m' (strip b to1 p st) v))"
    unfolding v'_def [symmetric]
  proof (rule E)
    fix i k assume i: "i < (2 :: nat)" "k < unat p"
    have "i = 0 \<or> i = 1" using i(1) by auto
    then have "b + i * unat p + k \<in> {nextDataBuffer s ..< nextDataBuffer s + 2 * unat p}" using i(2) by (auto simp: b(1))
    then have "m' (b + i * unat p + k) = m (b + i * unat p + k)" using m' by blast
    moreover have "v' (adr i k) = m' (b + i * unat p + k)" unfolding v' by (rule puts_runs(1) [OF inj i])
    ultimately show "v' (adr i k) = m (b + i * unat p + k)" by simp
  next
    fix a assume a: "\<And>i k. i < 2 \<Longrightarrow> k < unat p \<Longrightarrow> a \<noteq> adr i k"
    show "v' a = v a" unfolding v' by (rule puts_runs(2) [of "unat p" adr]; (rule inj | rule a); assumption)
  qed
qed

section \<open>Columns and rows\<close>

text \<open>The four tiles of a metatile: as the map has them, and as the cells of the plane show them.\<close>

definition view :: "(nat \<Rightarrow> nat \<Rightarrow> u16) \<Rightarrow> u16 \<Rightarrow> u16 \<Rightarrow> nat \<Rightarrow> nat \<Rightarrow> u16" where
  "view sh X Y = (\<lambda>i j. if i < 2 \<and> j < 2 then sh (2 * unat X + i) (2 * unat Y + j) else 0)"

definition metas :: "(nat \<Rightarrow> nat \<Rightarrow> u16) \<Rightarrow> (u16 \<Rightarrow> u16) \<Rightarrow> nat \<Rightarrow> nat \<Rightarrow> nat \<Rightarrow> nat \<Rightarrow> u16" where
  "metas cl v c r = (\<lambda>i j. if i < 2 \<and> j < 2 then v (cl (2 * c + i) (2 * r + j)) else 0)"

text \<open>
  The setting: a plane of 64 cells in width that is set up for the map, without a callback, the map
  itself outside of the areas that scrolling writes to, and blocks in a number that 16-bit
  coordinates can tell apart.
\<close>

definition scroll_ok :: "Map \<Rightarrow> 'a dma_st_scheme \<Rightarrow> bool" where
  "scroll_ok mp s \<longleftrightarrow> map_ok mp (ram s) \<and> map_shape mp \<and> wn mp \<le> 8192 \<and> hn mp \<le> 8192 \<and> m_patchCB mp = None \<and>
     m_plane mp \<noteq> WINDOW \<and> m_planeWidth mp = 64 \<and> planeWidth s = 64 \<and> m_planeHeight mp = planeHeight s \<and>
     unat (planeHeight s) \<in> {32, 64} \<and> geo_ok s \<and> areas_ok s \<and> reads mp (ram s) \<inter> (data_area s \<union> queue_area s) = {}"

lemma scroll_ok_keep:
  assumes "scroll_ok mp s" "room k n s" "queues s s' xs n E"
  shows "scroll_ok mp s'" "shown mp (ram s') = shown mp (ram s)"
proof -
  have f: "scroll_frame s s'" using assms(3) by (simp add: queues_def)
  have a: "areas_ok s" using assms(1) by (simp add: scroll_ok_def)
  have m: "ram s' a = ram s a" if "a \<in> reads mp (ram s)" for a
    using that assms(1) by (intro queues_ram [OF a assms(2,3)]) (auto simp: scroll_ok_def)
  show "shown mp (ram s') = shown mp (ram s)" by (rule same_map(5) [OF m])
  show "scroll_ok mp s'"
    using assms(1) areas_keep [OF a assms(3)] same_map_ok [OF m] same_map(6) [OF m] scroll_frame_sel [OF f]
    by (simp add: scroll_ok_def)
qed

text \<open>The map repeats, so a coordinate may wrap around in 16 bits.\<close>

lemma shown_wrap:
  assumes "map_ok mp m" "wn mp \<le> 8192" "hn mp \<le> 8192"
  shows "shown mp m (2 * (x mod 65536) + i) y = shown mp m (2 * x + i) y" "shown mp m x (2 * (y mod 65536) + i) = shown mp m x (2 * y + i)"
proof -
  have p: "unat v + 1 dvd 8192" if v: "pow2_mask v" "unat v + 1 \<le> 8192" for v
  proof -
    obtain k where k: "unat v + 1 = 2 ^ k" using mask_size [OF v(1)] by blast
    then have "(2 :: nat) ^ k \<le> 2 ^ 13" using v(2) by simp
    then have "k \<le> 13" by (rule power_le_imp_le_exp [rotated]) simp
    then have "(2 :: nat) ^ k dvd 2 ^ 13" by (rule le_imp_power_dvd)
    then show ?thesis unfolding k by simp
  qed
  have w: "wn mp dvd 8192" "hn mp dvd 8192"
    using assms p [of "m_wMask mp"] p [of "m_hMask mp"] by (simp_all add: map_ok_def wn_def hn_def)
  have e: "2 * (k mod 65536) + i = (2 * k + i) - 131072 * (k div 65536)" "131072 * (k div 65536) \<le> 2 * k + i" for k i :: nat
    by (simp_all add: modulo_nat_def algebra_simps)
  have s: "(z + 131072 * q) div 2 = z div 2 + 65536 * q" "(u + 65536 * q) mod 8 = u mod 8" "(u + 65536 * q) div 8 = u div 8 + 8192 * q"
      "(z + 131072 * q) mod 2 = z mod 2" for z u q :: nat
    using div_mult_self2 [of 2 z "65536 * q"] mod_mult_self2 [of u 8 "8192 * q"] div_mult_self2 [of 8 u "8192 * q"]
      mod_mult_self2 [of z 2 "65536 * q"] by simp_all
  have m: "(u + 8192 * q) mod n = u mod n" if "n dvd 8192" for n u q :: nat
    using that by (metis dvd_mult2 mod_add_right_eq mod_0_imp_dvd dvd_imp_mod_0 add.right_neutral)
  have x: "shown mp m (z + 131072 * q) y = shown mp m z y" "shown mp m x (z + 131072 * q) = shown mp m x z" for z q x y
    by (simp_all only: shown_def tile_at_def meta_at_def block_pos_def grid_pos_def row_pos_def s m [OF w(1)] m [OF w(2)])
  show "shown mp m (2 * (x mod 65536) + i) y = shown mp m (2 * x + i) y"
    using x(1) [of "2 * (x mod 65536) + i" "x div 65536" y] e [of x i] by simp
  show "shown mp m x (2 * (y mod 65536) + i) = shown mp m x (2 * y + i)"
    using x(2) [of x "2 * (y mod 65536) + i" "y div 65536"] e [of y i] by simp
qed

text \<open>The data of a column and of a row, as the code prepares it at \<open>b\<close>.\<close>

definition column_data :: "Map \<Rightarrow> ptr \<Rightarrow> u16 \<Rightarrow> u16 \<Rightarrow> ram \<Rightarrow> ram" where
  "column_data mp b x y m =
    (let ph = m_planeHeight mp;
         h = ROW_AHEAD;
         yAdj = y AND m_planeHeightMaskAdj mp;
         ph2 = m_planeHeightMaskAdj mp + 1;
         d = b + unat yAdj * 2
     in if unat yAdj + unat h > unat ph2 then
          (let h1 = ph2 - yAdj
           in prepareMapDataColumn mp b (b + unat ph) x (y + h1) (h - h1) (prepareMapDataColumn mp d (d + unat ph) x y h1 m))
        else prepareMapDataColumn mp d (d + unat ph) x y h m)"

definition row_data :: "Map \<Rightarrow> ptr \<Rightarrow> u16 \<Rightarrow> u16 \<Rightarrow> ram \<Rightarrow> ram" where
  "row_data mp b x y m =
    (let pw = m_planeWidth mp;
         w = COLUMN_AHEAD;
         xAdj = x AND m_planeWidthMaskAdj mp;
         pw2 = m_planeWidthMaskAdj mp + 1;
         d = b + unat xAdj * 2
     in if unat xAdj + unat w > unat pw2 then
          (let w1 = pw2 - xAdj
           in prepareMapDataRow mp b (b + unat pw) (x + w1) y (w - w1) (prepareMapDataRow mp d (d + unat pw) x y w1 m))
        else prepareMapDataRow mp d (d + unat pw) x y w m)"

lemma apart_sub:
  assumes "R \<inter> {b ..< b + 2 * p} = {}" "d + n \<le> b + p" "b \<le> d" "n \<le> p"
  shows "apart d (d + p) n R"
proof -
  have "{d ..< d + n} \<subseteq> {b ..< b + 2 * p}" "{d + p ..< d + p + n} \<subseteq> {b ..< b + 2 * p}" using assms(2,3) by auto
  moreover have "{d ..< d + n} \<inter> {d + p ..< d + p + n} = {}" using assms(4) by auto
  ultimately show ?thesis using assms(1) unfolding apart_def by blast
qed

lemma split_words:
  fixes a n w :: u16
  assumes "unat a < unat n" "unat w \<le> unat n" "unat a + unat w > unat n"
  shows "unat (n - a) = unat n - unat a" "unat (w - (n - a)) = unat w - (unat n - unat a)"
proof -
  show h: "unat (n - a) = unat n - unat a" using assms(1) by (intro unat_minus_le) (simp add: word_le_nat_alt)
  show "unat (w - (n - a)) = unat w - (unat n - unat a)" using assms h by (subst unat_minus_le) (simp_all add: word_le_nat_alt)
qed

lemma column_data_ok:
  assumes ok: "map_ok mp m" "wn mp \<le> 8192" "hn mp \<le> 8192" "m_patchCB mp = None"
    and H: "unat (m_planeHeightMaskAdj mp + 1) = H" "unat (y AND m_planeHeightMaskAdj mp) = unat y mod H" "16 \<le> H"
      "unat (m_planeHeight mp) = 2 * H"
    and R: "reads mp m \<inter> {b ..< b + 2 * (2 * H)} = {}"
  shows "i < 2 \<Longrightarrow> k < 16 \<Longrightarrow> j < 2 \<Longrightarrow>
      column_data mp b x y m (b + i * (2 * H) + (2 * ((unat y mod H + k) mod H) + j)) = shown mp m (2 * unat x + i) (2 * unat y + (2 * k + j))"
    "c \<notin> {b ..< b + 2 * (2 * H)} \<Longrightarrow> column_data mp b x y m c = m c"
proof -
  define a where "a = unat y mod H"
  define g where "g = (\<lambda>i k. shown mp m (2 * unat x + i) (2 * unat y + k))"
  have a: "a < H" using H(3) by (simp add: a_def)
  have r: "unat ROW_AHEAD = 16" by (simp add: cfg)
  let ?h = "H - a"
  have CB: "prepareMapDataColumn mp d1 d2 u w h m1 = prepareMapDataColumnCB mp d1 d2 u w h m1" for d1 d2 u w h m1
    by (simp add: prepareMapDataColumn_def ok(4))
  have "column_data mp b x y m = (if a + 16 > H
      then over2 b (b + 2 * H) (2 * (16 - ?h)) (\<lambda>k. g 0 (2 * ?h + k)) (\<lambda>k. g 1 (2 * ?h + k))
        (over2 (b + a * 2) (b + a * 2 + 2 * H) (2 * ?h) (g 0) (g 1) m)
      else over2 (b + a * 2) (b + a * 2 + 2 * H) (2 * 16) (g 0) (g 1) m)"
  proof (cases "a + 16 > H")
    case False
    have "apart (b + a * 2) (b + a * 2 + 2 * H) (2 * unat ROW_AHEAD) (reads mp m)"
      unfolding r using False H(3) by (intro apart_sub [OF R]) auto
    from columnCB_ok [OF ok(1) this, of x y] show ?thesis
      using False by (simp add: column_data_def Let_def CB H r g_def a_def)
  next
    case True
    let ?h1 = "m_planeHeightMaskAdj mp + 1 - (y AND m_planeHeightMaskAdj mp)"
    have h: "unat ?h1 = ?h" "unat (ROW_AHEAD - ?h1) = 16 - ?h"
      using split_words [of "y AND m_planeHeightMaskAdj mp" "m_planeHeightMaskAdj mp + 1" ROW_AHEAD] True a H r by (simp_all add: a_def)
    define m1 where "m1 = over2 (b + a * 2) (b + a * 2 + 2 * H) (2 * ?h) (g 0) (g 1) m"
    have a1: "apart (b + a * 2) (b + a * 2 + 2 * H) (2 * unat ?h1) (reads mp m)"
      unfolding h using a by (intro apart_sub [OF R]) auto
    then have m1: "prepareMapDataColumnCB mp (b + a * 2) (b + a * 2 + 2 * H) x y ?h1 m = m1"
      using columnCB_ok [OF ok(1) a1, of x y] by (simp add: m1_def g_def h)
    have same: "m1 c = m c" if "c \<in> reads mp m" for c unfolding m1_def by (rule over2_other [OF a1 [unfolded h] that])
    have rd: "reads mp m1 = reads mp m" by (rule same_map(6) [OF same])
    have sh: "shown mp m1 = shown mp m" by (rule same_map(5) [OF same])
    have mo: "map_ok mp m1" using same_map_ok [of mp m m1] same ok(1) by simp
    have a2: "apart b (b + 2 * H) (2 * unat (ROW_AHEAD - ?h1)) (reads mp m1)"
      unfolding h rd using a H(3) by (intro apart_sub [OF R]) auto
    have "shown mp m u (2 * unat (y + ?h1) + k) = shown mp m u (2 * unat y + (2 * ?h + k))" for u k
      using shown_wrap(2) [OF ok(1-3), of u "unat y + ?h" k] by (simp add: unat_word_ariths h add.assoc)
    then have "prepareMapDataColumnCB mp b (b + 2 * H) x (y + ?h1) (ROW_AHEAD - ?h1) m1
        = over2 b (b + 2 * H) (2 * (16 - ?h)) (\<lambda>k. g 0 (2 * ?h + k)) (\<lambda>k. g 1 (2 * ?h + k)) m1"
      using columnCB_ok [OF mo a2, of x "y + ?h1"] by (simp add: sh g_def h)
    then show ?thesis using True m1 by (simp add: column_data_def Let_def CB H r a_def [symmetric] m1_def [symmetric] del: One_nat_def)
  qed
  note w = wrapped_runs [OF a H(3) order_refl refl this]
  show "i < 2 \<Longrightarrow> k < 16 \<Longrightarrow> j < 2 \<Longrightarrow>
      column_data mp b x y m (b + i * (2 * H) + (2 * ((unat y mod H + k) mod H) + j)) = shown mp m (2 * unat x + i) (2 * unat y + (2 * k + j))"
    using w(1) unfolding g_def a_def .
  show "c \<notin> {b ..< b + 2 * (2 * H)} \<Longrightarrow> column_data mp b x y m c = m c" by (rule w(2))
qed

lemma row_data_ok:
  assumes ok: "map_ok mp m" "wn mp \<le> 8192" "hn mp \<le> 8192" "m_patchCB mp = None"
    and W: "unat (m_planeWidthMaskAdj mp + 1) = W" "unat (x AND m_planeWidthMaskAdj mp) = unat x mod W" "21 \<le> W"
      "unat (m_planeWidth mp) = 2 * W"
    and R: "reads mp m \<inter> {b ..< b + 2 * (2 * W)} = {}"
  shows "i < 2 \<Longrightarrow> k < 21 \<Longrightarrow> j < 2 \<Longrightarrow>
      row_data mp b x y m (b + i * (2 * W) + (2 * ((unat x mod W + k) mod W) + j)) = shown mp m (2 * unat x + (2 * k + j)) (2 * unat y + i)"
    "c \<notin> {b ..< b + 2 * (2 * W)} \<Longrightarrow> row_data mp b x y m c = m c"
proof -
  define a where "a = unat x mod W"
  define g where "g = (\<lambda>i k. shown mp m (2 * unat x + k) (2 * unat y + i))"
  have a: "a < W" using W(3) by (simp add: a_def)
  have r: "unat COLUMN_AHEAD = 21" by (simp add: cfg)
  let ?h = "W - a"
  have CB: "prepareMapDataRow mp d1 d2 u v w m1 = prepareMapDataRowCB mp d1 d2 u v w m1" for d1 d2 u v w m1
    by (simp add: prepareMapDataRow_def ok(4))
  have "row_data mp b x y m = (if a + 21 > W
      then over2 b (b + 2 * W) (2 * (21 - ?h)) (\<lambda>k. g 0 (2 * ?h + k)) (\<lambda>k. g 1 (2 * ?h + k))
        (over2 (b + a * 2) (b + a * 2 + 2 * W) (2 * ?h) (g 0) (g 1) m)
      else over2 (b + a * 2) (b + a * 2 + 2 * W) (2 * 21) (g 0) (g 1) m)"
  proof (cases "a + 21 > W")
    case False
    have "apart (b + a * 2) (b + a * 2 + 2 * W) (2 * unat COLUMN_AHEAD) (reads mp m)"
      unfolding r using False W(3) by (intro apart_sub [OF R]) auto
    from rowCB_ok [OF ok(1) this, of x y] show ?thesis
      using False by (simp add: row_data_def Let_def CB W r g_def a_def)
  next
    case True
    let ?h1 = "m_planeWidthMaskAdj mp + 1 - (x AND m_planeWidthMaskAdj mp)"
    have h: "unat ?h1 = ?h" "unat (COLUMN_AHEAD - ?h1) = 21 - ?h"
      using split_words [of "x AND m_planeWidthMaskAdj mp" "m_planeWidthMaskAdj mp + 1" COLUMN_AHEAD] True a W r by (simp_all add: a_def)
    define m1 where "m1 = over2 (b + a * 2) (b + a * 2 + 2 * W) (2 * ?h) (g 0) (g 1) m"
    have a1: "apart (b + a * 2) (b + a * 2 + 2 * W) (2 * unat ?h1) (reads mp m)"
      unfolding h using a by (intro apart_sub [OF R]) auto
    then have m1: "prepareMapDataRowCB mp (b + a * 2) (b + a * 2 + 2 * W) x y ?h1 m = m1"
      using rowCB_ok [OF ok(1) a1, of x y] by (simp add: m1_def g_def h)
    have same: "m1 c = m c" if "c \<in> reads mp m" for c unfolding m1_def by (rule over2_other [OF a1 [unfolded h] that])
    have rd: "reads mp m1 = reads mp m" by (rule same_map(6) [OF same])
    have sh: "shown mp m1 = shown mp m" by (rule same_map(5) [OF same])
    have mo: "map_ok mp m1" using same_map_ok [of mp m m1] same ok(1) by simp
    have a2: "apart b (b + 2 * W) (2 * unat (COLUMN_AHEAD - ?h1)) (reads mp m1)"
      unfolding h rd using a W(3) by (intro apart_sub [OF R]) auto
    have "shown mp m (2 * unat (x + ?h1) + k) v = shown mp m (2 * unat x + (2 * ?h + k)) v" for k v
      using shown_wrap(1) [OF ok(1-3), of "unat x + ?h" k v] by (simp add: unat_word_ariths h add.assoc)
    then have "prepareMapDataRowCB mp b (b + 2 * W) (x + ?h1) y (COLUMN_AHEAD - ?h1) m1
        = over2 b (b + 2 * W) (2 * (21 - ?h)) (\<lambda>k. g 0 (2 * ?h + k)) (\<lambda>k. g 1 (2 * ?h + k)) m1"
      using rowCB_ok [OF mo a2, of "x + ?h1" y] by (simp add: sh g_def h)
    then show ?thesis using True m1 by (simp add: row_data_def Let_def CB W r a_def [symmetric] m1_def [symmetric] del: One_nat_def)
  qed
  note w = wrapped_runs [OF a W(3) order_refl refl this]
  show "i < 2 \<Longrightarrow> k < 21 \<Longrightarrow> j < 2 \<Longrightarrow>
      row_data mp b x y m (b + i * (2 * W) + (2 * ((unat x mod W + k) mod W) + j)) = shown mp m (2 * unat x + (2 * k + j)) (2 * unat y + i)"
    using w(1) unfolding g_def a_def .
  show "c \<notin> {b ..< b + 2 * (2 * W)} \<Longrightarrow> row_data mp b x y m c = m c" by (rule w(2))
qed

text \<open>The size of the plane in the forms the code uses.\<close>

lemma scroll_geo:
  assumes "scroll_ok mp s" "H = unat (m_planeHeight mp) div 2"
  shows "H = 16 \<or> H = 32" "unat (m_planeHeight mp) = 2 * H"
    "unat (m_planeHeightMaskAdj mp + 1) = H" "unat (y AND m_planeHeightMaskAdj mp) = unat y mod H"
    "m_planeWidthMaskAdj mp = 31" "unat (x AND m_planeWidthMaskAdj mp) = unat x mod 32" "m_planeWidthSftAdj mp = 8"
    "pw (m_plane mp) s = 64" "ph (m_plane mp) s = 2 * H"
    "(if m_plane mp = BG_A then bga_addr s else bgb_addr s) = plane_base (m_plane mp) s" "geo_ok s"
proof -
  have sh: "2 * (unat (m_planeWidthMaskAdj mp) + 1) = 64" "2 * (unat (m_planeHeightMaskAdj mp) + 1) = unat (m_planeHeight mp)"
      "2 ^ unat (m_planeWidthSftAdj mp) = (256 :: nat)" "unat (m_planeHeight mp) \<in> {32, 64}"
    using assms(1) by (simp_all add: scroll_ok_def map_shape_def)
  show H: "H = 16 \<or> H = 32" "unat (m_planeHeight mp) = 2 * H" using sh(4) assms(2) by auto
  have w: "unat (m_planeWidthMaskAdj mp) = unat (31 :: u16)" using sh(1) by simp
  show W: "m_planeWidthMaskAdj mp = 31" by (rule unsigned_word_eqI [OF w])
  have "unat (m_planeHeightMaskAdj mp) = 15 \<and> H = 16 \<or> unat (m_planeHeightMaskAdj mp) = 31 \<and> H = 32" using sh(2) H by auto
  then have h: "m_planeHeightMaskAdj mp = 15 \<and> H = 16 \<or> m_planeHeightMaskAdj mp = 31 \<and> H = 32"
    by (auto simp: word_unat_eq_iff)
  then show "unat (m_planeHeightMaskAdj mp + 1) = H" by auto
  have m: "(15 :: u16) = mask 4" "(31 :: u16) = mask 5" by (simp_all add: mask_eq_exp_minus_1)
  have "unat (z AND 15) = unat z mod 16" "unat (z AND 31) = unat z mod 32" for z :: u16
    unfolding m unat_and_mask by simp_all
  then show "unat (y AND m_planeHeightMaskAdj mp) = unat y mod H" "unat (x AND m_planeWidthMaskAdj mp) = unat x mod 32"
    using h W by auto
  have "(2 :: nat) ^ unat (m_planeWidthSftAdj mp) = 2 ^ 8" using sh(3) by simp
  then have "unat (m_planeWidthSftAdj mp) = 8" by (rule power_inject_exp [THEN iffD1, rotated]) simp
  then have "unat (m_planeWidthSftAdj mp) = unat (8 :: u16)" by simp
  then show "m_planeWidthSftAdj mp = 8" by (rule unsigned_word_eqI)
  show "pw (m_plane mp) s = 64" "ph (m_plane mp) s = 2 * H" using assms(1) H(2)
    by (simp_all add: scroll_ok_def pw_def ph_def pwidth_def pheight_def)
  show "(if m_plane mp = BG_A then bga_addr s else bgb_addr s) = plane_base (m_plane mp) s"
    using assms(1) by (cases "m_plane mp") (simp_all add: scroll_ok_def plane_base_def)
  show "geo_ok s" using assms(1) by (simp add: scroll_ok_def)
qed

text \<open>After the transfers have been queued the map is as it was.\<close>

lemma map_after_queue:
  assumes "scroll_ok mp s" "\<And>a. a \<notin> queue_area s \<Longrightarrow> m a = ram s a" "{b ..< b + n} \<subseteq> data_area s"
  shows "map_ok mp m" "wn mp \<le> 8192" "hn mp \<le> 8192" "m_patchCB mp = None" "shown mp m = shown mp (ram s)"
    "reads mp m \<inter> {b ..< b + n} = {}"
proof -
  have same: "m a = ram s a" if "a \<in> reads mp (ram s)" for a using that assms(1) by (intro assms(2)) (auto simp: scroll_ok_def)
  show "map_ok mp m" using same_map_ok [of mp "ram s" m] same assms(1) by (simp add: scroll_ok_def)
  show "shown mp m = shown mp (ram s)" by (rule same_map(5) [OF same])
  have "reads mp m = reads mp (ram s)" by (rule same_map(6) [OF same])
  then show "reads mp m \<inter> {b ..< b + n} = {}" using assms(1,3) by (auto simp: scroll_ok_def)
qed (use assms(1) in \<open>simp_all add: scroll_ok_def\<close>)

lemma buffer_area: "areas_ok s \<Longrightarrow> room k n s \<Longrightarrow> {nextDataBuffer s ..< nextDataBuffer s + n} \<subseteq> data_area s"
  by (auto simp: areas_ok_def room_def data_area_def)

lemma word_offset: "unat (y + of_nat r :: u16) = (unat y + r) mod 65536"
  by (simp add: unat_word_ariths unat_of_nat mod_simps)

lemma setMapColumn_step:
  fixes s :: "'a dma_st_scheme"
  assumes ok: "scroll_ok mp s" and H: "H = unat (m_planeHeight mp) div 2" and r: "room 2 (4 * H) s"
    and s': "s' = setMapColumn debug mp (x AND m_planeWidthMaskAdj mp) x y s" and cl: "cl = cell (m_plane mp) s"
  shows "\<exists>xs. length xs = 2 \<and> queues s s' xs (4 * H)
    (\<lambda>v v'. col_painted 32 H (view (shown mp (ram s))) x y (metas cl v) (metas cl v'))"
proof -
  note g = scroll_geo [OF ok H]
  let ?p = "m_planeHeight mp" and ?b = "nextDataBuffer s"
  have a: "areas_ok s" using ok by (simp add: scroll_ok_def)
  define C where "C = unat x mod 32"
  define adr where "adr = (\<lambda>i k. cl (2 * C + i) k)"
  have b: "unat (?p * 2) = 4 * H" "unat ?p = 2 * H" using g(1,2) by (auto simp: unat_word_ariths)
  have ne: "?b \<noteq> NULL" using a by (simp add: areas_ok_def)
  define base where "base = plane_base (m_plane mp) s + (x AND m_planeWidthMaskAdj mp) * 4"
  define st where "st = m_planeWidth mp * 2"
  have w: "m_planeWidth mp = 64" using ok by (simp add: scroll_ok_def)
  define s3 where "s3 = snd (queue_xfer (strip (?b + unat ?p) (base + 2) ?p st)
    (snd (queue_xfer (strip ?b (base + 0) ?p st) (s\<lparr>nextDataBuffer := ?b + 2 * unat ?p\<rparr>))))"
  define m where "m = column_data mp ?b x y (ram s3)"
  have al: "DMA_allocateTemp (?p * 2) s = (?b, s\<lparr>nextDataBuffer := ?b + 2 * unat ?p\<rparr>)"
    using r b by (simp add: DMA_allocateTemp_def room_def)
  have s': "s' = s3\<lparr>ram := m\<rparr>"
    using ne by (simp add: s' setMapColumn_def al g(10) [symmetric] s3_def m_def column_data_def Let_def queue_xfer_def strip_def base_def st_def)
  have sm: "{?b ..< ?b + 2 * unat ?p} \<subseteq> data_area s" using buffer_area [OF a r] b(2) by simp
  have r': "room 2 (2 * unat ?p) s" using r b(2) by simp
  have p0: "0 < ?p" "st < 0x100" using b(2) g(1) by (auto simp: word_gt_0_unat st_def w)
  have base: "base + c + st * of_nat k = adr i k" if "i < 2" "k < unat ?p" "c = 2 * of_nat i" for i k c
  proof -
    have "x AND m_planeWidthMaskAdj mp = of_nat C" unfolding C_def g(6) [symmetric] by simp
    moreover have "(2 * C + i) mod 64 = 2 * C + i" using that(1) by (simp add: C_def)
    ultimately show ?thesis using that(2,3) b(2) by (simp add: base_def adr_def cl cell_def g(8,9) st_def w algebra_simps)
  qed
  have inj: "i = j \<and> k = l" if "i < 2" "j < 2" "k < unat ?p" "l < unat ?p" "adr i k = adr j l" for i j k l
  proof -
    have "(2 * C + i) mod 64 = (2 * C + j) mod 64" "k mod (2 * H) = l mod (2 * H)"
      using cell_inj [OF g(11) that(5) [unfolded adr_def cl]] by (simp_all add: g(8,9))
    moreover have "2 * C + i < 64" "2 * C + j < 64" using that(1,2) by (simp_all add: C_def)
    ultimately show ?thesis using that(3,4) b(2) by simp
  qed
  have strips: "to_vram (strip ?b (base + 0) ?p st)" "to_vram (strip (?b + unat ?p) (base + 2) ?p st)"
    using r' p0 by (auto intro!: strip_ok(1) [OF a] simp: room_def)
  have s3: "s3 = snd (queue_xfer (strip (?b + unat ?p) (base + 2) ?p st) (snd (queue_xfer (strip ?b (base + 0) ?p st)
      (s\<lparr>nextDataBuffer := nextDataBuffer s + 2 * unat ?p\<rparr>))))" by (simp add: s3_def)
  have q: "ram s3 c = ram s c" if "c \<notin> queue_area s" for c
    by (rule two_transfers(2) [OF a r' strips s3 refl _ that, of "\<lambda>_ _. True"]) simp
  have m0: "map_ok mp (ram s3)" "wn mp \<le> 8192" "hn mp \<le> 8192" "m_patchCB mp = None" "shown mp (ram s3) = shown mp (ram s)"
      "reads mp (ram s3) \<inter> {?b ..< ?b + 2 * unat ?p} = {}"
    by (rule map_after_queue [OF ok _ sm], erule q)+
  have H16: "16 \<le> H" using g(1) by auto
  have R: "reads mp (ram s3) \<inter> {?b ..< ?b + 2 * (2 * H)} = {}" using m0(6) b(2) by simp
  note cd = column_data_ok [where x = x and y = y, OF m0(1-4) g(3,4) H16 g(2) R, folded m_def]
  have H65536: "H dvd 65536" using g(1) by auto
  have "queues s (s3\<lparr>ram := m\<rparr>) [strip ?b (base + 0) ?p st, strip (?b + unat ?p) (base + 2) ?p st] (2 * unat ?p)
    (\<lambda>v v'. col_painted 32 H (view (shown mp (ram s))) x y (metas cl v) (metas cl v'))"
  proof (rule two_strips [OF a r' p0 _ _ inj refl refl s3_def])
    show "base + 0 + st * of_nat k = adr 0 k" if "k < unat ?p" for k using base [of 0 k 0] that by simp
    show "base + 2 + st * of_nat k = adr 1 k" if "k < unat ?p" for k using base [of 1 k 2] that by simp
    show "m c = ram s3 c" if "c \<notin> {?b ..< ?b + 2 * unat ?p}" for c using cd(2) [of c] that b(2) by simp
    fix v v' assume new: "\<And>i k. i < 2 \<Longrightarrow> k < unat ?p \<Longrightarrow> v' (adr i k) = m (?b + i * unat ?p + k)"
      and old: "\<And>c. (\<And>i k. i < 2 \<Longrightarrow> k < unat ?p \<Longrightarrow> c \<noteq> adr i k) \<Longrightarrow> v' c = v c"
    have "v' (cl (2 * C + i) (2 * (unat (y + of_nat r) mod H) + j)) = shown mp (ram s) (2 * unat x + i) (2 * unat (y + of_nat r) + j)"
      if "i < 2" "j < 2" "r < 16" for i j r
    proof -
      let ?R = "(unat y mod H + r) mod H"
      have e: "unat (y + of_nat r) mod H = ?R" using mod_offset [OF H65536, of y r] by (simp add: mod_simps)
      have "?R < H" using H16 by simp
      then have "2 * ?R + j < unat ?p" using that(2) b(2) by simp
      then have "v' (cl (2 * C + i) (2 * ?R + j)) = m (?b + i * (2 * H) + (2 * ?R + j))"
        using new [OF that(1)] b(2) by (simp add: adr_def)
      also have "\<dots> = shown mp (ram s) (2 * unat x + i) (2 * unat y + (2 * r + j))" using cd(1) [OF that(1,3,2)] m0(5) by simp
      also have "\<dots> = shown mp (ram s) (2 * unat x + i) (2 * unat (y + of_nat r) + j)"
        unfolding word_offset [of y r] shown_wrap(2) [OF m0(1-3), unfolded m0(5)] by (simp only: distrib_left add.assoc)
      finally show ?thesis unfolding e .
    qed
    moreover have "v' (cl (2 * c + i) (2 * k + j)) = v (cl (2 * c + i) (2 * k + j))"
      if "c < 32" "k < H" "c \<noteq> C" "i < 2" "j < 2" for c k i j
    proof (rule old)
      fix i' k' assume "i' < (2 :: nat)" "k' < unat ?p"
      have "2 * c + i < 64" "2 * C + i' < 64" "2 * c + i \<noteq> 2 * C + i'" using that \<open>i' < 2\<close> by (auto simp: C_def)
      then show "cl (2 * c + i) (2 * k + j) \<noteq> adr i' k'"
        using cell_inj(1) [OF g(11), of "m_plane mp" "2 * c + i" "2 * k + j" "2 * C + i'" k'] by (auto simp: adr_def cl g(8))
    qed
    ultimately show "col_painted 32 H (view (shown mp (ram s))) x y (metas cl v) (metas cl v')"
      unfolding col_painted_def C_def [symmetric] by (simp add: metas_def view_def fun_eq_iff)
  qed
  then show ?thesis unfolding s' using b(2) by (intro exI [of _ "[strip ?b (base + 0) ?p st, strip (?b + unat ?p) (base + 2) ?p st]"]) simp
qed

lemma setMapRow_step:
  fixes s :: "'a dma_st_scheme"
  assumes ok: "scroll_ok mp s" and H: "H = unat (m_planeHeight mp) div 2" and r: "room 2 128 s"
    and s': "s' = setMapRow debug mp (y AND m_planeHeightMaskAdj mp) x y s" and cl: "cl = cell (m_plane mp) s"
  shows "\<exists>xs. length xs = 2 \<and> queues s s' xs 128
    (\<lambda>v v'. row_painted 32 H (view (shown mp (ram s))) x y (metas cl v) (metas cl v'))"
proof -
  note g = scroll_geo [OF ok H]
  let ?p = "m_planeWidth mp" and ?b = "nextDataBuffer s"
  have a: "areas_ok s" using ok by (simp add: scroll_ok_def)
  define R where "R = unat y mod H"
  define adr where "adr = (\<lambda>i k. cl k (2 * R + i))"
  have w: "m_planeWidth mp = 64" using ok by (simp add: scroll_ok_def)
  have b: "unat (?p * 2) = 128" "unat ?p = 2 * 32" by (simp_all add: w)
  have ne: "?b \<noteq> NULL" using a by (simp add: areas_ok_def)
  define base where "base = plane_base (m_plane mp) s + push_bit (unat (m_planeWidthSftAdj mp)) (y AND m_planeHeightMaskAdj mp)"
  define s3 where "s3 = snd (queue_xfer (strip (?b + unat ?p) (base + ?p * 2) ?p 2)
    (snd (queue_xfer (strip ?b (base + ?p * 0) ?p 2) (s\<lparr>nextDataBuffer := ?b + 2 * unat ?p\<rparr>))))"
  define m where "m = row_data mp ?b x y (ram s3)"
  have al: "DMA_allocateTemp (?p * 2) s = (?b, s\<lparr>nextDataBuffer := ?b + 2 * unat ?p\<rparr>)"
    using r b by (simp add: DMA_allocateTemp_def room_def)
  have s': "s' = s3\<lparr>ram := m\<rparr>"
    using ne by (simp add: s' setMapRow_def al g(10) [symmetric] s3_def m_def row_data_def Let_def queue_xfer_def strip_def base_def)
  have sm: "{?b ..< ?b + 2 * unat ?p} \<subseteq> data_area s" using buffer_area [OF a r] b(2) by simp
  have r': "room 2 (2 * unat ?p) s" using r b(2) by simp
  have p0: "0 < ?p" "(2 :: u16) < 0x100" by (simp_all add: w)
  have H0: "0 < H" using g(1) by auto
  have base: "base + c + 2 * of_nat k = adr i k" if "i < 2" "k < unat ?p" "c = 128 * of_nat i" for i k c
  proof -
    have "y AND m_planeHeightMaskAdj mp = of_nat R" unfolding R_def g(4) [symmetric] by simp
    moreover have "(2 * R + i) mod (2 * H) = 2 * R + i" using that(1) mod_less_divisor [OF H0, of "unat y"] by (simp add: R_def)
    moreover have "unat (m_planeWidthSftAdj mp) = 8" by (simp add: g(7))
    ultimately show ?thesis using that(2,3) b(2) by (simp add: base_def adr_def cl cell_def g(8,9) shift_of_nat algebra_simps)
  qed
  have inj: "i = j \<and> k = l" if "i < 2" "j < 2" "k < unat ?p" "l < unat ?p" "adr i k = adr j l" for i j k l
  proof -
    have "k mod 64 = l mod 64" "(2 * R + i) mod (2 * H) = (2 * R + j) mod (2 * H)"
      using cell_inj [OF g(11) that(5) [unfolded adr_def cl]] by (simp_all add: g(8,9))
    moreover have "2 * R + i < 2 * H" "2 * R + j < 2 * H" using that(1,2) mod_less_divisor [OF H0, of "unat y"] by (simp_all add: R_def)
    ultimately show ?thesis using that(3,4) b(2) by simp
  qed
  have strips: "to_vram (strip ?b (base + ?p * 0) ?p 2)" "to_vram (strip (?b + unat ?p) (base + ?p * 2) ?p 2)"
    using r' p0 by (auto intro!: strip_ok(1) [OF a] simp: room_def)
  have s3: "s3 = snd (queue_xfer (strip (?b + unat ?p) (base + ?p * 2) ?p 2) (snd (queue_xfer (strip ?b (base + ?p * 0) ?p 2)
      (s\<lparr>nextDataBuffer := nextDataBuffer s + 2 * unat ?p\<rparr>))))" by (simp add: s3_def)
  have q: "ram s3 c = ram s c" if "c \<notin> queue_area s" for c
    by (rule two_transfers(2) [OF a r' strips s3 refl _ that, of "\<lambda>_ _. True"]) simp
  have m0: "map_ok mp (ram s3)" "wn mp \<le> 8192" "hn mp \<le> 8192" "m_patchCB mp = None" "shown mp (ram s3) = shown mp (ram s)"
      "reads mp (ram s3) \<inter> {?b ..< ?b + 2 * unat ?p} = {}"
    by (rule map_after_queue [OF ok _ sm], erule q)+
  have W: "unat (m_planeWidthMaskAdj mp + 1) = 32" by (simp add: g(5))
  have rd: "reads mp (ram s3) \<inter> {?b ..< ?b + 2 * (2 * 32)} = {}" using m0(6) b(2) by simp
  note cd = row_data_ok [where x = x and y = y, OF m0(1-4) W g(6) _ b(2) rd, folded m_def, simplified]
  have "queues s (s3\<lparr>ram := m\<rparr>) [strip ?b (base + ?p * 0) ?p 2, strip (?b + unat ?p) (base + ?p * 2) ?p 2] (2 * unat ?p)
    (\<lambda>v v'. row_painted 32 H (view (shown mp (ram s))) x y (metas cl v) (metas cl v'))"
  proof (rule two_strips [OF a r' p0 _ _ inj refl refl s3_def])
    show "base + ?p * 0 + 2 * of_nat k = adr 0 k" if "k < unat ?p" for k using base [of 0 k 0] that by simp
    show "base + ?p * 2 + 2 * of_nat k = adr 1 k" if "k < unat ?p" for k using base [of 1 k 128] that by (simp add: w)
    show "m c = ram s3 c" if "c \<notin> {?b ..< ?b + 2 * unat ?p}" for c using cd(2) [of c] that b(2) by simp
    fix v v' assume new: "\<And>i k. i < 2 \<Longrightarrow> k < unat ?p \<Longrightarrow> v' (adr i k) = m (?b + i * unat ?p + k)"
      and old: "\<And>c. (\<And>i k. i < 2 \<Longrightarrow> k < unat ?p \<Longrightarrow> c \<noteq> adr i k) \<Longrightarrow> v' c = v c"
    have "v' (cl (2 * (unat (x + of_nat c) mod 32) + j) (2 * R + i)) = shown mp (ram s) (2 * unat (x + of_nat c) + j) (2 * unat y + i)"
      if "i < 2" "j < 2" "c < 21" for i j c
    proof -
      let ?C = "(unat x mod 32 + c) mod 32"
      have e: "unat (x + of_nat c) mod 32 = ?C" using mod_offset [of 32 x c] by (simp add: mod_simps)
      have "2 * ?C + j < unat ?p" using that(2) b(2) mod_less_divisor [of 32 "unat x mod 32 + c"] by simp
      then have "v' (cl (2 * ?C + j) (2 * R + i)) = m (?b + i * 64 + (2 * ?C + j))"
        using new [OF that(1)] b(2) by (simp add: adr_def)
      also have "\<dots> = shown mp (ram s) (2 * unat x + (2 * c + j)) (2 * unat y + i)" using cd(1) [OF that(1,3,2)] m0(5) by (simp add: mult.commute)
      also have "\<dots> = shown mp (ram s) (2 * unat (x + of_nat c) + j) (2 * unat y + i)"
        unfolding word_offset [of x c] shown_wrap(1) [OF m0(1-3), unfolded m0(5)] by (simp only: distrib_left add.assoc)
      finally show ?thesis unfolding e .
    qed
    moreover have "v' (cl (2 * c + i) (2 * k + j)) = v (cl (2 * c + i) (2 * k + j))"
      if "c < 32" "k < H" "k \<noteq> R" "i < 2" "j < 2" for c k i j
    proof (rule old)
      fix i' k' assume "i' < (2 :: nat)" "k' < unat ?p"
      have "R < H" using H0 by (simp add: R_def)
      then have "2 * k + j < 2 * H" "2 * R + i' < 2 * H" "2 * k + j \<noteq> 2 * R + i'" using that \<open>i' < 2\<close> by auto
      then show "cl (2 * c + i) (2 * k + j) \<noteq> adr i' k'"
        using cell_inj(2) [OF g(11), of "m_plane mp" "2 * c + i" "2 * k + j" k' "2 * R + i'"] by (auto simp: adr_def cl g(9))
    qed
    ultimately show "row_painted 32 H (view (shown mp (ram s))) x y (metas cl v) (metas cl v')"
      unfolding row_painted_def R_def [symmetric] by (simp add: metas_def view_def fun_eq_iff)
  qed
  then show ?thesis unfolding s' using b(2) by (intro exI [of _ "[strip ?b (base + ?p * 0) ?p 2, strip (?b + unat ?p) (base + ?p * 2) ?p 2]"]) simp
qed

section \<open>The update of the map\<close>

lemma queues_mono: "queues s s' xs n E \<Longrightarrow> (\<And>v v'. E v v' \<Longrightarrow> F v v') \<Longrightarrow> queues s s' xs n F"
  unfolding queues_def by blast

lemma chain_map: "chain (\<lambda>c v v'. R c (f v) (f v')) cs v v' \<Longrightarrow> chain R cs (f v) (f v')"
  by (induction cs arbitrary: v) auto

lemma new_length: "length (new_columns dx dy) \<le> 21" "length (new_rows dx dy) \<le> 16"
  by (auto simp: new_columns_def new_rows_def edge_def Let_def)

lemma columns_step:
  fixes s :: "'a dma_st_scheme"
  assumes "scroll_ok mp s" "H = unat (m_planeHeight mp) div 2" "room (2 * length cs) (4 * H * length cs) s"
    and cl: "cl = cell (m_plane mp) s" and sh: "sh = shown mp (ram s)"
  shows "\<exists>xs. length xs = 2 * length cs \<and>
    queues s (fold (put_column debug mp X Y) cs s) xs (4 * H * length cs)
      (\<lambda>v v'. chain (\<lambda>c. col_painted 32 H (view sh) (X + of_nat c) Y) cs (metas cl v) (metas cl v'))"
proof -
  let ?P = "\<lambda>s'. scroll_ok mp s' \<and> shown mp (ram s') = sh \<and> cell (m_plane mp) s' = cl"
  let ?E = "\<lambda>c v v'. col_painted 32 H (view sh) (X + of_nat c) Y (metas cl v) (metas cl v')"
  have "\<exists>xs. length xs = 2 \<and> queues u (put_column debug mp X Y c u) xs (4 * H) (?E c) \<and> ?P (put_column debug mp X Y c u)"
    if u: "room 2 (4 * H) u" "?P u" for u :: "'a dma_st_scheme" and c
  proof -
    obtain xs where x: "length xs = 2" "queues u (put_column debug mp X Y c u) xs (4 * H) (?E c)"
      using setMapColumn_step [of mp u H, OF _ assms(2) u(1) put_column_def] u(2) by blast
    then show ?thesis
      using scroll_ok_keep [OF _ u(1) x(2)] u(2) scroll_frame_sel(7) [of u "put_column debug mp X Y c u" "m_plane mp"]
      by (auto simp: queues_def)
  qed
  then have "\<exists>xs. length xs = 2 * length cs \<and> queues s (fold (put_column debug mp X Y) cs s) xs (4 * H * length cs) (chain ?E cs)
      \<and> ?P (fold (put_column debug mp X Y) cs s)"
    using assms by (intro queues_fold) (simp_all add: scroll_ok_def)
  then obtain xs where "length xs = 2 * length cs" "queues s (fold (put_column debug mp X Y) cs s) xs (4 * H * length cs) (chain ?E cs)"
    by blast
  moreover from this(2) have "queues s (fold (put_column debug mp X Y) cs s) xs (4 * H * length cs)
      (\<lambda>v v'. chain (\<lambda>c. col_painted 32 H (view sh) (X + of_nat c) Y) cs (metas cl v) (metas cl v'))"
    by (rule queues_mono) (erule chain_map)
  ultimately show ?thesis by blast
qed

lemma window_rows_step:
  fixes s :: "'a dma_st_scheme"
  assumes "scroll_ok mp s" "H = unat (m_planeHeight mp) div 2" "room (2 * length rs) (128 * length rs) s"
    and cl: "cl = cell (m_plane mp) s" and sh: "sh = shown mp (ram s)"
  shows "\<exists>xs. length xs = 2 * length rs \<and>
    queues s (fold (put_row debug mp X Y) rs s) xs (128 * length rs)
      (\<lambda>v v'. chain (\<lambda>r. row_painted 32 H (view sh) X (Y + of_nat r)) rs (metas cl v) (metas cl v'))"
proof -
  let ?P = "\<lambda>s'. scroll_ok mp s' \<and> shown mp (ram s') = sh \<and> cell (m_plane mp) s' = cl"
  let ?E = "\<lambda>r v v'. row_painted 32 H (view sh) X (Y + of_nat r) (metas cl v) (metas cl v')"
  have "\<exists>xs. length xs = 2 \<and> queues u (put_row debug mp X Y r u) xs 128 (?E r) \<and> ?P (put_row debug mp X Y r u)"
    if u: "room 2 128 u" "?P u" for u :: "'a dma_st_scheme" and r
  proof -
    obtain xs where x: "length xs = 2" "queues u (put_row debug mp X Y r u) xs 128 (?E r)"
      using setMapRow_step [of mp u H, OF _ assms(2) u(1) put_row_def] u(2) by blast
    then show ?thesis
      using scroll_ok_keep [OF _ u(1) x(2)] u(2) scroll_frame_sel(7) [of u "put_row debug mp X Y r u" "m_plane mp"]
      by (auto simp: queues_def)
  qed
  then have "\<exists>xs. length xs = 2 * length rs \<and> queues s (fold (put_row debug mp X Y) rs s) xs (128 * length rs) (chain ?E rs)
      \<and> ?P (fold (put_row debug mp X Y) rs s)"
    using assms by (intro queues_fold) (simp_all add: scroll_ok_def)
  then obtain xs where "length xs = 2 * length rs" "queues s (fold (put_row debug mp X Y) rs s) xs (128 * length rs) (chain ?E rs)"
    by blast
  moreover from this(2) have "queues s (fold (put_row debug mp X Y) rs s) xs (128 * length rs)
      (\<lambda>v v'. chain (\<lambda>r. row_painted 32 H (view sh) X (Y + of_nat r)) rs (metas cl v) (metas cl v'))"
    by (rule queues_mono) (erule chain_map)
  ultimately show ?thesis by blast
qed

text \<open>
  The whole update: it queues two transfers for each new column and row, and these make the window
  at the new position show the map, if the window at the old one did or nothing of it is left.
\<close>

lemma updateMap_ok:
  fixes s :: "'a dma_st_scheme"
  assumes ok: "scroll_ok mp s" and H: "H = unat (m_planeHeight mp) div 2" and r: "room 74 (84 * H + 2048) s"
    and cl: "cl = cell (m_plane mp) s" and sh: "sh = shown mp (ram s)"
    and u: "updateMap debug mp xt yt s = (mp', s')"
  shows "mp' = mp\<lparr>m_lastXT := xt, m_lastYT := yt\<rparr>"
    "\<exists>xs n. room (length xs) n s \<and> queues s s' xs n (\<lambda>v v'.
      (\<bar>sint (xt - m_lastXT mp)\<bar> < 21 \<longrightarrow> \<bar>sint (yt - m_lastYT mp)\<bar> < 16 \<longrightarrow>
        window 32 H (view sh) (m_lastXT mp) (m_lastYT mp) (metas cl v)) \<longrightarrow>
      window 32 H (view sh) xt yt (metas cl v'))"
proof -
  define dx where "dx = xt - m_lastXT mp"
  define dy where "dy = yt - m_lastYT mp"
  define cs where "cs = new_columns dx dy"
  define rs where "rs = new_rows dx dy"
  define s1 where "s1 = fold (put_column debug mp xt yt) cs s"
  have e: "mp' = mp\<lparr>m_lastXT := xt, m_lastYT := yt\<rparr>" "s' = fold (put_row debug mp xt yt) rs s1"
    using u unfolding updateMap_plan by (simp_all add: s1_def cs_def rs_def dx_def dy_def)
  then show "mp' = mp\<lparr>m_lastXT := xt, m_lastYT := yt\<rparr>" by simp
  have a: "areas_ok s" using ok by (simp add: scroll_ok_def)
  have l: "length cs \<le> 21" "length rs \<le> 16" using new_length by (simp_all add: cs_def rs_def)
  have "4 * H * length cs \<le> 4 * H * 21" using l(1) by (intro mult_le_mono) simp_all
  then have r': "room (2 * length cs + 2 * length rs) (4 * H * length cs + 128 * length rs) s" using l by (intro room_less [OF r]) linarith+
  then have rc: "room (2 * length cs) (4 * H * length cs) s" by (rule room_less) simp_all
  obtain xs where xs: "length xs = 2 * length cs" "queues s s1 xs (4 * H * length cs)
      (\<lambda>v v'. chain (\<lambda>c. col_painted 32 H (view sh) (xt + of_nat c) yt) cs (metas cl v) (metas cl v'))"
    using columns_step [OF ok H rc cl sh, of debug xt yt] unfolding s1_def by blast
  have f: "scroll_frame s s1" using xs(2) by (simp add: queues_def)
  have cl1: "cl = cell (m_plane mp) s1" "sh = shown mp (ram s1)"
    using scroll_frame_sel(7) [OF f] scroll_ok_keep(2) [OF ok rc xs(2)] cl sh by simp_all
  have rr: "room (2 * length rs) (128 * length rs) s1" using room_after [OF _ xs(2)] r' xs(1) by simp
  obtain ys where ys: "length ys = 2 * length rs" "queues s1 s' ys (128 * length rs)
      (\<lambda>v v'. chain (\<lambda>r. row_painted 32 H (view sh) xt (yt + of_nat r)) rs (metas cl v) (metas cl v'))"
    using window_rows_step [OF scroll_ok_keep(1) [OF ok rc xs(2)] H rr cl1, of debug xt yt] unfolding e(2) by blast
  have "window 32 H (view sh) xt yt (metas cl v')"
    if c: "chain (\<lambda>c. col_painted 32 H (view sh) (xt + of_nat c) yt) cs (metas cl v) (metas cl w)"
      and d: "chain (\<lambda>r. row_painted 32 H (view sh) xt (yt + of_nat r)) rs (metas cl w) (metas cl v')"
      and old: "\<bar>sint (xt - m_lastXT mp)\<bar> < 21 \<longrightarrow> \<bar>sint (yt - m_lastYT mp)\<bar> < 16 \<longrightarrow>
        window 32 H (view sh) (m_lastXT mp) (m_lastYT mp) (metas cl v)" for v v' w
  proof -
    have x: "m_lastXT mp + dx = xt" "m_lastYT mp + dy = yt" by (simp_all add: dx_def dy_def)
    show ?thesis
      using scroll_geo(1) [OF ok H] c d old
        low.move [of "view sh" "m_lastXT mp" dx "m_lastYT mp" dy "metas cl v" "metas cl w" "metas cl v'"]
        high.move [of "view sh" "m_lastXT mp" dx "m_lastYT mp" dy "metas cl v" "metas cl w" "metas cl v'"]
      unfolding x cs_def rs_def dx_def [symmetric] dy_def [symmetric] by blast
  qed
  note w = this
  have q: "queues s s' (xs @ ys) (4 * H * length cs + 128 * length rs)
      ((\<lambda>v v'. chain (\<lambda>c. col_painted 32 H (view sh) (xt + of_nat c) yt) cs (metas cl v) (metas cl v')) OO
       (\<lambda>v v'. chain (\<lambda>r. row_painted 32 H (view sh) xt (yt + of_nat r)) rs (metas cl v) (metas cl v')))"
    by (rule queues_trans [OF a r' xs(2) ys(2)])
  have "queues s s' (xs @ ys) (4 * H * length cs + 128 * length rs) (\<lambda>v v'.
      (\<bar>sint (xt - m_lastXT mp)\<bar> < 21 \<longrightarrow> \<bar>sint (yt - m_lastYT mp)\<bar> < 16 \<longrightarrow>
        window 32 H (view sh) (m_lastXT mp) (m_lastYT mp) (metas cl v)) \<longrightarrow>
      window 32 H (view sh) xt yt (metas cl v'))"
  proof (rule queues_mono [OF q], rule impI, erule relcomppE)
    fix v v' z
    assume "\<bar>sint (xt - m_lastXT mp)\<bar> < 21 \<longrightarrow> \<bar>sint (yt - m_lastYT mp)\<bar> < 16 \<longrightarrow>
        window 32 H (view sh) (m_lastXT mp) (m_lastYT mp) (metas cl v)"
      and "chain (\<lambda>c. col_painted 32 H (view sh) (xt + of_nat c) yt) cs (metas cl v) (metas cl z)"
      and "chain (\<lambda>r. row_painted 32 H (view sh) xt (yt + of_nat r)) rs (metas cl z) (metas cl v')"
    then show "window 32 H (view sh) xt yt (metas cl v')" by (rule w [rotated 2])
  qed
  moreover have "room (length (xs @ ys)) (4 * H * length cs + 128 * length rs) s" using r' xs(1) ys(1) by simp
  ultimately show "\<exists>xs n. room (length xs) n s \<and> queues s s' xs n (\<lambda>v v'.
      (\<bar>sint (xt - m_lastXT mp)\<bar> < 21 \<longrightarrow> \<bar>sint (yt - m_lastYT mp)\<bar> < 16 \<longrightarrow>
        window 32 H (view sh) (m_lastXT mp) (m_lastYT mp) (metas cl v)) \<longrightarrow>
      window 32 H (view sh) xt yt (metas cl v'))"
    by (intro exI conjI)
qed

section \<open>Frames\<close>

text \<open>
  A frame: a call of \<open>MAP_scrollToEx\<close>, and the flush of the queue in the vertical blank, with what the
  chip then does to the video memory \<open>v\<close>.
\<close>

definition frame :: "bool \<Rightarrow> u32 \<times> u32 \<times> bool \<Rightarrow> Map \<times> 'a bg_st_scheme \<times> (u16 \<Rightarrow> u16) \<Rightarrow> Map \<times> 'a bg_st_scheme \<times> (u16 \<Rightarrow> u16)" where
  "frame debug c w = (case (c, w) of ((x, y, force), (mp, s, v)) \<Rightarrow>
     (let (mp', s1) = MAP_scrollToEx debug mp x y force s;
          s2 = DMA_flushQueue s1
      in (mp', s2, fold (dma_puts (ram s2)) (drop (length (dmas (chip_of s))) (dmas (chip_of s2))) v)))"

definition scroll_index :: "Map \<Rightarrow> nat" where
  "scroll_index mp = (if m_plane mp = BG_B then 1 else 0)"

text \<open>
  The state between two frames: an empty queue, room for the largest update, scrolling by planes.
  \<open>shows_map\<close> is the invariant; \<open>sh\<close> and \<open>cl\<close> are the tiles of the map and the cells of the plane.
\<close>

definition ready :: "Map \<Rightarrow> 'a bg_st_scheme \<Rightarrow> bool" where
  "ready mp s \<longleftrightarrow> queue_inv s [] \<and> nextDataBuffer s = dmaDataBuffer s \<and> 74 \<le> unat (queueSize s) \<and>
     42 * unat (m_planeHeight mp) + 2048 \<le> unat (dataBufferSize s) \<and> \<not> DMA_getIgnoreOverCapacity s \<and>
     VDP_getHorizontalScrollingMode s = HSCROLL_PLANE \<and> VDP_getVerticalScrollingMode s = VSCROLL_PLANE"

definition shows_map :: "(nat \<Rightarrow> nat \<Rightarrow> u16) \<Rightarrow> (nat \<Rightarrow> nat \<Rightarrow> u16) \<Rightarrow> nat \<Rightarrow> Map \<times> 'a bg_st_scheme \<times> (u16 \<Rightarrow> u16) \<Rightarrow> bool" where
  "shows_map sh cl H w = (case w of (mp, s, v) \<Rightarrow>
     scroll_ok mp s \<and> ready mp s \<and> H = unat (m_planeHeight mp) div 2 \<and> cell (m_plane mp) s = cl \<and> shown mp (ram s) = sh \<and>
     (\<not> m_firstUpdate mp \<longrightarrow> window 32 H (view sh) (m_lastXT mp) (m_lastYT mp) (metas cl v) \<and>
        hscrolls s (scroll_index mp) = ucast (- m_posX mp) \<and> vscrolls s (scroll_index mp) = ucast (m_posY mp)))"

text \<open>Fields of the map that the decoding does not use.\<close>

lemma map_position:
  fixes mp :: Map
  assumes mp': "mp' = mp\<lparr>m_firstUpdate := f, m_posX := px, m_posY := py, m_lastXT := lx, m_lastYT := ly\<rparr>"
  shows "scroll_ok mp' s = scroll_ok mp s" "shown mp' = shown mp" "ready mp' s = ready mp s" "scroll_index mp' = scroll_index mp"
proof -
  have f: "row_pos mp' = row_pos mp" "mti_of mp' = mti_of mp" "bi_of mp' = bi_of mp" "wn mp' = wn mp" "hn mp' = hn mp"
    by (simp_all add: fun_eq_iff mp' row_pos_def mti_of_def bi_of_def wn_def hn_def)
  have e: "m_metaTiles mp' = m_metaTiles mp" "m_blocks mp' = m_blocks mp" "m_blockIndexes mp' = m_blockIndexes mp" "m_blockRowOffsets mp' = m_blockRowOffsets mp" "m_baseTile mp' = m_baseTile mp" "m_wMask mp' = m_wMask mp" "m_hMask mp' = m_hMask mp" "m_columnCB mp' = m_columnCB mp" "m_rowCB mp' = m_rowCB mp"
      "m_rectCB mp' = m_rectCB mp" "m_metaTileCB mp' = m_metaTileCB mp" "m_patchCB mp' = m_patchCB mp" "m_plane mp' = m_plane mp" "m_planeWidth mp' = m_planeWidth mp" "m_planeHeight mp' = m_planeHeight mp" "m_planeWidthMaskAdj mp' = m_planeWidthMaskAdj mp" "m_planeHeightMaskAdj mp' = m_planeHeightMaskAdj mp" "m_planeWidthSftAdj mp' = m_planeWidthSftAdj mp"
    by (simp_all add: mp')
  have g: "grid_pos mp' = grid_pos mp" by (intro ext) (simp add: grid_pos_def f e)
  have b: "block_pos mp' = block_pos mp" by (intro ext) (simp add: block_pos_def g f e)
  have m: "meta_at mp' = meta_at mp" by (intro ext) (simp add: meta_at_def b f e)
  have t: "tile_at mp' = tile_at mp" by (intro ext) (simp add: tile_at_def m e)
  show "shown mp' = shown mp" by (intro ext) (simp add: shown_def t e)
  have r: "reads mp' = reads mp" by (intro ext) (simp add: reads_def f g b m e)
  have o: "map_ok mp' n = map_ok mp n" for n by (simp add: map_ok_def f e)
  have h: "map_shape mp' = map_shape mp" by (simp add: map_shape_def f e)
  show "scroll_ok mp' s = scroll_ok mp s" by (simp add: scroll_ok_def o h r f e)
  show "ready mp' s = ready mp s" "scroll_index mp' = scroll_index mp" by (simp_all add: ready_def scroll_index_def mp')
qed

text \<open>Setting the scroll positions for the vertical blank touches nothing else.\<close>

definition bg_frame :: "'a bg_st_scheme \<Rightarrow> 'a bg_st_scheme \<Rightarrow> bool" where
  "bg_frame s s' \<longleftrightarrow> (\<exists>h v hu vu p. s' = s\<lparr>hscrolls := h, vscrolls := v, hscroll_update := hu, vscroll_update := vu, VBlankProcess := p\<rparr>)"

lemma bg_frame_trans: "bg_frame s s1 \<Longrightarrow> bg_frame s1 s2 \<Longrightarrow> bg_frame s s2"
  unfolding bg_frame_def by auto blast

lemma bg_frameI:
  "bg_frame s s" "bg_frame s (VDP_setHorizontalScrollVSync p v s)" "bg_frame s (VDP_setVerticalScrollVSync p v s)"
proof -
  have e: "s = s\<lparr>hscrolls := hscrolls s, vscrolls := vscrolls s, hscroll_update := hscroll_update s, vscroll_update := vscroll_update s,
      VBlankProcess := VBlankProcess s\<rparr>" by simp
  show "bg_frame s s" unfolding bg_frame_def by (intro exI) (rule e)
  define s1 where "s1 = VDP_setHorizontalScrollVSync p v s"
  have "s1 = s\<lparr>hscrolls := hscrolls s1, vscrolls := vscrolls s1, hscroll_update := hscroll_update s1, vscroll_update := vscroll_update s1,
      VBlankProcess := VBlankProcess s1\<rparr>" by (simp add: s1_def VDP_setHorizontalScrollVSync_def Let_def)
  then show "bg_frame s (VDP_setHorizontalScrollVSync p v s)" unfolding s1_def [symmetric] bg_frame_def by blast
  define s2 where "s2 = VDP_setVerticalScrollVSync p v s"
  have "s2 = s\<lparr>hscrolls := hscrolls s2, vscrolls := vscrolls s2, hscroll_update := hscroll_update s2, vscroll_update := vscroll_update s2,
      VBlankProcess := VBlankProcess s2\<rparr>" by (simp add: s2_def VDP_setVerticalScrollVSync_def Let_def)
  then show "bg_frame s (VDP_setVerticalScrollVSync p v s)" unfolding s2_def [symmetric] bg_frame_def by blast
qed

lemma bg_frame_sel:
  assumes "bg_frame s s'"
  shows "ram s' = ram s" "queue_inv s' q = queue_inv s q" "chip_of s' = chip_of s" "coherent s' = coherent s" "dmaFlag s' = dmaFlag s"
    "regValues s' = regValues s" "queueIndexLimit s' = queueIndexLimit s" "scroll_ok mp s' = scroll_ok mp s" "cell plane s' = cell plane s"
    "queueSize s' = queueSize s" "dataBufferSize s' = dataBufferSize s" "dmaDataBuffer s' = dmaDataBuffer s"
proof -
  obtain h v hu vu p where e: "s' = s\<lparr>hscrolls := h, vscrolls := v, hscroll_update := hu, vscroll_update := vu, VBlankProcess := p\<rparr>"
    using assms unfolding bg_frame_def by blast
  show "ram s' = ram s" "chip_of s' = chip_of s" "dmaFlag s' = dmaFlag s" "regValues s' = regValues s"
    "queueIndexLimit s' = queueIndexLimit s" "queueSize s' = queueSize s" "dataBufferSize s' = dataBufferSize s" "dmaDataBuffer s' = dmaDataBuffer s"
    unfolding e by (simp_all add: chip_of_def)
  show c: "coherent s' = coherent s" unfolding e coherent_def chip_of_def by simp
  show "queue_inv s' q = queue_inv s q" unfolding e by (cases "queueIndexLimit s = 0") (simp_all add: queue_inv_def)
  have g: "geo_ok s' = geo_ok s" unfolding geo_ok_def c unfolding e plane_ok_def screen_ok_def by simp
  have a: "areas_ok s' = areas_ok s" "data_area s' = data_area s" "queue_area s' = queue_area s"
    unfolding e areas_ok_def data_area_def queue_area_def by simp_all
  show "scroll_ok mp s' = scroll_ok mp s" unfolding scroll_ok_def g a unfolding e by simp
  show "cell plane s' = cell plane s" unfolding e
    by (intro ext) (cases plane; simp add: cell_def plane_base_def pw_def ph_def pwidth_def pheight_def)
qed

text \<open>A redraw starts 16 rows above: the update then covers the whole window.\<close>

lemma rows_above: "(ucast (drop_bit 4 y) :: u16) - ucast (drop_bit 4 (y - 256 :: u32)) = 16"
proof -
  define z where "z = y - 256"
  have u: "unat (ucast (drop_bit 4 w) :: u16) = unat w div 16 mod 65536" for w :: u32 by (simp add: unat_ucast_mod unat_drop_bit)
  have m: "n mod (16 * 268435456) div 16 = n div 16 mod 268435456" for n :: nat by (simp only: mod_mult2_eq)
  have "unat (z + 256) div 16 mod 65536 = ((unat z + 256) mod (16 * 268435456)) div 16 mod 65536" by (simp add: unat_word_ariths)
  also have "\<dots> = (unat z div 16 + 16) mod 65536" unfolding m using div_mult_self2 [of 16 "unat z" 16] by (simp add: mod_mod_cancel add.commute)
  finally have "unat (ucast (drop_bit 4 (z + 256)) :: u16) = unat ((ucast (drop_bit 4 z) :: u16) + 16)"
    unfolding u by (simp add: unat_word_ariths u mod_simps)
  then have "(ucast (drop_bit 4 (z + 256)) :: u16) = ucast (drop_bit 4 z) + 16" by (rule unsigned_word_eqI)
  then show ?thesis by (simp add: z_def)
qed

lemma scrollToEx_step:
  fixes s :: "'a bg_st_scheme"
  assumes inv: "shows_map sh cl H (mp, s, v)" and e: "MAP_scrollToEx debug mp x y force s = (mp', s')"
  defines "xt \<equiv> ucast (drop_bit 4 x) :: u16" and "yt \<equiv> ucast (drop_bit 4 y) :: u16"
  shows "mp' = mp\<lparr>m_firstUpdate := False, m_posX := x, m_posY := y, m_lastXT := xt, m_lastYT := yt\<rparr>"
    "hscrolls s' (scroll_index mp) = ucast (- x)" "vscrolls s' (scroll_index mp) = ucast y"
    "\<exists>xs n s0. room (length xs) n s \<and> bg_frame s0 s' \<and>
       queues s s0 xs n (\<lambda>u u'. u = v \<longrightarrow> window 32 H (view sh) xt yt (metas cl u'))"
proof -
  define redraw where "redraw = (force \<or> m_firstUpdate mp)"
  define mp1 where "mp1 = mp\<lparr>m_firstUpdate := False, m_posX := (if redraw then x else m_posX mp), m_posY := (if redraw then y - 256 else m_posY mp),
    m_lastXT := (if redraw then xt else m_lastXT mp), m_lastYT := (if redraw then ucast (drop_bit 4 (y - 256)) else m_lastYT mp)\<rparr>"
  have i: "scroll_ok mp s" "ready mp s" "H = unat (m_planeHeight mp) div 2" "cl = cell (m_plane mp) s" "sh = shown mp (ram s)"
      "\<not> m_firstUpdate mp \<Longrightarrow> window 32 H (view sh) (m_lastXT mp) (m_lastYT mp) (metas cl v)"
      "\<not> m_firstUpdate mp \<Longrightarrow> hscrolls s (scroll_index mp) = ucast (- m_posX mp)"
      "\<not> m_firstUpdate mp \<Longrightarrow> vscrolls s (scroll_index mp) = ucast (m_posY mp)"
    using inv by (auto simp: shows_map_def)
  obtain mp2 s0 where u: "updateMap debug mp1 xt yt s = (mp2, s0)" by fastforce
  have p1: "scroll_ok mp1 s" "shown mp1 = shown mp" "ready mp1 s" "scroll_index mp1 = scroll_index mp"
    using map_position(1,3) [OF mp1_def, of s] map_position(2,4) [OF mp1_def] i(1,2) by simp_all
  have f1: "m_plane mp1 = m_plane mp" "m_planeHeight mp1 = m_planeHeight mp" by (simp_all add: mp1_def)
  have r: "room 74 (84 * H + 2048) s"
  proof -
    have "queueIndex s = 0" using i(2) by (simp add: ready_def queue_inv_def unat_eq_zero)
    moreover have "84 * H = 42 * unat (m_planeHeight mp)" using scroll_geo(2) [OF i(1,3)] by simp
    ultimately show ?thesis using i(2) by (simp add: ready_def room_def)
  qed
  have c: "H = unat (m_planeHeight mp1) div 2" "cl = cell (m_plane mp1) s" "sh = shown mp1 (ram s)" using i p1 f1 by simp_all
  note up = updateMap_ok [OF p1(1) c(1) r c(2,3) u]
  have old: "window 32 H (view sh) (m_lastXT mp1) (m_lastYT mp1) (metas cl v)" if "\<bar>sint (yt - m_lastYT mp1)\<bar> < 16"
  proof (cases redraw)
    case True
    then have "yt - m_lastYT mp1 = 16" using rows_above [of y] by (simp add: mp1_def yt_def)
    then show ?thesis using that by simp
  next
    case False
    then show ?thesis using i(6) by (simp add: mp1_def redraw_def)
  qed
  obtain xs n where q: "room (length xs) n s" "queues s s0 xs n (\<lambda>v v'.
      (\<bar>sint (xt - m_lastXT mp1)\<bar> < 21 \<longrightarrow> \<bar>sint (yt - m_lastYT mp1)\<bar> < 16 \<longrightarrow>
        window 32 H (view sh) (m_lastXT mp1) (m_lastYT mp1) (metas cl v)) \<longrightarrow>
      window 32 H (view sh) xt yt (metas cl v'))" using up(2) by blast
  have q2: "queues s s0 xs n (\<lambda>u u'. u = v \<longrightarrow> window 32 H (view sh) xt yt (metas cl u'))"
    by (rule queues_mono [OF q(2)]) (use old in blast)
  have f: "scroll_frame s s0" using q2 by (simp add: queues_def)
  then obtain m n' t j l where s0: "s0 = s\<lparr>ram := m, nextDataBuffer := n', queueTransferSize := t, queueIndex := j, queueIndexLimit := l\<rparr>"
    unfolding scroll_frame_def by blast
  have mode: "VDP_getHorizontalScrollingMode s0 = HSCROLL_PLANE" "VDP_getVerticalScrollingMode s0 = VSCROLL_PLANE"
    using i(2) scroll_frame_sel(10) [OF f] by (simp_all add: ready_def VDP_getHorizontalScrollingMode_def VDP_getVerticalScrollingMode_def)
  have b: "mp1 = (if redraw then mp\<lparr>m_firstUpdate := False, m_posX := x, m_posY := y - 256, m_lastXT := xt, m_lastYT := ucast (drop_bit 4 (y - 256))\<rparr>
      else mp\<lparr>m_firstUpdate := False\<rparr>)"
    by (cases redraw) (auto simp: mp1_def intro: Map.equality)
  have p2: "mp2 = mp1\<lparr>m_lastXT := xt, m_lastYT := yt\<rparr>" by (rule up(1))
  define s1 where "s1 = (if redraw \<or> m_posX mp2 \<noteq> x then VDP_setHorizontalScrollVSync (m_plane mp) (ucast (- x)) s0 else s0)"
  have m1: "VDP_getVerticalScrollingMode (VDP_setHorizontalScrollVSync p w s0) = VSCROLL_PLANE" for p w
    using mode(2) by (simp add: VDP_setHorizontalScrollVSync_def VDP_getVerticalScrollingMode_def Let_def)
  have f2: "m_plane mp2 = m_plane mp" by (simp add: p2 f1)
  have at: "mp2\<lparr>m_posX := x\<rparr> = mp2" if "m_posX mp2 = x" using that by simp
  have "MAP_scrollToEx debug mp x y force s =
      (let (mp3, s) = (if redraw \<or> m_posX mp2 \<noteq> x then (mp2\<lparr>m_posX := x\<rparr>, s1) else (mp2, s1))
       in if redraw \<or> m_posY mp3 \<noteq> y then (mp3\<lparr>m_posY := y\<rparr>, VDP_setVerticalScrollVSync (m_plane mp) (ucast y) s) else (mp3, s))"
  proof (cases redraw)
    case True
    note u' = u [unfolded b if_P [OF True] xt_def yt_def]
    show ?thesis using True mode m1 f2
      by (simp add: MAP_scrollToEx_def redraw_def [symmetric] Let_def u' s1_def)
  next
    case False
    note u' = u [unfolded b if_not_P [OF False] xt_def yt_def]
    show ?thesis using False mode m1 f2
      by (simp add: MAP_scrollToEx_def redraw_def [symmetric] Let_def u' s1_def)
  qed
  then have s': "s' = (if redraw \<or> m_posY mp2 \<noteq> y then VDP_setVerticalScrollVSync (m_plane mp) (ucast y) s1 else s1)"
    and mp': "mp' = mp2\<lparr>m_posX := x, m_posY := y\<rparr>"
    using e by (auto simp: Let_def split: if_splits)
  show "mp' = mp\<lparr>m_firstUpdate := False, m_posX := x, m_posY := y, m_lastXT := xt, m_lastYT := yt\<rparr>"
    unfolding mp' p2 b by simp
  have s1h: "hscrolls s1 (scroll_index mp) = ucast (- x)"
    using i(7) b by (auto simp: s1_def VDP_setHorizontalScrollVSync_def scroll_index_def s0 redraw_def p2)
  then show "hscrolls s' (scroll_index mp) = ucast (- x)" unfolding s' by (simp add: VDP_setVerticalScrollVSync_def)
  have "vscrolls s1 (scroll_index mp) = vscrolls s (scroll_index mp)" by (simp add: s1_def VDP_setHorizontalScrollVSync_def s0)
  then show "vscrolls s' (scroll_index mp) = ucast y"
    using i(8) b unfolding s' by (auto simp: VDP_setVerticalScrollVSync_def scroll_index_def redraw_def p2)
  have "bg_frame s0 s1" "bg_frame s1 s'" unfolding s1_def s' by (auto intro: bg_frameI)
  then have "bg_frame s0 s'" by (rule bg_frame_trans)
  then show "\<exists>xs n s0. room (length xs) n s \<and> bg_frame s0 s' \<and>
       queues s s0 xs n (\<lambda>u u'. u = v \<longrightarrow> window 32 H (view sh) xt yt (metas cl u'))" using q(1) q2 by blast
qed

text \<open>The flush keeps the setting.\<close>

lemma flush_keeps:
  fixes s :: "'a bg_st_scheme"
  assumes q: "queue_inv s q" "coherent s" and ok: "scroll_ok mp s"
  defines "s' \<equiv> DMA_flushQueue s"
  shows "scroll_ok mp s'" "ram s' = ram s" "cell plane s' = cell plane s" "hscrolls s' = hscrolls s" "vscrolls s' = vscrolls s"
    "queue_inv s' []" "nextDataBuffer s' = dmaDataBuffer s'" "queueSize s' = queueSize s" "dataBufferSize s' = dataBufferSize s"
    "dmaFlag s' = dmaFlag s" "regValues s' = regValues s"
proof -
  have "s' = (DMA_clearQueue s)\<lparr>io := io s'\<rparr>" and c: "coherent s'" using flush_ok [OF q] by (simp_all add: s'_def)
  then obtain es where e: "s' = (DMA_clearQueue s)\<lparr>io := es\<rparr>" by blast
  show "ram s' = ram s" "hscrolls s' = hscrolls s" "vscrolls s' = vscrolls s" "nextDataBuffer s' = dmaDataBuffer s'"
    "queueSize s' = queueSize s" "dataBufferSize s' = dataBufferSize s" "dmaFlag s' = dmaFlag s" "regValues s' = regValues s"
    unfolding e DMA_clearQueue_def by simp_all
  show "queue_inv s' []" using flush_frame(6) [OF q] by (simp add: s'_def)
  show "cell plane s' = cell plane s" unfolding e DMA_clearQueue_def
    by (intro ext) (cases plane; simp add: cell_def plane_base_def pw_def ph_def pwidth_def pheight_def)
  have "plane_ok s' = plane_ok s" "screen_ok s' = screen_ok s" unfolding e DMA_clearQueue_def plane_ok_def screen_ok_def by simp_all
  then have "geo_ok s'" using c ok by (simp add: geo_ok_def scroll_ok_def)
  moreover have "areas_ok s' \<longleftrightarrow> 0 < dmaDataBuffer s \<and> data_area s \<inter> queue_area s = {} \<and>
      dmaDataBuffer s + unat (dataBufferSize s) \<le> 2 ^ 23 \<and> dmaDataBuffer s mod 65536 + unat (dataBufferSize s) \<le> 65536"
    "data_area s' = data_area s" "queue_area s' = queue_area s" "planeWidth s' = planeWidth s" "planeHeight s' = planeHeight s" "ram s' = ram s"
    unfolding e DMA_clearQueue_def areas_ok_def data_area_def queue_area_def by auto
  ultimately show "scroll_ok mp s'" using ok unfolding scroll_ok_def areas_ok_def by simp
qed

lemma fold_dma_puts: "list_all to_vram xs \<Longrightarrow> fold (dma_puts m) (map xfer_op xs) v = fold (xfer_puts m) xs v"
  by (induction xs arbitrary: v) (simp_all add: dma_puts_xfer)

lemma frame_keeps:
  fixes s :: "'a bg_st_scheme"
  assumes inv: "shows_map sh cl H (mp, s, v)" and f: "frame debug (x, y, force) (mp, s, v) = (mp', s', v')"
  shows "shows_map sh cl H (mp', s', v')"
    "mp' = mp\<lparr>m_firstUpdate := False, m_posX := x, m_posY := y, m_lastXT := ucast (drop_bit 4 x), m_lastYT := ucast (drop_bit 4 y)\<rparr>"
proof -
  obtain s1 where s1: "MAP_scrollToEx debug mp x y force s = (mp', s1)" and s': "s' = DMA_flushQueue s1"
      and v': "v' = fold (dma_puts (ram s')) (drop (length (dmas (chip_of s))) (dmas (chip_of s'))) v"
    using f by (auto simp: frame_def Let_def split: prod.splits)
  note st = scrollToEx_step [OF inv s1]
  show mp': "mp' = mp\<lparr>m_firstUpdate := False, m_posX := x, m_posY := y, m_lastXT := ucast (drop_bit 4 x), m_lastYT := ucast (drop_bit 4 y)\<rparr>"
    by (rule st(1))
  obtain xs n s0 where q: "room (length xs) n s" "bg_frame s0 s1"
      "queues s s0 xs n (\<lambda>u u'. u = v \<longrightarrow> window 32 H (view sh) (ucast (drop_bit 4 x)) (ucast (drop_bit 4 y)) (metas cl u'))"
    using st(4) by blast
  have i: "scroll_ok mp s" "ready mp s" "H = unat (m_planeHeight mp) div 2" "cl = cell (m_plane mp) s" "sh = shown mp (ram s)"
    using inv by (auto simp: shows_map_def)
  note b = bg_frame_sel [OF q(2)]
  have fr: "scroll_frame s s0" "list_all to_vram xs" using q(3) by (simp_all add: queues_def)
  note f0 = scroll_frame_sel [OF fr(1)]
  have "queue_inv s0 xs" using q(3) i(2) unfolding queues_def ready_def by (metis append_Nil)
  then have qi: "queue_inv s1 xs" using b(2) by simp
  have ok: "scroll_ok mp s1" using scroll_ok_keep(1) [OF i(1) q(1,3)] b(8) by simp
  then have co: "coherent s1" by (simp add: scroll_ok_def geo_ok_def)
  have "\<not> DMA_getIgnoreOverCapacity s1" using i(2) f0(11) b(5) by (simp add: ready_def DMA_getIgnoreOverCapacity_def)
  then have "flushed s1 xs = xs" by (simp add: flushed_def DMA_getIgnoreOverCapacity_def)
  then have "dmas (chip_of s') = dmas (chip_of s) @ map xfer_op xs" using flush_ok [OF qi co] f0(12) b(3) by (simp add: s')
  then have vx: "v' = fold (xfer_puts (ram s')) xs v" using fold_dma_puts [OF fr(2)] by (simp add: v')
  note k = flush_keeps [OF qi co ok, folded s']
  have "\<forall>a \<in> {nextDataBuffer s ..< nextDataBuffer s + n}. ram s' a = ram s0 a" using k(2) b(1) by simp
  then have w: "window 32 H (view sh) (ucast (drop_bit 4 x)) (ucast (drop_bit 4 y)) (metas cl v')"
    using q(3) unfolding vx queues_def by blast
  note m = map_position(1,3) [OF mp', of s'] map_position(2,4) [OF mp']
  have pl: "m_plane mp' = m_plane mp" "m_planeHeight mp' = m_planeHeight mp" "\<not> m_firstUpdate mp'" "m_posX mp' = x" "m_posY mp' = y"
      "m_lastXT mp' = ucast (drop_bit 4 x)" "m_lastYT mp' = ucast (drop_bit 4 y)" by (simp_all add: mp')
  have "ready mp s'" using i(2) k(6-11) f0 b(5,6,10,11)
    by (simp add: ready_def DMA_getIgnoreOverCapacity_def VDP_getHorizontalScrollingMode_def VDP_getVerticalScrollingMode_def)
  moreover have "shown mp (ram s') = sh" using scroll_ok_keep(2) [OF i(1) q(1,3)] i(5) k(2) b(1) by simp
  moreover have "cell (m_plane mp) s' = cl" using i(4) k(3) f0(7) b(9) by simp
  moreover have "hscrolls s' (scroll_index mp) = ucast (- x)" "vscrolls s' (scroll_index mp) = ucast y" using st(2,3) k(4,5) by simp_all
  ultimately show "shows_map sh cl H (mp', s', v')"
    using k(1) i(3) w unfolding shows_map_def prod.case pl m by simp
qed

lemma frames_keep:
  fixes s :: "'a bg_st_scheme"
  shows "shows_map sh cl H (mp, s, v) \<Longrightarrow> shows_map sh cl H (fold (frame debug) cs (mp, s, v)) \<and>
    m_plane (fst (fold (frame debug) cs (mp, s, v))) = m_plane mp"
proof (induction cs arbitrary: mp s v)
  case (Cons c cs)
  obtain x y force where c: "c = (x, y, force)" by (cases c)
  obtain mp' s' v' where f: "frame debug (x, y, force) (mp, s, v) = (mp', s', v')" by (cases "frame debug (x, y, force) (mp, s, v)")
  show ?case using Cons.IH [OF frame_keeps(1) [OF Cons.prems f]] frame_keeps(2) [OF Cons.prems f] by (simp add: c f)
qed simp

text \<open>The part of the window that a screen of 320 by 240 pixels shows, tile by tile.\<close>

lemma window_tiles:
  fixes s :: "'a dma_st_scheme" and x y :: u32
  assumes ok: "scroll_ok mp s" and H: "H = unat (m_planeHeight mp) div 2" and cl: "cl = cell (m_plane mp) s"
    and w: "window 32 H (view (shown mp (ram s))) (ucast (drop_bit 4 x)) (ucast (drop_bit 4 y)) (metas cl v)"
    and b: "i \<le> 40" "j \<le> 30"
  shows "v (cl (unat x div 8 + i) (unat y div 8 + j)) = shown mp (ram s) (unat x div 8 + i) (unat y div 8 + j)"
proof -
  note g = scroll_geo [OF ok H]
  define X where "X = unat x div 8 + i"
  define Y where "Y = unat y div 8 + j"
  define c where "c = X div 2 - unat x div 16"
  define r where "r = Y div 2 - unat y div 16"
  have e: "unat x div 8 div 2 = unat x div 16" "unat y div 8 div 2 = unat y div 16" by (simp_all flip: div_mult2_eq)
  have half: "(n + k) div 2 = n div 2 + ((n + k) div 2 - n div 2)" "2 * ((n + k) div 2 - n div 2) \<le> k + 1" for n k :: nat
  proof -
    have l: "n div 2 \<le> (n + k) div 2" by (rule div_le_mono) simp
    then show "(n + k) div 2 = n div 2 + ((n + k) div 2 - n div 2)" by simp
    have "2 * ((n + k) div 2) \<le> n + k" "n \<le> 2 * (n div 2) + 1" by simp_all
    then show "2 * ((n + k) div 2 - n div 2) \<le> k + 1" using l by linarith
  qed
  have "2 * c \<le> i + 1" "2 * r \<le> j + 1"
    unfolding c_def X_def r_def Y_def using half(2) [of "unat x div 8" i] half(2) [of "unat y div 8" j] unfolding e .
  then have b': "c < 21" "r < 16" using b by linarith+
  have "X div 2 = unat x div 16 + c" "Y div 2 = unat y div 16 + r"
    unfolding c_def X_def r_def Y_def using half(1) [of "unat x div 8" i] half(1) [of "unat y div 8" j] unfolding e .
  note c = this(1) b'(1) and r = this(2) b'(2)
  have u: "unat (ucast (drop_bit 4 z) + of_nat k :: u16) = (unat z div 16 + k) mod 65536" for z :: u32 and k
    by (simp add: unat_word_ariths unat_of_nat unat_ucast_mod unat_drop_bit mod_simps)
  have m: "map_ok mp (ram s)" "wn mp \<le> 8192" "hn mp \<le> 8192" using ok by (simp_all add: scroll_ok_def)
  have d: "H dvd 65536" "32 dvd (65536 :: nat)" using g(1) by auto
  have "unat (ucast (drop_bit 4 x) + of_nat c :: u16) mod 32 = X div 2 mod 32" "unat (ucast (drop_bit 4 y) + of_nat r :: u16) mod H = Y div 2 mod H"
    unfolding u c(1) r(1) using mod_mod_cancel [OF d(1)] mod_mod_cancel [OF d(2)] by simp_all
  then have "metas cl v (X div 2 mod 32) (Y div 2 mod H) = view (shown mp (ram s)) (ucast (drop_bit 4 x) + of_nat c) (ucast (drop_bit 4 y) + of_nat r)"
    using w c(2) r(2) unfolding window_def by metis
  from fun_cong [OF fun_cong [OF this, of "X mod 2"], of "Y mod 2"]
  have "v (cl (2 * (X div 2 mod 32) + X mod 2) (2 * (Y div 2 mod H) + Y mod 2))
      = shown mp (ram s) (2 * ((unat x div 16 + c) mod 65536) + X mod 2) (2 * ((unat y div 16 + r) mod 65536) + Y mod 2)"
    by (simp add: metas_def view_def u)
  moreover have pair: "(2 * (k div 2 mod n) + k mod 2) mod (2 * n) = k mod (2 * n)" for k n :: nat by (simp add: mod_mult2_eq)
  have "cl (2 * (X div 2 mod 32) + X mod 2) (2 * (Y div 2 mod H) + Y mod 2) = cl X Y"
    using pair [of X 32] pair [of Y H] by (simp add: cl cell_def g(8,9))
  ultimately show ?thesis
    unfolding shown_wrap [OF m] c(1) [symmetric] r(1) [symmetric] X_def [symmetric] Y_def [symmetric] by simp
qed

text \<open>
  C6 Scrolling: whatever calls of \<open>MAP_scrollToEx\<close> are made for a new map, each followed by a flush of the
  queue, after the last one, to \<open>(x, y)\<close>, every tile that a screen at this position can show is the
  one of the map, and the driver's copies of the scroll registers (\<open>hscrolls\<close>, \<open>vscrolls\<close>), which the vertical
  blank process writes to the chip, are set to the position. The plane is 64 cells wide and scrolled as a whole, the
  map has no patch callback, and the buffers have room for one full update.
\<close>

theorem MAP_scrollTo_shows:
  fixes s :: "'a bg_st_scheme"
  assumes "scroll_ok mp s" "ready mp s" "m_firstUpdate mp"
    and "fold (frame debug) (cs @ [(x, y, force)]) (mp, s, v) = (mp', s', v')" "i \<le> 40" "j \<le> 30"
  shows "v' (cell (m_plane mp) s (unat x div 8 + i) (unat y div 8 + j)) = shown mp (ram s) (unat x div 8 + i) (unat y div 8 + j)
    \<and> hscrolls s' (scroll_index mp) = ucast (- x) \<and> vscrolls s' (scroll_index mp) = ucast y \<and> ready mp' s'"
proof -
  define H where "H = unat (m_planeHeight mp) div 2"
  have "shows_map (shown mp (ram s)) (cell (m_plane mp) s) H (mp, s, v)" using assms(1-3) by (simp add: shows_map_def H_def)
  from frames_keep [OF this, of debug cs] have k: "shows_map (shown mp (ram s)) (cell (m_plane mp) s) H (fold (frame debug) cs (mp, s, v))"
      "m_plane (fst (fold (frame debug) cs (mp, s, v))) = m_plane mp" by simp_all
  obtain mp1 s1 v1 where f: "fold (frame debug) cs (mp, s, v) = (mp1, s1, v1)" by (cases "fold (frame debug) cs (mp, s, v)")
  have "frame debug (x, y, force) (mp1, s1, v1) = (mp', s', v')" using assms(4) f by simp
  note l = frame_keeps [OF k(1) [unfolded f] this]
  have p: "m_posX mp' = x" "m_posY mp' = y" "\<not> m_firstUpdate mp'" "m_lastXT mp' = ucast (drop_bit 4 x)" "m_lastYT mp' = ucast (drop_bit 4 y)"
    by (simp_all add: l(2))
  have pl: "m_plane mp' = m_plane mp" "scroll_index mp' = scroll_index mp" using k(2) by (simp_all add: l(2) f scroll_index_def)
  have i: "scroll_ok mp' s'" "ready mp' s'" "H = unat (m_planeHeight mp') div 2" "cell (m_plane mp') s' = cell (m_plane mp) s"
      "shown mp' (ram s') = shown mp (ram s)" "window 32 H (view (shown mp (ram s))) (m_lastXT mp') (m_lastYT mp') (metas (cell (m_plane mp) s) v')"
      "hscrolls s' (scroll_index mp') = ucast (- m_posX mp')" "vscrolls s' (scroll_index mp') = ucast (m_posY mp')"
    using l(1) p(3) unfolding shows_map_def prod.case by blast+
  have w: "window 32 H (view (shown mp' (ram s'))) (ucast (drop_bit 4 x)) (ucast (drop_bit 4 y)) (metas (cell (m_plane mp) s) v')"
    using i(6) unfolding p i(5) .
  show ?thesis using window_tiles [OF i(1,3) i(4) [symmetric] w assms(5,6)] i(2,5,7,8) unfolding p(1,2) pl by simp
qed

definition scroll0 :: bg_st where
  "scroll0 = bg0\<lparr>planeWidth := 64, planeWidthSft := 6, regValues := (\<lambda>_. 0)(0x10 := 1), io := [CtrlW 0x9001],
     dmaQueues := 80000, queueSize := 80, dmaDataBuffer := 131072, nextDataBuffer := 131072, dataBufferSize := 4096, ram := map0_ram\<rparr>"

lemma scroll0_sel:
  "planeWidth scroll0 = 64" "planeWidthSft scroll0 = 6" "regValues scroll0 = (\<lambda>_. 0)(0x10 := 1)" "io scroll0 = [CtrlW 0x9001]"
  "dmaQueues scroll0 = 80000" "queueSize scroll0 = 80" "dmaDataBuffer scroll0 = 131072" "nextDataBuffer scroll0 = 131072"
  "dataBufferSize scroll0 = 4096" "ram scroll0 = map0_ram" "planeHeight scroll0 = 32" "planeHeightSft scroll0 = 5"
  "windowWidth scroll0 = 32" "windowWidthSft scroll0 = 5" "screenWidth scroll0 = 256" "screenHeight scroll0 = 224" "isPal scroll0 = False"
  "queueIndex scroll0 = 0" "queueIndexLimit scroll0 = 0" "queueTransferSize scroll0 = 0" "dmaFlag scroll0 = DMA_AUTOFLUSH"
  by (simp_all add: scroll0_def bg0_def dma_st.defs draw0_def dma0_def)

lemma scroll0_ok: "scroll_ok map0 scroll0" "ready map0 scroll0"
proof -
  have m: "map_ok map0 map0_ram" "m_patchCB map0 = None" "reads map0 map0_ram \<subseteq> {..< 70000}" by (rule map0_ok; simp add: map0_ram_def)+
  have "chip_word 0x9001 chip0 = chip0\<lparr>regs := (\<lambda>_. 0)(0x10 := 1)\<rparr>" by (simp add: chip_word_def chip0_def fun_eq_iff)
  then have "coherent scroll0" by (simp add: coherent_def chip_of_def scroll0_sel chip0_def)
  then have "geo_ok scroll0" by (simp add: geo_ok_def plane_ok_def screen_ok_def scroll0_sel)
  moreover have "areas_ok scroll0" by (simp add: areas_ok_def data_area_def queue_area_def scroll0_sel)
  moreover have "reads map0 map0_ram \<inter> (data_area scroll0 \<union> queue_area scroll0) = {}"
    using m(3) by (fastforce simp: data_area_def queue_area_def scroll0_sel)
  moreover have "map_shape map0" using m(1) by (simp add: map_shape_def map_ok_def sizes_def) (simp add: map0_def)
  ultimately show "scroll_ok map0 scroll0" using m(1,2)
    by (simp add: scroll_ok_def scroll0_sel) (simp add: map0_def wn_def hn_def)
  show "ready map0 scroll0"
    by (simp add: ready_def queue_inv_def scroll0_sel total_def DMA_getIgnoreOverCapacity_def VDP_getHorizontalScrollingMode_def
        VDP_getVerticalScrollingMode_def cfg) (simp add: map0_def)
qed

theorem MAP_scrollTo_shows_witness:
  "\<exists>mp' s' v'. fold (frame False) [(0, 0, False), (300, 40, False)] (map0, scroll0, \<lambda>_. 0) = (mp', s', v') \<and>
     v' (cell BG_A scroll0 (37 + 3) (5 + 2)) = shown map0 map0_ram (37 + 3) (5 + 2) \<and> hscrolls s' 0 = - 300 \<and> vscrolls s' 0 = 40"
proof -
  obtain mp' s' v' where f: "fold (frame False) ([(0, 0, False)] @ [(300, 40, False)]) (map0, scroll0, \<lambda>_. 0) = (mp', s', v')"
    by (metis prod_cases3)
  have "m_firstUpdate map0" "m_plane map0 = BG_A" "scroll_index map0 = 0" by (simp_all add: map0_def scroll_index_def)
  then show ?thesis using MAP_scrollTo_shows [OF scroll0_ok _ f, of 3 2] f by (simp add: scroll0_sel)
qed

end
