(* ===== verification/Spec2Isabelle.thy ===== *)
theory Spec2Isabelle
  imports Vram Object PalFade Sprites Strings Printf Tools TileDraw Mapper MapData Background MapScroll
begin

text \<open>
  SGDK2-CPP: the C core of a development kit for a console with a 68000 processor, in \<open>src/src/*.c\<close> with
  its headers in \<open>src/inc/SGDK\<close>.

  \<^bold>\<open>The program.\<close> The kit is a library that a game links. Its lowest layer is a heap for dynamic
  memory (\<open>memory.c\<close>) and the registers of the video chip (\<open>vdp.c\<close>). On them stand the allocation of
  video memory (\<open>vram.c\<close>), the queue of DMA transfers with its temporary buffer (\<open>dma.c\<close>, flushed once
  a frame by \<open>dma_a.s\<close>), pools of objects (\<open>pool.c\<close>, \<open>object.c\<close>), palettes and their fading (\<open>pal.c\<close>),
  the hardware sprites (\<open>vdp_spr.c\<close>), graphic resources (\<open>tools.c\<close>), the drawing of tile maps
  (\<open>vdp_tile.c\<close>), and above them backgrounds with text (\<open>vdp_bg.c\<close>) and maps larger than the
  screen (\<open>map.c\<close>). Independent of them are arithmetic (\<open>maths.c\<close>), strings and formatted output
  (\<open>str.c\<close>), random numbers and sorting (\<open>tools.c\<close>) and bank switching (\<open>mapper.c\<close>).

  \<^bold>\<open>State.\<close> Integers are words of their width; a signed type is read with \<open>sint\<close>. A pointer to data of
  16 bits and more is the index of a 16-bit word, and memory a function from indices to words
  (\<open>Prelude\<close>); \<open>Strings\<close> and \<open>Printf\<close> use byte addresses. The static variables of a file are a record, and the
  records extend each other as the files use each other: \<open>heap_st\<close>, \<open>vdp_st\<close>, \<open>dma_st\<close> and \<open>pal_st\<close>, \<open>spr_st\<close>, \<open>bg_st\<close>.
  Accesses to the ports of the chip are appended to the list \<open>io\<close>. A result \<open>option\<close> is \<open>None\<close> when the
  code does not return or reads outside of an array that is private to the file; \<open>NULL\<close> and
  \<open>FALSE\<close> are the code's own error values.

  \<^bold>\<open>The theories.\<close>

  \<^item> \<open>Prelude\<close>: integer types, memory, pointers in memory, lemmas on words.
  \<^item> \<open>Blocks\<close>: chains of blocks with a header word, as both the heap and a region of video memory are; the
    locales \<open>block_format\<close>, \<open>block_walk\<close>, \<open>block_skip\<close>, \<open>block_take\<close> and \<open>block_pack\<close> hold what the two have in common.
  \<^item> \<open>Memory\<close>: \<open>memory.c\<close>. Integrity of the heap under any sequence of operations, when an allocation
    succeeds, reuse of released blocks, and requests for which the size computation wraps.
  \<^item> \<open>HeapClient\<close>: what the other files rely on, the locale \<open>block_heap\<close>, interpreted by \<open>memory.c\<close>.
  \<^item> \<open>Vram\<close>: \<open>vram.c\<close>. Tiles handed out are free and inside the region; release undoes allocation.
  \<^item> \<open>Vdp\<close>: \<open>vdp.c\<close>. A model of the control port of the chip (\<open>chip\<close>); the driver's copies of the registers
    and all variables derived from them agree with the chip; the tables in video memory do not overlap.
    The five table addresses share the locale \<open>addr_var\<close>.
  \<^item> \<open>Dma\<close>, \<open>DmaQueue\<close>: \<open>dma.c\<close> and the flush of \<open>dma_a.s\<close>. Refinement of an abstract list of transfers; the
    limit per frame; agreement of the transfer methods; which words a transfer across banks of 128 KB makes the chip
    read and where it writes them; initialisation, first or again; the unrolled copy.
  \<^item> \<open>Pool\<close>, \<open>Object\<close>: \<open>pool.c\<close> and \<open>object.c\<close>, in three blocks of the heap. The abstract state is the list of the
    objects in stack order with the number of free ones; update methods may release the object they run on.
  \<^item> \<open>Palette\<close>, \<open>PalFade\<close>: \<open>pal.c\<close>. Every colour of a fade after every step, and where a fade ends.
  \<^item> \<open>Sprites\<close>: \<open>vdp_spr.c\<close>. Groups of linked hardware sprites, and the bits of their attributes.
  \<^item> \<open>Maths\<close>: \<open>maths.c\<close>. Fixed point operations, angles and the sine table, BCD, integer logarithm.
  \<^item> \<open>Strings\<close>, \<open>Printf\<close>: \<open>str.c\<close>. Decimal conversion as the inverse of reading a number, string operations,
    and \<open>sprintf\<close>.
  \<^item> \<open>Tools\<close>: the generator of random numbers and the sorting routines of \<open>tools.c\<close>; the comparison is the
    locale \<open>comparison\<close>, interpreted by the unsigned and the signed order of words.
  \<^item> \<open>Resources\<close>: tile sets, tile maps, images, bitmaps and maps of \<open>tools.c\<close>: sizes, allocation and unpacking.
  \<^item> \<open>Tiles\<close>, \<open>TileDraw\<close>: \<open>vdp_tile.c\<close>, and what drawing does to the video memory. The chip model is
    extended by the address register and the memory; the locale \<open>plane_drawer\<close> states what
    rectangles need of the drawing of rows and columns, and is interpreted by both families of functions.
  \<^item> \<open>Background\<close>: \<open>vdp_bg.c\<close>. Text on a plane; scroll positions deferred to the vertical blank as a refinement of
    setting them at once; padded text and attributes.
  \<^item> \<open>MapData\<close>: the structure, the creation and the decoders of \<open>map.c\<close>. The decoders with pointers agree with
    the access to single tiles, for all widths of the indexes; a created map is well formed.
  \<^item> \<open>MapScroll\<close>: the scrolling of \<open>map.c\<close>, on top of the transfer queue. The locale \<open>plane_window\<close> says how
    painting columns and rows moves a window over a plane that wraps around; after any sequence of scrolls
    and flushes the screen shows the map.
  \<^item> \<open>Mapper\<close>: \<open>mapper.c\<close>, with a model of what the processor sees through the mapper.

  \<^bold>\<open>Recursion.\<close> Loops with a bound are structural or have a termination proof. A loop that may run on,
  as a walk over a damaged chain of blocks or over a string without end, is a \<open>partial_function\<close>, and the
  properties prove that it returns where they claim a result. No fuel is used.

  \<^bold>\<open>Parameters.\<close> Code in assembly or outside the repository appears as an argument: the decompressors
  (record \<open>unpackers\<close>), \<open>VDP_loadBMPTileData\<close>, the methods of objects, the wait for the next frame, the hooks of
  \<open>vdp.c\<close> into the font loader and the sprite engine (record \<open>hooks\<close>), addresses that the linker or the
  resource compiler assign (\<open>bend\<close>, \<open>font_default\<close>), and the build switch for log messages (\<open>debug\<close>).

  \<^bold>\<open>Not modelled.\<close> Code that only talks to hardware or to assembly: interrupts and start-up (\<open>sys.c\<close>), joypads
  (\<open>joy.c\<close>), sound (\<open>psg.c\<close>, \<open>ym2612.c\<close>, \<open>snd/\<close>), timers (\<open>timer.c\<close>), save RAM, the extensions for
  network and file systems (\<open>ext/\<close>), and of \<open>vdp.c\<close> and \<open>z80_ctrl.c\<close> the waits and the
  reset of the screen. The sprite engine, the bitmap mode and the 3D transforms are left out for their size. Log messages, the generated tables of logarithms and square roots and the tool
  chain shipped with the repository are not part of the model. Interrupts between two steps of an operation
  are not modelled either: an operation is a function of the state it starts in.
\<close>

end
